(* ===== verification/Prelude.thy ===== *)
theory Prelude
  imports Main "HOL-Library.Word" "HOL-Library.Monad_Syntax"
begin

text \<open>
  Shared vocabulary of the development: the machine types of the C sources, 32-bit
  counter arithmetic written out over the naturals, heap blocks (allocation, element
  access, \<open>memcpy\<close>), and chains of records linked by a numeric \<open>next\<close> field with 0 as
  the null link.  Every file of the storage engine (rows of a ptable, blocks of a
  tbchain, free lists of a ptree) is such an arena of linked records.
\<close>

unbundle bit_operations_syntax

named_theorems u32_simps \<open>arithmetic of the 32-bit counters\<close>
named_theorems mem_simps \<open>bounds-checked element access and block copies\<close>
named_theorems chain_simps \<open>linked chains under updates of the arena\<close>

section \<open>Machine types\<close>

type_synonym u8 = "8 word"
type_synonym u16 = "16 word"
type_synonym u32 = "32 word"
type_synonym u64 = "64 word"

text \<open>\<open>fs_rid\<close> is an unsigned long long.\<close>

type_synonym rid = "64 word"

text \<open>A 32-bit unsigned counter is a natural number below \<open>2 ^ 32\<close>.\<close>

definition u32 :: "nat \<Rightarrow> nat" where
  "u32 n = n mod 4294967296"

definition sub32 :: "nat \<Rightarrow> nat \<Rightarrow> nat" where
  "sub32 a b = (a + 4294967296 - b mod 4294967296) mod 4294967296"

text \<open>The conversion of a C \<open>int\<close> to \<open>uint32_t\<close>.\<close>

definition u32_of_int :: "int \<Rightarrow> nat" where
  "u32_of_int i = nat (i mod 4294967296)"

lemma u32_id [u32_simps, simp]: "n < 4294967296 \<Longrightarrow> u32 n = n"
  by (simp add: u32_def)

lemma u32_less [u32_simps]: "u32 n < 4294967296"
  by (simp add: u32_def)

lemma sub32_id [u32_simps, simp]:
  "b \<le> a \<Longrightarrow> a < 4294967296 \<Longrightarrow> sub32 a b = a - b"
  by (simp add: sub32_def mod_if)

lemma u32_of_int_id [u32_simps, simp]:
  "0 \<le> i \<Longrightarrow> i < 4294967296 \<Longrightarrow> u32_of_int i = nat i"
  by (simp add: u32_of_int_def)

lemma u32_of_int_less [u32_simps]: "u32_of_int i < 4294967296"
  by (simp add: u32_of_int_def nat_less_iff)

section \<open>Blocks of memory\<close>

text \<open>
  A heap block is the list of its elements.  Allocation succeeds; the elements a
  \<open>realloc\<close> adds are not initialised, so they are given by an arbitrary function
  \<open>junk\<close>, over which every statement quantifies.  An access outside the block is the
  value \<open>None\<close>: undefined behaviour is visible in the model.
\<close>

definition load_at :: "'a list \<Rightarrow> nat \<Rightarrow> 'a option" where
  "load_at xs i = (if i < length xs then Some (xs ! i) else None)"

definition store_at :: "'a list \<Rightarrow> nat \<Rightarrow> 'a \<Rightarrow> 'a list option" where
  "store_at xs i x = (if i < length xs then Some (xs[i := x]) else None)"

definition realloc :: "(nat \<Rightarrow> 'a) \<Rightarrow> 'a list \<Rightarrow> nat \<Rightarrow> 'a list" where
  "realloc junk xs n = take n xs @ map junk [length xs..<n]"

text \<open>\<open>memcpy (&dst[off], src, n)\<close>, counted in elements.\<close>

definition memcpy_at :: "'a list \<Rightarrow> nat \<Rightarrow> 'a list \<Rightarrow> nat \<Rightarrow> 'a list option" where
  "memcpy_at dst off src n =
     (if off + n \<le> length dst \<and> n \<le> length src
      then Some (take off dst @ take n src @ drop (off + n) dst) else None)"

lemma load_at_Some [mem_simps, simp]: "i < length xs \<Longrightarrow> load_at xs i = Some (xs ! i)"
  by (simp add: load_at_def)

lemma store_at_Some [mem_simps, simp]: "i < length xs \<Longrightarrow> store_at xs i x = Some (xs[i := x])"
  by (simp add: store_at_def)

lemma store_at_None [mem_simps]: "store_at xs i x = None \<longleftrightarrow> length xs \<le> i"
  by (auto simp: store_at_def)

lemma length_realloc [mem_simps, simp]: "length (realloc junk xs n) = n"
  by (simp add: realloc_def)

lemma take_realloc [mem_simps]:
  "k \<le> n \<Longrightarrow> k \<le> length xs \<Longrightarrow> take k (realloc junk xs n) = take k xs"
  by (simp add: realloc_def min_def)

lemma memcpy_at_Some [mem_simps]:
  "off + n \<le> length dst \<Longrightarrow> n \<le> length src \<Longrightarrow>
   memcpy_at dst off src n = Some (take off dst @ take n src @ drop (off + n) dst)"
  by (simp add: memcpy_at_def)

lemma length_memcpy_at: "memcpy_at dst off src n = Some d \<Longrightarrow> length d = length dst"
  by (auto simp: memcpy_at_def split: if_splits)

lemma take_Suc_update [mem_simps]:
  "k < length xs \<Longrightarrow> take (Suc k) (xs[k := x]) = take k xs @ [x]"
  by (simp add: take_Suc_conv_app_nth)

section \<open>Chains of linked records\<close>

text \<open>
  \<open>linked nxt b xs\<close>: following \<open>nxt\<close> from the link \<open>b\<close> visits exactly the records
  \<open>xs\<close>, in this order, and ends at the null link 0.
\<close>

fun linked :: "(nat \<Rightarrow> nat) \<Rightarrow> nat \<Rightarrow> nat list \<Rightarrow> bool" where
  "linked nxt b [] = (b = 0)"
| "linked nxt b (x # xs) = (b = x \<and> x \<noteq> 0 \<and> linked nxt (nxt x) xs)"

lemma linked_0 [chain_simps, simp]: "linked nxt 0 xs \<longleftrightarrow> xs = []"
  by (cases xs) auto

lemma linked_nonzero: "linked nxt b xs \<Longrightarrow> x \<in> set xs \<Longrightarrow> x \<noteq> 0"
  by (induction xs arbitrary: b) auto

lemma linked_unique: "linked nxt b xs \<Longrightarrow> linked nxt b ys \<Longrightarrow> xs = ys"
proof (induction xs arbitrary: b ys)
  case Nil
  then show ?case by (cases ys) auto
next
  case (Cons x xs)
  then show ?case by (cases ys) auto
qed

lemma linked_suffix: "linked nxt b (xs @ y # ys) \<Longrightarrow> linked nxt y (y # ys)"
  by (induction xs arbitrary: b) auto

lemma linked_distinct: "linked nxt b xs \<Longrightarrow> distinct xs"
proof (induction xs arbitrary: b)
  case (Cons x xs)
  have "x \<notin> set xs"
  proof
    assume "x \<in> set xs"
    then obtain us vs where xs: "xs = us @ x # vs"
      by (auto simp: in_set_conv_decomp)
    from Cons.prems xs have "linked nxt x (x # us @ x # vs)" by simp
    moreover from Cons.prems xs have "linked nxt x (x # vs)"
      using linked_suffix [of nxt "nxt x" us x vs] by simp
    ultimately have "x # us @ x # vs = x # vs" by (rule linked_unique)
    then show False by simp
  qed
  with Cons show ?case by auto
qed simp

lemma linked_upd [chain_simps]:
  "a \<notin> set xs \<Longrightarrow> linked (nxt(a := v)) b xs = linked nxt b xs"
  by (induction xs arbitrary: b) auto

lemma linked_cong:
  "linked nxt b xs \<Longrightarrow> (\<And>x. x \<in> set xs \<Longrightarrow> nxt' x = nxt x) \<Longrightarrow> linked nxt' b xs"
  by (induction xs arbitrary: b) auto

lemma linked_tail: "linked nxt b xs \<Longrightarrow> b \<noteq> 0 \<Longrightarrow> \<exists>ys. xs = b # ys \<and> linked nxt (nxt b) ys"
  by (cases xs) auto

end
