(* ===== verification/Rid.thy ===== *)
theory Rid
  imports Prelude
begin

text \<open>
  Resource identifiers: the bit layout of an \<open>fs_rid\<close>
  (\<open>src/src/common/4s-datatypes.h\<close>, \<open>src/src/common/4s-hash.h\<close>).  The two top bits tell
  literals, blank nodes and URIs apart; the low bits select the segment that stores the
  resource.
\<close>

definition FS_RID_NULL :: rid where
  "FS_RID_NULL = 0x8000000000000000"

definition FS_RID_GONE :: rid where
  "FS_RID_GONE = 0"

definition FS_IS_BNODE :: "rid \<Rightarrow> bool" where
  "FS_IS_BNODE x \<longleftrightarrow> x AND 0xC000000000000000 = 0x8000000000000000"

definition FS_IS_URI :: "rid \<Rightarrow> bool" where
  "FS_IS_URI x \<longleftrightarrow> x AND 0xC000000000000000 = 0xC000000000000000"

definition FS_IS_URI_BN :: "rid \<Rightarrow> bool" where
  "FS_IS_URI_BN x \<longleftrightarrow> x AND 0x8000000000000000 = 0x8000000000000000"

definition FS_IS_LITERAL :: "rid \<Rightarrow> bool" where
  "FS_IS_LITERAL x \<longleftrightarrow> x AND 0x8000000000000000 = 0"

definition FS_BNODE_NUM :: "rid \<Rightarrow> rid" where
  "FS_BNODE_NUM x = x - 0x8000000000000000"

definition FS_NUM_BNODE :: "rid \<Rightarrow> rid" where
  "FS_NUM_BNODE x = x OR 0x8000000000000000"

text \<open>\<open>FS_RID_SEGMENT(x, size)\<close>: the segment of a cluster of \<open>size\<close> segments.\<close>

definition FS_RID_SEGMENT :: "rid \<Rightarrow> rid \<Rightarrow> rid" where
  "FS_RID_SEGMENT x sz = x AND (sz - 1)"

lemmas rid_kind_defs = FS_IS_BNODE_def FS_IS_URI_def FS_IS_URI_BN_def FS_IS_LITERAL_def

section \<open>The kinds partition the identifiers\<close>

text \<open>Each macro is a test of the two top bits.\<close>

lemma bit_top_mask_1: "bit (0x8000000000000000 :: rid) n \<longleftrightarrow> n = 63"
proof -
  have "(0x8000000000000000 :: rid) = 2 ^ 63" by simp
  then show ?thesis by (simp only: bit_exp_iff) auto
qed

lemma bit_top_mask_2: "bit (0xC000000000000000 :: rid) n \<longleftrightarrow> n = 63 \<or> n = 62"
proof -
  have "(0xC000000000000000 :: rid) = 2 ^ 63 OR 2 ^ 62" by simp
  then show ?thesis by (simp only: bit_or_iff bit_exp_iff) auto
qed

lemmas top_bits = bit_top_mask_1 bit_top_mask_2

lemma FS_IS_LITERAL_bit: "FS_IS_LITERAL x \<longleftrightarrow> \<not> bit x 63"
  unfolding FS_IS_LITERAL_def bit_eq_iff by (auto simp: bit_and_iff top_bits simp del: bit_numeral_word_iff
      dest: spec [where x = "63 :: nat"] spec [where x = "62 :: nat"])

lemma FS_IS_URI_BN_bit: "FS_IS_URI_BN x \<longleftrightarrow> bit x 63"
  unfolding FS_IS_URI_BN_def bit_eq_iff by (auto simp: bit_and_iff top_bits simp del: bit_numeral_word_iff
      dest: spec [where x = "63 :: nat"] spec [where x = "62 :: nat"])

lemma FS_IS_URI_bit: "FS_IS_URI x \<longleftrightarrow> bit x 63 \<and> bit x 62"
  unfolding FS_IS_URI_def bit_eq_iff by (auto simp: bit_and_iff top_bits simp del: bit_numeral_word_iff
      dest: spec [where x = "63 :: nat"] spec [where x = "62 :: nat"])

lemma FS_IS_BNODE_bit: "FS_IS_BNODE x \<longleftrightarrow> bit x 63 \<and> \<not> bit x 62"
  unfolding FS_IS_BNODE_def bit_eq_iff by (auto simp: bit_and_iff top_bits simp del: bit_numeral_word_iff
      dest: spec [where x = "63 :: nat"] spec [where x = "62 :: nat"])

lemmas rid_kind_bits = FS_IS_LITERAL_bit FS_IS_URI_BN_bit FS_IS_URI_bit FS_IS_BNODE_bit

lemma FS_NUM_BNODE_bit: "bit (FS_NUM_BNODE x) n \<longleftrightarrow> bit x n \<or> n = 63"
  by (auto simp: FS_NUM_BNODE_def bit_or_iff top_bits simp del: bit_numeral_word_iff)

lemma FS_NUM_BNODE_kind: "\<not> bit x 62 \<Longrightarrow> FS_IS_BNODE (FS_NUM_BNODE x)"
  by (simp add: FS_IS_BNODE_bit FS_NUM_BNODE_bit)

lemma rid_kinds_exclusive:
  "FS_IS_LITERAL x \<longleftrightarrow> \<not> FS_IS_URI_BN x"
  "FS_IS_URI_BN x \<longleftrightarrow> FS_IS_URI x \<or> FS_IS_BNODE x"
  "\<not> (FS_IS_URI x \<and> FS_IS_BNODE x)"
  by (auto simp: rid_kind_bits)

lemma FS_RID_NULL_bnode: "FS_IS_BNODE FS_RID_NULL"
  by (simp add: FS_RID_NULL_def FS_IS_BNODE_def)

lemma FS_RID_NULL_ne_0 [simp]: "FS_RID_NULL \<noteq> 0" "0 \<noteq> FS_RID_NULL"
  by (simp_all add: FS_RID_NULL_def)

section \<open>Segments\<close>

text \<open>
  With a power of two segments the mask is the remainder, so the segments partition the
  resources evenly and the segment number is always in range.
\<close>

lemma FS_RID_SEGMENT_mod:
  assumes "n < 64"
  shows "unat (FS_RID_SEGMENT x (2 ^ n)) = unat x mod 2 ^ n"
proof -
  have "(2 :: rid) ^ n - 1 = mask n" by (simp add: mask_eq_exp_minus_1)
  then have "FS_RID_SEGMENT x (2 ^ n) = take_bit n x"
    by (simp only: FS_RID_SEGMENT_def take_bit_eq_mask)
  then show ?thesis by (simp only: unsigned_take_bit_eq) (simp add: take_bit_eq_mod)
qed

end
