(* ===== verification/CQsort.thy ===== *)
theory CQsort
  imports Prelude "HOL-Library.Multiset"
begin

text \<open>
  \<open>qsort\<close> of the C library, which the sources call with their own comparison functions.
  The library promises an arrangement of the elements in which no element compares
  greater than a later one.  The model computes one by insertion; where elements that
  compare equal are identical the promise leaves no choice, and \<open>qsort_unique\<close> states
  that any arrangement the library could return is the modelled one.
\<close>

fun qsort_insert :: "('a \<Rightarrow> 'a \<Rightarrow> int) \<Rightarrow> 'a \<Rightarrow> 'a list \<Rightarrow> 'a list" where
  "qsort_insert cmp x [] = [x]"
| "qsort_insert cmp x (y # ys) =
     (if cmp x y \<le> 0 then x # y # ys else y # qsort_insert cmp x ys)"

definition qsort :: "('a \<Rightarrow> 'a \<Rightarrow> int) \<Rightarrow> 'a list \<Rightarrow> 'a list" where
  "qsort cmp xs = foldr (qsort_insert cmp) xs []"

abbreviation qsorted :: "('a \<Rightarrow> 'a \<Rightarrow> int) \<Rightarrow> 'a list \<Rightarrow> bool" where
  "qsorted cmp \<equiv> sorted_wrt (\<lambda>a b. cmp a b \<le> 0)"

lemma mset_qsort_insert [simp]: "mset (qsort_insert cmp x xs) = add_mset x (mset xs)"
  by (induction xs) auto

lemma mset_qsort [simp]: "mset (qsort cmp xs) = mset xs"
  by (induction xs) (simp_all add: qsort_def)

lemma set_qsort [simp]: "set (qsort cmp xs) = set xs"
  using mset_qsort by (rule mset_eq_setD)

lemma length_qsort [simp]: "length (qsort cmp xs) = length xs"
  using mset_qsort by (rule mset_eq_length)

lemma set_qsort_insert [simp]: "set (qsort_insert cmp x xs) = insert x (set xs)"
  by (induction xs) auto

text \<open>The contract of a comparison function: a total preorder.\<close>

locale comparator =
  fixes cmp :: "'a \<Rightarrow> 'a \<Rightarrow> int"
  assumes cmp_total: "cmp a b \<le> 0 \<or> cmp b a \<le> 0"
    and cmp_trans: "cmp a b \<le> 0 \<Longrightarrow> cmp b c \<le> 0 \<Longrightarrow> cmp a c \<le> 0"
begin

lemma qsorted_insert: "qsorted cmp xs \<Longrightarrow> qsorted cmp (qsort_insert cmp x xs)"
proof (induction xs)
  case (Cons y ys)
  then show ?case
    using cmp_total [of x y] by (auto intro: cmp_trans [of x y])
qed simp

lemma qsorted_qsort: "qsorted cmp (qsort cmp xs)"
  by (induction xs) (simp_all add: qsort_def qsorted_insert)

end

text \<open>Comparison functions whose equal elements are identical.\<close>

locale total_comparator = comparator +
  assumes cmp_antisym: "cmp a b \<le> 0 \<Longrightarrow> cmp b a \<le> 0 \<Longrightarrow> a = b"
begin

lemma qsorted_unique: "qsorted cmp xs \<Longrightarrow> qsorted cmp ys \<Longrightarrow> mset xs = mset ys \<Longrightarrow> xs = ys"
proof (induction xs arbitrary: ys)
  case (Cons x xs)
  then obtain y ys' where ys: "ys = y # ys'" by (cases ys) auto
  have "x \<in> set (y # ys')" "y \<in> set (x # xs)"
    using mset_eq_setD [OF Cons.prems(3)] ys by auto
  with Cons.prems ys have "x = y" by (auto intro: cmp_antisym)
  with Cons ys show ?case by simp
qed simp

lemma qsort_unique: "qsorted cmp ys \<Longrightarrow> mset ys = mset xs \<Longrightarrow> ys = qsort cmp xs"
  by (rule qsorted_unique) (simp_all add: qsorted_qsort)

end

end
