(* ===== verification/RidVector.thy ===== *)
theory RidVector
  imports Rid CQsort
begin

text \<open>
  Growable vectors of \<open>src/src/common/datatypes.c\<close>: \<open>fs_rid_vector\<close> (vectors of resource
  identifiers) and \<open>fs_p_vector\<close> (vectors of pointers).  Both structs hold a length, an
  allocated size and a heap block.  An operation that would write outside its block
  yields \<open>None\<close>; the lemmas show this never happens below the 32-bit limits, and that
  each operation acts on the represented sequence \<open>rv_elems\<close> as its name says.
  The two vectors of a binary operation are distinct objects.
\<close>

record 'a vec =
  rv_length :: nat
  rv_size :: nat
  rv_data :: "'a list"

type_synonym rid_vector = "rid vec"

section \<open>Operations\<close>

definition fs_rid_vector_new :: "int \<Rightarrow> rid_vector" where
  "fs_rid_vector_new len =
     (let sz = (if len < 32 then 32 else nat len)
      in \<lparr>rv_length = u32_of_int len, rv_size = sz, rv_data = replicate sz 0\<rparr>)"

definition fs_rid_vector_append ::
  "(nat \<Rightarrow> rid) \<Rightarrow> rid_vector \<Rightarrow> rid \<Rightarrow> rid_vector option" where
  "fs_rid_vector_append junk v r =
     (let v1 = (if rv_length v \<ge> rv_size v
                then let sz = (if rv_size v \<noteq> 0 then u32 (rv_size v * 2) else 32)
                     in v\<lparr>rv_size := sz, rv_data := realloc junk (rv_data v) sz\<rparr>
                else v)
      in map_option (\<lambda>d. v1\<lparr>rv_data := d, rv_length := u32 (rv_length v1 + 1)\<rparr>)
           (store_at (rv_data v1) (rv_length v1) r))"

text \<open>The loop \<open>for (j = 0; j < v2->length; j++) app (v, v2->data[j])\<close>.\<close>

fun append_each :: "('v \<Rightarrow> 'a \<Rightarrow> 'v option) \<Rightarrow> 'v \<Rightarrow> 'a list \<Rightarrow> 'v option" where
  "append_each app v [] = Some v"
| "append_each app v (r # rs) = Option.bind (app v r) (\<lambda>v'. append_each app v' rs)"

text \<open>What a loop over \<open>data[0 .. length - 1]\<close> reads.\<close>

definition rv_read :: "'a vec \<Rightarrow> 'a list option" where
  "rv_read v = (if rv_length v \<le> length (rv_data v)
                then Some (take (rv_length v) (rv_data v)) else None)"

text \<open>
  \<open>fs_rid_vector_append_vector\<close> and \<open>fs_p_vector_append_vector\<close> have the same body but
  for the element append they fall back to.
\<close>

definition append_vector_body ::
  "('a vec \<Rightarrow> 'a \<Rightarrow> 'a vec option) \<Rightarrow> (nat \<Rightarrow> 'a) \<Rightarrow> 'a vec option \<Rightarrow> 'a vec option
   \<Rightarrow> 'a vec option option" where
  "append_vector_body app junk vo vo2 =
     (case vo of None \<Rightarrow> Some None | Some v \<Rightarrow>
      (case vo2 of None \<Rightarrow> Some (Some v) | Some v2 \<Rightarrow>
       (let v1 = (if rv_length v2 > 4 \<and> sub32 (rv_size v) (rv_length v) < rv_length v2
                  then let sz = u32 (rv_size v + (if rv_length v2 > 32 then rv_length v2 else 32))
                       in v\<lparr>rv_size := sz, rv_data := realloc junk (rv_data v) sz\<rparr>
                  else v)
        in if sub32 (rv_size v1) (rv_length v1) \<ge> rv_length v2
           then map_option (\<lambda>d. Some (v1\<lparr>rv_data := d, rv_length := u32 (rv_length v1 + rv_length v2)\<rparr>))
                  (memcpy_at (rv_data v1) (rv_length v1) (rv_data v2) (rv_length v2))
           else Option.bind (rv_read v2) (\<lambda>rs. map_option Some (append_each app v1 rs)))))"

definition fs_rid_vector_append_vector ::
  "(nat \<Rightarrow> rid) \<Rightarrow> rid_vector option \<Rightarrow> rid_vector option \<Rightarrow> rid_vector option option" where
  "fs_rid_vector_append_vector junk = append_vector_body (fs_rid_vector_append junk) junk"

definition fs_rid_vector_append_vector_no_nulls ::
  "(nat \<Rightarrow> rid) \<Rightarrow> rid_vector \<Rightarrow> rid_vector option \<Rightarrow> rid_vector option" where
  "fs_rid_vector_append_vector_no_nulls junk v vo2 =
     (case vo2 of None \<Rightarrow> Some v | Some v2 \<Rightarrow>
       Option.bind (rv_read v2) (\<lambda>rs. append_each (fs_rid_vector_append junk) v (filter (\<lambda>r. r \<noteq> FS_RID_NULL) rs)))"

definition fs_rid_vector_append_vector_no_nulls_lit ::
  "(nat \<Rightarrow> rid) \<Rightarrow> rid_vector \<Rightarrow> rid_vector option \<Rightarrow> rid_vector option" where
  "fs_rid_vector_append_vector_no_nulls_lit junk v vo2 =
     (case vo2 of None \<Rightarrow> Some v | Some v2 \<Rightarrow>
       Option.bind (rv_read v2)
         (\<lambda>rs. append_each (fs_rid_vector_append junk) v (filter (\<lambda>r. r \<noteq> FS_RID_NULL \<and> \<not> FS_IS_LITERAL r) rs)))"

text \<open>
  \<open>fs_rid_vector_copy\<close> allocates through \<open>fs_rid_vector_new (v->size)\<close>, whose parameter
  is an \<open>int\<close>: a size of \<open>2 ^ 31\<close> or more arrives as a negative number.
\<close>

definition int_of_u32 :: "nat \<Rightarrow> int" where
  "int_of_u32 n = (if n < 2147483648 then int n else int n - 4294967296)"

definition fs_rid_vector_copy :: "rid_vector option \<Rightarrow> rid_vector option option" where
  "fs_rid_vector_copy vo =
     (case vo of None \<Rightarrow> Some None | Some v \<Rightarrow>
       (let v2 = fs_rid_vector_new (int_of_u32 (rv_size v))
        in map_option (\<lambda>d. Some (v2\<lparr>rv_length := rv_length v, rv_data := d\<rparr>))
             (memcpy_at (rv_data v2) 0 (rv_data v) (rv_size v))))"

definition fs_rid_vector_clear :: "'a vec \<Rightarrow> 'a vec" where
  "fs_rid_vector_clear v = v\<lparr>rv_length := 0\<rparr>"

text \<open>\<open>rid_compare\<close> compares the identifiers as signed 64-bit integers.\<close>

definition rid_compare :: "rid \<Rightarrow> rid \<Rightarrow> int" where
  "rid_compare va vb =
     (let a = sint va; b = sint vb in if a > b then 1 else if a < b then -1 else 0)"

definition fs_rid_vector_sort :: "rid_vector \<Rightarrow> rid_vector" where
  "fs_rid_vector_sort v =
     v\<lparr>rv_data := qsort rid_compare (take (rv_length v) (rv_data v)) @ drop (rv_length v) (rv_data v)\<rparr>"

text \<open>The in-place loop of \<open>fs_rid_vector_uniq\<close> at \<open>row\<close>, with write position \<open>outrow\<close>.\<close>

function uniq_loop ::
  "bool \<Rightarrow> nat \<Rightarrow> rid list \<Rightarrow> nat \<Rightarrow> nat \<Rightarrow> rid list \<times> nat" where
  "uniq_loop remove_null len data outrow row =
     (if row < len then
        if remove_null \<and> data ! row = FS_RID_NULL
        then uniq_loop remove_null len data outrow (Suc row)
        else if row < len - 1 \<and> data ! row = data ! Suc row
        then uniq_loop remove_null len data outrow (Suc row)
        else uniq_loop remove_null len (data[outrow := data ! row]) (Suc outrow) (Suc row)
      else (data, outrow))"
  by pat_completeness auto
termination
  by (relation "measure (\<lambda>(_, n, _, _, row). n - row)") auto

declare uniq_loop.simps [simp del]

definition fs_rid_vector_uniq :: "rid_vector option \<Rightarrow> bool \<Rightarrow> rid_vector option" where
  "fs_rid_vector_uniq vo remove_null =
     (case vo of None \<Rightarrow> None | Some v \<Rightarrow>
       (let (d, outrow) = uniq_loop remove_null (rv_length v) (rv_data v) 0 0
        in Some (v\<lparr>rv_data := d, rv_length := outrow\<rparr>)))"

text \<open>\<open>int32_t\<close> arguments are converted to unsigned before the comparisons.\<close>

definition fs_rid_vector_truncate :: "'a vec option \<Rightarrow> int \<Rightarrow> 'a vec option" where
  "fs_rid_vector_truncate vo len =
     (case vo of None \<Rightarrow> None | Some v \<Rightarrow>
       if rv_length v < u32_of_int len then Some v
       else Some (v\<lparr>rv_length := u32_of_int len\<rparr>))"

definition fs_rid_vector_grow ::
  "(nat \<Rightarrow> 'a) \<Rightarrow> 'a vec option \<Rightarrow> int \<Rightarrow> 'a vec option" where
  "fs_rid_vector_grow junk vo len =
     (case vo of None \<Rightarrow> None | Some v \<Rightarrow>
       (let n = u32_of_int len;
            v1 = (if n > rv_size v
                  then v\<lparr>rv_data := realloc junk (rv_data v) n, rv_size := n\<rparr> else v)
        in Some (v1\<lparr>rv_length := n\<rparr>)))"

definition fs_rid_vector_contains :: "rid_vector option \<Rightarrow> rid \<Rightarrow> bool" where
  "fs_rid_vector_contains vo r =
     (case vo of None \<Rightarrow> False | Some v \<Rightarrow> r \<in> set (take (rv_length v) (rv_data v)))"

text \<open>
  \<open>fs_p_vector_append\<close> doubles in a loop; on a size that has wrapped to 0 the loop does
  not end, which is the value \<open>None\<close> of the partial function.
\<close>

partial_function (option) p_grow :: "nat \<Rightarrow> nat \<Rightarrow> nat option" where
  "p_grow len sz = (if len \<ge> sz then p_grow len (u32 (sz * 2)) else Some sz)"

definition fs_p_vector_new :: "'a \<Rightarrow> int \<Rightarrow> 'a vec" where
  "fs_p_vector_new null len =
     (let sz = (if len < 32 then 32 else nat len)
      in \<lparr>rv_length = u32_of_int len, rv_size = sz, rv_data = replicate sz null\<rparr>)"

definition fs_p_vector_append :: "(nat \<Rightarrow> 'a) \<Rightarrow> 'a vec \<Rightarrow> 'a \<Rightarrow> 'a vec option" where
  "fs_p_vector_append junk v p =
     Option.bind
       (if rv_length v \<ge> rv_size v
        then map_option (\<lambda>sz. v\<lparr>rv_size := sz, rv_data := realloc junk (rv_data v) sz\<rparr>)
               (p_grow (rv_length v) (if rv_size v = 0 then 32 else rv_size v))
        else Some v)
       (\<lambda>v1. map_option (\<lambda>d. v1\<lparr>rv_data := d, rv_length := u32 (rv_length v1 + 1)\<rparr>)
               (store_at (rv_data v1) (rv_length v1) p))"

definition fs_p_vector_append_vector ::
  "(nat \<Rightarrow> 'a) \<Rightarrow> 'a vec option \<Rightarrow> 'a vec option \<Rightarrow> 'a vec option option" where
  "fs_p_vector_append_vector junk = append_vector_body (fs_p_vector_append junk) junk"

definition fs_p_vector_clear :: "'a vec \<Rightarrow> 'a vec" where
  "fs_p_vector_clear v = v\<lparr>rv_length := 0\<rparr>"

section \<open>The represented sequence and the well-formedness invariant\<close>

definition rv_elems :: "'a vec \<Rightarrow> 'a list" where
  "rv_elems v = take (rv_length v) (rv_data v)"

definition wf_vec :: "'a vec \<Rightarrow> bool" where
  "wf_vec v \<longleftrightarrow> rv_length v \<le> rv_size v \<and> rv_size v = length (rv_data v) \<and> rv_size v < 4294967296"

lemma length_rv_elems: "wf_vec v \<Longrightarrow> length (rv_elems v) = rv_length v"
  by (simp add: wf_vec_def rv_elems_def)

lemma rv_read_elems: "wf_vec v \<Longrightarrow> rv_read v = Some (rv_elems v)"
  by (simp add: wf_vec_def rv_elems_def rv_read_def)

text \<open>
  The contract of an element append, and what the callers of it derive once: below the
  length limit the operation succeeds, keeps the vector well formed and appends.
\<close>

locale append_op =
  fixes app :: "'v \<Rightarrow> 'a \<Rightarrow> 'v option"
    and elems :: "'v \<Rightarrow> 'a list"
    and wf :: "'v \<Rightarrow> bool"
    and lim :: nat
  assumes app_ok: "wf v \<Longrightarrow> length (elems v) < lim \<Longrightarrow>
    \<exists>v'. app v r = Some v' \<and> wf v' \<and> elems v' = elems v @ [r]"
begin

lemma append_each_ok:
  "wf v \<Longrightarrow> length (elems v) + length rs \<le> lim \<Longrightarrow>
   \<exists>v'. append_each app v rs = Some v' \<and> wf v' \<and> elems v' = elems v @ rs"
proof (induction rs arbitrary: v)
  case (Cons r rs)
  from Cons.prems obtain v1 where v1: "app v r = Some v1" "wf v1" "elems v1 = elems v @ [r]"
    using app_ok [of v r] by auto
  with Cons.prems have "length (elems v1) + length rs \<le> lim" by simp
  from Cons.IH [OF v1(2) this] v1 show ?case by auto
qed simp

end

lemma wf_new: "0 \<le> n \<Longrightarrow> n < 4294967296 \<Longrightarrow>
  wf_vec (fs_rid_vector_new n) \<and> rv_elems (fs_rid_vector_new n) = replicate (nat n) 0"
  by (auto simp: wf_vec_def rv_elems_def fs_rid_vector_new_def Let_def nat_less_iff min_def)

lemma append_ok:
  assumes wf: "wf_vec v" and lt: "rv_length v < 2147483648"
  shows "\<exists>v'. fs_rid_vector_append junk v r = Some v' \<and> wf_vec v' \<and> rv_elems v' = rv_elems v @ [r]"
proof (cases "rv_length v \<ge> rv_size v")
  case True
  let ?sz = "if rv_size v \<noteq> 0 then rv_size v * 2 else 32"
  let ?d = "realloc junk (rv_data v) ?sz"
  have "take (Suc (rv_length v)) (?d[rv_length v := r]) = take (rv_length v) (rv_data v) @ [r]"
    using wf True by (simp add: wf_vec_def take_Suc_update take_realloc)
  with wf lt True show ?thesis
    by (cases "rv_data v") (simp_all add: fs_rid_vector_append_def Let_def wf_vec_def rv_elems_def)
next
  case False
  with wf lt show ?thesis
    by (simp add: fs_rid_vector_append_def Let_def wf_vec_def rv_elems_def take_Suc_update)
qed

interpretation rv: append_op "fs_rid_vector_append junk" rv_elems wf_vec 2147483648 for junk
  by unfold_locales (simp add: append_ok length_rv_elems)

text \<open>
  The two clones of \<open>append_vector\<close>: whichever of the two branches runs (the block copy,
  or the element loop when the growth heuristic does not apply), the result is the
  concatenation.
\<close>

context append_op
begin

lemma append_vector_loop:
  assumes "wf v" and "length (elems v) + length rs \<le> lim"
  shows "\<exists>v'. map_option Some (append_each app v rs) = Some (Some v') \<and> wf v' \<and> elems v' = elems v @ rs"
  using append_each_ok [OF assms] by auto

end

lemma memcpy_elems:
  assumes "n + m \<le> length d" and "m \<le> length e"
  shows "\<exists>d'. memcpy_at d n e m = Some d' \<and> length d' = length d \<and> take (n + m) d' = take n d @ take m e"
  using assms by (auto simp: memcpy_at_Some min_def)

lemma append_vector_body_ok:
  assumes app: "append_op app rv_elems wf_vec 2147483648"
    and wf: "wf_vec v" "wf_vec v2" and lt: "rv_length v + rv_length v2 < 2147483648"
  shows "\<exists>v'. append_vector_body app junk (Some v) (Some v2) = Some (Some v')
           \<and> wf_vec v' \<and> rv_elems v' = rv_elems v @ rv_elems v2"
proof -
  define grow where "grow \<longleftrightarrow> rv_length v2 > 4 \<and> sub32 (rv_size v) (rv_length v) < rv_length v2"
  define sz where "sz = u32 (rv_size v + (if rv_length v2 > 32 then rv_length v2 else 32))"
  define v1 where "v1 = (if grow then v\<lparr>rv_size := sz, rv_data := realloc junk (rv_data v) sz\<rparr> else v)"
  have body: "append_vector_body app junk (Some v) (Some v2) =
      (if sub32 (rv_size v1) (rv_length v1) \<ge> rv_length v2
       then map_option (\<lambda>d. Some (v1\<lparr>rv_data := d, rv_length := u32 (rv_length v1 + rv_length v2)\<rparr>))
              (memcpy_at (rv_data v1) (rv_length v1) (rv_data v2) (rv_length v2))
       else map_option Some (append_each app v1 (rv_elems v2)))"
    by (simp add: append_vector_body_def Let_def v1_def grow_def sz_def rv_read_elems [OF wf(2)])
  have v1: "wf_vec v1 \<and> rv_elems v1 = rv_elems v \<and> rv_length v1 = rv_length v"
    using wf lt by (auto simp: v1_def grow_def sz_def wf_vec_def rv_elems_def take_realloc)
  show ?thesis
  proof (cases "sub32 (rv_size v1) (rv_length v1) \<ge> rv_length v2")
    case True
    with v1 wf(2) have fits: "rv_length v1 + rv_length v2 \<le> length (rv_data v1)"
        "rv_length v2 \<le> length (rv_data v2)"
      by (auto simp: wf_vec_def)
    obtain d where d: "memcpy_at (rv_data v1) (rv_length v1) (rv_data v2) (rv_length v2) = Some d"
        "length d = length (rv_data v1)"
        "take (rv_length v1 + rv_length v2) d = rv_elems v1 @ rv_elems v2"
      using memcpy_elems [OF fits] by (auto simp: rv_elems_def)
    with True body v1 lt fits show ?thesis
      by (auto simp: wf_vec_def rv_elems_def [of "v1\<lparr>rv_data := _, rv_length := _\<rparr>"])
  next
    case False
    with v1 wf lt show ?thesis
      using append_op.append_vector_loop [OF app, of v1 "rv_elems v2"] body
      by (simp add: length_rv_elems)
  qed
qed

lemma append_vector_ok:
  assumes "wf_vec v" and "wf_vec v2" and "rv_length v + rv_length v2 < 2147483648"
  shows "\<exists>v'. fs_rid_vector_append_vector junk (Some v) (Some v2) = Some (Some v')
           \<and> wf_vec v' \<and> rv_elems v' = rv_elems v @ rv_elems v2"
  unfolding fs_rid_vector_append_vector_def
  using rv.append_op_axioms assms by (rule append_vector_body_ok)

lemma append_filtered_ok:
  assumes "wf_vec v" and "wf_vec v2" and "rv_length v + rv_length v2 \<le> 2147483648"
  shows "\<exists>v'. Option.bind (rv_read v2) (\<lambda>rs. append_each (fs_rid_vector_append junk) v (filter P rs))
             = Some v' \<and> wf_vec v' \<and> rv_elems v' = rv_elems v @ filter P (rv_elems v2)"
proof -
  have "length (filter P (rv_elems v2)) \<le> rv_length v2"
    using length_filter_le [of P "rv_elems v2"] assms(2) by (simp add: length_rv_elems)
  with assms show ?thesis
    using rv.append_each_ok [of v "filter P (rv_elems v2)" junk]
    by (simp add: rv_read_elems length_rv_elems)
qed

lemma append_vector_no_nulls_ok:
  assumes "wf_vec v" and "wf_vec v2" and "rv_length v + rv_length v2 \<le> 2147483648"
  shows "\<exists>v'. fs_rid_vector_append_vector_no_nulls junk v (Some v2) = Some v' \<and> wf_vec v'
           \<and> rv_elems v' = rv_elems v @ filter (\<lambda>r. r \<noteq> FS_RID_NULL) (rv_elems v2)"
  using append_filtered_ok [OF assms] by (simp add: fs_rid_vector_append_vector_no_nulls_def)

lemma append_vector_no_nulls_lit_ok:
  assumes "wf_vec v" and "wf_vec v2" and "rv_length v + rv_length v2 \<le> 2147483648"
  shows "\<exists>v'. fs_rid_vector_append_vector_no_nulls_lit junk v (Some v2) = Some v' \<and> wf_vec v'
           \<and> rv_elems v' = rv_elems v @ filter (\<lambda>r. r \<noteq> FS_RID_NULL \<and> \<not> FS_IS_LITERAL r) (rv_elems v2)"
  using append_filtered_ok [OF assms] by (simp add: fs_rid_vector_append_vector_no_nulls_lit_def)

lemma copy_ok:
  assumes "wf_vec v" and "rv_size v < 2147483648"
  shows "\<exists>v'. fs_rid_vector_copy (Some v) = Some (Some v') \<and> wf_vec v' \<and> rv_elems v' = rv_elems v"
  using assms
  by (auto simp: fs_rid_vector_copy_def Let_def int_of_u32_def fs_rid_vector_new_def
      memcpy_at_def wf_vec_def rv_elems_def)

lemma truncate_ok:
  assumes "wf_vec v" and "0 \<le> n" and "n < 4294967296"
  shows "\<exists>v'. fs_rid_vector_truncate (Some v) n = Some v' \<and> wf_vec v' \<and> rv_elems v' = take (nat n) (rv_elems v)"
  using assms by (auto simp: fs_rid_vector_truncate_def wf_vec_def rv_elems_def min_def)

lemma grow_ok:
  assumes "wf_vec v" and "int (rv_length v) \<le> n" and "n < 4294967296"
  shows "\<exists>v'. fs_rid_vector_grow junk (Some v) n = Some v' \<and> wf_vec v'
           \<and> rv_length v' = nat n \<and> take (rv_length v) (rv_elems v') = rv_elems v"
  using assms by (auto simp: fs_rid_vector_grow_def Let_def wf_vec_def rv_elems_def take_realloc min_def)

lemma contains_iff: "fs_rid_vector_contains (Some v) r \<longleftrightarrow> r \<in> set (rv_elems v)"
  by (simp add: fs_rid_vector_contains_def rv_elems_def)

section \<open>Sorting and duplicate removal\<close>

lemma sint_eq_iff: "sint (a :: rid) = sint b \<longleftrightarrow> a = b"
  by (auto intro: signed_word_eqI)

interpretation rc: total_comparator rid_compare
  by unfold_locales (auto simp: rid_compare_def Let_def sint_eq_iff split: if_splits)

lemma rid_compare_le: "rid_compare a b \<le> 0 \<longleftrightarrow> sint a \<le> sint b"
  by (auto simp: rid_compare_def Let_def)

lemma sort_ok:
  assumes "wf_vec v"
  shows "wf_vec (fs_rid_vector_sort v)"
    and "rv_elems (fs_rid_vector_sort v) = qsort rid_compare (rv_elems v)"
  using assms by (auto simp: fs_rid_vector_sort_def wf_vec_def rv_elems_def)

text \<open>What \<open>uniq_loop\<close> computes: one element per run of equal elements, nulls optionally dropped.\<close>

definition uniq_spec :: "bool \<Rightarrow> rid list \<Rightarrow> rid list" where
  "uniq_spec remove_null xs = filter (\<lambda>x. \<not> (remove_null \<and> x = FS_RID_NULL)) (remdups_adj xs)"

lemma uniq_spec_skip_null:
  "remove_null \<and> x = FS_RID_NULL \<Longrightarrow> uniq_spec remove_null (x # xs) = uniq_spec remove_null xs"
  by (cases xs) (auto simp: uniq_spec_def)

lemma uniq_spec_keep:
  "\<not> (remove_null \<and> x = FS_RID_NULL) \<Longrightarrow> (xs = [] \<or> x \<noteq> hd xs) \<Longrightarrow>
   uniq_spec remove_null (x # xs) = x # uniq_spec remove_null xs"
  by (cases xs) (auto simp: uniq_spec_def)

lemma uniq_loop_ok:
  assumes "outrow \<le> row" and "len \<le> length data" and "row \<le> len"
    and "uniq_loop rn len data outrow row = (d, out)"
  shows "length d = length data \<and> out \<le> len
    \<and> take out d = take outrow data @ uniq_spec rn (drop row (take len data))"
  using assms
proof (induction rn len data outrow row rule: uniq_loop.induct)
  case (1 rn len data outrow row)
  show ?case
  proof (cases "row < len")
    case False
    with 1(4-) show ?thesis by (simp add: uniq_loop.simps [of rn len] uniq_spec_def)
  next
    case row: True
    let ?x = "data ! row" and ?rest = "drop (Suc row) (take len data)"
    have split: "drop row (take len data) = ?x # ?rest"
      using row 1(5) by (simp add: Cons_nth_drop_Suc [symmetric])
    have next_eq: "?rest = [] \<longleftrightarrow> \<not> row < len - 1" "row < len - 1 \<Longrightarrow> hd ?rest = data ! Suc row"
      using 1(5) by (auto simp: hd_drop_conv_nth)
    consider (null) "rn \<and> ?x = FS_RID_NULL"
      | (dup) "\<not> (rn \<and> ?x = FS_RID_NULL)" "row < len - 1 \<and> ?x = data ! Suc row"
      | (keep) "\<not> (rn \<and> ?x = FS_RID_NULL)" "\<not> (row < len - 1 \<and> ?x = data ! Suc row)"
      by blast
    then show ?thesis
    proof cases
      case null
      with row 1(1) 1(4-) show ?thesis
        by (simp add: uniq_loop.simps [of _ len data outrow row] split uniq_spec_skip_null)
    next
      case dup
      have "uniq_loop rn len data outrow row = uniq_loop rn len data outrow (Suc row)"
        by (subst uniq_loop.simps) (use row dup in auto)
      moreover have "uniq_spec rn (?x # ?rest) = uniq_spec rn ?rest"
        using dup next_eq by (cases ?rest) (auto simp: uniq_spec_def)
      ultimately show ?thesis
        using dup row 1(2) 1(4-) by (simp add: split)
    next
      case keep
      then have "uniq_spec rn (?x # ?rest) = ?x # uniq_spec rn ?rest"
        using next_eq by (intro uniq_spec_keep) auto
      moreover have "drop (Suc row) (take len (data[outrow := ?x])) = ?rest"
        using 1(4) by (simp add: take_update_swap drop_update_cancel)
      moreover have "take (Suc outrow) (data[outrow := ?x]) = take outrow data @ [?x]"
        using 1(4,5) row by (simp add: take_Suc_update)
      moreover have "uniq_loop rn len data outrow row
          = uniq_loop rn len (data[outrow := ?x]) (Suc outrow) (Suc row)"
        by (subst uniq_loop.simps) (use row keep in auto)
      ultimately show ?thesis
        using keep row 1(3) 1(4-) by (simp add: split)
    qed
  qed
qed

lemma uniq_ok:
  assumes "wf_vec v"
  shows "\<exists>v'. fs_rid_vector_uniq (Some v) rn = Some v' \<and> wf_vec v' \<and> rv_elems v' = uniq_spec rn (rv_elems v)"
proof -
  obtain d out where "uniq_loop rn (rv_length v) (rv_data v) 0 0 = (d, out)" by force
  with assms uniq_loop_ok [OF _ _ _ this] show ?thesis
    by (auto simp: fs_rid_vector_uniq_def wf_vec_def rv_elems_def)
qed

lemma set_uniq_spec: "set (uniq_spec rn xs) = set xs - (if rn then {FS_RID_NULL} else {})"
  by (auto simp: uniq_spec_def)

lemma qsorted_remdups_adj:
  "qsorted rid_compare xs \<Longrightarrow> sorted_wrt (\<lambda>a b. sint a < sint b) (remdups_adj xs)"
proof (induction xs rule: remdups_adj.induct)
  case (3 x y xs)
  have "x \<noteq> y \<Longrightarrow> sint x < sint y"
    using 3(3) sint_eq_iff [of x y] by (auto simp: rid_compare_le)
  with 3 show ?case by (auto simp: rid_compare_le intro: order.strict_trans2)
qed auto

lemma uniq_spec_sorted:
  "sorted_wrt (\<lambda>a b. sint a < sint b) (uniq_spec rn (qsort rid_compare xs))"
  unfolding uniq_spec_def
  by (intro sorted_wrt_filter qsorted_remdups_adj rc.qsorted_qsort)

section \<open>Pointer vectors\<close>

lemma p_grow_once:
  "sz \<noteq> 0 \<Longrightarrow> sz < 2147483648 \<Longrightarrow> len = sz \<Longrightarrow> p_grow len sz = Some (sz * 2)"
  by (subst p_grow.simps) (simp add: p_grow.simps [of _ "sz * 2"])

lemma p_append_ok:
  assumes wf: "wf_vec v" and lt: "rv_length v < 2147483648"
  shows "\<exists>v'. fs_p_vector_append junk v p = Some v' \<and> wf_vec v' \<and> rv_elems v' = rv_elems v @ [p]"
proof (cases "rv_length v \<ge> rv_size v")
  case True
  let ?sz = "if rv_size v = 0 then 32 else rv_size v * 2"
  have grow: "p_grow (rv_length v) (if rv_size v = 0 then 32 else rv_size v) = Some ?sz"
    using wf lt True by (auto simp: wf_vec_def p_grow_once) (simp add: p_grow.simps)
  have "take (Suc (rv_length v)) ((realloc junk (rv_data v) ?sz)[rv_length v := p])
        = take (rv_length v) (rv_data v) @ [p]"
    using wf True by (simp add: wf_vec_def take_Suc_update take_realloc)
  with wf lt True grow show ?thesis
    by (cases "rv_data v") (simp_all add: fs_p_vector_append_def wf_vec_def rv_elems_def)
next
  case False
  with wf lt show ?thesis
    by (simp add: fs_p_vector_append_def wf_vec_def rv_elems_def take_Suc_update)
qed

interpretation pv: append_op "fs_p_vector_append junk" rv_elems wf_vec 2147483648 for junk
  by unfold_locales (simp add: p_append_ok length_rv_elems)

lemma p_append_vector_ok:
  assumes "wf_vec v" and "wf_vec v2" and "rv_length v + rv_length v2 < 2147483648"
  shows "\<exists>v'. fs_p_vector_append_vector junk (Some v) (Some v2) = Some (Some v')
           \<and> wf_vec v' \<and> rv_elems v' = rv_elems v @ rv_elems v2"
  unfolding fs_p_vector_append_vector_def
  using pv.append_op_axioms assms by (rule append_vector_body_ok)

section \<open>Properties\<close>

text \<open>C39: appending one well-formed rid vector to another succeeds, stays inside the
  allocated blocks, keeps the vector well formed and yields the concatenation of the two
  sequences, whichever of the growth, block-copy and element-loop branches is taken and
  whatever the uninitialised memory holds, as long as the lengths stay below \<open>2 ^ 31\<close>.\<close>

theorem rid_vector_append_vector_concat:
  assumes "wf_vec v" and "wf_vec v2" and "rv_length v + rv_length v2 < 2147483648"
  shows "\<exists>v'. fs_rid_vector_append_vector junk (Some v) (Some v2) = Some (Some v')
           \<and> wf_vec v' \<and> rv_elems v' = rv_elems v @ rv_elems v2"
  using assms by (rule append_vector_ok)

theorem rid_vector_append_vector_concat_witness:
  "\<exists>v'. fs_rid_vector_append_vector (\<lambda>_. 7)
       (Some \<lparr>rv_length = 2, rv_size = 3, rv_data = [1, 2, 99]\<rparr>)
       (Some \<lparr>rv_length = 3, rv_size = 3, rv_data = [4, 5, 6]\<rparr>) = Some (Some v')
     \<and> wf_vec v' \<and> rv_elems v' = [1, 2, 4, 5, 6]"
  using rid_vector_append_vector_concat
    [of "\<lparr>rv_length = 2, rv_size = 3, rv_data = [1, 2, 99]\<rparr>"
        "\<lparr>rv_length = 3, rv_size = 3, rv_data = [4, 5, 6]\<rparr>" "\<lambda>_. 7"]
  by (simp add: wf_vec_def rv_elems_def)

text \<open>sorting a vector and then removing duplicates leaves it strictly increasing in
  the signed order of the identifiers, and with the same members, less the null
  identifier when its removal is asked for.\<close>

theorem rid_vector_sort_uniq:
  assumes "wf_vec v"
  shows "\<exists>v'. fs_rid_vector_uniq (Some (fs_rid_vector_sort v)) rn = Some v' \<and> wf_vec v'
           \<and> sorted_wrt (\<lambda>a b. sint a < sint b) (rv_elems v')
           \<and> set (rv_elems v') = set (rv_elems v) - (if rn then {FS_RID_NULL} else {})"
  using uniq_ok [OF sort_ok(1) [OF assms], of rn] sort_ok(2) [OF assms]
  by (auto simp: uniq_spec_sorted set_uniq_spec)

theorem rid_vector_sort_uniq_witness:
  "\<exists>v'. fs_rid_vector_uniq
       (Some (fs_rid_vector_sort \<lparr>rv_length = 3, rv_size = 4, rv_data = [5, 3, 5, 0]\<rparr>)) True = Some v'
     \<and> wf_vec v' \<and> sorted_wrt (\<lambda>a b. sint a < sint b) (rv_elems v')
     \<and> set (rv_elems v') = {3, 5} - {FS_RID_NULL}"
  using rid_vector_sort_uniq [of "\<lparr>rv_length = 3, rv_size = 4, rv_data = [5, 3, 5, 0]\<rparr>" True]
  by (simp add: wf_vec_def rv_elems_def insert_commute)

end
