(* ===== verification/RidSet.thy ===== *)
theory RidSet
  imports RidVector
begin

text \<open>
  Sets of resource identifiers, \<open>fs_rid_set\<close> of \<open>src/src/common/datatypes.c\<close>: a table of
  1024 buckets, each an inline entry followed by a chain of heap entries, and a scan
  position for iteration.  The null identifier marks an empty inline entry, so it is
  never a member.
\<close>

definition FS_RID_SET_ENTRIES :: nat where
  "FS_RID_SET_ENTRIES = 1024"

definition FS_RID_ENTRY_HASH :: "rid \<Rightarrow> nat" where
  "FS_RID_ENTRY_HASH r = unat (drop_bit 12 r AND 1023)"

text \<open>\<open>struct rid_entry\<close>; \<open>Null_entry\<close> is the null \<open>next\<close> pointer.\<close>

datatype rid_entry = Null_entry | Entry rid rid_entry

text \<open>
  The scan pointer \<open>scan_entry\<close> points at an entry of the bucket \<open>scan_hash\<close>: it is the
  position of that entry in the bucket's chain, \<open>None\<close> for the null pointer.
\<close>

record rid_set =
  rs_entry :: "nat \<Rightarrow> rid_entry"
  scan_hash :: nat
  scan_entry :: "nat option"

section \<open>Operations\<close>

definition fs_rid_set_new :: rid_set where
  "fs_rid_set_new =
     \<lparr>rs_entry = (\<lambda>_. Entry FS_RID_NULL Null_entry), scan_hash = 0, scan_entry = None\<rparr>"

text \<open>The walk to the end of a chain, which stops early when the value is met.\<close>

fun entry_add :: "rid_entry \<Rightarrow> rid \<Rightarrow> rid_entry" where
  "entry_add Null_entry v = Entry v Null_entry"
| "entry_add (Entry x n) v = (if x = v then Entry x n else Entry x (entry_add n v))"

definition fs_rid_set_add :: "rid_set \<Rightarrow> rid \<Rightarrow> rid_set" where
  "fs_rid_set_add s v =
     (if v = FS_RID_NULL then s
      else let h = FS_RID_ENTRY_HASH v in
        (case rs_entry s h of
           Entry x n \<Rightarrow>
             if x = v then s
             else if x = FS_RID_NULL then s\<lparr>rs_entry := (rs_entry s)(h := Entry v n)\<rparr>
             else s\<lparr>rs_entry := (rs_entry s)(h := entry_add (Entry x n) v)\<rparr>
         | Null_entry \<Rightarrow> s))"

text \<open>The loop of \<open>fs_rid_set_contains\<close> over the entries of the bucket.\<close>

fun entry_walk :: "rid_entry \<Rightarrow> rid \<Rightarrow> bool" where
  "entry_walk Null_entry v = False"
| "entry_walk (Entry x n) v =
     (if x \<noteq> FS_RID_NULL \<and> n \<noteq> Null_entry
      then (if x = v then True else entry_walk n v)
      else x = v \<and> x \<noteq> FS_RID_NULL)"

definition fs_rid_set_contains :: "rid_set \<Rightarrow> rid \<Rightarrow> bool" where
  "fs_rid_set_contains s v =
     (if v = FS_RID_NULL then False
      else case rs_entry s (FS_RID_ENTRY_HASH v) of
          Null_entry \<Rightarrow> False
        | Entry x n \<Rightarrow>
            if x = FS_RID_NULL then False
            else if x = v then True
            else entry_walk (Entry x n) v)"

fun entry_vals :: "rid_entry \<Rightarrow> rid list" where
  "entry_vals Null_entry = []"
| "entry_vals (Entry x n) = x # entry_vals n"

text \<open>The loop of \<open>fs_rid_set_rewind\<close> from bucket \<open>i\<close>.\<close>

function rewind_from :: "rid_set \<Rightarrow> nat \<Rightarrow> rid_set" where
  "rewind_from s i =
     (if i < FS_RID_SET_ENTRIES then
        (case rs_entry s i of
           Entry x n \<Rightarrow> if x \<noteq> FS_RID_NULL then s\<lparr>scan_hash := i, scan_entry := Some 0\<rparr>
                        else rewind_from s (Suc i)
         | Null_entry \<Rightarrow> rewind_from s (Suc i))
      else s\<lparr>scan_hash := FS_RID_SET_ENTRIES, scan_entry := None\<rparr>)"
  by pat_completeness auto
termination
  by (relation "measure (\<lambda>(_, i). FS_RID_SET_ENTRIES - i)") auto

declare rewind_from.simps [simp del]

definition fs_rid_set_rewind :: "rid_set option \<Rightarrow> int \<times> rid_set option" where
  "fs_rid_set_rewind so =
     (case so of None \<Rightarrow> (1, None) | Some s \<Rightarrow> (0, Some (rewind_from s 0)))"

text \<open>
  \<open>fs_rid_set_next\<close>: the value under the scan pointer, or a step to the next bucket.  The
  pointer \<open>&s->entry[1024]\<close> formed after the last bucket is not followed.
\<close>

definition entry_at :: "rid_set \<Rightarrow> nat \<Rightarrow> nat \<Rightarrow> rid option" where
  "entry_at s h k = load_at (entry_vals (rs_entry s h)) k"

function fs_rid_set_next :: "rid_set \<Rightarrow> rid \<times> rid_set" where
  "fs_rid_set_next s =
     (if scan_hash s < FS_RID_SET_ENTRIES then
        (case Option.bind (scan_entry s) (entry_at s (scan_hash s)) of
           Some v \<Rightarrow>
             if v \<noteq> FS_RID_NULL
             then (v, s\<lparr>scan_entry :=
                     (let k = Suc (the (scan_entry s))
                      in if k < length (entry_vals (rs_entry s (scan_hash s))) then Some k else None)\<rparr>)
             else fs_rid_set_next (s\<lparr>scan_hash := Suc (scan_hash s), scan_entry := Some 0\<rparr>)
         | None \<Rightarrow> fs_rid_set_next (s\<lparr>scan_hash := Suc (scan_hash s), scan_entry := Some 0\<rparr>))
      else (FS_RID_NULL, s))"
  by pat_completeness auto
termination
  by (relation "measure (\<lambda>s. FS_RID_SET_ENTRIES - scan_hash s)") auto

declare fs_rid_set_next.simps [simp del]

text \<open>\<open>fs_rid_vector_append_set\<close>: the non-null values, bucket by bucket.\<close>

definition set_vals :: "rid_set \<Rightarrow> rid list" where
  "set_vals s = concat (map (\<lambda>h. filter (\<lambda>v. v \<noteq> FS_RID_NULL) (entry_vals (rs_entry s h)))
                          [0..<FS_RID_SET_ENTRIES])"

definition fs_rid_vector_append_set ::
  "(nat \<Rightarrow> rid) \<Rightarrow> rid_vector \<Rightarrow> rid_set option \<Rightarrow> rid_vector option" where
  "fs_rid_vector_append_set junk v so =
     (case so of None \<Rightarrow> Some v
      | Some s \<Rightarrow> append_each (fs_rid_vector_append junk) v (set_vals s))"

section \<open>The set a table represents\<close>

definition rs_members :: "rid_set \<Rightarrow> rid set" where
  "rs_members s = {v. v \<noteq> FS_RID_NULL \<and> v \<in> set (entry_vals (rs_entry s (FS_RID_ENTRY_HASH v)))}"

definition bucket_ok :: "nat \<Rightarrow> rid_entry \<Rightarrow> bool" where
  "bucket_ok h e \<longleftrightarrow> e = Entry FS_RID_NULL Null_entry \<or>
     (e \<noteq> Null_entry \<and> distinct (entry_vals e) \<and>
      (\<forall>v \<in> set (entry_vals e). v \<noteq> FS_RID_NULL \<and> FS_RID_ENTRY_HASH v = h))"

definition wf_rid_set :: "rid_set \<Rightarrow> bool" where
  "wf_rid_set s \<longleftrightarrow> (\<forall>h < FS_RID_SET_ENTRIES. bucket_ok h (rs_entry s h))"

text \<open>The contract of a set of identifiers, from the point of view of its clients.\<close>

locale rid_set_adt =
  fixes empty :: 's
    and add :: "'s \<Rightarrow> rid \<Rightarrow> 's"
    and contains :: "'s \<Rightarrow> rid \<Rightarrow> bool"
    and members :: "'s \<Rightarrow> rid set"
    and invar :: "'s \<Rightarrow> bool"
  assumes invar_empty: "invar empty"
    and members_empty: "members empty = {}"
    and invar_add: "invar s \<Longrightarrow> invar (add s v)"
    and members_add: "invar s \<Longrightarrow> members (add s v) = members s \<union> ({v} - {FS_RID_NULL})"
    and contains_members: "invar s \<Longrightarrow> contains s v \<longleftrightarrow> v \<in> members s"
begin

lemma foldl_add:
  "invar s \<Longrightarrow> invar (foldl add s vs) \<and> members (foldl add s vs) = members s \<union> (set vs - {FS_RID_NULL})"
  by (induction vs arbitrary: s) (auto simp: invar_add members_add)

lemma contains_foldl_add:
  "contains (foldl add empty vs) v \<longleftrightarrow> v \<in> set vs \<and> v \<noteq> FS_RID_NULL"
  using foldl_add [OF invar_empty, of vs] by (simp add: contains_members members_empty)

end

lemma hash_less [simp]: "FS_RID_ENTRY_HASH v < FS_RID_SET_ENTRIES"
proof -
  have "drop_bit 12 v AND 1023 \<le> 1023" by (rule word_and_le1)
  then have "unat (drop_bit 12 v AND 1023) \<le> unat (1023 :: rid)" by (rule word_le_nat_alt [THEN iffD1])
  then show ?thesis by (simp add: FS_RID_ENTRY_HASH_def FS_RID_SET_ENTRIES_def)
qed

lemma entry_add_vals:
  "entry_vals (entry_add e v) = (if v \<in> set (entry_vals e) then entry_vals e else entry_vals e @ [v])"
  by (induction e v rule: entry_add.induct) auto

lemma entry_add_ne [simp]: "entry_add e v \<noteq> Null_entry"
  by (cases "(e, v)" rule: entry_add.cases) auto

lemma entry_walk_iff:
  "\<forall>x \<in> set (entry_vals e). x \<noteq> FS_RID_NULL \<Longrightarrow> entry_walk e v \<longleftrightarrow> v \<in> set (entry_vals e)"
proof (induction e v rule: entry_walk.induct)
  case (2 x n v)
  then show ?case by (cases n) auto
qed simp

lemma wf_bucket: "wf_rid_set s \<Longrightarrow> bucket_ok (FS_RID_ENTRY_HASH v) (rs_entry s (FS_RID_ENTRY_HASH v))"
  by (simp add: wf_rid_set_def)

lemma contains_iff_members:
  assumes "wf_rid_set s"
  shows "fs_rid_set_contains s v \<longleftrightarrow> v \<in> rs_members s"
proof -
  define h where "h = FS_RID_ENTRY_HASH v"
  obtain x n where e: "rs_entry s h = Entry x n"
    using wf_bucket [OF assms, of v]
    by (cases "rs_entry s h") (auto simp: bucket_ok_def h_def)
  have "bucket_ok h (Entry x n)" using wf_bucket [OF assms, of v] e by (simp add: h_def)
  then have "(x = FS_RID_NULL \<and> n = Null_entry) \<or> (\<forall>u \<in> set (entry_vals (Entry x n)). u \<noteq> FS_RID_NULL)"
    unfolding bucket_ok_def by blast
  then show ?thesis
    using entry_walk_iff [of "Entry x n" v] e
    by (auto simp: fs_rid_set_contains_def rs_members_def h_def [symmetric])
qed

lemma add_bucket:
  assumes "wf_rid_set s" and "v \<noteq> FS_RID_NULL" and h: "h = FS_RID_ENTRY_HASH v"
  shows "\<exists>e. rs_entry (fs_rid_set_add s v) = (rs_entry s)(h := e) \<and> bucket_ok h e
    \<and> set (entry_vals e) - {FS_RID_NULL} = insert v (set (entry_vals (rs_entry s h)) - {FS_RID_NULL})"
proof -
  have ok: "bucket_ok h (rs_entry s h)" using wf_bucket [OF assms(1), of v] by (simp add: h)
  then obtain x n where e: "rs_entry s h = Entry x n"
    by (cases "rs_entry s h") (auto simp: bucket_ok_def)
  note add = fs_rid_set_add_def h [symmetric] e
  consider "x = v" | "x \<noteq> v" "x = FS_RID_NULL" | "x \<noteq> v" "x \<noteq> FS_RID_NULL" by blast
  then show ?thesis
  proof cases
    case 1
    with assms(2) ok e show ?thesis
      by (intro exI [of _ "Entry x n"]) (simp add: add fun_upd_idem insert_absorb)
  next
    case 2
    with assms(2) ok e show ?thesis
      by (intro exI [of _ "Entry v n"]) (auto simp: add bucket_ok_def)
  next
    case 3
    with assms(2) ok e show ?thesis
      by (intro exI [of _ "entry_add (Entry x n) v"])
        (auto simp: add bucket_ok_def entry_add_vals)
  qed
qed

lemma add_wf_members:
  assumes "wf_rid_set s"
  shows "wf_rid_set (fs_rid_set_add s v) \<and> rs_members (fs_rid_set_add s v) = rs_members s \<union> ({v} - {FS_RID_NULL})"
proof (cases "v = FS_RID_NULL")
  case True
  with assms show ?thesis by (simp add: fs_rid_set_add_def)
next
  case False
  obtain e where e: "rs_entry (fs_rid_set_add s v) = (rs_entry s)(FS_RID_ENTRY_HASH v := e)"
      "bucket_ok (FS_RID_ENTRY_HASH v) e"
      "set (entry_vals e) - {FS_RID_NULL}
       = insert v (set (entry_vals (rs_entry s (FS_RID_ENTRY_HASH v))) - {FS_RID_NULL})"
    using add_bucket [OF assms False refl] by blast
  have "u \<in> rs_members (fs_rid_set_add s v) \<longleftrightarrow> u \<in> rs_members s \<union> {v}" for u
  proof (cases "FS_RID_ENTRY_HASH u = FS_RID_ENTRY_HASH v")
    case True
    then have "u \<in> rs_members (fs_rid_set_add s v) \<longleftrightarrow> u \<in> set (entry_vals e) - {FS_RID_NULL}"
      by (auto simp: rs_members_def e(1))
    also have "\<dots> \<longleftrightarrow> u \<in> rs_members s \<union> {v}"
      unfolding e(3) using True False by (auto simp: rs_members_def)
    finally show ?thesis .
  qed (use False in \<open>auto simp: rs_members_def e(1)\<close>)
  with e assms False show ?thesis by (auto simp: wf_rid_set_def)
qed

lemma new_wf_members: "wf_rid_set fs_rid_set_new \<and> rs_members fs_rid_set_new = {}"
  by (simp add: wf_rid_set_def bucket_ok_def rs_members_def fs_rid_set_new_def)

interpretation rs: rid_set_adt fs_rid_set_new fs_rid_set_add fs_rid_set_contains rs_members wf_rid_set
  by unfold_locales (simp_all add: new_wf_members add_wf_members contains_iff_members)

section \<open>Iteration\<close>

definition bucket_vals :: "rid_set \<Rightarrow> nat \<Rightarrow> rid list" where
  "bucket_vals s h = filter (\<lambda>v. v \<noteq> FS_RID_NULL) (entry_vals (rs_entry s h))"

definition vals_from :: "rid_set \<Rightarrow> nat \<Rightarrow> rid list" where
  "vals_from s h = concat (map (bucket_vals s) [h..<FS_RID_SET_ENTRIES])"

text \<open>What the scan has still to deliver.\<close>

definition remaining :: "rid_set \<Rightarrow> rid list" where
  "remaining s =
     (if scan_hash s < FS_RID_SET_ENTRIES
      then (case scan_entry s of None \<Rightarrow> [] | Some k \<Rightarrow> drop k (bucket_vals s (scan_hash s)))
           @ vals_from s (Suc (scan_hash s))
      else [])"

lemma vals_from_step: "h < FS_RID_SET_ENTRIES \<Longrightarrow> vals_from s h = bucket_vals s h @ vals_from s (Suc h)"
  by (simp add: vals_from_def upt_conv_Cons)

lemma vals_from_end: "FS_RID_SET_ENTRIES \<le> h \<Longrightarrow> vals_from s h = []"
  by (simp add: vals_from_def)

lemma set_vals_from: "set_vals s = vals_from s 0"
  by (simp add: set_vals_def vals_from_def bucket_vals_def [abs_def])

lemma bucket_vals_cases:
  assumes "wf_rid_set s" and "h < FS_RID_SET_ENTRIES"
  obtains "entry_vals (rs_entry s h) = [FS_RID_NULL]" "bucket_vals s h = []"
    | "\<forall>v \<in> set (entry_vals (rs_entry s h)). v \<noteq> FS_RID_NULL"
      "bucket_vals s h = entry_vals (rs_entry s h)"
proof -
  have ok: "bucket_ok h (rs_entry s h)" using assms by (simp add: wf_rid_set_def)
  then consider "rs_entry s h = Entry FS_RID_NULL Null_entry"
    | "\<forall>v \<in> set (entry_vals (rs_entry s h)). v \<noteq> FS_RID_NULL"
    unfolding bucket_ok_def by blast
  then show thesis
  proof cases
    case 1
    then show thesis by (intro that(1)) (simp_all add: bucket_vals_def)
  next
    case 2
    then show thesis by (intro that(2)) (simp_all add: bucket_vals_def filter_id_conv)
  qed
qed

lemma next_remaining:
  "wf_rid_set s \<Longrightarrow>
   \<exists>s'. fs_rid_set_next s = (case remaining s of [] \<Rightarrow> FS_RID_NULL | v # _ \<Rightarrow> v, s')
     \<and> rs_entry s' = rs_entry s \<and> remaining s' = tl (remaining s)"
proof (induction s rule: fs_rid_set_next.induct)
  case (1 s)
  let ?h = "scan_hash s" and ?s1 = "s\<lparr>scan_hash := Suc (scan_hash s), scan_entry := Some 0\<rparr>"
  let ?at = "Option.bind (scan_entry s) (entry_at s ?h)"
  show ?case
  proof (cases "?h < FS_RID_SET_ENTRIES")
    case False
    then show ?thesis by (auto simp: fs_rid_set_next.simps [of s] remaining_def)
  next
    case h: True
    have frame: "wf_rid_set ?s1" "vals_from ?s1 k = vals_from s k" "bucket_vals ?s1 k = bucket_vals s k" for k
      using 1(3) by (simp_all add: wf_rid_set_def vals_from_def bucket_vals_def [abs_def])
    have rem1: "remaining ?s1 = vals_from s (Suc ?h)"
      using vals_from_step [of "Suc ?h" s] vals_from_end [of "Suc ?h" s]
      by (auto simp: remaining_def frame)
    show ?thesis
    proof (cases "\<exists>v. ?at = Some v \<and> v \<noteq> FS_RID_NULL")
      case False
      have "remaining s = vals_from s (Suc ?h)"
        using False h
        by (cases rule: bucket_vals_cases [OF 1(3) h]; cases "scan_entry s")
          (auto simp: remaining_def entry_at_def load_at_def split: if_splits)
      then have "remaining s = remaining ?s1" by (simp only: rem1)
      moreover have "fs_rid_set_next s = fs_rid_set_next ?s1"
        using False h by (subst fs_rid_set_next.simps) (auto split: option.split)
      moreover have "\<exists>s'. fs_rid_set_next ?s1 = (case remaining ?s1 of [] \<Rightarrow> FS_RID_NULL | v # _ \<Rightarrow> v, s')
          \<and> rs_entry s' = rs_entry ?s1 \<and> remaining s' = tl (remaining ?s1)"
        using 1(1) [OF h _ frame(1)] 1(2) [OF h _ _ frame(1)] False by (cases ?at) auto
      ultimately show ?thesis by simp
    next
      case True
      then obtain v k where v: "?at = Some v" "v \<noteq> FS_RID_NULL" and k: "scan_entry s = Some k"
        by (cases "scan_entry s") auto
      then have at: "k < length (entry_vals (rs_entry s ?h))" "entry_vals (rs_entry s ?h) ! k = v"
        by (auto simp: entry_at_def load_at_def split: if_splits)
      have bv: "bucket_vals s ?h = entry_vals (rs_entry s ?h)"
        using at v(2) by (cases rule: bucket_vals_cases [OF 1(3) h]) auto
      let ?s2 = "s\<lparr>scan_entry := if Suc k < length (entry_vals (rs_entry s ?h)) then Some (Suc k) else None\<rparr>"
      have "fs_rid_set_next s = (v, ?s2)"
        using h v k by (subst fs_rid_set_next.simps) (simp add: Let_def)
      moreover have "remaining s = v # remaining ?s2"
        using h k at bv Cons_nth_drop_Suc [OF at(1), symmetric]
        by (auto simp: remaining_def vals_from_def bucket_vals_def [abs_def])
      ultimately show ?thesis by auto
    qed
  qed
qed

lemma rewind_remaining:
  "i \<le> FS_RID_SET_ENTRIES \<Longrightarrow> wf_rid_set s \<Longrightarrow>
   remaining (rewind_from s i) = vals_from s i \<and> rs_entry (rewind_from s i) = rs_entry s"
proof (induction s i rule: rewind_from.induct)
  case (1 s i)
  show ?case
  proof (cases "i < FS_RID_SET_ENTRIES")
    case False
    then have "rewind_from s i = s\<lparr>scan_hash := FS_RID_SET_ENTRIES, scan_entry := None\<rparr>"
      by (subst rewind_from.simps) simp
    with False show ?thesis by (simp add: remaining_def vals_from_end)
  next
    case i: True
    then obtain x n where e: "rs_entry s i = Entry x n"
      using 1(4) by (cases "rs_entry s i") (auto simp: wf_rid_set_def bucket_ok_def)
    show ?thesis
    proof (cases "x = FS_RID_NULL")
      case True
      then have "bucket_vals s i = []"
        using e by (cases rule: bucket_vals_cases [OF 1(4) i]) auto
      with 1(2) [OF i e] 1(4) True i e show ?thesis
        by (simp add: rewind_from.simps [of s i] vals_from_step)
    next
      case False
      with i e show ?thesis
        by (simp add: rewind_from.simps [of s i] remaining_def vals_from_step)
          (simp add: vals_from_def bucket_vals_def [abs_def])
    qed
  qed
qed

text \<open>The callers' loop \<open>while ((r = fs_rid_set_next (s)) != FS_RID_NULL)\<close>, for \<open>n\<close> calls.\<close>

fun next_calls :: "nat \<Rightarrow> rid_set \<Rightarrow> rid list" where
  "next_calls 0 s = []"
| "next_calls (Suc n) s = (let (v, s') = fs_rid_set_next s in v # next_calls n s')"

lemma wf_rid_set_cong: "rs_entry s' = rs_entry s \<Longrightarrow> wf_rid_set s' = wf_rid_set s"
  by (simp add: wf_rid_set_def)

lemma next_calls_remaining:
  "wf_rid_set s \<Longrightarrow> length (remaining s) = n \<Longrightarrow> next_calls (Suc n) s = remaining s @ [FS_RID_NULL]"
proof (induction n arbitrary: s)
  case 0
  then show ?case using next_remaining [of s] by (auto simp: Let_def split: list.splits)
next
  case (Suc n)
  then obtain v vs where rem: "remaining s = v # vs" "length vs = n" by (cases "remaining s") auto
  obtain s' where s': "fs_rid_set_next s = (v, s')" "rs_entry s' = rs_entry s" "remaining s' = vs"
    using next_remaining [OF Suc.prems(1)] rem by auto
  have "next_calls (Suc n) s' = vs @ [FS_RID_NULL]"
    using Suc.IH [of s'] Suc.prems(1) s' rem wf_rid_set_cong [of s' s] by simp
  with s'(1) rem show ?case by simp
qed

lemma set_bucket_vals:
  assumes "wf_rid_set s" and "h < FS_RID_SET_ENTRIES"
  shows "v \<in> set (bucket_vals s h) \<longleftrightarrow> v \<in> rs_members s \<and> FS_RID_ENTRY_HASH v = h"
  using assms by (auto simp: bucket_vals_def rs_members_def wf_rid_set_def bucket_ok_def)

lemma set_set_vals: "wf_rid_set s \<Longrightarrow> set (set_vals s) = rs_members s"
  by (auto simp: set_vals_from vals_from_def set_bucket_vals)

lemma distinct_bucket_vals: "wf_rid_set s \<Longrightarrow> h < FS_RID_SET_ENTRIES \<Longrightarrow> distinct (bucket_vals s h)"
  by (auto simp: bucket_vals_def wf_rid_set_def bucket_ok_def)

lemma distinct_vals_from:
  assumes "wf_rid_set s"
  shows "distinct (concat (map (bucket_vals s) [h..<h + n])) \<or> FS_RID_SET_ENTRIES < h + n"
proof (induction n)
  case (Suc n)
  then show ?case
    using assms by (auto simp: distinct_bucket_vals set_bucket_vals)
qed simp

lemma distinct_set_vals: "wf_rid_set s \<Longrightarrow> distinct (set_vals s)"
  using distinct_vals_from [of s 0 FS_RID_SET_ENTRIES] by (simp add: set_vals_from vals_from_def)

lemma append_set_ok:
  assumes "wf_vec v" and "wf_rid_set s" and "rv_length v + length (set_vals s) \<le> 2147483648"
  shows "\<exists>v'. fs_rid_vector_append_set junk v (Some s) = Some v' \<and> wf_vec v'
           \<and> rv_elems v' = rv_elems v @ set_vals s"
  using rv.append_each_ok [of v "set_vals s" junk] assms
  by (simp add: fs_rid_vector_append_set_def length_rv_elems)

section \<open>Properties\<close>

text \<open>the hash table is a set: after any sequence of additions to a new set, an
  identifier is reported as a member exactly when it was added and is not the null
  identifier, whatever buckets and chains the values fall into.\<close>

theorem rid_set_membership:
  "fs_rid_set_contains (foldl fs_rid_set_add fs_rid_set_new vs) v \<longleftrightarrow> v \<in> set vs \<and> v \<noteq> FS_RID_NULL"
  by (rule rs.contains_foldl_add)

text \<open>C38: a rewind followed by calls of \<open>fs_rid_set_next\<close> delivers every member of the set
  exactly once and then the null identifier, so the callers' loops terminate.\<close>

theorem rid_set_iteration:
  "\<exists>s' xs. fs_rid_set_rewind (Some (foldl fs_rid_set_add fs_rid_set_new vs)) = (0, Some s')
     \<and> distinct xs \<and> set xs = set vs - {FS_RID_NULL}
     \<and> next_calls (length xs + 1) s' = xs @ [FS_RID_NULL]"
proof -
  let ?s = "foldl fs_rid_set_add fs_rid_set_new vs"
  let ?s' = "rewind_from ?s 0"
  have wf: "wf_rid_set ?s" and mem: "rs_members ?s = set vs - {FS_RID_NULL}"
    using rs.foldl_add [OF rs.invar_empty, of vs] by (simp_all add: rs.members_empty)
  have s': "remaining ?s' = set_vals ?s" "rs_entry ?s' = rs_entry ?s"
    using rewind_remaining [OF _ wf, of 0] by (simp_all add: set_vals_from)
  then have "next_calls (length (set_vals ?s) + 1) ?s' = set_vals ?s @ [FS_RID_NULL]"
    using next_calls_remaining [of ?s' "length (set_vals ?s)"] wf wf_rid_set_cong [of ?s' ?s] by simp
  then show ?thesis
    using distinct_set_vals [OF wf] set_set_vals [OF wf] mem
    by (auto simp: fs_rid_set_rewind_def simp del: next_calls.simps)
qed

end
