(* ===== verification/BitArr.thy ===== *)
theory BitArr
  imports Prelude
begin

text \<open>
  Bit arrays of \<open>src/src/common/bit_arr.c\<close>, used by the query engine to mark rows.  Bit
  \<open>i\<close> of an array is bit \<open>7 - i mod 8\<close> of byte \<open>i div 8\<close>; a new array has every bit set.
  \<open>fs_bit_array_set\<close> only ever clears a bit: with a non-zero value its mask is \<open>0xFF\<close>.
\<close>

definition fs_bit_mask_set :: "nat \<Rightarrow> bool \<Rightarrow> u8" where
  "fs_bit_mask_set nbit v =
     (if v then 0xFF
      else if nbit = 0 then 0x7F
      else if nbit = 1 then 0xBF
      else if nbit = 2 then 0xDF
      else if nbit = 3 then 0xEF
      else if nbit = 4 then 0xF7
      else if nbit = 5 then 0xFB
      else if nbit = 6 then 0xFD
      else if nbit = 7 then 0xFE
      else 0xFF)"

definition fs_bit_mask_get :: "nat \<Rightarrow> u8" where
  "fs_bit_mask_get nbit =
     (if nbit = 0 then 0x80
      else if nbit = 1 then 0x40
      else if nbit = 2 then 0x20
      else if nbit = 3 then 0x10
      else if nbit = 4 then 0x08
      else if nbit = 5 then 0x04
      else if nbit = 6 then 0x02
      else if nbit = 7 then 0x01
      else 0x00)"

definition fs_new_bit_array :: "nat \<Rightarrow> u8 list" where
  "fs_new_bit_array n =
     (let extra = (if n mod 8 \<noteq> 0 then 1 else 0) in replicate (n div 8 + extra) 0xFF)"

definition fs_bit_array_set :: "u8 list \<Rightarrow> nat \<Rightarrow> bool \<Rightarrow> u8 list option" where
  "fs_bit_array_set p i v =
     Option.bind (load_at p (i div 8)) (\<lambda>b. store_at p (i div 8) (b AND fs_bit_mask_set (i mod 8) v))"

definition fs_bit_array_get :: "u8 list \<Rightarrow> nat \<Rightarrow> bool option" where
  "fs_bit_array_get p i =
     map_option (\<lambda>b. b AND fs_bit_mask_get (i mod 8) \<noteq> 0) (load_at p (i div 8))"

section \<open>The masks select single bits\<close>

lemma less_8_cases: "(n :: nat) < 8 \<Longrightarrow> n \<in> {0, 1, 2, 3, 4, 5, 6, 7}"
  by auto

lemma mask_get_bit: "n < 8 \<Longrightarrow> fs_bit_mask_get n = 2 ^ (7 - n)"
  using less_8_cases [of n] by (auto simp: fs_bit_mask_get_def)

lemma and_pow2_nonzero: "k < 8 \<Longrightarrow> (b :: u8) AND 2 ^ k \<noteq> 0 \<longleftrightarrow> bit b k"
  by (simp add: and_exp_eq_0_iff_not_bit)

lemma mask_get_iff: "n < 8 \<Longrightarrow> b AND fs_bit_mask_get n \<noteq> 0 \<longleftrightarrow> bit b (7 - n)"
  by (simp only: mask_get_bit and_pow2_nonzero)

lemma mask_set_compl: "n < 8 \<Longrightarrow> fs_bit_mask_set n False = NOT (2 ^ (7 - n))"
  using less_8_cases [of n] by (auto simp: fs_bit_mask_set_def)

lemma bit_mask_set: "n < 8 \<Longrightarrow> k < 8 \<Longrightarrow> bit (b AND fs_bit_mask_set n v) k \<longleftrightarrow> bit b k \<and> (v \<or> k \<noteq> 7 - n)"
proof (cases v)
  case True
  have "(0xFF :: u8) = - 1" by simp
  then have "b AND 0xFF = b" by (simp only: and.right_neutral)
  with True show "?thesis" by (simp add: fs_bit_mask_set_def)
next
  case False
  assume "n < 8" "k < 8"
  with False show ?thesis
    by (simp add: mask_set_compl bit_and_iff bit_not_iff bit_exp_iff)
qed

section \<open>Properties\<close>

text \<open>C35: setting bit \<open>i\<close> of an array stays inside the array, and afterwards bit \<open>j\<close> reads
  as it did before, except that bit \<open>i\<close> is cleared by a zero value; a non-zero value
  leaves every bit as it was, so a cleared bit cannot be set again.\<close>

theorem bit_array_get_set:
  assumes i: "i div 8 < length p" and j: "j div 8 < length p"
  shows "\<exists>p'. fs_bit_array_set p i v = Some p' \<and> length p' = length p
     \<and> fs_bit_array_get p' j = map_option (\<lambda>b. b \<and> (v \<or> j \<noteq> i)) (fs_bit_array_get p j)"
proof (cases "j div 8 = i div 8")
  case True
  then have ij: "j = i \<longleftrightarrow> j mod 8 = i mod 8"
    by (metis mod_div_decomp)
  let ?b = "p ! (i div 8)"
  have "bit (?b AND fs_bit_mask_set (i mod 8) v) (7 - j mod 8) \<longleftrightarrow> bit ?b (7 - j mod 8) \<and> (v \<or> j \<noteq> i)"
    using bit_mask_set [of "i mod 8" "7 - j mod 8" ?b v] ij
    by (auto simp: eq_diff_iff)
  with i j True show ?thesis
    by (auto simp: fs_bit_array_set_def fs_bit_array_get_def mask_get_iff)
next
  case False
  with i j show ?thesis
    by (auto simp: fs_bit_array_set_def fs_bit_array_get_def)
qed

theorem bit_array_get_set_witness:
  "\<exists>p'. fs_bit_array_set (fs_new_bit_array 10) 9 False = Some p' \<and> length p' = length (fs_new_bit_array 10)
     \<and> fs_bit_array_get p' 9 = map_option (\<lambda>b. b \<and> (False \<or> (9::nat) \<noteq> 9)) (fs_bit_array_get (fs_new_bit_array 10) 9)"
  using bit_array_get_set [of 9 "fs_new_bit_array 10" 9 False]
  by (simp add: fs_new_bit_array_def)

text \<open>C36: every bit of a new array of \<open>n\<close> bits reads as set.\<close>

theorem new_bit_array_all_set:
  assumes "i < n"
  shows "fs_bit_array_get (fs_new_bit_array n) i = Some True"
proof -
  have "i div 8 < n div 8 + (if n mod 8 \<noteq> 0 then 1 else 0)"
  proof (cases "n mod 8 = 0")
    case True
    then have "n = n div 8 * 8" using div_mult_mod_eq [of n 8] by simp
    with assms True show ?thesis by (simp add: less_mult_imp_div_less)
  next
    case False
    with assms show ?thesis by (simp add: div_le_mono le_imp_less_Suc)
  qed
  moreover have "(0xFF :: u8) AND fs_bit_mask_get (i mod 8) \<noteq> 0"
    using less_8_cases [of "i mod 8"] by (auto simp: fs_bit_mask_get_def)
  ultimately show ?thesis
    by (simp add: fs_bit_array_get_def fs_new_bit_array_def Let_def load_at_def)
qed

theorem new_bit_array_all_set_witness:
  "(3 :: nat) < 10 \<and> fs_bit_array_get (fs_new_bit_array 10) 3 = Some True"
  using new_bit_array_all_set [of 3 10] by simp

end
