(* ===== verification/Decimal.thy ===== *)
theory Decimal
  imports Prelude
begin

text \<open>
  Fixed-point decimals of the query engine (\<open>frontend/decimal.c\<close>): 42 signed digits, two
  overflow digits, 20 integer digits and 20 fraction digits, the most significant first,
  with a word of flags.  Addition works in ten's complement, multiplication adds shifted
  digit products, division multiplies by a Newton-Raphson reciprocal.  The conversions to
  and from \<open>double\<close> and the debugging printer are left out.
\<close>

section \<open>Data\<close>

record fs_decimal =
  d_flags :: u32
  digit :: "int list"

definition FS_D_NEGATIVE :: u32 where "FS_D_NEGATIVE = 1"
definition FS_D_OVERFLOW :: u32 where "FS_D_OVERFLOW = 2"
definition FS_D_SYNTAX_ERROR :: u32 where "FS_D_SYNTAX_ERROR = 4"

definition zero_val :: fs_decimal where
  "zero_val = \<lparr>d_flags = 0, digit = replicate 42 0\<rparr>"

definition unit_val :: fs_decimal where
  "unit_val = \<lparr>d_flags = 0, digit = (replicate 42 0)[41 := 1]\<rparr>"

definition d1_val :: fs_decimal where
  "d1_val = \<lparr>d_flags = 0, digit = (replicate 42 0)[21 := 1]\<rparr>"

definition d2_val :: fs_decimal where
  "d2_val = \<lparr>d_flags = 0, digit = (replicate 42 0)[21 := 2]\<rparr>"

definition d2_914_val :: fs_decimal where
  "d2_914_val = \<lparr>d_flags = 0, digit = (replicate 42 0)[21 := 2, 22 := 9, 23 := 1, 24 := 4]\<rparr>"

text \<open>The conversion to \<open>signed char\<close> that every store to a digit makes.\<close>

definition schar :: "int \<Rightarrow> int" where
  "schar x = (x + 128) mod 256 - 128"

text \<open>\<open>a->flags & FS_D_NEGATIVE\<close> and the test for overflow.\<close>

definition is_negative :: "fs_decimal \<Rightarrow> bool" where
  "is_negative d \<longleftrightarrow> d_flags d AND FS_D_NEGATIVE \<noteq> 0"

definition is_overflow :: "fs_decimal \<Rightarrow> bool" where
  "is_overflow d \<longleftrightarrow> d_flags d AND FS_D_OVERFLOW \<noteq> 0"

section \<open>Initialisation\<close>

definition fs_decimal_init :: fs_decimal where
  "fs_decimal_init = zero_val"

text \<open>The loop of \<open>from_uint64\<close>; \<open>pos\<close> is a C \<open>int\<close> and may become negative.\<close>

function from_uint64_loop :: "fs_decimal \<Rightarrow> nat \<Rightarrow> int \<Rightarrow> int \<times> fs_decimal" where
  "from_uint64_loop d i pos =
     (if i \<noteq> 0 then
        if pos < 0 \<or> pos \<ge> 42 then (1, d\<lparr>d_flags := d_flags d OR FS_D_OVERFLOW\<rparr>)
        else from_uint64_loop (d\<lparr>digit := (digit d)[nat pos := int (i mod 10)]\<rparr>) (i div 10) (pos - 1)
      else (0, d))"
  by pat_completeness auto
termination
  by (relation "measure (\<lambda>(_, i, _). i)") auto

declare from_uint64_loop.simps [simp del]

definition from_uint64 :: "fs_decimal \<Rightarrow> nat \<Rightarrow> int \<Rightarrow> int \<times> fs_decimal" where
  "from_uint64 d i offset = from_uint64_loop d i (2 + 20 + offset - 1)"

text \<open>\<open>llabs\<close> of the most negative value wraps to itself, which is its absolute value as an
  unsigned number.\<close>

definition fs_decimal_init_from_int64_offset :: "int \<Rightarrow> int \<Rightarrow> int \<times> fs_decimal" where
  "fs_decimal_init_from_int64_offset i offset =
     (let d = fs_decimal_init;
          d' = (if i < 0 then d\<lparr>d_flags := d_flags d OR FS_D_NEGATIVE\<rparr> else d)
      in from_uint64 d' (nat \<bar>i\<bar>) offset)"

definition fs_decimal_init_from_int64 :: "int \<Rightarrow> int \<times> fs_decimal" where
  "fs_decimal_init_from_int64 i =
     (let d = fs_decimal_init;
          d' = (if i < 0 then d\<lparr>d_flags := d_flags d OR FS_D_NEGATIVE\<rparr> else d)
      in from_uint64 d' (nat \<bar>i\<bar>) 0)"

definition fs_decimal_init_from_int32 :: "int \<Rightarrow> int \<times> fs_decimal" where
  "fs_decimal_init_from_int32 i =
     (let d = fs_decimal_init;
          d' = (if i < 0 then d\<lparr>d_flags := d_flags d OR FS_D_NEGATIVE\<rparr> else d)
      in from_uint64 d' (nat \<bar>i\<bar>) 0)"

section \<open>Lexical forms\<close>

text \<open>The checking loop of \<open>fs_decimal_init_from_str\<close>: the flags, the position of the point
  and whether there is a sign, or a syntax error.\<close>

fun from_str_scan :: "string \<Rightarrow> nat \<Rightarrow> u32 \<Rightarrow> nat option \<Rightarrow> bool \<Rightarrow> (u32 \<times> nat option \<times> bool) option" where
  "from_str_scan [] cpos flags decpos has_sign = Some (flags, decpos, has_sign)"
| "from_str_scan (c # cs) cpos flags decpos has_sign =
     (if of_char c < (48 :: nat) \<or> of_char c > (57 :: nat) then
        if c = CHR ''-'' \<and> cpos = 0 then from_str_scan cs (cpos + 1) FS_D_NEGATIVE decpos True
        else if c = CHR ''+'' \<and> cpos = 0 then from_str_scan cs (cpos + 1) flags decpos True
        else if c = CHR ''.'' then
          if decpos = None then from_str_scan cs (cpos + 1) flags (Some cpos) has_sign
          else None
        else None
      else from_str_scan cs (cpos + 1) flags decpos has_sign)"

text \<open>The two loops that store digits: character \<open>cpos\<close> goes to digit \<open>base + cpos\<close>, for
  \<open>base\<close> an \<open>int\<close>.  A store outside the array is undefined.\<close>

function from_str_fill :: "string \<Rightarrow> int \<Rightarrow> nat \<Rightarrow> nat \<Rightarrow> int list \<Rightarrow> int list option" where
  "from_str_fill str base cpos stop ds =
     (if cpos < stop then
        let dpos = base + int cpos
        in if 0 \<le> dpos \<and> dpos < int (length ds)
           then from_str_fill str base (cpos + 1) stop (ds[nat dpos := of_char (str ! cpos) - 48])
           else None
      else Some ds)"
  by pat_completeness auto
termination
  by (relation "measure (\<lambda>(_, _, cpos, stop, _). stop - cpos)") auto

declare from_str_fill.simps [simp del]

definition fs_decimal_init_from_str :: "string \<Rightarrow> (int \<times> fs_decimal) option" where
  "fs_decimal_init_from_str str =
     (let d = fs_decimal_init; len = length str
      in case from_str_scan str 0 (d_flags d) None False of
           None \<Rightarrow> Some (1, d\<lparr>d_flags := FS_D_SYNTAX_ERROR\<rparr>)
         | Some (flags, dp, has_sign) \<Rightarrow>
             let decpos = (case dp of None \<Rightarrow> len | Some q \<Rightarrow> q);
                 offset = (if has_sign then 1 else 0)
             in do {
                  ds1 \<leftarrow> from_str_fill str (2 + 20 - int decpos) offset decpos (digit d);
                  ds2 \<leftarrow> from_str_fill str (2 + 20 - int decpos - 1) (decpos + 1) len ds1;
                  Some (0, d\<lparr>d_flags := flags, digit := ds2\<rparr>)
                })"

text \<open>The character \<open>digit + '0'\<close>.\<close>

definition digit_char :: "int \<Rightarrow> char" where
  "digit_char x = char_of (nat ((x + 48) mod 256))"

text \<open>The output loop of \<open>fs_decimal_to_lex\<close> from digit \<open>i\<close> on.\<close>

fun lex_loop :: "int list \<Rightarrow> nat \<Rightarrow> bool \<Rightarrow> string" where
  "lex_loop [] i started = []"
| "lex_loop (x # xs) i started =
     (let (pre, started1) =
            (if i = 20 + 2 then ((if \<not> started then ''0'' else []) @ ''.'', True) else ([], started))
      in if started1 \<or> x \<noteq> 0 then pre @ digit_char x # lex_loop xs (i + 1) True
         else pre @ lex_loop xs (i + 1) started1)"

text \<open>The loop that cuts trailing zeros, on the reversed output: it stops at the first
  character of the buffer, and after the point.\<close>

fun lex_strip :: "string \<Rightarrow> string" where
  "lex_strip [] = []"
| "lex_strip (c # cs) =
     (if c = CHR ''0'' \<or> c = CHR ''.'' then
        if cs = [] then [c]
        else if c = CHR ''.'' then cs
        else lex_strip cs
      else c # cs)"

definition fs_decimal_to_lex :: "fs_decimal \<Rightarrow> string option" where
  "fs_decimal_to_lex d =
     (if is_overflow d then Some ''overflow error''
      else if d_flags d AND FS_D_SYNTAX_ERROR \<noteq> 0 then Some ''syntax error''
      else
        let out = (if is_negative d then ''-'' else []) @ lex_loop (digit d) 0 False;
            res = rev (lex_strip (rev out));
            error = (\<exists>x \<in> set (digit d). x < 0 \<or> x > 9)
        in if error then
             if length res + 7 < 42 + 5 then Some (res @ '' '' @ [CHR 0xC2, CHR 0xA1] @ ''ERR!'') else None
           else Some res)"

section \<open>Conversion to integers\<close>

text \<open>The accumulator and the factor are 64-bit; they wrap.\<close>

fun to_int64_loop :: "int list \<Rightarrow> u64 \<Rightarrow> u64 \<Rightarrow> u64" where
  "to_int64_loop [] acc factor = acc"
| "to_int64_loop (x # xs) acc factor = to_int64_loop xs (acc + factor * of_int x) (factor * 10)"

definition fs_decimal_to_int64 :: "fs_decimal \<Rightarrow> int" where
  "fs_decimal_to_int64 d =
     (let v = to_int64_loop (rev (take 20 (drop 2 (digit d)))) 0 1
      in sint (if is_negative d then - v else v))"

section \<open>Comparison\<close>

definition fs_decimal_copy :: "fs_decimal \<Rightarrow> fs_decimal" where
  "fs_decimal_copy from = from"

definition fs_decimal_is_zero :: "fs_decimal \<Rightarrow> bool" where
  "fs_decimal_is_zero a \<longleftrightarrow> (\<forall>x \<in> set (digit a). x = 0)"

definition fs_decimal_equal :: "fs_decimal \<Rightarrow> fs_decimal \<Rightarrow> bool" where
  "fs_decimal_equal a b =
     (if d_flags a OR FS_D_NEGATIVE \<noteq> d_flags b OR FS_D_NEGATIVE then False
      else if digit a \<noteq> digit b then False
      else if fs_decimal_is_zero a then True
      else if d_flags a AND FS_D_NEGATIVE \<noteq> d_flags b AND FS_D_NEGATIVE then False
      else True)"

text \<open>The loop \<open>if (a < b) return 1; if (a > b) return 0;\<close> over the digits.\<close>

fun digits_less :: "int list \<Rightarrow> int list \<Rightarrow> bool \<Rightarrow> bool" where
  "digits_less (x # xs) (y # ys) def = (if x < y then True else if x > y then False else digits_less xs ys def)"
| "digits_less _ _ def = def"

definition decimal_less_than :: "fs_decimal \<Rightarrow> fs_decimal \<Rightarrow> bool \<Rightarrow> bool" where
  "decimal_less_than a b def =
     (if d_flags a AND FS_D_NEGATIVE \<noteq> d_flags b AND FS_D_NEGATIVE then is_negative a
      else if is_negative a \<and> is_negative b then digits_less (digit b) (digit a) def
      else digits_less (digit a) (digit b) def)"

definition decimal_greater_than :: "fs_decimal \<Rightarrow> fs_decimal \<Rightarrow> bool \<Rightarrow> bool" where
  "decimal_greater_than a b def =
     (if d_flags a AND FS_D_NEGATIVE \<noteq> d_flags b AND FS_D_NEGATIVE then \<not> is_negative a
      else if is_negative a \<and> is_negative b then digits_less (digit a) (digit b) def
      else digits_less (digit b) (digit a) def)"

definition fs_decimal_less_than :: "fs_decimal \<Rightarrow> fs_decimal \<Rightarrow> bool" where
  "fs_decimal_less_than a b = decimal_less_than a b False"

definition fs_decimal_less_than_equal :: "fs_decimal \<Rightarrow> fs_decimal \<Rightarrow> bool" where
  "fs_decimal_less_than_equal a b = decimal_less_than a b True"

definition fs_decimal_greater_than :: "fs_decimal \<Rightarrow> fs_decimal \<Rightarrow> bool" where
  "fs_decimal_greater_than a b = decimal_greater_than a b False"

definition fs_decimal_greater_than_equal :: "fs_decimal \<Rightarrow> fs_decimal \<Rightarrow> bool" where
  "fs_decimal_greater_than_equal a b = decimal_greater_than a b True"

section \<open>Addition\<close>

text \<open>The loop from digit \<open>i\<close> down to 1 that \<open>add_simple\<close> and \<open>fs_decimal_add\<close> share.\<close>

fun add_loop :: "nat \<Rightarrow> int list \<Rightarrow> int list \<Rightarrow> int list \<Rightarrow> int list" where
  "add_loop 0 a b r = r"
| "add_loop (Suc i) a b r =
     (let v = schar (r ! Suc i + (a ! Suc i + b ! Suc i))
      in if v > 9 then add_loop i a b (r[i := schar (r ! i + v div 10), Suc i := v mod 10])
         else add_loop i a b (r[Suc i := v]))"

definition add_simple :: "fs_decimal \<Rightarrow> fs_decimal \<Rightarrow> fs_decimal" where
  "add_simple a b = fs_decimal_init\<lparr>digit := add_loop 41 (digit a) (digit b) (digit fs_decimal_init)\<rparr>"

definition fs_decimal_radix_complement :: "fs_decimal \<Rightarrow> fs_decimal" where
  "fs_decimal_radix_complement a =
     add_simple (zero_val\<lparr>digit := map (\<lambda>x. schar (9 - x)) (digit a)\<rparr>) unit_val"

definition fs_decimal_negate :: "fs_decimal \<Rightarrow> fs_decimal" where
  "fs_decimal_negate a = (fs_decimal_copy a)\<lparr>d_flags := d_flags a XOR FS_D_NEGATIVE\<rparr>"

definition fs_decimal_add :: "fs_decimal \<Rightarrow> fs_decimal \<Rightarrow> int \<times> fs_decimal" where
  "fs_decimal_add ain bin =
     (if is_overflow ain \<or> is_overflow bin then (1, fs_decimal_init\<lparr>d_flags := FS_D_OVERFLOW\<rparr>)
      else
        let a = (if is_negative ain then fs_decimal_radix_complement ain else ain);
            b = (if is_negative bin then fs_decimal_radix_complement bin else bin);
            t1 = zero_val\<lparr>digit := add_loop 41 (digit a) (digit b) (digit zero_val)\<rparr>;
            t2 = (if digit t1 ! 0 = 1 then t1\<lparr>digit := (digit t1)[0 := 0]\<rparr> else t1);
            t3 = (if digit t2 ! 1 = 9
                  then (let t = fs_decimal_radix_complement t2 in t\<lparr>d_flags := d_flags t OR FS_D_NEGATIVE\<rparr>)
                  else t2)
        in (0, t3))"

definition fs_decimal_subtract :: "fs_decimal \<Rightarrow> fs_decimal \<Rightarrow> int \<times> fs_decimal" where
  "fs_decimal_subtract a b = fs_decimal_add a (fs_decimal_negate b)"

section \<open>Multiplication\<close>

text \<open>\<open>mul_internal\<close> into a zero decimal: digit \<open>i\<close> of \<open>a\<close> goes to \<open>i - offset + 20 - 1\<close>
  unless that is outside the number.\<close>

fun mul_loop :: "nat \<Rightarrow> int list \<Rightarrow> int \<Rightarrow> int \<Rightarrow> int list \<Rightarrow> int list" where
  "mul_loop 0 a mul offset r = r"
| "mul_loop (Suc i) a mul offset r =
     (let p = int i - offset + 20 - 1
      in mul_loop i a mul offset
           (if 0 \<le> p \<and> p < 42 then r[nat p := schar (a ! i * mul)] else r))"

definition mul_internal :: "fs_decimal \<Rightarrow> int \<Rightarrow> int \<Rightarrow> fs_decimal \<Rightarrow> fs_decimal" where
  "mul_internal a mul offset r = r\<lparr>digit := mul_loop 42 (digit a) mul offset (digit r)\<rparr>"

text \<open>
  \<open>b->digit[40 - i]\<close>; for \<open>i = 41\<close> this is the byte before the digits, the most
  significant byte of the flags.
\<close>

definition mul_digit :: "fs_decimal \<Rightarrow> nat \<Rightarrow> int" where
  "mul_digit b i = (if i \<le> 40 then digit b ! (40 - i) else sint (ucast (drop_bit 24 (d_flags b)) :: u8))"

definition mul_step :: "fs_decimal \<Rightarrow> fs_decimal \<Rightarrow> nat \<Rightarrow> fs_decimal \<Rightarrow> fs_decimal" where
  "mul_step a b i acc =
     (if mul_digit b i \<noteq> 0 then
        let tmp = mul_internal a (mul_digit b i) (int i) zero_val;
            acc1 = (if digit tmp ! 0 \<noteq> 0 \<or> digit tmp ! 1 \<noteq> 0
                    then acc\<lparr>d_flags := d_flags acc OR FS_D_OVERFLOW\<rparr> else acc)
        in snd (fs_decimal_add acc1 tmp)
      else acc)"

definition fs_decimal_multiply :: "fs_decimal \<Rightarrow> fs_decimal \<Rightarrow> int \<times> fs_decimal" where
  "fs_decimal_multiply a b =
     (if is_overflow a \<or> is_overflow b then (1, fs_decimal_init\<lparr>d_flags := FS_D_OVERFLOW\<rparr>)
      else
        let acc = fold (mul_step a b) [0..<42] zero_val
        in (0, acc\<lparr>d_flags := d_flags acc OR
                 ((d_flags a AND FS_D_NEGATIVE) XOR (d_flags b AND FS_D_NEGATIVE))\<rparr>))"

section \<open>Division\<close>

text \<open>\<open>intl.digit[i] = a->digit[i - places]\<close> for the positions where both exist.\<close>

definition decimal_shift :: "fs_decimal \<Rightarrow> int \<Rightarrow> fs_decimal" where
  "decimal_shift a places =
     zero_val\<lparr>digit := map (\<lambda>i. if 0 \<le> int i - places \<and> int i - places < 42
                                then digit a ! nat (int i - places) else 0) [0..<42]\<rparr>"

text \<open>The first digit that is not zero decides the shift; without one it stays.\<close>

fun first_digit :: "int list \<Rightarrow> nat \<Rightarrow> nat option" where
  "first_digit [] i = None"
| "first_digit (x # xs) i = (if x \<noteq> 0 then Some i else first_digit xs (i + 1))"

definition fs_decimal_normalise :: "fs_decimal \<Rightarrow> int \<Rightarrow> fs_decimal \<times> int" where
  "fs_decimal_normalise a shift =
     (let shift' = (case first_digit (digit a) 0 of None \<Rightarrow> shift | Some i \<Rightarrow> 2 + 20 - int i)
      in (decimal_shift a shift', shift'))"

text \<open>The Newton-Raphson loop with \<open>n\<close> turns left.\<close>

fun newton_loop :: "nat \<Rightarrow> fs_decimal \<Rightarrow> fs_decimal \<Rightarrow> fs_decimal \<Rightarrow> fs_decimal" where
  "newton_loop 0 norm lst x = x"
| "newton_loop (Suc n) norm lst x =
     (let dx = snd (fs_decimal_multiply norm x);
          tmp = snd (fs_decimal_subtract d2_val dx);
          x1 = snd (fs_decimal_multiply tmp x)
      in if fs_decimal_equal x1 lst then x1 else newton_loop n norm x1 x1)"

definition fs_decimal_divide :: "fs_decimal \<Rightarrow> fs_decimal \<Rightarrow> fs_decimal \<Rightarrow> int \<times> fs_decimal" where
  "fs_decimal_divide n d q =
     (if fs_decimal_is_zero d then (1, q)
      else
        let (norm, shift) = fs_decimal_normalise d 0;
            x0 = (if digit norm ! (2 + 20) \<ge> 5
                  then snd (fs_decimal_subtract d2_914_val (snd (fs_decimal_multiply d2_val norm)))
                  else d1_val);
            x1 = newton_loop 30 norm zero_val x0;
            x2 = snd (fs_decimal_add x1 unit_val);
            x3 = decimal_shift x2 shift;
            r = snd (fs_decimal_multiply n x3)
        in (0, r\<lparr>d_flags := d_flags r XOR (d_flags d AND FS_D_NEGATIVE)\<rparr>))"

section \<open>Values\<close>

text \<open>The number a digit list stands for, in units of the last place.\<close>

fun num :: "int list \<Rightarrow> int" where
  "num [] = 0"
| "num (x # xs) = x * 10 ^ length xs + num xs"

definition dval :: "fs_decimal \<Rightarrow> int" where
  "dval d = (if is_negative d then - num (digit d) else num (digit d))"

abbreviation is_digits :: "int list \<Rightarrow> bool" where
  "is_digits xs \<equiv> \<forall>x \<in> set xs. 0 \<le> x \<and> x \<le> 9"

text \<open>A normal decimal: 42 digits, no overflow digits, no error flag.\<close>

definition normal :: "fs_decimal \<Rightarrow> bool" where
  "normal d \<longleftrightarrow> length (digit d) = 42 \<and> is_digits (digit d) \<and> digit d ! 0 = 0 \<and> digit d ! 1 = 0
     \<and> (d_flags d = 0 \<or> d_flags d = FS_D_NEGATIVE)"

lemma num_nonneg: "is_digits xs \<Longrightarrow> 0 \<le> num xs"
  by (induction xs) auto

lemma num_less: "is_digits xs \<Longrightarrow> num xs < 10 ^ length xs"
proof (induction xs)
  case (Cons x xs)
  then have "num xs < 10 ^ length xs" "x * 10 ^ length xs \<le> 9 * 10 ^ length xs" by (auto intro!: mult_right_mono)
  then have "x * 10 ^ length xs + num xs < 9 * 10 ^ length xs + 10 ^ length xs" by linarith
  then show ?case by simp
qed simp

lemma num_append: "num (xs @ ys) = num xs * 10 ^ length ys + num ys"
  by (induction xs) (auto simp: power_add algebra_simps)

lemma num_replicate_0 [simp]: "num (replicate n 0) = 0"
  by (induction n) auto

lemma num_zero_iff: "is_digits xs \<Longrightarrow> num xs = 0 \<longleftrightarrow> (\<forall>x \<in> set xs. x = 0)"
proof (induction xs)
  case (Cons x xs)
  have "0 \<le> num xs" "0 \<le> x * 10 ^ length xs" using Cons.prems num_nonneg by auto
  then show ?case using Cons by (auto simp: add_nonneg_eq_0_iff)
qed simp

lemma num_inject: "is_digits xs \<Longrightarrow> is_digits ys \<Longrightarrow> length xs = length ys \<Longrightarrow> num xs = num ys \<longleftrightarrow> xs = ys"
proof (induction xs arbitrary: ys)
  case (Cons x xs)
  then obtain y ys' where ys: "ys = y # ys'" "length xs = length ys'" by (cases ys) auto
  have b: "0 \<le> num xs" "num xs < 10 ^ length xs" "0 \<le> num ys'" "num ys' < 10 ^ length xs"
    using num_nonneg [of xs] num_less [of xs] num_nonneg [of ys'] num_less [of ys'] Cons.prems ys by auto
  have "x = y" if "x * 10 ^ length xs + num xs = y * 10 ^ length xs + num ys'"
  proof -
    have "(x * 10 ^ length xs + num xs) div 10 ^ length xs = x" "(y * 10 ^ length xs + num ys') div 10 ^ length xs = y"
      using b by simp_all
    with that show ?thesis by simp
  qed
  with Cons.IH [of ys'] Cons.prems ys show ?case by auto
qed simp

lemma schar_id [simp]: "-128 \<le> x \<Longrightarrow> x < 128 \<Longrightarrow> schar x = x"
  by (simp add: schar_def)

lemma zero_val_simps [simp]: "digit zero_val = replicate 42 0" "d_flags zero_val = 0"
  by (simp_all add: zero_val_def)

lemma num_unit [simp]: "num (digit unit_val) = 1"
  by (simp add: unit_val_def numeral_eq_Suc)

section \<open>Addition\<close>

lemma num_drop: "i < length xs \<Longrightarrow> num (drop i xs) = xs ! i * 10 ^ (length xs - 1 - i) + num (drop (Suc i) xs)"
  by (subst Cons_nth_drop_Suc [symmetric]) auto

text \<open>
  The digits below \<open>i\<close> of the running sum are still zero, digit \<open>i\<close> holds the carry and the
  digits above it are the sum of what was added so far.
\<close>

definition add_inv :: "nat \<Rightarrow> int list \<Rightarrow> int list \<Rightarrow> int list \<Rightarrow> bool" where
  "add_inv i a b r \<longleftrightarrow> length r = 42 \<and> (\<forall>j < i. r ! j = 0) \<and> is_digits r
     \<and> r ! i * 10 ^ (41 - i) + num (drop (Suc i) r) = num (drop (Suc i) a) + num (drop (Suc i) b)"

lemma add_loop_Suc:
  assumes "0 \<le> v" "v \<le> 99" "r ! i = 0" "v = r ! Suc i + (a ! Suc i + b ! Suc i)"
  shows "add_loop (Suc i) a b r = add_loop i a b (r[i := v div 10, Suc i := v mod 10])"
proof (cases "v \<le> 9")
  case True
  then have "r[i := v div 10, Suc i := v mod 10] = r[Suc i := v]"
    using assms(1,3) list_update_id [of r i] by (simp del: list_update_id)
  moreover have "schar v = v" using assms(1) True by simp
  ultimately show ?thesis using True unfolding add_loop.simps Let_def assms(4) [symmetric] by (simp del: add_loop.simps)
next
  case False
  moreover have "schar v = v" "schar (r ! i + v div 10) = v div 10" using assms(1-3) by simp_all
  ultimately show ?thesis unfolding add_loop.simps Let_def assms(4) [symmetric] by (simp del: add_loop.simps)
qed

lemma add_loop_ok:
  assumes "length a = 42" "length b = 42" "i < 42" "add_inv i a b r"
    and "\<And>j. 1 \<le> j \<Longrightarrow> j < 42 \<Longrightarrow> 0 \<le> a ! j \<and> a ! j \<le> 9 \<and> 0 \<le> b ! j \<and> b ! j \<le> 81"
  shows "add_inv 0 a b (add_loop i a b r)"
  using assms
proof (induction i arbitrary: r)
  case (Suc i)
  define v where "v = r ! Suc i + (a ! Suc i + b ! Suc i)"
  define r' where "r' = r[i := v div 10, Suc i := v mod 10]"
  have inv: "length r = 42" "\<forall>j < Suc i. r ! j = 0" "is_digits r"
    "r ! Suc i * 10 ^ (41 - Suc i) + num (drop (Suc (Suc i)) r) = num (drop (Suc (Suc i)) a) + num (drop (Suc (Suc i)) b)"
    using Suc.prems(4) by (auto simp: add_inv_def)
  have i: "Suc i < 42" "Suc i < length r" "Suc i < length a" "Suc i < length b" using Suc.prems inv by auto
  have "0 \<le> r ! Suc i" "r ! Suc i \<le> 9" using inv(3) nth_mem [OF i(2)] by blast+
  then have v: "0 \<le> v" "v \<le> 99" using Suc.prems(5) [of "Suc i"] i(1) unfolding v_def by auto
  have loop: "add_loop (Suc i) a b r = add_loop i a b r'"
    unfolding r'_def by (rule add_loop_Suc [OF v _ v_def]) (use inv(2) in simp)
  have "41 - i = Suc (41 - Suc i)" using i(1) by simp
  then have p: "10 ^ (41 - i) = (10 :: int) * 10 ^ (41 - Suc i)" by (simp only: power_Suc)
  have r': "r' ! i = v div 10" "r' ! Suc i = v mod 10" "length r' = 42" "drop (Suc (Suc i)) r' = drop (Suc (Suc i)) r"
    using i inv(1) by (simp_all add: r'_def)
  have "add_inv i a b r'"
    unfolding add_inv_def
  proof (intro conjI)
    show "is_digits r'"
      using inv(3) v set_update_subset_insert [of "r[i := v div 10]" "Suc i" "v mod 10"]
        set_update_subset_insert [of r i "v div 10"] unfolding r'_def by (auto dest!: subsetD)
    have "r' ! i * 10 ^ (41 - i) + num (drop (Suc i) r')
        = v div 10 * 10 ^ (41 - i) + (v mod 10 * 10 ^ (41 - Suc i) + num (drop (Suc (Suc i)) r))"
      using num_drop [of "Suc i" r'] i(1) by (simp add: r')
    also have "\<dots> = (v div 10 * 10 + v mod 10) * 10 ^ (41 - Suc i) + num (drop (Suc (Suc i)) r)"
      unfolding p by (simp only: distrib_right mult.assoc add.assoc)
    also have "\<dots> = v * 10 ^ (41 - Suc i) + num (drop (Suc (Suc i)) r)" by (simp only: div_mult_mod_eq)
    also have "\<dots> = num (drop (Suc i) a) + num (drop (Suc i) b)"
      using inv(4) num_drop [of "Suc i" a] num_drop [of "Suc i" b] i Suc.prems(1,2) by (simp add: v_def algebra_simps)
    finally show "r' ! i * 10 ^ (41 - i) + num (drop (Suc i) r') = num (drop (Suc i) a) + num (drop (Suc i) b)" .
  qed (use inv(1,2) i in \<open>auto simp: r'_def\<close>)
  with Suc.IH [of r'] Suc.prems(1,2,5) i(1) show ?case unfolding loop by simp
qed simp

text \<open>The sum of the digits but the first, with the carry in the first.\<close>

lemma add_loop_num:
  assumes "length a = 42" "length b = 42"
    and "\<And>j. 1 \<le> j \<Longrightarrow> j < 42 \<Longrightarrow> 0 \<le> a ! j \<and> a ! j \<le> 9 \<and> 0 \<le> b ! j \<and> b ! j \<le> 81"
  defines "r \<equiv> add_loop 41 a b (replicate 42 0)"
  shows "length r = 42" "is_digits r" "num r = num (drop 1 a) + num (drop 1 b)"
proof -
  have "add_inv 41 a b (replicate 42 0)" using assms(1,2) by (simp add: add_inv_def)
  then have "add_inv 0 a b r" unfolding r_def using assms(1-3) by (intro add_loop_ok) auto
  then show "length r = 42" "is_digits r" "num r = num (drop 1 a) + num (drop 1 b)"
    using num_drop [of 0 r] by (auto simp: add_inv_def)
qed

text \<open>A number of 42 digits, cut at its first and its second digit.\<close>

abbreviation tail :: "int list \<Rightarrow> int" where
  "tail xs \<equiv> num (drop 1 xs)"

lemma is_digits_drop: "is_digits xs \<Longrightarrow> is_digits (drop n xs)"
  using set_drop_subset [of n xs] by blast

lemma num_take: "n \<le> length xs \<Longrightarrow> is_digits xs \<Longrightarrow> num (take n xs) = num xs div 10 ^ (length xs - n)"
  using num_append [of "take n xs" "drop n xs"] num_nonneg [OF is_digits_drop, of xs n] num_less [OF is_digits_drop, of xs n]
  by simp

lemma num_drop_mod: "n \<le> length xs \<Longrightarrow> is_digits xs \<Longrightarrow> num (drop n xs) = num xs mod 10 ^ (length xs - n)"
  using num_append [of "take n xs" "drop n xs"] num_nonneg [OF is_digits_drop, of xs n] num_less [OF is_digits_drop, of xs n]
  by simp

lemma nth_digits: "is_digits xs \<Longrightarrow> j < length xs \<Longrightarrow> 0 \<le> xs ! j \<and> xs ! j \<le> 9"
  using nth_mem [of j xs] by blast

lemma tail_cut:
  assumes "is_digits r" "length r = 42"
  shows "tail r = num r mod 10 ^ 41" "r ! 0 = num r div 10 ^ 41" "r ! 1 = tail r div 10 ^ 40"
    "0 \<le> tail r" "tail r < 10 ^ 41"
proof -
  have t: "0 \<le> tail r" "tail r < 10 ^ 41" "0 \<le> num (drop 2 r)" "num (drop 2 r) < 10 ^ 40"
    using num_nonneg [OF is_digits_drop [OF assms(1)]] num_less [OF is_digits_drop [OF assms(1)], of 1]
      num_less [OF is_digits_drop [OF assms(1)], of 2] assms(2) by simp_all
  have r: "num r = tail r + r ! 0 * 10 ^ 41" "tail r = num (drop 2 r) + r ! 1 * 10 ^ 40"
    using num_drop [of 0 r] num_drop [of 1 r] assms(2) by (simp_all add: numeral_2_eq_2)
  show "tail r = num r mod 10 ^ 41" "r ! 0 = num r div 10 ^ 41"
    unfolding r(1) using t(1,2) by simp_all
  show "r ! 1 = tail r div 10 ^ 40" unfolding r(2) using t(3,4) by simp
  show "0 \<le> tail r" "tail r < 10 ^ 41" by (rule t)+
qed

lemma num_nines: "num (map (\<lambda>x. 9 - x) xs) = 10 ^ length xs - 1 - num xs"
  by (induction xs) (auto simp: algebra_simps)

lemma complement_digits:
  assumes "is_digits xs"
  shows "map (\<lambda>x. schar (9 - x)) xs = map (\<lambda>x. 9 - x) xs" "is_digits (map (\<lambda>x. 9 - x) xs)"
  using assms by (auto intro!: schar_id)

lemma radix_complement_num:
  assumes "is_digits (digit a)" "length (digit a) = 42"
  shows "is_digits (digit (fs_decimal_radix_complement a))" "length (digit (fs_decimal_radix_complement a)) = 42"
    "num (digit (fs_decimal_radix_complement a)) = 10 ^ 41 - tail (digit a)"
    "d_flags (fs_decimal_radix_complement a) = 0"
proof -
  let ?n = "map (\<lambda>x. 9 - x) (digit a)"
  have n: "is_digits ?n" "length ?n = 42" "tail ?n = 10 ^ 41 - 1 - tail (digit a)"
    using num_nines [of "drop 1 (digit a)"] assms(2) by (auto simp only: complement_digits(2) [OF assms(1)] length_map drop_map) simp
  have u: "length (digit unit_val) = 42" "is_digits (digit unit_val)" "tail (digit unit_val) = 1"
    by (simp_all add: unit_val_def numeral_eq_Suc)
  have r: "digit (fs_decimal_radix_complement a) = add_loop 41 ?n (digit unit_val) (replicate 42 0)"
    unfolding complement_digits(1) [OF assms(1), symmetric]
    by (simp add: fs_decimal_radix_complement_def add_simple_def fs_decimal_init_def)
  have b: "0 \<le> ?n ! j \<and> ?n ! j \<le> 9 \<and> 0 \<le> digit unit_val ! j \<and> digit unit_val ! j \<le> 81" if "1 \<le> j" "j < 42" for j
    using that u(1) nth_digits [OF n(1), of j] nth_digits [OF u(2), of j] n(2) by simp
  show "is_digits (digit (fs_decimal_radix_complement a))" "length (digit (fs_decimal_radix_complement a)) = 42"
    "num (digit (fs_decimal_radix_complement a)) = 10 ^ 41 - tail (digit a)"
    unfolding r using add_loop_num [OF n(2) u(1) b] n(3) u(3) by auto
  show "d_flags (fs_decimal_radix_complement a) = 0"
    by (simp add: fs_decimal_radix_complement_def add_simple_def fs_decimal_init_def)
qed

text \<open>The operand in ten's complement stands for the value modulo \<open>10 ^ 41\<close>.\<close>

definition to_complement :: "fs_decimal \<Rightarrow> fs_decimal" where
  "to_complement a = (if is_negative a then fs_decimal_radix_complement a else a)"

lemma normalD:
  assumes "normal a"
  shows "length (digit a) = 42" "is_digits (digit a)" "\<not> is_overflow a"
    "num (digit a) = tail (digit a)" "0 \<le> num (digit a)" "num (digit a) < 10 ^ 40"
proof -
  show l: "length (digit a) = 42" "is_digits (digit a)" using assms by (auto simp: normal_def)
  show "\<not> is_overflow a" using assms by (auto simp: normal_def is_overflow_def FS_D_NEGATIVE_def FS_D_OVERFLOW_def)
  note c = tail_cut [OF l(2,1)]
  have d: "num (digit a) div 10 ^ 41 = 0" "tail (digit a) div 10 ^ 40 = 0"
    using assms c(2,3) by (auto simp: normal_def)
  show "0 \<le> num (digit a)" using l(2) by (rule num_nonneg)
  show e: "num (digit a) = tail (digit a)"
    using num_drop [of 0 "digit a"] l(1) assms by (simp add: normal_def)
  show "num (digit a) < 10 ^ 40" unfolding e using d(2) c(4) by (simp add: div_eq_0_iff)
qed

lemma to_complement_ok:
  assumes "normal a"
  shows "length (digit (to_complement a)) = 42" "is_digits (digit (to_complement a))"
    "tail (digit (to_complement a)) = dval a mod 10 ^ 41"
proof -
  note n = normalD [OF assms] and r = radix_complement_num [OF normalD(2) [OF assms] normalD(1) [OF assms]]
  show l: "length (digit (to_complement a)) = 42" "is_digits (digit (to_complement a))"
    using n r by (auto simp: to_complement_def)
  show "tail (digit (to_complement a)) = dval a mod 10 ^ 41"
  proof (cases "is_negative a")
    case True
    then have "tail (digit (to_complement a)) = (10 ^ 41 - num (digit a)) mod 10 ^ 41"
      using tail_cut(1) [OF r(1,2)] r(3) n(4) by (simp add: to_complement_def)
    also have "\<dots> = dval a mod 10 ^ 41" using True mod_add_self1 [of "10 ^ 41" "- num (digit a)"] by (simp add: dval_def)
    finally show ?thesis .
  next
    case False
    then show ?thesis using n by (simp add: to_complement_def dval_def)
  qed
qed

text \<open>The code after the loop.\<close>

definition add_finish :: "int list \<Rightarrow> fs_decimal" where
  "add_finish t =
     (let t2 = (if t ! 0 = 1 then zero_val\<lparr>digit := t[0 := 0]\<rparr> else zero_val\<lparr>digit := t\<rparr>)
      in if digit t2 ! 1 = 9
         then (let u = fs_decimal_radix_complement t2 in u\<lparr>d_flags := d_flags u OR FS_D_NEGATIVE\<rparr>)
         else t2)"

lemma fs_decimal_add_alt:
  assumes "\<not> is_overflow a" "\<not> is_overflow b"
  shows "fs_decimal_add a b =
    (0, add_finish (add_loop 41 (digit (to_complement a)) (digit (to_complement b)) (replicate 42 0)))"
proof -
  have [simp]: "zero_val\<lparr>digit := x, digit := y\<rparr> = zero_val\<lparr>digit := y\<rparr>" for x y by (simp add: zero_val_def)
  show ?thesis
    unfolding fs_decimal_add_def add_finish_def to_complement_def Let_def using assms by simp
qed

text \<open>
  The sum modulo \<open>10 ^ 41\<close> is read back: a second digit 9 means a negative number, every
  other one a number that is not negative.
\<close>

lemma clear_carry:
  assumes "is_digits t" "length t = 42" "num t < 2 * 10 ^ 41"
  defines "t' \<equiv> if t ! 0 = 1 then t[0 := 0] else t"
  shows "is_digits t'" "length t' = 42" "t' ! 0 = 0" "num t' = tail t" "tail t' = tail t"
proof -
  have "t ! 0 = num t div 10 ^ 41" "0 \<le> num t" using tail_cut(2) [OF assms(1,2)] num_nonneg [OF assms(1)] by auto
  then have "0 \<le> t ! 0" "t ! 0 < 2" using assms(3) by simp_all
  then have "t ! 0 = 0 \<or> t ! 0 = 1" by linarith
  then show z: "t' ! 0 = 0" and l: "length t' = 42" and d: "is_digits t'" and tl: "tail t' = tail t"
    using assms(1,2) set_update_subset_insert [of t 0 0] by (auto simp: t'_def)
  show "num t' = tail t" using num_drop [of 0 t'] z l tl by simp
qed

lemma add_finish_value:
  assumes "is_digits t" "length t = 42" "num t < 2 * 10 ^ 41" "tail t = s mod 10 ^ 41" "- (10 ^ 40) \<le> s" "s < 9 * 10 ^ 40"
  shows "num (digit (add_finish t)) = \<bar>s\<bar> \<and> is_digits (digit (add_finish t)) \<and> length (digit (add_finish t)) = 42
    \<and> d_flags (add_finish t) = (if s < 0 then FS_D_NEGATIVE else 0)"
proof -
  define t' where "t' = (if t ! 0 = 1 then t[0 := 0] else t)"
  note c = clear_carry [OF assms(1-3), folded t'_def]
  have one: "t' ! 1 = (s mod 10 ^ 41) div 10 ^ 40" using tail_cut(3) [OF c(1,2)] c(5) assms(4) by simp
  have f: "add_finish t = (if t' ! 1 = 9
      then (fs_decimal_radix_complement (zero_val\<lparr>digit := t'\<rparr>))\<lparr>d_flags :=
             d_flags (fs_decimal_radix_complement (zero_val\<lparr>digit := t'\<rparr>)) OR FS_D_NEGATIVE\<rparr>
      else zero_val\<lparr>digit := t'\<rparr>)"
    by (simp add: add_finish_def t'_def Let_def)
  show ?thesis
  proof (cases "s < 0")
    case True
    then have "(s + 10 ^ 41) mod 10 ^ 41 = s + 10 ^ 41" using assms(5) by (intro mod_pos_pos_trivial) auto
    then have m: "s mod 10 ^ 41 = s + 10 ^ 41" by (simp only: mod_add_self2)
    have "t' ! 1 = 9" unfolding one m using True assms(5) by simp
    then show ?thesis using radix_complement_num [of "zero_val\<lparr>digit := t'\<rparr>"] c True m assms(4) by (simp add: f)
  next
    case False
    then have m: "s mod 10 ^ 41 = s" using assms(6) by simp
    have "t' ! 1 < 9" unfolding one m using False assms(6) by simp
    then show ?thesis using c False m assms(4) by (simp add: f)
  qed
qed

lemma FS_D_NEGATIVE_neg [simp]: "d_flags d = FS_D_NEGATIVE \<Longrightarrow> is_negative d" "d_flags d = 0 \<Longrightarrow> \<not> is_negative d"
  by (simp_all add: is_negative_def FS_D_NEGATIVE_def)

lemma dval_bounds: "normal a \<Longrightarrow> - (10 ^ 40) < dval a \<and> dval a < 10 ^ 40"
  using normalD(5,6) [of a] by (auto simp: dval_def)

lemma add_value:
  assumes "normal a" "normal b" "- (10 ^ 40) \<le> dval a + dval b"
  shows "fst (fs_decimal_add a b) = 0" "dval (snd (fs_decimal_add a b)) = dval a + dval b"
    "\<bar>dval a + dval b\<bar> < 10 ^ 40 \<Longrightarrow> normal (snd (fs_decimal_add a b))"
proof -
  define t where "t = add_loop 41 (digit (to_complement a)) (digit (to_complement b)) (replicate 42 0)"
  note ca = to_complement_ok [OF assms(1)] and cb = to_complement_ok [OF assms(2)]
  have r: "fs_decimal_add a b = (0, add_finish t)"
    using fs_decimal_add_alt normalD(3) assms(1,2) by (simp add: t_def)
  have "0 \<le> digit (to_complement a) ! j \<and> digit (to_complement a) ! j \<le> 9
      \<and> 0 \<le> digit (to_complement b) ! j \<and> digit (to_complement b) ! j \<le> 81" if "1 \<le> j" "j < 42" for j
    using nth_digits [OF ca(2), of j] nth_digits [OF cb(2), of j] ca(1) cb(1) that by simp
  note l = add_loop_num [OF ca(1) cb(1) this, folded t_def]
  let ?s = "dval a + dval b"
  have t: "is_digits t" "length t = 42" "num t = dval a mod 10 ^ 41 + dval b mod 10 ^ 41"
    using l ca(3) cb(3) by auto
  have b: "num t < 2 * 10 ^ 41" unfolding t(3) using pos_mod_bound [of "10 ^ 41" "dval a"] pos_mod_bound [of "10 ^ 41" "dval b"] by simp
  have m: "tail t = ?s mod 10 ^ 41" using tail_cut(1) [OF t(1,2)] by (simp add: t(3) mod_add_eq)
  have s: "?s < 9 * 10 ^ 40" using dval_bounds [OF assms(1)] dval_bounds [OF assms(2)] by simp
  note v = add_finish_value [OF t(1,2) b m assms(3) s]
  show "fst (fs_decimal_add a b) = 0" by (simp add: r)
  show "dval (snd (fs_decimal_add a b)) = ?s" using v by (auto simp: r dval_def split: if_splits)
  assume "\<bar>?s\<bar> < 10 ^ 40"
  then have "num (digit (add_finish t)) div 10 ^ 41 = 0" "num (digit (add_finish t)) mod 10 ^ 41 div 10 ^ 40 = 0"
    using v by simp_all
  then show "normal (snd (fs_decimal_add a b))"
    using v tail_cut(1-3) [of "digit (add_finish t)"] by (auto simp: r normal_def)
qed

lemma negate_ok:
  assumes "normal b"
  shows "normal (fs_decimal_negate b)" "dval (fs_decimal_negate b) = - dval b"
  using assms by (auto simp: normal_def fs_decimal_negate_def fs_decimal_copy_def dval_def is_negative_def FS_D_NEGATIVE_def)

text \<open>
  C33: Addition and subtraction of two normal decimals are exact in units of the last place as
  long as the result is not below \<open>- 10 ^ 40\<close> units (\<open>- 10 ^ 20\<close>): they return 0, the value of
  the result is the sum or the difference of the values, and the result is again normal when it
  fits in 40 digits.  No carry is lost in the ten's complement arithmetic and the sign flag is set
  exactly for negative results.
\<close>

theorem fs_decimal_add_exact:
  assumes "normal a" "normal b"
  shows "(- (10 ^ 40) \<le> dval a + dval b \<longrightarrow> fst (fs_decimal_add a b) = 0
      \<and> dval (snd (fs_decimal_add a b)) = dval a + dval b
      \<and> (\<bar>dval a + dval b\<bar> < 10 ^ 40 \<longrightarrow> normal (snd (fs_decimal_add a b))))
    \<and> (- (10 ^ 40) \<le> dval a - dval b \<longrightarrow> fst (fs_decimal_subtract a b) = 0
      \<and> dval (snd (fs_decimal_subtract a b)) = dval a - dval b
      \<and> (\<bar>dval a - dval b\<bar> < 10 ^ 40 \<longrightarrow> normal (snd (fs_decimal_subtract a b))))"
  using add_value [OF assms] add_value [OF assms(1) negate_ok(1) [OF assms(2)]] negate_ok(2) [OF assms(2)]
  by (simp add: fs_decimal_subtract_def)

lemma example_normal: "normal d1_val" "normal d2_val"
  by (simp_all add: normal_def d1_val_def d2_val_def numeral_eq_Suc)

lemma example_dval: "dval d1_val = 10 ^ 20" "dval d2_val = 2 * 10 ^ 20"
  by (simp_all add: dval_def is_negative_def d1_val_def d2_val_def numeral_eq_Suc)

theorem fs_decimal_add_exact_witness:
  "normal d1_val \<and> normal d2_val \<and> dval (snd (fs_decimal_add d1_val d2_val)) = 3 * 10 ^ 20
    \<and> dval (snd (fs_decimal_subtract d1_val d2_val)) = - (10 ^ 20)"
  using fs_decimal_add_exact [OF example_normal] by (simp add: example_normal example_dval)

section \<open>Order\<close>

lemma digits_less_num:
  "length xs = length ys \<Longrightarrow> is_digits xs \<Longrightarrow> is_digits ys \<Longrightarrow>
   digits_less xs ys def \<longleftrightarrow> num xs < num ys \<or> num xs = num ys \<and> def"
proof (induction xs ys def rule: digits_less.induct)
  case (1 x xs y ys def)
  have b: "0 \<le> num xs" "num xs < 10 ^ length xs" "0 \<le> num ys" "num ys < 10 ^ length xs"
    using num_nonneg [of xs] num_less [of xs] num_nonneg [of ys] num_less [of ys] 1(2-) by auto
  have lt: "u * 10 ^ length xs + p < v * 10 ^ length xs + q"
    if "u < v" "p < 10 ^ length xs" "0 \<le> q" for u v p q :: int
  proof -
    have "(u + 1) * 10 ^ length xs \<le> v * 10 ^ length xs" using that(1) by (intro mult_right_mono) auto
    with that(2,3) show ?thesis by (simp add: distrib_right)
  qed
  consider "x < y" | "x > y" | "x = y" by linarith
  then show ?case
  proof cases
    case 1
    with b lt [of x y "num xs" "num ys"] \<open>length (x # xs) = length (y # ys)\<close> show ?thesis by simp
  next
    case 2
    with b lt [of y x "num ys" "num xs"] \<open>length (x # xs) = length (y # ys)\<close> show ?thesis by auto
  next
    case 3
    with 1 show ?thesis by auto
  qed
qed auto

lemma normal_sign: "normal a \<Longrightarrow> normal b \<Longrightarrow>
  (d_flags a AND FS_D_NEGATIVE = d_flags b AND FS_D_NEGATIVE) = (is_negative a = is_negative b)"
  by (auto simp: normal_def is_negative_def)

lemma normal_or_sign: "normal a \<Longrightarrow> d_flags a OR FS_D_NEGATIVE = FS_D_NEGATIVE"
  by (auto simp: normal_def)

lemma is_zero_num: "normal a \<Longrightarrow> fs_decimal_is_zero a \<longleftrightarrow> num (digit a) = 0"
  using normalD(2) num_zero_iff by (auto simp: fs_decimal_is_zero_def)

text \<open>
  The comparisons of decimals agree with the order of the values they stand for.  Equality is
  equality of values, whatever the sign of a zero; the four order comparisons are the order of the
  values except that they put a zero with the sign flag strictly below a zero without it.
\<close>

theorem fs_decimal_compare_correct:
  assumes "normal a" "normal b"
  defines "minus_zero \<equiv> (\<lambda>x y. is_negative x \<and> \<not> is_negative y \<and> dval x = dval y)"
  shows "(fs_decimal_equal a b \<longleftrightarrow> dval a = dval b)
    \<and> (fs_decimal_less_than a b \<longleftrightarrow> dval a < dval b \<or> minus_zero a b)
    \<and> (fs_decimal_greater_than a b \<longleftrightarrow> dval a > dval b \<or> minus_zero b a)
    \<and> (fs_decimal_less_than_equal a b \<longleftrightarrow> dval a \<le> dval b \<and> \<not> minus_zero b a)
    \<and> (fs_decimal_greater_than_equal a b \<longleftrightarrow> dval a \<ge> dval b \<and> \<not> minus_zero a b)"
proof (intro conjI)
  note na = normalD [OF assms(1)] and nb = normalD [OF assms(2)]
  have l: "length (digit a) = length (digit b)" using na nb by simp
  note cmp = digits_less_num [OF l na(2) nb(2)] digits_less_num [OF l [symmetric] nb(2) na(2)]
  note defs = decimal_less_than_def decimal_greater_than_def cmp minus_zero_def dval_def normal_sign [OF assms(1,2)]
  show "fs_decimal_equal a b \<longleftrightarrow> dval a = dval b"
    using na nb num_inject [OF na(2) nb(2) l]
    by (auto simp: fs_decimal_equal_def normal_or_sign assms(1,2) is_zero_num dval_def normal_sign)
  show "fs_decimal_less_than a b \<longleftrightarrow> dval a < dval b \<or> minus_zero a b"
    "fs_decimal_less_than_equal a b \<longleftrightarrow> dval a \<le> dval b \<and> \<not> minus_zero b a"
    using na(5) nb(5) by (auto simp: fs_decimal_less_than_def fs_decimal_less_than_equal_def defs)
  show "fs_decimal_greater_than a b \<longleftrightarrow> dval a > dval b \<or> minus_zero b a"
    "fs_decimal_greater_than_equal a b \<longleftrightarrow> dval a \<ge> dval b \<and> \<not> minus_zero a b"
    using na(5) nb(5) by (auto simp: fs_decimal_greater_than_def fs_decimal_greater_than_equal_def defs)
qed

theorem fs_decimal_compare_correct_witness:
  "fs_decimal_less_than d1_val d2_val \<and> \<not> fs_decimal_equal d1_val d2_val
    \<and> fs_decimal_less_than (fs_decimal_negate zero_val) zero_val \<and> fs_decimal_equal (fs_decimal_negate zero_val) zero_val"
proof -
  have z: "normal zero_val" "dval zero_val = 0" "\<not> is_negative zero_val"
    by (simp_all add: normal_def dval_def is_negative_def)
  have "is_negative (fs_decimal_negate zero_val)"
    by (simp add: is_negative_def fs_decimal_negate_def fs_decimal_copy_def FS_D_NEGATIVE_def)
  with z show ?thesis
    using fs_decimal_compare_correct [OF example_normal] fs_decimal_compare_correct [OF negate_ok(1) [OF z(1)] z(1)]
      negate_ok(2) [OF z(1)] by (simp add: example_dval)
qed

end
