(* ===== verification/DecimalMul.thy ===== *)
theory DecimalMul
  imports Decimal
begin

text \<open>
  Accuracy of the decimal multiplication: the partial products of \<open>mul_internal\<close> are the first
  factor moved by whole places and truncated, and their sum is bounded from both sides.
\<close>

section \<open>Products\<close>

lemma mul_loop_length [simp]: "length (mul_loop n a m off r) = length r"
  by (induction n a m off r rule: mul_loop.induct) (simp_all add: Let_def)

lemma mul_loop_nth:
  "length r = 42 \<Longrightarrow> p < 42 \<Longrightarrow> mul_loop n a m off r ! p =
     (if 0 \<le> int p + off - 19 \<and> int p + off - 19 < int n then schar (a ! nat (int p + off - 19) * m) else r ! p)"
proof (induction n arbitrary: r)
  case (Suc n)
  define q where "q = int n - off + 20 - 1"
  define r' where "r' = (if 0 \<le> q \<and> q < 42 then r[nat q := schar (a ! n * m)] else r)"
  have r: "mul_loop (Suc n) a m off r = mul_loop n a m off r'" by (simp add: Let_def r'_def q_def)
  have l: "length r' = 42" using Suc.prems by (simp add: r'_def)
  show ?case
  proof (cases "int p = q")
    case True
    have "r' ! p = schar (a ! n * m)" using Suc.prems unfolding r'_def True [symmetric] by simp
    moreover have "int p + off - 19 = int n" using True by (simp add: q_def)
    ultimately show ?thesis unfolding r Suc.IH [OF l Suc.prems(2)] by simp
  next
    case False
    then have "r' ! p = r ! p" using Suc.prems by (auto simp: r'_def)
    moreover have "int p + off - 19 \<noteq> int n" using False by (simp add: q_def)
    ultimately show ?thesis unfolding r Suc.IH [OF l Suc.prems(2)] by auto
  qed
qed simp

text \<open>The digits of a factor moved by \<open>off - 19\<close> places.\<close>

definition moved :: "int list \<Rightarrow> nat \<Rightarrow> int list" where
  "moved a off = (if off \<le> 19 then replicate (19 - off) 0 @ take (42 - (19 - off)) a
                  else drop (off - 19) a @ replicate (off - 19) 0)"

lemma mul_loop_moved:
  assumes "length a = 42" "off \<le> 42"
  shows "mul_loop 42 a m (int off) (replicate 42 0) = map (\<lambda>x. schar (x * m)) (moved a off)"
proof (rule nth_equalityI)
  show "length (mul_loop 42 a m (int off) (replicate 42 0)) = length (map (\<lambda>x. schar (x * m)) (moved a off))"
    using assms by (simp add: moved_def)
  fix p assume "p < length (mul_loop 42 a m (int off) (replicate 42 0))"
  then have p: "p < 42" by simp
  have "nat (int p + int off - 19) = p + off - 19" by linarith
  then show "mul_loop 42 a m (int off) (replicate 42 0) ! p = map (\<lambda>x. schar (x * m)) (moved a off) ! p"
    using p assms by (auto simp: mul_loop_nth moved_def nth_append add.commute)
qed

lemma num_moved:
  assumes "is_digits a" "length a = 42" "off \<le> 42" "num a * 10 ^ off < 10 ^ 61"
  shows "num (moved a off) = num a * 10 ^ off div 10 ^ 19" "is_digits (moved a off)" "length (moved a off) = 42"
proof -
  show "is_digits (moved a off)"
    using assms(1) set_take_subset [of "42 - (19 - off)" a] set_drop_subset [of "off - 19" a] unfolding moved_def by auto
  show "length (moved a off) = 42" using assms(2,3) by (simp add: moved_def)
  show "num (moved a off) = num a * 10 ^ off div 10 ^ 19"
  proof (cases "off \<le> 19")
    case True
    then have e: "10 ^ 19 = (10 :: int) ^ off * 10 ^ (19 - off)" by (simp add: power_add [symmetric])
    have "num a * 10 ^ off div 10 ^ 19 = num a div 10 ^ (19 - off)"
      unfolding e by (subst mult.commute [of "num a"]) (rule div_mult_mult1, simp)
    then show ?thesis using True assms(1,2) num_take [of "42 - (19 - off)" a] by (simp add: moved_def num_append)
  next
    case False
    define k where "k = off - 19"
    have off: "off = 19 + k" and k: "k \<le> 23" using False assms(3) by (auto simp: k_def)
    have "num a * 10 ^ k * 10 ^ 19 < (10 ^ 42 :: int) * 10 ^ 19"
      using assms(4) unfolding off power_add by (simp add: mult.assoc mult.commute mult.left_commute)
    then have "num a * 10 ^ k < 10 ^ (42 - k) * 10 ^ k" using k by (simp add: power_add [symmetric])
    then have "num a < 10 ^ (42 - k)" by (simp only: mult_less_cancel_right_pos zero_less_power zero_less_numeral)
    then have "num (drop k a) = num a"
      using num_drop_mod [of k a] assms(1,2) k num_nonneg [OF assms(1)] by simp
    moreover have "num a * 10 ^ off div 10 ^ 19 = num a * 10 ^ k" unfolding off power_add by simp
    ultimately show ?thesis using False by (simp add: moved_def num_append k_def)
  qed
qed

text \<open>Digit \<open>i\<close> from the right of the decimal \<open>b\<close> without its last digit.\<close>

lemma num_sum: "num xs = (\<Sum>i < length xs. xs ! (length xs - 1 - i) * 10 ^ i)"
proof (induction xs)
  case (Cons x xs)
  have "(\<Sum>i < length xs. (x # xs) ! (length xs - i) * 10 ^ i) = (\<Sum>i < length xs. xs ! (length xs - 1 - i) * 10 ^ i)"
    by (rule sum.cong) (auto simp: nth_Cons')
  with Cons show ?case by simp
qed simp

lemma num_digit: "is_digits xs \<Longrightarrow> k < length xs \<Longrightarrow> xs ! (length xs - 1 - k) = num xs div 10 ^ k mod 10"
proof -
  assume d: "is_digits xs" and k: "k < length xs"
  let ?n = "length xs - 1 - k"
  have "num (take (Suc ?n) xs) = num (take ?n xs) * 10 + xs ! ?n"
    using k by (simp add: take_Suc_conv_app_nth num_append)
  moreover have "num (take (Suc ?n) xs) = num xs div 10 ^ k" using num_take [of "Suc ?n" xs] d k by simp
  ultimately have "num xs div 10 ^ k = num (take ?n xs) * 10 + xs ! ?n" by simp
  moreover have "?n < length xs" using k by linarith
  then have "0 \<le> xs ! ?n" "xs ! ?n \<le> 9" using nth_digits [OF d] by auto
  ultimately show ?thesis by simp
qed

lemma num_pos: "\<forall>x \<in> set t. 0 \<le> x \<Longrightarrow> 0 \<le> num t"
  by (induction t) auto

lemma num_nonneg_0:
  assumes "\<forall>x \<in> set t. 0 \<le> x" "length t = 42" "num t < 10 ^ 40"
  shows "t ! 0 = 0" "t ! 1 = 0" "tail t = num t"
proof -
  have p: "0 \<le> num (drop k t)" "k < 42 \<Longrightarrow> 0 \<le> t ! k" for k
    using num_pos [of "drop k t"] assms(1) set_drop_subset [of k t] nth_mem [of k t] assms(2) by auto
  have r: "num t = t ! 0 * 10 ^ 41 + tail t" "tail t = t ! 1 * 10 ^ 40 + num (drop 2 t)"
    using num_drop [of 0 t] num_drop [of 1 t] assms(2) by (simp_all add: numeral_2_eq_2)
  then show z: "t ! 0 = 0" and "t ! 1 = 0" using p(1) [of 1] p(1) [of 2] p(2) [of 0] p(2) [of 1] assms(3) by simp_all
  show "tail t = num t" using r(1) z by simp
qed

text \<open>The partial products of a multiplication.\<close>

definition partial :: "int list \<Rightarrow> int list \<Rightarrow> nat \<Rightarrow> int" where
  "partial a b i = b ! (40 - i) * (num a * 10 ^ i div 10 ^ 19)"

lemma add_partial:
  assumes "is_digits (digit acc)" "length (digit acc) = 42" "d_flags acc = 0" "num (digit acc) < 10 ^ 40"
    and "length t = 42" "\<forall>x \<in> set t. 0 \<le> x \<and> x \<le> 81" "num t < 10 ^ 40"
  defines "r \<equiv> snd (fs_decimal_add acc (zero_val\<lparr>digit := t\<rparr>))"
  shows "is_digits (digit r)" "length (digit r) = 42" "d_flags r = 0" "num (digit r) = num (digit acc) + num t"
proof -
  define u where "u = add_loop 41 (digit acc) t (replicate 42 0)"
  have c: "to_complement acc = acc" "to_complement (zero_val\<lparr>digit := t\<rparr>) = zero_val\<lparr>digit := t\<rparr>"
    using assms(3) by (simp_all add: to_complement_def)
  have o: "\<not> is_overflow acc" "\<not> is_overflow (zero_val\<lparr>digit := t\<rparr>)" using assms(3) by (simp_all add: is_overflow_def)
  have r: "r = add_finish u" unfolding r_def fs_decimal_add_alt [OF o] c by (simp add: u_def)
  have "0 \<le> digit acc ! j \<and> digit acc ! j \<le> 9 \<and> 0 \<le> t ! j \<and> t ! j \<le> 81" if "1 \<le> j" "j < 42" for j
    using nth_digits [OF assms(1), of j] assms(2,5,6) nth_mem [of j t] that by auto
  note l = add_loop_num [OF assms(2,5) this, folded u_def]
  have p: "\<forall>x \<in> set t. 0 \<le> x" "\<forall>x \<in> set (digit acc). 0 \<le> x" using assms(1,6) by auto
  note tt = num_nonneg_0(3) [OF p(1) assms(5,7)] num_nonneg_0(3) [OF p(2) assms(2,4)] num_pos [OF p(1)] num_pos [OF p(2)]
  have s: "num u = num (digit acc) + num t" using l(3) tt by simp
  have "tail u = (num (digit acc) + num t) mod 10 ^ 41" using tail_cut(1) [OF l(2,1)] s by simp
  note v = add_finish_value [OF l(2,1) _ this, folded r]
  have "num u < 2 * 10 ^ 41" "- (10 ^ 40) \<le> num (digit acc) + num t" "num (digit acc) + num t < 9 * 10 ^ 40"
    using s assms(4,7) tt(3,4) by simp_all
  with v tt(3,4) show "is_digits (digit r)" "length (digit r) = 42" "d_flags r = 0" "num (digit r) = num (digit acc) + num t"
    by simp_all
qed

lemma mul_step_ok:
  assumes "is_digits (digit a)" "length (digit a) = 42" "is_digits (digit b)" "length (digit b) = 42" "i \<le> 40"
    and "is_digits (digit acc)" "length (digit acc) = 42" "d_flags acc = 0" "num (digit acc) < 10 ^ 40"
    and "partial (digit a) (digit b) i < 10 ^ 40" "num (digit a) * (digit b ! (40 - i) * 10 ^ i) < 10 ^ 61"
  defines "r \<equiv> mul_step a b i acc"
  shows "is_digits (digit r)" "length (digit r) = 42" "d_flags r = 0"
    "num (digit r) = num (digit acc) + partial (digit a) (digit b) i"
proof -
  let ?c = "digit b ! (40 - i)"
  define t where "t = map (\<lambda>x. x * ?c) (moved (digit a) i)"
  have c: "mul_digit b i = ?c" "0 \<le> ?c" "?c \<le> 9"
    using assms(5) nth_digits [OF assms(3), of "40 - i"] assms(4) by (auto simp: mul_digit_def)
  have "is_digits (digit r) \<and> length (digit r) = 42 \<and> d_flags r = 0
      \<and> num (digit r) = num (digit acc) + partial (digit a) (digit b) i"
  proof (cases "?c = 0")
    case True
    then show ?thesis using assms(6-8) c by (simp add: r_def mul_step_def partial_def)
  next
    case False
    have p: "0 \<le> num (digit a) * 10 ^ i" using num_nonneg [OF assms(1)] by simp
    have "num (digit a) * 10 ^ i * 1 \<le> num (digit a) * 10 ^ i * ?c"
      using False c(2) p by (intro mult_left_mono) auto
    then have "num (digit a) * 10 ^ i < 10 ^ 61" using assms(11) by (simp add: algebra_simps)
    note m = num_moved [OF assms(1,2) _ this]
    have i: "i \<le> 42" using assms(5) by simp
    have x: "0 \<le> x * ?c \<and> x * ?c \<le> 81" if "x \<in> set (moved (digit a) i)" for x
      using m(2) [OF i] that c(2,3) mult_mono [of x 9 ?c 9] by fastforce
    have t: "length t = 42" "\<forall>x \<in> set t. 0 \<le> x \<and> x \<le> 81" using m(3) [OF i] x by (auto simp: t_def)
    have nm: "num (map (\<lambda>x. x * ?c) xs) = num xs * ?c" for xs by (induction xs) (auto simp: algebra_simps)
    have n: "num t = partial (digit a) (digit b) i"
      using m(1) [OF i] by (simp add: t_def nm partial_def mult.commute)
    have "map (\<lambda>x. schar (x * ?c)) (moved (digit a) i) = t"
      unfolding t_def by (rule map_cong) (use x in \<open>fastforce intro!: schar_id\<close>)+
    then have tmp: "mul_internal a ?c (int i) zero_val = zero_val\<lparr>digit := t\<rparr>"
      using mul_loop_moved [OF assms(2) i] by (simp add: mul_internal_def)
    have "t ! 0 = 0" "t ! 1 = 0" using num_nonneg_0 [of t] t n assms(10) by auto
    then have "r = snd (fs_decimal_add acc (zero_val\<lparr>digit := t\<rparr>))"
      using False by (simp add: r_def mul_step_def c(1) tmp Let_def)
    then show ?thesis using add_partial [OF assms(6-9) t] n assms(10) by simp
  qed
  then show "is_digits (digit r)" "length (digit r) = 42" "d_flags r = 0"
    "num (digit r) = num (digit acc) + partial (digit a) (digit b) i" by auto
qed

text \<open>The partial products and what their truncation loses.\<close>

lemma num_without_last:
  assumes "is_digits b" "length b = 42"
  shows "num b div 10 = (\<Sum>i<41. b ! (40 - i) * 10 ^ i)"
proof -
  have "num (take 41 b) = (\<Sum>i<41. b ! (40 - i) * 10 ^ i)"
    unfolding num_sum using assms(2) by (auto intro!: sum.cong)
  then show ?thesis using num_take [of 41 b] assms by simp
qed

lemma partial_sum:
  assumes "is_digits a" "is_digits b" "length b = 42"
  shows "10 ^ 19 * (\<Sum>i<41. partial a b i) = num a * (num b div 10) - (\<Sum>i<41. b ! (40 - i) * (num a * 10 ^ i mod 10 ^ 19))"
proof -
  have p: "10 ^ 19 * partial a b i = num a * (b ! (40 - i) * 10 ^ i) - b ! (40 - i) * (num a * 10 ^ i mod 10 ^ 19)" for i
  proof -
    have "10 ^ 19 * (num a * 10 ^ i div 10 ^ 19) = num a * 10 ^ i - num a * 10 ^ i mod 10 ^ 19"
      by (simp only: minus_mod_eq_mult_div)
    then have "b ! (40 - i) * (10 ^ 19 * (num a * 10 ^ i div 10 ^ 19))
        = b ! (40 - i) * (num a * 10 ^ i) - b ! (40 - i) * (num a * 10 ^ i mod 10 ^ 19)"
      by (simp only: right_diff_distrib)
    then show ?thesis unfolding partial_def by (simp only: mult.left_commute)
  qed
  show ?thesis using num_without_last [OF assms(2,3)] unfolding sum_distrib_left p sum_subtractf by (simp add: sum_distrib_left)
qed

lemma partial_bounds:
  assumes "is_digits a" "is_digits b" "length b = 42" "num a * num b < 10 ^ 60" "i \<le> 40"
  shows "0 \<le> partial a b i" "num a * (b ! (40 - i) * 10 ^ i) < 10 ^ 61" "(\<Sum>i<41. partial a b i) < 10 ^ 40"
proof -
  have d: "0 \<le> b ! (40 - j)" for j using nth_digits [OF assms(2), of "40 - j"] assms(3) by simp
  have a: "0 \<le> num a" "0 \<le> num b" using assms(1,2) num_nonneg by auto
  then show p: "0 \<le> partial a b i" using d [of i] by (simp add: partial_def pos_imp_zdiv_nonneg_iff)
  have "b ! (40 - i) * 10 ^ i \<le> (\<Sum>i<41. b ! (40 - i) * 10 ^ i)"
    using assms(5) d by (intro member_le_sum) auto
  then have "b ! (40 - i) * 10 ^ i \<le> num b" using num_without_last [OF assms(2,3)] a(2) by linarith
  then have "num a * (b ! (40 - i) * 10 ^ i) \<le> num a * num b" using a(1) by (rule mult_left_mono)
  then show "num a * (b ! (40 - i) * 10 ^ i) < 10 ^ 61" using assms(4) by simp
  have "0 \<le> (\<Sum>i<41. b ! (40 - i) * (num a * 10 ^ i mod 10 ^ 19))" using d by (intro sum_nonneg) auto
  then have s: "10 ^ 19 * (\<Sum>i<41. partial a b i) \<le> num a * (num b div 10)" using partial_sum [OF assms(1-3)] by simp
  have "num a * (num b div 10) * 10 \<le> num a * num b"
    unfolding mult.assoc using a(1) by (intro mult_left_mono) simp_all
  then show "(\<Sum>i<41. partial a b i) < 10 ^ 40" using s assms(4) by simp
qed

lemma mul_fold:
  assumes "is_digits (digit a)" "length (digit a) = 42" "is_digits (digit b)" "length (digit b) = 42"
    and "num (digit a) * num (digit b) < 10 ^ 60" "k \<le> 41"
  defines "r \<equiv> fold (mul_step a b) [0..<k] zero_val"
  shows "is_digits (digit r) \<and> length (digit r) = 42 \<and> d_flags r = 0
    \<and> num (digit r) = (\<Sum>i<k. partial (digit a) (digit b) i)"
  using assms(6) unfolding r_def
proof (induction k)
  case (Suc k)
  let ?acc = "fold (mul_step a b) [0..<k] zero_val" and ?p = "partial (digit a) (digit b)"
  note b = partial_bounds [OF assms(1,3,4,5)]
  have acc: "is_digits (digit ?acc)" "length (digit ?acc) = 42" "d_flags ?acc = 0" "num (digit ?acc) = (\<Sum>i<k. ?p i)"
    using Suc by auto
  have "(\<Sum>i<k. ?p i) \<le> (\<Sum>i<41. ?p i)" using Suc.prems b(1) by (intro sum_mono2) auto
  moreover have "?p k \<le> (\<Sum>i<41. ?p i)" using Suc.prems b(1) by (intro member_le_sum) auto
  ultimately have "num (digit ?acc) < 10 ^ 40" "?p k < 10 ^ 40" using b(3) [of 0] acc(4) by linarith+
  moreover have "k \<le> 40" using Suc.prems by simp
  moreover note b(2) [OF this]
  ultimately show ?case using mul_step_ok [OF assms(1-4), of k ?acc] acc by simp
qed simp

lemma multiply_num:
  assumes "normal a" "normal b" "num (digit a) * num (digit b) < 10 ^ 60"
  defines "r \<equiv> snd (fs_decimal_multiply a b)"
  shows "fst (fs_decimal_multiply a b) = 0" "normal r"
    "num (digit r) = (\<Sum>i<41. partial (digit a) (digit b) i)" "is_negative r \<longleftrightarrow> is_negative a \<noteq> is_negative b"
proof -
  note na = normalD [OF assms(1)] and nb = normalD [OF assms(2)]
  let ?f = "fold (mul_step a b) [0..<41] zero_val"
  have f: "is_digits (digit ?f)" "length (digit ?f) = 42" "d_flags ?f = 0" "num (digit ?f) = (\<Sum>i<41. partial (digit a) (digit b) i)"
    using mul_fold [OF na(2,1) nb(2,1) assms(3), of 41] by auto
  have lst: "mul_step a b 41 ?f = ?f"
    using assms(2) by (auto simp: mul_step_def mul_digit_def normal_def FS_D_NEGATIVE_def)
  have "[0..<42] = [0..<41] @ [41]" by (simp add: upt_rec)
  then have "fold (mul_step a b) [0..<42] zero_val = ?f" by (simp only: fold_append comp_def fold_simps lst id_def)
  then have r: "fs_decimal_multiply a b = (0, ?f\<lparr>d_flags := d_flags ?f OR ((d_flags a AND FS_D_NEGATIVE) XOR (d_flags b AND FS_D_NEGATIVE))\<rparr>)"
    unfolding fs_decimal_multiply_def Let_def using na(3) nb(3) by simp
  show "fst (fs_decimal_multiply a b) = 0" "num (digit r) = (\<Sum>i<41. partial (digit a) (digit b) i)"
    unfolding r_def r using f(4) by simp_all
  have fl: "d_flags r = (if is_negative a \<noteq> is_negative b then FS_D_NEGATIVE else 0)"
    unfolding r_def r using f(3) assms(1,2) by (auto simp: normal_def is_negative_def FS_D_NEGATIVE_def)
  then show "is_negative r \<longleftrightarrow> is_negative a \<noteq> is_negative b" by (auto split: if_splits)
  have "num (digit r) < 10 ^ 40" unfolding r_def r using f(4) partial_bounds(3) [OF na(2) nb(2,1) assms(3), of 0] by simp
  then have "digit r ! 0 = 0" "digit r ! 1 = 0"
    using num_nonneg_0 [of "digit r"] f(1,2) by (auto simp: r_def r)
  then show "normal r" using f(1,2) fl by (auto simp: normal_def r_def r)
qed

text \<open>What the truncation of the partial products loses: at most 9 units for each of the 19
  digits that move to the right, nothing when the fraction digits of the factors fit.\<close>

abbreviation loss :: "int list \<Rightarrow> int list \<Rightarrow> int" where
  "loss a b \<equiv> \<Sum>i<41. b ! (40 - i) * (num a * 10 ^ i mod 10 ^ 19)"

lemma loss_bounds:
  assumes "is_digits b" "length b = 42"
  shows "0 \<le> loss a b" "loss a b < 171 * 10 ^ 19"
proof -
  have d: "0 \<le> b ! (40 - j)" "b ! (40 - j) \<le> 9" for j using nth_digits [OF assms(1), of "40 - j"] assms(2) by simp_all
  show "0 \<le> loss a b" using d by (intro sum_nonneg) auto
  have z: "num a * 10 ^ i mod 10 ^ 19 = 0" if "19 \<le> i" for i
    using that le_imp_power_dvd [of 19 i "10 :: int"] by (simp add: mod_0_imp_dvd dvd_mult)
  have "loss a b = (\<Sum>i<19. b ! (40 - i) * (num a * 10 ^ i mod 10 ^ 19))"
  proof (rule sum.mono_neutral_right)
    show "\<forall>i \<in> {..<41} - {..<19}. b ! (40 - i) * (num a * 10 ^ i mod 10 ^ 19) = 0"
    proof
      fix i :: nat assume "i \<in> {..<41} - {..<19}"
      then have "19 \<le> i" by simp
      then show "b ! (40 - i) * (num a * 10 ^ i mod 10 ^ 19) = 0" by (simp only: z mult_zero_right)
    qed
  qed auto
  also have "\<dots> \<le> (\<Sum>i<(19 :: nat). 9 * (10 ^ 19 - 1))"
  proof (rule sum_mono)
    fix i
    have "num a * 10 ^ i mod 10 ^ 19 \<le> 10 ^ 19 - 1" "0 \<le> num a * 10 ^ i mod 10 ^ 19" by simp_all
    then show "b ! (40 - i) * (num a * 10 ^ i mod 10 ^ 19) \<le> 9 * (10 ^ 19 - 1)" using d [of i] by (intro mult_mono) auto
  qed
  finally show "loss a b < 171 * 10 ^ 19" by simp
qed

lemma loss_exact:
  assumes "is_digits b" "length b = 42" "1 \<le> j" "j \<le> 20" "10 ^ j dvd num b" "10 ^ (20 - j) dvd num a"
  shows "loss a b = 0"
proof (rule sum.neutral, rule ballI)
  fix i :: nat assume "i \<in> {..<41}"
  show "b ! (40 - i) * (num a * 10 ^ i mod 10 ^ 19) = 0"
  proof (cases "i + 1 < j")
    case True
    then have "10 ^ (i + 2) dvd num b" by (intro dvd_trans [OF le_imp_power_dvd assms(5)]) simp
    then obtain m where "num b = 10 ^ (i + 2) * m" by (rule dvdE)
    moreover have "b ! (40 - i) = num b div 10 ^ (i + 1) mod 10"
      using num_digit [OF assms(1), of "i + 1"] assms(2) \<open>i \<in> {..<41}\<close> by simp
    ultimately show ?thesis by (simp add: power_add)
  next
    case False
    then have "10 ^ 19 dvd (10 :: int) ^ ((20 - j) + i)" using assms(3,4) by (intro le_imp_power_dvd) auto
    also have "(10 :: int) ^ ((20 - j) + i) dvd num a * 10 ^ i" using assms(6) by (simp add: power_add mult_dvd_mono)
    finally show ?thesis by simp
  qed
qed



section \<open>Errors and limits\<close>

text \<open>
  The error results of the arithmetic.  An operand with the overflow flag makes addition,
  subtraction and multiplication return 1 with a zero that carries only the overflow flag, and a
  division by a decimal without digits returns 1 and leaves the quotient as it was; every other
  division returns 0.
\<close>

theorem fs_decimal_error_results:
  "(is_overflow a \<or> is_overflow b \<longrightarrow>
      fs_decimal_add a b = (1, zero_val\<lparr>d_flags := FS_D_OVERFLOW\<rparr>)
    \<and> fs_decimal_subtract a b = (1, zero_val\<lparr>d_flags := FS_D_OVERFLOW\<rparr>)
    \<and> fs_decimal_multiply a b = (1, zero_val\<lparr>d_flags := FS_D_OVERFLOW\<rparr>))
   \<and> (fs_decimal_is_zero b \<longrightarrow> fs_decimal_divide a b q = (1, q))
   \<and> (\<not> fs_decimal_is_zero b \<longrightarrow> fst (fs_decimal_divide a b q) = 0)"
proof -
  have "is_overflow (fs_decimal_negate b) = is_overflow b"
  proof -
    have "(d_flags b XOR 1) AND 2 = d_flags b AND 2" by (rule bit_word_eqI) (auto simp: bit_simps)
    then show ?thesis by (simp add: is_overflow_def fs_decimal_negate_def fs_decimal_copy_def FS_D_NEGATIVE_def FS_D_OVERFLOW_def)
  qed
  then show ?thesis
    by (simp add: fs_decimal_add_def fs_decimal_subtract_def fs_decimal_multiply_def fs_decimal_divide_def
        fs_decimal_init_def Let_def split: prod.split)
qed

theorem fs_decimal_error_results_witness:
  "fs_decimal_divide d1_val zero_val d2_val = (1, d2_val)
    \<and> fst (fs_decimal_add (zero_val\<lparr>d_flags := FS_D_OVERFLOW\<rparr>) d1_val) = 1"
proof -
  have "is_overflow (zero_val\<lparr>d_flags := FS_D_OVERFLOW\<rparr>)" "fs_decimal_is_zero zero_val"
    by (simp_all add: is_overflow_def FS_D_OVERFLOW_def fs_decimal_is_zero_def)
  then show ?thesis
    using fs_decimal_error_results [of d1_val zero_val d2_val]
      fs_decimal_error_results [of "zero_val\<lparr>d_flags := FS_D_OVERFLOW\<rparr>" d1_val zero_val] by simp
qed

text \<open>
  C38: What happens outside the bounds of the other theorems.  A product of \<open>10 ^ 38\<close> becomes
  zero without the overflow flag, one times the smallest decimal depends on the order of the
  factors, and \<open>- 9 * 10 ^ 19 - 9 * 10 ^ 19\<close> is taken for a positive number.
\<close>

theorem fs_decimal_limits:
  "fs_decimal_multiply (zero_val\<lparr>digit := (replicate 42 0)[2 := 1]\<rparr>) (zero_val\<lparr>digit := (replicate 42 0)[2 := 1]\<rparr>) = (0, zero_val)
   \<and> fs_decimal_multiply unit_val d1_val = (0, unit_val) \<and> fs_decimal_multiply d1_val unit_val = (0, zero_val)
   \<and> fs_decimal_add \<lparr>d_flags = FS_D_NEGATIVE, digit = (replicate 42 0)[2 := 9]\<rparr> \<lparr>d_flags = FS_D_NEGATIVE, digit = (replicate 42 0)[2 := 9]\<rparr>
       = (0, \<lparr>d_flags = 0, digit = (replicate 42 0)[1 := 8, 2 := 2]\<rparr>)"
  by code_simp

end
