(* ===== verification/DecimalLex.thy ===== *)
theory DecimalLex
  imports Decimal
begin

text \<open>
  Conversions of decimals: the lexical form that \<open>fs_decimal_to_lex\<close> prints is read back by
  \<open>fs_decimal_init_from_str\<close>, and 64-bit integers survive the way through a decimal.
\<close>

section \<open>Characters\<close>

lemma digit_char_code: "0 \<le> x \<Longrightarrow> x \<le> 9 \<Longrightarrow> of_char (digit_char x) = (48 + nat x :: nat)"
  by (simp add: digit_char_def nat_add_distrib take_bit_nat_eq_self_iff of_char_of)

lemma digit_char_int: "0 \<le> x \<Longrightarrow> x \<le> 9 \<Longrightarrow> of_char (digit_char x) = (48 + x :: int)"
  using digit_char_code [of x] of_nat_of_char [of "digit_char x", where 'a = int] by (simp del: of_nat_of_char)

lemma digit_char_inject: "0 \<le> x \<Longrightarrow> x \<le> 9 \<Longrightarrow> 0 \<le> y \<Longrightarrow> y \<le> 9 \<Longrightarrow> digit_char x = digit_char y \<longleftrightarrow> x = y"
  by (metis add_left_cancel digit_char_int)

lemma digit_char_0: "digit_char 0 = CHR ''0''"
  by (simp add: digit_char_def) (simp add: char_of_def bit_Suc_0_iff)

lemma digit_char_zero_iff: "0 \<le> x \<Longrightarrow> x \<le> 9 \<Longrightarrow> digit_char x = CHR ''0'' \<longleftrightarrow> x = 0"
  using digit_char_inject [of x 0] digit_char_0 by simp

lemma digit_char_point: "0 \<le> x \<Longrightarrow> x \<le> 9 \<Longrightarrow> digit_char x \<noteq> CHR ''.''"
  using digit_char_code [of x] by auto

section \<open>Printing\<close>

abbreviation strip0 :: "int list \<Rightarrow> int list" where
  "strip0 \<equiv> dropWhile (\<lambda>x. x = 0)"

lemma lex_loop_fraction: "i > 22 \<Longrightarrow> lex_loop xs i True = map digit_char xs"
  by (induction xs arbitrary: i) auto

lemma lex_loop_point: "ys \<noteq> [] \<Longrightarrow> lex_loop ys 22 st = (if st then [] else ''0'') @ ''.'' @ map digit_char ys"
  by (cases ys) (auto simp: lex_loop_fraction)

lemma lex_loop_parts:
  "i + length xs = 22 \<Longrightarrow> ys \<noteq> [] \<Longrightarrow> lex_loop (xs @ ys) i st =
     (let zs = (if st then xs else strip0 xs)
      in map digit_char zs @ (if st \<or> zs \<noteq> [] then [] else ''0'') @ ''.'' @ map digit_char ys)"
proof (induction xs arbitrary: i st)
  case Nil
  then show ?case using lex_loop_point [of ys st] by simp
next
  case (Cons x xs)
  then show ?case using Cons.IH [of "i + 1"] by (simp add: Let_def)
qed

lemma lex_strip_parts:
  "is_digits xs \<Longrightarrow> p \<noteq> [] \<Longrightarrow> lex_strip (map digit_char xs @ CHR ''.'' # p) =
     (if strip0 xs = [] then p else map digit_char (strip0 xs) @ CHR ''.'' # p)"
  by (induction xs) (auto simp: digit_char_zero_iff digit_char_point)

text \<open>The integer digits that are printed, and the fraction digits.\<close>

definition int_part :: "int list \<Rightarrow> int list" where
  "int_part ds = (if strip0 (take 22 ds) = [] then [0] else strip0 (take 22 ds))"

definition frac_part :: "int list \<Rightarrow> int list" where
  "frac_part ds = rev (strip0 (rev (drop 22 ds)))"

definition sign_part :: "fs_decimal \<Rightarrow> string" where
  "sign_part d = (if is_negative d then ''-'' else [])"

lemma int_part_nonempty: "int_part ds \<noteq> []"
  unfolding int_part_def by (split if_split) blast

lemma to_lex_parts:
  assumes "normal d"
  shows "fs_decimal_to_lex d = Some (sign_part d @ map digit_char (int_part (digit d))
    @ (if frac_part (digit d) = [] then [] else CHR ''.'' # map digit_char (frac_part (digit d))))"
proof -
  let ?ds = "digit d" and ?p = "sign_part d @ map digit_char (int_part (digit d))"
  have l: "length ?ds = 42" "is_digits ?ds" using normalD [OF assms] by auto
  have "lex_loop (take 22 ?ds @ drop 22 ?ds) 0 False = map digit_char (int_part ?ds) @ ''.'' @ map digit_char (drop 22 ?ds)"
    using l(1) lex_loop_parts [of 0 "take 22 ?ds" "drop 22 ?ds" False]
    by (simp add: Let_def int_part_def digit_char_0 del: append_take_drop_id)
  then have out: "sign_part d @ lex_loop ?ds 0 False = ?p @ CHR ''.'' # map digit_char (drop 22 ?ds)" by simp
  have "is_digits (rev (drop 22 ?ds))" using is_digits_drop [OF l(2)] by simp
  moreover have "rev ?p \<noteq> []" by (simp add: int_part_nonempty)
  ultimately have "lex_strip (map digit_char (rev (drop 22 ?ds)) @ CHR ''.'' # rev ?p) =
      (if frac_part ?ds = [] then rev ?p else map digit_char (rev (frac_part ?ds)) @ CHR ''.'' # rev ?p)"
    unfolding frac_part_def by (subst lex_strip_parts) auto
  then have "rev (lex_strip (rev (sign_part d @ lex_loop ?ds 0 False))) =
      ?p @ (if frac_part ?ds = [] then [] else CHR ''.'' # map digit_char (frac_part ?ds))"
    unfolding out by (simp add: rev_map)
  moreover have "\<not> (\<exists>x \<in> set ?ds. x < 0 \<or> x > 9)" using l(2) by force
  moreover have "\<not> is_overflow d" "d_flags d AND FS_D_SYNTAX_ERROR = 0"
    using assms by (auto simp: normal_def is_overflow_def FS_D_NEGATIVE_def FS_D_OVERFLOW_def FS_D_SYNTAX_ERROR_def)
  ultimately show ?thesis by (simp add: fs_decimal_to_lex_def sign_part_def Let_def)
qed

section \<open>Reading\<close>

lemma scan_digits:
  "is_digits xs \<Longrightarrow> from_str_scan (map digit_char xs @ ys) cpos fl dp sg = from_str_scan ys (cpos + length xs) fl dp sg"
  by (induction xs arbitrary: cpos) (auto simp: digit_char_code)

lemma scan_parts:
  fixes neg :: bool
  assumes "is_digits xs" "is_digits ys" "xs \<noteq> []"
  defines "pre \<equiv> if neg then ''-'' else []"
  shows "from_str_scan (pre @ map digit_char xs @ (if ys = [] then [] else CHR ''.'' # map digit_char ys)) 0 0 None False =
    Some (if neg then FS_D_NEGATIVE else 0, if ys = [] then None else Some (length pre + length xs), neg)"
proof -
  have r: "from_str_scan (map digit_char xs @ (if ys = [] then [] else CHR ''.'' # map digit_char ys)) c fl None sg =
      Some (fl, if ys = [] then None else Some (c + length xs), sg)" for c fl sg
    using scan_digits [OF assms(2), of "[]"] by (simp add: scan_digits [OF assms(1)])
  show ?thesis
  proof (cases neg)
    case True
    then show ?thesis using r [of 1 FS_D_NEGATIVE True] by (simp add: pre_def)
  next
    case False
    then show ?thesis using r [of 0 0 False] by (simp add: pre_def)
  qed
qed

text \<open>The digits of a piece of the string go to consecutive places.\<close>

lemma fill_piece:
  "is_digits xs \<Longrightarrow> base + int (length pre) = int k \<Longrightarrow> k + length xs \<le> length ds \<Longrightarrow>
   from_str_fill (pre @ map digit_char xs @ post) base (length pre) (length pre + length xs) ds =
     Some (take k ds @ xs @ drop (k + length xs) ds)"
proof (induction xs arbitrary: pre k ds)
  case Nil
  then show ?case by (subst from_str_fill.simps) simp
next
  case (Cons x xs)
  let ?str = "pre @ map digit_char (x # xs) @ post"
  have c: "of_char (?str ! length pre) - 48 = x" using Cons.prems(1) by (simp add: nth_append digit_char_int)
  have k: "k < length ds" "nat (base + int (length pre)) = k" using Cons.prems by auto
  have "from_str_fill ?str base (length pre) (length pre + length (x # xs)) ds
      = from_str_fill ?str base (length pre + 1) (length pre + length (x # xs)) (ds[k := x])"
    using Cons.prems(2) k c by (subst from_str_fill.simps) (simp add: Let_def)
  also have "\<dots> = Some (take (Suc k) (ds[k := x]) @ xs @ drop (Suc k + length xs) (ds[k := x]))"
    using Cons.IH [of "pre @ [digit_char x]" "Suc k" "ds[k := x]"] Cons.prems by simp
  also have "take (Suc k) (ds[k := x]) = take k ds @ [x]" using k(1) by (simp add: take_Suc_conv_app_nth)
  finally show ?case by simp
qed

lemma fill_none: "stop \<le> cpos \<Longrightarrow> from_str_fill str base cpos stop ds = Some ds"
  by (subst from_str_fill.simps) simp

lemma strip0_replicate: "replicate (length xs - length (strip0 xs)) 0 @ strip0 xs = xs"
proof (induction xs)
  case (Cons x xs)
  have "length (strip0 xs) \<le> length xs" by (rule length_dropWhile_le)
  with Cons show ?case by (simp add: Suc_diff_le)
qed simp

lemma is_digits_strip0: "is_digits xs \<Longrightarrow> is_digits (strip0 xs)"
  using set_dropWhileD [of _ "\<lambda>x. x = 0" xs] by blast

lemma is_digits_take: "is_digits xs \<Longrightarrow> is_digits (take n xs)"
  using set_take_subset [of n xs] by blast

lemma int_part_digits: "is_digits ds \<Longrightarrow> is_digits (int_part ds)"
  using is_digits_strip0 [OF is_digits_take, of ds 22] unfolding int_part_def by (split if_split) simp

lemma frac_part_digits: "is_digits ds \<Longrightarrow> is_digits (frac_part ds)"
  using is_digits_strip0 [of "rev (drop 22 ds)"] is_digits_drop [of ds 22] unfolding frac_part_def set_rev by blast

lemma int_part_pad:
  assumes "length ds = 42"
  shows "replicate (22 - length (int_part ds)) 0 @ int_part ds = take 22 ds" "length (int_part ds) \<le> 22"
proof -
  have l: "length (take 22 ds) = 22" using assms by simp
  then show "length (int_part ds) \<le> 22" using length_dropWhile_le [of "\<lambda>x. x = 0" "take 22 ds"] by (auto simp: int_part_def)
  have "replicate 21 (0 :: int) @ [0] = replicate 22 0" by (simp add: replicate_append_same numeral_eq_Suc)
  then show "replicate (22 - length (int_part ds)) 0 @ int_part ds = take 22 ds"
    using strip0_replicate [of "take 22 ds"] l unfolding int_part_def by (auto simp del: dropWhile_eq_Nil_conv)
qed

lemma frac_part_pad:
  assumes "length ds = 42"
  shows "frac_part ds @ replicate (20 - length (frac_part ds)) 0 = drop 22 ds" "length (frac_part ds) \<le> 20"
proof -
  show "length (frac_part ds) \<le> 20" using length_dropWhile_le [of "\<lambda>x. x = 0" "rev (drop 22 ds)"] assms by (simp add: frac_part_def)
  have "rev (replicate (20 - length (frac_part ds)) 0 @ strip0 (rev (drop 22 ds))) = drop 22 ds"
    using strip0_replicate [of "rev (drop 22 ds)"] assms by (simp add: frac_part_def)
  then show "frac_part ds @ replicate (20 - length (frac_part ds)) 0 = drop 22 ds" by (simp add: frac_part_def)
qed

text \<open>
  C36: Every normal decimal is read back from its lexical form: \<open>fs_decimal_to_lex\<close> gives a
  string, and \<open>fs_decimal_init_from_str\<close> accepts that string and rebuilds the same flags and the
  same 42 digits, for numbers with and without integer or fraction digits and for both signs.
\<close>

theorem fs_decimal_lex_roundtrip:
  assumes "normal d"
  shows "\<exists>str. fs_decimal_to_lex d = Some str \<and> fs_decimal_init_from_str str = Some (0, d)"
proof -
  let ?ds = "digit d" and ?n = "is_negative d"
  let ?i = "int_part (digit d)" and ?f = "frac_part (digit d)" and ?sg = "sign_part d"
  define str where "str = ?sg @ map digit_char ?i @ (if ?f = [] then [] else CHR ''.'' # map digit_char ?f)"
  note n = normalD [OF assms] and ip = int_part_pad [OF n(1)] and fp = frac_part_pad [OF n(1)]
  note dg = int_part_digits [OF n(2)] frac_part_digits [OF n(2)] int_part_nonempty [of ?ds]
  have fl: "(if ?n then FS_D_NEGATIVE else 0) = d_flags d"
    using assms by (auto simp: normal_def)
  have scan: "from_str_scan str 0 0 None False =
      Some (d_flags d, if ?f = [] then None else Some (length ?sg + length ?i), ?n)"
    using scan_parts [OF dg, of ?n] unfolding fl str_def sign_part_def .
  let ?dp = "length ?sg + length ?i"
  have f1: "from_str_fill str (22 - int ?dp) (length ?sg) ?dp (replicate 42 0) = Some (take 22 ?ds @ replicate 20 0)"
    unfolding str_def using fill_piece [OF dg(1), of "22 - int ?dp" ?sg "22 - length ?i" "replicate 42 0"] ip
    by (simp add: of_nat_diff append_assoc [symmetric] del: append_assoc)
  have f2: "from_str_fill str (21 - int ?dp) (?dp + 1) (length str) (take 22 ?ds @ replicate 20 0) = Some ?ds"
    if "?f \<noteq> []"
    unfolding str_def
    using that n(1) fp fill_piece [OF dg(2), of "21 - int ?dp" "?sg @ map digit_char ?i @ ''.''" 22 "take 22 ?ds @ replicate 20 0" "[]"]
    by (simp add: add.assoc)
  have f3: "take 22 ?ds @ replicate 20 0 = ?ds" if "?f = []"
    using fp(1) that append_take_drop_id [of 22 ?ds] by simp
  have off: "(if ?n then 1 else 0) = length ?sg" by (simp add: sign_part_def)
  have "fs_decimal_init_from_str str = Some (0, d)"
  proof (cases "?f = []")
    case True
    then have "length str = ?dp" by (simp add: str_def)
    then show ?thesis using True scan f1 f3
      by (simp add: fs_decimal_init_from_str_def fs_decimal_init_def off Let_def fill_none)
  next
    case False
    then show ?thesis using scan f1 f2
      by (simp add: fs_decimal_init_from_str_def fs_decimal_init_def off Let_def)
  qed
  then show ?thesis using to_lex_parts [OF assms] unfolding str_def by simp
qed

theorem fs_decimal_lex_roundtrip_witness:
  "normal d2_914_val \<and> (\<exists>str. fs_decimal_to_lex d2_914_val = Some str \<and> fs_decimal_init_from_str str = Some (0, d2_914_val))"
proof -
  have "normal d2_914_val" by (simp add: normal_def d2_914_val_def numeral_eq_Suc)
  then show ?thesis using fs_decimal_lex_roundtrip by blast
qed

section \<open>Integers\<close>

lemma num_update: "k < length xs \<Longrightarrow> num (xs[k := v]) = num xs + (v - xs ! k) * 10 ^ (length xs - 1 - k)"
proof (induction xs arbitrary: k)
  case (Cons x xs)
  then show ?case by (cases k) (auto simp: algebra_simps)
qed simp

lemma from_uint64_loop_ok:
  assumes "is_digits (digit d)" "length (digit d) = 42" "pos < 42" "i < 10 ^ Suc pos" "\<forall>j \<le> pos. digit d ! j = 0"
  shows "\<exists>ds. from_uint64_loop d i (int pos) = (0, d\<lparr>digit := ds\<rparr>) \<and> is_digits ds \<and> length ds = 42
    \<and> num ds = num (digit d) + int i * 10 ^ (41 - pos)"
  using assms
proof (induction pos arbitrary: d i)
  case 0
  then have i: "i < 10" by simp
  show ?case
  proof (cases "i = 0")
    case False
    have "is_digits ((digit d)[0 := int i])" using 0 i set_update_subset_insert [of "digit d" 0 "int i"] by auto
    then show ?thesis using 0 i False num_update [of 0 "digit d" "int i"]
      by (intro exI [of _ "(digit d)[0 := int i]"]) (simp add: from_uint64_loop.simps)
  qed (use 0 in \<open>auto simp: from_uint64_loop.simps intro!: exI [of _ "digit d"]\<close>)
next
  case (Suc pos)
  show ?case
  proof (cases "i = 0")
    case False
    let ?d = "d\<lparr>digit := (digit d)[Suc pos := int (i mod 10)]\<rparr>"
    have loop: "from_uint64_loop d i (int (Suc pos)) = from_uint64_loop ?d (i div 10) (int pos)"
      using False Suc.prems(3) by (subst from_uint64_loop.simps) (simp add: nat_add_distrib)
    have dig: "is_digits (digit ?d)"
      using Suc.prems(1) set_update_subset_insert [of "digit d" "Suc pos" "int (i mod 10)"] by auto
    have n: "num (digit ?d) = num (digit d) + int (i mod 10) * 10 ^ (41 - Suc pos)"
      using num_update [of "Suc pos" "digit d"] Suc.prems by simp
    have "i div 10 < 10 ^ Suc pos" using Suc.prems(4) by (simp add: less_mult_imp_div_less mult.commute)
    then obtain ds where ds: "from_uint64_loop ?d (i div 10) (int pos) = (0, ?d\<lparr>digit := ds\<rparr>)" "is_digits ds"
        "length ds = 42" "num ds = num (digit ?d) + int (i div 10) * 10 ^ (41 - pos)"
      using Suc.IH [of ?d "i div 10"] dig Suc.prems by auto
    have "41 - pos = Suc (41 - Suc pos)" using Suc.prems(3) by simp
    then have "int (i mod 10) * 10 ^ (41 - Suc pos) + int (i div 10) * 10 ^ (41 - pos)
        = (int (i mod 10) + 10 * int (i div 10)) * 10 ^ (41 - Suc pos)" by (simp only: power_Suc algebra_simps)
    also have "int (i mod 10) + 10 * int (i div 10) = int i" by (simp add: zmod_int zdiv_int)
    finally show ?thesis unfolding loop using ds n by auto
  qed (use Suc.prems in \<open>auto simp: from_uint64_loop.simps intro!: exI [of _ "digit d"]\<close>)
qed

lemma to_int64_loop_num: "to_int64_loop xs acc f = acc + f * of_int (num (rev xs))"
proof (induction xs arbitrary: acc f)
  case (Cons x xs)
  then show ?case by (simp add: num_append algebra_simps)
qed simp

text \<open>The integer part, rounded towards zero.\<close>

lemma to_int64_value:
  assumes "normal d"
  shows "fs_decimal_to_int64 d = sint (of_int (if is_negative d then - (num (digit d) div 10 ^ 20) else num (digit d) div 10 ^ 20) :: u64)"
proof -
  note n = normalD [OF assms]
  have d2: "is_digits (drop 2 (digit d))" using n(2) by (rule is_digits_drop)
  have "num (take 20 (drop 2 (digit d))) = num (drop 2 (digit d)) div 10 ^ 20"
    using num_take [OF _ d2, of 20] n(1) by simp
  moreover have "num (drop 2 (digit d)) = num (digit d)"
    using num_drop [of 1 "digit d"] n(1,4) assms by (simp add: normal_def numeral_2_eq_2)
  ultimately show ?thesis by (simp add: fs_decimal_to_int64_def to_int64_loop_num Let_def)
qed

lemma from_int64_value:
  assumes "- (2 ^ 63) \<le> i" "i < 2 ^ 63"
  shows "\<exists>d. fs_decimal_init_from_int64 i = (0, d) \<and> normal d \<and> dval d = i * 10 ^ 20"
proof -
  define f :: u32 where "f = (if i < 0 then FS_D_NEGATIVE else 0)"
  have "nat \<bar>i\<bar> < 10 ^ Suc 21" using assms by simp
  then obtain ds where ds: "from_uint64_loop (zero_val\<lparr>d_flags := f\<rparr>) (nat \<bar>i\<bar>) (int 21) = (0, zero_val\<lparr>d_flags := f, digit := ds\<rparr>)"
      "is_digits ds" "length ds = 42" "num ds = \<bar>i\<bar> * 10 ^ 20"
    using from_uint64_loop_ok [of "zero_val\<lparr>d_flags := f\<rparr>" 21 "nat \<bar>i\<bar>"] by auto
  have "(if i < 0 then zero_val\<lparr>d_flags := d_flags zero_val OR FS_D_NEGATIVE\<rparr> else zero_val) = zero_val\<lparr>d_flags := f\<rparr>"
    by (simp add: f_def zero_val_def)
  then have r: "fs_decimal_init_from_int64 i = (0, zero_val\<lparr>d_flags := f, digit := ds\<rparr>)"
    using ds(1) by (simp add: fs_decimal_init_from_int64_def fs_decimal_init_def from_uint64_def Let_def)
  have z: "num ds < 10 ^ 40" using ds(4) assms by simp
  have "ds ! 0 = 0" "ds ! 1 = 0" using tail_cut(1-3) [OF ds(2,3)] z num_nonneg [OF ds(2)] by simp_all
  then have "normal (zero_val\<lparr>d_flags := f, digit := ds\<rparr>)" using ds(2,3) by (simp add: normal_def f_def)
  moreover have "dval (zero_val\<lparr>d_flags := f, digit := ds\<rparr>) = i * 10 ^ 20"
    using ds(4) by (simp add: dval_def is_negative_def f_def FS_D_NEGATIVE_def)
  ultimately show ?thesis using r by blast
qed

text \<open>
  C37: Every 64-bit integer survives the conversion to a decimal and back: the conversion returns
  0, gives a normal decimal with the integer's value, and \<open>fs_decimal_to_int64\<close> returns the
  integer, the most negative one included.
\<close>

theorem fs_decimal_int64_roundtrip:
  assumes "- (2 ^ 63) \<le> i" "i < 2 ^ 63"
  shows "\<exists>d. fs_decimal_init_from_int64 i = (0, d) \<and> normal d \<and> dval d = i * 10 ^ 20 \<and> fs_decimal_to_int64 d = i"
proof -
  obtain d where d: "fs_decimal_init_from_int64 i = (0, d)" "normal d" "dval d = i * 10 ^ 20"
    using from_int64_value [OF assms] by blast
  have "(if is_negative d then - (num (digit d) div 10 ^ 20) else num (digit d) div 10 ^ 20) = i"
    using d(3) by (auto simp: dval_def split: if_splits)
  then have "fs_decimal_to_int64 d = sint (word_of_int i :: u64)" using to_int64_value [OF d(2)] by simp
  also have "\<dots> = i" using assms by (simp add: signed_of_int signed_take_bit_int_eq_self)
  finally show ?thesis using d by blast
qed

theorem fs_decimal_int64_roundtrip_witness:
  "\<exists>d. fs_decimal_init_from_int64 (- (2 ^ 63)) = (0, d) \<and> normal d \<and> dval d = - (2 ^ 63) * 10 ^ 20
    \<and> fs_decimal_to_int64 d = - (2 ^ 63)"
  using fs_decimal_int64_roundtrip [of "- (2 ^ 63)"] by simp

end
