(* ===== verification/AdminProtocol.thy ===== *)
theory AdminProtocol
  imports Prelude
begin

text \<open>
  The wire format between \<open>4s-admin\<close> and \<open>4s-boss\<close> (\<open>admin/admin_protocol.c\<close>, with the
  structures of \<open>admin/admin_common.h\<close>): six bytes of header, then the data of the command or
  the response.  A packet is the list of its bytes.  Encoders write into a block of the size
  they computed; a write outside it, or a read outside the received data, is the value
  \<open>None\<close>.  Numbers are copied with \<open>memcpy\<close> on a little-endian machine.  A C string is the list
  of its bytes before the terminator, \<open>NULL\<close> is \<open>None\<close>, and allocation succeeds.
\<close>

type_synonym bytes = "u8 list"

section \<open>Numbers as bytes\<close>

definition le16 :: "u16 \<Rightarrow> bytes" where
  "le16 w = [ucast w, ucast (drop_bit 8 w)]"

definition le32 :: "u32 \<Rightarrow> bytes" where
  "le32 w = [ucast w, ucast (drop_bit 8 w), ucast (drop_bit 16 w), ucast (drop_bit 24 w)]"

text \<open>Reading advances the pointer over the bytes read.\<close>

definition get_bytes :: "nat \<Rightarrow> bytes \<Rightarrow> (bytes \<times> bytes) option" where
  "get_bytes n p = (if n \<le> length p then Some (take n p, drop n p) else None)"

text \<open>A string field that is only read and stored when its length is not 0.\<close>

definition get_opt :: "nat \<Rightarrow> bytes option \<Rightarrow> bytes \<Rightarrow> (bytes option \<times> bytes) option" where
  "get_opt n old p = (if n > 0 then do { (s, p) \<leftarrow> get_bytes n p; Some (Some s, p) } else Some (old, p))"

fun get8 :: "bytes \<Rightarrow> (u8 \<times> bytes) option" where
  "get8 (a # p) = Some (a, p)"
| "get8 _ = None"

fun get16 :: "bytes \<Rightarrow> (u16 \<times> bytes) option" where
  "get16 (a # b # p) = Some (ucast a OR push_bit 8 (ucast b), p)"
| "get16 _ = None"

fun get32 :: "bytes \<Rightarrow> (u32 \<times> bytes) option" where
  "get32 (a # b # c # d # p) =
     Some (ucast a OR push_bit 8 (ucast b) OR push_bit 16 (ucast c) OR push_bit 24 (ucast d), p)"
| "get32 _ = None"

text \<open>\<open>n\<close> fields of one kind, one after the other.\<close>

fun get_n :: "(bytes \<Rightarrow> ('a \<times> bytes) option) \<Rightarrow> nat \<Rightarrow> bytes \<Rightarrow> ('a list \<times> bytes) option" where
  "get_n dec 0 p = Some ([], p)"
| "get_n dec (Suc n) p = do { (x, p) \<leftarrow> dec p; (xs, p) \<leftarrow> get_n dec n p; Some (x # xs, p) }"

text \<open>\<open>memcpy(p, src, n); p += n\<close> on the packet being filled.\<close>

type_synonym cursor = "bytes \<times> nat"

definition put :: "bytes \<Rightarrow> nat \<Rightarrow> cursor \<Rightarrow> cursor option" where
  "put src n st = do { buf \<leftarrow> memcpy_at (fst st) (snd st) src n; Some (buf, snd st + n) }"

section \<open>The header\<close>

definition ADM_PROTO_VERS :: u8 where "ADM_PROTO_VERS = 3"
definition ADM_HEADER_LEN :: nat where "ADM_HEADER_LEN = 6"

definition ADM_CMD_GET_KB_INFO :: int where "ADM_CMD_GET_KB_INFO = 5"
definition ADM_RSP_GET_KB_INFO :: int where "ADM_RSP_GET_KB_INFO = 6"
definition ADM_CMD_GET_KB_INFO_ALL :: int where "ADM_CMD_GET_KB_INFO_ALL = 7"
definition ADM_RSP_GET_KB_INFO_ALL :: int where "ADM_RSP_GET_KB_INFO_ALL = 8"
definition ADM_CMD_STOP_KB :: int where "ADM_CMD_STOP_KB = 9"
definition ADM_RSP_STOP_KB :: int where "ADM_RSP_STOP_KB = 10"
definition ADM_CMD_START_KB :: int where "ADM_CMD_START_KB = 11"
definition ADM_RSP_START_KB :: int where "ADM_RSP_START_KB = 12"
definition ADM_CMD_STOP_KB_ALL :: int where "ADM_CMD_STOP_KB_ALL = 13"
definition ADM_CMD_START_KB_ALL :: int where "ADM_CMD_START_KB_ALL = 14"
definition ADM_CMD_DELETE_KB :: int where "ADM_CMD_DELETE_KB = 17"
definition ADM_RSP_DELETE_KB :: int where "ADM_RSP_DELETE_KB = 18"
definition ADM_CMD_CREATE_KB :: int where "ADM_CMD_CREATE_KB = 19"
definition ADM_RSP_CREATE_KB :: int where "ADM_RSP_CREATE_KB = 20"
definition ADM_CMD_FSTOP_KB :: int where "ADM_CMD_FSTOP_KB = 21"
definition ADM_CMD_FSTOP_KB_ALL :: int where "ADM_CMD_FSTOP_KB_ALL = 22"
definition ADM_RSP_EXPECT_N_KB :: int where "ADM_RSP_EXPECT_N_KB = 252"
definition ADM_RSP_EXPECT_N :: int where "ADM_RSP_EXPECT_N = 253"
definition ADM_RSP_ERROR :: int where "ADM_RSP_ERROR = 255"

text \<open>The errors a decoder leaves in \<open>errno\<close>.\<close>

datatype adm_err = ADM_ERR_PROTO | ADM_ERR_PROTO_VERS

definition init_packet :: "int \<Rightarrow> nat \<Rightarrow> bytes" where
  "init_packet cmd len = [65, 67] @ [ADM_PROTO_VERS] @ [of_int cmd] @ le16 (of_nat len) @ replicate len 0"

definition fsap_encode_cmd_no_params :: "int \<Rightarrow> bytes" where
  "fsap_encode_cmd_no_params cmd = init_packet cmd 0"

definition fsap_decode_header :: "bytes \<Rightarrow> (adm_err + u8 \<times> u16) option" where
  "fsap_decode_header buf = do {
     (a, p) \<leftarrow> get8 buf;
     if a \<noteq> 65 then Some (Inl ADM_ERR_PROTO) else do {
       (c, p) \<leftarrow> get8 p;
       if c \<noteq> 67 then Some (Inl ADM_ERR_PROTO) else do {
         (v, p) \<leftarrow> get8 p;
         if v \<noteq> ADM_PROTO_VERS then Some (Inl ADM_ERR_PROTO_VERS) else do {
           (cmd, p) \<leftarrow> get8 p;
           (sz, p) \<leftarrow> get16 p;
           Some (Inr (cmd, sz))
         }
       }
     }
   }"

definition fsap_set_command_bytes :: "bytes \<Rightarrow> u8 \<Rightarrow> bytes option" where
  "fsap_set_command_bytes buf new_cmd = memcpy_at buf 3 [new_cmd] 1"

section \<open>Responses about one knowledge base\<close>

record fsa_kb_response =
  return_val :: u8
  kb_name :: "bytes option"
  msg :: "bytes option"

definition fsa_kb_response_new :: fsa_kb_response where
  "fsa_kb_response_new = \<lparr>return_val = of_int ADM_RSP_ERROR, kb_name = None, msg = None\<rparr>"

definition decode_kb_response :: "bytes \<Rightarrow> fsa_kb_response option" where
  "decode_kb_response buf = do {
     (rv, p) \<leftarrow> get8 buf;
     (kb_name_len, p) \<leftarrow> get8 p;
     (msg_len, p) \<leftarrow> get16 p;
     (name, p) \<leftarrow> get_opt (unat kb_name_len) (kb_name fsa_kb_response_new) p;
     (ms, p) \<leftarrow> get_opt (unat msg_len) (msg fsa_kb_response_new) p;
     Some (fsa_kb_response_new\<lparr>return_val := rv, kb_name := name, msg := ms\<rparr>)
   }"

text \<open>\<open>strlen\<close> of a string that may be \<open>NULL\<close>, guarded the way the encoders do.\<close>

definition opt_len :: "bytes option \<Rightarrow> nat" where
  "opt_len s = (case s of None \<Rightarrow> 0 | Some cs \<Rightarrow> length cs)"

text \<open>\<open>Some None\<close> is the \<open>NULL\<close> that refuses strings too long to encode; otherwise the packet
  and its length.\<close>

definition encode_kb_response ::
  "int \<Rightarrow> int \<Rightarrow> bytes option \<Rightarrow> bytes option \<Rightarrow> (bytes \<times> nat) option option" where
  "encode_kb_response rsp retval name ms =
     (if opt_len name > 255 then Some None
      else if opt_len ms > 65535 then Some None
      else
        let kb_name_len = (of_nat (opt_len name) :: u8);
            msg_len = (of_nat (opt_len ms) :: u16);
            data_len = 2 + 2 + unat kb_name_len + unat msg_len
        in do {
          st \<leftarrow> put [of_int retval] 1 (init_packet rsp data_len, ADM_HEADER_LEN);
          st \<leftarrow> put [kb_name_len] 1 st;
          st \<leftarrow> put (le16 msg_len) 2 st;
          st \<leftarrow> (if kb_name_len > 0 then put (the name) (unat kb_name_len) st else Some st);
          st \<leftarrow> (if msg_len > 0 then put (the ms) (unat msg_len) st else Some st);
          Some (Some (fst st, ADM_HEADER_LEN + data_len))
        })"

section \<open>Counts and simple commands\<close>

definition fsap_encode_rsp_expect_n :: "int \<Rightarrow> (bytes \<times> nat) option" where
  "fsap_encode_rsp_expect_n n = do {
     st \<leftarrow> put (le16 (of_int n)) 2 (init_packet ADM_RSP_EXPECT_N 2, ADM_HEADER_LEN);
     Some (fst st, 2 + ADM_HEADER_LEN)
   }"

definition fsap_decode_rsp_expect_n :: "bytes \<Rightarrow> int option" where
  "fsap_decode_rsp_expect_n buf = do { (n, p) \<leftarrow> get16 buf; Some (uint n) }"

definition fsap_encode_rsp_expect_n_kb :: "int \<Rightarrow> int \<Rightarrow> (bytes \<times> nat) option" where
  "fsap_encode_rsp_expect_n_kb n kb_len = do {
     st \<leftarrow> put (le16 (of_int n)) 2 (init_packet ADM_RSP_EXPECT_N_KB 3, ADM_HEADER_LEN);
     st \<leftarrow> put [of_int kb_len] 1 st;
     Some (fst st, 3 + ADM_HEADER_LEN)
   }"

definition fsap_decode_rsp_expect_n_kb :: "bytes \<Rightarrow> (int \<times> int) option" where
  "fsap_decode_rsp_expect_n_kb buf = do {
     (n, p) \<leftarrow> get16 buf;
     (kb_len, p) \<leftarrow> get8 p;
     Some (uint n, uint kb_len)
   }"

text \<open>The commands and the error response that carry one string.\<close>

definition fsap_encode_cmd_stop_kb_all :: "bool \<Rightarrow> bytes \<times> nat" where
  "fsap_encode_cmd_stop_kb_all force =
     (fsap_encode_cmd_no_params (if force then ADM_CMD_FSTOP_KB_ALL else ADM_CMD_STOP_KB_ALL), ADM_HEADER_LEN)"

definition fsap_encode_cmd_stop_kb :: "bytes \<Rightarrow> bool \<Rightarrow> (bytes \<times> nat) option" where
  "fsap_encode_cmd_stop_kb name force =
     (let data_len = length name; cmd = (if force then ADM_CMD_FSTOP_KB else ADM_CMD_STOP_KB)
      in do { st \<leftarrow> put name data_len (init_packet cmd data_len, ADM_HEADER_LEN); Some (fst st, data_len + ADM_HEADER_LEN) })"

definition fsap_encode_cmd_start_kb_all :: "bytes \<times> nat" where
  "fsap_encode_cmd_start_kb_all = (fsap_encode_cmd_no_params ADM_CMD_START_KB_ALL, ADM_HEADER_LEN)"

definition fsap_encode_cmd_start_kb :: "bytes \<Rightarrow> (bytes \<times> nat) option" where
  "fsap_encode_cmd_start_kb name =
     (let data_len = length name
      in do { st \<leftarrow> put name data_len (init_packet ADM_CMD_START_KB data_len, ADM_HEADER_LEN); Some (fst st, data_len + ADM_HEADER_LEN) })"

definition fsap_encode_cmd_get_kb_info :: "bytes \<Rightarrow> (bytes \<times> nat) option" where
  "fsap_encode_cmd_get_kb_info name =
     (let data_len = length name
      in do { st \<leftarrow> put name data_len (init_packet ADM_CMD_GET_KB_INFO data_len, ADM_HEADER_LEN); Some (fst st, data_len + ADM_HEADER_LEN) })"

definition fsap_encode_cmd_get_kb_info_all :: "bytes \<times> nat" where
  "fsap_encode_cmd_get_kb_info_all = (fsap_encode_cmd_no_params ADM_CMD_GET_KB_INFO_ALL, ADM_HEADER_LEN)"

definition fsap_encode_cmd_delete_kb :: "bytes \<Rightarrow> (bytes \<times> nat) option" where
  "fsap_encode_cmd_delete_kb name =
     (let data_len = length name
      in do { st \<leftarrow> put name data_len (init_packet ADM_CMD_DELETE_KB data_len, ADM_HEADER_LEN); Some (fst st, data_len + ADM_HEADER_LEN) })"

definition fsap_encode_rsp_error :: "bytes \<Rightarrow> (bytes \<times> nat) option" where
  "fsap_encode_rsp_error ms =
     (let data_len = length ms
      in do { st \<leftarrow> put ms data_len (init_packet ADM_RSP_ERROR data_len, ADM_HEADER_LEN); Some (fst st, data_len + ADM_HEADER_LEN) })"

definition fsap_decode_rsp_error :: "bytes \<Rightarrow> nat \<Rightarrow> bytes option" where
  "fsap_decode_rsp_error buf len = do { (s, p) \<leftarrow> get_bytes len buf; Some s }"

text \<open>The four responses that use the common format.\<close>

definition fsap_encode_rsp_stop_kb :: "int \<Rightarrow> bytes option \<Rightarrow> bytes option \<Rightarrow> (bytes \<times> nat) option option" where
  "fsap_encode_rsp_stop_kb retval name ms = encode_kb_response ADM_RSP_STOP_KB retval name ms"

definition fsap_decode_rsp_stop_kb :: "bytes \<Rightarrow> fsa_kb_response option" where
  "fsap_decode_rsp_stop_kb buf = decode_kb_response buf"

definition fsap_encode_rsp_start_kb :: "int \<Rightarrow> bytes option \<Rightarrow> bytes option \<Rightarrow> (bytes \<times> nat) option option" where
  "fsap_encode_rsp_start_kb retval name ms = encode_kb_response ADM_RSP_START_KB retval name ms"

definition fsap_decode_rsp_start_kb :: "bytes \<Rightarrow> fsa_kb_response option" where
  "fsap_decode_rsp_start_kb buf = decode_kb_response buf"

definition fsap_encode_rsp_delete_kb :: "int \<Rightarrow> bytes option \<Rightarrow> bytes option \<Rightarrow> (bytes \<times> nat) option option" where
  "fsap_encode_rsp_delete_kb retval name ms = encode_kb_response ADM_RSP_DELETE_KB retval name ms"

definition fsap_decode_rsp_delete_kb :: "bytes \<Rightarrow> fsa_kb_response option" where
  "fsap_decode_rsp_delete_kb buf = decode_kb_response buf"

definition fsap_encode_rsp_create_kb :: "int \<Rightarrow> bytes option \<Rightarrow> bytes option \<Rightarrow> (bytes \<times> nat) option option" where
  "fsap_encode_rsp_create_kb retval name ms = encode_kb_response ADM_RSP_CREATE_KB retval name ms"

definition fsap_decode_rsp_create_kb :: "bytes \<Rightarrow> fsa_kb_response option" where
  "fsap_decode_rsp_create_kb buf = decode_kb_response buf"

section \<open>Descriptions of knowledge bases\<close>

text \<open>\<open>fsa_kb_info_new\<close> leaves \<open>pidg\<close> uninitialised, so its value is an argument.  The linked list
  of descriptions is a list.\<close>

record fsa_kb_info =
  ki_name :: bytes
  ki_ipaddr :: "bytes option"
  ki_pid :: u32
  ki_pidg :: u32
  ki_port :: u16
  ki_status :: u8
  ki_num_segments :: u16
  ki_p_segments_len :: u16
  ki_p_segments_data :: "u16 list"

definition KB_STATUS_UNKNOWN :: u8 where "KB_STATUS_UNKNOWN = 3"

definition fsa_kb_info_new :: "u32 \<Rightarrow> fsa_kb_info" where
  "fsa_kb_info_new junk = \<lparr>ki_name = [], ki_ipaddr = None, ki_pid = 0, ki_pidg = junk, ki_port = 0,
     ki_status = KB_STATUS_UNKNOWN, ki_num_segments = 0, ki_p_segments_len = 0, ki_p_segments_data = []\<rparr>"

text \<open>The body of the decoding loop: one entry of the packet.\<close>

definition decode_kb_info :: "u32 \<Rightarrow> bytes \<Rightarrow> (fsa_kb_info \<times> bytes) option" where
  "decode_kb_info junk p = do {
     let ki = fsa_kb_info_new junk;
     (name_len, p) \<leftarrow> get8 p;
     (s, p) \<leftarrow> get_bytes (unat name_len) p;
     let ki = ki\<lparr>ki_name := s\<rparr>;
     (pid, p) \<leftarrow> get32 p;
     let ki = ki\<lparr>ki_pid := pid\<rparr>;
     (port, p) \<leftarrow> get16 p;
     let ki = ki\<lparr>ki_port := port\<rparr>;
     (status, p) \<leftarrow> get8 p;
     let ki = ki\<lparr>ki_status := status\<rparr>;
     (num_segments, p) \<leftarrow> get16 p;
     let ki = ki\<lparr>ki_num_segments := num_segments\<rparr>;
     (p_segments_len, p) \<leftarrow> get16 p;
     let ki = ki\<lparr>ki_p_segments_len := p_segments_len\<rparr>;
     (segs, p) \<leftarrow> get_n get16 (unat p_segments_len) p;
     Some (ki\<lparr>ki_p_segments_data := segs\<rparr>, p)
   }"

text \<open>Every entry is put in front of the list.\<close>

fun kb_info_loop :: "u32 \<Rightarrow> nat \<Rightarrow> bytes \<Rightarrow> fsa_kb_info list \<Rightarrow> fsa_kb_info list option" where
  "kb_info_loop junk 0 p first_ki = Some first_ki"
| "kb_info_loop junk (Suc n) p first_ki = do {
     (ki, p) \<leftarrow> decode_kb_info junk p;
     kb_info_loop junk n p (ki # first_ki)
   }"

definition fsap_decode_rsp_get_kb_info_all :: "u32 \<Rightarrow> bytes \<Rightarrow> fsa_kb_info list option" where
  "fsap_decode_rsp_get_kb_info_all junk buf = do {
     (n_entries, p) \<leftarrow> get16 buf;
     kb_info_loop junk (unat n_entries) p []
   }"

definition fsap_decode_rsp_get_kb_info :: "u32 \<Rightarrow> bytes \<Rightarrow> fsa_kb_info list option" where
  "fsap_decode_rsp_get_kb_info junk buf = fsap_decode_rsp_get_kb_info_all junk buf"

text \<open>The first loop counts the bytes and the entries, the second one writes.\<close>

definition kb_info_size :: "fsa_kb_info \<Rightarrow> nat" where
  "kb_info_size ki = 12 + length (ki_name ki) + unat (ki_p_segments_len ki) * 2"

definition encode_kb_info :: "fsa_kb_info \<Rightarrow> cursor \<Rightarrow> cursor option" where
  "encode_kb_info ki st =
     (let name_len = (of_nat (length (ki_name ki)) :: u8)
      in do {
        st \<leftarrow> put [name_len] 1 st;
        st \<leftarrow> put (ki_name ki) (unat name_len) st;
        st \<leftarrow> put (le32 (ki_pid ki)) 4 st;
        st \<leftarrow> put (le16 (ki_port ki)) 2 st;
        st \<leftarrow> put [ki_status ki] 1 st;
        st \<leftarrow> put (le16 (ki_num_segments ki)) 2 st;
        st \<leftarrow> put (le16 (ki_p_segments_len ki)) 2 st;
        put (concat (map le16 (ki_p_segments_data ki))) (unat (ki_p_segments_len ki) * 2) st
      })"

fun encode_kb_infos :: "fsa_kb_info list \<Rightarrow> cursor \<Rightarrow> cursor option" where
  "encode_kb_infos [] st = Some st"
| "encode_kb_infos (ki # kis) st = do { st \<leftarrow> encode_kb_info ki st; encode_kb_infos kis st }"

definition fsap_encode_rsp_get_kb_info_all :: "fsa_kb_info list \<Rightarrow> (bytes \<times> nat) option" where
  "fsap_encode_rsp_get_kb_info_all kis =
     (let data_len = 2 + sum_list (map kb_info_size kis);
          n_entries = (of_nat (length kis) :: u16)
      in do {
        st \<leftarrow> put (le16 n_entries) 2 (init_packet ADM_RSP_GET_KB_INFO_ALL data_len, ADM_HEADER_LEN);
        st \<leftarrow> encode_kb_infos kis st;
        Some (fst st, data_len + ADM_HEADER_LEN)
      })"

definition fsap_encode_rsp_get_kb_info :: "fsa_kb_info list \<Rightarrow> (bytes \<times> nat) option" where
  "fsap_encode_rsp_get_kb_info kis = do {
     (buf, len) \<leftarrow> fsap_encode_rsp_get_kb_info_all kis;
     buf \<leftarrow> memcpy_at buf 3 [of_int ADM_RSP_GET_KB_INFO] 1;
     Some (buf, len)
   }"

section \<open>Creating a knowledge base\<close>

record fsa_kb_setup_args =
  ks_name :: "bytes option"
  ks_password :: "bytes option"
  ks_node_id :: u8
  ks_cluster_size :: u8
  ks_num_segments :: u16
  ks_mirror_segments :: bool
  ks_model_files :: bool
  ks_delete_existing :: bool

definition FSAP_KSA_MIRROR :: u8 where "FSAP_KSA_MIRROR = 1"
definition FSAP_KSA_MODEL_FILES :: u8 where "FSAP_KSA_MODEL_FILES = 2"
definition FSAP_KSA_DELETE_EXISTING :: u8 where "FSAP_KSA_DELETE_EXISTING = 4"

definition fsa_kb_setup_args_new :: fsa_kb_setup_args where
  "fsa_kb_setup_args_new = \<lparr>ks_name = None, ks_password = None, ks_node_id = 0, ks_cluster_size = 1,
     ks_num_segments = 2, ks_mirror_segments = False, ks_model_files = False, ks_delete_existing = True\<rparr>"

definition ksa_flags :: "fsa_kb_setup_args \<Rightarrow> u8" where
  "ksa_flags ks =
     (let flags = 0;
          flags = (if ks_mirror_segments ks then flags OR FSAP_KSA_MIRROR else flags);
          flags = (if ks_model_files ks then flags OR FSAP_KSA_MODEL_FILES else flags)
      in if ks_delete_existing ks then flags OR FSAP_KSA_DELETE_EXISTING else flags)"

definition fsap_encode_cmd_create_kb :: "fsa_kb_setup_args \<Rightarrow> (bytes \<times> nat) option option" where
  "fsap_encode_cmd_create_kb ks =
     (case ks_name ks of
        None \<Rightarrow> Some None
      | Some name \<Rightarrow>
          if length name > 255 then Some None
          else if opt_len (ks_password ks) > 255 then Some None
          else
            let name_len = (of_nat (length name) :: u8);
                password_len = (of_nat (opt_len (ks_password ks)) :: u8);
                data_len = 5 + 2 + (unat name_len + unat password_len);
                flags = ksa_flags ks
            in do {
              st \<leftarrow> put [ks_node_id ks] 1 (init_packet ADM_CMD_CREATE_KB data_len, ADM_HEADER_LEN);
              st \<leftarrow> put [ks_cluster_size ks] 1 st;
              st \<leftarrow> put (le16 (ks_num_segments ks)) 2 st;
              st \<leftarrow> put [flags] 1 st;
              st \<leftarrow> put [name_len] 1 st;
              st \<leftarrow> put name (unat name_len) st;
              st \<leftarrow> put [password_len] 1 st;
              st \<leftarrow> (if password_len > 0 then put (the (ks_password ks)) (unat password_len) st else Some st);
              Some (Some (fst st, ADM_HEADER_LEN + data_len))
            })"

definition fsap_decode_cmd_create_kb :: "bytes \<Rightarrow> fsa_kb_setup_args option" where
  "fsap_decode_cmd_create_kb buf = do {
     let ks = fsa_kb_setup_args_new;
     (node_id, p) \<leftarrow> get8 buf;
     (cluster_size, p) \<leftarrow> get8 p;
     (num_segments, p) \<leftarrow> get16 p;
     (flags, p) \<leftarrow> get8 p;
     (name_len, p) \<leftarrow> get8 p;
     (name, p) \<leftarrow> get_opt (unat name_len) (ks_name ks) p;
     (password_len, p) \<leftarrow> get8 p;
     (password, p) \<leftarrow> get_opt (unat password_len) (ks_password ks) p;
     Some (ks\<lparr>ks_node_id := node_id, ks_cluster_size := cluster_size, ks_num_segments := num_segments,
                 ks_mirror_segments := flags AND FSAP_KSA_MIRROR \<noteq> 0,
                 ks_model_files := flags AND FSAP_KSA_MODEL_FILES \<noteq> 0,
                 ks_delete_existing := flags AND FSAP_KSA_DELETE_EXISTING \<noteq> 0,
                 ks_name := name, ks_password := password\<rparr>)
   }"

section \<open>Codecs\<close>

text \<open>What the decoder of a field promises for the bytes its encoder wrote: it returns the
  value and leaves the pointer behind them.\<close>

locale field_codec =
  fixes enc :: "'a \<Rightarrow> bytes" and dec :: "bytes \<Rightarrow> ('a \<times> bytes) option" and ok :: "'a \<Rightarrow> bool"
  assumes dec_enc: "ok x \<Longrightarrow> dec (enc x @ rest) = Some (x, rest)"
begin

lemma get_n_enc: "list_all ok xs \<Longrightarrow> get_n dec (length xs) (concat (map enc xs) @ rest) = Some (xs, rest)"
  by (induction xs) (auto simp: dec_enc)

lemma enc_inject: "ok x \<Longrightarrow> ok y \<Longrightarrow> enc x = enc y \<longleftrightarrow> x = y"
  by (metis dec_enc option.inject prod.inject)

end

lemma get16_le16: "get16 (le16 w @ rest) = Some (w, rest)"
proof -
  have "ucast (ucast w :: u8) OR push_bit 8 (ucast (ucast (drop_bit 8 w) :: u8)) = w"
    by (rule bit_word_eqI) (auto simp: bit_simps)
  then show ?thesis by (simp add: le16_def)
qed

lemma get32_le32: "get32 (le32 w @ rest) = Some (w, rest)"
proof -
  have "ucast (ucast w :: u8) OR push_bit 8 (ucast (ucast (drop_bit 8 w) :: u8))
      OR push_bit 16 (ucast (ucast (drop_bit 16 w) :: u8)) OR push_bit 24 (ucast (ucast (drop_bit 24 w) :: u8)) = w" (is "?l = w")
  proof (rule bit_word_eqI)
    fix n assume "n < LENGTH(32)"
    moreover have "24 \<le> n \<Longrightarrow> 24 + (n - 24) = n" "16 \<le> n \<Longrightarrow> 16 + (n - 16) = n" "8 \<le> n \<Longrightarrow> 8 + (n - 8) = n" by simp_all
    ultimately show "bit ?l n \<longleftrightarrow> bit w n"
      by (cases "n < 8"; cases "n < 16"; cases "n < 24") (auto simp: bit_simps)
  qed
  then show ?thesis by (simp add: le32_def)
qed

interpretation c8: field_codec "\<lambda>w. [w]" get8 "\<lambda>_. True"
  by unfold_locales simp

interpretation c16: field_codec le16 get16 "\<lambda>_. True"
  by unfold_locales (rule get16_le16)

interpretation c32: field_codec le32 get32 "\<lambda>_. True"
  by unfold_locales (rule get32_le32)

lemmas [simp] = get16_le16 get32_le32

lemma length_le [simp]: "length (le16 w) = 2" "length (le32 v) = 4"
  by (simp_all add: le16_def le32_def)

lemma length_concat_le16 [simp]: "length (concat (map le16 ws)) = 2 * length ws"
  by (induction ws) auto

lemma get_bytes_append [simp]: "length s = n \<Longrightarrow> get_bytes n (s @ rest) = Some (s, rest)"
  by (simp add: get_bytes_def)

section \<open>Filling a packet\<close>

text \<open>A packet of which the first bytes are written and \<open>k\<close> zeros are left.\<close>

definition filled :: "bytes \<Rightarrow> nat \<Rightarrow> cursor" where
  "filled d k = (d @ replicate k 0, length d)"

lemma put_filled [simp]:
  "n \<le> k \<Longrightarrow> n \<le> length src \<Longrightarrow> put src n (filled d k) = Some (filled (d @ take n src) (k - n))"
  by (simp add: put_def filled_def memcpy_at_def)

lemma fst_filled [simp]: "fst (filled d k) = d @ replicate k 0"
  by (simp add: filled_def)

definition header :: "int \<Rightarrow> nat \<Rightarrow> bytes" where
  "header cmd len = [65, 67, ADM_PROTO_VERS, of_int cmd] @ le16 (of_nat len)"

lemma length_header [simp]: "length (header cmd len) = 6"
  by (simp add: header_def)

lemma init_packet_filled: "(init_packet cmd len, ADM_HEADER_LEN) = filled (header cmd len) len"
  by (simp add: init_packet_def header_def filled_def ADM_HEADER_LEN_def)

lemma decode_header_header [simp]:
  "fsap_decode_header (header cmd len @ rest) = Some (Inr (of_int cmd, of_nat len))"
  by (simp add: fsap_decode_header_def header_def)

lemma drop_header [simp]: "drop ADM_HEADER_LEN (header cmd len @ rest) = rest"
  by (simp add: ADM_HEADER_LEN_def)

text \<open>
  C31: The decoder of the header accepts exactly the packets that start with \<open>AC\<close> and the
  protocol version, and reports a wrong start before a wrong version; the length field is the little-endian number in the last two bytes.
\<close>

theorem fsap_decode_header_correct:
  "fsap_decode_header (a # c # v # cmd # lo # hi # rest) =
     Some (if a = 65 \<and> c = 67 then
             if v = ADM_PROTO_VERS then Inr (cmd, of_nat (unat lo + 256 * unat hi)) else Inl ADM_ERR_PROTO_VERS
           else Inl ADM_ERR_PROTO)"
proof -
  have "ucast lo OR push_bit 8 (ucast hi) = (of_nat (unat lo + 256 * unat hi) :: u16)"
  proof -
    have "ucast lo OR push_bit 8 (ucast hi) = ucast lo + push_bit 8 (ucast hi :: u16)"
      by (rule disjunctive_add [symmetric]) (auto simp: bit_simps dest: bit_imp_le_length)
    also have "\<dots> = of_nat (unat lo + 256 * unat hi)" by (simp add: push_bit_eq_mult)
    finally show ?thesis .
  qed
  then show ?thesis by (simp add: fsap_decode_header_def)
qed

section \<open>Responses\<close>

text \<open>The strings a decoder cannot tell from \<open>NULL\<close>.\<close>

definition as_sent :: "bytes option \<Rightarrow> bytes option" where
  "as_sent s = (if s = Some [] then None else s)"

lemma opt_len_0: "opt_len s = 0 \<longleftrightarrow> as_sent s = None"
  by (cases s) (auto simp: opt_len_def as_sent_def)

lemma opt_len_pos: "opt_len s \<noteq> 0 \<Longrightarrow> s = Some (the s) \<and> as_sent s = s \<and> opt_len s = length (the s)"
  by (cases s) (auto simp: opt_len_def as_sent_def)

text \<open>The optional string behind a length.\<close>

definition opt_bytes :: "bytes option \<Rightarrow> bytes" where
  "opt_bytes s = (case s of None \<Rightarrow> [] | Some cs \<Rightarrow> cs)"

lemma length_opt_bytes [simp]: "length (opt_bytes s) = opt_len s"
  by (simp add: opt_bytes_def opt_len_def split: option.split)

lemma put_opt:
  assumes "opt_len s \<le> k"
  shows "(if opt_len s > 0 then put (the s) (opt_len s) (filled d k) else Some (filled d k))
    = Some (filled (d @ opt_bytes s) (k - opt_len s))"
  using assms by (cases s) (auto simp: opt_len_def opt_bytes_def)

lemma encode_kb_response_bytes:
  assumes "opt_len name \<le> 255" "opt_len ms \<le> 65535"
  defines "n \<equiv> 4 + opt_len name + opt_len ms"
  shows "encode_kb_response rsp retval name ms = Some (Some
    (header rsp n @ [of_int retval, of_nat (opt_len name)] @ le16 (of_nat (opt_len ms)) @ opt_bytes name @ opt_bytes ms, 6 + n))"
proof -
  have u: "unat (of_nat (opt_len name) :: u8) = opt_len name" "unat (of_nat (opt_len ms) :: u16) = opt_len ms"
    using assms(1,2) by (simp_all add: unsigned_of_nat take_bit_nat_eq_self_iff)
  then have z: "(of_nat (opt_len name) > (0 :: u8)) = (opt_len name > 0)" "(of_nat (opt_len ms) > (0 :: u16)) = (opt_len ms > 0)"
    by (simp_all add: word_less_nat_alt)
  show ?thesis
    using assms(1,2) unfolding encode_kb_response_def Let_def init_packet_filled u z
    by (simp add: put_opt n_def ADM_HEADER_LEN_def add.assoc)
qed

lemma get_opt_bytes: "get_opt (opt_len s) None (opt_bytes s @ rest) = Some (as_sent s, rest)"
  by (cases s) (auto simp: get_opt_def opt_len_def opt_bytes_def as_sent_def)

lemma unat_len8 [simp]: "n \<le> 255 \<Longrightarrow> unat (of_nat n :: u8) = n"
  by (simp add: unsigned_of_nat take_bit_nat_eq_self_iff)

lemma unat_len16 [simp]: "n \<le> 65535 \<Longrightarrow> unat (of_nat n :: u16) = n"
  by (simp add: unsigned_of_nat take_bit_nat_eq_self_iff)

text \<open>
  C33: The common response format is read back as it was sent.  Strings that fit their length
  fields are encoded without a write outside the packet; the header carries the response code and
  the length of the data modulo \<open>2 ^ 16\<close>, and the data is decoded to the return value (one byte of
  it), the name and the message, where an empty string comes back as \<open>NULL\<close>.  Longer strings are
  refused with \<open>NULL\<close>.
\<close>

theorem encode_kb_response_roundtrip:
  "if opt_len name \<le> 255 \<and> opt_len ms \<le> 65535
   then \<exists>buf. encode_kb_response rsp retval name ms = Some (Some (buf, length buf))
     \<and> fsap_decode_header buf = Some (Inr (of_int rsp, of_nat (length buf - ADM_HEADER_LEN)))
     \<and> decode_kb_response (drop ADM_HEADER_LEN buf) =
         Some \<lparr>return_val = of_int retval, kb_name = as_sent name, msg = as_sent ms\<rparr>
   else encode_kb_response rsp retval name ms = Some None"
proof (cases "opt_len name \<le> 255 \<and> opt_len ms \<le> 65535")
  case True
  let ?data = "[of_int retval, of_nat (opt_len name)] @ le16 (of_nat (opt_len ms)) @ opt_bytes name @ opt_bytes ms"
  let ?n = "4 + opt_len name + opt_len ms"
  have e: "encode_kb_response rsp retval name ms = Some (Some (header rsp ?n @ ?data, 6 + ?n))"
    using encode_kb_response_bytes True by simp
  have d: "decode_kb_response ?data = Some \<lparr>return_val = of_int retval, kb_name = as_sent name, msg = as_sent ms\<rparr>"
    using True get_opt_bytes [of name "opt_bytes ms"] get_opt_bytes [of ms "[]"]
    by (simp add: decode_kb_response_def fsa_kb_response_new_def)
  show ?thesis
    unfolding if_P [OF True] by (rule exI [of _ "header rsp ?n @ ?data"]) (use e d in \<open>simp add: ADM_HEADER_LEN_def\<close>)
next
  case False
  then show ?thesis unfolding if_not_P [OF False] by (auto simp: encode_kb_response_def)
qed

section \<open>Descriptions\<close>

definition kb_info_bytes :: "fsa_kb_info \<Rightarrow> bytes" where
  "kb_info_bytes ki =
     (let name_len = (of_nat (length (ki_name ki)) :: u8)
      in [name_len] @ take (unat name_len) (ki_name ki) @ le32 (ki_pid ki) @ le16 (ki_port ki) @ [ki_status ki]
         @ le16 (ki_num_segments ki) @ le16 (ki_p_segments_len ki)
         @ take (unat (ki_p_segments_len ki) * 2) (concat (map le16 (ki_p_segments_data ki))))"

text \<open>The segment array is as long as its length field says.\<close>

definition segments_ok :: "fsa_kb_info \<Rightarrow> bool" where
  "segments_ok ki \<longleftrightarrow> length (ki_p_segments_data ki) = unat (ki_p_segments_len ki)"

lemma name_len_le: "unat (of_nat n :: 8 word) \<le> n"
  by (simp add: unat_of_nat)

lemma length_kb_info_bytes: "segments_ok ki \<Longrightarrow> length (kb_info_bytes ki) \<le> kb_info_size ki"
  using name_len_le [of "length (ki_name ki)"] by (simp add: kb_info_bytes_def kb_info_size_def segments_ok_def Let_def)

lemma encode_kb_info_bytes:
  assumes "segments_ok ki" "kb_info_size ki \<le> k"
  shows "encode_kb_info ki (filled d k) = Some (filled (d @ kb_info_bytes ki) (k - length (kb_info_bytes ki)))"
proof -
  define l where "l = unat (of_nat (length (ki_name ki)) :: u8)"
  have l: "l \<le> length (ki_name ki)" by (simp add: l_def name_len_le)
  have b: "length (kb_info_bytes ki) = 12 + l + 2 * unat (ki_p_segments_len ki)"
    using assms(1) l by (simp add: kb_info_bytes_def segments_ok_def Let_def l_def [symmetric])
  show ?thesis
    using assms l unfolding encode_kb_info_def Let_def l_def [symmetric] kb_info_size_def segments_ok_def b
    by (simp add: kb_info_bytes_def Let_def l_def [symmetric] algebra_simps)
qed

lemma encode_kb_infos_bytes:
  "list_all segments_ok kis \<Longrightarrow> sum_list (map kb_info_size kis) \<le> k \<Longrightarrow>
   encode_kb_infos kis (filled d k) =
     Some (filled (d @ concat (map kb_info_bytes kis)) (k - length (concat (map kb_info_bytes kis))))"
proof (induction kis arbitrary: d k)
  case (Cons ki kis)
  then have "kb_info_size ki \<le> k" "segments_ok ki" by auto
  note e = encode_kb_info_bytes [OF this(2,1), of d]
  have "sum_list (map kb_info_size kis) \<le> k - length (kb_info_bytes ki)"
    using Cons.prems length_kb_info_bytes [of ki] by auto
  then show ?case using Cons.IH [of "k - length (kb_info_bytes ki)"] Cons.prems(1) e by simp
qed simp

text \<open>What arrives of a description: the address and the process group are not sent.\<close>

definition sent_info :: "u32 \<Rightarrow> fsa_kb_info \<Rightarrow> fsa_kb_info" where
  "sent_info junk ki = ki\<lparr>ki_ipaddr := None, ki_pidg := junk\<rparr>"

lemma decode_kb_info_bytes:
  assumes "segments_ok ki" "length (ki_name ki) \<le> 255"
  shows "decode_kb_info junk (kb_info_bytes ki @ rest) = Some (sent_info junk ki, rest)"
proof -
  have u: "unat (of_nat (length (ki_name ki)) :: u8) = length (ki_name ki)"
    using assms(2) by (simp add: unsigned_of_nat take_bit_nat_eq_self_iff)
  have n: "get_n get16 (unat (ki_p_segments_len ki)) (concat (map le16 (ki_p_segments_data ki)) @ rest) = Some (ki_p_segments_data ki, rest)"
    using c16.get_n_enc [of "ki_p_segments_data ki" rest] assms(1) by (simp add: segments_ok_def list_all_iff)
  have t: "take (unat (ki_p_segments_len ki) * 2) (concat (map le16 (ki_p_segments_data ki))) = concat (map le16 (ki_p_segments_data ki))"
    using assms(1) by (simp add: segments_ok_def)
  show ?thesis
    unfolding kb_info_bytes_def Let_def t
    by (simp add: decode_kb_info_def Let_def u n fsa_kb_info_new_def sent_info_def)
qed

lemma kb_info_loop_bytes:
  "list_all (\<lambda>ki. segments_ok ki \<and> length (ki_name ki) \<le> 255) kis \<Longrightarrow>
   kb_info_loop junk (length kis) (concat (map kb_info_bytes kis) @ rest) acc = Some (rev (map (sent_info junk) kis) @ acc)"
  by (induction kis arbitrary: acc) (auto simp: decode_kb_info_bytes)

lemma encode_infos_packet:
  assumes "list_all segments_ok kis"
  defines "n \<equiv> 2 + sum_list (map kb_info_size kis)"
  shows "\<exists>pad. fsap_encode_rsp_get_kb_info_all kis = Some (header ADM_RSP_GET_KB_INFO_ALL n
    @ le16 (of_nat (length kis)) @ concat (map kb_info_bytes kis) @ replicate pad 0, n + 6)
    \<and> 2 + length (concat (map kb_info_bytes kis)) + pad = n"
proof -
  let ?b = "concat (map kb_info_bytes kis)"
  have "length ?b \<le> sum_list (map kb_info_size kis)"
    using assms(1) by (induction kis) (auto dest: length_kb_info_bytes intro: add_mono)
  moreover have "fsap_encode_rsp_get_kb_info_all kis = Some (header ADM_RSP_GET_KB_INFO_ALL n
      @ le16 (of_nat (length kis)) @ ?b @ replicate (sum_list (map kb_info_size kis) - length ?b) 0, n + 6)"
    using encode_kb_infos_bytes [OF assms(1), of "sum_list (map kb_info_size kis)"]
    unfolding fsap_encode_rsp_get_kb_info_all_def Let_def init_packet_filled n_def [symmetric]
    by (simp add: n_def ADM_HEADER_LEN_def)
  ultimately show ?thesis by (intro exI [of _ "sum_list (map kb_info_size kis) - length ?b"]) (simp add: n_def)
qed

text \<open>
  Encoding the descriptions of any list of knowledge bases writes only inside the packet it
  allocated, whatever the lengths of the names are and even when the number of entries or the
  length of the data does not fit its field: the first loop never counts fewer bytes than the
  second one writes.  The same holds for the response for a single knowledge base.
\<close>

theorem kb_info_encode_in_bounds:
  assumes "\<forall>ki \<in> set kis. segments_ok ki"
  shows "\<exists>buf buf'. fsap_encode_rsp_get_kb_info_all kis = Some (buf, length buf)
    \<and> fsap_encode_rsp_get_kb_info kis = Some (buf', length buf')"
proof -
  obtain pad where p: "fsap_encode_rsp_get_kb_info_all kis = Some (header ADM_RSP_GET_KB_INFO_ALL (2 + sum_list (map kb_info_size kis))
      @ le16 (of_nat (length kis)) @ concat (map kb_info_bytes kis) @ replicate pad 0, (2 + sum_list (map kb_info_size kis)) + 6)"
      "2 + length (concat (map kb_info_bytes kis)) + pad = 2 + sum_list (map kb_info_size kis)"
    using encode_infos_packet [of kis] assms by (auto simp: list_all_iff)
  then show ?thesis by (simp add: fsap_encode_rsp_get_kb_info_def memcpy_at_def)
qed

definition example_kb :: fsa_kb_info where
  "example_kb = (fsa_kb_info_new 0)\<lparr>ki_name := [107, 98], ki_p_segments_len := 2, ki_p_segments_data := [0, 1]\<rparr>"

theorem kb_info_encode_in_bounds_witness:
  "\<exists>buf buf'. fsap_encode_rsp_get_kb_info_all [example_kb] = Some (buf, length buf)
    \<and> fsap_encode_rsp_get_kb_info [example_kb] = Some (buf', length buf')"
  by (rule kb_info_encode_in_bounds) (simp add: segments_ok_def example_kb_def)

text \<open>
  C40: Descriptions of fewer than \<open>2 ^ 16\<close> knowledge bases with names of at most 255 bytes are
  decoded from the packet they were encoded to, in the opposite order; only the address and the
  process group, which are not sent, are lost.  The response for a single knowledge base differs
  only in its response code.
\<close>

theorem kb_info_roundtrip:
  assumes "\<forall>ki \<in> set kis. segments_ok ki \<and> length (ki_name ki) \<le> 255" "length kis \<le> 65535"
  shows "\<exists>buf. fsap_encode_rsp_get_kb_info_all kis = Some (buf, length buf)
    \<and> fsap_decode_header buf = Some (Inr (of_int ADM_RSP_GET_KB_INFO_ALL, of_nat (length buf - ADM_HEADER_LEN)))
    \<and> fsap_decode_rsp_get_kb_info_all junk (drop ADM_HEADER_LEN buf) = Some (rev (map (sent_info junk) kis))
    \<and> fsap_encode_rsp_get_kb_info kis = Some (buf[3 := of_int ADM_RSP_GET_KB_INFO], length buf)"
proof -
  let ?n = "2 + sum_list (map kb_info_size kis)" and ?b = "concat (map kb_info_bytes kis)"
  obtain pad where p: "fsap_encode_rsp_get_kb_info_all kis = Some (header ADM_RSP_GET_KB_INFO_ALL ?n
      @ le16 (of_nat (length kis)) @ ?b @ replicate pad 0, ?n + 6)" "2 + length ?b + pad = ?n"
    using encode_infos_packet [of kis] assms(1) by (auto simp: list_all_iff)
  let ?buf = "header ADM_RSP_GET_KB_INFO_ALL ?n @ le16 (of_nat (length kis)) @ ?b @ replicate pad 0"
  have "fsap_decode_rsp_get_kb_info_all junk (le16 (of_nat (length kis)) @ ?b @ replicate pad 0) = Some (rev (map (sent_info junk) kis))"
    using kb_info_loop_bytes [of kis junk "replicate pad 0" "[]"] assms
    by (simp add: fsap_decode_rsp_get_kb_info_all_def list_all_iff)
  moreover have "memcpy_at ?buf 3 [of_int ADM_RSP_GET_KB_INFO] 1 = Some (?buf[3 := of_int ADM_RSP_GET_KB_INFO])"
    by (simp add: memcpy_at_def header_def upd_conv_take_nth_drop)
  moreover have l: "length ?buf = ?n + 6" using p(2) by simp
  ultimately show ?thesis
    using p(1) by (intro exI [of _ ?buf]) (simp add: fsap_encode_rsp_get_kb_info_def ADM_HEADER_LEN_def)
qed

theorem kb_info_roundtrip_witness:
  "\<exists>buf. fsap_encode_rsp_get_kb_info_all [example_kb] = Some (buf, length buf)
    \<and> fsap_decode_rsp_get_kb_info_all 7 (drop ADM_HEADER_LEN buf) = Some [example_kb\<lparr>ki_pidg := 7\<rparr>]"
  using kb_info_roundtrip [of "[example_kb]" 7]
  by (auto simp: segments_ok_def example_kb_def sent_info_def fsa_kb_info_new_def)

section \<open>Creation\<close>

lemma ksa_flags_bits:
  "(ksa_flags ks AND FSAP_KSA_MIRROR \<noteq> 0) = ks_mirror_segments ks"
  "(ksa_flags ks AND FSAP_KSA_MODEL_FILES \<noteq> 0) = ks_model_files ks"
  "(ksa_flags ks AND FSAP_KSA_DELETE_EXISTING \<noteq> 0) = ks_delete_existing ks"
  by (simp_all add: ksa_flags_def FSAP_KSA_MIRROR_def FSAP_KSA_MODEL_FILES_def FSAP_KSA_DELETE_EXISTING_def Let_def)

text \<open>
  C34: The command that creates a knowledge base is read back as it was sent: all settings and the
  three flags, with an empty name or password coming back as \<open>NULL\<close>.  A missing name and strings
  of more than 255 bytes are refused with \<open>NULL\<close>; nothing is written outside the packet.
\<close>

theorem create_kb_roundtrip:
  "if ks_name ks \<noteq> None \<and> opt_len (ks_name ks) \<le> 255 \<and> opt_len (ks_password ks) \<le> 255
   then \<exists>buf. fsap_encode_cmd_create_kb ks = Some (Some (buf, length buf))
     \<and> fsap_decode_header buf = Some (Inr (of_int ADM_CMD_CREATE_KB, of_nat (length buf - ADM_HEADER_LEN)))
     \<and> fsap_decode_cmd_create_kb (drop ADM_HEADER_LEN buf) =
         Some (ks\<lparr>ks_name := as_sent (ks_name ks), ks_password := as_sent (ks_password ks)\<rparr>)
   else fsap_encode_cmd_create_kb ks = Some None" (is "if ?ok then ?sent else ?refused")
proof (cases ?ok)
  case True
  let ?pw = "ks_password ks"
  from True obtain name where name: "ks_name ks = Some name" "length name \<le> 255" "opt_len ?pw \<le> 255"
    by (auto simp: opt_len_def)
  let ?n = "7 + (length name + opt_len ?pw)"
  let ?data = "[ks_node_id ks, ks_cluster_size ks] @ le16 (ks_num_segments ks) @ [ksa_flags ks, of_nat (length name)]
      @ name @ [of_nat (opt_len ?pw)] @ opt_bytes ?pw"
  have z: "((of_nat (opt_len ?pw) :: u8) > 0) = (opt_len ?pw > 0)" using name(3) by (simp add: word_less_nat_alt)
  have e: "fsap_encode_cmd_create_kb ks = Some (Some (header ADM_CMD_CREATE_KB ?n @ ?data, 6 + ?n))"
    using name unfolding fsap_encode_cmd_create_kb_def Let_def z init_packet_filled unat_len8 [OF name(3)]
    by (simp add: put_opt ADM_HEADER_LEN_def)
  have nm: "get_opt (length name) None (name @ rest) = Some (as_sent (Some name), rest)" for rest
    using get_opt_bytes [of "Some name" rest] by (simp add: opt_len_def opt_bytes_def)
  have d: "fsap_decode_cmd_create_kb ?data = Some (ks\<lparr>ks_name := as_sent (ks_name ks), ks_password := as_sent ?pw\<rparr>)"
    using name get_opt_bytes [of ?pw "[]"] nm
    by (simp add: fsap_decode_cmd_create_kb_def fsa_kb_setup_args_new_def ksa_flags_bits Let_def)
  have ?sent by (rule exI [of _ "header ADM_CMD_CREATE_KB ?n @ ?data"]) (use e d in \<open>simp add: ADM_HEADER_LEN_def\<close>)
  with True show ?thesis by simp
next
  case False
  then have ?refused by (cases "ks_name ks") (auto simp: fsap_encode_cmd_create_kb_def opt_len_def)
  with False show ?thesis by (simp only: if_False)
qed

section \<open>Strings and counts\<close>

text \<open>
  C32: Every command that carries a knowledge base name, and the error response, sends its code,
  the length of the string modulo \<open>2 ^ 16\<close> and the bytes of the string, all inside the packet; the
  error message is read back from its data.  Counts of at most 65535 messages and name lengths of
  at most 255 are read back as they were sent.
\<close>

theorem string_and_count_roundtrip:
  "(\<exists>buf. fsap_encode_cmd_stop_kb s force = Some (buf, length buf) \<and> drop ADM_HEADER_LEN buf = s
      \<and> fsap_decode_header buf = Some (Inr (if force then 21 else 9, of_nat (length s))))
   \<and> (\<exists>buf. fsap_encode_cmd_start_kb s = Some (buf, length buf) \<and> drop ADM_HEADER_LEN buf = s
      \<and> fsap_decode_header buf = Some (Inr (11, of_nat (length s))))
   \<and> (\<exists>buf. fsap_encode_cmd_get_kb_info s = Some (buf, length buf) \<and> drop ADM_HEADER_LEN buf = s
      \<and> fsap_decode_header buf = Some (Inr (5, of_nat (length s))))
   \<and> (\<exists>buf. fsap_encode_cmd_delete_kb s = Some (buf, length buf) \<and> drop ADM_HEADER_LEN buf = s
      \<and> fsap_decode_header buf = Some (Inr (17, of_nat (length s))))
   \<and> (\<exists>buf. fsap_encode_rsp_error s = Some (buf, length buf)
      \<and> fsap_decode_rsp_error (drop ADM_HEADER_LEN buf) (length s) = Some s
      \<and> fsap_decode_header buf = Some (Inr (255, of_nat (length s))))
   \<and> (\<exists>buf. fsap_encode_rsp_expect_n n = Some (buf, length buf)
      \<and> fsap_decode_rsp_expect_n (drop ADM_HEADER_LEN buf) = Some (n mod 65536))
   \<and> (\<exists>buf. fsap_encode_rsp_expect_n_kb n m = Some (buf, length buf)
      \<and> fsap_decode_rsp_expect_n_kb (drop ADM_HEADER_LEN buf) = Some (n mod 65536, m mod 256))"
proof (intro conjI)
  note packet = init_packet_filled drop_header decode_header_header
  note eval = ADM_HEADER_LEN_def add.commute unsigned_of_int take_bit_eq_mod
  show "\<exists>buf. fsap_encode_cmd_stop_kb s force = Some (buf, length buf) \<and> drop ADM_HEADER_LEN buf = s
      \<and> fsap_decode_header buf = Some (Inr (if force then 21 else 9, of_nat (length s)))"
    by (auto simp: fsap_encode_cmd_stop_kb_def Let_def packet ADM_CMD_FSTOP_KB_def ADM_CMD_STOP_KB_def) (auto simp: eval)
  show "\<exists>buf. fsap_encode_cmd_start_kb s = Some (buf, length buf) \<and> drop ADM_HEADER_LEN buf = s
      \<and> fsap_decode_header buf = Some (Inr (11, of_nat (length s)))"
    by (auto simp: fsap_encode_cmd_start_kb_def Let_def packet ADM_CMD_START_KB_def) (auto simp: eval)
  show "\<exists>buf. fsap_encode_cmd_get_kb_info s = Some (buf, length buf) \<and> drop ADM_HEADER_LEN buf = s
      \<and> fsap_decode_header buf = Some (Inr (5, of_nat (length s)))"
    by (auto simp: fsap_encode_cmd_get_kb_info_def Let_def packet ADM_CMD_GET_KB_INFO_def) (auto simp: eval)
  show "\<exists>buf. fsap_encode_cmd_delete_kb s = Some (buf, length buf) \<and> drop ADM_HEADER_LEN buf = s
      \<and> fsap_decode_header buf = Some (Inr (17, of_nat (length s)))"
    by (auto simp: fsap_encode_cmd_delete_kb_def Let_def packet ADM_CMD_DELETE_KB_def) (auto simp: eval)
  show "\<exists>buf. fsap_encode_rsp_error s = Some (buf, length buf)
      \<and> fsap_decode_rsp_error (drop ADM_HEADER_LEN buf) (length s) = Some s
      \<and> fsap_decode_header buf = Some (Inr (255, of_nat (length s)))"
    by (auto simp: fsap_encode_rsp_error_def fsap_decode_rsp_error_def get_bytes_def Let_def packet ADM_RSP_ERROR_def) (auto simp: eval)
  show "\<exists>buf. fsap_encode_rsp_expect_n n = Some (buf, length buf)
      \<and> fsap_decode_rsp_expect_n (drop ADM_HEADER_LEN buf) = Some (n mod 65536)"
    using get16_le16 [of "of_int n" "[]"]
    by (auto simp: fsap_encode_rsp_expect_n_def fsap_decode_rsp_expect_n_def packet) (auto simp: eval)
  show "\<exists>buf. fsap_encode_rsp_expect_n_kb n m = Some (buf, length buf)
      \<and> fsap_decode_rsp_expect_n_kb (drop ADM_HEADER_LEN buf) = Some (n mod 65536, m mod 256)"
    by (auto simp: fsap_encode_rsp_expect_n_kb_def fsap_decode_rsp_expect_n_kb_def packet) (auto simp: eval)
qed

end
