(* ===== verification/AdminCommon.thy ===== *)
theory AdminCommon
  imports AdminProtocol CQsort
begin

text \<open>
  Shared helpers of the administration tools (\<open>admin/admin_common.c\<close>): the checks of numbers and
  of knowledge base names, and the bottom-up merge sort of the linked list of descriptions.  The
  list behind a pointer is a list; the sort only redirects the \<open>next\<close> pointer of elements it
  has already moved to its output, so the lists behind \<open>p\<close> and \<open>q\<close> stay what they were.
\<close>

section \<open>Checks\<close>

definition fsa_is_int :: "bytes \<Rightarrow> bool" where
  "fsa_is_int str = (if length str = 0 then False else list_all (\<lambda>c. \<not> (c < 48 \<or> c > 57)) str)"

text \<open>The letters, the digits and the underscore.\<close>

definition FS_LEGAL_KB_CHARS :: bytes where
  "FS_LEGAL_KB_CHARS = map of_nat ([97..<123] @ [65..<91] @ [48..<58] @ [95])"

text \<open>\<open>strchr\<close> also finds the terminator of its first argument, but no byte of a C string is 0.\<close>

definition fsa_is_valid_kb_name :: "bytes option \<Rightarrow> bool" where
  "fsa_is_valid_kb_name name =
     (case name of None \<Rightarrow> False | Some s \<Rightarrow> list_all (\<lambda>c. c = 0 \<or> c \<in> set FS_LEGAL_KB_CHARS) s)"

definition fsa_kb_info_status_to_string :: "int \<Rightarrow> string" where
  "fsa_kb_info_status_to_string status =
     (if status = 1 then ''running'' else if status = 2 then ''stopped'' else ''unknown'')"

section \<open>Comparison\<close>

text \<open>\<open>strcmp\<close> compares unsigned bytes up to the first difference or the terminator.\<close>

fun strcmp :: "bytes \<Rightarrow> bytes \<Rightarrow> int" where
  "strcmp [] [] = 0"
| "strcmp [] (b # bs) = - uint b"
| "strcmp (a # as) [] = uint a"
| "strcmp (a # as) (b # bs) = (if a \<noteq> b then uint a - uint b else if a = 0 then 0 else strcmp as bs)"

definition kb_info_compare_name :: "fsa_kb_info \<Rightarrow> fsa_kb_info \<Rightarrow> int" where
  "kb_info_compare_name a b = strcmp (ki_name a) (ki_name b)"

definition kb_info_compare_port :: "fsa_kb_info \<Rightarrow> fsa_kb_info \<Rightarrow> int" where
  "kb_info_compare_port a b = uint (ki_port a) - uint (ki_port b)"

definition kb_info_compare_status :: "fsa_kb_info \<Rightarrow> fsa_kb_info \<Rightarrow> int" where
  "kb_info_compare_status a b = uint (ki_status a) - uint (ki_status b)"

definition KB_SORT_BY_PORT :: int where "KB_SORT_BY_PORT = 1"
definition KB_SORT_BY_STATUS :: int where "KB_SORT_BY_STATUS = 2"

definition kb_compare :: "int \<Rightarrow> fsa_kb_info \<Rightarrow> fsa_kb_info \<Rightarrow> int" where
  "kb_compare sort_type =
     (if sort_type = KB_SORT_BY_STATUS then kb_info_compare_status
      else if sort_type = KB_SORT_BY_PORT then kb_info_compare_port
      else kb_info_compare_name)"

section \<open>The merge sort\<close>

text \<open>The loop that steps \<open>insize\<close> places along from \<open>p\<close>.\<close>

fun kb_step :: "nat \<Rightarrow> 'a list \<Rightarrow> nat \<Rightarrow> 'a list \<times> nat" where
  "kb_step 0 q psize = (q, psize)"
| "kb_step (Suc i) q psize = (if tl q = [] then (tl q, psize + 1) else kb_step i (tl q) (psize + 1))"

text \<open>The loop that merges the two runs behind \<open>p\<close> and \<open>q\<close> to the end of the output.\<close>

function kb_merge :: "('a \<Rightarrow> 'a \<Rightarrow> int) \<Rightarrow> 'a list \<Rightarrow> nat \<Rightarrow> 'a list \<Rightarrow> nat \<Rightarrow> 'a list \<Rightarrow> 'a list \<times> 'a list" where
  "kb_merge compare p psize q qsize out =
     (if psize > 0 \<or> (qsize > 0 \<and> q \<noteq> []) then
        if psize = 0 then kb_merge compare p psize (tl q) (qsize - 1) (out @ [hd q])
        else if qsize = 0 \<or> q = [] then kb_merge compare (tl p) (psize - 1) q qsize (out @ [hd p])
        else if compare (hd p) (hd q) \<le> 0 then kb_merge compare (tl p) (psize - 1) q qsize (out @ [hd p])
        else kb_merge compare p psize (tl q) (qsize - 1) (out @ [hd q])
      else (out, q))"
  by pat_completeness auto
termination
  by (relation "measure (\<lambda>(_, _, psize, _, qsize, _). psize + qsize)") auto

declare kb_merge.simps [simp del]

lemma kb_step_take: "insize > 0 \<Longrightarrow> q \<noteq> [] \<Longrightarrow> kb_step insize q n = (drop insize q, n + min insize (length q))"
proof (induction insize q n rule: kb_step.induct)
  case (2 i q psize)
  then show ?case by (cases q; cases i) auto
qed simp

text \<open>What is left behind \<open>q\<close> is a part of it.\<close>

lemma kb_merge_rest: "\<exists>k. snd (kb_merge compare p psize q qsize out) = drop k q"
proof (induction compare p psize q qsize out rule: kb_merge.induct)
  case (1 compare p psize q qsize out)
  have t: "\<exists>k. xs = drop k (tl q) \<Longrightarrow> \<exists>k. xs = drop k q" for xs by (metis drop_Suc)
  show ?case
    using 1 t by (subst kb_merge.simps) (auto intro: exI [of _ 0])
qed

text \<open>One pass over the list; \<open>insize\<close> is never 0 in the code.\<close>

function kb_pass :: "('a \<Rightarrow> 'a \<Rightarrow> int) \<Rightarrow> nat \<Rightarrow> 'a list \<Rightarrow> 'a list \<Rightarrow> nat \<Rightarrow> 'a list \<times> nat" where
  "kb_pass compare insize p out nmerges =
     (if p \<noteq> [] \<and> insize > 0 then
        let (q, psize) = kb_step insize p 0;
            (out, q) = kb_merge compare p psize q insize out
        in kb_pass compare insize q out (nmerges + 1)
      else (out, nmerges))"
  by pat_completeness auto
termination
proof (relation "measure (\<lambda>(_, _, p, _, _). length p)")
  fix compare :: "'a \<Rightarrow> 'a \<Rightarrow> int" and insize nmerges psize :: nat and p out q out' q' :: "'a list" and x y
  assume "p \<noteq> [] \<and> 0 < insize" "x = kb_step insize p 0" "(q, psize) = x"
    "y = kb_merge compare p psize q insize out" "(out', q') = y"
  then show "((compare, insize, q', out', nmerges + 1), (compare, insize, p, out, nmerges)) \<in> measure (\<lambda>(_, _, p, _, _). length p)"
    using kb_merge_rest [of compare p psize q insize out] by (auto simp: kb_step_take dest: sym)
qed simp

declare kb_pass.simps [simp del]

lemma kb_merge_length:
  "psize \<le> length p \<Longrightarrow> (case kb_merge compare p psize q qsize out of (out', q') \<Rightarrow> length out' + length q') = length out + psize + length q"
proof (induction compare p psize q qsize out rule: kb_merge.induct)
  case (1 compare p psize q qsize out)
  then show ?case by (subst kb_merge.simps) (auto simp: length_greater_0_conv [symmetric] simp del: length_greater_0_conv)
qed

lemma kb_pass_length: "insize > 0 \<Longrightarrow> length (fst (kb_pass compare insize p out n)) = length out + length p"
proof (induction compare insize p out n rule: kb_pass.induct)
  case (1 compare insize p out n)
  obtain out' q' where m: "kb_merge compare p (min insize (length p)) (drop insize p) insize out = (out', q')" by fastforce
  show ?case
  proof (cases "p = []")
    case False
    have "length out' + length q' = length out + length p"
      using kb_merge_length [of "min insize (length p)" p compare "drop insize p" insize out] m by (simp add: min_def split: if_splits)
    with False 1 m show ?thesis by (subst kb_pass.simps) (simp add: kb_step_take)
  qed (simp add: kb_pass.simps)
qed

lemma kb_pass_Nil [simp]: "kb_pass compare insize [] out n = (out, n)"
  by (simp add: kb_pass.simps)

lemma kb_pass_count: "n \<le> snd (kb_pass compare insize p out n)"
proof (induction compare insize p out n rule: kb_pass.induct)
  case (1 compare insize p out n)
  then show ?case by (subst kb_pass.simps) (fastforce split: prod.split)
qed

lemma kb_pass_single:
  assumes "length p \<le> insize" "insize > 0"
  shows "snd (kb_pass compare insize p out n) \<le> n + 1"
proof (cases "p = []")
  case False
  obtain out' q' where m: "kb_merge compare p (length p) [] insize out = (out', q')" by fastforce
  then have "q' = []" using kb_merge_rest [of compare p "length p" "[]" insize out] by simp
  moreover have "min insize (length p) = length p" using assms(1) by simp
  ultimately show ?thesis using m False assms by (subst kb_pass.simps) (simp add: kb_step_take)
qed simp

function kb_sort_loop :: "('a \<Rightarrow> 'a \<Rightarrow> int) \<Rightarrow> nat \<Rightarrow> 'a list \<Rightarrow> 'a list" where
  "kb_sort_loop compare insize list =
     (let (list, nmerges) = kb_pass compare insize list [] 0
      in if nmerges \<le> 1 then list else kb_sort_loop compare (insize * 2) list)"
  by pat_completeness auto
termination
proof (relation "measure (\<lambda>(_, insize, list). length list - insize)")
  fix compare :: "'a \<Rightarrow> 'a \<Rightarrow> int" and insize n :: nat and l l' :: "'a list" and x
  assume x: "x = kb_pass compare insize l [] 0" "(l', n) = x" "\<not> n \<le> 1"
  have "insize > 0"
  proof (rule ccontr)
    assume "\<not> insize > 0"
    then have "kb_pass compare insize l [] 0 = ([], 0)" by (simp add: kb_pass.simps)
    with x show False by simp
  qed
  with x show "((compare, insize * 2, l'), (compare, insize, l)) \<in> measure (\<lambda>(_, insize, list). length list - insize)"
    using kb_pass_length [of insize compare l "[]" 0] kb_pass_single [of l insize compare "[]" 0]
    by (cases "length l \<le> insize") (auto simp: prod_eq_iff)
qed simp

declare kb_sort_loop.simps [simp del]

definition fsa_kb_info_sort :: "fsa_kb_info list \<Rightarrow> int \<Rightarrow> fsa_kb_info list" where
  "fsa_kb_info_sort list sort_type = (if list = [] then [] else kb_sort_loop (kb_compare sort_type) 1 list)"

section \<open>The result of the sort\<close>

text \<open>The stable merge of two sorted lists.\<close>

fun smerge :: "('a \<Rightarrow> 'a \<Rightarrow> int) \<Rightarrow> 'a list \<Rightarrow> 'a list \<Rightarrow> 'a list" where
  "smerge cmp [] ys = ys"
| "smerge cmp xs [] = xs"
| "smerge cmp (x # xs) (y # ys) = (if cmp x y \<le> 0 then x # smerge cmp xs (y # ys) else y # smerge cmp (x # xs) ys)"

lemma smerge_Nil2 [simp]: "smerge cmp xs [] = xs"
  by (cases xs) simp_all

lemma kb_merge_smerge:
  "length b \<le> m \<Longrightarrow> length b = m \<or> r = [] \<Longrightarrow>
   kb_merge cmp (a @ rst) (length a) (b @ r) m out = (out @ smerge cmp a b, r)"
proof (induction cmp a b arbitrary: rst m out rule: smerge.induct)
  case (1 cmp ys)
  then show ?case
  proof (induction ys arbitrary: m out)
    case Nil
    then show ?case by (subst kb_merge.simps) auto
  next
    case (Cons y ys)
    then show ?case using Cons.IH [of "m - 1" "out @ [y]"] by (subst kb_merge.simps) auto
  qed
next
  case (2 cmp x xs)
  have "kb_merge cmp (zs @ rst) (length zs) r m out = (out @ zs, r)" for zs out
  proof (induction zs arbitrary: out)
    case Nil
    then show ?case using 2 by (subst kb_merge.simps) auto
  next
    case (Cons z zs)
    then show ?case using 2 by (subst kb_merge.simps) auto
  qed
  from this [of "x # xs"] show ?case using 2 by simp
next
  case (3 cmp x xs y ys)
  then show ?case
    using 3(1) [where m = m and out = "out @ [x]" and rst = rst] 3(2) [where m = "m - 1" and out = "out @ [y]" and rst = rst]
    by (subst kb_merge.simps) auto
qed

context comparator
begin

lemma insert_smerge:
  "qsorted cmp a \<Longrightarrow> qsorted cmp b \<Longrightarrow> qsort_insert cmp x (smerge cmp a b) = smerge cmp (qsort_insert cmp x a) b"
proof (induction a arbitrary: b)
  case Nil
  then show ?case
  proof (induction b)
    case (Cons y b)
    then show ?case by (cases "cmp x y \<le> 0") auto
  qed simp
next
  case (Cons u a)
  note outer = Cons.IH and u = Cons.prems(1)
  from Cons.prems(2) show ?case
  proof (induction b)
    case (Cons v b)
    have IH: "qsort_insert cmp x (smerge cmp (u # a) b) = smerge cmp (qsort_insert cmp x (u # a)) b"
      using Cons by simp
    have o: "qsort_insert cmp x (smerge cmp a (v # b)) = smerge cmp (qsort_insert cmp x a) (v # b)"
      using outer [of "v # b"] u Cons.prems by simp
    show ?case
    proof (cases "cmp x u \<le> 0")
      case True
      have "cmp u v \<le> 0 \<Longrightarrow> cmp x v \<le> 0" using True by (rule cmp_trans)
      with True IH show ?thesis by auto
    next
      case False
      have "cmp x v \<le> 0 \<Longrightarrow> cmp u v \<le> 0" using False cmp_total [of u v] cmp_trans [of x v u] by blast
      with False IH o show ?thesis by auto
    qed
  qed simp
qed

lemma qsort_append: "qsort cmp (xs @ ys) = smerge cmp (qsort cmp xs) (qsort cmp ys)"
proof (induction xs)
  case (Cons x xs)
  then show ?case using insert_smerge [OF qsorted_qsort qsorted_qsort] by (simp add: qsort_def)
qed (simp add: qsort_def)

end

text \<open>The list after the passes with runs of \<open>k\<close> elements: each run is sorted.\<close>

function runs :: "('a \<Rightarrow> 'a \<Rightarrow> int) \<Rightarrow> nat \<Rightarrow> 'a list \<Rightarrow> 'a list" where
  "runs cmp k xs = (if xs = [] \<or> k = 0 then xs else qsort cmp (take k xs) @ runs cmp k (drop k xs))"
  by pat_completeness auto
termination
  by (relation "measure (\<lambda>(_, _, xs). length xs)") auto

declare runs.simps [simp del]

lemma runs_Nil [simp]: "runs cmp k [] = []"
  by (simp add: runs.simps)

lemma runs_step: "xs \<noteq> [] \<Longrightarrow> k > 0 \<Longrightarrow> runs cmp k xs = qsort cmp (take k xs) @ runs cmp k (drop k xs)"
  by (subst runs.simps) simp

lemma runs_1: "runs cmp 1 xs = xs"
proof (induction xs)
  case (Cons x xs)
  then show ?case by (subst runs_step) (simp_all add: qsort_def)
qed simp

lemma runs_single: "length xs \<le> k \<Longrightarrow> k > 0 \<Longrightarrow> runs cmp k xs = qsort cmp xs"
  by (cases "xs = []") (simp_all add: runs_step qsort_def)

lemma length_runs [simp]: "length (runs cmp k xs) = length xs"
proof (induction cmp k xs rule: runs.induct)
  case (1 cmp k xs)
  then show ?case by (subst runs.simps) (auto simp: min_def)
qed

lemma runs_empty_iff [simp]: "runs cmp k xs = [] \<longleftrightarrow> xs = []"
  by (metis length_0_conv length_runs)

lemma qsort_Nil: "qsort cmp [] = []"
  by (simp add: qsort_def)

context comparator
begin

lemma kb_pass_step:
  assumes "xs \<noteq> []" "k > 0"
  shows "kb_pass cmp k (runs cmp k xs) out n = kb_pass cmp k (runs cmp k (drop (2 * k) xs)) (out @ qsort cmp (take (2 * k) xs)) (n + 1)"
proof -
  let ?a = "qsort cmp (take k xs)" and ?b = "qsort cmp (take k (drop k xs))" and ?r = "runs cmp k (drop (2 * k) xs)"
  have q: "runs cmp k (drop k xs) = ?b @ ?r"
    using assms(2) runs_step [of "drop k xs" k cmp] by (cases "drop k xs = []") (auto simp: qsort_def mult_2)
  then have p: "runs cmp k xs = ?a @ ?b @ ?r" using runs_step [OF assms] by simp
  have "drop k (runs cmp k xs) = ?b @ ?r"
    unfolding runs_step [OF assms] q by (cases "k \<le> length xs") (simp_all add: qsort_Nil)
  moreover have "min k (length (runs cmp k xs)) = length ?a" by (simp add: min.commute)
  ultimately have step: "kb_step k (runs cmp k xs) 0 = (?b @ ?r, length ?a)" using assms by (simp add: kb_step_take)
  have "length ?b = k \<or> ?r = []" by (auto simp: min_def)
  then have merge: "kb_merge cmp (runs cmp k xs) (length ?a) (?b @ ?r) k out = (out @ smerge cmp ?a ?b, ?r)"
    unfolding p by (intro kb_merge_smerge) simp_all
  have "smerge cmp ?a ?b = qsort cmp (take (2 * k) xs)"
    using qsort_append [of "take k xs" "take k (drop k xs)"] by (simp add: mult_2 take_add)
  then show ?thesis using assms by (subst kb_pass.simps) (simp add: step merge [unfolded length_qsort length_take])
qed

lemma kb_pass_runs: "k > 0 \<Longrightarrow> fst (kb_pass cmp k (runs cmp k xs) out n) = out @ runs cmp (2 * k) xs"
proof (induction "length xs" arbitrary: xs out n rule: less_induct)
  case less
  then show ?case
    using kb_pass_step [of xs k out n] runs_step [of xs "2 * k" cmp] by (cases "xs = []") simp_all
qed

lemma kb_pass_many:
  assumes "k > 0" "2 * k < length xs"
  shows "n + 2 \<le> snd (kb_pass cmp k (runs cmp k xs) out n)"
proof -
  have "xs \<noteq> []" "drop (2 * k) xs \<noteq> []" using assms by auto
  then show ?thesis using kb_pass_step [of _ k] kb_pass_count [of "n + 2" cmp k] assms(1) by (metis Suc_1 add_Suc_right add_Suc_shift Suc_eq_plus1)
qed

lemma kb_sort_loop_runs: "k > 0 \<Longrightarrow> kb_sort_loop cmp k (runs cmp k xs) = qsort cmp xs"
proof (induction "length xs - k" arbitrary: k rule: less_induct)
  case less
  obtain l n where p: "kb_pass cmp k (runs cmp k xs) [] 0 = (l, n)" by fastforce
  then have l: "l = runs cmp (2 * k) xs" using kb_pass_runs [OF less.prems, of xs "[]" 0] by simp
  show ?case
  proof (cases "n \<le> 1")
    case True
    have "length xs \<le> 2 * k"
    proof (rule ccontr)
      assume "\<not> length xs \<le> 2 * k"
      then have "n \<ge> 2" using kb_pass_many [of k xs 0 "[]"] less.prems p by simp
      with True show False by simp
    qed
    then show ?thesis using True p l less.prems by (subst kb_sort_loop.simps) (simp add: runs_single)
  next
    case False
    then have "k < length xs" using kb_pass_single [of "runs cmp k xs" k cmp "[]" 0] less.prems p by force
    then show ?thesis
      using False p l less.prems less.hyps [of "2 * k"] by (subst kb_sort_loop.simps) (simp add: mult.commute)
  qed
qed

end

text \<open>The comparisons are total preorders.\<close>

lemma strcmp_trans: "strcmp a b \<le> 0 \<Longrightarrow> strcmp b c \<le> 0 \<Longrightarrow> strcmp a c \<le> 0"
proof (induction a c arbitrary: b rule: strcmp.induct)
  case (2 c cs)
  then show ?case by simp
next
  case (3 a as)
  then show ?case by (cases b) (auto split: if_splits)
next
  case (4 a as c cs)
  then show ?case by (cases b) (auto simp: word_uint_eq_iff split: if_splits)
qed simp

lemma strcmp_total: "strcmp a b \<le> 0 \<or> strcmp b a \<le> 0"
  by (induction a b rule: strcmp.induct) auto

interpretation kbs: comparator "kb_compare sort_type"
proof
  fix a b c :: fsa_kb_info
  show "kb_compare sort_type a b \<le> 0 \<or> kb_compare sort_type b a \<le> 0"
    using strcmp_total by (auto simp: kb_compare_def kb_info_compare_name_def kb_info_compare_port_def kb_info_compare_status_def)
  show "kb_compare sort_type a b \<le> 0 \<Longrightarrow> kb_compare sort_type b c \<le> 0 \<Longrightarrow> kb_compare sort_type a c \<le> 0"
    using strcmp_trans by (auto simp: kb_compare_def kb_info_compare_name_def kb_info_compare_port_def kb_info_compare_status_def)
qed

text \<open>
  C39: The bottom-up merge sort of the descriptions ends and returns the same list as a stable
  insertion sort with the comparison that was asked for: a permutation of the list in which no
  element compares greater than a later one and equal elements keep their order.
\<close>

theorem fsa_kb_info_sort_stable:
  "fsa_kb_info_sort kis sort_type = qsort (kb_compare sort_type) kis
    \<and> mset (fsa_kb_info_sort kis sort_type) = mset kis \<and> qsorted (kb_compare sort_type) (fsa_kb_info_sort kis sort_type)"
proof -
  have "fsa_kb_info_sort kis sort_type = qsort (kb_compare sort_type) kis"
    using kbs.kb_sort_loop_runs [of 1 sort_type kis] runs_1 [of "kb_compare sort_type" kis]
    by (simp add: fsa_kb_info_sort_def qsort_def)
  then show ?thesis by (simp add: kbs.qsorted_qsort)
qed

end
