(* ===== verification/Arena.thy ===== *)
theory Arena
  imports Prelude
begin

text \<open>
  Record arenas with a free list.  The rows of a ptable, the blocks of a tbchain and the
  leaves of a ptree live in arrays whose records carry a numeric link; the unused ones
  hang on a free list, and each owner (a leaf, a model, a tree) holds the number of the
  first record of its chain.  \<open>arena_rep nxt free lim fs Ch\<close> says what the links mean:
  \<open>fs\<close> is the free list, \<open>Ch k\<close> the records of owner \<open>k\<close> in chain order, all of them below
  the limit \<open>lim\<close>, and no record occurs twice anywhere.
\<close>

definition head_of :: "nat list \<Rightarrow> nat" where
  "head_of xs = (case xs of [] \<Rightarrow> 0 | x # _ \<Rightarrow> x)"

lemma head_of_simps [simp]: "head_of [] = 0" "head_of (x # xs) = x"
  by (simp_all add: head_of_def)

definition arena_rep ::
  "(nat \<Rightarrow> nat) \<Rightarrow> nat \<Rightarrow> nat \<Rightarrow> nat list \<Rightarrow> ('k \<rightharpoonup> nat list) \<Rightarrow> bool" where
  "arena_rep nxt free lim fs Ch \<longleftrightarrow>
     linked nxt free fs \<and> (\<forall>i \<in> set fs. i < lim) \<and>
     (\<forall>k ids. Ch k = Some ids \<longrightarrow>
        linked nxt (head_of ids) ids \<and> (\<forall>i \<in> set ids. i < lim \<and> i \<notin> set fs)) \<and>
     (\<forall>k k' ids ids'. Ch k = Some ids \<longrightarrow> Ch k' = Some ids' \<longrightarrow> k \<noteq> k' \<longrightarrow> set ids \<inter> set ids' = {})"

lemma arena_free: "arena_rep nxt free lim fs Ch \<Longrightarrow> linked nxt free fs"
  by (simp add: arena_rep_def)

lemma arena_free_less: "arena_rep nxt free lim fs Ch \<Longrightarrow> i \<in> set fs \<Longrightarrow> i < lim"
  by (simp add: arena_rep_def)

lemma arena_chain: "arena_rep nxt free lim fs Ch \<Longrightarrow> Ch k = Some ids \<Longrightarrow> linked nxt (head_of ids) ids"
  by (simp add: arena_rep_def)

lemma arena_chain_less: "arena_rep nxt free lim fs Ch \<Longrightarrow> Ch k = Some ids \<Longrightarrow> i \<in> set ids \<Longrightarrow> i < lim"
  by (simp add: arena_rep_def)

lemma arena_chain_not_free:
  "arena_rep nxt free lim fs Ch \<Longrightarrow> Ch k = Some ids \<Longrightarrow> i \<in> set ids \<Longrightarrow> i \<notin> set fs"
  by (simp add: arena_rep_def)

lemma arena_chain_distinct: "arena_rep nxt free lim fs Ch \<Longrightarrow> Ch k = Some ids \<Longrightarrow> distinct ids"
  using arena_chain linked_distinct by metis

lemma arena_disjoint:
  "arena_rep nxt free lim fs Ch \<Longrightarrow> Ch k = Some ids \<Longrightarrow> Ch k' = Some ids' \<Longrightarrow> k \<noteq> k' \<Longrightarrow>
   i \<in> set ids \<Longrightarrow> i \<notin> set ids'"
  unfolding arena_rep_def by blast

lemma arena_free_distinct: "arena_rep nxt free lim fs Ch \<Longrightarrow> distinct fs"
  using arena_free linked_distinct by metis

lemmas arena_facts = arena_free arena_free_less arena_chain arena_chain_less
  arena_chain_not_free arena_chain_distinct arena_disjoint arena_free_distinct

lemma linked_head: "linked nxt b xs \<Longrightarrow> b = head_of xs"
  by (cases xs) auto

lemma arena_empty: "arena_rep nxt 0 lim [] Map.empty"
  by (simp add: arena_rep_def)

lemma arena_new_owner: "arena_rep nxt free lim fs Ch \<Longrightarrow> Ch k = None \<Longrightarrow> arena_rep nxt free lim fs (Ch(k \<mapsto> []))"
  by (auto simp: arena_rep_def split: if_splits)

lemma arena_drop_owner: "arena_rep nxt free lim fs Ch \<Longrightarrow> arena_rep nxt free lim fs (Ch(k := None))"
  by (auto simp: arena_rep_def split: if_splits)

lemma arena_lim_mono: "arena_rep nxt free lim fs Ch \<Longrightarrow> lim \<le> lim' \<Longrightarrow> arena_rep nxt free lim' fs Ch"
  by (force simp: arena_rep_def)

lemma arena_cong:
  assumes rep: "arena_rep nxt free lim fs Ch" and eq: "\<And>i. i \<noteq> 0 \<Longrightarrow> i < lim \<Longrightarrow> nxt' i = nxt i"
  shows "arena_rep nxt' free lim fs Ch"
proof -
  have "linked nxt' b xs" if "linked nxt b xs" "\<forall>i \<in> set xs. i < lim" for b xs
    using that linked_nonzero [OF that(1)] eq by (auto intro: linked_cong)
  then show ?thesis using rep by (auto simp: arena_rep_def)
qed

text \<open>The introduction rule the operations share: one owner's chain changes.\<close>

lemma arena_updI:
  assumes rep: "arena_rep nxt free lim fs Ch"
    and free: "linked nxt' free' fs'" "\<forall>i \<in> set fs'. i < lim'"
    and chain: "linked nxt' (head_of ids) ids" "\<forall>i \<in> set ids. i < lim' \<and> i \<notin> set fs'"
    and lim: "lim \<le> lim'"
    and other: "\<And>j js. j \<noteq> k \<Longrightarrow> Ch j = Some js \<Longrightarrow>
      (\<forall>i \<in> set js. nxt' i = nxt i \<and> i \<notin> set fs' \<and> i \<notin> set ids)"
  shows "arena_rep nxt' free' lim' fs' (Ch(k \<mapsto> ids))"
proof -
  have l: "linked nxt' (head_of js) js" if "j \<noteq> k" "Ch j = Some js" for j js
    using arena_chain [OF rep that(2)] other [OF that] by (auto intro: linked_cong)
  have m: "i < lim'" if "Ch j = Some js" "i \<in> set js" for i j js
    using arena_chain_less [OF rep that] lim by simp
  have d: "set js \<inter> set js' = {}" if "Ch j = Some js" "Ch j' = Some js'" "j \<noteq> j'" for j j' js js'
    using rep that unfolding arena_rep_def by blast
  show ?thesis
    unfolding arena_rep_def using free chain l m d other by (auto split: if_splits)
qed

lemma arena_pop:
  assumes rep: "arena_rep nxt free lim (f # fs) Ch" and k: "Ch k = Some ids"
  shows "arena_rep (nxt(f := head_of ids)) (nxt f) lim fs (Ch(k \<mapsto> f # ids))"
proof -
  have f: "f \<noteq> 0" "linked nxt (nxt f) fs" "f \<notin> set fs" "f < lim"
    using arena_free [OF rep] arena_free_distinct [OF rep] arena_free_less [OF rep] by auto
  have notin: "f \<notin> set js" if "Ch j = Some js" for j js
    using arena_chain_not_free [OF rep that] by auto
  show ?thesis
  proof (rule arena_updI [OF rep])
    show "linked (nxt(f := head_of ids)) (nxt f) fs" using f by (simp add: linked_upd)
    show "linked (nxt(f := head_of ids)) (head_of (f # ids)) (f # ids)"
      using f arena_chain [OF rep k] notin [OF k] by (simp add: linked_upd)
    fix j js assume "j \<noteq> k" "Ch j = Some js"
    then show "\<forall>i \<in> set js. (nxt(f := head_of ids)) i = nxt i \<and> i \<notin> set fs \<and> i \<notin> set (f # ids)"
      using notin arena_disjoint [OF rep _ k] arena_chain_not_free [OF rep] by auto
  qed (use f arena_free_less [OF rep] arena_chain_less [OF rep k] arena_chain_not_free [OF rep k] in auto)
qed

lemma arena_fresh:
  assumes rep: "arena_rep nxt free lim fs Ch" and k: "Ch k = Some ids"
    and n: "lim \<le> n" "n < lim'" "n \<noteq> 0"
  shows "arena_rep (nxt(n := head_of ids)) free lim' fs (Ch(k \<mapsto> n # ids))"
proof -
  have notin: "n \<notin> set js" if "Ch j = Some js" for j js
    using arena_chain_less [OF rep that] n(1) by fastforce
  have nf: "n \<notin> set fs" using arena_free_less [OF rep] n(1) by fastforce
  show ?thesis
  proof (rule arena_updI [OF rep])
    show "linked (nxt(n := head_of ids)) free fs"
      using nf arena_free [OF rep] by (simp add: linked_upd)
    show "linked (nxt(n := head_of ids)) (head_of (n # ids)) (n # ids)"
      using n arena_chain [OF rep k] notin [OF k] by (simp add: linked_upd)
    show "\<forall>i \<in> set fs. i < lim'" "lim \<le> lim'" using arena_free_less [OF rep] n by fastforce+
    show "\<forall>i \<in> set (n # ids). i < lim' \<and> i \<notin> set fs"
      using arena_chain_less [OF rep k] arena_chain_not_free [OF rep k] nf n by fastforce
    fix j js assume "j \<noteq> k" "Ch j = Some js"
    then show "\<forall>i \<in> set js. (nxt(n := head_of ids)) i = nxt i \<and> i \<notin> set fs \<and> i \<notin> set (n # ids)"
      using notin arena_disjoint [OF rep _ k] arena_chain_not_free [OF rep] by auto
  qed
qed

lemma linked_unlink:
  "linked nxt b (ds @ x # rest) \<Longrightarrow> ds \<noteq> [] \<Longrightarrow> distinct (ds @ x # rest) \<Longrightarrow>
   linked (nxt(last ds := nxt x)) b (ds @ rest)"
proof (induction ds arbitrary: b)
  case (Cons d ds)
  show ?case
  proof (cases "ds = []")
    case True
    with Cons.prems have "linked (nxt(d := nxt x)) (nxt x) rest" by (auto simp: linked_upd simp del: fun_upd_apply)
    with True Cons.prems show ?thesis by (simp add: fun_upd_def)
  next
    case False
    then have "d \<noteq> last ds" using Cons.prems(3) by auto
    with Cons False show ?thesis by auto
  qed
qed simp

text \<open>
  Removing the record \<open>x\<close> after the prefix \<open>ds\<close> of a chain: the record before it, if any,
  is linked past it, and \<open>x\<close> is pushed on the free list.
\<close>

definition unlink_nxt :: "(nat \<Rightarrow> nat) \<Rightarrow> nat \<Rightarrow> nat list \<Rightarrow> nat \<Rightarrow> nat \<Rightarrow> nat" where
  "unlink_nxt nxt free ds x =
     (if ds = [] then nxt(x := free) else nxt(last ds := nxt x, x := free))"

lemma arena_unlink:
  assumes rep: "arena_rep nxt free lim fs Ch" and k: "Ch k = Some (ds @ x # rest)"
  shows "arena_rep (unlink_nxt nxt free ds x) x lim (x # fs) (Ch(k \<mapsto> ds @ rest))"
proof -
  note dist = arena_chain_distinct [OF rep k]
  have chain: "linked nxt (head_of (ds @ x # rest)) (ds @ x # rest)" using arena_chain [OF rep k] .
  have x: "x \<noteq> 0" "x < lim" "x \<notin> set fs"
    using linked_nonzero [OF chain] arena_chain_less [OF rep k] arena_chain_not_free [OF rep k] by auto
  have nf: "ds \<noteq> [] \<Longrightarrow> last ds \<notin> set fs" using arena_chain_not_free [OF rep k] by auto
  show ?thesis
  proof (rule arena_updI [OF rep])
    show "linked (unlink_nxt nxt free ds x) x (x # fs)"
      using x nf arena_free [OF rep] by (auto simp: unlink_nxt_def linked_upd)
    show "\<forall>i \<in> set (x # fs). i < lim" using x arena_free_less [OF rep] by auto
    show "linked (unlink_nxt nxt free ds x) (head_of (ds @ rest)) (ds @ rest)"
    proof (cases "ds = []")
      case True
      with chain dist have "linked nxt (nxt x) rest" by simp
      with True dist show ?thesis using linked_head [of nxt "nxt x" rest]
        by (simp add: unlink_nxt_def linked_upd)
    next
      case False
      with linked_unlink [OF chain False dist] dist show ?thesis
        by (cases ds) (auto simp: unlink_nxt_def linked_upd)
    qed
    show "\<forall>i \<in> set (ds @ rest). i < lim \<and> i \<notin> set (x # fs)"
      using dist arena_chain_less [OF rep k] arena_chain_not_free [OF rep k] by auto
    fix j js assume j: "j \<noteq> k" "Ch j = Some js"
    have "i \<notin> set (ds @ x # rest)" if "i \<in> set js" for i
      using arena_disjoint [OF rep j(2) k j(1) that] .
    moreover have "ds \<noteq> [] \<Longrightarrow> last ds \<in> set (ds @ x # rest)" by simp
    ultimately show "\<forall>i \<in> set js. unlink_nxt nxt free ds x i = nxt i \<and> i \<notin> set (x # fs) \<and> i \<notin> set (ds @ rest)"
      using arena_chain_not_free [OF rep j(2)] by (force simp: unlink_nxt_def)
  qed simp
qed

end
