(* ===== verification/Ptable.thy ===== *)
theory Ptable
  imports Arena RidSet
begin

text \<open>
  The pair table of \<open>src/src/backend/ptable.c\<close>: a memory-mapped array of rows, each a
  pair of identifiers and the number of the next row of its chain.  Row 0 is reserved,
  freed rows hang on a free list.  The ptree leaves own the chains.

  A result \<open>None\<close> is an access outside the mapped rows, a loop that does not end, or a
  header field that leaves the range of its type; the lemmas show that on a table whose
  chains and free list are as \<open>pt_rep\<close> describes none of this happens.  System calls
  (\<open>mmap\<close>, \<open>ftruncate\<close>, \<open>msync\<close>) succeed; a file extended by \<open>ftruncate\<close> reads as zeros.
\<close>

record row =
  cont :: nat
  data0 :: rid
  data1 :: rid

definition zero_row :: row where
  "zero_row = \<lparr>cont = 0, data0 = 0, data1 = 0\<rparr>"

text \<open>The header fields and the mapped rows; \<open>pt_mapped\<close> tells whether \<open>ptr\<close> is non-null.\<close>

record ptable =
  pt_mapped :: bool
  pt_size :: nat
  pt_length :: nat
  pt_free_list :: nat
  pt_data :: "nat \<Rightarrow> row"

section \<open>Operations\<close>

definition pt_get :: "ptable \<Rightarrow> nat \<Rightarrow> row option" where
  "pt_get pt b = (if b < pt_size pt then Some (pt_data pt b) else None)"

definition pt_put :: "ptable \<Rightarrow> nat \<Rightarrow> row \<Rightarrow> ptable option" where
  "pt_put pt b r = (if b < pt_size pt then Some (pt\<lparr>pt_data := (pt_data pt)(b := r)\<rparr>) else None)"

text \<open>\<open>fs_ptable_open_filename\<close> with \<open>O_TRUNC\<close>: a new table file.\<close>

definition fs_ptable_create :: ptable where
  "fs_ptable_create =
     \<lparr>pt_mapped = True, pt_size = 1024, pt_length = 0, pt_free_list = 0, pt_data = (\<lambda>_. zero_row)\<rparr>"

definition unmap_pt :: "ptable \<Rightarrow> ptable" where
  "unmap_pt pt = pt\<lparr>pt_mapped := False\<rparr>"

text \<open>\<open>map_pt\<close> stores the size in a signed 32-bit header field.\<close>

definition map_pt :: "ptable \<Rightarrow> nat \<Rightarrow> nat \<Rightarrow> ptable option" where
  "map_pt pt len sz =
     (if sz < 2147483648
      then Some (pt\<lparr>pt_mapped := True, pt_size := sz, pt_length := len,
                    pt_data := (\<lambda>i. if i < pt_size pt then pt_data pt i else zero_row)\<rparr>)
      else None)"

text \<open>
  The new size of a full table.  \<open>size * 2\<close> is computed in \<open>int\<close> and converted to
  \<open>size_t\<close>; where it overflows the converted value is above the threshold as well.
\<close>

definition pt_new_size :: "nat \<Rightarrow> nat" where
  "pt_new_size sz = (if sz * 2 > 4194304 then sz + 4194304 else sz * 2)"

definition fs_ptable_new_row :: "ptable \<Rightarrow> (nat \<times> ptable) option" where
  "fs_ptable_new_row pt0 =
     (if \<not> pt_mapped pt0 then Some (0, pt0)
      else
        let pt = (if pt_length pt0 = 0 then pt0\<lparr>pt_length := 1\<rparr> else pt0) in
        if pt_free_list pt \<noteq> 0 then
          do {
            let newr = pt_free_list pt;
            r \<leftarrow> pt_get pt newr;
            pt' \<leftarrow> pt_put (pt\<lparr>pt_free_list := cont r\<rparr>) newr zero_row;
            Some (newr, pt')
          }
        else
          do {
            pt1 \<leftarrow> (if pt_length pt \<ge> pt_size pt
                    then map_pt (unmap_pt pt) (pt_length pt) (pt_new_size (pt_size pt))
                    else Some pt);
            pt2 \<leftarrow> pt_put pt1 (pt_length pt1) zero_row;
            if pt_length pt2 < 2147483647
              then Some (pt_length pt2, pt2\<lparr>pt_length := pt_length pt2 + 1\<rparr>) else None
          })"

definition fs_ptable_free_row :: "ptable \<Rightarrow> nat \<Rightarrow> (int \<times> ptable) option" where
  "fs_ptable_free_row pt b =
     (if b = 0 then Some (1, pt)
      else do {
        r \<leftarrow> pt_get pt b;
        pt' \<leftarrow> pt_put pt b (r\<lparr>cont := pt_free_list pt\<rparr>);
        Some (0, pt'\<lparr>pt_free_list := b\<rparr>)
      })"

partial_function (option) remove_chain_loop :: "ptable \<Rightarrow> nat \<Rightarrow> (int \<times> ptable) option" where
  "remove_chain_loop pt b =
     do {
       r \<leftarrow> pt_get pt b;
       (_, pt') \<leftarrow> fs_ptable_free_row pt b;
       if cont r > pt_size pt' then Some (1, pt')
       else if cont r \<noteq> 0 then remove_chain_loop pt' (cont r)
       else Some (0, pt')
     }"

definition fs_ptable_remove_chain :: "ptable \<Rightarrow> nat \<Rightarrow> (int \<times> ptable) option" where
  "fs_ptable_remove_chain pt b =
     (if \<not> pt_mapped pt then Some (1, pt)
      else if b > pt_size pt then Some (1, pt)
      else if b = 0 then Some (1, pt)
      else remove_chain_loop pt b)"

definition fs_ptable_add_pair :: "ptable \<Rightarrow> nat \<Rightarrow> rid \<times> rid \<Rightarrow> (nat \<times> ptable) option" where
  "fs_ptable_add_pair pt b pair =
     (if \<not> pt_mapped pt then Some (0, pt)
      else if b > pt_length pt then Some (0, pt)
      else do {
        (newrid, pt1) \<leftarrow> fs_ptable_new_row pt;
        pt2 \<leftarrow> pt_put pt1 newrid \<lparr>cont = b, data0 = fst pair, data1 = snd pair\<rparr>;
        Some (newrid, pt2)
      })"

text \<open>The result of \<open>fs_ptable_get_row\<close>: \<open>Inl 1\<close> on error, the pair otherwise.\<close>

definition fs_ptable_get_row :: "ptable \<Rightarrow> nat \<Rightarrow> (int + rid \<times> rid) option" where
  "fs_ptable_get_row pt b =
     (if b = 0 then Some (Inl 1)
      else if b > pt_length pt then Some (Inl 1)
      else map_option (\<lambda>r. Inr (data0 r, data1 r)) (pt_get pt b))"

partial_function (option) pair_exists_loop :: "ptable \<Rightarrow> nat \<Rightarrow> rid \<times> rid \<Rightarrow> bool option" where
  "pair_exists_loop pt b pair =
     (if b \<noteq> 0 then
        do {
          r \<leftarrow> pt_get pt b;
          if data0 r = fst pair \<and> data1 r = snd pair then Some True
          else pair_exists_loop pt (cont r) pair
        }
      else Some False)"

definition fs_ptable_pair_exists :: "ptable \<Rightarrow> nat \<Rightarrow> rid \<times> rid \<Rightarrow> bool option" where
  "fs_ptable_pair_exists pt b pair =
     (if b = 0 then Some False
      else if b > pt_length pt then Some False
      else pair_exists_loop pt b pair)"

text \<open>The branch of \<open>fs_ptable_remove_pair\<close> that empties a whole chain.\<close>

partial_function (option) remove_everything ::
  "ptable \<Rightarrow> nat \<Rightarrow> int \<Rightarrow> rid_set option \<Rightarrow> (ptable \<times> int \<times> rid_set option) option" where
  "remove_everything pt b removed models =
     (if b \<noteq> 0 then
        do {
          r \<leftarrow> pt_get pt b;
          let models' = map_option (\<lambda>m. fs_rid_set_add m (data0 r)) models;
          (_, pt') \<leftarrow> fs_ptable_free_row pt b;
          remove_everything pt' (cont r) (removed + 1) models'
        }
      else Some (pt, removed, models))"

text \<open>
  The statements the three matching branches repeat: link the previous row, or the
  returned head, past the row, free it and count it.
\<close>

definition unlink_row ::
  "ptable \<Rightarrow> nat option \<Rightarrow> nat \<Rightarrow> nat \<Rightarrow> nat \<Rightarrow> (ptable \<times> nat) option" where
  "unlink_row pt prevr ret b nextb =
     do {
       (pt1, ret1) \<leftarrow> (case prevr of
           Some p \<Rightarrow> do { r \<leftarrow> pt_get pt p; pt1 \<leftarrow> pt_put pt p (r\<lparr>cont := nextb\<rparr>); Some (pt1, ret) }
         | None \<Rightarrow> Some (pt, nextb));
       (_, pt2) \<leftarrow> fs_ptable_free_row pt1 b;
       Some (pt2, ret1)
     }"

partial_function (option) remove_pair_loop ::
  "ptable \<Rightarrow> rid \<times> rid \<Rightarrow> nat \<Rightarrow> nat option \<Rightarrow> nat \<Rightarrow> int \<Rightarrow> rid_set option
   \<Rightarrow> (nat \<times> ptable \<times> int \<times> rid_set option) option" where
  "remove_pair_loop pt pair b prevr ret removed models =
     (if b \<noteq> 0 then
        do {
          r \<leftarrow> pt_get pt b;
          let nextb = cont r;
          if fst pair \<noteq> FS_RID_NULL \<and> snd pair = FS_RID_NULL then
            if data0 r = fst pair then
              do {
                (pt', ret') \<leftarrow> unlink_row pt prevr ret b nextb;
                remove_pair_loop pt' pair nextb prevr ret' (removed + 1) models
              }
            else remove_pair_loop pt pair nextb (Some b) ret removed models
          else if fst pair = FS_RID_NULL \<and> snd pair \<noteq> FS_RID_NULL then
            if data1 r = snd pair then
              do {
                let models' = map_option (\<lambda>m. fs_rid_set_add m (data0 r)) models;
                (pt', ret') \<leftarrow> unlink_row pt prevr ret b nextb;
                remove_pair_loop pt' pair nextb prevr ret' (removed + 1) models'
              }
            else remove_pair_loop pt pair nextb (Some b) ret removed models
          else if fst pair \<noteq> FS_RID_NULL \<and> snd pair \<noteq> FS_RID_NULL then
            if data0 r = fst pair \<and> data1 r = snd pair then
              do {
                (pt', ret') \<leftarrow> unlink_row pt prevr ret b nextb;
                remove_pair_loop pt' pair nextb prevr ret' (removed + 1) models
              }
            else remove_pair_loop pt pair nextb (Some b) ret removed models
          else remove_pair_loop pt pair nextb prevr ret removed models
        }
      else Some (ret, pt, removed, models))"

definition fs_ptable_remove_pair ::
  "ptable \<Rightarrow> nat \<Rightarrow> rid \<times> rid \<Rightarrow> int \<Rightarrow> rid_set option
   \<Rightarrow> (nat \<times> ptable \<times> int \<times> rid_set option) option" where
  "fs_ptable_remove_pair pt b pair removed models =
     (if b = 0 then Some (b, pt, removed, models)
      else if b > pt_length pt then Some (b, pt, removed, models)
      else if fst pair = FS_RID_NULL \<and> snd pair = FS_RID_NULL then
        map_option (\<lambda>(pt', removed', models'). (0, pt', removed', models'))
          (remove_everything pt b removed models)
      else remove_pair_loop pt pair b None b removed models)"

definition fs_ptable_get_next :: "ptable \<Rightarrow> nat \<Rightarrow> nat option" where
  "fs_ptable_get_next pt r =
     (if r > pt_length pt then Some 0 else map_option cont (pt_get pt r))"

text \<open>\<open>fs_ptable_chain_length\<close>: a maximum of 0 means no maximum.\<close>

partial_function (option) chain_length_loop :: "ptable \<Rightarrow> row \<Rightarrow> nat \<Rightarrow> nat \<Rightarrow> nat option" where
  "chain_length_loop pt r mx len =
     (if cont r \<noteq> 0 then
        do {
          r' \<leftarrow> pt_get pt (cont r);
          if mx \<noteq> 0 \<and> len + 1 > mx then Some (len + 1)
          else chain_length_loop pt r' mx (len + 1)
        }
      else Some len)"

definition fs_ptable_chain_length :: "ptable \<Rightarrow> nat \<Rightarrow> nat \<Rightarrow> nat option" where
  "fs_ptable_chain_length pt b mx =
     (if b = 0 then Some 0
      else if b > pt_length pt then Some 0
      else Option.bind (pt_get pt b) (\<lambda>r. chain_length_loop pt r mx 1))"

definition fs_ptable_length :: "ptable \<Rightarrow> nat" where
  "fs_ptable_length pt = pt_length pt"

text \<open>\<open>for (i = free_list; ret++, i; i = data[i].cont);\<close> counts before it tests.\<close>

partial_function (option) free_length_loop :: "ptable \<Rightarrow> nat \<Rightarrow> nat \<Rightarrow> nat option" where
  "free_length_loop pt i ret =
     (if i \<noteq> 0 then Option.bind (pt_get pt i) (\<lambda>r. free_length_loop pt (cont r) (u32 (ret + 1)))
      else Some (u32 (ret + 1)))"

definition fs_ptable_free_length :: "ptable \<Rightarrow> nat option" where
  "fs_ptable_free_length pt = free_length_loop pt (pt_free_list pt) 0"

section \<open>What the rows represent\<close>

definition pt_nxt :: "ptable \<Rightarrow> nat \<Rightarrow> nat" where
  "pt_nxt pt i = cont (pt_data pt i)"

definition row_pair :: "ptable \<Rightarrow> nat \<Rightarrow> rid \<times> rid" where
  "row_pair pt i = (data0 (pt_data pt i), data1 (pt_data pt i))"

text \<open>\<open>pt_rep pt fs Ch\<close>: the free list is \<open>fs\<close> and owner \<open>k\<close> has the rows \<open>Ch k\<close>.\<close>

definition pt_rep :: "ptable \<Rightarrow> nat list \<Rightarrow> ('k \<rightharpoonup> nat list) \<Rightarrow> bool" where
  "pt_rep pt fs Ch \<longleftrightarrow> pt_mapped pt \<and> pt_length pt \<le> pt_size pt \<and> 0 < pt_size pt \<and>
     pt_size pt < 2147483648 \<and>
     arena_rep (pt_nxt pt) (pt_free_list pt) (pt_length pt) fs Ch"

definition pt_room :: "ptable \<Rightarrow> bool" where
  "pt_room pt \<longleftrightarrow> pt_free_list pt \<noteq> 0 \<or> pt_size pt + 4194304 < 2147483648"

lemma pt_rep_arena: "pt_rep pt fs Ch \<Longrightarrow> arena_rep (pt_nxt pt) (pt_free_list pt) (pt_length pt) fs Ch"
  by (simp add: pt_rep_def)

lemma pt_get_Some [simp]: "b < pt_size pt \<Longrightarrow> pt_get pt b = Some (pt_data pt b)"
  by (simp add: pt_get_def)

lemma pt_put_Some [simp]:
  "b < pt_size pt \<Longrightarrow> pt_put pt b r = Some (pt\<lparr>pt_data := (pt_data pt)(b := r)\<rparr>)"
  by (simp add: pt_put_def)

lemma pt_nxt_upd [simp]: "pt_nxt (pt\<lparr>pt_data := (pt_data pt)(b := r)\<rparr>) = (pt_nxt pt)(b := cont r)"
  by (auto simp: pt_nxt_def)

lemma pt_nxt_frame [simp]:
  "pt_nxt (pt\<lparr>pt_free_list := f\<rparr>) = pt_nxt pt" "pt_nxt (pt\<lparr>pt_length := n\<rparr>) = pt_nxt pt"
  by (auto simp: pt_nxt_def)

lemma pt_rep_create: "pt_rep fs_ptable_create [] Map.empty"
  by (simp add: pt_rep_def fs_ptable_create_def arena_empty)

lemma pt_rep_new_owner: "pt_rep pt fs Ch \<Longrightarrow> Ch k = None \<Longrightarrow> pt_rep pt fs (Ch(k \<mapsto> []))"
  by (simp add: pt_rep_def arena_new_owner)

lemma pt_chain_less: "pt_rep pt fs Ch \<Longrightarrow> Ch k = Some ids \<Longrightarrow> i \<in> set ids \<Longrightarrow> i < pt_length pt \<and> i < pt_size pt"
  using arena_chain_less [OF pt_rep_arena] by (force simp: pt_rep_def)

lemma new_row_extend:
  assumes "pt_mapped pt" "pt_free_list pt = 0" "0 < pt_size pt" "pt_length pt \<le> pt_size pt"
    and n: "n = max 1 (pt_length pt)"
    and sz: "sz = (if n \<ge> pt_size pt then pt_new_size (pt_size pt) else pt_size pt)" "sz < 2147483648"
  shows "\<exists>d. fs_ptable_new_row pt = Some (n, pt\<lparr>pt_size := sz, pt_length := n + 1, pt_data := d\<rparr>)
     \<and> (\<forall>i. i < pt_length pt \<longrightarrow> d i = pt_data pt i)"
proof -
  define pt1 where "pt1 = (if pt_length pt = 0 then pt\<lparr>pt_length := 1\<rparr> else pt)"
  have pt1: "pt_mapped pt1" "pt_free_list pt1 = 0" "pt_length pt1 = n" "pt_size pt1 = pt_size pt"
      "pt_data pt1 = pt_data pt" "pt = pt1\<lparr>pt_length := pt_length pt\<rparr>"
    using assms(1,2) n by (auto simp: pt1_def)
  have nsz: "n < sz" "n < 2147483647"
    using assms by (auto simp: max_def pt_new_size_def split: if_splits)
  show ?thesis
  proof (cases "n \<ge> pt_size pt")
    case True
    let ?d = "\<lambda>i. if i < pt_size pt then pt_data pt i else zero_row"
    have "map_pt (unmap_pt pt1) n sz = Some (pt1\<lparr>pt_size := sz, pt_data := ?d\<rparr>)"
      using pt1(1-5) sz(2)
      by (simp add: map_pt_def unmap_pt_def, intro ptable.equality) (simp_all add: fun_eq_iff)
    then have "fs_ptable_new_row pt = Some (n, pt\<lparr>pt_size := sz, pt_length := n + 1, pt_data := ?d(n := zero_row)\<rparr>)"
      unfolding fs_ptable_new_row_def pt1_def [symmetric]
      using True assms(1) pt1(1-5) nsz sz(1) by (simp add: Let_def pt1_def)
    with assms(4) n show ?thesis by (intro exI [of _ "?d(n := zero_row)"]) auto
  next
    case False
    then have "fs_ptable_new_row pt
        = Some (n, pt\<lparr>pt_size := sz, pt_length := n + 1, pt_data := (pt_data pt)(n := zero_row)\<rparr>)"
      unfolding fs_ptable_new_row_def pt1_def [symmetric]
      using assms(1) pt1(1-5) nsz sz(1) by (simp add: Let_def, simp add: pt1_def)
    with n show ?thesis by (intro exI [of _ "(pt_data pt)(n := zero_row)"]) auto
  qed
qed

text \<open>
  A new row is taken from the free list when there is one, else from the end of the
  table, which grows if it is full.
\<close>

lemma new_row_ok:
  assumes rep: "pt_rep pt fs Ch" and room: "pt_room pt" and k: "Ch k = Some ids"
  shows "\<exists>n pt'. fs_ptable_new_row pt = Some (n, pt') \<and> n \<noteq> 0 \<and> n < pt_length pt' \<and> pt_length pt \<le> pt_length pt' \<and>
     (\<forall>i. i \<noteq> n \<longrightarrow> i < pt_length pt \<longrightarrow> pt_data pt' i = pt_data pt i) \<and> n \<notin> (\<Union>js \<in> ran Ch. set js) \<and>
     (\<forall>r. cont r = head_of ids \<longrightarrow>
        pt_rep (pt'\<lparr>pt_data := (pt_data pt')(n := r)\<rparr>) (tl fs) (Ch(k \<mapsto> n # ids)))"
proof -
  note arena = pt_rep_arena [OF rep]
  have hdr: "pt_mapped pt" "pt_length pt \<le> pt_size pt" "0 < pt_size pt" "pt_size pt < 2147483648"
    using rep by (simp_all add: pt_rep_def)
  show ?thesis
  proof (cases fs)
    case (Cons f fs')
    then have f: "pt_free_list pt = f" "f \<noteq> 0" "f < pt_length pt"
      using arena_free [OF arena] arena_free_less [OF arena] by auto
    let ?pt = "pt\<lparr>pt_free_list := pt_nxt pt f, pt_data := (pt_data pt)(f := zero_row)\<rparr>"
    have "fs_ptable_new_row pt = Some (f, ?pt)"
      using hdr f by (simp add: fs_ptable_new_row_def Let_def pt_nxt_def)
    moreover have "f \<notin> (\<Union>js \<in> ran Ch. set js)"
      using arena_chain_not_free [OF arena] Cons by (auto simp: ran_def)
    moreover have "pt_rep (?pt\<lparr>pt_data := (pt_data ?pt)(f := r)\<rparr>) (tl fs) (Ch(k \<mapsto> f # ids))"
      if "cont r = head_of ids" for r
    proof -
      have "pt_nxt (?pt\<lparr>pt_data := (pt_data ?pt)(f := r)\<rparr>) = (pt_nxt pt)(f := head_of ids)"
        using that by (auto simp: pt_nxt_def)
      then show ?thesis
        using arena_pop [OF arena [unfolded Cons] k] hdr Cons by (simp add: pt_rep_def)
    qed
    ultimately show ?thesis using f by auto
  next
    case Nil
    then have free: "pt_free_list pt = 0" using arena_free [OF arena] by simp
    define n where "n = max 1 (pt_length pt)"
    define sz where "sz = (if n \<ge> pt_size pt then pt_new_size (pt_size pt) else pt_size pt)"
    have sz: "n < sz" "sz < 2147483648" "pt_size pt \<le> sz" "n < 2147483647" "n \<noteq> 0"
      using hdr room free by (auto simp: sz_def n_def pt_room_def pt_new_size_def max_def)
    obtain pt' where new: "fs_ptable_new_row pt = Some (n, pt')" "pt_mapped pt'" "pt_size pt' = sz"
        "pt_length pt' = n + 1" "pt_free_list pt' = 0"
        "\<forall>i. i < pt_length pt \<longrightarrow> pt_data pt' i = pt_data pt i"
      using new_row_extend [OF hdr(1) free hdr(3,2) n_def sz_def sz(2)] hdr free by auto
    moreover have notin: "n \<notin> (\<Union>js \<in> ran Ch. set js)"
      using arena_chain_less [OF arena] by (fastforce simp: ran_def n_def)
    moreover have "pt_rep (pt'\<lparr>pt_data := (pt_data pt')(n := r)\<rparr>) (tl fs) (Ch(k \<mapsto> n # ids))"
      if "cont r = head_of ids" for r
    proof -
      let ?m = "(pt_nxt pt)(n := head_of ids)"
      have "arena_rep ?m 0 (n + 1) [] (Ch(k \<mapsto> n # ids))"
        using arena_fresh [OF arena k, of n "n + 1"] sz free Nil by (simp add: n_def)
      moreover have "pt_nxt (pt'\<lparr>pt_data := (pt_data pt')(n := r)\<rparr>) i = ?m i" if "i \<noteq> 0" "i < n + 1" for i
        using that new(6) \<open>cont r = head_of ids\<close> by (cases "i = n") (auto simp: pt_nxt_def n_def)
      ultimately have "arena_rep (pt_nxt (pt'\<lparr>pt_data := (pt_data pt')(n := r)\<rparr>)) 0 (n + 1) [] (Ch(k \<mapsto> n # ids))"
        by (rule arena_cong)
      with new sz Nil show ?thesis by (simp add: pt_rep_def)
    qed
    ultimately show ?thesis using sz by (auto simp: n_def)
  qed
qed

lemma add_pair_ok:
  assumes rep: "pt_rep pt fs Ch" and room: "pt_room pt" and k: "Ch k = Some ids"
  shows "\<exists>n pt'. fs_ptable_add_pair pt (head_of ids) p = Some (n, pt') \<and> n \<noteq> 0
     \<and> pt_rep pt' (tl fs) (Ch(k \<mapsto> n # ids))
     \<and> row_pair pt' n = p \<and> (\<forall>i. i \<noteq> n \<longrightarrow> i < pt_length pt \<longrightarrow> row_pair pt' i = row_pair pt i)
     \<and> n \<notin> (\<Union>js \<in> ran Ch. set js)"
proof -
  obtain n pt1 where new: "fs_ptable_new_row pt = Some (n, pt1)" "n \<noteq> 0" "n < pt_length pt1"
      "\<forall>i. i \<noteq> n \<longrightarrow> i < pt_length pt \<longrightarrow> pt_data pt1 i = pt_data pt i" "n \<notin> (\<Union>js \<in> ran Ch. set js)"
      "\<And>r. cont r = head_of ids \<Longrightarrow> pt_rep (pt1\<lparr>pt_data := (pt_data pt1)(n := r)\<rparr>) (tl fs) (Ch(k \<mapsto> n # ids))"
    using new_row_ok [OF rep room k] by blast
  let ?r = "\<lparr>cont = head_of ids, data0 = fst p, data1 = snd p\<rparr>"
  have rep': "pt_rep (pt1\<lparr>pt_data := (pt_data pt1)(n := ?r)\<rparr>) (tl fs) (Ch(k \<mapsto> n # ids))"
    using new(6) by simp
  then have "n < pt_size pt1" using new(3) by (simp add: pt_rep_def)
  moreover have "head_of ids \<le> pt_length pt"
    using pt_chain_less [OF rep k] by (cases ids) (auto intro: less_imp_le)
  ultimately have "fs_ptable_add_pair pt (head_of ids) p = Some (n, pt1\<lparr>pt_data := (pt_data pt1)(n := ?r)\<rparr>)"
    using rep new(1) by (simp add: fs_ptable_add_pair_def pt_rep_def)
  with new rep' show ?thesis by (auto simp: row_pair_def)
qed

lemma free_row_ok: "b \<noteq> 0 \<Longrightarrow> b < pt_size pt \<Longrightarrow>
  fs_ptable_free_row pt b = Some (0, pt\<lparr>pt_data := (pt_data pt)(b := (pt_data pt b)\<lparr>cont := pt_free_list pt\<rparr>),
                                   pt_free_list := b\<rparr>)"
  by (simp add: fs_ptable_free_row_def)

text \<open>The pairs of a table are not changed by a removal; only links are.\<close>

definition same_pairs :: "ptable \<Rightarrow> ptable \<Rightarrow> bool" where
  "same_pairs pt' pt \<longleftrightarrow> row_pair pt' = row_pair pt \<and> pt_length pt' = pt_length pt \<and> pt_size pt' = pt_size pt"

lemma same_pairs_refl [simp]: "same_pairs pt pt"
  by (simp add: same_pairs_def)

lemma same_pairs_trans: "same_pairs pt2 pt1 \<Longrightarrow> same_pairs pt1 pt \<Longrightarrow> same_pairs pt2 pt"
  by (simp add: same_pairs_def)

lemma unlink_row_ok:
  assumes rep: "pt_rep pt fs Ch" and k: "Ch k = Some (ds @ b # rest)"
    and prev: "prevr = (if ds = [] then None else Some (last ds))"
    and ret: "ret = head_of (ds @ b # rest)"
  shows "\<exists>pt'. unlink_row pt prevr ret b (cont (pt_data pt b)) = Some (pt', head_of (ds @ rest))
     \<and> pt_rep pt' (b # fs) (Ch(k \<mapsto> ds @ rest)) \<and> same_pairs pt' pt"
proof -
  note arena = pt_rep_arena [OF rep]
  have b: "b \<noteq> 0" "b < pt_size pt" "cont (pt_data pt b) = head_of rest"
    using linked_nonzero [OF arena_chain [OF arena k]] pt_chain_less [OF rep k]
      linked_suffix [OF arena_chain [OF arena k]] linked_head
    by (auto simp: pt_nxt_def)
  have dist: "distinct (ds @ b # rest)" using arena_chain_distinct [OF arena k] .
  note arena' = arena_unlink [OF arena k]
  show ?thesis
  proof (cases "ds = []")
    case True
    let ?pt = "pt\<lparr>pt_data := (pt_data pt)(b := (pt_data pt b)\<lparr>cont := pt_free_list pt\<rparr>), pt_free_list := b\<rparr>"
    have "pt_nxt ?pt = unlink_nxt (pt_nxt pt) (pt_free_list pt) ds b"
      using True by (auto simp: unlink_nxt_def pt_nxt_def)
    with True arena' rep have "pt_rep ?pt (b # fs) (Ch(k \<mapsto> ds @ rest))" by (simp add: pt_rep_def)
    moreover have "same_pairs ?pt pt" by (auto simp: same_pairs_def row_pair_def)
    ultimately show ?thesis
      using True prev ret b by (simp add: unlink_row_def free_row_ok)
  next
    case False
    let ?p = "last ds"
    have p: "?p \<noteq> b" "?p < pt_size pt" using False dist pt_chain_less [OF rep k] by auto
    let ?d = "(pt_data pt)(?p := (pt_data pt ?p)\<lparr>cont := cont (pt_data pt b)\<rparr>)"
    let ?pt = "pt\<lparr>pt_data := ?d(b := (pt_data pt b)\<lparr>cont := pt_free_list pt\<rparr>), pt_free_list := b\<rparr>"
    have "pt_nxt ?pt = unlink_nxt (pt_nxt pt) (pt_free_list pt) ds b"
      using False p by (auto simp: unlink_nxt_def pt_nxt_def)
    with arena' rep have "pt_rep ?pt (b # fs) (Ch(k \<mapsto> ds @ rest))" by (simp add: pt_rep_def)
    moreover have "same_pairs ?pt pt" by (auto simp: same_pairs_def row_pair_def)
    moreover have "unlink_row pt prevr ret b (cont (pt_data pt b)) = Some (?pt, ret)"
      using False prev b p by (simp add: unlink_row_def free_row_ok)
    moreover have "ret = head_of (ds @ rest)" using False ret by (cases ds) auto
    ultimately show ?thesis by auto
  qed
qed

section \<open>Removal\<close>

text \<open>A pattern matches a pair when each component is the null identifier or equal.\<close>

definition pair_matches :: "rid \<times> rid \<Rightarrow> rid \<times> rid \<Rightarrow> bool" where
  "pair_matches pat p \<longleftrightarrow>
     (fst pat = FS_RID_NULL \<or> fst pat = fst p) \<and> (snd pat = FS_RID_NULL \<or> snd pat = snd p)"

text \<open>The models of the removed pairs are recorded when the pattern leaves the model open.\<close>

definition models_after :: "rid \<times> rid \<Rightarrow> rid_set option \<Rightarrow> (rid \<times> rid) list \<Rightarrow> rid_set option" where
  "models_after pat models gone =
     (if fst pat = FS_RID_NULL then map_option (\<lambda>m. foldl fs_rid_set_add m (map fst gone)) models
      else models)"

lemma models_after_Nil [simp]: "models_after pat models [] = models"
  by (cases models) (auto simp: models_after_def)

lemma models_after_Cons:
  "models_after pat models (p # gone) =
     models_after pat (if fst pat = FS_RID_NULL then map_option (\<lambda>m. fs_rid_set_add m (fst p)) models
                       else models) gone"
  by (cases models) (auto simp: models_after_def)

abbreviation gone_rows :: "ptable \<Rightarrow> rid \<times> rid \<Rightarrow> nat list \<Rightarrow> nat list" where
  "gone_rows pt pat \<equiv> filter (\<lambda>i. pair_matches pat (row_pair pt i))"

abbreviation kept_rows :: "ptable \<Rightarrow> rid \<times> rid \<Rightarrow> nat list \<Rightarrow> nat list" where
  "kept_rows pt pat \<equiv> filter (\<lambda>i. \<not> pair_matches pat (row_pair pt i))"

lemma pt_chain_cont:
  assumes rep: "pt_rep pt fs Ch" and k: "Ch k = Some (ds @ b # rest)"
  shows "b \<noteq> 0 \<and> b < pt_size pt \<and> cont (pt_data pt b) = head_of rest"
  using linked_nonzero [OF arena_chain [OF pt_rep_arena [OF rep] k]] pt_chain_less [OF rep k]
    linked_suffix [OF arena_chain [OF pt_rep_arena [OF rep] k]] linked_head [of "pt_nxt pt" _ rest]
  by (auto simp: pt_nxt_def)

text \<open>One turn of the loop, by whether the row matches the pattern.\<close>

lemma remove_pair_loop_step:
  assumes b: "b \<noteq> 0" "b < pt_size pt" and pat: "\<not> (fst pat = FS_RID_NULL \<and> snd pat = FS_RID_NULL)"
  shows "remove_pair_loop pt pat b prevr ret removed models =
    (if pair_matches pat (row_pair pt b)
     then do {
       (pt', ret') \<leftarrow> unlink_row pt prevr ret b (cont (pt_data pt b));
       remove_pair_loop pt' pat (cont (pt_data pt b)) prevr ret' (removed + 1)
         (if fst pat = FS_RID_NULL then map_option (\<lambda>m. fs_rid_set_add m (fst (row_pair pt b))) models
          else models)
     }
     else remove_pair_loop pt pat (cont (pt_data pt b)) (Some b) ret removed models)"
  using assms
  by (subst remove_pair_loop.simps) (auto simp: pair_matches_def row_pair_def Let_def)

lemma remove_pair_loop_0: "remove_pair_loop pt pat 0 prevr ret removed models = Some (ret, pt, removed, models)"
  by (subst remove_pair_loop.simps) simp

lemma remove_pair_loop_ok:
  assumes "pt_rep pt fs Ch" and "Ch k = Some (ds @ rest)"
    and "\<not> (fst pat = FS_RID_NULL \<and> snd pat = FS_RID_NULL)"
  shows "\<exists>pt' fs'. remove_pair_loop pt pat (head_of rest) (if ds = [] then None else Some (last ds))
              (head_of (ds @ rest)) removed models
            = Some (head_of (ds @ kept_rows pt pat rest), pt', removed + int (length (gone_rows pt pat rest)),
                    models_after pat models (map (row_pair pt) (gone_rows pt pat rest)))
     \<and> pt_rep pt' fs' (Ch(k \<mapsto> ds @ kept_rows pt pat rest)) \<and> same_pairs pt' pt"
  using assms
proof (induction rest arbitrary: pt fs Ch ds removed models)
  case Nil
  then show ?case by (auto simp: remove_pair_loop_0 fun_upd_idem)
next
  case (Cons b rest)
  let ?pr = "if ds = [] then None else Some (last ds)"
  note b = pt_chain_cont [OF Cons.prems(1,2)]
  show ?case
  proof (cases "pair_matches pat (row_pair pt b)")
    case True
    obtain pt1 where pt1: "unlink_row pt ?pr (head_of (ds @ b # rest)) b (cont (pt_data pt b))
          = Some (pt1, head_of (ds @ rest))"
        "pt_rep pt1 (b # fs) (Ch(k \<mapsto> ds @ rest))" "same_pairs pt1 pt"
      using unlink_row_ok [OF Cons.prems(1,2) refl refl] by blast
    from pt1(3) have rp: "row_pair pt1 = row_pair pt" by (simp add: same_pairs_def)
    from Cons.IH [OF pt1(2) _ Cons.prems(3), of ds "removed + 1"
        "if fst pat = FS_RID_NULL then map_option (\<lambda>m. fs_rid_set_add m (fst (row_pair pt b))) models else models"]
    obtain pt2 fs2 where "remove_pair_loop pt1 pat (head_of rest) ?pr (head_of (ds @ rest)) (removed + 1)
          (if fst pat = FS_RID_NULL then map_option (\<lambda>m. fs_rid_set_add m (fst (row_pair pt b))) models else models)
        = Some (head_of (ds @ kept_rows pt pat rest), pt2, removed + 1 + int (length (gone_rows pt pat rest)),
            models_after pat models (row_pair pt b # map (row_pair pt) (gone_rows pt pat rest)))"
        "pt_rep pt2 fs2 (Ch(k \<mapsto> ds @ kept_rows pt pat rest))" "same_pairs pt2 pt1"
      unfolding rp fun_upd_upd models_after_Cons by (simp only: fun_upd_same) blast
    then show ?thesis
      using b pt1 True Cons.prems(3) same_pairs_trans
      by (auto simp: remove_pair_loop_step algebra_simps simp del: fun_upd_apply)
  next
    case False
    from Cons.IH [of pt fs Ch "ds @ [b]" removed models] Cons.prems False b show ?thesis
      by (auto simp: remove_pair_loop_step)
  qed
qed

lemma remove_everything_ok:
  assumes "pt_rep pt fs Ch" and "Ch k = Some ids"
  shows "\<exists>pt' fs'. remove_everything pt (head_of ids) removed models
       = Some (pt', removed + int (length ids),
               map_option (\<lambda>m. foldl fs_rid_set_add m (map (fst \<circ> row_pair pt) ids)) models)
     \<and> pt_rep pt' fs' (Ch(k \<mapsto> [])) \<and> same_pairs pt' pt"
  using assms
proof (induction ids arbitrary: pt fs Ch removed models)
  case Nil
  then show ?case
    by (subst remove_everything.simps) (auto simp: fun_upd_idem option.map_ident)
next
  case (Cons b rest)
  note b = pt_chain_cont [of pt fs Ch k "[]" b rest, simplified, OF Cons.prems]
  obtain pt1 where pt1: "unlink_row pt None b b (cont (pt_data pt b)) = Some (pt1, head_of rest)"
      "pt_rep pt1 (b # fs) (Ch(k \<mapsto> rest))" "same_pairs pt1 pt"
    using unlink_row_ok [of pt fs Ch k "[]" b rest None b] Cons.prems by auto
  then have free: "fs_ptable_free_row pt b = Some (0, pt1)"
    using b by (auto simp: unlink_row_def free_row_ok)
  from pt1(3) have rp: "row_pair pt1 = row_pair pt" by (simp add: same_pairs_def)
  let ?m = "map_option (\<lambda>m. fs_rid_set_add m (data0 (pt_data pt b))) models"
  obtain pt2 fs2 where "remove_everything pt1 (head_of rest) (removed + 1) ?m
      = Some (pt2, removed + 1 + int (length rest),
          map_option (\<lambda>m. foldl fs_rid_set_add m (map (fst \<circ> row_pair pt) rest)) ?m)"
      "pt_rep pt2 fs2 (Ch(k \<mapsto> []))" "same_pairs pt2 pt1"
    using Cons.IH [OF pt1(2) fun_upd_same, of "removed + 1" ?m] unfolding rp fun_upd_upd by blast
  then show ?case
    using b free pt1(3) same_pairs_trans
    by (subst remove_everything.simps)
      (auto simp: Let_def row_pair_def option.map_comp comp_def algebra_simps simp del: fun_upd_apply)
qed

lemma remove_pair_ok:
  assumes rep: "pt_rep pt fs Ch" and k: "Ch k = Some ids"
  shows "\<exists>pt' fs'. fs_ptable_remove_pair pt (head_of ids) pat removed models
       = Some (head_of (kept_rows pt pat ids), pt', removed + int (length (gone_rows pt pat ids)),
               models_after pat models (map (row_pair pt) (gone_rows pt pat ids)))
     \<and> pt_rep pt' fs' (Ch(k \<mapsto> kept_rows pt pat ids)) \<and> same_pairs pt' pt"
proof (cases "ids = []")
  case True
  with rep k show ?thesis by (auto simp: fs_ptable_remove_pair_def fun_upd_idem)
next
  case False
  then have b: "head_of ids \<noteq> 0" "head_of ids \<le> pt_length pt"
    using pt_chain_less [OF rep k, of "head_of ids"] linked_nonzero [OF arena_chain [OF pt_rep_arena [OF rep] k]]
    by (cases ids; auto)+
  show ?thesis
  proof (cases "fst pat = FS_RID_NULL \<and> snd pat = FS_RID_NULL")
    case True
    then have "gone_rows pt pat ids = ids" "kept_rows pt pat ids = []"
      by (simp_all add: pair_matches_def)
    with True b show ?thesis
      using remove_everything_ok [OF rep k, of removed models]
      by (auto simp: fs_ptable_remove_pair_def models_after_def comp_def)
  next
    case False
    with b have "fs_ptable_remove_pair pt (head_of ids) pat removed models
        = remove_pair_loop pt pat (head_of ids) None (head_of ids) removed models"
      by (auto simp: fs_ptable_remove_pair_def)
    with False show ?thesis
      using remove_pair_loop_ok [of pt fs Ch k "[]" ids pat removed models] rep k by simp
  qed
qed

section \<open>Reading chains\<close>

lemma pair_exists_loop_ok:
  assumes "pt_rep pt fs Ch" and "Ch k = Some (ds @ rest)"
  shows "pair_exists_loop pt (head_of rest) p = Some (p \<in> row_pair pt ` set rest)"
  using assms
proof (induction rest arbitrary: ds)
  case Nil
  then show ?case by (subst pair_exists_loop.simps) simp
next
  case (Cons b rest)
  note b = pt_chain_cont [OF Cons.prems]
  from Cons.prems Cons.IH [of "ds @ [b]"]
  have "pair_exists_loop pt (head_of rest) p = Some (p \<in> row_pair pt ` set rest)" by simp
  with b show ?case
    by (subst pair_exists_loop.simps) (cases p, auto simp: row_pair_def)
qed

lemma chain_length_loop_ok:
  assumes "pt_rep pt fs Ch" and "Ch k = Some (ds @ b # rest)" and "mx = 0 \<or> len \<le> mx"
  shows "chain_length_loop pt (pt_data pt b) mx len
    = Some (if mx = 0 then len + length rest else min (len + length rest) (mx + 1))"
  using assms
proof (induction rest arbitrary: ds b len)
  case Nil
  with pt_chain_cont [OF Nil(1,2)] show ?case by (subst chain_length_loop.simps) auto
next
  case (Cons c rest)
  note b = pt_chain_cont [OF Cons.prems(1,2)]
  have c: "c \<noteq> 0" "c < pt_size pt"
    using pt_chain_cont [of pt fs Ch k "ds @ [b]" c rest] Cons.prems by auto
  show ?case
  proof (cases "mx \<noteq> 0 \<and> len + 1 > mx")
    case True
    with Cons.prems(3) have "mx = len" "mx \<noteq> 0" by auto
    with b c show ?thesis
      by (subst chain_length_loop.simps) auto
  next
    case False
    then have "chain_length_loop pt (pt_data pt c) mx (len + 1)
      = Some (if mx = 0 then len + 1 + length rest else min (len + 1 + length rest) (mx + 1))"
      using Cons.IH [of "ds @ [b]" c "len + 1"] Cons.prems by auto
    with b c False show ?thesis
      by (subst chain_length_loop.simps) auto
  qed
qed

lemma free_length_loop_ok:
  assumes "linked (pt_nxt pt) b fs" and "\<forall>i \<in> set fs. i < pt_size pt" and "n + length fs + 1 < 4294967296"
  shows "free_length_loop pt b n = Some (n + length fs + 1)"
  using assms
proof (induction fs arbitrary: b n)
  case Nil
  then show ?case by (subst free_length_loop.simps) simp
next
  case (Cons f fs)
  then show ?case
    by (subst free_length_loop.simps) (auto simp: pt_nxt_def)
qed

lemma remove_chain_loop_ok:
  assumes "pt_rep pt fs Ch" and "Ch k = Some (b # rest)"
  shows "\<exists>pt' fs'. remove_chain_loop pt b = Some (0, pt') \<and> pt_rep pt' fs' (Ch(k \<mapsto> [])) \<and> same_pairs pt' pt"
  using assms
proof (induction rest arbitrary: pt fs Ch b)
  case Nil
  note b = pt_chain_cont [of pt fs Ch k "[]" b "[]", simplified, OF Nil]
  obtain pt1 where "unlink_row pt None b b (cont (pt_data pt b)) = Some (pt1, 0)"
      "pt_rep pt1 (b # fs) (Ch(k \<mapsto> []))" "same_pairs pt1 pt"
    using unlink_row_ok [of pt fs Ch k "[]" b "[]" None b] Nil by auto
  then show ?case
    using b by (subst remove_chain_loop.simps) (auto simp: unlink_row_def free_row_ok simp del: fun_upd_apply)
next
  case (Cons c rest)
  note b = pt_chain_cont [of pt fs Ch k "[]" b "c # rest", simplified, OF Cons.prems]
  obtain pt1 where pt1: "unlink_row pt None b b (cont (pt_data pt b)) = Some (pt1, c)"
      "pt_rep pt1 (b # fs) (Ch(k \<mapsto> c # rest))" "same_pairs pt1 pt"
    using unlink_row_ok [of pt fs Ch k "[]" b "c # rest" None b] Cons.prems by auto
  then have free: "fs_ptable_free_row pt b = Some (0, pt1)"
    using b by (auto simp: unlink_row_def free_row_ok)
  have c: "c \<noteq> 0" "c < pt_size pt1"
    using pt_chain_cont [of pt1 "b # fs" "Ch(k \<mapsto> c # rest)" k "[]" c rest] pt1(2) by auto
  obtain pt2 fs2 where "remove_chain_loop pt1 c = Some (0, pt2)" "pt_rep pt2 fs2 (Ch(k \<mapsto> []))"
      "same_pairs pt2 pt1"
    using Cons.IH [OF pt1(2) fun_upd_same] unfolding fun_upd_upd by blast
  then show ?case
    using b c free pt1(3) same_pairs_trans
    by (subst remove_chain_loop.simps) (auto simp del: fun_upd_apply)
qed

section \<open>The interface to the ptree\<close>

text \<open>
  The owners of chains see a table as a store of one list of pairs per owner, each
  reached through the head number the owner keeps.
\<close>

definition pt_holds :: "ptable \<Rightarrow> ('k \<Rightarrow> nat) \<Rightarrow> ('k \<rightharpoonup> (rid \<times> rid) list) \<Rightarrow> bool" where
  "pt_holds pt hds Ps \<longleftrightarrow> (\<exists>fs Ch. pt_rep pt fs Ch \<and>
     (\<forall>k. Ps k = map_option (map (row_pair pt)) (Ch k)) \<and>
     (\<forall>k ids. Ch k = Some ids \<longrightarrow> hds k = head_of ids))"

text \<open>The contract a client of the table relies on.\<close>

locale pair_chains =
  fixes add :: "'p \<Rightarrow> nat \<Rightarrow> rid \<times> rid \<Rightarrow> (nat \<times> 'p) option"
    and remove :: "'p \<Rightarrow> nat \<Rightarrow> rid \<times> rid \<Rightarrow> int \<Rightarrow> rid_set option
      \<Rightarrow> (nat \<times> 'p \<times> int \<times> rid_set option) option"
    and holds :: "'p \<Rightarrow> ('k \<Rightarrow> nat) \<Rightarrow> ('k \<rightharpoonup> (rid \<times> rid) list) \<Rightarrow> bool"
    and room :: "'p \<Rightarrow> bool"
  assumes holds_add: "holds s hds Ps \<Longrightarrow> room s \<Longrightarrow> Ps k = Some ps \<Longrightarrow>
      \<exists>n s'. add s (hds k) p = Some (n, s') \<and> n \<noteq> 0 \<and> holds s' (hds(k := n)) (Ps(k \<mapsto> p # ps))"
    and holds_remove: "holds s hds Ps \<Longrightarrow> Ps k = Some ps \<Longrightarrow>
      \<exists>n s'. remove s (hds k) pat r m = Some (n, s', r + int (length (filter (pair_matches pat) ps)),
                models_after pat m (filter (pair_matches pat) ps))
        \<and> (n = 0 \<longleftrightarrow> filter (\<lambda>p. \<not> pair_matches pat p) ps = [])
        \<and> holds s' (hds(k := n)) (Ps(k \<mapsto> filter (\<lambda>p. \<not> pair_matches pat p) ps))"
    and holds_new: "holds s hds Ps \<Longrightarrow> Ps k = None \<Longrightarrow> hds k = 0 \<Longrightarrow> holds s hds (Ps(k \<mapsto> []))"
    and holds_drop: "holds s hds Ps \<Longrightarrow> holds s hds (Ps(k := None))"
    and holds_head: "holds s hds Ps \<Longrightarrow> Ps k = Some ps \<Longrightarrow> hds k = 0 \<longleftrightarrow> ps = []"
begin

text \<open>Adding and then removing what matches a fully specified pair takes all its copies out.\<close>

lemma add_then_remove:
  assumes "holds s hds Ps" "room s" "Ps k = Some ps" "fst p \<noteq> FS_RID_NULL" "snd p \<noteq> FS_RID_NULL"
  shows "\<exists>n s1 n' s2. add s (hds k) p = Some (n, s1)
     \<and> remove s1 n p 0 None = Some (n', s2, 1 + int (count_list ps p), None)
     \<and> holds s2 (hds(k := n')) (Ps(k \<mapsto> filter (\<lambda>q. q \<noteq> p) ps))"
proof -
  obtain n s1 where s1: "add s (hds k) p = Some (n, s1)" "holds s1 (hds(k := n)) (Ps(k \<mapsto> p # ps))"
    using holds_add [OF assms(1-3)] by blast
  have m: "pair_matches p = (\<lambda>q. q = p)"
    using assms(4,5) by (auto simp: pair_matches_def fun_eq_iff prod_eq_iff)
  have c: "length (filter (\<lambda>q. q = p) ps) = count_list ps p"
    by (induction ps) auto
  have "models_after p None qs = None" for qs
    by (simp add: models_after_def)
  with holds_remove [OF s1(2), of k "p # ps" p 0 None] s1(1) show ?thesis
    by (auto simp: m c simp del: fun_upd_apply) (metis fun_upd_same fun_upd_upd)
qed

end

lemma holds_rep:
  assumes "pt_holds pt hds Ps" and "Ps k = Some ps"
  obtains fs Ch ids where "pt_rep pt fs Ch" "Ch k = Some ids" "ps = map (row_pair pt) ids"
    "hds k = head_of ids" "\<And>j. Ps j = map_option (map (row_pair pt)) (Ch j)"
    "\<And>j js. Ch j = Some js \<Longrightarrow> hds j = head_of js"
  using assms unfolding pt_holds_def by fastforce

lemma filter_row_pair:
  "filter P (map (row_pair pt) ids) = map (row_pair pt) (filter (\<lambda>i. P (row_pair pt i)) ids)"
  by (simp add: filter_map comp_def)

lemma pt_holds_add:
  assumes "pt_holds pt hds Ps" and "pt_room pt" and "Ps k = Some ps"
  shows "\<exists>n pt'. fs_ptable_add_pair pt (hds k) p = Some (n, pt') \<and> n \<noteq> 0
     \<and> pt_holds pt' (hds(k := n)) (Ps(k \<mapsto> p # ps))"
proof -
  obtain fs Ch ids where r: "pt_rep pt fs Ch" "Ch k = Some ids" "ps = map (row_pair pt) ids"
      "hds k = head_of ids" "\<And>j. Ps j = map_option (map (row_pair pt)) (Ch j)"
      "\<And>j js. Ch j = Some js \<Longrightarrow> hds j = head_of js"
    using holds_rep [OF assms(1,3)] by blast
  obtain n pt' where add: "fs_ptable_add_pair pt (head_of ids) p = Some (n, pt')" "n \<noteq> 0"
      "pt_rep pt' (tl fs) (Ch(k \<mapsto> n # ids))" "row_pair pt' n = p"
      "\<forall>i. i \<noteq> n \<longrightarrow> i < pt_length pt \<longrightarrow> row_pair pt' i = row_pair pt i"
      "n \<notin> (\<Union>js \<in> ran Ch. set js)"
    using add_pair_ok [OF r(1) assms(2) r(2)] by blast
  have same: "map (row_pair pt') js = map (row_pair pt) js" if "Ch j = Some js" for j js
  proof -
    have "n \<notin> set js" using add(6) that by (auto simp: ran_def)
    then have "row_pair pt' i = row_pair pt i" if "i \<in> set js" for i
      using add(5) pt_chain_less [OF r(1) \<open>Ch j = Some js\<close> that] that by (cases "i = n") auto
    then show ?thesis by simp
  qed
  have "(Ps(k \<mapsto> p # ps)) j = map_option (map (row_pair pt')) ((Ch(k \<mapsto> n # ids)) j)" for j
    using r(3,5) same add(4) r(2) by (cases "Ch j") auto
  then have "pt_holds pt' (hds(k := n)) (Ps(k \<mapsto> p # ps))"
    unfolding pt_holds_def using add(3) r(6)
    by (intro exI [of _ "tl fs"] exI [of _ "Ch(k \<mapsto> n # ids)"]) auto
  with add r(4) show ?thesis by auto
qed

lemma pt_holds_remove:
  assumes "pt_holds pt hds Ps" and "Ps k = Some ps"
  shows "\<exists>n pt'. fs_ptable_remove_pair pt (hds k) pat r m
       = Some (n, pt', r + int (length (filter (pair_matches pat) ps)),
               models_after pat m (filter (pair_matches pat) ps))
     \<and> (n = 0 \<longleftrightarrow> filter (\<lambda>p. \<not> pair_matches pat p) ps = [])
     \<and> pt_holds pt' (hds(k := n)) (Ps(k \<mapsto> filter (\<lambda>p. \<not> pair_matches pat p) ps))"
proof -
  obtain fs Ch ids where r: "pt_rep pt fs Ch" "Ch k = Some ids" "ps = map (row_pair pt) ids"
      "hds k = head_of ids" "\<And>j. Ps j = map_option (map (row_pair pt)) (Ch j)"
      "\<And>j js. Ch j = Some js \<Longrightarrow> hds j = head_of js"
    using holds_rep [OF assms] by blast
  let ?keep = "kept_rows pt pat ids"
  obtain pt' fs' where rm: "fs_ptable_remove_pair pt (head_of ids) pat r m
       = Some (head_of ?keep, pt', r + int (length (gone_rows pt pat ids)),
               models_after pat m (map (row_pair pt) (gone_rows pt pat ids)))"
      "pt_rep pt' fs' (Ch(k \<mapsto> ?keep))" "same_pairs pt' pt"
    using remove_pair_ok [OF r(1,2)] by blast
  have rp: "row_pair pt' = row_pair pt" using rm(3) by (simp add: same_pairs_def)
  have "pt_holds pt' (hds(k := head_of ?keep)) (Ps(k \<mapsto> filter (\<lambda>p. \<not> pair_matches pat p) ps))"
    unfolding pt_holds_def using rm(2) r(3,5,6)
    by (intro exI [of _ fs'] exI [of _ "Ch(k \<mapsto> ?keep)"]) (auto simp: rp filter_row_pair)
  moreover have "head_of ?keep = 0 \<longleftrightarrow> ?keep = []"
    using linked_nonzero [OF arena_chain [OF pt_rep_arena [OF rm(2)] fun_upd_same]]
    by (cases ?keep) auto
  ultimately show ?thesis
    using rm(1) r(3,4) by (auto simp: filter_row_pair simp del: fun_upd_apply)
qed

lemma pt_holds_new: "pt_holds pt hds Ps \<Longrightarrow> Ps k = None \<Longrightarrow> hds k = 0 \<Longrightarrow> pt_holds pt hds (Ps(k \<mapsto> []))"
  unfolding pt_holds_def
proof clarify
  fix fs Ch
  assume a: "Ps k = None" "hds k = 0" "pt_rep pt fs Ch" "\<forall>k. Ps k = map_option (map (row_pair pt)) (Ch k)"
    "\<forall>k ids. Ch k = Some ids \<longrightarrow> hds k = head_of ids"
  then have "Ch k = None" by (cases "Ch k") auto
  with a show "\<exists>fs Ch. pt_rep pt fs Ch \<and> (\<forall>j. (Ps(k \<mapsto> [])) j = map_option (map (row_pair pt)) (Ch j))
      \<and> (\<forall>k ids. Ch k = Some ids \<longrightarrow> hds k = head_of ids)"
    by (intro exI [of _ fs] exI [of _ "Ch(k \<mapsto> [])"]) (auto simp: pt_rep_new_owner)
qed

lemma pt_holds_drop: "pt_holds pt hds Ps \<Longrightarrow> pt_holds pt hds (Ps(k := None))"
  unfolding pt_holds_def
proof clarify
  fix fs Ch
  assume a: "pt_rep pt fs Ch" "\<forall>k. Ps k = map_option (map (row_pair pt)) (Ch k)"
    "\<forall>k ids. Ch k = Some ids \<longrightarrow> hds k = head_of ids"
  then show "\<exists>fs Ch. pt_rep pt fs Ch \<and> (\<forall>j. (Ps(k := None)) j = map_option (map (row_pair pt)) (Ch j))
      \<and> (\<forall>k ids. Ch k = Some ids \<longrightarrow> hds k = head_of ids)"
    by (intro exI [of _ fs] exI [of _ "Ch(k := None)"]) (auto simp: pt_rep_def arena_drop_owner)
qed

lemma pt_holds_head:
  assumes "pt_holds pt hds Ps" "Ps k = Some ps"
  shows "hds k = 0 \<longleftrightarrow> ps = []"
proof -
  obtain fs Ch ids where r: "pt_rep pt fs Ch" "Ch k = Some ids" "ps = map (row_pair pt) ids" "hds k = head_of ids"
    using holds_rep [OF assms] by blast
  then show ?thesis
    using linked_nonzero [OF arena_chain [OF pt_rep_arena [OF r(1)] r(2)]] by (cases ids) auto
qed

interpretation ptab: pair_chains fs_ptable_add_pair fs_ptable_remove_pair pt_holds pt_room
  by unfold_locales
    (fact pt_holds_add pt_holds_remove pt_holds_new pt_holds_drop pt_holds_head)+

section \<open>Reading a chain through the interface\<close>

text \<open>\<open>pt_walk pt b ps\<close>: stepping from row \<open>b\<close> with \<open>fs_ptable_get_row\<close> and
  \<open>fs_ptable_get_next\<close> until row 0 yields the pairs \<open>ps\<close>.\<close>

fun pt_walk :: "ptable \<Rightarrow> nat \<Rightarrow> (rid \<times> rid) list \<Rightarrow> bool" where
  "pt_walk pt b [] \<longleftrightarrow> b = 0"
| "pt_walk pt b (p # ps) \<longleftrightarrow> b \<noteq> 0 \<and> fs_ptable_get_row pt b = Some (Inr p)
     \<and> (\<exists>b'. fs_ptable_get_next pt b = Some b' \<and> pt_walk pt b' ps)"

text \<open>What a client that also reads chains relies on.\<close>

locale readable_chains = pair_chains +
  fixes exists_pair :: "'a \<Rightarrow> nat \<Rightarrow> rid \<times> rid \<Rightarrow> bool option"
    and walk :: "'a \<Rightarrow> nat \<Rightarrow> (rid \<times> rid) list \<Rightarrow> bool"
  assumes holds_exists: "holds s hds Ps \<Longrightarrow> Ps k = Some ps \<Longrightarrow> exists_pair s (hds k) p = Some (p \<in> set ps)"
    and holds_walk: "holds s hds Ps \<Longrightarrow> Ps k = Some ps \<Longrightarrow> walk s (hds k) ps"
    and holds_length: "holds s hds Ps \<Longrightarrow> Ps k = Some ps \<Longrightarrow> length ps < 2147483648"

lemma pt_walk_suffix:
  assumes rep: "pt_rep pt fs Ch" and k: "Ch k = Some (pre @ ids)"
  shows "pt_walk pt (head_of ids) (map (row_pair pt) ids)"
  using k
proof (induction ids arbitrary: pre)
  case (Cons b ids)
  have "b \<noteq> 0" "b < pt_size pt" "b \<le> pt_length pt" "cont (pt_data pt b) = head_of ids"
    using pt_chain_cont [OF rep Cons.prems] pt_chain_less [OF rep Cons.prems, of b] by auto
  moreover have "pt_walk pt (head_of ids) (map (row_pair pt) ids)"
    using Cons.IH [of "pre @ [b]"] Cons.prems by simp
  ultimately show ?case
    by (simp add: fs_ptable_get_row_def fs_ptable_get_next_def row_pair_def [of pt b])
qed simp

lemma pt_holds_walk: "pt_holds pt hds Ps \<Longrightarrow> Ps k = Some ps \<Longrightarrow> pt_walk pt (hds k) ps"
  by (erule (1) holds_rep) (metis append_Nil pt_walk_suffix)

lemma pt_holds_length:
  assumes "pt_holds pt hds Ps" "Ps k = Some ps"
  shows "length ps < 2147483648"
proof -
  obtain fs Ch ids where r: "pt_rep pt fs Ch" "Ch k = Some ids" "ps = map (row_pair pt) ids"
    using holds_rep [OF assms] by blast
  have "distinct ids" by (rule linked_distinct [OF arena_chain [OF pt_rep_arena [OF r(1)] r(2)]])
  moreover have "set ids \<subseteq> {..< pt_size pt}" using pt_chain_less [OF r(1,2)] by auto
  ultimately have "length ids \<le> pt_size pt"
    by (metis card_lessThan card_mono distinct_card finite_lessThan)
  with r(1,3) show ?thesis by (simp add: pt_rep_def)
qed

lemma pt_holds_exists:
  assumes "pt_holds pt hds Ps" "Ps k = Some ps"
  shows "fs_ptable_pair_exists pt (hds k) p = Some (p \<in> set ps)"
proof -
  obtain fs Ch ids where r: "pt_rep pt fs Ch" "Ch k = Some ids" "ps = map (row_pair pt) ids" "hds k = head_of ids"
    using holds_rep [OF assms] by blast
  show ?thesis
  proof (cases ids)
    case (Cons b rest)
    have "b \<noteq> 0" "b \<le> pt_length pt"
      using pt_chain_cont [of pt fs Ch k "[]" b rest] pt_chain_less [OF r(1,2), of b] r(1,2) Cons by auto
    then show ?thesis
      using pair_exists_loop_ok [of pt fs Ch k "[]" ids p] r Cons by (simp add: fs_ptable_pair_exists_def)
  qed (use r in \<open>simp add: fs_ptable_pair_exists_def\<close>)
qed

interpretation ptr: readable_chains fs_ptable_add_pair fs_ptable_remove_pair pt_holds pt_room
  fs_ptable_pair_exists pt_walk
  by unfold_locales (fact pt_holds_exists pt_holds_walk pt_holds_length)+

section \<open>Properties\<close>

text \<open>A small table for the witnesses: one chain of two rows, one free row.\<close>

definition sample_ptable :: ptable where
  "sample_ptable = \<lparr>pt_mapped = True, pt_size = 8, pt_length = 4, pt_free_list = 3,
     pt_data = (\<lambda>_. zero_row)(1 := \<lparr>cont = 2, data0 = 5, data1 = 6\<rparr>,
                              2 := \<lparr>cont = 0, data0 = 5, data1 = 7\<rparr>)\<rparr>"

lemma sample_rep: "pt_rep sample_ptable [3] [0 :: nat \<mapsto> [1, 2]]"
  by (auto simp: pt_rep_def arena_rep_def sample_ptable_def pt_nxt_def zero_row_def split: if_splits)

lemma sample_holds: "pt_holds sample_ptable (\<lambda>_. 1) [0 :: nat \<mapsto> [(5, 6), (5, 7)]]"
proof -
  have "\<forall>k. [0 :: nat \<mapsto> [(5, 6), (5, 7)]] k
      = map_option (map (row_pair sample_ptable)) ([0 \<mapsto> [1, 2]] k)"
    by (simp add: sample_ptable_def row_pair_def)
  moreover have "\<forall>k ids. [0 :: nat \<mapsto> [1, 2]] k = Some ids \<longrightarrow> (1 :: nat) = head_of ids"
    by simp
  ultimately show ?thesis
    unfolding pt_holds_def using sample_rep by blast
qed

text \<open>C30: adding a pair to the chain an owner's head number names returns a new head
  number, puts the pair in front of the owner's pairs and leaves the pairs of every other
  owner as they were, whether the row comes from the free list, from the end of the table
  or from a table that had to grow first.\<close>

theorem ptable_add_pair_cons:
  assumes "pt_holds pt hds Ps" and "pt_room pt" and "Ps k = Some ps"
  shows "\<exists>n pt'. fs_ptable_add_pair pt (hds k) p = Some (n, pt') \<and> n \<noteq> 0
     \<and> pt_holds pt' (hds(k := n)) (Ps(k \<mapsto> p # ps))"
  using assms by (rule ptab.holds_add)

theorem ptable_add_pair_cons_witness:
  "\<exists>n pt'. fs_ptable_add_pair sample_ptable 1 (8, 9) = Some (n, pt') \<and> n \<noteq> 0
     \<and> pt_holds pt' ((\<lambda>_. 1)(0 := n)) ([0 :: nat \<mapsto> [(5, 6), (5, 7)]](0 \<mapsto> [(8, 9), (5, 6), (5, 7)]))"
  using ptable_add_pair_cons [OF sample_holds, of 0 "[(5, 6), (5, 7)]" "(8, 9)"]
  by (simp add: pt_room_def sample_ptable_def)

text \<open>C29: removing a pattern from a chain removes exactly the matching pairs, in place and
  in order, where the null identifier matches anything; it reports their number, returns
  the new head number (0 when nothing is left), records the models of the removed pairs
  when the pattern leaves the model open, and changes no other owner's pairs.\<close>

theorem ptable_remove_pair_filter:
  assumes "pt_holds pt hds Ps" and "Ps k = Some ps"
  shows "\<exists>n pt'. fs_ptable_remove_pair pt (hds k) pat r m
       = Some (n, pt', r + int (length (filter (pair_matches pat) ps)),
               models_after pat m (filter (pair_matches pat) ps))
     \<and> (n = 0 \<longleftrightarrow> filter (\<lambda>p. \<not> pair_matches pat p) ps = [])
     \<and> pt_holds pt' (hds(k := n)) (Ps(k \<mapsto> filter (\<lambda>p. \<not> pair_matches pat p) ps))"
  using assms by (rule ptab.holds_remove)

theorem ptable_remove_pair_filter_witness:
  "\<exists>n pt'. fs_ptable_remove_pair sample_ptable 1 (FS_RID_NULL, 7) 0 None = Some (n, pt', 1, None)
     \<and> n \<noteq> 0 \<and> pt_holds pt' ((\<lambda>_. 1)(0 := n)) ([0 :: nat \<mapsto> [(5, 6), (5, 7)]](0 \<mapsto> [(5, 6)]))"
  using ptable_remove_pair_filter [OF sample_holds fun_upd_same, of "(FS_RID_NULL, 7)" 0 None]
  by (auto simp: pair_matches_def models_after_def FS_RID_NULL_def simp del: fun_upd_apply)

text \<open>C36: a lookup reports that a pair is in a chain exactly when it is, and
  \<open>fs_ptable_chain_length\<close> returns the number of its rows, cut off one past a non-zero
  maximum.\<close>

theorem ptable_lookup_and_length:
  assumes rep: "pt_rep pt fs Ch" and k: "Ch k = Some ids" and ne: "ids \<noteq> []"
  shows "fs_ptable_pair_exists pt (head_of ids) p = Some (p \<in> row_pair pt ` set ids)
     \<and> fs_ptable_chain_length pt (head_of ids) mx
         = Some (if mx = 0 then length ids else min (length ids) (mx + 1))"
proof -
  obtain b rest where ids: "ids = b # rest" using ne by (cases ids) auto
  have b: "b \<noteq> 0" "b < pt_size pt" "b \<le> pt_length pt"
    using pt_chain_cont [of pt fs Ch k "[]" b rest] pt_chain_less [OF rep k, of b] rep k ids by auto
  have "pair_exists_loop pt b p = Some (p \<in> row_pair pt ` set ids)"
    using pair_exists_loop_ok [of pt fs Ch k "[]" ids p] rep k ids by simp
  moreover have "chain_length_loop pt (pt_data pt b) mx 1
      = Some (if mx = 0 then length ids else min (length ids) (mx + 1))"
    using chain_length_loop_ok [of pt fs Ch k "[]" b rest mx 1] rep k ids by auto
  ultimately show ?thesis
    using b ids by (simp add: fs_ptable_pair_exists_def fs_ptable_chain_length_def)
qed

theorem ptable_lookup_and_length_witness:
  "fs_ptable_pair_exists sample_ptable 1 (5, 7) = Some True \<and> fs_ptable_chain_length sample_ptable 1 0 = Some 2"
  using ptable_lookup_and_length [OF sample_rep, of 0 "[1, 2]" "(5, 7)" 0]
  by (simp add: sample_ptable_def row_pair_def)

text \<open>C37: \<open>fs_ptable_free_length\<close> returns one more than the number of rows on the free
  list: its loop counts before it tests for the end of the list.\<close>

theorem ptable_free_length_one_more:
  assumes "pt_rep pt fs Ch" and "length fs < 4294967295"
  shows "fs_ptable_free_length pt = Some (length fs + 1)"
proof -
  have "linked (pt_nxt pt) (pt_free_list pt) fs" "\<forall>i \<in> set fs. i < pt_size pt"
    using arena_free [OF pt_rep_arena [OF assms(1)]] arena_free_less [OF pt_rep_arena [OF assms(1)]] assms(1)
    by (auto simp: pt_rep_def intro: less_le_trans)
  with assms(2) show ?thesis
    using free_length_loop_ok [of pt "pt_free_list pt" fs 0] by (simp add: fs_ptable_free_length_def)
qed

theorem ptable_free_length_one_more_witness:
  "fs_ptable_free_length sample_ptable = Some 2"
  using ptable_free_length_one_more [OF sample_rep] by simp

end
