(* ===== verification/Ptree.thy ===== *)
theory Ptree
  imports Ptable
begin

text \<open>
  The radix trees of the quad index (\<open>backend/ptree.c\<close>).  A tree file is one array of
  16-byte slots shared by inner nodes (four branch numbers) and leaves (a key, the head
  of a chain in the pair table, the length of the chain).  A branch number with the top
  bit set is a node, one without it is a leaf, \<open>FS_PTREE_NULL_NODE\<close> is neither.  Two bits
  of the 64-bit key choose the branch at each of the 32 levels.

  A slot holds what was last stored in it: reading a node slot as a leaf, a slot that was
  never written or one beyond the mapped file is \<open>None\<close>, as is a null dereference.
\<close>

section \<open>Data\<close>

record leaf =
  lf_pk :: rid
  lf_block :: nat
  lf_length :: nat

datatype slot = Raw | Node_slot "nat list" | Leaf_slot leaf

text \<open>\<open>struct ptree_header\<close>, the mapped slots and the pair table of \<open>struct _fs_ptree\<close>.\<close>

record ptree =
  node_base :: nat
  node_size :: nat
  node_count :: nat
  node_alloc :: nat
  leaf_base :: nat
  leaf_size :: nat
  leaf_count :: nat
  leaf_alloc :: nat
  pt_alloc :: nat
  pt_count :: int
  node_free :: nat
  leaf_free :: nat
  slots :: "nat \<Rightarrow> slot"
  pt_table :: ptable

definition FS_PTREE_SIZE_INC :: nat where
  "FS_PTREE_SIZE_INC = 32768"

definition FS_PTREE_NULL_NODE :: nat where
  "FS_PTREE_NULL_NODE = 0x80000000"

definition FS_PTREE_ROOT_NODE :: nat where
  "FS_PTREE_ROOT_NODE = 0x80000001"

definition IS_NODE :: "nat \<Rightarrow> bool" where
  "IS_NODE n \<longleftrightarrow> n div 0x80000000 mod 2 = 1"

definition IS_LEAF :: "nat \<Rightarrow> bool" where
  "IS_LEAF n \<longleftrightarrow> \<not> IS_NODE n"

text \<open>The slot number in a node number, and the node number of a slot.\<close>

definition NODE_REF :: "nat \<Rightarrow> nat" where
  "NODE_REF n = n mod 0x80000000"

definition NODE_ID :: "nat \<Rightarrow> nat" where
  "NODE_ID s = s mod 0x80000000 + 0x80000000"

definition PK_BRANCH :: "rid \<Rightarrow> nat \<Rightarrow> nat" where
  "PK_BRANCH pk i = unat (drop_bit ((31 - i) * 2) pk AND 3)"

text \<open>
  \<open>PK_BRANCH(existpk, i-1)\<close> in \<open>get_or_create_leaf\<close>: the macro does not bracket its
  argument, so the shift is \<open>(31 - i - 1) * 2\<close>, which selects the branch one level
  below \<open>i\<close>.  At level 31 the shift would be negative.
\<close>

definition PK_BRANCH_split :: "rid \<Rightarrow> nat \<Rightarrow> nat option" where
  "PK_BRANCH_split pk i = (if i < 31 then Some (unat (drop_bit ((31 - i - 1) * 2) pk AND 3)) else None)"

section \<open>Slots\<close>

definition slot_get :: "ptree \<Rightarrow> nat \<Rightarrow> slot option" where
  "slot_get pt i = (if i < pt_alloc pt div 16 then Some (slots pt i) else None)"

definition slot_put :: "ptree \<Rightarrow> nat \<Rightarrow> slot \<Rightarrow> ptree option" where
  "slot_put pt i v = (if i < pt_alloc pt div 16 then Some (pt\<lparr>slots := (slots pt)(i := v)\<rparr>) else None)"

definition get_node :: "ptree \<Rightarrow> nat \<Rightarrow> nat list option" where
  "get_node pt i = Option.bind (slot_get pt i) (\<lambda>s. case s of Node_slot bs \<Rightarrow> Some bs | _ \<Rightarrow> None)"

definition get_leaf_slot :: "ptree \<Rightarrow> nat \<Rightarrow> leaf option" where
  "get_leaf_slot pt i = Option.bind (slot_get pt i) (\<lambda>s. case s of Leaf_slot l \<Rightarrow> Some l | _ \<Rightarrow> None)"

definition node_ref :: "ptree \<Rightarrow> nat \<Rightarrow> nat option" where
  "node_ref pt n =
     (if IS_LEAF n then None
      else let offset = NODE_REF n
           in if offset = 0 \<or> offset > node_base pt then None else Some offset)"

text \<open>\<open>node_ref(pt, n)->branch[b]\<close>, read and assigned.\<close>

definition branch_get :: "ptree \<Rightarrow> nat \<Rightarrow> nat \<Rightarrow> nat option" where
  "branch_get pt n b = do { s \<leftarrow> node_ref pt n; bs \<leftarrow> get_node pt s; load_at bs b }"

definition branch_put :: "ptree \<Rightarrow> nat \<Rightarrow> nat \<Rightarrow> nat \<Rightarrow> ptree option" where
  "branch_put pt n b v =
     do { s \<leftarrow> node_ref pt n; bs \<leftarrow> get_node pt s; bs' \<leftarrow> store_at bs b v; slot_put pt s (Node_slot bs') }"

definition null_branches :: "nat list" where
  "null_branches = replicate 4 FS_PTREE_NULL_NODE"

section \<open>The file\<close>

text \<open>\<open>fs_ptree_open_filename\<close> on a new file: \<open>fs_ptree_write_header\<close>, then the pair
  table is attached and the zero \<open>node_free\<close> becomes the null node.\<close>

definition fs_ptree_write_header :: "ptable \<Rightarrow> ptree" where
  "fs_ptree_write_header tbl =
     \<lparr>node_base = 2, node_size = FS_PTREE_SIZE_INC, node_count = 2, node_alloc = FS_PTREE_SIZE_INC,
      leaf_base = FS_PTREE_SIZE_INC * 16 div 16 + 1,
      leaf_size = FS_PTREE_SIZE_INC * 16 div 16 + FS_PTREE_SIZE_INC,
      leaf_count = 2, leaf_alloc = FS_PTREE_SIZE_INC,
      pt_alloc = (FS_PTREE_SIZE_INC * 16 div 16 + FS_PTREE_SIZE_INC) * 16,
      pt_count = 0, node_free = 0, leaf_free = 0,
      slots = (\<lambda>_. Raw)(1 := Node_slot null_branches), pt_table = tbl\<rparr>"

definition fs_ptree_create :: "ptable \<Rightarrow> ptree" where
  "fs_ptree_create tbl =
     (let pt = fs_ptree_write_header tbl
      in if node_free pt = 0 then pt\<lparr>node_free := FS_PTREE_NULL_NODE\<rparr> else pt)"

definition fs_ptree_grow_nodes :: "ptree \<Rightarrow> ptree" where
  "fs_ptree_grow_nodes pt =
     (let alloc' = pt_alloc pt + FS_PTREE_SIZE_INC * 16
      in pt\<lparr>node_base := u32 (pt_alloc pt div 16), pt_alloc := alloc', node_size := u32 (alloc' div 16),
            node_alloc := u32 (node_alloc pt + FS_PTREE_SIZE_INC)\<rparr>)"

definition fs_ptree_grow_leaves :: "ptree \<Rightarrow> ptree" where
  "fs_ptree_grow_leaves pt =
     (let alloc' = pt_alloc pt + FS_PTREE_SIZE_INC * 16
      in pt\<lparr>leaf_base := u32 (pt_alloc pt div 16), pt_alloc := alloc', leaf_size := u32 (alloc' div 16),
            leaf_alloc := u32 (leaf_alloc pt + FS_PTREE_SIZE_INC)\<rparr>)"

section \<open>Allocation\<close>

definition fs_ptree_free_node :: "ptree \<Rightarrow> nat \<Rightarrow> ptree option" where
  "fs_ptree_free_node pt n =
     (if IS_LEAF n then Some pt
      else if n = FS_PTREE_ROOT_NODE then Some pt
      else do {
        bs \<leftarrow> get_node pt (NODE_REF n);
        bs' \<leftarrow> store_at bs 0 (node_free pt);
        pt' \<leftarrow> slot_put pt (NODE_REF n) (Node_slot bs');
        Some (pt'\<lparr>node_free := n\<rparr>)
      })"

text \<open>The allocation of \<open>fs_ptree_new_node\<close> when the free list is not used.\<close>

definition new_node_extend :: "ptree \<Rightarrow> (nat \<times> ptree) option" where
  "new_node_extend pt =
     do {
       let pt1 = (if node_base pt = node_size pt then fs_ptree_grow_nodes pt else pt);
       let n = NODE_ID (node_base pt1);
       let pt2 = pt1\<lparr>node_base := u32 (node_base pt1 + 1), node_count := u32 (node_count pt1 + 1)\<rparr>;
       pt3 \<leftarrow> slot_put pt2 (NODE_REF n) (Node_slot null_branches);
       Some (n, pt3)
     }"

definition fs_ptree_new_node :: "ptree \<Rightarrow> (nat \<times> ptree) option" where
  "fs_ptree_new_node pt =
     (if node_free pt \<noteq> FS_PTREE_NULL_NODE \<and> IS_NODE (node_free pt) then
        do {
          let n = node_free pt;
          bs \<leftarrow> get_node pt (NODE_REF n);
          next \<leftarrow> load_at bs 0;
          pt' \<leftarrow> slot_put (pt\<lparr>node_free := next\<rparr>) (NODE_REF n) (Node_slot null_branches);
          Some (n, pt')
        }
      else new_node_extend pt)"

definition fs_ptree_free_leaf :: "ptree \<Rightarrow> nat \<Rightarrow> ptree option" where
  "fs_ptree_free_leaf pt n =
     (if IS_NODE n then Some pt
      else do {
        l \<leftarrow> get_leaf_slot pt n;
        pt' \<leftarrow> slot_put pt n (Leaf_slot (l\<lparr>lf_block := leaf_free pt\<rparr>));
        Some (pt'\<lparr>leaf_free := n\<rparr>)
      })"

definition empty_leaf :: leaf where
  "empty_leaf = \<lparr>lf_pk = FS_RID_NULL, lf_block = 0, lf_length = 0\<rparr>"

definition fs_ptree_new_leaf :: "ptree \<Rightarrow> (nat \<times> ptree) option" where
  "fs_ptree_new_leaf pt =
     (if leaf_free pt \<noteq> 0 then
        do {
          let n = leaf_free pt;
          l \<leftarrow> get_leaf_slot pt n;
          pt' \<leftarrow> slot_put (pt\<lparr>leaf_free := lf_block l\<rparr>) n (Leaf_slot empty_leaf);
          Some (n, pt')
        }
      else do {
        let pt1 = (if leaf_base pt = leaf_size pt then fs_ptree_grow_leaves pt else pt);
        let n = leaf_base pt1;
        let pt2 = pt1\<lparr>leaf_base := u32 (leaf_base pt1 + 1), leaf_count := u32 (leaf_count pt1 + 1)\<rparr>;
        pt3 \<leftarrow> slot_put pt2 n (Leaf_slot empty_leaf);
        Some (n, pt3)
      })"

section \<open>Finding and creating leaves\<close>

text \<open>The result is the leaf, 0 when there is none, and the parent it was found under.\<close>

function leaf_search :: "ptree \<Rightarrow> rid \<Rightarrow> nat \<Rightarrow> nat \<Rightarrow> (nat \<times> nat option) option" where
  "leaf_search pt pk i pos =
     (if i < 32 then
        do {
          newpos \<leftarrow> branch_get pt pos (PK_BRANCH pk i);
          if newpos = FS_PTREE_NULL_NODE then Some (0, None)
          else if IS_LEAF newpos then
            do {
              l \<leftarrow> get_leaf_slot pt newpos;
              if pk = lf_pk l then Some (newpos, Some pos) else Some (0, None)
            }
          else leaf_search pt pk (i + 1) newpos
        }
      else Some (0, None))"
  by pat_completeness auto
termination
  by (relation "measure (\<lambda>(_, _, i, _). 32 - i)") auto

declare leaf_search.simps [simp del]

definition get_leaf_and_parent :: "ptree \<Rightarrow> rid \<Rightarrow> (nat \<times> nat option) option" where
  "get_leaf_and_parent pt pk = leaf_search pt pk 0 FS_PTREE_ROOT_NODE"

definition get_leaf :: "ptree \<Rightarrow> rid \<Rightarrow> nat option" where
  "get_leaf pt pk = map_option fst (get_leaf_and_parent pt pk)"

text \<open>The loop of \<open>get_or_create_leaf\<close>; \<open>goto again\<close> is the call with the same level.\<close>

partial_function (option) create_search :: "ptree \<Rightarrow> rid \<Rightarrow> nat \<Rightarrow> nat \<Rightarrow> (nat \<times> ptree) option" where
  "create_search pt pk i pos =
     (if i < 32 then
        (case node_ref pt pos of
           None \<Rightarrow> Some (0, pt)
         | Some nr \<Rightarrow>
           do {
             bs \<leftarrow> get_node pt nr;
             newpos \<leftarrow> load_at bs (PK_BRANCH pk i);
             if newpos = FS_PTREE_NULL_NODE then
               if i > 1 then
                 do {
                   (n, pt1) \<leftarrow> fs_ptree_new_leaf pt;
                   l \<leftarrow> get_leaf_slot pt1 n;
                   pt2 \<leftarrow> slot_put pt1 n (Leaf_slot (l\<lparr>lf_pk := pk\<rparr>));
                   pt3 \<leftarrow> branch_put pt2 pos (PK_BRANCH pk i) n;
                   Some (n, pt3)
                 }
               else
                 do {
                   (n, pt1) \<leftarrow> fs_ptree_new_node pt;
                   pt2 \<leftarrow> branch_put pt1 pos (PK_BRANCH pk i) n;
                   create_search pt2 pk (i + 1) n
                 }
             else if IS_LEAF newpos then
               do {
                 l \<leftarrow> get_leaf_slot pt newpos;
                 if pk = lf_pk l then Some (newpos, pt)
                 else do {
                   oldkbr \<leftarrow> PK_BRANCH_split (lf_pk l) i;
                   (split, pt1) \<leftarrow> fs_ptree_new_node pt;
                   pt2 \<leftarrow> branch_put pt1 pos (PK_BRANCH pk i) split;
                   pt3 \<leftarrow> branch_put pt2 split oldkbr newpos;
                   create_search pt3 pk i pos
                 }
               }
             else create_search pt pk (i + 1) newpos
           })
      else Some (0, pt))"

definition get_or_create_leaf :: "ptree \<Rightarrow> rid \<Rightarrow> (nat \<times> ptree) option" where
  "get_or_create_leaf pt pk = create_search pt pk 0 FS_PTREE_ROOT_NODE"

section \<open>Adding\<close>

text \<open>\<open>dedup\<close> is the build option \<open>FS_INSERT_DEDUP\<close>; a missing \<open>pair\<close> is a null pointer.
  The \<open>force\<close> argument is not used.\<close>

definition fs_ptree_add ::
  "bool \<Rightarrow> ptree option \<Rightarrow> rid \<Rightarrow> (rid \<times> rid) option \<Rightarrow> (int \<times> ptree option) option" where
  "fs_ptree_add dedup tree pk pair =
     (case tree of
        None \<Rightarrow> Some (1, None)
      | Some pt \<Rightarrow>
        do {
          (lid, pt1) \<leftarrow> get_or_create_leaf pt pk;
          case pair of
            None \<Rightarrow> Some (1, Some pt1)
          | Some pr \<Rightarrow>
            do {
              l \<leftarrow> get_leaf_slot pt1 lid;
              dup \<leftarrow> (if dedup \<and> lf_block l \<noteq> 0 then fs_ptable_pair_exists (pt_table pt1) (lf_block l) pr
                      else Some False);
              if dup then Some (0, Some pt1)
              else do {
                (new_block, tbl) \<leftarrow> fs_ptable_add_pair (pt_table pt1) (lf_block l) pr;
                let pt2 = pt1\<lparr>pt_table := tbl\<rparr>;
                if new_block \<noteq> 0 then
                  do {
                    pt3 \<leftarrow> slot_put pt2 lid
                      (Leaf_slot (l\<lparr>lf_length := u32 (lf_length l + 1), lf_block := new_block\<rparr>));
                    Some (0, Some (pt3\<lparr>pt_count := pt_count pt3 + 1\<rparr>))
                  }
                else Some (0, Some pt2)
              }
            }
        })"

section \<open>Removing\<close>

datatype recurse_action = NONE | CULL | MERGE

text \<open>The first branch of a node that is not null, \<open>FS_PTREE_NULL_NODE\<close> when there is none.\<close>

fun first_branch :: "nat list \<Rightarrow> nat" where
  "first_branch [] = FS_PTREE_NULL_NODE"
| "first_branch (b # bs) = (if b \<noteq> FS_PTREE_NULL_NODE then b else first_branch bs)"

text \<open>\<open>no->branch[b] = v\<close> for the node pointer \<open>no\<close>, the slot \<open>s\<close>.\<close>

definition set_branch :: "ptree \<Rightarrow> nat \<Rightarrow> nat \<Rightarrow> nat \<Rightarrow> ptree option" where
  "set_branch pt s b v =
     do { bs \<leftarrow> get_node pt s; bs' \<leftarrow> store_at bs b v; slot_put pt s (Node_slot bs') }"

text \<open>The leaf branch of the loop: the number of removed pairs and whether the leaf stays.\<close>

definition remove_all_leaf :: "ptree \<Rightarrow> rid \<times> rid \<Rightarrow> nat \<Rightarrow> nat \<Rightarrow> nat \<Rightarrow> (int \<times> bool \<times> ptree) option" where
  "remove_all_leaf pt pair s b lid =
     do {
       l \<leftarrow> get_leaf_slot pt lid;
       (sub, l1, pt1) \<leftarrow>
         (if lf_block l \<noteq> 0 then
            do {
              (newblock, tbl, sub, _) \<leftarrow> fs_ptable_remove_pair (pt_table pt) (lf_block l) pair 0 None;
              let l1 = l\<lparr>lf_block := newblock,
                         lf_length := (if sub \<noteq> 0 then sub32 (lf_length l) (u32_of_int sub) else lf_length l)\<rparr>;
              pt1 \<leftarrow> slot_put (pt\<lparr>pt_table := tbl\<rparr>) lid (Leaf_slot l1);
              Some (sub, l1, pt1)
            }
          else Some (0, l, pt));
       if sub \<noteq> 0 \<and> lf_length l1 = 0 then
         do {
           pt2 \<leftarrow> fs_ptree_free_leaf pt1 lid;
           pt3 \<leftarrow> set_branch pt2 s b FS_PTREE_NULL_NODE;
           Some (sub, False, pt3)
         }
       else Some (sub, True, pt1)
     }"

text \<open>What the loop does with the action the recursion into branch \<open>b\<close> returned: the
  number of branches this adds.\<close>

definition remove_all_act :: "ptree \<Rightarrow> nat \<Rightarrow> nat \<Rightarrow> nat \<Rightarrow> recurse_action \<Rightarrow> (nat \<times> ptree) option" where
  "remove_all_act pt s b c action =
     (case action of
        CULL \<Rightarrow>
          do {
            pt1 \<leftarrow> fs_ptree_free_node pt c;
            pt2 \<leftarrow> set_branch pt1 s b FS_PTREE_NULL_NODE;
            Some (0, pt2)
          }
      | MERGE \<Rightarrow>
          do {
            sub \<leftarrow> get_node pt (NODE_REF c);
            let subn = first_branch sub;
            if subn \<noteq> FS_PTREE_NULL_NODE then
              do {
                pt1 \<leftarrow> fs_ptree_free_node pt c;
                pt2 \<leftarrow> set_branch pt1 s b subn;
                Some (1, pt2)
              }
            else Some (1, pt)
          }
      | NONE \<Rightarrow> Some (1, pt))"

partial_function (option) remove_all_loop ::
  "ptree \<Rightarrow> rid \<times> rid \<Rightarrow> nat \<Rightarrow> nat \<Rightarrow> nat \<Rightarrow> nat \<Rightarrow> int \<Rightarrow> (recurse_action \<times> int \<times> ptree) option" where
  "remove_all_loop pt pair s b branches leaves removed =
     (if b < 4 then
        do {
          bs \<leftarrow> get_node pt s;
          c \<leftarrow> load_at bs b;
          if c = FS_PTREE_NULL_NODE then remove_all_loop pt pair s (b + 1) branches leaves removed
          else if IS_LEAF c then
            do {
              (sub, stays, pt1) \<leftarrow> remove_all_leaf pt pair s b c;
              if stays then remove_all_loop pt1 pair s (b + 1) (branches + 1) (leaves + 1) (removed + sub)
              else remove_all_loop pt1 pair s (b + 1) branches leaves (removed + sub)
            }
          else
            do {
              s' \<leftarrow> node_ref pt c;
              (action, removed1, pt1) \<leftarrow> remove_all_loop pt pair s' 0 0 0 removed;
              (more, pt2) \<leftarrow> remove_all_act pt1 s b c action;
              remove_all_loop pt2 pair s (b + 1) (branches + more) leaves removed1
            }
        }
      else Some (if branches = 0 then CULL else if branches = 1 \<and> leaves = 1 then MERGE else NONE,
                 removed, pt))"

definition remove_all_recurse ::
  "ptree \<Rightarrow> rid \<times> rid \<Rightarrow> nat \<Rightarrow> int \<Rightarrow> (recurse_action \<times> int \<times> ptree) option" where
  "remove_all_recurse pt pair n removed =
     do { s \<leftarrow> node_ref pt n; remove_all_loop pt pair s 0 0 0 removed }"

definition fs_ptree_remove_all :: "ptree option \<Rightarrow> (rid \<times> rid) option \<Rightarrow> (int \<times> ptree option) option" where
  "fs_ptree_remove_all tree pair =
     (case (tree, pair) of
        (None, _) \<Rightarrow> Some (1, None)
      | (Some pt, None) \<Rightarrow> Some (1, Some pt)
      | (Some pt, Some pr) \<Rightarrow>
        do {
          (_, removed, pt1) \<leftarrow> remove_all_recurse pt pr FS_PTREE_ROOT_NODE 0;
          Some (if removed \<noteq> 0 then 0 else 1, Some (pt1\<lparr>pt_count := pt_count pt1 - removed\<rparr>))
        })"

text \<open>A level beyond 31 would shift by a negative amount.\<close>

function collapse_by_pk_recurse ::
  "ptree \<Rightarrow> rid \<Rightarrow> nat \<Rightarrow> nat \<Rightarrow> (recurse_action \<times> ptree) option" where
  "collapse_by_pk_recurse pt pk n level =
     (if level < 32 then
        do {
          s \<leftarrow> node_ref pt n;
          bs \<leftarrow> get_node pt s;
          let b = PK_BRANCH pk level;
          c \<leftarrow> load_at bs b;
          if c = FS_PTREE_NULL_NODE then Some (NONE, pt)
          else do {
            pt' \<leftarrow>
              (if IS_LEAF c then
                 do {
                   l \<leftarrow> get_leaf_slot pt c;
                   if lf_length l = 0 \<and> lf_block l = 0 then
                     do {
                       pt1 \<leftarrow> fs_ptree_free_leaf pt c;
                       set_branch pt1 s b FS_PTREE_NULL_NODE
                     }
                   else Some pt
                 }
               else
                 do {
                   (action, pt1) \<leftarrow> collapse_by_pk_recurse pt pk c (level + 1);
                   if action = CULL then
                     do {
                       pt2 \<leftarrow> fs_ptree_free_node pt1 c;
                       set_branch pt2 s b FS_PTREE_NULL_NODE
                     }
                   else Some pt1
                 });
            bs' \<leftarrow> get_node pt' s;
            Some (if \<forall>c \<in> set bs'. c = FS_PTREE_NULL_NODE then CULL else NONE, pt')
          }
        }
      else None)"
  by pat_completeness auto
termination
  by (relation "measure (\<lambda>(_, _, _, level). 32 - level)") auto

declare collapse_by_pk_recurse.simps [simp del]

definition collapse_by_pk :: "ptree \<Rightarrow> rid \<Rightarrow> ptree option" where
  "collapse_by_pk pt pk = map_option snd (collapse_by_pk_recurse pt pk FS_PTREE_ROOT_NODE 0)"

definition fs_ptree_remove ::
  "ptree option \<Rightarrow> rid \<Rightarrow> rid \<times> rid \<Rightarrow> rid_set option \<Rightarrow> (int \<times> ptree option \<times> rid_set option) option" where
  "fs_ptree_remove tree pk pair models =
     (case tree of
        None \<Rightarrow> Some (1, None, models)
      | Some pt \<Rightarrow>
        do {
          lid \<leftarrow> get_leaf pt pk;
          if lid = 0 then Some (0, Some pt, models)
          else do {
            l \<leftarrow> get_leaf_slot pt lid;
            if lf_block l = 0 then Some (1, Some pt, models)
            else do {
              (newblock, tbl, removed, models1) \<leftarrow>
                fs_ptable_remove_pair (pt_table pt) (lf_block l) pair 0 models;
              if removed \<noteq> 0 then
                do {
                  let l1 = l\<lparr>lf_block := newblock, lf_length := sub32 (lf_length l) (u32_of_int removed)\<rparr>;
                  pt1 \<leftarrow> slot_put (pt\<lparr>pt_table := tbl, pt_count := pt_count pt - removed\<rparr>) lid (Leaf_slot l1);
                  pt2 \<leftarrow> (if lf_length l1 = 0 then collapse_by_pk pt1 pk else Some pt1);
                  Some (0, Some pt2, models1)
                }
              else
                do {
                  pt1 \<leftarrow> slot_put (pt\<lparr>pt_table := tbl\<rparr>) lid (Leaf_slot (l\<lparr>lf_block := newblock\<rparr>));
                  Some (1, Some pt1, models1)
                }
            }
          }
        })"

section \<open>Searching and traversing\<close>

text \<open>\<open>struct _fs_ptree_it\<close>; the tree is passed beside it.  The stack is a list of node
  numbers with the next branch to visit.\<close>

record ptree_it =
  it_pk :: rid
  it_leaf :: nat
  it_block :: nat
  it_step :: int
  it_length :: nat
  it_pair :: "rid \<times> rid"
  it_traverse :: bool
  it_stack :: "(nat \<times> nat) list"

definition fs_ptree_search :: "ptree option \<Rightarrow> rid \<Rightarrow> rid \<times> rid \<Rightarrow> ptree_it option option" where
  "fs_ptree_search tree pk pair =
     (case tree of
        None \<Rightarrow> Some None
      | Some pt \<Rightarrow>
        do {
          lid \<leftarrow> get_leaf pt pk;
          if lid = 0 then Some None
          else do {
            l \<leftarrow> get_leaf_slot pt lid;
            Some (Some \<lparr>it_pk = 0, it_leaf = lid, it_block = lf_block l, it_step = 0,
                        it_length = lf_length l, it_pair = pair, it_traverse = False, it_stack = []\<rparr>)
          }
        })"

definition fs_ptree_it_get_length :: "ptree_it option \<Rightarrow> nat" where
  "fs_ptree_it_get_length it = (case it of Some i \<Rightarrow> it_length i | None \<Rightarrow> 0)"

text \<open>The loop over the rows of a chain that both iterators run; a row that
  \<open>fs_ptable_get_row\<close> refuses leaves the local \<open>row\<close> unset.\<close>

partial_function (option) next_match ::
  "ptable \<Rightarrow> nat \<Rightarrow> rid \<times> rid \<Rightarrow> ((rid \<times> rid) option \<times> nat) option" where
  "next_match tbl block pat =
     (if block \<noteq> 0 then
        do {
          r \<leftarrow> fs_ptable_get_row tbl block;
          case r of
            Inl _ \<Rightarrow> None
          | Inr row \<Rightarrow>
            do {
              block' \<leftarrow> fs_ptable_get_next tbl block;
              if (fst pat = FS_RID_NULL \<or> fst pat = fst row) \<and> (snd pat = FS_RID_NULL \<or> snd pat = snd row)
              then Some (Some row, block')
              else next_match tbl block' pat
            }
        }
      else Some (None, block))"

definition fs_ptree_it_next :: "ptree \<Rightarrow> ptree_it \<Rightarrow> ((rid \<times> rid) option \<times> ptree_it) option" where
  "fs_ptree_it_next pt it =
     do {
       (found, block) \<leftarrow> next_match (pt_table pt) (it_block it) (it_pair it);
       Some (found, it\<lparr>it_step := it_step it + 1, it_block := block\<rparr>)
     }"

definition fs_ptree_traverse :: "rid \<Rightarrow> ptree_it" where
  "fs_ptree_traverse mrid =
     \<lparr>it_pk = 0, it_leaf = 0, it_block = 0, it_step = 0, it_length = 0, it_pair = (mrid, 0),
      it_traverse = True, it_stack = [(FS_PTREE_ROOT_NODE, 0)]\<rparr>"

text \<open>The loop over the branches of the node on top of the stack: a leaf and the branch
  after it, if one is met, and the stack below the node with the inner nodes pushed.\<close>

function scan_branches ::
  "ptree \<Rightarrow> nat list \<Rightarrow> nat \<Rightarrow> (nat \<times> nat) list \<Rightarrow> ((leaf \<times> nat) option \<times> (nat \<times> nat) list) option" where
  "scan_branches pt bs b below =
     (if b < 4 then
        do {
          c \<leftarrow> load_at bs b;
          if c = FS_PTREE_NULL_NODE then scan_branches pt bs (b + 1) below
          else if IS_LEAF c then
            do { l \<leftarrow> get_leaf_slot pt c; Some (Some (l, b + 1), below) }
          else scan_branches pt bs (b + 1) ((c, 0) # below)
        }
      else Some (None, below))"
  by pat_completeness auto
termination
  by (relation "measure (\<lambda>(_, _, b, _). 4 - b)") auto

declare scan_branches.simps [simp del]

text \<open>The quad \<open>(model, subject or object, other)\<close>; the predicate is not filled out.\<close>

partial_function (option) fs_ptree_traverse_next ::
  "ptree \<Rightarrow> ptree_it \<Rightarrow> ((rid \<times> rid \<times> rid) option \<times> ptree_it) option" where
  "fs_ptree_traverse_next pt it =
     do {
       (found, block) \<leftarrow> next_match (pt_table pt) (it_block it) (fst (it_pair it), FS_RID_NULL);
       case found of
         Some row \<Rightarrow> Some (Some (fst row, it_pk it, snd row), it\<lparr>it_block := block\<rparr>)
       | None \<Rightarrow>
         (case it_stack it of
            [] \<Rightarrow> Some (None, it\<lparr>it_block := block\<rparr>)
          | (n, br) # rest \<Rightarrow>
            do {
              s \<leftarrow> node_ref pt n;
              bs \<leftarrow> get_node pt s;
              (hit, below) \<leftarrow> scan_branches pt bs br rest;
              case hit of
                Some (l, br') \<Rightarrow>
                  fs_ptree_traverse_next pt
                    (it\<lparr>it_block := lf_block l, it_pk := lf_pk l, it_stack := (n, br') # below\<rparr>)
              | None \<Rightarrow> fs_ptree_traverse_next pt (it\<lparr>it_block := 0, it_stack := below\<rparr>)
            })
     }"

definition fs_ptree_count :: "ptree \<Rightarrow> int" where
  "fs_ptree_count pt = pt_count pt"

end
