(* ===== verification/PtreeHeap.thy ===== *)
theory PtreeHeap
  imports Ptree
begin

text \<open>
  What the slots of a tree file represent, and the allocator.  \<open>ttree\<close> is the shape of a
  tree with its slot numbers, \<open>tree_at\<close> says that the slots hold it, \<open>heap_ok\<close> that the
  used slots, the two free lists and the two unused ranges do not overlap.  Each
  allocator operation moves one slot between these sets and touches no other slot.
\<close>

section \<open>Trees and their slots\<close>

datatype ttree = TNull | TLeaf nat leaf | TNode nat "ttree list"

primrec fp :: "ttree \<Rightarrow> nat list" where
  "fp TNull = []"
| "fp (TLeaf i l) = [i]"
| "fp (TNode s ts) = s # concat (map fp ts)"

text \<open>The number that names a tree in a branch.\<close>

fun tid :: "ttree \<Rightarrow> nat" where
  "tid TNull = FS_PTREE_NULL_NODE"
| "tid (TLeaf i l) = i"
| "tid (TNode s ts) = NODE_ID s"

text \<open>The slots \<open>m\<close> hold the tree.\<close>

primrec stored :: "(nat \<Rightarrow> slot) \<Rightarrow> ttree \<Rightarrow> bool" where
  "stored m TNull \<longleftrightarrow> True"
| "stored m (TLeaf i l) \<longleftrightarrow> m i = Leaf_slot l"
| "stored m (TNode s ts) \<longleftrightarrow> m s = Node_slot (map tid ts) \<and> list_all (stored m) ts"

text \<open>Every leaf sits below the branches its key names, and no node below level 31.\<close>

definition digits :: "rid \<Rightarrow> nat list" where
  "digits pk = map (PK_BRANCH pk) [0..<32]"

lemma size_nth: "b < length ts \<Longrightarrow> size (ts ! b) < Suc (size_list size ts)"
  by (metis less_Suc_eq_le nth_mem size_list_estimation' order_refl)

function tree_ok :: "nat list \<Rightarrow> ttree \<Rightarrow> bool" where
  "tree_ok p TNull \<longleftrightarrow> True"
| "tree_ok p (TLeaf i l) \<longleftrightarrow> length p \<le> 32 \<and> take (length p) (digits (lf_pk l)) = p"
| "tree_ok p (TNode s ts) \<longleftrightarrow> length p < 32 \<and> length ts = 4 \<and>
     (\<forall>b < length ts. tree_ok (p @ [b]) (ts ! b))"
  by pat_completeness auto
termination
  by (relation "measure (size \<circ> snd)") (auto simp: size_nth)

function tfind :: "ttree \<Rightarrow> nat \<Rightarrow> rid \<Rightarrow> (nat \<times> leaf) option" where
  "tfind TNull i pk = None"
| "tfind (TLeaf n l) i pk = (if lf_pk l = pk then Some (n, l) else None)"
| "tfind (TNode s ts) i pk =
     (if PK_BRANCH pk i < length ts then tfind (ts ! PK_BRANCH pk i) (i + 1) pk else None)"
  by pat_completeness auto
termination
  by (relation "measure (size \<circ> fst)") (auto simp: size_nth)

lemma stored_cong: "(\<And>i. i \<in> set (fp t) \<Longrightarrow> m' i = m i) \<Longrightarrow> stored m' t = stored m t"
  by (induction t) (auto simp: list_all_iff)

lemma PK_BRANCH_less [simp]: "PK_BRANCH pk i < 4"
proof -
  have "drop_bit ((31 - i) * 2) pk AND 3 \<le> 3" by (rule word_and_le1)
  then have "unat (drop_bit ((31 - i) * 2) pk AND 3) \<le> unat (3 :: rid)" by (simp add: word_le_nat_alt)
  then show ?thesis by (simp add: PK_BRANCH_def)
qed

lemma length_digits [simp]: "length (digits pk) = 32"
  by (simp add: digits_def)

lemma digits_nth [simp]: "i < 32 \<Longrightarrow> digits pk ! i = PK_BRANCH pk i"
  by (simp add: digits_def)

lemma take_Suc_digits: "i < 32 \<Longrightarrow> take (Suc i) (digits pk) = take i (digits pk) @ [PK_BRANCH pk i]"
  by (simp add: take_Suc_conv_app_nth)

lemma PK_BRANCH_bit:
  "i < 32 \<Longrightarrow> j < 2 \<Longrightarrow> bit (PK_BRANCH pk i) j \<longleftrightarrow> bit pk ((31 - i) * 2 + j)"
  by (auto simp: PK_BRANCH_def bit_unsigned_iff bit_and_iff bit_drop_bit_eq less_2_cases_iff
      bit_0 bit_Suc simp del: bit_numeral_word_iff)

lemma digits_inject: "digits a = digits b \<longleftrightarrow> a = b"
proof
  assume d: "digits a = digits b"
  show "a = b"
  proof (rule bit_word_eqI)
    fix n assume "n < LENGTH(64)"
    then have n: "31 - n div 2 < 32" "(31 - (31 - n div 2)) * 2 + n mod 2 = n" by auto
    have "PK_BRANCH a (31 - n div 2) = PK_BRANCH b (31 - n div 2)"
      using d n(1) digits_nth by metis
    with PK_BRANCH_bit [OF n(1), of "n mod 2" a] PK_BRANCH_bit [OF n(1), of "n mod 2" b] n(2)
    show "bit a n = bit b n" by simp
  qed
qed simp

lemma PK_BRANCH_split_eq: "i < 31 \<Longrightarrow> PK_BRANCH_split pk i = Some (PK_BRANCH pk (Suc i))"
  by (simp add: PK_BRANCH_split_def PK_BRANCH_def diff_diff_eq)

section \<open>Node numbers\<close>

lemma NODE_ID_small: "s < 2147483648 \<Longrightarrow> NODE_ID s = s + 2147483648"
  by (simp add: NODE_ID_def)

lemma NODE_REF_ID [simp]: "NODE_REF (NODE_ID s) = s mod 2147483648"
  by (simp add: NODE_ID_def NODE_REF_def)

lemma IS_NODE_ID [simp]: "IS_NODE (NODE_ID s)"
proof -
  have "(s mod 2147483648 + 2147483648) div 2147483648 = (1 :: nat)"
    by (simp add: div_add_self2)
  then show ?thesis by (simp add: NODE_ID_def IS_NODE_def)
qed

lemma IS_LEAF_small [simp]: "s < 2147483648 \<Longrightarrow> IS_LEAF s"
  by (simp add: IS_LEAF_def IS_NODE_def)

lemma NODE_ID_eq_null [simp]: "NODE_ID s = FS_PTREE_NULL_NODE \<longleftrightarrow> s mod 2147483648 = 0"
  by (simp add: NODE_ID_def FS_PTREE_NULL_NODE_def)

lemma NODE_ID_eq_root [simp]: "NODE_ID s = FS_PTREE_ROOT_NODE \<longleftrightarrow> s mod 2147483648 = 1"
  by (simp add: NODE_ID_def FS_PTREE_ROOT_NODE_def)

lemma NODE_ID_root: "NODE_ID 1 = FS_PTREE_ROOT_NODE"
  by (simp add: NODE_ID_def FS_PTREE_ROOT_NODE_def)

section \<open>The heap invariant\<close>

fun free_nodes :: "(nat \<Rightarrow> slot) \<Rightarrow> nat \<Rightarrow> nat list \<Rightarrow> bool" where
  "free_nodes m n [] \<longleftrightarrow> n = FS_PTREE_NULL_NODE"
| "free_nodes m n (s # ss) \<longleftrightarrow> n = NODE_ID s \<and>
     (case m s of Node_slot (b # bs) \<Rightarrow> length bs = 3 \<and> free_nodes m b ss | _ \<Rightarrow> False)"

fun free_leaves :: "(nat \<Rightarrow> slot) \<Rightarrow> nat \<Rightarrow> nat list \<Rightarrow> bool" where
  "free_leaves m n [] \<longleftrightarrow> n = 0"
| "free_leaves m n (i # is) \<longleftrightarrow> n = i \<and>
     (case m i of Leaf_slot l \<Rightarrow> free_leaves m (lf_block l) is | _ \<Rightarrow> False)"

definition cap :: "ptree \<Rightarrow> nat" where
  "cap pt = pt_alloc pt div 16"

text \<open>A slot that was handed out: inside the file and outside the two unused ranges.\<close>

definition placed :: "ptree \<Rightarrow> nat \<Rightarrow> bool" where
  "placed pt i \<longleftrightarrow> 0 < i \<and> i < cap pt \<and> \<not> (node_base pt \<le> i \<and> i < node_size pt)
     \<and> \<not> (leaf_base pt \<le> i \<and> i < leaf_size pt)"

definition ranges_ok :: "ptree \<Rightarrow> bool" where
  "ranges_ok pt \<longleftrightarrow> cap pt < 2147483648 \<and> 0 < node_base pt \<and> node_base pt \<le> node_size pt \<and> node_size pt \<le> cap pt
     \<and> 0 < leaf_base pt \<and> leaf_base pt \<le> leaf_size pt \<and> leaf_size pt \<le> cap pt
     \<and> (node_size pt \<le> leaf_base pt \<or> leaf_size pt \<le> node_base pt
        \<or> node_base pt = node_size pt \<or> leaf_base pt = leaf_size pt)"

definition node_slot :: "slot \<Rightarrow> bool" where
  "node_slot v \<longleftrightarrow> (case v of Node_slot _ \<Rightarrow> True | _ \<Rightarrow> False)"

definition heap_ok :: "ptree \<Rightarrow> nat set \<Rightarrow> nat list \<Rightarrow> nat list \<Rightarrow> bool" where
  "heap_ok pt U fn fl \<longleftrightarrow> ranges_ok pt \<and> (\<forall>i \<in> U \<union> set fn \<union> set fl. placed pt i)
     \<and> (\<forall>i \<in> U \<union> set fn. node_slot (slots pt i) \<longrightarrow> i < node_base pt)
     \<and> distinct (fn @ fl) \<and> U \<inter> set (fn @ fl) = {}
     \<and> free_nodes (slots pt) (node_free pt) fn \<and> free_leaves (slots pt) (leaf_free pt) fl"

definition ptree_room :: "nat \<Rightarrow> ptree \<Rightarrow> bool" where
  "ptree_room j pt \<longleftrightarrow> cap pt + j * 32768 < 2147483648"

lemma node_slot_simps [simp]:
  "node_slot (Node_slot bs)" "\<not> node_slot (Leaf_slot l)" "\<not> node_slot Raw"
  by (simp_all add: node_slot_def)

lemma free_nodes_cong: "(\<And>i. i \<in> set fn \<Longrightarrow> m' i = m i) \<Longrightarrow> free_nodes m' n fn = free_nodes m n fn"
  by (induction fn arbitrary: n) (auto split: slot.splits list.splits)

lemma free_leaves_cong: "(\<And>i. i \<in> set fl \<Longrightarrow> m' i = m i) \<Longrightarrow> free_leaves m' n fl = free_leaves m n fl"
  by (induction fl arbitrary: n) (auto split: slot.splits)

lemma free_nodes_upd [simp]: "i \<notin> set fn \<Longrightarrow> free_nodes (m(i := v)) n fn = free_nodes m n fn"
  by (rule free_nodes_cong) auto

lemma free_leaves_upd [simp]: "i \<notin> set fl \<Longrightarrow> free_leaves (m(i := v)) n fl = free_leaves m n fl"
  by (rule free_leaves_cong) auto

lemma null_branches_simps [simp]:
  "length null_branches = 4" "b < 4 \<Longrightarrow> null_branches ! b = FS_PTREE_NULL_NODE"
  by (simp_all add: null_branches_def)

lemma slot_get_Some [simp]: "i < cap pt \<Longrightarrow> slot_get pt i = Some (slots pt i)"
  by (simp add: slot_get_def cap_def)

lemma slot_put_Some [simp]: "i < cap pt \<Longrightarrow> slot_put pt i v = Some (pt\<lparr>slots := (slots pt)(i := v)\<rparr>)"
  by (simp add: slot_put_def cap_def)

lemma cap_frame [simp]:
  "cap (pt\<lparr>slots := a\<rparr>) = cap pt" "cap (pt\<lparr>node_free := n\<rparr>) = cap pt" "cap (pt\<lparr>leaf_free := n\<rparr>) = cap pt"
  "cap (pt\<lparr>pt_table := t\<rparr>) = cap pt" "cap (pt\<lparr>pt_count := c\<rparr>) = cap pt"
  "cap (pt\<lparr>node_base := n\<rparr>) = cap pt" "cap (pt\<lparr>node_count := n\<rparr>) = cap pt"
  "cap (pt\<lparr>leaf_base := n\<rparr>) = cap pt" "cap (pt\<lparr>leaf_count := n\<rparr>) = cap pt"
  by (simp_all add: cap_def)

lemma ptree_room_mono: "ptree_room k pt \<Longrightarrow> j \<le> k \<Longrightarrow> ptree_room j pt"
  by (auto simp: ptree_room_def elim: order.strict_trans1 [rotated])

lemma heap_ok_frame [simp]:
  "heap_ok (pt\<lparr>pt_table := t\<rparr>) U fn fl = heap_ok pt U fn fl"
  "heap_ok (pt\<lparr>pt_count := c\<rparr>) U fn fl = heap_ok pt U fn fl"
  by (simp_all add: heap_ok_def ranges_ok_def placed_def)

lemma heap_ok_used:
  assumes "heap_ok pt U fn fl" "i \<in> U"
  shows "0 < i" "i < cap pt" "i < 2147483648" "i \<notin> set fn" "i \<notin> set fl"
    and "node_slot (slots pt i) \<Longrightarrow> i < node_base pt"
proof -
  have "placed pt i" "ranges_ok pt" using assms by (auto simp: heap_ok_def)
  then show "0 < i" "i < cap pt" "i < 2147483648" by (simp_all add: ranges_ok_def placed_def)
  show "i \<notin> set fn" "i \<notin> set fl" "node_slot (slots pt i) \<Longrightarrow> i < node_base pt"
    using assms by (auto simp: heap_ok_def)
qed

text \<open>A store to a used slot that keeps its kind.\<close>

lemma heap_ok_store:
  assumes "heap_ok pt U fn fl" "i \<in> U" "node_slot v \<longrightarrow> node_slot (slots pt i)"
  shows "heap_ok (pt\<lparr>slots := (slots pt)(i := v)\<rparr>) U fn fl"
proof -
  note u = heap_ok_used [OF assms(1,2)]
  have "ranges_ok (pt\<lparr>slots := (slots pt)(i := v)\<rparr>)" "\<And>j. placed pt j \<Longrightarrow> placed (pt\<lparr>slots := (slots pt)(i := v)\<rparr>) j"
    using assms(1) by (simp_all add: heap_ok_def ranges_ok_def placed_def)
  with assms u(4,5) show ?thesis
    by (auto simp: heap_ok_def)
qed

section \<open>The allocator\<close>

lemma cap_grow [simp]:
  "cap (fs_ptree_grow_nodes pt) = cap pt + 32768" "cap (fs_ptree_grow_leaves pt) = cap pt + 32768"
  by (simp_all add: cap_def fs_ptree_grow_nodes_def fs_ptree_grow_leaves_def FS_PTREE_SIZE_INC_def Let_def)

text \<open>Growing a full range moves it to the end of the file.\<close>

lemma heap_ok_grow_nodes:
  assumes h: "heap_ok pt U fn fl" and r: "ptree_room 1 pt" and full: "node_base pt = node_size pt"
  shows "heap_ok (fs_ptree_grow_nodes pt) U fn fl"
    and "node_base (fs_ptree_grow_nodes pt) < node_size (fs_ptree_grow_nodes pt)"
proof -
  have c: "cap pt + 32768 < 2147483648" using r by (simp add: ptree_room_def)
  have n: "node_base (fs_ptree_grow_nodes pt) = cap pt" "node_size (fs_ptree_grow_nodes pt) = cap pt + 32768"
    using c by (simp_all add: fs_ptree_grow_nodes_def FS_PTREE_SIZE_INC_def Let_def cap_def)
  then show "node_base (fs_ptree_grow_nodes pt) < node_size (fs_ptree_grow_nodes pt)" by simp
  have f: "leaf_base (fs_ptree_grow_nodes pt) = leaf_base pt" "leaf_size (fs_ptree_grow_nodes pt) = leaf_size pt"
    "slots (fs_ptree_grow_nodes pt) = slots pt" "node_free (fs_ptree_grow_nodes pt) = node_free pt"
    "leaf_free (fs_ptree_grow_nodes pt) = leaf_free pt"
    by (simp_all add: fs_ptree_grow_nodes_def Let_def)
  have "ranges_ok pt" using h by (simp add: heap_ok_def)
  then have "ranges_ok (fs_ptree_grow_nodes pt)"
    using c full unfolding ranges_ok_def f n cap_grow by linarith
  moreover have "placed (fs_ptree_grow_nodes pt) i" if "placed pt i" for i
    using that unfolding placed_def f n cap_grow by auto
  moreover have "i < node_base (fs_ptree_grow_nodes pt)" if "placed pt i" "i < node_base pt" for i
    using that unfolding placed_def f n by simp
  ultimately show "heap_ok (fs_ptree_grow_nodes pt) U fn fl"
    using h unfolding heap_ok_def f by blast
qed

lemma heap_ok_grow_leaves:
  assumes h: "heap_ok pt U fn fl" and r: "ptree_room 1 pt" and full: "leaf_base pt = leaf_size pt"
  shows "heap_ok (fs_ptree_grow_leaves pt) U fn fl"
    and "leaf_base (fs_ptree_grow_leaves pt) < leaf_size (fs_ptree_grow_leaves pt)"
proof -
  have c: "cap pt + 32768 < 2147483648" using r by (simp add: ptree_room_def)
  have n: "leaf_base (fs_ptree_grow_leaves pt) = cap pt" "leaf_size (fs_ptree_grow_leaves pt) = cap pt + 32768"
    using c by (simp_all add: fs_ptree_grow_leaves_def FS_PTREE_SIZE_INC_def Let_def cap_def)
  then show "leaf_base (fs_ptree_grow_leaves pt) < leaf_size (fs_ptree_grow_leaves pt)" by simp
  have f: "node_base (fs_ptree_grow_leaves pt) = node_base pt" "node_size (fs_ptree_grow_leaves pt) = node_size pt"
    "slots (fs_ptree_grow_leaves pt) = slots pt" "node_free (fs_ptree_grow_leaves pt) = node_free pt"
    "leaf_free (fs_ptree_grow_leaves pt) = leaf_free pt"
    by (simp_all add: fs_ptree_grow_leaves_def Let_def)
  have "ranges_ok pt" using h by (simp add: heap_ok_def)
  then have "ranges_ok (fs_ptree_grow_leaves pt)"
    using c full unfolding ranges_ok_def f n cap_grow by linarith
  moreover have "placed (fs_ptree_grow_leaves pt) i" if "placed pt i" for i
    using that unfolding placed_def f n cap_grow by auto
  moreover have "i < node_base (fs_ptree_grow_leaves pt)" if "placed pt i" "i < node_base pt" for i
    using that unfolding placed_def f n by simp
  ultimately show "heap_ok (fs_ptree_grow_leaves pt) U fn fl"
    using h unfolding heap_ok_def f by blast
qed

text \<open>Taking the first slot of a range that is not full.\<close>

lemma heap_ok_take_node:
  assumes h: "heap_ok pt U fn fl" and lt: "node_base pt < node_size pt"
  defines "s \<equiv> node_base pt"
  shows "s \<notin> U" and "0 < s" and "s < cap pt" and "s < 2147483648"
    and "heap_ok (pt\<lparr>node_base := u32 (s + 1), node_count := c, slots := (slots pt)(s := Node_slot null_branches)\<rparr>)
           (insert s U) fn fl"
proof -
  have ro: "ranges_ok pt" and pl: "\<And>i. i \<in> U \<union> set fn \<union> set fl \<Longrightarrow> placed pt i"
    using h by (simp_all add: heap_ok_def)
  have "\<not> placed pt s" using lt by (simp add: placed_def s_def)
  then have r: "0 < s" "s < cap pt" "s < 2147483648" "s \<notin> U" "s \<notin> set fn" "s \<notin> set fl"
    using ro pl lt by (auto simp: ranges_ok_def s_def)
  then show "s \<notin> U" "0 < s" "s < cap pt" "s < 2147483648" by simp_all
  let ?pt = "pt\<lparr>node_base := u32 (s + 1), node_count := c, slots := (slots pt)(s := Node_slot null_branches)\<rparr>"
  have b: "u32 (s + 1) = s + 1" using r(3) by simp
  have "ranges_ok ?pt" using ro lt r(3) unfolding ranges_ok_def b by (simp add: s_def b) linarith
  moreover have "placed ?pt i" if "placed pt i \<or> i = s" for i
    using that ro lt unfolding placed_def ranges_ok_def b by (simp add: s_def) linarith
  moreover have "\<forall>i \<in> insert s U \<union> set fn. node_slot (slots ?pt i) \<longrightarrow> i < node_base ?pt"
    using h b r by (auto simp: heap_ok_def s_def)
  ultimately show "heap_ok (pt\<lparr>node_base := u32 (s + 1), node_count := c, slots := (slots pt)(s := Node_slot null_branches)\<rparr>)
      (insert s U) fn fl"
    using h pl r(4-6) by (auto simp: heap_ok_def)
qed

lemma heap_ok_take_leaf:
  assumes h: "heap_ok pt U fn fl" and lt: "leaf_base pt < leaf_size pt"
  defines "s \<equiv> leaf_base pt"
  shows "s \<notin> U" and "0 < s" and "s < cap pt" and "s < 2147483648"
    and "heap_ok (pt\<lparr>leaf_base := u32 (s + 1), leaf_count := c, slots := (slots pt)(s := Leaf_slot empty_leaf)\<rparr>)
           (insert s U) fn fl"
proof -
  have ro: "ranges_ok pt" and pl: "\<And>i. i \<in> U \<union> set fn \<union> set fl \<Longrightarrow> placed pt i"
    using h by (simp_all add: heap_ok_def)
  have "\<not> placed pt s" using lt by (simp add: placed_def s_def)
  then have r: "0 < s" "s < cap pt" "s < 2147483648" "s \<notin> U" "s \<notin> set fn" "s \<notin> set fl"
    using ro pl lt by (auto simp: ranges_ok_def s_def)
  then show "s \<notin> U" "0 < s" "s < cap pt" "s < 2147483648" by simp_all
  let ?pt = "pt\<lparr>leaf_base := u32 (s + 1), leaf_count := c, slots := (slots pt)(s := Leaf_slot empty_leaf)\<rparr>"
  have b: "u32 (s + 1) = s + 1" using r(3) by simp
  have "ranges_ok ?pt" using ro lt r(3) unfolding ranges_ok_def b by (simp add: s_def b) linarith
  moreover have "placed ?pt i" if "placed pt i \<or> i = s" for i
    using that ro lt unfolding placed_def ranges_ok_def b by (simp add: s_def) linarith
  moreover have "\<forall>i \<in> insert s U \<union> set fn. node_slot (slots ?pt i) \<longrightarrow> i < node_base ?pt"
    using h b r by (auto simp: heap_ok_def s_def)
  ultimately show "heap_ok (pt\<lparr>leaf_base := u32 (s + 1), leaf_count := c, slots := (slots pt)(s := Leaf_slot empty_leaf)\<rparr>)
      (insert s U) fn fl"
    using h pl r(4-6) by (auto simp: heap_ok_def)
qed

text \<open>Moving a slot between the used ones and a free list.\<close>

lemma heap_ok_pop_node:
  assumes h: "heap_ok pt U (s # fn) fl"
  obtains b bs where "slots pt s = Node_slot (b # bs)" "length bs = 3" "node_free pt = NODE_ID s"
    "s < cap pt" "s < 2147483648" "0 < s" "s \<notin> U"
    "heap_ok (pt\<lparr>node_free := b, slots := (slots pt)(s := Node_slot null_branches)\<rparr>) (insert s U) fn fl"
proof -
  have s: "s < cap pt" "s < 2147483648" "0 < s" "s \<notin> U" "s \<notin> set fn" "s \<notin> set fl"
    using h by (auto simp: heap_ok_def ranges_ok_def placed_def)
  obtain b bs where b: "slots pt s = Node_slot (b # bs)" "length bs = 3" "node_free pt = NODE_ID s"
    and fn: "free_nodes (slots pt) b fn"
    using h by (auto simp: heap_ok_def split: slot.splits list.splits)
  let ?pt = "pt\<lparr>node_free := b, slots := (slots pt)(s := Node_slot null_branches)\<rparr>"
  have "ranges_ok ?pt" "\<And>j. placed pt j \<Longrightarrow> placed ?pt j"
    using h by (simp_all add: heap_ok_def ranges_ok_def placed_def)
  then have "heap_ok ?pt (insert s U) fn fl"
    using h s fn b(1) by (auto simp: heap_ok_def)
  with s b that show thesis by blast
qed

lemma heap_ok_pop_leaf:
  assumes h: "heap_ok pt U fn (s # fl)"
  obtains l where "slots pt s = Leaf_slot l" "leaf_free pt = s" "s < cap pt" "s < 2147483648" "0 < s" "s \<notin> U"
    "heap_ok (pt\<lparr>leaf_free := lf_block l, slots := (slots pt)(s := Leaf_slot empty_leaf)\<rparr>) (insert s U) fn fl"
proof -
  have s: "s < cap pt" "s < 2147483648" "0 < s" "s \<notin> U" "s \<notin> set fn" "s \<notin> set fl"
    using h by (auto simp: heap_ok_def ranges_ok_def placed_def)
  obtain l where l: "slots pt s = Leaf_slot l" "leaf_free pt = s" and fl: "free_leaves (slots pt) (lf_block l) fl"
    using h by (auto simp: heap_ok_def split: slot.splits)
  let ?pt = "pt\<lparr>leaf_free := lf_block l, slots := (slots pt)(s := Leaf_slot empty_leaf)\<rparr>"
  have "ranges_ok ?pt" "\<And>j. placed pt j \<Longrightarrow> placed ?pt j"
    using h by (simp_all add: heap_ok_def ranges_ok_def placed_def)
  then have "heap_ok ?pt (insert s U) fn fl"
    using h s fl by (auto simp: heap_ok_def)
  with s l that show thesis by blast
qed

lemma heap_ok_nil_node: "heap_ok pt U [] fl \<Longrightarrow> node_free pt = FS_PTREE_NULL_NODE"
  by (simp add: heap_ok_def)

lemma heap_ok_nil_leaf: "heap_ok pt U fn [] \<Longrightarrow> leaf_free pt = 0"
  by (simp add: heap_ok_def)

definition same_data :: "ptree \<Rightarrow> ptree \<Rightarrow> bool" where
  "same_data pt' pt \<longleftrightarrow> pt_table pt' = pt_table pt \<and> pt_count pt' = pt_count pt"

lemma same_data_refl [simp]: "same_data pt pt"
  by (simp add: same_data_def)

lemma same_data_trans: "same_data c b \<Longrightarrow> same_data b a \<Longrightarrow> same_data c a"
  by (simp add: same_data_def)

lemma same_data_slots [simp]: "same_data (pt\<lparr>slots := m\<rparr>) pt0 = same_data pt pt0"
  "same_data pt0 (pt\<lparr>slots := m\<rparr>) = same_data pt0 pt"
  by (simp_all add: same_data_def)

text \<open>\<open>fs_ptree_new_node\<close> returns the number of a slot that was not in use, cleared.\<close>

lemma new_node_ok:
  assumes h: "heap_ok pt U fn fl" and r: "ptree_room (Suc j) pt"
  shows "\<exists>s pt'. fs_ptree_new_node pt = Some (NODE_ID s, pt') \<and> s \<notin> U \<and> 0 < s \<and> s < 2147483648
     \<and> slots pt' = (slots pt)(s := Node_slot null_branches)
     \<and> heap_ok pt' (insert s U) (tl fn) fl \<and> ptree_room j pt' \<and> same_data pt' pt"
proof (cases fn)
  case (Cons s fn')
  obtain b bs where b: "slots pt s = Node_slot (b # bs)" "node_free pt = NODE_ID s"
    "s < cap pt" "s < 2147483648" "0 < s" "s \<notin> U"
    "heap_ok (pt\<lparr>node_free := b, slots := (slots pt)(s := Node_slot null_branches)\<rparr>) (insert s U) fn' fl"
    using heap_ok_pop_node h unfolding Cons by blast
  then have "fs_ptree_new_node pt = Some (NODE_ID s, pt\<lparr>node_free := b, slots := (slots pt)(s := Node_slot null_branches)\<rparr>)"
    by (simp add: fs_ptree_new_node_def get_node_def load_at_def)
  with b r Cons show ?thesis
    by (auto simp: ptree_room_def same_data_def)
next
  case Nil
  define pt0 where "pt0 = (if node_base pt = node_size pt then fs_ptree_grow_nodes pt else pt)"
  have r1: "ptree_room 1 pt" using r by (rule ptree_room_mono) simp
  have lt: "heap_ok pt0 U fn fl" "node_base pt0 < node_size pt0"
    using heap_ok_grow_nodes [OF h r1] h by (auto simp: pt0_def heap_ok_def ranges_ok_def)
  have f: "slots pt0 = slots pt" "same_data pt0 pt"
    by (simp_all add: pt0_def fs_ptree_grow_nodes_def same_data_def Let_def)
  have r0: "ptree_room j pt0" using r by (auto simp: pt0_def ptree_room_def)
  note t = heap_ok_take_node [OF lt]
  let ?pt = "pt0\<lparr>node_base := u32 (node_base pt0 + 1), node_count := u32 (node_count pt0 + 1),
      slots := (slots pt0)(node_base pt0 := Node_slot null_branches)\<rparr>"
  have "fs_ptree_new_node pt = new_node_extend pt"
    using heap_ok_nil_node h Nil by (simp add: fs_ptree_new_node_def)
  also have "\<dots> = Some (NODE_ID (node_base pt0), ?pt)"
    unfolding new_node_extend_def pt0_def [symmetric] using t(3,4) by (simp add: Let_def)
  finally have "fs_ptree_new_node pt = Some (NODE_ID (node_base pt0), ?pt)" .
  moreover have "ptree_room j ?pt" "same_data ?pt pt" "slots ?pt = (slots pt)(node_base pt0 := Node_slot null_branches)"
    using r0 f by (simp_all add: ptree_room_def same_data_def)
  ultimately show ?thesis using t(1,2,4,5) Nil by (metis list.sel(2))
qed

lemma new_leaf_ok:
  assumes h: "heap_ok pt U fn fl" and r: "ptree_room (Suc j) pt"
  shows "\<exists>s pt'. fs_ptree_new_leaf pt = Some (s, pt') \<and> s \<notin> U \<and> 0 < s \<and> s < 2147483648
     \<and> slots pt' = (slots pt)(s := Leaf_slot empty_leaf)
     \<and> heap_ok pt' (insert s U) fn (tl fl) \<and> ptree_room j pt' \<and> same_data pt' pt"
proof (cases fl)
  case (Cons s fl')
  obtain l where b: "slots pt s = Leaf_slot l" "leaf_free pt = s"
    "s < cap pt" "s < 2147483648" "0 < s" "s \<notin> U"
    "heap_ok (pt\<lparr>leaf_free := lf_block l, slots := (slots pt)(s := Leaf_slot empty_leaf)\<rparr>) (insert s U) fn fl'"
    using heap_ok_pop_leaf h unfolding Cons by blast
  then have "fs_ptree_new_leaf pt = Some (s, pt\<lparr>leaf_free := lf_block l, slots := (slots pt)(s := Leaf_slot empty_leaf)\<rparr>)"
    by (simp add: fs_ptree_new_leaf_def get_leaf_slot_def)
  with b r Cons show ?thesis
    by (auto simp: ptree_room_def same_data_def)
next
  case Nil
  define pt0 where "pt0 = (if leaf_base pt = leaf_size pt then fs_ptree_grow_leaves pt else pt)"
  have r1: "ptree_room 1 pt" using r by (rule ptree_room_mono) simp
  have lt: "heap_ok pt0 U fn fl" "leaf_base pt0 < leaf_size pt0"
    using heap_ok_grow_leaves [OF h r1] h by (auto simp: pt0_def heap_ok_def ranges_ok_def)
  have f: "slots pt0 = slots pt" "same_data pt0 pt"
    by (simp_all add: pt0_def fs_ptree_grow_leaves_def same_data_def Let_def)
  have r0: "ptree_room j pt0" using r by (auto simp: pt0_def ptree_room_def)
  note t = heap_ok_take_leaf [OF lt]
  let ?pt = "pt0\<lparr>leaf_base := u32 (leaf_base pt0 + 1), leaf_count := u32 (leaf_count pt0 + 1),
      slots := (slots pt0)(leaf_base pt0 := Leaf_slot empty_leaf)\<rparr>"
  have "fs_ptree_new_leaf pt = Some (leaf_base pt0, ?pt)"
    unfolding fs_ptree_new_leaf_def pt0_def [symmetric] using t(3) heap_ok_nil_leaf h Nil by (simp add: Let_def)
  moreover have "ptree_room j ?pt" "same_data ?pt pt" "slots ?pt = (slots pt)(leaf_base pt0 := Leaf_slot empty_leaf)"
    using r0 f by (simp_all add: ptree_room_def same_data_def)
  ultimately show ?thesis using t(1,2,4,5) Nil by (metis list.sel(2))
qed

lemma free_node_ok:
  assumes h: "heap_ok pt U fn fl" and s: "s \<in> U" "s \<noteq> 1" and n: "slots pt s = Node_slot bs" "length bs = 4"
  shows "\<exists>pt'. fs_ptree_free_node pt (NODE_ID s) = Some pt' \<and> heap_ok pt' (U - {s}) (s # fn) fl
     \<and> (\<forall>i. i \<noteq> s \<longrightarrow> slots pt' i = slots pt i) \<and> same_data pt' pt \<and> cap pt' = cap pt"
proof -
  note u = heap_ok_used [OF h s(1)]
  obtain b0 bs' where bs: "bs = b0 # bs'" "length bs' = 3" using n(2) by (cases bs) auto
  let ?pt = "pt\<lparr>slots := (slots pt)(s := Node_slot (node_free pt # bs')), node_free := NODE_ID s\<rparr>"
  have "fs_ptree_free_node pt (NODE_ID s) = Some ?pt"
    using u(2,3) s(2) n bs
    by (simp add: fs_ptree_free_node_def IS_LEAF_def get_node_def store_at_def)
  moreover have "ranges_ok ?pt" "\<And>j. placed pt j \<Longrightarrow> placed ?pt j"
    using h by (simp_all add: heap_ok_def ranges_ok_def placed_def)
  then have "heap_ok ?pt (U - {s}) (s # fn) fl"
    using h s(1) u n(1) bs by (auto simp: heap_ok_def)
  ultimately show ?thesis by (auto simp: same_data_def)
qed

lemma free_leaf_ok:
  assumes h: "heap_ok pt U fn fl" and s: "s \<in> U" and n: "slots pt s = Leaf_slot l"
  shows "\<exists>pt'. fs_ptree_free_leaf pt s = Some pt' \<and> heap_ok pt' (U - {s}) fn (s # fl)
     \<and> (\<forall>i. i \<noteq> s \<longrightarrow> slots pt' i = slots pt i) \<and> same_data pt' pt \<and> cap pt' = cap pt"
proof -
  note u = heap_ok_used [OF h s(1)]
  let ?pt = "pt\<lparr>slots := (slots pt)(s := Leaf_slot (l\<lparr>lf_block := leaf_free pt\<rparr>)), leaf_free := s\<rparr>"
  have "\<not> IS_NODE s" using u(3) IS_LEAF_small IS_LEAF_def by blast
  then have "fs_ptree_free_leaf pt s = Some ?pt"
    using u(2) n by (simp add: fs_ptree_free_leaf_def get_leaf_slot_def)
  moreover have "ranges_ok ?pt" "\<And>j. placed pt j \<Longrightarrow> placed ?pt j"
    using h by (simp_all add: heap_ok_def ranges_ok_def placed_def)
  then have "heap_ok ?pt (U - {s}) fn (s # fl)"
    using h s(1) u n by (auto simp: heap_ok_def)
  ultimately show ?thesis by (auto simp: same_data_def)
qed

end
