(* ===== verification/PtreeFind.thy ===== *)
theory PtreeFind
  imports PtreeHeap
begin

text \<open>
  Finding and creating leaves: \<open>get_leaf\<close> returns the leaf the tree holds for the key, and
  \<open>get_or_create_leaf\<close> returns it or adds an empty one, whatever nodes it has to add or
  split on the way, without changing what any other key finds.
\<close>

section \<open>Reading a stored node\<close>

lemma tid_null:
  assumes "heap_ok pt U fn fl" "set (fp t) \<subseteq> U"
  shows "tid t = FS_PTREE_NULL_NODE \<longleftrightarrow> t = TNull"
  using assms heap_ok_used(1,3) [OF assms(1)]
  by (cases t) (fastforce simp: FS_PTREE_NULL_NODE_def NODE_ID_def)+

lemma tid_leaf:
  assumes "heap_ok pt U fn fl" "set (fp t) \<subseteq> U" "t \<noteq> TNull"
  shows "IS_LEAF (tid t) \<longleftrightarrow> (\<exists>n l. t = TLeaf n l)"
  using assms heap_ok_used(3) [OF assms(1)] by (cases t) (auto simp: IS_LEAF_def [of "NODE_ID _"])

lemma fp_nth: "b < length ts \<Longrightarrow> set (fp (ts ! b)) \<subseteq> set (fp (TNode s ts))"
  by (fastforce simp: in_set_conv_nth)

lemma get_node_stored:
  assumes "heap_ok pt U fn fl" "s \<in> U" "slots pt s = Node_slot bs"
  shows "node_ref pt (NODE_ID s) = Some s" "get_node pt s = Some bs"
  using heap_ok_used [OF assms(1,2)] assms(3)
  by (auto simp: node_ref_def IS_LEAF_def get_node_def Let_def)

lemma get_leaf_stored:
  assumes "heap_ok pt U fn fl" "n \<in> U" "slots pt n = Leaf_slot l"
  shows "get_leaf_slot pt n = Some l"
  using heap_ok_used [OF assms(1,2)] assms(3) by (simp add: get_leaf_slot_def)

lemma branch_get_stored:
  assumes "heap_ok pt U fn fl" "set (fp (TNode s ts)) \<subseteq> U" "stored (slots pt) (TNode s ts)" "b < length ts"
  shows "branch_get pt (NODE_ID s) b = Some (tid (ts ! b))"
  using get_node_stored [OF assms(1), of s] assms by (simp add: branch_get_def load_at_def)

section \<open>Looking a key up\<close>

lemma leaf_search_ok:
  assumes "heap_ok pt U fn fl" "set (fp t) \<subseteq> U" "stored (slots pt) t" "tree_ok p t" "t = TNode s ts"
  shows "\<exists>parent. leaf_search pt pk (length p) (NODE_ID s)
     = Some (case tfind t (length p) pk of None \<Rightarrow> 0 | Some (n, l) \<Rightarrow> n, parent)"
  using assms
proof (induction t arbitrary: p s ts)
  case (TNode s0 ts0)
  then have eq: "s0 = s" "ts0 = ts" by simp_all
  let ?b = "PK_BRANCH pk (length p)" and ?t = "ts ! PK_BRANCH pk (length p)"
  have b: "?b < length ts" "length p < 32" "length ts = 4" "tree_ok (p @ [?b]) ?t"
    using TNode.prems(4,5) by auto
  have sub: "set (fp ?t) \<subseteq> U" "stored (slots pt) ?t" "?t \<in> set ts"
    using TNode.prems fp_nth [OF b(1), of s] b(1) by (auto simp: list_all_iff)
  have get: "branch_get pt (NODE_ID s) ?b = Some (tid ?t)"
    using branch_get_stored [OF TNode.prems(1) _ _ b(1)] TNode.prems(2,3,5) by simp
  have nl: "tid ?t = FS_PTREE_NULL_NODE \<longleftrightarrow> ?t = TNull" by (rule tid_null [OF TNode.prems(1) sub(1)])
  show ?case
  proof (cases ?t)
    case TNull
    then show ?thesis using get b by (subst leaf_search.simps) (simp add: eq)
  next
    case (TLeaf n l)
    then have "IS_LEAF n" "get_leaf_slot pt n = Some l" "n \<noteq> FS_PTREE_NULL_NODE"
      using tid_leaf [OF TNode.prems(1) sub(1)] sub nl get_leaf_stored [OF TNode.prems(1), of n l] by auto
    then show ?thesis using get b TLeaf by (subst leaf_search.simps) (auto simp: eq)
  next
    case (TNode s1 ts1)
    have "\<not> IS_LEAF (NODE_ID s1)" "NODE_ID s1 \<noteq> FS_PTREE_NULL_NODE"
      using nl TNode tid_leaf [OF TNode.prems(1) sub(1)] by (auto simp: IS_LEAF_def)
    moreover obtain parent where "leaf_search pt pk (Suc (length p)) (NODE_ID s1)
        = Some (case tfind ?t (Suc (length p)) pk of None \<Rightarrow> 0 | Some (n, l) \<Rightarrow> n, parent)"
      using TNode.IH [of ?t "p @ [?b]" s1 ts1] TNode.prems(1) sub b(4) TNode eq by auto
    ultimately show ?thesis using get b TNode by (subst leaf_search.simps) (auto simp: eq)
  qed
qed simp_all

section \<open>Replacing a subtree\<close>

lemma distinct_replace:
  assumes "distinct (s # as @ bs @ cs)" "distinct ts" "set ts \<inter> (set (s # as @ bs @ cs) - set bs) = {}"
  shows "distinct (s # as @ ts @ cs)"
proof -
  have "x \<notin> set ts" if "x \<in> set (s # as @ cs)" for x
    using that assms(1,3) by auto
  then show ?thesis using assms(1,2) by auto
qed

lemma fp_update:
  assumes d: "distinct (fp (TNode s ts))" and b: "b < length ts"
  shows "set (fp (TNode s (ts[b := t]))) = (set (fp (TNode s ts)) - set (fp (ts ! b))) \<union> set (fp t)"
    and "distinct (fp t) \<Longrightarrow> set (fp t) \<inter> (set (fp (TNode s ts)) - set (fp (ts ! b))) = {}
      \<Longrightarrow> distinct (fp (TNode s (ts[b := t])))"
proof -
  define xs ys where "xs = take b ts" and "ys = drop (Suc b) ts"
  have ts: "ts = xs @ ts ! b # ys" "ts[b := t] = xs @ t # ys"
    using b by (simp_all add: xs_def ys_def id_take_nth_drop [symmetric] upd_conv_take_nth_drop)
  have d': "distinct (fp (TNode s (xs @ ts ! b # ys)))" using d ts(1) by simp
  have set_ts: "set (fp (TNode s ts)) = set (fp (TNode s (xs @ ts ! b # ys)))" using ts(1) by simp
  show "set (fp (TNode s (ts[b := t]))) = (set (fp (TNode s ts)) - set (fp (ts ! b))) \<union> set (fp t)"
    unfolding ts(2) set_ts using d' by auto
  show "distinct (fp (TNode s (ts[b := t])))"
    if "distinct (fp t)" "set (fp t) \<inter> (set (fp (TNode s ts)) - set (fp (ts ! b))) = {}"
    using that distinct_replace [of s "concat (map fp xs)" "fp (ts ! b)" "concat (map fp ys)" "fp t"] d'
    unfolding ts(2) set_ts by simp
qed

lemma fp_child:
  assumes "distinct (fp (TNode s ts))" "b < length ts"
  shows "distinct (fp (ts ! b))" "s \<notin> set (fp (ts ! b))" "set (fp (ts ! b)) \<subseteq> set (fp (TNode s ts))"
    and "c < length ts \<Longrightarrow> c \<noteq> b \<Longrightarrow> set (fp (ts ! c)) \<inter> set (fp (ts ! b)) = {}"
proof -
  have ts: "ts = take b ts @ ts ! b # drop (Suc b) ts" using assms(2) by (rule id_take_nth_drop)
  have d: "distinct (fp (TNode s (take b ts @ ts ! b # drop (Suc b) ts)))" using assms(1) ts by simp
  then show "distinct (fp (ts ! b))" "s \<notin> set (fp (ts ! b))" by auto
  show "set (fp (ts ! b)) \<subseteq> set (fp (TNode s ts))" using assms(2) by (rule fp_nth)
  assume c: "c < length ts" "c \<noteq> b"
  have "ts ! c \<in> set (take b ts) \<or> ts ! c \<in> set (drop (Suc b) ts)"
  proof (cases "c < b")
    case True then show ?thesis using c(1) by (auto simp: in_set_conv_nth intro!: exI [of _ c])
  next
    case False
    then have "drop (Suc b) ts ! (c - Suc b) = ts ! c" "c - Suc b < length (drop (Suc b) ts)" using c by auto
    then show ?thesis by (metis nth_mem)
  qed
  with d show "set (fp (ts ! c)) \<inter> set (fp (ts ! b)) = {}" by fastforce
qed

text \<open>Storing a node whose branch \<open>b\<close> now leads to \<open>t\<close>.\<close>

lemma stored_update:
  assumes "stored m (TNode s ts)" and d: "distinct (fp (TNode s ts))" and b: "b < length ts"
    and m': "m' s = Node_slot (map tid (ts[b := t]))" "stored m' t"
    and keep: "\<And>i. i \<in> set (fp (TNode s ts)) - {s} - set (fp (ts ! b)) \<Longrightarrow> m' i = m i"
  shows "stored m' (TNode s (ts[b := t]))"
proof -
  have "stored m' (ts ! c)" if c: "c < length ts" "c \<noteq> b" for c
  proof -
    have "stored m (ts ! c)" using assms(1) c(1) by (simp add: list_all_length)
    moreover have "m' i = m i" if "i \<in> set (fp (ts ! c))" for i
      using that fp_child [OF d c(1)] fp_child(4) [OF d b c] by (intro keep) auto
    ultimately show ?thesis by (simp cong: stored_cong)
  qed
  then show ?thesis using m' b by (simp add: list_all_length nth_list_update)
qed

lemma tree_ok_update:
  "tree_ok p (TNode s ts) \<Longrightarrow> tree_ok (p @ [b]) t \<Longrightarrow> tree_ok p (TNode s (ts[b := t]))"
  by (cases "b < length ts") (auto simp: nth_list_update)

lemma tfind_update:
  "b < length ts \<Longrightarrow> tfind (TNode s (ts[b := t])) i pk
     = (if PK_BRANCH pk i = b then tfind t (Suc i) pk else tfind (TNode s ts) i pk)"
  by auto

section \<open>Creating a leaf\<close>

text \<open>The entry for a key after \<open>get_or_create_leaf\<close>: the one it had, or an empty leaf.\<close>

definition entry_after :: "nat \<Rightarrow> rid \<Rightarrow> (nat \<times> leaf) option \<Rightarrow> nat \<times> leaf" where
  "entry_after n pk e = (case e of Some x \<Rightarrow> x | None \<Rightarrow> (n, empty_leaf\<lparr>lf_pk := pk\<rparr>))"

text \<open>
  \<open>created pk p pt s ts U n pt' ts'\<close>: the search for \<open>pk\<close> below the node \<open>s\<close>, reached by the
  branches \<open>p\<close>, turned the subtrees \<open>ts\<close> into \<open>ts'\<close> and returned the leaf \<open>n\<close>; of the used
  slots \<open>U\<close> it changed only those of the subtree.
\<close>

definition created ::
  "rid \<Rightarrow> nat list \<Rightarrow> ptree \<Rightarrow> nat \<Rightarrow> ttree list \<Rightarrow> nat set \<Rightarrow> nat \<Rightarrow> ptree \<Rightarrow> ttree list \<Rightarrow> bool" where
  "created pk p pt s ts U n pt' ts' \<longleftrightarrow>
     stored (slots pt') (TNode s ts') \<and> tree_ok p (TNode s ts') \<and> distinct (fp (TNode s ts'))
   \<and> set (fp (TNode s ts')) \<inter> U = set (fp (TNode s ts))
   \<and> (\<exists>fn fl. heap_ok pt' (U \<union> set (fp (TNode s ts'))) fn fl)
   \<and> (\<forall>i \<in> U - set (fp (TNode s ts)). slots pt' i = slots pt i)
   \<and> (\<forall>k. tfind (TNode s ts') (length p) k
        = (if k = pk then Some (entry_after n pk (tfind (TNode s ts) (length p) pk))
           else tfind (TNode s ts) (length p) k))
   \<and> fst (entry_after n pk (tfind (TNode s ts) (length p) pk)) = n
   \<and> same_data pt' pt"

text \<open>The bookkeeping for one level: the subtree at branch \<open>b\<close> became \<open>t'\<close>.\<close>

lemma created_update:
  assumes ok: "tree_ok p (TNode s ts)" "distinct (fp (TNode s ts))" "set (fp (TNode s ts)) \<subseteq> U"
      "stored (slots pt) (TNode s ts)" "b = PK_BRANCH pk (length p)"
    and t': "tree_ok (p @ [b]) t'" "distinct (fp t')" "set (fp t') \<inter> U = set (fp (ts ! b))"
      "stored (slots pt') t'" "heap_ok pt' (U \<union> set (fp t')) fn fl"
    and mem: "slots pt' s = Node_slot (map tid (ts[b := t']))"
      "\<And>i. i \<in> U - {s} - set (fp (ts ! b)) \<Longrightarrow> slots pt' i = slots pt i" "same_data pt' pt"
    and find: "\<And>k. tfind t' (Suc (length p)) k
         = (if k = pk then Some (entry_after n pk (tfind (ts ! b) (Suc (length p)) pk))
            else tfind (ts ! b) (Suc (length p)) k)"
      "fst (entry_after n pk (tfind (ts ! b) (Suc (length p)) pk)) = n"
  shows "created pk p pt s ts U n pt' (ts[b := t'])"
proof -
  let ?T = "TNode s ts" and ?t = "ts ! b"
  have b: "b < length ts" using ok(1,5) by simp
  note ch = fp_child [OF ok(2) b]
  have disj: "set (fp t') \<inter> (set (fp ?T) - set (fp ?t)) = {}" using t'(3) ok(3) by blast
  have setT: "set (fp (TNode s (ts[b := t']))) = (set (fp ?T) - set (fp ?t)) \<union> set (fp t')"
    by (rule fp_update(1) [OF ok(2) b])
  have "tfind ?T (length p) k = tfind ?t (Suc (length p)) k" if "PK_BRANCH k (length p) = b" for k
    using that b by simp
  then have find_all: "\<forall>k. tfind (TNode s (ts[b := t'])) (length p) k
      = (if k = pk then Some (entry_after n pk (tfind ?T (length p) pk)) else tfind ?T (length p) k)"
    "fst (entry_after n pk (tfind ?T (length p) pk)) = n"
    using b ok(5) find by (simp_all add: tfind_update del: tfind.simps)
  have "slots pt' i = slots pt i" if "i \<in> set (fp ?T) - {s} - set (fp ?t)" for i
    using that ok(3) by (intro mem(2)) blast
  then have "stored (slots pt') (TNode s (ts[b := t']))"
    by (rule stored_update [OF ok(4,2) b mem(1) t'(4)])
  moreover have "tree_ok p (TNode s (ts[b := t']))" by (rule tree_ok_update [OF ok(1) t'(1)])
  moreover have "distinct (fp (TNode s (ts[b := t'])))" by (rule fp_update(2) [OF ok(2) b t'(2) disj])
  moreover have "set (fp (TNode s (ts[b := t']))) \<inter> U = set (fp ?T)"
    unfolding setT using t'(3) ok(3) ch(3) by blast
  moreover have "U \<union> set (fp t') = U \<union> set (fp (TNode s (ts[b := t'])))"
    unfolding setT using ok(3) by blast
  with t'(5) have "\<exists>fn fl. heap_ok pt' (U \<union> set (fp (TNode s (ts[b := t'])))) fn fl" by metis
  moreover have "\<forall>i \<in> U - set (fp ?T). slots pt' i = slots pt i"
    using ch(3) by (auto intro!: mem(2))
  ultimately show ?thesis unfolding created_def using find_all mem(3) by blast
qed

text \<open>
  \<open>entered p pt s ts U b pt2 s2 ts2\<close>: the branch \<open>b\<close> of the node \<open>s\<close> leads to the node \<open>s2\<close>
  in \<open>pt2\<close>, which finds what the branch found before.
\<close>

definition entered ::
  "nat list \<Rightarrow> ptree \<Rightarrow> nat \<Rightarrow> ttree list \<Rightarrow> nat set \<Rightarrow> nat \<Rightarrow> ptree \<Rightarrow> nat \<Rightarrow> ttree list \<Rightarrow> bool" where
  "entered p pt s ts U b pt2 s2 ts2 \<longleftrightarrow>
     tree_ok (p @ [b]) (TNode s2 ts2) \<and> distinct (fp (TNode s2 ts2)) \<and> stored (slots pt2) (TNode s2 ts2)
   \<and> (\<exists>fn fl. heap_ok pt2 (U \<union> set (fp (TNode s2 ts2))) fn fl)
   \<and> set (fp (TNode s2 ts2)) \<inter> U = set (fp (ts ! b))
   \<and> (\<forall>k. tfind (TNode s2 ts2) (Suc (length p)) k = tfind (ts ! b) (Suc (length p)) k)
   \<and> slots pt2 s = Node_slot (map tid (ts[b := TNode s2 ts2]))
   \<and> (\<forall>i \<in> U - {s} - set (fp (ts ! b)). slots pt2 i = slots pt i) \<and> same_data pt2 pt"

lemma entered_created:
  assumes ok: "tree_ok p (TNode s ts)" "distinct (fp (TNode s ts))" "set (fp (TNode s ts)) \<subseteq> U"
      "stored (slots pt) (TNode s ts)" "b = PK_BRANCH pk (length p)"
    and en: "entered p pt s ts U b pt2 s2 ts2"
    and cr: "created pk (p @ [b]) pt2 s2 ts2 (U \<union> set (fp (TNode s2 ts2))) n pt' ts2'"
  shows "created pk p pt s ts U n pt' (ts[b := TNode s2 ts2'])"
proof -
  let ?t = "ts ! b" and ?t2 = "TNode s2 ts2" and ?t' = "TNode s2 ts2'"
  have b: "b < length ts" using ok(1,5) by simp
  have sub: "set (fp ?t2) \<inter> U = set (fp ?t)" using en unfolding entered_def by blast
  have new: "set (fp ?t') \<inter> U = set (fp ?t)" "set (fp ?t2) \<subseteq> set (fp ?t')"
    using cr sub unfolding created_def by blast+
  have keep: "slots pt' i = slots pt2 i" if "i \<in> U - set (fp ?t)" for i
    using cr sub that unfolding created_def by blast
  have "slots pt' s = slots pt2 s" using ok(3) fp_child(2) [OF ok(2) b] by (intro keep) auto
  then have node: "slots pt' s = Node_slot (map tid (ts[b := ?t']))"
    using en by (simp add: entered_def map_update)
  have old: "slots pt' i = slots pt i" if "i \<in> U - {s} - set (fp ?t)" for i
    using keep [of i] en that unfolding entered_def by simp
  have tf: "tfind ?t2 (length (p @ [b])) k = tfind ?t (Suc (length p)) k" for k
    using en by (simp add: entered_def del: tfind.simps)
  have find: "tfind ?t' (Suc (length p)) k = (if k = pk then Some (entry_after n pk (tfind ?t (Suc (length p)) pk))
      else tfind ?t (Suc (length p)) k)" "fst (entry_after n pk (tfind ?t (Suc (length p)) pk)) = n" for k
    using cr unfolding created_def tf by (simp_all del: tfind.simps)
  have "U \<union> set (fp ?t2) \<union> set (fp ?t') = U \<union> set (fp ?t')" using new(2) by blast
  with cr obtain fn fl where "heap_ok pt' (U \<union> set (fp ?t')) fn fl" unfolding created_def by metis
  moreover have "same_data pt' pt" using cr en same_data_trans unfolding created_def entered_def by blast
  moreover have "tree_ok (p @ [b]) ?t'" "distinct (fp ?t')" "stored (slots pt') ?t'"
    using cr unfolding created_def by blast+
  ultimately show ?thesis using created_update [OF ok _ _ new(1) _ _ node old _ find] by blast
qed

lemma branch_put_stored:
  assumes "heap_ok pt U fn fl" "s \<in> U" "slots pt s = Node_slot bs" "b < length bs"
  shows "branch_put pt (NODE_ID s) b v = Some (pt\<lparr>slots := (slots pt)(s := Node_slot (bs[b := v]))\<rparr>)"
  using get_node_stored [OF assms(1-3)] heap_ok_used(2) [OF assms(1,2)] assms(4)
  by (simp add: branch_put_def store_at_def)

abbreviation no_trees :: "ttree list" where
  "no_trees \<equiv> replicate 4 TNull"

lemma less4: "b < (4 :: nat) \<longleftrightarrow> b = 0 \<or> b = 1 \<or> b = 2 \<or> b = 3"
  by auto

lemma fp_single: "b < 4 \<Longrightarrow> fp (TNode s (no_trees[b := t])) = s # fp t"
  unfolding less4 by (elim disjE) (simp_all add: numeral_eq_Suc)

lemma stored_single: "b < 4 \<Longrightarrow> stored m (TNode s (no_trees[b := t]))
    \<longleftrightarrow> m s = Node_slot (null_branches[b := tid t]) \<and> stored m t"
  unfolding less4 by (elim disjE) (simp_all add: numeral_eq_Suc null_branches_def)

text \<open>A null branch above level 2 gets a new node.\<close>

lemma enter_null:
  assumes h: "heap_ok pt U fn fl" and r: "ptree_room (Suc j) pt"
    and ok: "tree_ok p (TNode s ts)" "set (fp (TNode s ts)) \<subseteq> U" "stored (slots pt) (TNode s ts)"
    and b: "b < 4" "ts ! b = TNull" and p: "length p < 31"
  shows "\<exists>s2 pt1 pt2. fs_ptree_new_node pt = Some (NODE_ID s2, pt1)
     \<and> branch_put pt1 (NODE_ID s) b (NODE_ID s2) = Some pt2
     \<and> entered p pt s ts U b pt2 s2 no_trees \<and> ptree_room j pt2"
proof -
  obtain s2 pt1 where n: "fs_ptree_new_node pt = Some (NODE_ID s2, pt1)" "s2 \<notin> U"
    "slots pt1 = (slots pt)(s2 := Node_slot null_branches)"
    "heap_ok pt1 (insert s2 U) (tl fn) fl" "ptree_room j pt1" "same_data pt1 pt"
    using new_node_ok [OF h r] by blast
  have s: "s \<in> insert s2 U" "s \<noteq> s2" using ok(2) n(2) by auto
  then have m: "slots pt1 s = Node_slot (map tid ts)" using n(3) ok(3) by simp
  let ?pt2 = "pt1\<lparr>slots := (slots pt1)(s := Node_slot ((map tid ts)[b := NODE_ID s2]))\<rparr>"
  have put: "branch_put pt1 (NODE_ID s) b (NODE_ID s2) = Some ?pt2"
    using branch_put_stored [OF n(4) s(1) m] ok(1) b(1) by simp
  have "heap_ok ?pt2 (insert s2 U) (tl fn) fl"
    by (rule heap_ok_store [OF n(4) s(1)]) (simp add: m)
  then have "entered p pt s ts U b ?pt2 s2 no_trees"
    using s n(2,3,6) p b ok(1) by (auto simp: entered_def null_branches_def list_all_length map_update)
  then show ?thesis using n(1,5) put by (auto simp: ptree_room_def)
qed

text \<open>A leaf with another key is moved below a new node.\<close>

lemma split_leaf:
  assumes h: "heap_ok pt U fn fl" and r: "ptree_room (Suc j) pt"
    and ok: "tree_ok p (TNode s ts)" "set (fp (TNode s ts)) \<subseteq> U" "stored (slots pt) (TNode s ts)"
      "distinct (fp (TNode s ts))"
    and b: "b < 4" "ts ! b = TLeaf n l" and p: "length p < 31"
  defines "c \<equiv> PK_BRANCH (lf_pk l) (Suc (length p))"
  shows "\<exists>s2 pt1 pt2 pt3. fs_ptree_new_node pt = Some (NODE_ID s2, pt1)
     \<and> branch_put pt1 (NODE_ID s) b (NODE_ID s2) = Some pt2
     \<and> branch_put pt2 (NODE_ID s2) c n = Some pt3
     \<and> entered p pt s ts U b pt3 s2 (no_trees[c := TLeaf n l]) \<and> ptree_room j pt3"
proof -
  obtain s2 pt1 where n: "fs_ptree_new_node pt = Some (NODE_ID s2, pt1)" "s2 \<notin> U"
    "slots pt1 = (slots pt)(s2 := Node_slot null_branches)"
    "heap_ok pt1 (insert s2 U) (tl fn) fl" "ptree_room j pt1" "same_data pt1 pt"
    using new_node_ok [OF h r] by blast
  have len: "length ts = 4" and c: "c < 4" using ok(1) by (simp_all add: c_def)
  have leaf: "n \<in> U" "n \<noteq> s" "slots pt n = Leaf_slot l" "tree_ok (p @ [b]) (TLeaf n l)"
    using fp_child(2,3) [OF ok(4), of b] ok b len by (force simp: list_all_length)+
  have s: "s \<in> insert s2 U" "s \<noteq> s2" "n \<noteq> s2" using ok(2) n(2) leaf(1) by auto
  then have m: "slots pt1 s = Node_slot (map tid ts)" using n(3) ok(3) by simp
  let ?pt2 = "pt1\<lparr>slots := (slots pt1)(s := Node_slot ((map tid ts)[b := NODE_ID s2]))\<rparr>"
  have put: "branch_put pt1 (NODE_ID s) b (NODE_ID s2) = Some ?pt2"
    using branch_put_stored [OF n(4) s(1) m] len b(1) by simp
  have h2: "heap_ok ?pt2 (insert s2 U) (tl fn) fl"
    by (rule heap_ok_store [OF n(4) s(1)]) (simp add: m)
  have m2: "slots ?pt2 s2 = Node_slot null_branches" using s n(3) by simp
  let ?pt3 = "?pt2\<lparr>slots := (slots ?pt2)(s2 := Node_slot (null_branches[c := n]))\<rparr>"
  have put2: "branch_put ?pt2 (NODE_ID s2) c n = Some ?pt3"
    using branch_put_stored [OF h2 _ m2] c by simp
  have h3: "heap_ok ?pt3 (insert s2 U) (tl fn) fl"
    by (rule heap_ok_store [OF h2]) (simp_all add: n(3))
  have tok: "tree_ok (p @ [b]) (TNode s2 (no_trees[c := TLeaf n l]))"
    using leaf(4) p take_Suc_digits [of "Suc (length p)" "lf_pk l"] by (auto simp: c_def nth_list_update)
  have tf: "tfind (TNode s2 (no_trees[c := TLeaf n l])) (Suc (length p)) k = tfind (ts ! b) (Suc (length p)) k" for k
    using b by (auto simp: c_def nth_list_update)
  have "entered p pt s ts U b ?pt3 s2 (no_trees[c := TLeaf n l])"
    unfolding entered_def stored_single [OF c] fp_single [OF c]
    using s n(2,3,6) h3 tok tf leaf(1-3) b by (auto simp: insert_absorb map_update)
  then show ?thesis using n(1,5) put put2 by (auto simp: ptree_room_def)
qed

text \<open>A null branch below level 1 gets a new leaf.\<close>

lemma add_leaf:
  assumes h: "heap_ok pt U fn fl" and r: "ptree_room (Suc j) pt"
    and ok: "tree_ok p (TNode s ts)" "distinct (fp (TNode s ts))" "set (fp (TNode s ts)) \<subseteq> U"
      "stored (slots pt) (TNode s ts)"
    and b: "b = PK_BRANCH pk (length p)" "ts ! b = TNull" and p: "take (length p) (digits pk) = p"
  shows "\<exists>n pt1 pt2 pt3. fs_ptree_new_leaf pt = Some (n, pt1) \<and> get_leaf_slot pt1 n = Some empty_leaf
     \<and> slot_put pt1 n (Leaf_slot (empty_leaf\<lparr>lf_pk := pk\<rparr>)) = Some pt2
     \<and> branch_put pt2 (NODE_ID s) b n = Some pt3
     \<and> created pk p pt s ts U n pt3 (ts[b := TLeaf n (empty_leaf\<lparr>lf_pk := pk\<rparr>)])"
proof -
  let ?l = "empty_leaf\<lparr>lf_pk := pk\<rparr>"
  obtain n pt1 where n: "fs_ptree_new_leaf pt = Some (n, pt1)" "n \<notin> U"
    "slots pt1 = (slots pt)(n := Leaf_slot empty_leaf)"
    "heap_ok pt1 (insert n U) fn (tl fl)" "same_data pt1 pt"
    using new_leaf_ok [OF h r] by blast
  have len: "length ts = 4" "b < 4" "length p < 32" using ok(1) b(1) by auto
  let ?pt2 = "pt1\<lparr>slots := (slots pt1)(n := Leaf_slot ?l)\<rparr>"
  have g: "get_leaf_slot pt1 n = Some empty_leaf" "slot_put pt1 n (Leaf_slot ?l) = Some ?pt2"
    using get_leaf_stored [OF n(4)] heap_ok_used(2) [OF n(4)] n(3) by simp_all
  have h2: "heap_ok ?pt2 (insert n U) fn (tl fl)" by (rule heap_ok_store [OF n(4)]) simp_all
  have s: "s \<in> insert n U" "s \<noteq> n" using ok(3) n(2) by auto
  then have m: "slots ?pt2 s = Node_slot (map tid ts)" using n(3) ok(4) by simp
  let ?pt3 = "?pt2\<lparr>slots := (slots ?pt2)(s := Node_slot ((map tid ts)[b := n]))\<rparr>"
  have put: "branch_put ?pt2 (NODE_ID s) b n = Some ?pt3"
    using branch_put_stored [OF h2 s(1) m] len by simp
  have h3: "heap_ok ?pt3 (U \<union> set (fp (TLeaf n ?l))) fn (tl fl)"
    using heap_ok_store [OF h2 s(1), of "Node_slot ((map tid ts)[b := n])"] m s(2) n(3) by simp
  have "tree_ok (p @ [b]) (TLeaf n ?l)" using take_Suc_digits [OF len(3), of pk] p b(1) len(3) by simp
  moreover have "tfind (TLeaf n ?l) (Suc (length p)) k
      = (if k = pk then Some (entry_after n pk (tfind (ts ! b) (Suc (length p)) pk))
         else tfind (ts ! b) (Suc (length p)) k)"
    "fst (entry_after n pk (tfind (ts ! b) (Suc (length p)) pk)) = n" for k
    using b(2) by (auto simp: entry_after_def)
  ultimately have "created pk p pt s ts U n ?pt3 (ts[b := TLeaf n ?l])"
    using n(2,3,5) s(2) b(2) by (intro created_update [OF ok b(1) _ _ _ _ h3]) (auto simp: map_update)
  with n(1) g put show ?thesis by blast
qed

lemma differ_level:
  assumes "take (Suc i) (digits a) = take (Suc i) (digits b)" "a \<noteq> b" "i < 32"
  shows "i < 31"
proof (rule ccontr)
  assume "\<not> i < 31"
  with assms(3) have "Suc i = 32" by simp
  with assms(1) have "digits a = digits b" by simp
  with assms(2) show False by (simp add: digits_inject)
qed

lemma created_same:
  assumes "heap_ok pt U fn fl" "tree_ok p (TNode s ts)" "distinct (fp (TNode s ts))" "set (fp (TNode s ts)) \<subseteq> U"
    "stored (slots pt) (TNode s ts)" "tfind (TNode s ts) (length p) pk = Some (n, l)"
  shows "created pk p pt s ts U n pt ts"
  unfolding created_def using assms by (auto simp: entry_after_def Un_absorb2 simp del: tfind.simps fp.simps)

lemma entered_same:
  assumes "heap_ok pt U fn fl" "tree_ok p (TNode s ts)" "distinct (fp (TNode s ts))" "set (fp (TNode s ts)) \<subseteq> U"
    "stored (slots pt) (TNode s ts)" "b < 4" "ts ! b = TNode s2 ts2"
  shows "entered p pt s ts U b pt s2 ts2"
proof -
  have b: "b < length ts" using assms(2,6) by simp
  have "set (fp (ts ! b)) \<subseteq> U" using fp_nth [OF b, of s] assms(4) by blast
  then have "U \<union> set (fp (ts ! b)) = U" by blast
  moreover have "ts[b := ts ! b] = ts" by simp
  ultimately show ?thesis
    unfolding entered_def assms(7) [symmetric]
    using assms(1,2,4,5) fp_child [OF assms(3) b] b \<open>set (fp (ts ! b)) \<subseteq> U\<close>
    by (auto simp: list_all_length simp del: tfind.simps)
qed

text \<open>The search in a state where the branch leads to a node.\<close>

lemma create_search_node:
  assumes en: "entered p pt s ts U b pt2 s2 ts2" and s: "s \<in> U" and b: "b = PK_BRANCH pk (length p)"
    and len: "length ts = 4" "length p < 32"
  shows "create_search pt2 pk (length p) (NODE_ID s) = create_search pt2 pk (Suc (length p)) (NODE_ID s2)"
proof -
  obtain fn fl where h: "heap_ok pt2 (U \<union> set (fp (TNode s2 ts2))) fn fl"
    and m: "slots pt2 s = Node_slot (map tid (ts[b := TNode s2 ts2]))"
    using en unfolding entered_def by blast
  have "NODE_ID s2 \<noteq> FS_PTREE_NULL_NODE" "\<not> IS_LEAF (NODE_ID s2)"
    using tid_null [OF h, of "TNode s2 ts2"] by (auto simp: IS_LEAF_def)
  then show ?thesis
    using get_node_stored [OF h _ m] s len b
    by (subst create_search.simps) (simp add: load_at_def)
qed

text \<open>One level of the search: it returns a leaf, or goes on below the branch.\<close>

definition search_done :: "rid \<Rightarrow> nat list \<Rightarrow> ptree \<Rightarrow> nat \<Rightarrow> ttree list \<Rightarrow> nat set \<Rightarrow> bool" where
  "search_done pk p pt s ts U \<longleftrightarrow>
     (\<exists>n pt' ts'. create_search pt pk (length p) (NODE_ID s) = Some (n, pt') \<and> created pk p pt s ts U n pt' ts')"

definition search_below :: "rid \<Rightarrow> nat list \<Rightarrow> ptree \<Rightarrow> nat \<Rightarrow> ttree list \<Rightarrow> nat set \<Rightarrow> bool" where
  "search_below pk p pt s ts U \<longleftrightarrow>
     (\<exists>pt2 s2 ts2. create_search pt pk (length p) (NODE_ID s) = create_search pt2 pk (Suc (length p)) (NODE_ID s2)
        \<and> entered p pt s ts U (PK_BRANCH pk (length p)) pt2 s2 ts2 \<and> ptree_room (31 - length p) pt2)"

lemma create_search_null:
  assumes h: "heap_ok pt U fn fl" and room: "ptree_room (Suc (31 - length p)) pt"
    and ok: "tree_ok p (TNode s ts)" "distinct (fp (TNode s ts))" "set (fp (TNode s ts)) \<subseteq> U"
      "stored (slots pt) (TNode s ts)" "take (length p) (digits pk) = p"
    and t: "ts ! PK_BRANCH pk (length p) = TNull"
  shows "search_done pk p pt s ts U \<or> search_below pk p pt s ts U"
proof -
  let ?b = "PK_BRANCH pk (length p)"
  have len: "length p < 32" "length ts = 4" using ok(1) by auto
  have node: "node_ref pt (NODE_ID s) = Some s" "get_node pt s = Some (map tid ts)"
    "load_at (map tid ts) ?b = Some FS_PTREE_NULL_NODE"
    using get_node_stored [OF h, of s] ok(3,4) len(2) t by (auto simp: load_at_def)
  show ?thesis
  proof (cases "1 < length p")
    case True
    then show ?thesis
      using add_leaf [OF h room ok(1-4) refl t ok(5)] node len(1) unfolding search_done_def
      by (subst create_search.simps) fastforce
  next
    case False
    then show ?thesis
      using enter_null [OF h room ok(1,3,4) _ t] node len(1) unfolding search_below_def
      by (subst create_search.simps) fastforce
  qed
qed

lemma create_search_leaf:
  assumes h: "heap_ok pt U fn fl" and room: "ptree_room (Suc (31 - length p)) pt"
    and ok: "tree_ok p (TNode s ts)" "distinct (fp (TNode s ts))" "set (fp (TNode s ts)) \<subseteq> U"
      "stored (slots pt) (TNode s ts)" "take (length p) (digits pk) = p"
    and t: "ts ! PK_BRANCH pk (length p) = TLeaf n l"
  shows "search_done pk p pt s ts U \<or> search_below pk p pt s ts U"
proof -
  let ?b = "PK_BRANCH pk (length p)"
  have len: "length p < 32" "length ts = 4" "?b < length ts" using ok(1) by auto
  have node: "node_ref pt (NODE_ID s) = Some s" "get_node pt s = Some (map tid ts)" "load_at (map tid ts) ?b = Some n"
    using get_node_stored [OF h, of s] ok(3,4) len(2) t by (auto simp: load_at_def)
  have nU: "n \<in> U" using fp_nth [OF len(3), of s] ok(3) t by auto
  have l: "get_leaf_slot pt n = Some l" "IS_LEAF n" "n \<noteq> FS_PTREE_NULL_NODE"
    using get_leaf_stored [OF h nU, of l] ok(4) t len(3) tid_leaf [OF h, of "TLeaf n l"] tid_null [OF h, of "TLeaf n l"] nU
    by (auto simp: list_all_length)
  show ?thesis
  proof (cases "pk = lf_pk l")
    case True
    then have "create_search pt pk (length p) (NODE_ID s) = Some (n, pt)"
      using node len(1) l by (subst create_search.simps) simp
    moreover have "tfind (TNode s ts) (length p) pk = Some (n, l)" using t len(3) True by simp
    ultimately show ?thesis using created_same [OF h ok(1-4)] unfolding search_done_def by blast
  next
    case False
    have "tree_ok (p @ [?b]) (ts ! ?b)" using ok(1) len(3) by simp
    then have l31: "length p < 31"
      using differ_level [of "length p" "lf_pk l" pk] False take_Suc_digits [OF len(1), of pk] ok(5) len(1) t by simp
    obtain s2 pt1 pt2 pt3 where sp: "fs_ptree_new_node pt = Some (NODE_ID s2, pt1)"
      "branch_put pt1 (NODE_ID s) ?b (NODE_ID s2) = Some pt2"
      "branch_put pt2 (NODE_ID s2) (PK_BRANCH (lf_pk l) (Suc (length p))) n = Some pt3"
      "entered p pt s ts U ?b pt3 s2 (no_trees[PK_BRANCH (lf_pk l) (Suc (length p)) := TLeaf n l])"
      "ptree_room (31 - length p) pt3"
      using split_leaf [OF h room ok(1,3,4,2) _ t l31] by auto
    have "create_search pt pk (length p) (NODE_ID s) = create_search pt3 pk (length p) (NODE_ID s)"
      using sp(1-3) False node len(1) l PK_BRANCH_split_eq [OF l31, of "lf_pk l"]
      by (subst create_search.simps) simp
    also have "\<dots> = create_search pt3 pk (Suc (length p)) (NODE_ID s2)"
      using ok(3) by (intro create_search_node [OF sp(4) _ refl len(2,1)]) simp
    finally show ?thesis using sp(4,5) unfolding search_below_def by blast
  qed
qed

lemma create_search_step:
  assumes h: "heap_ok pt U fn fl" and room: "ptree_room (32 - length p) pt"
    and ok: "tree_ok p (TNode s ts)" "distinct (fp (TNode s ts))" "set (fp (TNode s ts)) \<subseteq> U"
      "stored (slots pt) (TNode s ts)" "take (length p) (digits pk) = p"
  shows "search_done pk p pt s ts U \<or> search_below pk p pt s ts U"
proof -
  have len: "length p < 32" "length ts = 4" using ok(1) by auto
  then have "32 - length p = Suc (31 - length p)" by simp
  with room have room1: "ptree_room (Suc (31 - length p)) pt" by simp
  show ?thesis
  proof (cases "ts ! PK_BRANCH pk (length p)")
    case (TNode s2 ts2)
    have en: "entered p pt s ts U (PK_BRANCH pk (length p)) pt s2 ts2"
      by (rule entered_same [OF h ok(1-4) _ TNode]) simp
    moreover have "ptree_room (31 - length p) pt" using room1 by (rule ptree_room_mono) simp
    moreover have "s \<in> U" using ok(3) by simp
    ultimately show ?thesis
      using create_search_node [OF en _ refl len(2,1)] unfolding search_below_def by blast
  qed (use create_search_null [OF h room1 ok] create_search_leaf [OF h room1 ok] in blast)+
qed

lemma create_search_ok:
  assumes "heap_ok pt U fn fl" "ptree_room (32 - length p) pt" "tree_ok p (TNode s ts)" "distinct (fp (TNode s ts))"
    "set (fp (TNode s ts)) \<subseteq> U" "stored (slots pt) (TNode s ts)" "take (length p) (digits pk) = p"
  shows "search_done pk p pt s ts U"
  using assms
proof (induction "31 - length p" arbitrary: p pt s ts U fn fl rule: less_induct)
  case less
  let ?b = "PK_BRANCH pk (length p)"
  have len: "length p < 32" using less.prems(3) by simp
  have "search_done pk p pt s ts U" if below: "search_below pk p pt s ts U"
  proof -
    obtain pt2 s2 ts2 where c: "create_search pt pk (length p) (NODE_ID s) = create_search pt2 pk (Suc (length p)) (NODE_ID s2)"
      and en: "entered p pt s ts U ?b pt2 s2 ts2" and rm: "ptree_room (31 - length p) pt2"
      using below unfolding search_below_def by blast
    from en obtain fn fl where h: "heap_ok pt2 (U \<union> set (fp (TNode s2 ts2))) fn fl" unfolding entered_def by blast
    have e: "tree_ok (p @ [?b]) (TNode s2 ts2)" "distinct (fp (TNode s2 ts2))" "stored (slots pt2) (TNode s2 ts2)"
      using en unfolding entered_def by blast+
    have "take (length (p @ [?b])) (digits pk) = p @ [?b]" "length p < 31"
      using take_Suc_digits [OF len, of pk] less.prems(7) e(1) by simp_all
    then have "search_done pk (p @ [?b]) pt2 s2 ts2 (U \<union> set (fp (TNode s2 ts2)))"
      using less.hyps [of "p @ [?b]" pt2 "U \<union> set (fp (TNode s2 ts2))" fn fl s2 ts2] h e rm by (simp del: fp.simps)
    then obtain n pt' ts2' where "create_search pt2 pk (length (p @ [?b])) (NODE_ID s2) = Some (n, pt')"
      "created pk (p @ [?b]) pt2 s2 ts2 (U \<union> set (fp (TNode s2 ts2))) n pt' ts2'"
      unfolding search_done_def by blast
    with entered_created [OF less.prems(3-6) refl en] c show ?thesis
      unfolding search_done_def by (metis length_append_singleton)
  qed
  then show ?case using create_search_step [OF less.prems] by blast
qed

end
