(* ===== verification/PtreeOps.thy ===== *)
theory PtreeOps
  imports PtreeFind
begin

text \<open>
  The operations of the tree as operations on a finite map from keys to lists of pairs:
  \<open>fs_ptree_add\<close>, \<open>fs_ptree_remove\<close> and \<open>fs_ptree_search\<close> with its iterator.  The chains of
  the leaves live in a pair table that may hold the chains of other trees too; the tree
  reaches it through the \<open>pair_chains\<close> and \<open>readable_chains\<close> interfaces only.
\<close>

section \<open>Trees that lose slots\<close>

text \<open>
  \<open>shrunk p pt U t pt' t'\<close>: the tree \<open>t\<close>, reached by the branches \<open>p\<close>, became \<open>t'\<close>; the slots
  it lost are no longer used, and no used slot outside \<open>t\<close> changed.
\<close>

definition shrunk :: "nat list \<Rightarrow> ptree \<Rightarrow> nat set \<Rightarrow> ttree \<Rightarrow> ptree \<Rightarrow> ttree \<Rightarrow> bool" where
  "shrunk p pt U t pt' t' \<longleftrightarrow>
     stored (slots pt') t' \<and> tree_ok p t' \<and> distinct (fp t') \<and> set (fp t') \<subseteq> set (fp t)
   \<and> (\<exists>fn fl. heap_ok pt' (U - (set (fp t) - set (fp t'))) fn fl)
   \<and> (\<forall>i \<in> U - set (fp t). slots pt' i = slots pt i)"

lemma shrunk_refl:
  "heap_ok pt U fn fl \<Longrightarrow> stored (slots pt) t \<Longrightarrow> tree_ok p t \<Longrightarrow> distinct (fp t) \<Longrightarrow> shrunk p pt U t pt t"
  by (auto simp: shrunk_def)

lemma shrunk_trans:
  assumes "shrunk p pt U t pt1 t1" "shrunk p pt1 (U - (set (fp t) - set (fp t1))) t1 pt2 t2" "set (fp t) \<subseteq> U"
  shows "shrunk p pt U t pt2 t2"
proof -
  have s: "set (fp t1) \<subseteq> set (fp t)" "set (fp t2) \<subseteq> set (fp t1)" using assms(1,2) by (auto simp: shrunk_def)
  then have "U - (set (fp t) - set (fp t1)) - (set (fp t1) - set (fp t2)) = U - (set (fp t) - set (fp t2))" by blast
  moreover have "slots pt2 i = slots pt i" if "i \<in> U - set (fp t)" for i
  proof -
    have "i \<in> U - (set (fp t) - set (fp t1)) - set (fp t1)" using that s by blast
    then show ?thesis using assms(1,2) that unfolding shrunk_def by metis
  qed
  ultimately show ?thesis using assms(1,2) s unfolding shrunk_def by (metis subset_trans)
qed

text \<open>The branch \<open>b\<close> of a node follows its subtree.\<close>

lemma shrunk_node:
  assumes ok: "tree_ok p (TNode s ts)" "distinct (fp (TNode s ts))" "set (fp (TNode s ts)) \<subseteq> U"
      "stored (slots pt) (TNode s ts)" and b: "b < 4"
    and sh: "shrunk (p @ [b]) pt U (ts ! b) pt1 t1"
  shows "shrunk p pt U (TNode s ts) (pt1\<lparr>slots := (slots pt1)(s := Node_slot (map tid (ts[b := t1])))\<rparr>)
      (TNode s (ts[b := t1]))"
proof -
  let ?T = "TNode s ts" and ?t = "ts ! b" and ?v = "Node_slot (map tid (ts[b := t1]))"
  have bl: "b < length ts" using ok(1) b by simp
  note ch = fp_child [OF ok(2) bl]
  obtain fn fl where h: "heap_ok pt1 (U - (set (fp ?t) - set (fp t1))) fn fl" using sh unfolding shrunk_def by blast
  have s1: "set (fp t1) \<subseteq> set (fp ?t)" using sh unfolding shrunk_def by blast
  have keep: "slots pt1 i = slots pt i" if "i \<in> U - set (fp ?t)" for i using sh that unfolding shrunk_def by blast
  have s: "s \<in> U - set (fp ?t)" using ok(3) ch(2) by auto
  have setT: "set (fp (TNode s (ts[b := t1]))) = (set (fp ?T) - set (fp ?t)) \<union> set (fp t1)"
    by (rule fp_update(1) [OF ok(2) bl])
  have st1: "stored (slots pt1) t1" using sh unfolding shrunk_def by blast
  have "stored ((slots pt1)(s := ?v)) t1"
    using stored_cong [of t1 "(slots pt1)(s := ?v)" "slots pt1"] st1 s s1 by force
  moreover have "((slots pt1)(s := ?v)) i = slots pt i" if "i \<in> set (fp ?T) - {s} - set (fp ?t)" for i
    using that keep ok(3) by auto
  ultimately have "stored ((slots pt1)(s := ?v)) (TNode s (ts[b := t1]))"
    by (intro stored_update [OF ok(4,2) bl]) auto
  moreover have "tree_ok p (TNode s (ts[b := t1]))"
    using sh by (intro tree_ok_update [OF ok(1)]) (simp add: shrunk_def)
  moreover have "distinct (fp (TNode s (ts[b := t1])))"
    using sh s1 by (intro fp_update(2) [OF ok(2) bl]) (auto simp: shrunk_def)
  moreover have "U - (set (fp ?T) - set (fp (TNode s (ts[b := t1])))) = U - (set (fp ?t) - set (fp t1))"
    unfolding setT using ok(3) ch(3) s1 by blast
  moreover have "heap_ok (pt1\<lparr>slots := (slots pt1)(s := ?v)\<rparr>) (U - (set (fp ?t) - set (fp t1))) fn fl"
    using s keep [OF s] ok(4) by (intro heap_ok_store [OF h]) auto
  moreover have "((slots pt1)(s := ?v)) i = slots pt i" if "i \<in> U - set (fp ?T)" for i
    using that keep [of i] ch(3) by auto
  moreover have "set (fp (TNode s (ts[b := t1]))) \<subseteq> set (fp ?T)" unfolding setT using ch(3) s1 by blast
  ultimately show ?thesis unfolding shrunk_def by (auto simp del: fp.simps stored.simps tree_ok.simps)
qed

lemma set_branch_stored:
  assumes "heap_ok pt U fn fl" "s \<in> U" "slots pt s = Node_slot bs" "b < length bs"
  shows "set_branch pt s b v = Some (pt\<lparr>slots := (slots pt)(s := Node_slot (bs[b := v]))\<rparr>)"
  using get_node_stored [OF assms(1-3)] heap_ok_used(2) [OF assms(1,2)] assms(4)
  by (simp add: set_branch_def store_at_def)

text \<open>Freeing a leaf, and a node whose branches hold nothing of it any more.\<close>

lemma shrunk_free_leaf:
  assumes "heap_ok pt U fn fl" "n \<in> U" "slots pt n = Leaf_slot l"
  shows "\<exists>pt'. fs_ptree_free_leaf pt n = Some pt' \<and> shrunk p pt U (TLeaf n l) pt' TNull \<and> same_data pt' pt"
  using free_leaf_ok [OF assms] by (fastforce simp: shrunk_def)

lemma shrunk_free_node:
  assumes "heap_ok pt U fn fl" "set (fp (TNode s ts)) \<subseteq> U" "s \<noteq> 1" "stored (slots pt) (TNode s ts)" "length ts = 4"
    and t: "t = TNull \<and> (\<forall>x \<in> set ts. x = TNull) \<or> (\<exists>n l. t = TLeaf n l \<and> set (concat (map fp ts)) = {n} \<and> n \<noteq> s
        \<and> stored (slots pt) t \<and> tree_ok p t)"
  shows "\<exists>pt'. fs_ptree_free_node pt (NODE_ID s) = Some pt' \<and> shrunk p pt U (TNode s ts) pt' t \<and> same_data pt' pt"
proof -
  have s: "s \<in> U" "slots pt s = Node_slot (map tid ts)" "length (map tid ts) = 4" using assms(2,4,5) by simp_all
  obtain pt' where pt': "fs_ptree_free_node pt (NODE_ID s) = Some pt'" "heap_ok pt' (U - {s}) (s # fn) fl"
    "\<forall>i. i \<noteq> s \<longrightarrow> slots pt' i = slots pt i" "same_data pt' pt"
    using free_node_ok [OF assms(1) s(1) assms(3) s(2,3)] by blast
  have "set (fp (TNode s ts)) - set (fp t) = {s}" "stored (slots pt') t" "tree_ok p t" "distinct (fp t)"
    "set (fp t) \<subseteq> set (fp (TNode s ts))"
    using t pt'(3) by auto
  then have "shrunk p pt U (TNode s ts) pt' t"
    using pt'(2,3) unfolding shrunk_def by auto
  with pt' show ?thesis by blast
qed

section \<open>Collapsing\<close>

text \<open>The subtree at branch \<open>b\<close> became \<open>t1\<close> in \<open>pt1\<close>; the branch is then set to it.\<close>

lemma branch_follows:
  assumes ok: "tree_ok p (TNode s ts)" "distinct (fp (TNode s ts))" "set (fp (TNode s ts)) \<subseteq> U"
      "stored (slots pt) (TNode s ts)" and b: "b < 4"
    and sh: "shrunk (p @ [b]) pt U (ts ! b) pt1 t1"
  shows "\<exists>pt2. set_branch pt1 s b (tid t1) = Some pt2 \<and> shrunk p pt U (TNode s ts) pt2 (TNode s (ts[b := t1]))
     \<and> get_node pt2 s = Some (map tid (ts[b := t1]))
     \<and> ((\<forall>c \<in> set (map tid (ts[b := t1])). c = FS_PTREE_NULL_NODE) \<longleftrightarrow> (\<forall>t \<in> set (ts[b := t1]). t = TNull))
     \<and> same_data pt2 pt1 \<and> (tid t1 = tid (ts ! b) \<longrightarrow> pt2 = pt1)"
proof -
  let ?U = "U - (set (fp (ts ! b)) - set (fp t1))"
  have bl: "b < length ts" using ok(1) b by simp
  have s: "s \<in> U - set (fp (ts ! b))" using ok(3) fp_child(2) [OF ok(2) bl] by auto
  obtain fn fl where h: "heap_ok pt1 ?U fn fl" using sh unfolding shrunk_def by blast
  have m: "slots pt1 s = Node_slot (map tid ts)" using sh s ok(4) unfolding shrunk_def by auto
  have eq: "map tid (ts[b := t1]) = (map tid ts)[b := tid t1]" by (simp add: map_update)
  let ?pt2 = "pt1\<lparr>slots := (slots pt1)(s := Node_slot (map tid (ts[b := t1])))\<rparr>"
  have put: "set_branch pt1 s b (tid t1) = Some ?pt2"
    unfolding eq using s bl by (intro set_branch_stored [OF h _ m]) auto
  have sh2: "shrunk p pt U (TNode s ts) ?pt2 (TNode s (ts[b := t1]))" by (rule shrunk_node [OF ok b sh])
  then obtain fn fl where h2: "heap_ok ?pt2 (U - (set (fp (TNode s ts)) - set (fp (TNode s (ts[b := t1]))))) fn fl"
    and sub: "set (fp (TNode s (ts[b := t1]))) \<subseteq> set (fp (TNode s ts))" unfolding shrunk_def by blast
  let ?V = "U - (set (fp (TNode s ts)) - set (fp (TNode s (ts[b := t1]))))"
  have V: "set (fp (TNode s (ts[b := t1]))) \<subseteq> ?V" using sub ok(3) by blast
  then have "get_node ?pt2 s = Some (map tid (ts[b := t1]))"
    by (intro get_node_stored(2) [OF h2]) auto
  moreover have "tid t = FS_PTREE_NULL_NODE \<longleftrightarrow> t = TNull" if "t \<in> set (ts[b := t1])" for t
    using that V by (intro tid_null [OF h2]) (auto simp del: set_update_subset_insert)
  moreover have "?pt2 = pt1" if "tid t1 = tid (ts ! b)"
  proof -
    have "map tid (ts[b := t1]) = map tid ts" unfolding eq using that bl by (metis list_update_id nth_map)
    then show ?thesis using m by (metis (mono_tags) fun_upd_triv ptree.surjective ptree.update_convs(13))
  qed
  ultimately show ?thesis using put sh2 by (auto simp del: fp.simps)
qed

text \<open>What a key finds after the subtree at branch \<open>b\<close> lost the key \<open>pk\<close>.\<close>

lemma tfind_drop:
  assumes "b < length ts" "b = PK_BRANCH pk (length p)"
    and "\<And>k. tfind t1 (Suc (length p)) k = (if k = pk then None else tfind (ts ! b) (Suc (length p)) k)"
  shows "tfind (TNode s (ts[b := t1])) (length p) k = (if k = pk then None else tfind (TNode s ts) (length p) k)"
proof -
  have "tfind (TNode s ts) (length p) k = tfind (ts ! b) (Suc (length p)) k" if "PK_BRANCH k (length p) = b"
    using that assms(1) by simp
  then show ?thesis using assms by (auto simp: tfind_update simp del: tfind.simps)
qed

lemma tfind_all_null: "\<forall>t \<in> set ts. t = TNull \<Longrightarrow> tfind (TNode s ts) i k = None"
  by (metis nth_mem tfind.simps(1,3))

definition collapsed :: "rid \<Rightarrow> nat list \<Rightarrow> ptree \<Rightarrow> nat set \<Rightarrow> nat \<Rightarrow> ttree list \<Rightarrow> bool" where
  "collapsed pk p pt U s ts \<longleftrightarrow> (\<exists>pt' ts'.
     collapse_by_pk_recurse pt pk (NODE_ID s) (length p)
       = Some (if \<forall>t \<in> set ts'. t = TNull then CULL else NONE, pt')
   \<and> shrunk p pt U (TNode s ts) pt' (TNode s ts') \<and> same_data pt' pt
   \<and> (\<forall>k. tfind (TNode s ts') (length p) k = (if k = pk then None else tfind (TNode s ts) (length p) k)))"

text \<open>The count of the branches at the end of the function.\<close>

definition collapse_end :: "ptree \<Rightarrow> nat \<Rightarrow> (recurse_action \<times> ptree) option" where
  "collapse_end pt s =
     do { bs \<leftarrow> get_node pt s; Some (if \<forall>c \<in> set bs. c = FS_PTREE_NULL_NODE then CULL else NONE, pt) }"

lemma collapsed_finish:
  assumes ok: "tree_ok p (TNode s ts)" "distinct (fp (TNode s ts))" "set (fp (TNode s ts)) \<subseteq> U"
      "stored (slots pt) (TNode s ts)" and b: "b = PK_BRANCH pk (length p)"
    and sh: "shrunk (p @ [b]) pt U (ts ! b) pt1 t1" and d: "same_data pt1 pt"
    and fnd: "\<And>k. tfind t1 (Suc (length p)) k = (if k = pk then None else tfind (ts ! b) (Suc (length p)) k)"
    and run: "\<And>pt2. set_branch pt1 s b (tid t1) = Some pt2 \<Longrightarrow> (tid t1 = tid (ts ! b) \<longrightarrow> pt2 = pt1) \<Longrightarrow>
        collapse_by_pk_recurse pt pk (NODE_ID s) (length p) = collapse_end pt2 s"
  shows "collapsed pk p pt U s ts"
proof -
  have len: "b < length ts" "b < 4" using ok(1) b by auto
  obtain pt2 where pt2: "set_branch pt1 s b (tid t1) = Some pt2" "shrunk p pt U (TNode s ts) pt2 (TNode s (ts[b := t1]))"
    "get_node pt2 s = Some (map tid (ts[b := t1]))" "same_data pt2 pt1" "tid t1 = tid (ts ! b) \<longrightarrow> pt2 = pt1"
    "(\<forall>c \<in> set (map tid (ts[b := t1])). c = FS_PTREE_NULL_NODE) \<longleftrightarrow> (\<forall>t \<in> set (ts[b := t1]). t = TNull)"
    using branch_follows [OF ok len(2) sh] by auto
  show ?thesis
    unfolding collapsed_def
    using run [OF pt2(1,5)] pt2(2-4,6) tfind_drop [OF len(1) b fnd, where s = s] same_data_trans [OF pt2(4) d]
    by (intro exI [of _ pt2] exI [of _ "ts[b := t1]"]) (simp add: collapse_end_def del: tfind.simps fp.simps)
qed

lemma collapse_node_read:
  assumes "heap_ok pt U fn fl" "tree_ok p (TNode s ts)" "set (fp (TNode s ts)) \<subseteq> U" "stored (slots pt) (TNode s ts)"
    "ts ! PK_BRANCH pk (length p) \<noteq> TNull"
  shows "collapse_by_pk_recurse pt pk (NODE_ID s) (length p) =
     do {
       let b = PK_BRANCH pk (length p);
       let c = tid (ts ! PK_BRANCH pk (length p));
       pt' \<leftarrow> (if IS_LEAF c then
                do {
                  l \<leftarrow> get_leaf_slot pt c;
                  if lf_length l = 0 \<and> lf_block l = 0 then
                    do { pt1 \<leftarrow> fs_ptree_free_leaf pt c; set_branch pt1 s b FS_PTREE_NULL_NODE }
                  else Some pt
                }
              else
                do {
                  (action, pt1) \<leftarrow> collapse_by_pk_recurse pt pk c (Suc (length p));
                  if action = CULL then
                    do { pt2 \<leftarrow> fs_ptree_free_node pt1 c; set_branch pt2 s b FS_PTREE_NULL_NODE }
                  else Some pt1
                });
       collapse_end pt' s
     }"
proof -
  let ?b = "PK_BRANCH pk (length p)" and ?t = "ts ! PK_BRANCH pk (length p)"
  have len: "length p < 32" "length ts = 4" "?b < length ts" using assms(2) by auto
  have "set (fp ?t) \<subseteq> U" using fp_nth [OF len(3), of s] assms(3) by blast
  then have "tid ?t \<noteq> FS_PTREE_NULL_NODE" using tid_null [OF assms(1)] assms(5) by blast
  moreover have "node_ref pt (NODE_ID s) = Some s" "get_node pt s = Some (map tid ts)" "load_at (map tid ts) ?b = Some (tid ?t)"
    using get_node_stored [OF assms(1), of s] assms(3,4) len(2) by (auto simp: load_at_def)
  ultimately show ?thesis
    using len(1) by (subst collapse_by_pk_recurse.simps) (simp add: collapse_end_def Let_def)
qed

lemma collapse_leaf:
  assumes h: "heap_ok pt U fn fl" and ok: "tree_ok p (TNode s ts)" "distinct (fp (TNode s ts))" "set (fp (TNode s ts)) \<subseteq> U"
      "stored (slots pt) (TNode s ts)"
    and t: "ts ! PK_BRANCH pk (length p) = TLeaf n l" "lf_pk l = pk" "lf_length l = 0" "lf_block l = 0"
  shows "collapsed pk p pt U s ts"
proof -
  let ?b = "PK_BRANCH pk (length p)"
  have len: "?b < length ts" using ok(1) by auto
  have lf: "n \<in> U" "slots pt n = Leaf_slot l" using fp_nth [OF len, of s] ok(3,4) t(1) len by (auto simp: list_all_length)
  then have isl: "IS_LEAF n" using tid_leaf [OF h, of "TLeaf n l"] by simp
  obtain pt1 where pt1: "fs_ptree_free_leaf pt n = Some pt1" "shrunk (p @ [?b]) pt U (TLeaf n l) pt1 TNull" "same_data pt1 pt"
    using shrunk_free_leaf [OF h lf] by blast
  show ?thesis
  proof (rule collapsed_finish [where ?t1.0 = TNull, OF ok refl _ pt1(3)])
    show "collapse_by_pk_recurse pt pk (NODE_ID s) (length p) = collapse_end pt2 s"
      if "set_branch pt1 s ?b (tid TNull) = Some pt2" for pt2
      using collapse_node_read [OF h ok(1,3,4), of pk] that t isl get_leaf_stored [OF h lf] pt1(1) by simp
  qed (use pt1(2) t in auto)
qed

lemma collapse_node:
  assumes h: "heap_ok pt U fn fl" and ok: "tree_ok p (TNode s ts)" "distinct (fp (TNode s ts))" "set (fp (TNode s ts)) \<subseteq> U"
      "stored (slots pt) (TNode s ts)"
    and t: "ts ! PK_BRANCH pk (length p) = TNode s2 ts2" "s2 \<noteq> 1"
    and sub: "collapsed pk (p @ [PK_BRANCH pk (length p)]) pt U s2 ts2"
  shows "collapsed pk p pt U s ts"
proof -
  let ?b = "PK_BRANCH pk (length p)" and ?t = "ts ! PK_BRANCH pk (length p)"
  have subU: "set (fp ?t) \<subseteq> U" using fp_nth [of ?b ts s] ok(1,3) by fastforce
  have nd: "\<not> IS_LEAF (NODE_ID s2)" by (simp add: IS_LEAF_def)
  obtain pt1 ts2' where r: "collapse_by_pk_recurse pt pk (NODE_ID s2) (Suc (length p))
        = Some (if \<forall>t \<in> set ts2'. t = TNull then CULL else NONE, pt1)"
    "shrunk (p @ [?b]) pt U ?t pt1 (TNode s2 ts2')" "same_data pt1 pt"
    and fnd: "\<And>k. tfind (TNode s2 ts2') (Suc (length p)) k = (if k = pk then None else tfind ?t (Suc (length p)) k)"
    using sub unfolding collapsed_def t(1) by (auto simp del: tfind.simps)
  note run = collapse_node_read [OF h ok(1,3,4), of pk]
  show ?thesis
  proof (cases "\<forall>t \<in> set ts2'. t = TNull")
    case False
    then have "collapse_by_pk_recurse pt pk (NODE_ID s2) (Suc (length p)) = Some (NONE, pt1)" using r(1) by simp
    then show ?thesis
      using run nd t by (intro collapsed_finish [OF ok refl r(2,3) fnd]) simp
  next
    case True
    let ?U = "U - (set (fp ?t) - set (fp (TNode s2 ts2')))"
    obtain fn fl where h1: "heap_ok pt1 ?U fn fl" and st: "stored (slots pt1) (TNode s2 ts2')" "tree_ok (p @ [?b]) (TNode s2 ts2')"
      "set (fp (TNode s2 ts2')) \<subseteq> set (fp ?t)"
      using r(2) unfolding shrunk_def by blast
    have V: "set (fp (TNode s2 ts2')) \<subseteq> ?U" "length ts2' = 4" using st subU by auto
    obtain pt2 where pt2: "fs_ptree_free_node pt1 (NODE_ID s2) = Some pt2"
      "shrunk (p @ [?b]) pt1 ?U (TNode s2 ts2') pt2 TNull" "same_data pt2 pt1"
      using shrunk_free_node [OF h1 V(1) t(2) st(1) V(2), of TNull "p @ [?b]"] True by blast
    have r1: "collapse_by_pk_recurse pt pk (NODE_ID s2) (Suc (length p)) = Some (CULL, pt1)" using r(1) True by simp
    have "tfind TNull (Suc (length p)) k = (if k = pk then None else tfind ?t (Suc (length p)) k)" for k
      using fnd [of k] tfind_all_null [OF True] by simp
    then show ?thesis
      using run r1 nd t pt2(1)
      by (intro collapsed_finish [OF ok refl shrunk_trans [OF r(2) pt2(2) subU] same_data_trans [OF pt2(3) r(3)]]) simp_all
  qed
qed

lemma collapse_ok:
  assumes "heap_ok pt U fn fl" "tree_ok p t" "distinct (fp t)" "set (fp t) \<subseteq> U" "stored (slots pt) t"
    "t = TNode s ts" "\<forall>x \<in> set ts. 1 \<notin> set (fp x)"
    "tfind t (length p) pk = Some (n, l)" "lf_length l = 0" "lf_block l = 0"
  shows "collapsed pk p pt U s ts"
  using assms
proof (induction t arbitrary: p s ts)
  case (TNode s0 ts0)
  then have eq: "s0 = s" "ts0 = ts" by simp_all
  let ?b = "PK_BRANCH pk (length p)" and ?t = "ts ! PK_BRANCH pk (length p)"
  note ok = TNode.prems(2-5) [unfolded eq]
  have len: "?b < length ts" using ok(1) by auto
  have sub: "?t \<in> set ts" "stored (slots pt) ?t" "tree_ok (p @ [?b]) ?t" "distinct (fp ?t)" "set (fp ?t) \<subseteq> U"
    using ok len fp_child(1,3) [OF ok(2) len] by (auto simp: list_all_length)
  have found: "tfind ?t (Suc (length p)) pk = Some (n, l)" using TNode.prems(8) len eq by simp
  show ?case
  proof (cases ?t)
    case (TLeaf n' l')
    then show ?thesis
      using found TNode.prems(9,10) by (intro collapse_leaf [OF TNode.prems(1) ok TLeaf]) (auto split: if_splits)
  next
    case (TNode s2 ts2)
    have no1: "\<forall>x \<in> set ts2. 1 \<notin> set (fp x)" "s2 \<noteq> 1" using TNode.prems(7) sub(1) TNode by fastforce+
    have "collapsed pk (p @ [?b]) pt U s2 ts2"
      using TNode.IH [of ?t "p @ [?b]" s2 ts2] TNode.prems(1,9,10) sub found TNode no1(1) eq by simp
    then show ?thesis by (rule collapse_node [OF TNode.prems(1) ok TNode no1(2)])
  qed (use found in simp)
qed simp_all

section \<open>Whole trees\<close>

definition ptree_rep :: "ptree \<Rightarrow> ttree list \<Rightarrow> bool" where
  "ptree_rep pt ts \<longleftrightarrow> stored (slots pt) (TNode 1 ts) \<and> tree_ok [] (TNode 1 ts) \<and> distinct (fp (TNode 1 ts))
     \<and> (\<exists>fn fl. heap_ok pt (set (fp (TNode 1 ts))) fn fl)"

abbreviation leaf_of :: "ttree list \<Rightarrow> rid \<Rightarrow> (nat \<times> leaf) option" where
  "leaf_of ts pk \<equiv> tfind (TNode 1 ts) 0 pk"

lemma ptree_rep_frame [simp]:
  "ptree_rep (pt\<lparr>pt_table := t\<rparr>) ts = ptree_rep pt ts" "ptree_rep (pt\<lparr>pt_count := c\<rparr>) ts = ptree_rep pt ts"
  by (simp_all add: ptree_rep_def)

lemma get_leaf_ok:
  assumes "ptree_rep pt ts"
  shows "get_leaf pt pk = Some (case leaf_of ts pk of None \<Rightarrow> 0 | Some (n, l) \<Rightarrow> n)"
proof -
  obtain fn fl where "heap_ok pt (set (fp (TNode 1 ts))) fn fl" using assms unfolding ptree_rep_def by blast
  then show ?thesis
    using leaf_search_ok [of pt _ fn fl "TNode 1 ts" "[]" 1 ts pk] assms
    by (auto simp: ptree_rep_def get_leaf_def get_leaf_and_parent_def NODE_ID_root [symmetric] simp del: tfind.simps)
qed

lemma get_or_create_leaf_ok:
  assumes "ptree_rep pt ts" "ptree_room 32 pt"
  shows "\<exists>n pt' ts'. get_or_create_leaf pt pk = Some (n, pt') \<and> ptree_rep pt' ts' \<and> same_data pt' pt
     \<and> (\<forall>k. leaf_of ts' k = (if k = pk then Some (entry_after n pk (leaf_of ts pk)) else leaf_of ts k))
     \<and> fst (entry_after n pk (leaf_of ts pk)) = n"
proof -
  let ?U = "set (fp (TNode 1 ts))"
  obtain fn fl where h: "heap_ok pt ?U fn fl" using assms unfolding ptree_rep_def by blast
  then obtain n pt' ts' where c: "create_search pt pk 0 (NODE_ID 1) = Some (n, pt')" "created pk [] pt 1 ts ?U n pt' ts'"
    using create_search_ok [of pt ?U fn fl "[]" 1 ts pk] assms
    by (auto simp: ptree_rep_def search_done_def simp del: fp.simps)
  have "?U \<union> set (fp (TNode 1 ts')) = set (fp (TNode 1 ts'))" using c(2) unfolding created_def by blast
  with c show ?thesis
    unfolding created_def ptree_rep_def get_or_create_leaf_def NODE_ID_root [symmetric]
    by (metis list.size(3))
qed

text \<open>A store to a leaf.\<close>

primrec set_leaf :: "nat \<Rightarrow> leaf \<Rightarrow> ttree \<Rightarrow> ttree" where
  "set_leaf n l TNull = TNull"
| "set_leaf n l (TLeaf i m) = TLeaf i (if i = n then l else m)"
| "set_leaf n l (TNode s ts) = TNode s (map (set_leaf n l) ts)"

lemma tid_set_leaf [simp]: "tid (set_leaf n l t) = tid t"
  by (cases t) auto

lemma fp_set_leaf [simp]: "fp (set_leaf n l t) = fp t"
proof (induction t)
  case (TNode s ts)
  then have "map (\<lambda>t. fp (set_leaf n l t)) ts = map fp ts" by simp
  then show ?case by (simp only: set_leaf.simps fp.simps map_map comp_def)
qed simp_all

lemma stored_set_leaf:
  "stored m t \<Longrightarrow> m n = Leaf_slot l0 \<Longrightarrow> stored (m(n := Leaf_slot l)) (set_leaf n l t)"
  by (induction t) (auto simp: list_all_iff)

lemma tree_ok_set_leaf:
  "stored m t \<Longrightarrow> m n = Leaf_slot l0 \<Longrightarrow> lf_pk l = lf_pk l0 \<Longrightarrow> tree_ok p t \<Longrightarrow> tree_ok p (set_leaf n l t)"
  by (induction t arbitrary: p) (auto simp: list_all_length)

lemma tfind_stored:
  "tfind t i k = Some (n, l) \<Longrightarrow> stored m t \<Longrightarrow> m n = Leaf_slot l \<and> lf_pk l = k \<and> n \<in> set (fp t)"
  by (induction t i k rule: tfind.induct) (auto simp: list_all_length split: if_splits)

lemma tfind_set_leaf:
  "tfind (set_leaf n l t) i k = (if lf_pk l = k \<and> lf_pk l0 = k then map_option (\<lambda>(j, x). (j, if j = n then l else x)) (tfind t i k)
     else tfind t i k)"
  if "stored m t" "m n = Leaf_slot l0" "lf_pk l = lf_pk l0"
  using that by (induction t i k rule: tfind.induct) (auto simp: list_all_length)

lemma ptree_store_leaf:
  assumes rep: "ptree_rep pt ts" and f: "leaf_of ts pk = Some (n, l0)" and l: "lf_pk l = pk"
  shows "slot_put pt n (Leaf_slot l) = Some (pt\<lparr>slots := (slots pt)(n := Leaf_slot l)\<rparr>)"
    and "get_leaf_slot pt n = Some l0" and "n \<noteq> 0" and "n < cap pt"
    and "\<exists>ts'. ptree_rep (pt\<lparr>slots := (slots pt)(n := Leaf_slot l)\<rparr>) ts'
      \<and> (\<forall>k. leaf_of ts' k = (if k = pk then Some (n, l) else leaf_of ts k))"
proof -
  let ?T = "TNode 1 ts"
  obtain fn fl where h: "heap_ok pt (set (fp ?T)) fn fl" using rep unfolding ptree_rep_def by blast
  have st: "stored (slots pt) ?T" using rep unfolding ptree_rep_def by blast
  have n: "slots pt n = Leaf_slot l0" "lf_pk l0 = pk" "n \<in> set (fp ?T)" using tfind_stored [OF f st] by blast+
  show "slot_put pt n (Leaf_slot l) = Some (pt\<lparr>slots := (slots pt)(n := Leaf_slot l)\<rparr>)" "n \<noteq> 0" "n < cap pt"
    using heap_ok_used(1,2) [OF h n(3)] by simp_all
  show "get_leaf_slot pt n = Some l0" by (rule get_leaf_stored [OF h n(3,1)])
  let ?ts = "map (set_leaf n l) ts"
  have eq: "TNode 1 ?ts = set_leaf n l ?T" by simp
  have "heap_ok (pt\<lparr>slots := (slots pt)(n := Leaf_slot l)\<rparr>) (set (fp ?T)) fn fl"
    by (rule heap_ok_store [OF h n(3)]) simp
  moreover have "stored ((slots pt)(n := Leaf_slot l)) (set_leaf n l ?T)" by (rule stored_set_leaf [OF st n(1)])
  moreover have "tree_ok [] (set_leaf n l ?T)"
    using rep l n(2) by (intro tree_ok_set_leaf [OF st n(1)]) (auto simp: ptree_rep_def)
  ultimately have "ptree_rep (pt\<lparr>slots := (slots pt)(n := Leaf_slot l)\<rparr>) ?ts"
    using rep unfolding ptree_rep_def eq fp_set_leaf by (simp del: fp.simps set_leaf.simps stored.simps tree_ok.simps) blast
  moreover have "leaf_of ?ts k = (if k = pk then Some (n, l) else leaf_of ts k)" for k
    unfolding eq using tfind_set_leaf [OF st n(1), of l 0 k] l n(2) f by (simp del: set_leaf.simps tfind.simps)
  ultimately show "\<exists>ts'. ptree_rep (pt\<lparr>slots := (slots pt)(n := Leaf_slot l)\<rparr>) ts'
      \<and> (\<forall>k. leaf_of ts' k = (if k = pk then Some (n, l) else leaf_of ts k))" by blast
qed

lemma collapse_by_pk_ok:
  assumes rep: "ptree_rep pt ts" and f: "leaf_of ts pk = Some (n, l)" "lf_length l = 0" "lf_block l = 0"
  shows "\<exists>pt' ts'. collapse_by_pk pt pk = Some pt' \<and> ptree_rep pt' ts' \<and> same_data pt' pt
     \<and> (\<forall>k. leaf_of ts' k = (if k = pk then None else leaf_of ts k))"
proof -
  let ?U = "set (fp (TNode 1 ts))"
  obtain fn fl where h: "heap_ok pt ?U fn fl" using rep unfolding ptree_rep_def by blast
  have "collapsed pk [] pt ?U 1 ts"
    using rep f by (intro collapse_ok [OF h _ _ _ _ refl]) (auto simp: ptree_rep_def simp del: tfind.simps)
  then obtain pt' ts' where c: "\<exists>a. collapse_by_pk_recurse pt pk (NODE_ID 1) 0 = Some (a, pt')"
    "shrunk [] pt ?U (TNode 1 ts) pt' (TNode 1 ts')" "same_data pt' pt"
    "\<forall>k. leaf_of ts' k = (if k = pk then None else leaf_of ts k)"
    unfolding collapsed_def by (auto simp del: tfind.simps)
  have "?U - (?U - set (fp (TNode 1 ts'))) = set (fp (TNode 1 ts'))" using c(2) unfolding shrunk_def by blast
  with c(2) have "ptree_rep pt' ts'" unfolding shrunk_def ptree_rep_def by metis
  moreover have "collapse_by_pk pt pk = Some pt'" using c(1) by (auto simp: collapse_by_pk_def NODE_ID_root [symmetric])
  ultimately show ?thesis using c(3,4) by blast
qed

section \<open>The tree as a map from keys to lists of pairs\<close>

definition plen :: "(rid \<times> rid) list option \<Rightarrow> int" where
  "plen v = (case v of None \<Rightarrow> 0 | Some ps \<Rightarrow> int (length ps))"

definition pair_total :: "(rid \<rightharpoonup> (rid \<times> rid) list) \<Rightarrow> int" where
  "pair_total M = (\<Sum>k \<in> dom M. plen (M k))"

text \<open>A leaf, the head of its chain and the pairs of its key.\<close>

definition entry_ok :: "(nat \<times> leaf) option \<Rightarrow> nat \<Rightarrow> (rid \<times> rid) list option \<Rightarrow> bool" where
  "entry_ok e b v \<longleftrightarrow> (case e of
       None \<Rightarrow> v = None \<and> b = 0
     | Some (n, l) \<Rightarrow> (case v of None \<Rightarrow> False | Some ps \<Rightarrow> b = lf_block l \<and> lf_length l = length ps))"

text \<open>
  The tree with subtrees \<open>ts\<close> holds the pairs \<open>M\<close>.  \<open>oh\<close> and \<open>oP\<close> are the heads and pairs of
  the other owners of chains in the same pair table.
\<close>

definition holds_with ::
  "ptree \<Rightarrow> ttree list \<Rightarrow> (rid \<Rightarrow> nat) \<Rightarrow> (rid \<rightharpoonup> (rid \<times> rid) list)
   \<Rightarrow> ('o \<Rightarrow> nat) \<Rightarrow> ('o \<rightharpoonup> (rid \<times> rid) list) \<Rightarrow> bool" where
  "holds_with pt ts h M oh oP \<longleftrightarrow> ptree_rep pt ts \<and> pt_holds (pt_table pt) (case_sum h oh) (case_sum M oP)
     \<and> (\<forall>pk. entry_ok (leaf_of ts pk) (h pk) (M pk)) \<and> finite (dom M) \<and> pt_count pt = pair_total M"

definition ptree_holds ::
  "ptree \<Rightarrow> (rid \<rightharpoonup> (rid \<times> rid) list) \<Rightarrow> ('o \<Rightarrow> nat) \<Rightarrow> ('o \<rightharpoonup> (rid \<times> rid) list) \<Rightarrow> bool" where
  "ptree_holds pt M oh oP \<longleftrightarrow> (\<exists>ts h. holds_with pt ts h M oh oP)"

lemma case_sum_upd [simp]: "(case_sum f g)(Inl k := v) = case_sum (f(k := v)) g"
  by (auto simp: fun_eq_iff split: sum.splits)

lemma pair_total_superset:
  assumes "finite A" "dom M \<subseteq> A"
  shows "pair_total M = (\<Sum>k \<in> A. plen (M k))"
  unfolding pair_total_def using assms by (intro sum.mono_neutral_left) (auto simp: plen_def dom_def)

lemma pair_total_upd:
  assumes "finite (dom M)"
  shows "pair_total (M(k := v)) = pair_total M + plen v - plen (M k)"
proof -
  let ?A = "insert k (dom M)"
  have "pair_total (M(k := v)) = (\<Sum>j \<in> ?A. plen ((M(k := v)) j))"
    using assms by (intro pair_total_superset) (auto split: if_splits)
  also have "\<dots> = plen v + (\<Sum>j \<in> ?A - {k}. plen (M j))"
    using assms by (subst sum.remove [of _ k]) (auto intro!: sum.cong)
  also have "(\<Sum>j \<in> ?A - {k}. plen (M j)) = (\<Sum>j \<in> ?A. plen (M j)) - plen (M k)"
    using assms by (subst sum.remove [of ?A k]) auto
  also have "(\<Sum>j \<in> ?A. plen (M j)) = pair_total M"
    using assms by (intro pair_total_superset [symmetric]) auto
  finally show ?thesis by linarith
qed

lemma heap_ok_create: "heap_ok (fs_ptree_create tbl) (set (fp (TNode 1 no_trees))) [] []"
proof -
  have [simp]: "fs_ptree_create tbl = (fs_ptree_write_header tbl)\<lparr>node_free := FS_PTREE_NULL_NODE\<rparr>"
    by (simp add: fs_ptree_create_def fs_ptree_write_header_def Let_def)
  have "set (fp (TNode 1 no_trees)) = {1}" by simp
  then show ?thesis
    by (simp add: heap_ok_def ranges_ok_def placed_def cap_def fs_ptree_write_header_def FS_PTREE_SIZE_INC_def del: fp.simps)
qed

lemma ptree_rep_create: "ptree_rep (fs_ptree_create tbl) no_trees"
proof -
  have "slots (fs_ptree_create tbl) 1 = Node_slot null_branches"
    by (simp add: fs_ptree_create_def fs_ptree_write_header_def Let_def)
  then show ?thesis
    using heap_ok_create [of tbl] by (auto simp: ptree_rep_def null_branches_def list_all_length)
qed

lemma find_create: "leaf_of no_trees pk = None"
  by simp

text \<open>A new tree over a table with other trees' chains is empty.\<close>

lemma holds_create:
  assumes "pt_holds tbl (case_sum (\<lambda>_. 0) oh) (case_sum (Map.empty :: rid \<rightharpoonup> (rid \<times> rid) list) oP)"
  shows "holds_with (fs_ptree_create tbl) no_trees (\<lambda>_. 0) Map.empty oh oP"
  using assms ptree_rep_create [of tbl]
  by (simp add: holds_with_def entry_ok_def pair_total_def fs_ptree_create_def fs_ptree_write_header_def Let_def)

section \<open>Adding\<close>

abbreviation pairs_of :: "(rid \<rightharpoonup> (rid \<times> rid) list) \<Rightarrow> rid \<Rightarrow> (rid \<times> rid) list" where
  "pairs_of M pk \<equiv> (case M pk of None \<Rightarrow> [] | Some ps \<Rightarrow> ps)"

lemma create_holds:
  assumes hw: "holds_with pt ts h M oh oP" and room: "ptree_room 32 pt"
  shows "\<exists>n pt1 ts1 l. get_or_create_leaf pt pk = Some (n, pt1) \<and> pt_table pt1 = pt_table pt \<and> pt_count pt1 = pt_count pt
     \<and> leaf_of ts1 pk = Some (n, l) \<and> holds_with pt1 ts1 h (M(pk \<mapsto> pairs_of M pk)) oh oP"
proof -
  obtain n pt1 ts1 where c: "get_or_create_leaf pt pk = Some (n, pt1)" "ptree_rep pt1 ts1" "same_data pt1 pt"
    "\<And>k. leaf_of ts1 k = (if k = pk then Some (entry_after n pk (leaf_of ts pk)) else leaf_of ts k)"
    "fst (entry_after n pk (leaf_of ts pk)) = n"
    using get_or_create_leaf_ok [of pt ts pk] hw room unfolding holds_with_def by blast
  let ?M = "M(pk \<mapsto> pairs_of M pk)"
  have e: "entry_ok (leaf_of ts k) (h k) (M k)" for k using hw unfolding holds_with_def by blast
  have ph: "pt_holds (pt_table pt) (case_sum h oh) (case_sum M oP)" using hw unfolding holds_with_def by blast
  have "pt_holds (pt_table pt) (case_sum h oh) (case_sum ?M oP)"
  proof (cases "M pk")
    case None
    then have "h pk = 0" using e [of pk] by (auto simp: entry_ok_def split: option.splits)
    then show ?thesis using ptab.holds_new [OF ph, of "Inl pk"] None by simp
  next
    case (Some ps)
    then have "?M = M" by (auto simp: fun_eq_iff)
    then show ?thesis using ph by simp
  qed
  moreover have "entry_ok (leaf_of ts1 k) (h k) (?M k)" for k
    using e [of k] c(4) [of k]
    by (auto simp: entry_ok_def entry_after_def empty_leaf_def simp del: tfind.simps split: option.splits)
  moreover have "pair_total ?M = pair_total M" "finite (dom ?M)"
    using pair_total_upd [of M pk "Some (pairs_of M pk)"] hw by (auto simp: holds_with_def plen_def split: option.splits)
  ultimately have "holds_with pt1 ts1 h ?M oh oP"
    using c(2,3) hw unfolding holds_with_def same_data_def by (simp del: tfind.simps)
  moreover obtain l where "leaf_of ts1 pk = Some (n, l)" using c(4) [of pk] c(5) by (metis prod.collapse)
  ultimately show ?thesis using c(1,3) unfolding same_data_def by blast
qed

lemma store_holds:
  assumes hw: "holds_with pt ts h M oh oP" and f: "leaf_of ts pk = Some (n, l)" and M: "M pk = Some ps"
    and tbl: "pt_holds tbl (case_sum (h(pk := blk)) oh) (case_sum (M(pk \<mapsto> ps')) oP)"
  defines "l' \<equiv> l\<lparr>lf_block := blk, lf_length := length ps'\<rparr>"
  shows "\<exists>ts'. holds_with (pt\<lparr>pt_table := tbl, pt_count := pt_count pt + int (length ps') - int (length ps),
      slots := (slots pt)(n := Leaf_slot l')\<rparr>) ts' (h(pk := blk)) (M(pk \<mapsto> ps')) oh oP
     \<and> leaf_of ts' pk = Some (n, l')"
proof -
  have rep: "ptree_rep pt ts" and e: "\<And>k. entry_ok (leaf_of ts k) (h k) (M k)" using hw unfolding holds_with_def by blast+
  have st: "stored (slots pt) (TNode 1 ts)" using rep unfolding ptree_rep_def by blast
  have "lf_pk l = pk" using tfind_stored [OF f st] by blast
  then have pk: "lf_pk l' = pk" by (simp add: l'_def)
  obtain ts' where ts': "ptree_rep (pt\<lparr>slots := (slots pt)(n := Leaf_slot l')\<rparr>) ts'"
    "\<And>k. leaf_of ts' k = (if k = pk then Some (n, l') else leaf_of ts k)"
    using ptree_store_leaf(5) [OF rep f pk] by blast
  have "ptree_rep (pt\<lparr>pt_table := tbl, pt_count := c, slots := (slots pt)(n := Leaf_slot l')\<rparr>) ts'" for c
  proof -
    have "pt\<lparr>pt_table := tbl, pt_count := c, slots := (slots pt)(n := Leaf_slot l')\<rparr>
        = (pt\<lparr>slots := (slots pt)(n := Leaf_slot l')\<rparr>)\<lparr>pt_table := tbl, pt_count := c\<rparr>" by simp
    then show ?thesis using ts'(1) by (simp only: ptree_rep_frame)
  qed
  moreover have "entry_ok (leaf_of ts' k) ((h(pk := blk)) k) ((M(pk \<mapsto> ps')) k)" for k
    using e [of k] ts'(2) [of k] by (simp add: entry_ok_def l'_def del: tfind.simps)
  moreover have "pair_total (M(pk \<mapsto> ps')) = pair_total M + int (length ps') - int (length ps)"
    using pair_total_upd [of M pk "Some ps'"] hw M by (simp add: holds_with_def plen_def)
  ultimately show ?thesis
    using hw tbl ts'(2) [of pk] unfolding holds_with_def by (intro exI [of _ ts']) (simp del: tfind.simps)
qed

lemma field_order:
  "(l :: leaf)\<lparr>lf_length := a, lf_block := b\<rparr> = l\<lparr>lf_block := b, lf_length := a\<rparr>"
  "(pt :: ptree)\<lparr>pt_table := t, slots := m, pt_count := c\<rparr> = pt\<lparr>pt_table := t, pt_count := c, slots := m\<rparr>"
  by simp_all

lemma ptree_add_ok:
  assumes hw: "ptree_holds pt M oh oP" and room: "ptree_room 32 pt" "pt_room (pt_table pt)"
  shows "\<exists>pt'. fs_ptree_add dedup (Some pt) pk (Some pr) = Some (0, Some pt')
     \<and> ptree_holds pt' (M(pk \<mapsto> (if dedup \<and> pr \<in> set (pairs_of M pk) then pairs_of M pk else pr # pairs_of M pk))) oh oP"
proof -
  obtain ts h where hw: "holds_with pt ts h M oh oP" using assms(1) unfolding ptree_holds_def by blast
  define ps where "ps = pairs_of M pk"
  obtain n pt1 ts1 l where c: "get_or_create_leaf pt pk = Some (n, pt1)" "pt_table pt1 = pt_table pt"
    "leaf_of ts1 pk = Some (n, l)" "holds_with pt1 ts1 h (M(pk \<mapsto> ps)) oh oP"
    using create_holds [OF hw room(1)] unfolding ps_def by blast
  have ph: "pt_holds (pt_table pt1) (case_sum h oh) (case_sum (M(pk \<mapsto> ps)) oP)"
    and rep: "ptree_rep pt1 ts1" and e: "entry_ok (leaf_of ts1 pk) (h pk) (Some ps)"
    using c(4) unfolding holds_with_def by (blast, blast, metis fun_upd_same)
  have l: "h pk = lf_block l" "lf_length l = length ps" using e c(3) by (auto simp: entry_ok_def simp del: tfind.simps)
  have pk: "lf_pk l = pk" using tfind_stored [OF c(3)] rep unfolding ptree_rep_def by blast
  note st = ptree_store_leaf [OF rep c(3)]
  have get: "get_leaf_slot pt1 n = Some l" using st(2) pk by simp
  have ex: "fs_ptable_pair_exists (pt_table pt1) (lf_block l) pr = Some (pr \<in> set ps)"
    using ptr.holds_exists [OF ph, of "Inl pk"] l(1) by simp
  have b0: "lf_block l = 0 \<longleftrightarrow> ps = []" using ptab.holds_head [OF ph, of "Inl pk"] l(1) by simp
  show ?thesis
  proof (cases "dedup \<and> pr \<in> set ps")
    case True
    then have "fs_ptree_add dedup (Some pt) pk (Some pr) = Some (0, Some pt1)"
      using c(1) get ex b0 by (auto simp: fs_ptree_add_def)
    with True c(4) show ?thesis unfolding ptree_holds_def ps_def [symmetric] by auto
  next
    case False
    obtain b tbl where add: "fs_ptable_add_pair (pt_table pt1) (lf_block l) pr = Some (b, tbl)" "b \<noteq> 0"
      "pt_holds tbl (case_sum (h(pk := b)) oh) (case_sum (M(pk \<mapsto> pr # ps)) oP)"
      using ptab.holds_add [OF ph, of "Inl pk" ps pr] room(2) c(2) l(1) by auto
    have len: "length ps < 2147483648" using ptr.holds_length [OF ph, of "Inl pk"] by simp
    let ?l = "l\<lparr>lf_block := b, lf_length := length (pr # ps)\<rparr>"
    let ?pt = "pt1\<lparr>pt_table := tbl, pt_count := pt_count pt1 + int (length (pr # ps)) - int (length ps),
        slots := (slots pt1)(n := Leaf_slot ?l)\<rparr>"
    have "\<exists>ts'. holds_with ?pt ts' (h(pk := b)) (M(pk \<mapsto> ps, pk \<mapsto> pr # ps)) oh oP"
      using store_holds [OF c(4,3) fun_upd_same, of tbl b "pr # ps", unfolded fun_upd_upd] add(3)
      unfolding fun_upd_upd by blast
    moreover have "fs_ptree_add dedup (Some pt) pk (Some pr) = Some (0, Some ?pt)"
      using c(1) get ex add(1,2) False st(4) [of l] pk l(2) len
      by (simp add: fs_ptree_add_def Let_def field_order)
    ultimately show ?thesis using False unfolding ptree_holds_def ps_def [symmetric] by auto
  qed
qed

section \<open>Removing\<close>

text \<open>The entry of a key that keeps the pairs \<open>rest\<close>: an emptied leaf is taken out of the tree.\<close>

definition keep_pairs :: "(rid \<rightharpoonup> (rid \<times> rid) list) \<Rightarrow> rid \<Rightarrow> (rid \<times> rid) list \<Rightarrow> (rid \<rightharpoonup> (rid \<times> rid) list)" where
  "keep_pairs M pk rest = (if rest = [] then M(pk := None) else M(pk \<mapsto> rest))"

lemma collapse_holds:
  assumes hw: "holds_with pt ts h (M(pk \<mapsto> [])) oh oP" and f: "leaf_of ts pk = Some (n, l)"
  shows "\<exists>pt'. collapse_by_pk pt pk = Some pt' \<and> ptree_holds pt' (M(pk := None)) oh oP"
proof -
  have rep: "ptree_rep pt ts" and e: "\<And>k. entry_ok (leaf_of ts k) (h k) ((M(pk \<mapsto> [])) k)"
    and ph: "pt_holds (pt_table pt) (case_sum h oh) (case_sum (M(pk \<mapsto> [])) oP)"
    and fin: "finite (dom (M(pk \<mapsto> [])))" and cnt: "pt_count pt = pair_total (M(pk \<mapsto> []))"
    using hw unfolding holds_with_def by blast+
  have l: "lf_length l = 0" "lf_block l = h pk" using e [of pk] f by (auto simp: entry_ok_def simp del: tfind.simps)
  have h0: "h pk = 0" using ptab.holds_head [OF ph, of "Inl pk"] by simp
  obtain pt' ts' where c: "collapse_by_pk pt pk = Some pt'" "ptree_rep pt' ts'" "same_data pt' pt"
    "\<And>k. leaf_of ts' k = (if k = pk then None else leaf_of ts k)"
    using collapse_by_pk_ok [OF rep f l(1)] l(2) h0 by auto
  have "pt_holds (pt_table pt) (case_sum h oh) (case_sum (M(pk := None)) oP)"
    using ptab.holds_drop [OF ph, of "Inl pk"] by simp
  moreover have "entry_ok (leaf_of ts' k) (h k) ((M(pk := None)) k)" for k
    using e [of k] c(4) [of k] h0 by (cases "k = pk") (simp_all add: entry_ok_def del: tfind.simps)
  moreover have "finite (dom (M(pk := None)))" using fin by (rule finite_subset [rotated]) (auto split: if_splits)
  moreover have "pair_total (M(pk := None)) = pair_total (M(pk \<mapsto> []))"
    using pair_total_upd [OF fin, of pk None] by (simp add: plen_def)
  ultimately have "holds_with pt' ts' h (M(pk := None)) oh oP"
    using c(2,3) cnt unfolding holds_with_def same_data_def by (simp del: tfind.simps)
  with c(1) show ?thesis unfolding ptree_holds_def by blast
qed

text \<open>The leaf of a key after its chain lost the matching pairs, before it may be collapsed.\<close>

lemma remove_leaf_pairs:
  fixes pat :: "rid \<times> rid"
  assumes hw: "holds_with pt ts h M oh oP" and M: "M pk = Some ps"
  defines "gone \<equiv> filter (pair_matches pat) ps" and "rest \<equiv> filter (\<lambda>p. \<not> pair_matches pat p) ps"
  shows "\<exists>n l b tbl pt1 ts1. get_leaf pt pk = Some n \<and> n \<noteq> 0 \<and> get_leaf_slot pt n = Some l
     \<and> (lf_block l = 0 \<longleftrightarrow> ps = []) \<and> lf_length l = length ps \<and> n < cap pt
     \<and> fs_ptable_remove_pair (pt_table pt) (lf_block l) pat 0 models
         = Some (b, tbl, int (length gone), models_after pat models gone)
     \<and> pt1 = pt\<lparr>pt_table := tbl, pt_count := pt_count pt - int (length gone),
         slots := (slots pt)(n := Leaf_slot (l\<lparr>lf_block := b, lf_length := length rest\<rparr>))\<rparr>
     \<and> holds_with pt1 ts1 (h(pk := b)) (M(pk \<mapsto> rest)) oh oP
     \<and> leaf_of ts1 pk = Some (n, l\<lparr>lf_block := b, lf_length := length rest\<rparr>)"
proof -
  have ph: "pt_holds (pt_table pt) (case_sum h oh) (case_sum M oP)"
    and rep: "ptree_rep pt ts" and e: "entry_ok (leaf_of ts pk) (h pk) (M pk)"
    using hw unfolding holds_with_def by blast+
  obtain n l where f: "leaf_of ts pk = Some (n, l)" and l: "h pk = lf_block l" "lf_length l = length ps"
    using e M by (auto simp: entry_ok_def simp del: tfind.simps split: option.splits)
  have pk: "lf_pk l = pk" using tfind_stored [OF f] rep unfolding ptree_rep_def by blast
  note st = ptree_store_leaf(2-4) [OF rep f pk]
  have get: "get_leaf pt pk = Some n" using get_leaf_ok [OF rep, of pk] f by simp
  have b0: "lf_block l = 0 \<longleftrightarrow> ps = []" using ptab.holds_head [OF ph, of "Inl pk"] l(1) M by simp
  obtain b tbl where rm: "fs_ptable_remove_pair (pt_table pt) (lf_block l) pat 0 models
      = Some (b, tbl, int (length gone), models_after pat models gone)"
    "pt_holds tbl (case_sum (h(pk := b)) oh) (case_sum (M(pk \<mapsto> rest)) oP)"
    using ptab.holds_remove [OF ph, of "Inl pk" ps pat 0 models] M l(1) by (auto simp: gone_def rest_def)
  have "pt_count pt + int (length rest) - int (length ps) = pt_count pt - int (length gone)"
    using sum_length_filter_compl [of "pair_matches pat" ps] by (simp add: gone_def rest_def)
  with store_holds [OF hw f M rm(2)] get b0 rm(1) l(2) st show ?thesis by auto
qed

lemma ptree_remove_some:
  fixes pat :: "rid \<times> rid"
  assumes hw: "holds_with pt ts h M oh oP" and M: "M pk = Some ps"
  defines "gone \<equiv> filter (pair_matches pat) ps" and "rest \<equiv> filter (\<lambda>p. \<not> pair_matches pat p) ps"
  shows "\<exists>pt'. fs_ptree_remove (Some pt) pk pat models
      = Some (if gone \<noteq> [] then 0 else 1, Some pt', models_after pat models gone)
     \<and> ptree_holds pt' (if gone = [] then M else keep_pairs M pk rest) oh oP"
proof -
  obtain n l b tbl pt1 ts1 where get: "get_leaf pt pk = Some n" "n \<noteq> 0" "get_leaf_slot pt n = Some l" "n < cap pt"
    and b0: "lf_block l = 0 \<longleftrightarrow> ps = []" and len: "lf_length l = length ps"
    and rm: "fs_ptable_remove_pair (pt_table pt) (lf_block l) pat 0 models
      = Some (b, tbl, int (length gone), models_after pat models gone)"
    and pt1: "pt1 = pt\<lparr>pt_table := tbl, pt_count := pt_count pt - int (length gone),
         slots := (slots pt)(n := Leaf_slot (l\<lparr>lf_block := b, lf_length := length rest\<rparr>))\<rparr>"
    and new: "holds_with pt1 ts1 (h(pk := b)) (M(pk \<mapsto> rest)) oh oP"
      "leaf_of ts1 pk = Some (n, l\<lparr>lf_block := b, lf_length := length rest\<rparr>)"
    using remove_leaf_pairs [OF hw M, of pat models, folded gone_def rest_def]
    by (elim exE conjE) (rule that; assumption)
  have ph: "pt_holds (pt_table pt) (case_sum h oh) (case_sum M oP)" using hw unfolding holds_with_def by blast
  have sum: "length ps = length gone + length rest" "length ps < 2147483648"
    using sum_length_filter_compl [of "pair_matches pat" ps] ptr.holds_length [OF ph, of "Inl pk" ps] M
    by (simp_all add: gone_def rest_def)
  show ?thesis
  proof (cases "gone = []")
    case True
    then have "rest = ps" by (simp add: gone_def rest_def filter_empty_conv filter_id_conv)
    then have eq: "l\<lparr>lf_block := b, lf_length := length rest\<rparr> = l\<lparr>lf_block := b\<rparr>" using len by (cases l) simp
    have "fs_ptree_remove (Some pt) pk pat models = Some (1, Some pt, models)" if "ps = []"
      using get that b0 by (simp add: fs_ptree_remove_def)
    moreover have "fs_ptree_remove (Some pt) pk pat models = Some (1, Some pt1, models)" if "ps \<noteq> []"
      using get that b0 rm True by (simp add: fs_ptree_remove_def pt1 eq)
    moreover have "M(pk \<mapsto> rest) = M" using M \<open>rest = ps\<close> by auto
    ultimately show ?thesis
      using True new(1) hw unfolding ptree_holds_def by (cases "ps = []") auto
  next
    case False
    then have ps: "ps \<noteq> []" by (auto simp: gone_def)
    have run: "fs_ptree_remove (Some pt) pk pat models
        = Option.bind (if rest = [] then collapse_by_pk pt1 pk else Some pt1)
            (\<lambda>pt2. Some (0, Some pt2, models_after pat models gone))"
      using get ps b0 rm False len sum by (simp add: fs_ptree_remove_def pt1 field_order)
    show ?thesis
    proof (cases "rest = []")
      case True
      with new(1) have "holds_with pt1 ts1 (h(pk := b)) (M(pk \<mapsto> [])) oh oP" by simp
      then show ?thesis using collapse_holds [OF _ new(2)] run True False by (fastforce simp: keep_pairs_def)
    qed (use new(1) run False in \<open>auto simp: ptree_holds_def keep_pairs_def\<close>)
  qed
qed

lemma ptree_remove_ok:
  fixes pk :: rid and pat :: "rid \<times> rid"
  assumes "ptree_holds pt M oh oP"
  defines "gone \<equiv> filter (pair_matches pat) (pairs_of M pk)"
    and "rest \<equiv> filter (\<lambda>p. \<not> pair_matches pat p) (pairs_of M pk)"
  shows "\<exists>pt'. fs_ptree_remove (Some pt) pk pat models
      = Some (if M pk = None \<or> gone \<noteq> [] then 0 else 1, Some pt', models_after pat models gone)
     \<and> ptree_holds pt' (if gone = [] then M else keep_pairs M pk rest) oh oP"
proof -
  obtain ts h where hw: "holds_with pt ts h M oh oP" using assms(1) unfolding ptree_holds_def by blast
  show ?thesis
  proof (cases "M pk")
    case None
    have "entry_ok (leaf_of ts pk) (h pk) (M pk)" "ptree_rep pt ts" using hw unfolding holds_with_def by blast+
    then have "get_leaf pt pk = Some 0"
      using get_leaf_ok [of pt ts pk] None
      by (cases "leaf_of ts pk") (auto simp: entry_ok_def simp del: tfind.simps)
    then have "fs_ptree_remove (Some pt) pk pat models = Some (0, Some pt, models)" by (simp add: fs_ptree_remove_def)
    then show ?thesis using None assms(1) by (simp add: gone_def)
  next
    case (Some ps)
    then have eq: "gone = filter (pair_matches pat) ps" "rest = filter (\<lambda>p. \<not> pair_matches pat p) ps"
      by (simp_all add: gone_def rest_def)
    show ?thesis
      using ptree_remove_some [OF hw Some, of pat models] unfolding eq Some by (simp only: option.distinct simp_thms)
  qed
qed

section \<open>Searching\<close>

text \<open>Calling the iterator until it reports no further pair.\<close>

partial_function (option) it_all :: "ptree \<Rightarrow> ptree_it \<Rightarrow> (rid \<times> rid) list option" where
  "it_all pt it =
     do {
       (found, it') \<leftarrow> fs_ptree_it_next pt it;
       case found of None \<Rightarrow> Some [] | Some p \<Rightarrow> do { ps \<leftarrow> it_all pt it'; Some (p # ps) }
     }"

lemma next_match_step:
  assumes "b \<noteq> 0" "fs_ptable_get_row tbl b = Some (Inr p)" "fs_ptable_get_next tbl b = Some b'"
  shows "next_match tbl b pat = (if pair_matches pat p then Some (Some p, b') else next_match tbl b' pat)"
  using assms by (subst next_match.simps) (auto simp: pair_matches_def)

lemma next_match_ok:
  assumes "pt_walk tbl b ps"
  shows "\<exists>b'. (case dropWhile (\<lambda>p. \<not> pair_matches pat p) ps of
        [] \<Rightarrow> next_match tbl b pat = Some (None, 0)
      | p # ps' \<Rightarrow> next_match tbl b pat = Some (Some p, b') \<and> pt_walk tbl b' ps')"
  using assms
proof (induction ps arbitrary: b)
  case Nil
  then show ?case by (subst next_match.simps) simp
next
  case (Cons p ps)
  then obtain b' where b': "b \<noteq> 0" "fs_ptable_get_row tbl b = Some (Inr p)" "fs_ptable_get_next tbl b = Some b'" "pt_walk tbl b' ps"
    by auto
  show ?case
  proof (cases "pair_matches pat p")
    case True
    then show ?thesis using next_match_step [OF b'(1-3), of pat] b'(4) by simp
  next
    case False
    then have "next_match tbl b pat = next_match tbl b' pat" "dropWhile (\<lambda>p. \<not> pair_matches pat p) (p # ps) = dropWhile (\<lambda>p. \<not> pair_matches pat p) ps"
      using next_match_step [OF b'(1-3), of pat] by simp_all
    then show ?thesis using Cons.IH [OF b'(4)] by (simp only:)
  qed
qed

lemma it_all_ok: "pt_walk (pt_table pt) (it_block it) ps \<Longrightarrow> it_all pt it = Some (filter (pair_matches (it_pair it)) ps)"
proof (induction "length ps" arbitrary: ps it rule: less_induct)
  case less
  let ?d = "dropWhile (\<lambda>p. \<not> pair_matches (it_pair it) p) ps"
  have f: "filter (pair_matches (it_pair it)) ps = filter (pair_matches (it_pair it)) ?d"
    by (induction ps) auto
  obtain b' where b': "case ?d of [] \<Rightarrow> next_match (pt_table pt) (it_block it) (it_pair it) = Some (None, 0)
      | p # ps' \<Rightarrow> next_match (pt_table pt) (it_block it) (it_pair it) = Some (Some p, b') \<and> pt_walk (pt_table pt) b' ps'"
    using next_match_ok [OF less.prems] by blast
  show ?case
  proof (cases ?d)
    case Nil
    then have "next_match (pt_table pt) (it_block it) (it_pair it) = Some (None, 0)" "filter (pair_matches (it_pair it)) ps = []"
      using b' f by (simp_all only: list.case filter.simps)
    then show ?thesis by (subst it_all.simps) (simp add: fs_ptree_it_next_def)
  next
    case (Cons p ps')
    have "length ps' < length ps" using Cons length_dropWhile_le [of "\<lambda>p. \<not> pair_matches (it_pair it) p" ps] by simp
    then have "it_all pt (it\<lparr>it_step := it_step it + 1, it_block := b'\<rparr>) = Some (filter (pair_matches (it_pair it)) ps')"
      using less.hyps [of ps' "it\<lparr>it_step := it_step it + 1, it_block := b'\<rparr>"] b' Cons by simp
    moreover have "pair_matches (it_pair it) p" using Cons hd_dropWhile [of "\<lambda>p. \<not> pair_matches (it_pair it) p" ps] by simp
    ultimately show ?thesis using b' f Cons by (subst it_all.simps) (simp add: fs_ptree_it_next_def)
  qed
qed

lemma ptree_search_ok:
  assumes "ptree_holds pt M oh oP"
  shows "case M pk of
      None \<Rightarrow> fs_ptree_search (Some pt) pk pat = Some None
    | Some ps \<Rightarrow> (\<exists>it. fs_ptree_search (Some pt) pk pat = Some (Some it)
        \<and> fs_ptree_it_get_length (Some it) = length ps \<and> it_all pt it = Some (filter (pair_matches pat) ps))"
proof -
  obtain ts h where hw: "holds_with pt ts h M oh oP" using assms unfolding ptree_holds_def by blast
  then have rep: "ptree_rep pt ts" and e: "entry_ok (leaf_of ts pk) (h pk) (M pk)"
    and ph: "pt_holds (pt_table pt) (case_sum h oh) (case_sum M oP)" unfolding holds_with_def by blast+
  show ?thesis
  proof (cases "leaf_of ts pk")
    case None
    then show ?thesis
      using e get_leaf_ok [OF rep, of pk] by (simp add: entry_ok_def fs_ptree_search_def del: tfind.simps)
  next
    case (Some nl)
    obtain n l where nl: "nl = (n, l)" by (cases nl)
    have f: "leaf_of ts pk = Some (n, l)" using Some nl by simp
    obtain ps where ps: "M pk = Some ps" "h pk = lf_block l" "lf_length l = length ps"
      using e f by (auto simp: entry_ok_def simp del: tfind.simps split: option.splits)
    have pk: "lf_pk l = pk" using tfind_stored [OF f] rep unfolding ptree_rep_def by blast
    have get: "get_leaf pt pk = Some n" using get_leaf_ok [OF rep, of pk] f by simp
    have walk: "pt_walk (pt_table pt) (lf_block l) ps" using ptr.holds_walk [OF ph, of "Inl pk" ps] ps by simp
    show ?thesis
      using get ptree_store_leaf(2,3) [OF rep f pk] ps it_all_ok [of pt _ ps] walk
      by (simp add: fs_ptree_search_def fs_ptree_it_get_length_def)
  qed
qed

section \<open>The tree as an index\<close>

text \<open>What the backend relies on: an index of pairs by key.\<close>

locale pair_index =
  fixes add :: "'t \<Rightarrow> rid \<Rightarrow> rid \<times> rid \<Rightarrow> 't option"
    and remove :: "'t \<Rightarrow> rid \<Rightarrow> rid \<times> rid \<Rightarrow> 't option"
    and search :: "'t \<Rightarrow> rid \<Rightarrow> rid \<times> rid \<Rightarrow> (rid \<times> rid) list option"
    and holds :: "'t \<Rightarrow> (rid \<rightharpoonup> (rid \<times> rid) list) \<Rightarrow> bool"
    and room :: "'t \<Rightarrow> bool"
  assumes add_holds: "holds t M \<Longrightarrow> room t \<Longrightarrow>
      \<exists>t'. add t k p = Some t' \<and> holds t' (M(k \<mapsto> p # pairs_of M k))"
    and remove_holds: "holds t M \<Longrightarrow> \<exists>t' M'. remove t k pat = Some t' \<and> holds t' M'
      \<and> (\<forall>j. pairs_of M' j = (if j = k then filter (\<lambda>p. \<not> pair_matches pat p) (pairs_of M k) else pairs_of M j))"
    and search_holds: "holds t M \<Longrightarrow> search t k pat = Some (filter (pair_matches pat) (pairs_of M k))"
begin

lemma search_added:
  assumes "holds t M" "room t" "pair_matches pat p"
  shows "\<exists>t' ps. add t k p = Some t' \<and> search t' k pat = Some ps \<and> p \<in> set ps"
  using add_holds [OF assms(1,2), of k p] search_holds assms(3) by fastforce

lemma search_removed:
  assumes "holds t M"
  shows "\<exists>t'. remove t k pat = Some t' \<and> search t' k pat = Some []
     \<and> (\<forall>j. j \<noteq> k \<longrightarrow> search t' j q = search t j q)"
proof -
  obtain t' M' where r: "remove t k pat = Some t'" "holds t' M'"
    "\<forall>j. pairs_of M' j = (if j = k then filter (\<lambda>p. \<not> pair_matches pat p) (pairs_of M k) else pairs_of M j)"
    using remove_holds [OF assms] by blast
  moreover have "filter (pair_matches pat) (filter (\<lambda>p. \<not> pair_matches pat p) (pairs_of M k)) = []"
    by (simp add: filter_empty_conv)
  ultimately show ?thesis using search_holds [OF r(2)] search_holds [OF assms] by simp
qed

end

definition tree_add :: "ptree \<Rightarrow> rid \<Rightarrow> rid \<times> rid \<Rightarrow> ptree option" where
  "tree_add pt k p = Option.bind (fs_ptree_add False (Some pt) k (Some p)) snd"

definition tree_remove :: "ptree \<Rightarrow> rid \<Rightarrow> rid \<times> rid \<Rightarrow> ptree option" where
  "tree_remove pt k pat = Option.bind (fs_ptree_remove (Some pt) k pat None) (\<lambda>(_, t, _). t)"

definition tree_search :: "ptree \<Rightarrow> rid \<Rightarrow> rid \<times> rid \<Rightarrow> (rid \<times> rid) list option" where
  "tree_search pt k pat =
     do { it \<leftarrow> fs_ptree_search (Some pt) k pat; case it of None \<Rightarrow> Some [] | Some i \<Rightarrow> it_all pt i }"

definition tree_holds :: "ptree \<Rightarrow> (rid \<rightharpoonup> (rid \<times> rid) list) \<Rightarrow> bool" where
  "tree_holds pt M \<longleftrightarrow> ptree_holds pt M (\<lambda>_ :: unit. 0) Map.empty"

definition tree_room :: "ptree \<Rightarrow> bool" where
  "tree_room pt \<longleftrightarrow> ptree_room 32 pt \<and> pt_room (pt_table pt)"

lemma pairs_of_keep:
  "pairs_of (if gone = [] then M else keep_pairs M k rest) j
     = (if j = k \<and> gone \<noteq> [] then rest else pairs_of M j)"
  by (auto simp: keep_pairs_def)

lemma tree_remove_holds:
  assumes "tree_holds pt M"
  shows "\<exists>t' M'. tree_remove pt k pat = Some t' \<and> tree_holds t' M'
      \<and> (\<forall>j. pairs_of M' j = (if j = k then filter (\<lambda>p. \<not> pair_matches pat p) (pairs_of M k) else pairs_of M j))"
proof -
  let ?gone = "filter (pair_matches pat) (pairs_of M k)" and ?rest = "filter (\<lambda>p. \<not> pair_matches pat p) (pairs_of M k)"
  obtain t' where "tree_remove pt k pat = Some t'" "tree_holds t' (if ?gone = [] then M else keep_pairs M k ?rest)"
    using ptree_remove_ok [OF assms [unfolded tree_holds_def], where pk = k and pat = pat and models = None]
    unfolding tree_holds_def tree_remove_def by fastforce
  moreover have "?gone = [] \<Longrightarrow> ?rest = pairs_of M k" by (simp add: filter_empty_conv filter_id_conv)
  ultimately show ?thesis using pairs_of_keep [of ?gone M k ?rest] by (metis (no_types, lifting))
qed

interpretation ptix: pair_index tree_add tree_remove tree_search tree_holds tree_room
proof unfold_locales
  show "\<exists>t'. tree_add t k p = Some t' \<and> tree_holds t' (M(k \<mapsto> p # pairs_of M k))"
    if "tree_holds t M" "tree_room t" for t M k p
    using ptree_add_ok [OF that(1) [unfolded tree_holds_def], of False k p] that(2)
    unfolding tree_holds_def tree_room_def tree_add_def by fastforce
  show "tree_search t k pat = Some (filter (pair_matches pat) (pairs_of M k))" if "tree_holds t M" for t M k pat
    using ptree_search_ok [OF that [unfolded tree_holds_def], of k pat]
    by (auto simp: tree_search_def split: option.splits)
qed (rule tree_remove_holds)

section \<open>Properties\<close>

lemma empty_tree: "ptree_holds (fs_ptree_create fs_ptable_create) Map.empty (\<lambda>_ :: unit. 0) Map.empty"
proof -
  have "case_sum (Map.empty :: rid \<rightharpoonup> (rid \<times> rid) list) (Map.empty :: unit \<rightharpoonup> (rid \<times> rid) list) = Map.empty"
    by (auto simp: fun_eq_iff split: sum.splits)
  moreover have "pt_holds fs_ptable_create hds (Map.empty :: rid + unit \<rightharpoonup> (rid \<times> rid) list)" for hds
    unfolding pt_holds_def by (intro exI [of _ "[]"] exI [of _ Map.empty]) (auto simp: pt_rep_create)
  ultimately show ?thesis
    unfolding ptree_holds_def using holds_create [of fs_ptable_create "\<lambda>_. 0" Map.empty] by auto
qed

lemma empty_tree_room: "ptree_room 32 (fs_ptree_create fs_ptable_create)" "pt_room (pt_table (fs_ptree_create fs_ptable_create))"
  by (simp_all add: ptree_room_def cap_def pt_room_def fs_ptree_create_def fs_ptree_write_header_def Let_def
      FS_PTREE_SIZE_INC_def fs_ptable_create_def)

lemma holds_count: "ptree_holds pt M oh oP \<Longrightarrow> fs_ptree_count pt = pair_total M \<and> finite (dom M)"
  by (auto simp: ptree_holds_def holds_with_def fs_ptree_count_def)

text \<open>C12: adding a pair under a key puts it in front of the pairs of that key and changes
  nothing else, neither the pairs of other keys nor those of other trees that share the
  pair table, whatever nodes and leaves have to be created, reused, split or mapped on the
  way; with duplicate removal built in, a pair that is already there is not added again.
  The tree's counter grows by the number of pairs added.\<close>

theorem ptree_add_refines:
  assumes "ptree_holds pt M oh oP" and "ptree_room 32 pt" and "pt_room (pt_table pt)"
  shows "\<exists>pt'. fs_ptree_add dedup (Some pt) pk (Some pr) = Some (0, Some pt')
     \<and> ptree_holds pt' (M(pk \<mapsto> (if dedup \<and> pr \<in> set (pairs_of M pk) then pairs_of M pk else pr # pairs_of M pk))) oh oP
     \<and> fs_ptree_count pt' = fs_ptree_count pt + (if dedup \<and> pr \<in> set (pairs_of M pk) then 0 else 1)"
proof -
  let ?v = "if dedup \<and> pr \<in> set (pairs_of M pk) then pairs_of M pk else pr # pairs_of M pk"
  obtain pt' where "fs_ptree_add dedup (Some pt) pk (Some pr) = Some (0, Some pt')" "ptree_holds pt' (M(pk \<mapsto> ?v)) oh oP"
    using ptree_add_ok [OF assms] by blast
  moreover have "plen (Some ?v) - plen (M pk) = (if dedup \<and> pr \<in> set (pairs_of M pk) then 0 else 1)"
    by (auto simp: plen_def split: option.splits)
  ultimately show ?thesis
    using holds_count [of pt'] holds_count [OF assms(1)] pair_total_upd [of M pk "Some ?v"] by fastforce
qed

theorem ptree_add_refines_witness:
  "\<exists>pt'. fs_ptree_add False (Some (fs_ptree_create fs_ptable_create)) 5 (Some (1, 2)) = Some (0, Some pt')
     \<and> ptree_holds pt' [5 \<mapsto> [(1, 2)]] (\<lambda>_ :: unit. 0) Map.empty
     \<and> fs_ptree_count pt' = fs_ptree_count (fs_ptree_create fs_ptable_create) + 1"
  using ptree_add_refines [OF empty_tree empty_tree_room, of False 5 "(1, 2)"] by simp



text \<open>C14: a search for a key finds nothing when the key is not in the tree; otherwise it returns
  an iterator that reports the number of pairs of the key and yields, in order, exactly the
  pairs that match the pattern.\<close>

theorem ptree_search_refines:
  assumes "ptree_holds pt M oh oP"
  shows "case M pk of
      None \<Rightarrow> fs_ptree_search (Some pt) pk pat = Some None
    | Some ps \<Rightarrow> (\<exists>it. fs_ptree_search (Some pt) pk pat = Some (Some it)
        \<and> fs_ptree_it_get_length (Some it) = length ps \<and> it_all pt it = Some (filter (pair_matches pat) ps))"
  using assms by (rule ptree_search_ok)

theorem ptree_search_refines_witness:
  "\<exists>pt it. fs_ptree_add False (Some (fs_ptree_create fs_ptable_create)) 5 (Some (1, 2)) = Some (0, Some pt)
     \<and> fs_ptree_search (Some pt) 7 (FS_RID_NULL, 2) = Some None
     \<and> fs_ptree_search (Some pt) 5 (FS_RID_NULL, 2) = Some (Some it) \<and> it_all pt it = Some [(1, 2)]"
proof -
  obtain pt where pt: "fs_ptree_add False (Some (fs_ptree_create fs_ptable_create)) 5 (Some (1, 2)) = Some (0, Some pt)"
    "ptree_holds pt [5 \<mapsto> [(1, 2)]] (\<lambda>_ :: unit. 0) Map.empty"
    using ptree_add_ok [OF empty_tree empty_tree_room, of False 5 "(1, 2)"] by auto
  with ptree_search_refines [OF pt(2), of 5 "(FS_RID_NULL, 2)"] ptree_search_refines [OF pt(2), of 7 "(FS_RID_NULL, 2)"]
  show ?thesis by (auto simp: pair_matches_def)
qed

end
