(* ===== verification/PtreeBulk.thy ===== *)
theory PtreeBulk
  imports PtreeOps
begin

text \<open>
  Operations on whole trees: \<open>fs_ptree_remove_all\<close>, which takes the pairs that match a
  pattern from the chain of every key and merges and culls nodes on the way back up, and
  the traversal that lists every pair of the tree.
\<close>

section \<open>Removing from every key\<close>

definition purge :: "rid \<times> rid \<Rightarrow> (rid \<times> rid) list option \<Rightarrow> (rid \<times> rid) list option" where
  "purge pat v = (case v of
       None \<Rightarrow> None
     | Some ps \<Rightarrow>
       (let rest = filter (\<lambda>p. \<not> pair_matches pat p) ps
        in if rest = [] \<and> ps \<noteq> [] then None else Some rest))"

text \<open>
  \<open>purge_on pat Q i T T' h M h' M'\<close>: the keys of \<open>Q\<close> that \<open>T\<close> finds at level \<open>i\<close> were
  purged, everything about the others is as it was.
\<close>

definition purge_on ::
  "rid \<times> rid \<Rightarrow> rid set \<Rightarrow> nat \<Rightarrow> ttree \<Rightarrow> ttree \<Rightarrow> (rid \<Rightarrow> nat) \<Rightarrow> (rid \<rightharpoonup> (rid \<times> rid) list)
   \<Rightarrow> (rid \<Rightarrow> nat) \<Rightarrow> (rid \<rightharpoonup> (rid \<times> rid) list) \<Rightarrow> bool" where
  "purge_on pat Q i T T' h M h' M' \<longleftrightarrow> (\<forall>k.
     if tfind T i k = None \<or> k \<notin> Q then tfind T' i k = tfind T i k \<and> h' k = h k \<and> M' k = M k
     else M' k = purge pat (M k) \<and> entry_ok (tfind T' i k) (h' k) (M' k))"

text \<open>The table of a tree with heads \<open>h\<close> and pairs \<open>M\<close>, and the entries of a subtree.\<close>

definition table_ok ::
  "ptree \<Rightarrow> (rid \<Rightarrow> nat) \<Rightarrow> (rid \<rightharpoonup> (rid \<times> rid) list) \<Rightarrow> ('o \<Rightarrow> nat) \<Rightarrow> ('o \<rightharpoonup> (rid \<times> rid) list) \<Rightarrow> bool" where
  "table_ok pt h M oh oP \<longleftrightarrow> pt_holds (pt_table pt) (case_sum h oh) (case_sum M oP) \<and> finite (dom M)"

definition entries_ok :: "nat \<Rightarrow> ttree \<Rightarrow> (rid \<Rightarrow> nat) \<Rightarrow> (rid \<rightharpoonup> (rid \<times> rid) list) \<Rightarrow> bool" where
  "entries_ok i T h M \<longleftrightarrow> (\<forall>k. tfind T i k \<noteq> None \<longrightarrow> entry_ok (tfind T i k) (h k) (M k))"

lemma purge_on_refl: "purge_on pat {} i T T h M h M"
  by (simp add: purge_on_def)

lemma purge_on_trans:
  assumes "purge_on pat Q i T T1 h M h1 M1" "purge_on pat R i T1 T2 h1 M1 h2 M2" "Q \<inter> R = {}"
  shows "purge_on pat (Q \<union> R) i T T2 h M h2 M2"
  unfolding purge_on_def
proof
  fix k
  have a: "if tfind T i k = None \<or> k \<notin> Q then tfind T1 i k = tfind T i k \<and> h1 k = h k \<and> M1 k = M k
      else M1 k = purge pat (M k) \<and> entry_ok (tfind T1 i k) (h1 k) (M1 k)"
    using assms(1) unfolding purge_on_def by blast
  have b: "if tfind T1 i k = None \<or> k \<notin> R then tfind T2 i k = tfind T1 i k \<and> h2 k = h1 k \<and> M2 k = M1 k
      else M2 k = purge pat (M1 k) \<and> entry_ok (tfind T2 i k) (h2 k) (M2 k)"
    using assms(2) unfolding purge_on_def by blast
  from a b assms(3) show "if tfind T i k = None \<or> k \<notin> Q \<union> R then tfind T2 i k = tfind T i k \<and> h2 k = h k \<and> M2 k = M k
      else M2 k = purge pat (M k) \<and> entry_ok (tfind T2 i k) (h2 k) (M2 k)"
    by (cases "k \<in> Q"; cases "tfind T i k = None") (auto split: if_splits)
qed

lemma entries_ok_purge: "purge_on pat Q i T T' h M h' M' \<Longrightarrow> entries_ok i T h M \<Longrightarrow> entries_ok i T' h' M'"
  unfolding purge_on_def entries_ok_def by metis

lemma tfind_prefix:
  "tree_ok q t \<Longrightarrow> tfind t i k = Some e \<Longrightarrow> take (length q) (digits k) = q"
proof (induction t i k arbitrary: q rule: tfind.induct)
  case (3 s ts i pk)
  then have "take (length (q @ [PK_BRANCH pk i])) (digits pk) = q @ [PK_BRANCH pk i]"
    by (intro "3.IH") (auto split: if_splits)
  then show ?case by (metis append_eq_append_conv append_take_drop_id butlast_snoc butlast_take length_append_singleton
      diff_Suc_1 length_digits length_take min.absorb2 nat_le_linear take_all)
qed (auto split: if_splits)

lemma tfind_child:
  "b < length ts \<Longrightarrow> PK_BRANCH k i = b \<Longrightarrow> tfind (TNode s ts) i k = tfind (ts ! b) (Suc i) k"
  by simp

lemma tfind_other_branch:
  assumes "tree_ok p (TNode s ts)" "b < 4" "PK_BRANCH k (length p) \<noteq> b"
  shows "tfind (ts ! b) (Suc (length p)) k = None"
proof (rule ccontr)
  assume "tfind (ts ! b) (Suc (length p)) k \<noteq> None"
  then obtain e where "tfind (ts ! b) (Suc (length p)) k = Some e" by auto
  moreover have "tree_ok (p @ [b]) (ts ! b)" "length p < 32" using assms(1,2) by auto
  ultimately have "take (Suc (length p)) (digits k) = p @ [b]" using tfind_prefix [of "p @ [b]"] by fastforce
  with take_Suc_digits [of "length p" k] \<open>length p < 32\<close> assms(3) show False by simp
qed

text \<open>A purged subtree, seen from its parent.\<close>

lemma purge_on_child:
  assumes ok: "tree_ok p (TNode s ts)" and b: "b < 4"
    and sub: "purge_on pat UNIV (Suc (length p)) (ts ! b) t1 h M h1 M1"
  shows "purge_on pat {k. PK_BRANCH k (length p) = b} (length p) (TNode s ts) (TNode s (ts[b := t1])) h M h1 M1"
  unfolding purge_on_def
proof
  fix k
  have bl: "b < length ts" using ok b by simp
  have u: "if tfind (ts ! b) (Suc (length p)) k = None
      then tfind t1 (Suc (length p)) k = tfind (ts ! b) (Suc (length p)) k \<and> h1 k = h k \<and> M1 k = M k
      else M1 k = purge pat (M k) \<and> entry_ok (tfind t1 (Suc (length p)) k) (h1 k) (M1 k)"
    using sub unfolding purge_on_def by (metis UNIV_I)
  show "if tfind (TNode s ts) (length p) k = None \<or> k \<notin> {k. PK_BRANCH k (length p) = b}
      then tfind (TNode s (ts[b := t1])) (length p) k = tfind (TNode s ts) (length p) k \<and> h1 k = h k \<and> M1 k = M k
      else M1 k = purge pat (M k) \<and> entry_ok (tfind (TNode s (ts[b := t1])) (length p) k) (h1 k) (M1 k)"
  proof (cases "PK_BRANCH k (length p) = b")
    case True
    then show ?thesis
      using u tfind_child [OF bl True, of s]
      by (cases "tfind (ts ! b) (Suc (length p)) k") (auto simp: tfind_update [OF bl] simp del: tfind.simps)
  next
    case False
    then show ?thesis
      using u tfind_other_branch [OF ok b False] by (simp add: tfind_update [OF bl] del: tfind.simps)
  qed
qed

text \<open>
  \<open>purged pat p pt U t h M oh oP pt' t' h' M' r\<close>: the tree \<open>t\<close> became \<open>t'\<close> and lost \<open>r\<close> pairs.
\<close>

definition purged where
  "purged pat p pt U t h M oh oP pt' t' h' M' r \<longleftrightarrow>
     shrunk p pt U t pt' t' \<and> purge_on pat UNIV (length p) t t' h M h' M'
   \<and> table_ok pt' h' M' oh oP \<and> pt_count pt' = pt_count pt \<and> r = pair_total M - pair_total M'"

definition is_leaf :: "ttree \<Rightarrow> bool" where
  "is_leaf t \<longleftrightarrow> (case t of TLeaf _ _ \<Rightarrow> True | _ \<Rightarrow> False)"

lemma is_leaf_simps [simp]: "is_leaf (TLeaf n l)" "\<not> is_leaf TNull" "\<not> is_leaf (TNode s ts)"
  by (simp_all add: is_leaf_def)

text \<open>The leaf branch of the loop.\<close>

lemma remove_all_leaf_table:
  fixes pat :: "rid \<times> rid"
  assumes h: "heap_ok pt U fn fl" and n: "n \<in> U" "slots pt n = Leaf_slot l"
    and tbl: "table_ok pt h M oh oP" and M: "M (lf_pk l) = Some ps" "h (lf_pk l) = lf_block l" "lf_length l = length ps"
  defines "gone \<equiv> filter (pair_matches pat) ps" and "rest \<equiv> filter (\<lambda>p. \<not> pair_matches pat p) ps"
  shows "\<exists>blk tb pt1 l1. pt1 = pt\<lparr>pt_table := tb, slots := (slots pt)(n := Leaf_slot l1)\<rparr>
     \<and> l1 = l\<lparr>lf_block := blk, lf_length := length rest\<rparr>
     \<and> table_ok pt1 (h(lf_pk l := blk)) (M(lf_pk l \<mapsto> rest)) oh oP \<and> (blk = 0 \<longleftrightarrow> rest = [])
     \<and> remove_all_leaf pt pat s b n =
         (if gone \<noteq> [] \<and> rest = [] then
            do {
              pt2 \<leftarrow> fs_ptree_free_leaf pt1 n;
              pt3 \<leftarrow> set_branch pt2 s b FS_PTREE_NULL_NODE;
              Some (int (length gone), False, pt3)
            }
          else Some (int (length gone), True, pt1))"
proof -
  let ?pk = "lf_pk l"
  have ph: "pt_holds (pt_table pt) (case_sum h oh) (case_sum M oP)" and fin: "finite (dom M)"
    using tbl unfolding table_ok_def by blast+
  have cap: "n < cap pt" and get: "get_leaf_slot pt n = Some l"
    using heap_ok_used(2) [OF h n(1)] get_leaf_stored [OF h n] by auto
  have b0: "lf_block l = 0 \<longleftrightarrow> ps = []" using ptab.holds_head [OF ph, of "Inl ?pk"] M by simp
  have len: "length ps = length gone + length rest" "length ps < 2147483648"
    using sum_length_filter_compl [of "pair_matches pat" ps] ptr.holds_length [OF ph, of "Inl ?pk" ps] M(1)
    by (simp_all add: gone_def rest_def)
  obtain blk tb where rm: "fs_ptable_remove_pair (pt_table pt) (lf_block l) pat 0 None
      = Some (blk, tb, int (length gone), models_after pat None gone)"
    "blk = 0 \<longleftrightarrow> rest = []" "pt_holds tb (case_sum (h(?pk := blk)) oh) (case_sum (M(?pk \<mapsto> rest)) oP)"
    using ptab.holds_remove [OF ph, of "Inl ?pk" ps pat 0 None] M by (auto simp: gone_def rest_def)
  let ?l1 = "l\<lparr>lf_block := blk, lf_length := length rest\<rparr>"
  let ?pt1 = "pt\<lparr>pt_table := tb, slots := (slots pt)(n := Leaf_slot ?l1)\<rparr>"
  have lf: "l\<lparr>lf_block := blk, lf_length := (if int (length gone) \<noteq> 0 then sub32 (lf_length l) (u32_of_int (int (length gone))) else lf_length l)\<rparr> = ?l1"
    using M(3) len by simp
  have same: "?pt1 = pt" if "ps = []"
  proof -
    have e: "rest = []" "lf_block l = 0" "blk = 0" "tb = pt_table pt"
      using that b0 rm(1,2) by (auto simp: gone_def rest_def fs_ptable_remove_pair_def)
    then have "?l1 = l" using M(3) that by simp
    then show ?thesis using e(4) n(2) by (simp add: fun_upd_idem)
  qed
  have "remove_all_leaf pt pat s b n = (if gone \<noteq> [] \<and> rest = [] then
            do { pt2 \<leftarrow> fs_ptree_free_leaf ?pt1 n; pt3 \<leftarrow> set_branch pt2 s b FS_PTREE_NULL_NODE;
                 Some (int (length gone), False, pt3) }
          else Some (int (length gone), True, ?pt1))"
  proof (cases "ps = []")
    case True
    then have "gone = []" by (simp add: gone_def)
    moreover have "remove_all_leaf pt pat s b n = Some (0, True, pt)"
      using get b0 True unfolding remove_all_leaf_def by simp
    ultimately show ?thesis using same [OF True] by simp
  next
    case False
    then show ?thesis
      using get b0 rm(1) cap unfolding remove_all_leaf_def by (simp add: Let_def lf [simplified])
  qed
  moreover have "table_ok ?pt1 (h(?pk := blk)) (M(?pk \<mapsto> rest)) oh oP" using rm(3) fin by (simp add: table_ok_def)
  ultimately show ?thesis using rm(2) by blast
qed

text \<open>
  \<open>loop_step\<close>: one turn of the loop at branch \<open>b\<close> of the node \<open>s\<close> turns the subtree \<open>t\<close>
  into \<open>t1\<close>; the branch is set to it and the counters advance.
\<close>

definition loop_step :: "rid \<times> rid \<Rightarrow> nat \<Rightarrow> nat \<Rightarrow> ptree \<Rightarrow> ttree \<Rightarrow> ptree \<Rightarrow> ttree \<Rightarrow> int \<Rightarrow> bool" where
  "loop_step pat s b pt t pt1 t1 r \<longleftrightarrow> (\<exists>d \<le> (if is_leaf t1 then 1 else 0). \<forall>pt2 br lv removed.
     set_branch pt1 s b (tid t1) = Some pt2 \<longrightarrow> (tid t1 = tid t \<longrightarrow> pt2 = pt1) \<longrightarrow>
     remove_all_loop pt pat s b br lv removed
       = remove_all_loop pt2 pat s (b + 1) (br + (if t1 = TNull then 0 else 1)) (lv + d) (removed + r))"

lemma remove_all_loop_read:
  assumes h: "heap_ok pt U fn fl" and ok: "set (fp (TNode s ts)) \<subseteq> U" "stored (slots pt) (TNode s ts)" "length ts = 4"
    and b: "b < 4"
  shows "remove_all_loop pt pat s b br lv removed =
     (case ts ! b of
        TNull \<Rightarrow> remove_all_loop pt pat s (b + 1) br lv removed
      | TLeaf n l \<Rightarrow>
          do {
            (sub, stays, pt1) \<leftarrow> remove_all_leaf pt pat s b n;
            if stays then remove_all_loop pt1 pat s (b + 1) (br + 1) (lv + 1) (removed + sub)
            else remove_all_loop pt1 pat s (b + 1) br lv (removed + sub)
          }
      | TNode s2 ts2 \<Rightarrow>
          do {
            (action, removed1, pt1) \<leftarrow> remove_all_loop pt pat s2 0 0 0 removed;
            (more, pt2) \<leftarrow> remove_all_act pt1 s b (NODE_ID s2) action;
            remove_all_loop pt2 pat s (b + 1) (br + more) lv removed1
          })"
proof -
  have node: "get_node pt s = Some (map tid ts)" "load_at (map tid ts) b = Some (tid (ts ! b))"
    using get_node_stored(2) [OF h, of s] ok b by (auto simp: load_at_def)
  have sub: "set (fp (ts ! b)) \<subseteq> U" using fp_nth [of b ts s] ok(1,3) b by fastforce
  note n = tid_null [OF h sub] and l = tid_leaf [OF h sub]
  show ?thesis
  proof (cases "ts ! b")
    case (TNode s2 ts2)
    then have "s2 \<in> U" "slots pt s2 = Node_slot (map tid ts2)" using sub ok(2,3) b by (auto simp: list_all_length)
    then have "node_ref pt (NODE_ID s2) = Some s2" by (rule get_node_stored [OF h])
    moreover have "NODE_ID s2 \<noteq> FS_PTREE_NULL_NODE" "\<not> IS_LEAF (NODE_ID s2)" using TNode n by (auto simp: IS_LEAF_def)
    ultimately show ?thesis using TNode node b by (subst remove_all_loop.simps) simp
  next
    case (TLeaf m k)
    then have "m \<noteq> FS_PTREE_NULL_NODE" "IS_LEAF m" using n l by auto
    then show ?thesis using TLeaf node b by (subst remove_all_loop.simps) simp
  qed (use node b in \<open>subst remove_all_loop.simps, simp\<close>)
qed

lemma purge_on_leaf:
  assumes "h1 = h(lf_pk l := b1)" "M1 = M(lf_pk l := v)" "v = purge pat (M (lf_pk l))"
    "entry_ok (tfind t1 i (lf_pk l)) b1 v" "\<And>k. k \<noteq> lf_pk l \<Longrightarrow> tfind t1 i k = None"
  shows "purge_on pat UNIV i (TLeaf n l) t1 h M h1 M1"
  using assms by (auto simp: purge_on_def)

lemma leaf_step:
  assumes h: "heap_ok pt U fn fl" and ok: "tree_ok p (TNode s ts)" "distinct (fp (TNode s ts))" "set (fp (TNode s ts)) \<subseteq> U"
      "stored (slots pt) (TNode s ts)"
    and tbl: "table_ok pt h M oh oP" and ent: "entries_ok (length p) (TNode s ts) h M"
    and b: "b < 4" "ts ! b = TLeaf n l"
  shows "\<exists>pt1 t1 h1 M1 r. purged pat (p @ [b]) pt U (ts ! b) h M oh oP pt1 t1 h1 M1 r
     \<and> loop_step pat s b pt (ts ! b) pt1 t1 r"
proof -
  let ?pk = "lf_pk l"
  have bl: "b < length ts" "tree_ok (p @ [b]) (TLeaf n l)" using ok(1) b by force+
  have n: "n \<in> U" "slots pt n = Leaf_slot l"
    using fp_nth [OF bl(1), of s] ok(3,4) b(2) bl(1) by (auto simp: list_all_length)
  have "length p < 32" using ok(1) by simp
  then have "PK_BRANCH ?pk (length p) = b"
    using bl(2) take_Suc_digits [of "length p" ?pk] by simp
  then have "tfind (TNode s ts) (length p) ?pk = Some (n, l)" using bl(1) b(2) by simp
  with ent have "entry_ok (Some (n, l)) (h ?pk) (M ?pk)" unfolding entries_ok_def by (metis option.distinct(1))
  then obtain ps where ps: "M ?pk = Some ps" "h ?pk = lf_block l" "lf_length l = length ps"
    by (auto simp: entry_ok_def split: option.splits)
  let ?gone = "filter (pair_matches pat) ps" and ?rest = "filter (\<lambda>p. \<not> pair_matches pat p) ps"
  obtain blk tb pt1 l1 where pt1: "pt1 = pt\<lparr>pt_table := tb, slots := (slots pt)(n := Leaf_slot l1)\<rparr>"
    and l1: "l1 = l\<lparr>lf_block := blk, lf_length := length ?rest\<rparr>"
    and t1: "table_ok pt1 (h(?pk := blk)) (M(?pk \<mapsto> ?rest)) oh oP" "blk = 0 \<longleftrightarrow> ?rest = []"
    and run: "remove_all_leaf pt pat s b n = (if ?gone \<noteq> [] \<and> ?rest = [] then
        do { pt2 \<leftarrow> fs_ptree_free_leaf pt1 n; pt3 \<leftarrow> set_branch pt2 s b FS_PTREE_NULL_NODE;
             Some (int (length ?gone), False, pt3) }
      else Some (int (length ?gone), True, pt1))"
    using remove_all_leaf_table [OF h n tbl ps, of pat s b] by (elim exE conjE) (rule that; assumption)
  have fin: "finite (dom M)" using tbl by (simp add: table_ok_def)
  have "length ?gone + length ?rest = length ps" by (rule sum_length_filter_compl)
  then have r: "int (length ?gone) = pair_total M - pair_total (M(?pk \<mapsto> ?rest))"
    using pair_total_upd [OF fin, of ?pk "Some ?rest"] ps(1) by (simp add: plen_def)
  have "heap_ok (pt\<lparr>slots := (slots pt)(n := Leaf_slot l1)\<rparr>) U fn fl" by (rule heap_ok_store [OF h n(1)]) simp
  moreover have "pt1 = (pt\<lparr>slots := (slots pt)(n := Leaf_slot l1)\<rparr>)\<lparr>pt_table := tb\<rparr>" by (simp add: pt1)
  ultimately have h1: "heap_ok pt1 U fn fl" by (simp only: heap_ok_frame)
  have m1: "slots pt1 n = Leaf_slot l1" "lf_pk l1 = ?pk" "pt_count pt1 = pt_count pt" by (simp_all add: pt1 l1)
  have sh1: "shrunk (p @ [b]) pt U (TLeaf n l) pt1 (TLeaf n l1)"
    using h1 m1 bl(2) unfolding shrunk_def by (auto simp: pt1)
  note read = remove_all_loop_read [OF h ok(3,4) _ b(1)]
  have len: "length ts = 4" using ok(1) by simp
  show ?thesis
  proof (cases "?gone \<noteq> [] \<and> ?rest = []")
    case False
    have "purge pat (M ?pk) = Some ?rest" using False ps(1) by (cases ps) (auto simp: purge_def Let_def)
    then have "purge_on pat UNIV (Suc (length p)) (TLeaf n l) (TLeaf n l1) h M (h(?pk := blk)) (M(?pk \<mapsto> ?rest))"
      by (intro purge_on_leaf [OF refl refl]) (auto simp: entry_ok_def l1)
    then have "purged pat (p @ [b]) pt U (ts ! b) h M oh oP pt1 (TLeaf n l1) (h(?pk := blk)) (M(?pk \<mapsto> ?rest)) (int (length ?gone))"
      using sh1 t1(1) m1(3) r b(2) by (simp add: purged_def)
    moreover have "loop_step pat s b pt (ts ! b) pt1 (TLeaf n l1) (int (length ?gone))"
      using read run False b(2) len by (auto simp: loop_step_def)
    ultimately show ?thesis by blast
  next
    case True
    obtain pt2 where pt2: "fs_ptree_free_leaf pt1 n = Some pt2" "shrunk (p @ [b]) pt1 U (TLeaf n l1) pt2 TNull" "same_data pt2 pt1"
      using shrunk_free_leaf [OF h1 n(1) m1(1)] by blast
    have "shrunk (p @ [b]) pt U (TLeaf n l) pt2 TNull"
      using sh1 pt2(2) n(1) by (intro shrunk_trans [OF sh1]) simp_all
    moreover have "purge pat (M ?pk) = None" using True ps(1) by (auto simp: purge_def Let_def)
    then have "purge_on pat UNIV (Suc (length p)) (TLeaf n l) TNull h M (h(?pk := 0)) (M(?pk := None))"
      by (intro purge_on_leaf [OF refl refl]) (auto simp: entry_ok_def)
    moreover have "table_ok pt2 (h(?pk := 0)) (M(?pk := None)) oh oP"
      using t1 True ptab.holds_drop [of "pt_table pt1" "case_sum (h(?pk := 0)) oh" "case_sum (M(?pk \<mapsto> [])) oP" "Inl ?pk"]
        pt2(3) fin by (simp add: table_ok_def same_data_def)
    moreover have "int (length ?gone) = pair_total M - pair_total (M(?pk := None))"
      using r True pair_total_upd [OF fin, of ?pk None] pair_total_upd [OF fin, of ?pk "Some []"] by (simp add: plen_def)
    ultimately have "purged pat (p @ [b]) pt U (ts ! b) h M oh oP pt2 TNull (h(?pk := 0)) (M(?pk := None)) (int (length ?gone))"
      using pt2(3) m1(3) b(2) by (simp add: purged_def same_data_def)
    moreover have "loop_step pat s b pt (ts ! b) pt2 TNull (int (length ?gone))"
      using read run True b(2) len pt2(1) by (auto simp: loop_step_def)
    ultimately show ?thesis by blast
  qed
qed

text \<open>The action returned for a node with the subtrees \<open>ts\<close>.\<close>

definition action_ok :: "recurse_action \<Rightarrow> ttree list \<Rightarrow> bool" where
  "action_ok a ts \<longleftrightarrow> (a = CULL \<longrightarrow> (\<forall>t \<in> set ts. t = TNull))
     \<and> (a = MERGE \<longrightarrow> (\<exists>c < 4. \<exists>n l. ts = no_trees[c := TLeaf n l]))"

lemma first_branch_single: "c < 4 \<Longrightarrow> v \<noteq> FS_PTREE_NULL_NODE \<Longrightarrow> first_branch (null_branches[c := v]) = v"
  unfolding less4 by (elim disjE) (simp_all add: null_branches_def numeral_eq_Suc)

lemma tids_single: "map tid (no_trees[c := t]) = null_branches[c := tid t]"
  by (simp add: map_update null_branches_def)

lemma purge_on_same_find:
  "purge_on pat Q i T T' h M h' M' \<Longrightarrow> (\<And>k. tfind T'' i k = tfind T' i k) \<Longrightarrow> purge_on pat Q i T T'' h M h' M'"
proof -
  assume p: "purge_on pat Q i T T' h M h' M'" and "\<And>k. tfind T'' i k = tfind T' i k"
  then have "tfind T'' i = tfind T' i" by (intro ext)
  with p show ?thesis by (simp only: purge_on_def)
qed

text \<open>What the loop makes of a subtree that was purged and returned an action.\<close>

lemma act_step:
  assumes pu: "purged pat q pt U (TNode s2 ts2) h M oh oP pt1 (TNode s2 ts2') h1 M1 r"
    and U: "set (fp (TNode s2 ts2)) \<subseteq> U" and s2: "s2 \<noteq> 1" and act: "action_ok a ts2'"
  shows "\<exists>pt2 t1. purged pat q pt U (TNode s2 ts2) h M oh oP pt2 t1 h1 M1 r
     \<and> (\<forall>s b pt3. set_branch pt2 s b (tid t1) = Some pt3 \<longrightarrow> (tid t1 = NODE_ID s2 \<longrightarrow> pt3 = pt2) \<longrightarrow>
          remove_all_act pt1 s b (NODE_ID s2) a = Some (if t1 = TNull then 0 else 1, pt3))"
proof -
  let ?t = "TNode s2 ts2'"
  let ?U = "U - (set (fp (TNode s2 ts2)) - set (fp ?t))"
  have sh: "shrunk q pt U (TNode s2 ts2) pt1 ?t" and po: "purge_on pat UNIV (length q) (TNode s2 ts2) ?t h M h1 M1"
    using pu unfolding purged_def by blast+
  obtain fn fl where hp: "heap_ok pt1 ?U fn fl" and st: "stored (slots pt1) ?t" "tree_ok q ?t" "distinct (fp ?t)"
    and sub: "set (fp ?t) \<subseteq> set (fp (TNode s2 ts2))" using sh unfolding shrunk_def by blast
  have V: "set (fp ?t) \<subseteq> ?U" using sub U by blast
  have len: "length ts2' = 4" using st(2) by simp
  have done_with: "purged pat q pt U (TNode s2 ts2) h M oh oP pt2 t1 h1 M1 r"
    if "shrunk q pt1 ?U ?t pt2 t1" "same_data pt2 pt1" "\<And>k. tfind t1 (length q) k = tfind ?t (length q) k" for pt2 t1
    using shrunk_trans [OF sh that(1) U] that(2) pu purge_on_same_find [OF po that(3)]
    unfolding purged_def table_ok_def same_data_def by simp
  show ?thesis
  proof (cases a)
    case NONE
    have "remove_all_act pt1 s b (NODE_ID s2) a = Some (if ?t = TNull then 0 else 1, pt1)" for s b
      using NONE by (simp add: remove_all_act_def)
    then show ?thesis using pu by (intro exI [of _ pt1] exI [of _ ?t]) auto
  next
    case CULL
    then have null: "\<forall>t \<in> set ts2'. t = TNull" using act by (simp add: action_ok_def)
    obtain pt2 where pt2: "fs_ptree_free_node pt1 (NODE_ID s2) = Some pt2" "shrunk q pt1 ?U ?t pt2 TNull" "same_data pt2 pt1"
      using shrunk_free_node [OF hp V s2 st(1) len, of TNull q] null by blast
    have "purged pat q pt U (TNode s2 ts2) h M oh oP pt2 TNull h1 M1 r"
      using tfind_all_null [OF null] by (intro done_with [OF pt2(2,3)]) (simp del: tfind.simps(3))
    then show ?thesis using CULL pt2(1) by (intro exI [of _ pt2] exI [of _ TNull]) (simp add: remove_all_act_def)
  next
    case MERGE
    then obtain c n l where c: "c < 4" "ts2' = no_trees[c := TLeaf n l]" using act by (auto simp: action_ok_def)
    have fpt: "fp ?t = [s2, n]" using fp_single [OF c(1), of s2] c(2) by simp
    have "n \<in> set (fp ?t)" by (simp only: fpt) simp
    then have tn: "n \<in> ?U" "n \<noteq> s2" using V st(3) unfolding fpt by (blast, auto)
    have sl: "stored (slots pt1) (TLeaf n l)"
      using st(1) stored_single [OF c(1), of "slots pt1" s2 "TLeaf n l"] by (simp only: c(2))
    have nn: "n \<noteq> FS_PTREE_NULL_NODE" using tid_null [OF hp, of "TLeaf n l"] tn(1) by simp
    have "tree_ok (q @ [c]) (TLeaf n l)" "length q < 32" using st(2) c by auto
    then have tq: "tree_ok q (TLeaf n l)" "PK_BRANCH (lf_pk l) (length q) = c"
      using take_Suc_digits [of "length q" "lf_pk l"] by (auto simp: take_Suc_conv_app_nth)
    have "set (concat (map fp ts2')) = {n}" using fp_single [OF c(1), of s2 "TLeaf n l"] c(2) by simp
    then obtain pt2 where pt2: "fs_ptree_free_node pt1 (NODE_ID s2) = Some pt2" "shrunk q pt1 ?U ?t pt2 (TLeaf n l)" "same_data pt2 pt1"
      using shrunk_free_node [OF hp V s2 st(1) len, of "TLeaf n l" q] tn(2) sl tq(1) by blast
    have "purged pat q pt U (TNode s2 ts2) h M oh oP pt2 (TLeaf n l) h1 M1 r"
      using c tq(2) by (intro done_with [OF pt2(2,3)]) (auto simp: nth_list_update)
    moreover have "get_node pt1 s2 = Some (null_branches[c := n])" "s2 < 2147483648"
      using get_node_stored(2) [OF hp, of s2] st(1) V c(2) heap_ok_used(3) [OF hp, of s2] by (auto simp: tids_single)
    then have "remove_all_act pt1 s b (NODE_ID s2) a = Some (1, pt3)" if "set_branch pt2 s b n = Some pt3" for s b pt3
      using MERGE pt2(1) nn c(1) that by (simp add: remove_all_act_def first_branch_single)
    ultimately show ?thesis by (intro exI [of _ pt2] exI [of _ "TLeaf n l"]) simp
  qed
qed

text \<open>The state the loop works on: a node stored below the branches \<open>p\<close> with its table.\<close>

definition bulk_pre where
  "bulk_pre p pt U s ts h M oh oP \<longleftrightarrow>
     (\<exists>fn fl. heap_ok pt U fn fl) \<and> tree_ok p (TNode s ts) \<and> distinct (fp (TNode s ts)) \<and> set (fp (TNode s ts)) \<subseteq> U
   \<and> stored (slots pt) (TNode s ts) \<and> table_ok pt h M oh oP \<and> entries_ok (length p) (TNode s ts) h M
   \<and> (\<forall>x \<in> set ts. 1 \<notin> set (fp x))"

definition bulk_post where
  "bulk_post pat Q p pt U s ts h M oh oP b br lv \<longleftrightarrow> (\<exists>a pt' ts' h' M' r.
     (\<forall>removed. remove_all_loop pt pat s b br lv removed = Some (a, removed + r, pt')) \<and> action_ok a ts'
   \<and> shrunk p pt U (TNode s ts) pt' (TNode s ts') \<and> purge_on pat Q (length p) (TNode s ts) (TNode s ts') h M h' M'
   \<and> table_ok pt' h' M' oh oP \<and> pt_count pt' = pt_count pt \<and> r = pair_total M - pair_total M')"

text \<open>The turns of the loop after the one at branch \<open>b\<close>.\<close>

lemma bulk_next:
  assumes pre: "bulk_pre p pt U s ts h M oh oP" and b: "b < 4"
    and pu: "purged pat (p @ [b]) pt U (ts ! b) h M oh oP pt1 t1 h1 M1 r" and st: "loop_step pat s b pt (ts ! b) pt1 t1 r"
    and rec: "\<And>pt2 U2 lv'. bulk_pre p pt2 U2 s (ts[b := t1]) h1 M1 oh oP \<Longrightarrow>
        lv' \<le> lv + (if is_leaf t1 then 1 else 0) \<Longrightarrow>
        bulk_post pat {k. Suc b \<le> PK_BRANCH k (length p)} p pt2 U2 s (ts[b := t1]) h1 M1 oh oP (Suc b)
          (br + (if t1 = TNull then 0 else 1)) lv'"
  shows "bulk_post pat {k. b \<le> PK_BRANCH k (length p)} p pt U s ts h M oh oP b br lv"
proof -
  let ?T = "TNode s ts" and ?ts = "ts[b := t1]" and ?T1 = "TNode s (ts[b := t1])"
  obtain fn fl where hp: "heap_ok pt U fn fl" and ok: "tree_ok p ?T" "distinct (fp ?T)" "set (fp ?T) \<subseteq> U" "stored (slots pt) ?T"
    and ent: "entries_ok (length p) ?T h M" and no1: "\<forall>x \<in> set ts. 1 \<notin> set (fp x)"
    using pre unfolding bulk_pre_def by blast
  have sh: "shrunk (p @ [b]) pt U (ts ! b) pt1 t1" and po: "purge_on pat UNIV (Suc (length p)) (ts ! b) t1 h M h1 M1"
    and tb: "table_ok pt1 h1 M1 oh oP" "pt_count pt1 = pt_count pt" "r = pair_total M - pair_total M1"
    using pu unfolding purged_def by simp_all
  obtain pt2 where pt2: "set_branch pt1 s b (tid t1) = Some pt2" "shrunk p pt U ?T pt2 ?T1" "same_data pt2 pt1"
    "tid t1 = tid (ts ! b) \<longrightarrow> pt2 = pt1"
    using branch_follows [OF ok b sh] by blast
  obtain d where d: "d \<le> (if is_leaf t1 then 1 else 0)" "\<And>br lv removed. remove_all_loop pt pat s b br lv removed
      = remove_all_loop pt2 pat s (Suc b) (br + (if t1 = TNull then 0 else 1)) (lv + d) (removed + r)"
    using st pt2(1,4) unfolding loop_step_def by auto
  have po2: "purge_on pat {k. PK_BRANCH k (length p) = b} (length p) ?T ?T1 h M h1 M1"
    by (rule purge_on_child [OF ok(1) b po])
  let ?U = "U - (set (fp ?T) - set (fp ?T1))"
  have sub: "set (fp ?T1) \<subseteq> set (fp ?T)" using pt2(2) unfolding shrunk_def by blast
  have "b < length ts" using ok(1) b by simp
  then have "set (fp x) \<subseteq> set (fp t1) \<or> x \<in> set ts" if "x \<in> set ?ts" for x
    using that set_update_subset_insert [of ts b t1] by blast
  moreover have "set (fp t1) \<subseteq> set (fp (ts ! b))" using sh unfolding shrunk_def by blast
  ultimately have no1': "\<forall>x \<in> set ?ts. 1 \<notin> set (fp x)" using no1 \<open>b < length ts\<close> nth_mem by blast
  have "bulk_pre p pt2 ?U s ?ts h1 M1 oh oP"
    unfolding bulk_pre_def
  proof (intro conjI)
    show "table_ok pt2 h1 M1 oh oP" using tb(1) pt2(3) by (simp add: table_ok_def same_data_def)
    show "set (fp ?T1) \<subseteq> ?U" using sub ok(3) by blast
  qed (use pt2(2) entries_ok_purge [OF po2 ent] no1' in \<open>auto simp only: shrunk_def\<close>)
  from rec [OF this, of "lv + d"] d(1) obtain a pt' ts' h' M' r' where
    fin: "\<And>removed. remove_all_loop pt2 pat s (Suc b) (br + (if t1 = TNull then 0 else 1)) (lv + d) removed
        = Some (a, removed + r', pt')" "action_ok a ts'"
    "shrunk p pt2 ?U ?T1 pt' (TNode s ts')"
    "purge_on pat {k. Suc b \<le> PK_BRANCH k (length p)} (length p) ?T1 (TNode s ts') h1 M1 h' M'"
    "table_ok pt' h' M' oh oP" "pt_count pt' = pt_count pt2" "r' = pair_total M1 - pair_total M'"
    unfolding bulk_post_def by auto
  have "{k. PK_BRANCH k (length p) = b} \<union> {k. Suc b \<le> PK_BRANCH k (length p)} = {k. b \<le> PK_BRANCH k (length p)}" by auto
  moreover have "{k. PK_BRANCH k (length p) = b} \<inter> {k. Suc b \<le> PK_BRANCH k (length p)} = {}" by auto
  ultimately have "purge_on pat {k. b \<le> PK_BRANCH k (length p)} (length p) ?T (TNode s ts') h M h' M'"
    using purge_on_trans [OF po2 fin(4)] by simp
  moreover have "shrunk p pt U ?T pt' (TNode s ts')" by (rule shrunk_trans [OF pt2(2) fin(3) ok(3)])
  ultimately show ?thesis
    unfolding bulk_post_def using d(2) fin(1,2,5-7) tb(2,3) pt2(3)
    by (intro exI [of _ a] exI [of _ pt'] exI [of _ ts'] exI [of _ h'] exI [of _ M'] exI [of _ "r + r'"])
      (simp add: same_data_def)
qed

definition bulk_tree where
  "bulk_tree pat oh oP t \<longleftrightarrow> (\<forall>p pt U h M s ts. t = TNode s ts \<longrightarrow> bulk_pre p pt U s ts h M oh oP \<longrightarrow>
     bulk_post pat UNIV p pt U s ts h M oh oP 0 0 0)"

lemma single_leaf:
  assumes "length ts = 4" "length (filter (\<lambda>t. t \<noteq> TNull) ts) = 1" "1 \<le> length (filter is_leaf ts)"
  shows "\<exists>c < 4. \<exists>n l. ts = no_trees[c := TLeaf n l]"
proof -
  obtain x where x: "x \<in> set ts" "is_leaf x" using assms(3) by (metis filter_empty_conv le_numeral_extra(2) list.size(3))
  obtain n l where nl: "x = TLeaf n l" using x(2) by (cases x) auto
  obtain c where c: "c < 4" "ts ! c = x" using x(1) assms(1) by (metis in_set_conv_nth)
  have others: "ts ! j = TNull" if "j < 4" "j \<noteq> c" for j
  proof (rule ccontr)
    assume "ts ! j \<noteq> TNull"
    then have "{c, j} \<subseteq> {i. i < length ts \<and> ts ! i \<noteq> TNull}" using that c nl assms(1) by auto
    then have "card {c, j} \<le> length (filter (\<lambda>t. t \<noteq> TNull) ts)"
      unfolding length_filter_conv_card by (intro card_mono) auto
    with that(2) assms(2) show False by simp
  qed
  have "ts = no_trees[c := TLeaf n l]"
    using assms(1) c nl others by (intro nth_equalityI) (auto simp: nth_list_update)
  with c(1) show ?thesis by blast
qed

lemma bulk_end:
  assumes pre: "bulk_pre p pt U s ts h M oh oP"
    and br: "br = length (filter (\<lambda>t. t \<noteq> TNull) ts)" and lv: "lv \<le> length (filter is_leaf ts)"
  shows "bulk_post pat {k. 4 \<le> PK_BRANCH k (length p)} p pt U s ts h M oh oP 4 br lv"
proof -
  let ?a = "if br = 0 then CULL else if br = 1 \<and> lv = 1 then MERGE else NONE"
  have run: "remove_all_loop pt pat s 4 br lv removed = Some (?a, removed + 0, pt)" for removed
    by (subst remove_all_loop.simps) simp
  have "length ts = 4" using pre by (simp add: bulk_pre_def)
  then have act: "action_ok ?a ts"
    using single_leaf [of ts] br lv by (auto simp: action_ok_def filter_empty_conv)
  have Q: "{k. 4 \<le> PK_BRANCH k (length p)} = {}" using PK_BRANCH_less not_le by blast
  obtain fn fl where hp: "heap_ok pt U fn fl" using pre unfolding bulk_pre_def by blast
  have "shrunk p pt U (TNode s ts) pt (TNode s ts)"
    using pre by (intro shrunk_refl [OF hp]) (simp_all only: bulk_pre_def)
  then show ?thesis
    unfolding bulk_post_def Q
  proof (intro exI conjI allI)
    show "remove_all_loop pt pat s 4 br lv removed = Some (?a, removed + 0, pt)" for removed by (rule run)
    show "table_ok pt h M oh oP" using pre unfolding bulk_pre_def by blast
  qed (use act purge_on_refl in simp_all)
qed

lemma entries_ok_child:
  assumes "tree_ok p (TNode s ts)" "b < 4" "entries_ok (length p) (TNode s ts) h M"
  shows "entries_ok (Suc (length p)) (ts ! b) h M"
  unfolding entries_ok_def
proof (intro allI impI)
  fix k assume k: "tfind (ts ! b) (Suc (length p)) k \<noteq> None"
  then have b: "PK_BRANCH k (length p) = b" by (rule contrapos_np) (rule tfind_other_branch [OF assms(1,2)])
  have "b < length ts" using assms(1,2) by simp
  then have "tfind (TNode s ts) (length p) k = tfind (ts ! b) (Suc (length p)) k" using b by (rule tfind_child)
  with assms(3) k show "entry_ok (tfind (ts ! b) (Suc (length p)) k) (h k) (M k)" unfolding entries_ok_def by metis
qed

lemma bulk_child:
  assumes pre: "bulk_pre p pt U s ts h M oh oP" and b: "b < 4" and sub: "bulk_tree pat oh oP (ts ! b)"
  shows "\<exists>pt1 t1 h1 M1 r. purged pat (p @ [b]) pt U (ts ! b) h M oh oP pt1 t1 h1 M1 r \<and> loop_step pat s b pt (ts ! b) pt1 t1 r"
proof -
  obtain fn fl where hp: "heap_ok pt U fn fl" and ok: "tree_ok p (TNode s ts)" "distinct (fp (TNode s ts))"
    "set (fp (TNode s ts)) \<subseteq> U" "stored (slots pt) (TNode s ts)" and tbl: "table_ok pt h M oh oP"
    and ent: "entries_ok (length p) (TNode s ts) h M" and no1: "\<forall>x \<in> set ts. 1 \<notin> set (fp x)"
    using pre unfolding bulk_pre_def by blast
  have len: "length ts = 4" "b < length ts" using ok(1) b by auto
  have ch: "tree_ok (p @ [b]) (ts ! b)" "distinct (fp (ts ! b))" "set (fp (ts ! b)) \<subseteq> U" "stored (slots pt) (ts ! b)"
    using ok fp_child(1,3) [OF ok(2) len(2)] len(2) by (auto simp: list_all_length)
  note read = remove_all_loop_read [OF hp ok(3,4) len(1) b, of pat]
  show ?thesis
  proof (cases "ts ! b")
    case TNull
    have "purged pat (p @ [b]) pt U (ts ! b) h M oh oP pt TNull h M 0"
      using shrunk_refl [OF hp, of TNull "p @ [b]"] tbl TNull by (simp add: purged_def purge_on_def)
    moreover have "loop_step pat s b pt (ts ! b) pt TNull 0" using read TNull by (simp add: loop_step_def)
    ultimately show ?thesis by blast
  next
    case (TLeaf n l)
    then show ?thesis using leaf_step [OF hp ok tbl ent b] by blast
  next
    case (TNode s2 ts2)
    have mem: "TNode s2 ts2 \<in> set ts" using TNode len(2) nth_mem by metis
    have no2: "\<forall>x \<in> set ts2. 1 \<notin> set (fp x)" "s2 \<noteq> 1" using no1 mem by fastforce+
    have "bulk_pre (p @ [b]) pt U s2 ts2 h M oh oP"
      unfolding bulk_pre_def using hp ch tbl entries_ok_child [OF ok(1) b ent] no2(1) TNode by auto
    then have "bulk_post pat UNIV (p @ [b]) pt U s2 ts2 h M oh oP 0 0 0" using sub TNode unfolding bulk_tree_def by blast
    then obtain a pt1 ts2' h1 M1 r where run: "\<And>removed. remove_all_loop pt pat s2 0 0 0 removed = Some (a, removed + r, pt1)"
      and act: "action_ok a ts2'" and pu: "purged pat (p @ [b]) pt U (TNode s2 ts2) h M oh oP pt1 (TNode s2 ts2') h1 M1 r"
      unfolding bulk_post_def purged_def by blast
    obtain pt2 t1 where "purged pat (p @ [b]) pt U (TNode s2 ts2) h M oh oP pt2 t1 h1 M1 r"
      "\<forall>s b pt3. set_branch pt2 s b (tid t1) = Some pt3 \<longrightarrow> (tid t1 = NODE_ID s2 \<longrightarrow> pt3 = pt2) \<longrightarrow>
          remove_all_act pt1 s b (NODE_ID s2) a = Some (if t1 = TNull then 0 else 1, pt3)"
      using act_step [OF pu _ no2(2) act] ch(3) TNode by metis
    moreover from this(2) have "loop_step pat s b pt (ts ! b) pt2 t1 r"
      unfolding loop_step_def using read run TNode by (intro exI [of _ 0]) simp
    ultimately show ?thesis using TNode by metis
  qed
qed

lemma bulk_loop:
  assumes "bulk_pre p pt U s ts h M oh oP" "b \<le> 4" "\<And>c. b \<le> c \<Longrightarrow> c < 4 \<Longrightarrow> bulk_tree pat oh oP (ts ! c)"
    "br = length (filter (\<lambda>t. t \<noteq> TNull) (take b ts))" "lv \<le> length (filter is_leaf (take b ts))"
  shows "bulk_post pat {k. b \<le> PK_BRANCH k (length p)} p pt U s ts h M oh oP b br lv"
  using assms
proof (induction "4 - b" arbitrary: b pt U ts h M br lv)
  case 0
  moreover from this have "length ts = 4" by (simp add: bulk_pre_def)
  ultimately show ?case using bulk_end [OF "0.prems"(1)] by simp
next
  case (Suc j)
  have b: "b < 4" and len: "length ts = 4" using Suc.hyps(2) Suc.prems(1) by (simp_all add: bulk_pre_def)
  obtain pt1 t1 h1 M1 r where c: "purged pat (p @ [b]) pt U (ts ! b) h M oh oP pt1 t1 h1 M1 r"
    "loop_step pat s b pt (ts ! b) pt1 t1 r"
    using bulk_child [OF Suc.prems(1) b] Suc.prems(3) b by blast
  show ?case
  proof (rule bulk_next [OF Suc.prems(1) b c])
    fix pt2 U2 lv'
    assume pre: "bulk_pre p pt2 U2 s (ts[b := t1]) h1 M1 oh oP" and lv': "lv' \<le> lv + (if is_leaf t1 then 1 else 0)"
    have tk: "take (Suc b) (ts[b := t1]) = take b ts @ [t1]" using b len by (simp add: take_Suc_conv_app_nth)
    show "bulk_post pat {k. Suc b \<le> PK_BRANCH k (length p)} p pt2 U2 s (ts[b := t1]) h1 M1 oh oP (Suc b)
        (br + (if t1 = TNull then 0 else 1)) lv'"
      using Suc.hyps Suc.prems(3-5) b lv' by (intro Suc.hyps(1) pre) (auto simp: tk)
  qed
qed

lemma bulk_all: "bulk_tree pat oh oP t"
proof (induction t)
  case (TNode s ts)
  show ?case
    unfolding bulk_tree_def
  proof (intro allI impI)
    fix p pt U h M s' ts'
    assume "TNode s ts = TNode s' ts'" and pre: "bulk_pre p pt U s' ts' h M oh oP"
    then have eq: "s' = s" "ts' = ts" by simp_all
    have "length ts = 4" using pre eq by (simp add: bulk_pre_def)
    then have "bulk_post pat {k. 0 \<le> PK_BRANCH k (length p)} p pt U s' ts' h M oh oP 0 0 0"
      using TNode nth_mem by (intro bulk_loop [OF pre]) (auto simp: eq)
    then show "bulk_post pat UNIV p pt U s' ts' h M oh oP 0 0 0" by simp
  qed
qed (simp_all add: bulk_tree_def)

lemma ptree_remove_all_ok:
  assumes "ptree_holds pt M oh oP"
  shows "\<exists>pt'. fs_ptree_remove_all (Some pt) (Some pat) = Some (if fs_ptree_count pt' = fs_ptree_count pt then 1 else 0, Some pt')
     \<and> ptree_holds pt' (\<lambda>k. purge pat (M k)) oh oP"
proof -
  obtain ts h where hw: "holds_with pt ts h M oh oP" using assms unfolding ptree_holds_def by blast
  let ?T = "TNode 1 ts" and ?U = "set (fp (TNode 1 ts))"
  have rep: "ptree_rep pt ts" and e: "\<And>k. entry_ok (leaf_of ts k) (h k) (M k)" and fin: "finite (dom M)"
    and cnt: "pt_count pt = pair_total M" and tbl: "table_ok pt h M oh oP"
    using hw unfolding holds_with_def table_ok_def by blast+
  obtain fn fl where hp: "heap_ok pt ?U fn fl" using rep unfolding ptree_rep_def by blast
  have pre: "bulk_pre [] pt ?U 1 ts h M oh oP"
    unfolding bulk_pre_def using rep hp tbl e unfolding ptree_rep_def entries_ok_def by auto
  then have "bulk_post pat UNIV [] pt ?U 1 ts h M oh oP 0 0 0" using bulk_all unfolding bulk_tree_def by blast
  then obtain a pt' ts' h' M' r where run: "remove_all_loop pt pat 1 0 0 0 0 = Some (a, 0 + r, pt')"
    and sh: "shrunk [] pt ?U ?T pt' (TNode 1 ts')" and po: "purge_on pat UNIV 0 ?T (TNode 1 ts') h M h' M'"
    and t': "table_ok pt' h' M' oh oP" "pt_count pt' = pt_count pt" "r = pair_total M - pair_total M'"
    unfolding bulk_post_def by auto
  have ref: "node_ref pt FS_PTREE_ROOT_NODE = Some 1"
    using get_node_stored(1) [OF hp, of 1] rep unfolding NODE_ID_root [symmetric] by (simp add: ptree_rep_def)
  let ?pt = "pt'\<lparr>pt_count := pt_count pt' - r\<rparr>"
  have all: "fs_ptree_remove_all (Some pt) (Some pat) = Some (if r \<noteq> 0 then 0 else 1, Some ?pt)"
    using run ref by (simp add: fs_ptree_remove_all_def remove_all_recurse_def)
  have "?U - (?U - set (fp (TNode 1 ts'))) = set (fp (TNode 1 ts'))" using sh unfolding shrunk_def by blast
  with sh have rep': "ptree_rep pt' ts'" unfolding shrunk_def ptree_rep_def by metis
  have M': "M' = (\<lambda>k. purge pat (M k))" "\<And>k. entry_ok (leaf_of ts' k) (h' k) (M' k)"
  proof -
    have "M' k = purge pat (M k) \<and> entry_ok (leaf_of ts' k) (h' k) (M' k)" for k
    proof (cases "leaf_of ts k")
      case None
      then have "M k = None" "h k = 0" using e [of k] by (simp_all add: entry_ok_def del: tfind.simps)
      moreover have "leaf_of ts' k = None \<and> h' k = h k \<and> M' k = M k" using po None unfolding purge_on_def by metis
      ultimately show ?thesis by (simp add: purge_def entry_ok_def del: tfind.simps)
    next
      case (Some nl)
      then show ?thesis using po unfolding purge_on_def by (metis UNIV_I option.distinct(1))
    qed
    then show "M' = (\<lambda>k. purge pat (M k))" "\<And>k. entry_ok (leaf_of ts' k) (h' k) (M' k)" by blast+
  qed
  have "holds_with ?pt ts' h' M' oh oP"
    using rep' t' M'(2) cnt unfolding holds_with_def table_ok_def by (simp del: tfind.simps)
  then have "ptree_holds ?pt (\<lambda>k. purge pat (M k)) oh oP" using M'(1) unfolding ptree_holds_def by blast
  moreover have "fs_ptree_count ?pt = fs_ptree_count pt \<longleftrightarrow> r = 0" using t'(2) by (simp add: fs_ptree_count_def)
  ultimately show ?thesis using all by auto
qed

section \<open>Traversing\<close>

text \<open>The quads a tree stands for, restricted to a model unless it is null.\<close>

primrec tree_quads :: "rid \<Rightarrow> (rid \<rightharpoonup> (rid \<times> rid) list) \<Rightarrow> ttree \<Rightarrow> (rid \<times> rid \<times> rid) list" where
  "tree_quads m M TNull = []"
| "tree_quads m M (TLeaf n l) =
     map (\<lambda>p. (fst p, lf_pk l, snd p)) (filter (pair_matches (m, FS_RID_NULL)) (pairs_of M (lf_pk l)))"
| "tree_quads m M (TNode s ts) = concat (map (tree_quads m M) ts)"

text \<open>The scan of a node's branches on trees instead of branch numbers; a stack entry is a
  node with the next branch to visit.\<close>

fun ascan :: "ttree list \<Rightarrow> nat \<Rightarrow> (nat \<times> nat \<times> ttree list) list
    \<Rightarrow> (leaf \<times> nat) option \<times> (nat \<times> nat \<times> ttree list) list" where
  "ascan [] b st = (None, st)"
| "ascan (TNull # r) b st = ascan r (b + 1) st"
| "ascan (TLeaf n l # r) b st = (Some (l, b + 1), st)"
| "ascan (TNode s ts # r) b st = ascan r (b + 1) ((s, 0, ts) # st)"

definition stack_entry :: "nat \<times> nat \<times> ttree list \<Rightarrow> nat \<times> nat" where
  "stack_entry e = (NODE_ID (fst e), fst (snd e))"

lemma scan_branches_ok:
  assumes hp: "heap_ok pt U fn fl" and ts: "length ts = 4" "set (concat (map fp ts)) \<subseteq> U" "list_all (stored (slots pt)) ts"
    and b: "b \<le> 4"
  shows "scan_branches pt (map tid ts) b (map stack_entry st)
     = (let r = ascan (drop b ts) b st in Some (fst r, map stack_entry (snd r)))"
  using b
proof (induction "4 - b" arbitrary: b st)
  case 0
  then show ?case using ts(1) by (subst scan_branches.simps) simp
next
  case (Suc j)
  then have b: "b < 4" "b < length ts" using ts(1) by simp_all
  have d: "drop b ts = ts ! b # drop (Suc b) ts" using b(2) by (rule Cons_nth_drop_Suc [symmetric])
  have load: "load_at (map tid ts) b = Some (tid (ts ! b))" using b by (simp add: load_at_def)
  have sub: "set (fp (ts ! b)) \<subseteq> U" "stored (slots pt) (ts ! b)"
    using ts(2,3) b(2) fp_nth [OF b(2), of 0] nth_mem [OF b(2)] by (fastforce simp: list_all_length)+
  note n = tid_null [OF hp sub(1)] and l = tid_leaf [OF hp sub(1)]
  have IH: "scan_branches pt (map tid ts) (Suc b) (map stack_entry st)
     = (let r = ascan (drop (Suc b) ts) (Suc b) st in Some (fst r, map stack_entry (snd r)))" for st
    using Suc.hyps b(1) by (intro Suc.hyps(1)) auto
  show ?case
  proof (cases "ts ! b")
    case TNull
    then show ?thesis using d load b IH by (subst scan_branches.simps) simp
  next
    case (TLeaf m k)
    then have "m \<noteq> FS_PTREE_NULL_NODE" "IS_LEAF m" "get_leaf_slot pt m = Some k"
      using n l get_leaf_stored [OF hp, of m k] sub by auto
    then show ?thesis using d load b TLeaf by (subst scan_branches.simps) simp
  next
    case (TNode s2 ts2)
    then have "NODE_ID s2 \<noteq> FS_PTREE_NULL_NODE" "\<not> IS_LEAF (NODE_ID s2)" using n by (auto simp: IS_LEAF_def)
    then show ?thesis
      using d load b TNode IH [of "(s2, 0, ts2) # st"] by (subst scan_branches.simps) (simp add: stack_entry_def)
  qed
qed

text \<open>The quads and the weight of what a stack still has to visit.\<close>

definition stack_quads :: "rid \<Rightarrow> (rid \<rightharpoonup> (rid \<times> rid) list) \<Rightarrow> (nat \<times> nat \<times> ttree list) list \<Rightarrow> (rid \<times> rid \<times> rid) multiset" where
  "stack_quads m M st = (\<Sum>e \<leftarrow> st. mset (concat (map (tree_quads m M) (drop (fst (snd e)) (snd (snd e))))))"

primrec weight :: "ttree \<Rightarrow> nat" where
  "weight TNull = 0"
| "weight (TLeaf n l) = 1"
| "weight (TNode s ts) = 1 + sum_list (map weight ts)"

definition stack_weight :: "(nat \<times> nat \<times> ttree list) list \<Rightarrow> nat" where
  "stack_weight st = (\<Sum>e \<leftarrow> st. 1 + sum_list (map weight (drop (fst (snd e)) (snd (snd e)))))"

text \<open>A stack entry is a node of the tree whose next branch is in range.\<close>

definition entry_stored :: "ptree \<Rightarrow> nat set \<Rightarrow> nat \<times> nat \<times> ttree list \<Rightarrow> bool" where
  "entry_stored pt U e \<longleftrightarrow> (case e of (s, b, ts) \<Rightarrow>
     set (fp (TNode s ts)) \<subseteq> U \<and> stored (slots pt) (TNode s ts) \<and> b \<le> 4 \<and> (\<exists>p. tree_ok p (TNode s ts)))"

lemma ascan_None:
  assumes "ascan ts b st = (None, st')"
  shows "stack_quads m M st' = mset (concat (map (tree_quads m M) ts)) + stack_quads m M st
     \<and> stack_weight st' = sum_list (map weight ts) + stack_weight st"
  using assms
  by (induction ts b st rule: ascan.induct) (auto simp: stack_quads_def stack_weight_def)

lemma ascan_Some:
  assumes "ascan (drop b ts) b st = (Some (l, c), st')" "length ts = 4"
  shows "c \<le> 4 \<and> (\<exists>n. TLeaf n l \<in> set ts \<and>
     mset (concat (map (tree_quads m M) (drop b ts))) + stack_quads m M st
       = mset (tree_quads m M (TLeaf n l)) + mset (concat (map (tree_quads m M) (drop c ts))) + stack_quads m M st'
     \<and> sum_list (map weight (drop b ts)) + stack_weight st
         = 1 + sum_list (map weight (drop c ts)) + stack_weight st')"
  using assms(1)
proof (induction "length ts - b" arbitrary: b st)
  case 0
  then show ?case by simp
next
  case (Suc j)
  then have b: "b < length ts" "j = length ts - Suc b" by simp_all
  have d: "drop b ts = ts ! b # drop (Suc b) ts" using b(1) by (rule Cons_nth_drop_Suc [symmetric])
  show ?case
  proof (cases "ts ! b")
    case (TLeaf n k)
    then have "k = l" "c = Suc b" "st' = st" using Suc.prems d by auto
    then show ?thesis using TLeaf d b(1) assms(2) nth_mem [OF b(1)] by (auto intro!: exI [of _ n])
  next
    case TNull
    then show ?thesis using Suc.hyps(1) [OF b(2), of st] Suc.prems d by auto
  next
    case (TNode s2 ts2)
    have "ascan (drop (Suc b) ts) (Suc b) ((s2, 0, ts2) # st) = (Some (l, c), st')" using Suc.prems d TNode by simp
    from Suc.hyps(1) [OF b(2) this] show ?thesis
      using d TNode by (auto simp: stack_quads_def stack_weight_def ac_simps)
  qed
qed

lemma ascan_stored:
  assumes "list_all (\<lambda>t. \<forall>s us. t = TNode s us \<longrightarrow> entry_stored pt U (s, 0, us)) ts" "list_all (entry_stored pt U) st"
  shows "list_all (entry_stored pt U) (snd (ascan ts b st))"
  using assms by (induction ts b st rule: ascan.induct) auto

lemma entry_stored_children:
  assumes "entry_stored pt U (s, b, ts)"
  shows "list_all (\<lambda>t. \<forall>s us. t = TNode s us \<longrightarrow> entry_stored pt U (s, 0, us)) (drop c ts)"
proof -
  obtain p where p: "tree_ok p (TNode s ts)" using assms unfolding entry_stored_def by blast
  have "entry_stored pt U (s2, 0, us)" if "TNode s2 us \<in> set ts" for s2 us
  proof -
    obtain j where j: "j < length ts" "ts ! j = TNode s2 us" using \<open>TNode s2 us \<in> set ts\<close> by (auto simp: in_set_conv_nth)
    then have "tree_ok (p @ [j]) (TNode s2 us)" using p by fastforce
    moreover have "set (fp (TNode s2 us)) \<subseteq> U" "stored (slots pt) (TNode s2 us)"
      using assms that unfolding entry_stored_def by (fastforce simp: list_all_iff)+
    ultimately show ?thesis unfolding entry_stored_def by blast
  qed
  then show ?thesis using set_drop_subset [of c ts] by (auto simp: list_all_iff)
qed

text \<open>
  The iterator stands before the rest \<open>ps\<close> of the chain of its key and the stack \<open>st\<close>.
\<close>

definition it_rep ::
  "ptree \<Rightarrow> nat set \<Rightarrow> ptree_it \<Rightarrow> (rid \<times> rid) list \<Rightarrow> (nat \<times> nat \<times> ttree list) list \<Rightarrow> bool" where
  "it_rep pt U it ps st \<longleftrightarrow> pt_walk (pt_table pt) (it_block it) ps \<and> it_stack it = map stack_entry st
     \<and> list_all (entry_stored pt U) st"

definition it_quads :: "rid \<Rightarrow> (rid \<rightharpoonup> (rid \<times> rid) list) \<Rightarrow> ptree_it \<Rightarrow> (rid \<times> rid) list
    \<Rightarrow> (nat \<times> nat \<times> ttree list) list \<Rightarrow> (rid \<times> rid \<times> rid) multiset" where
  "it_quads m M it ps st =
     mset (map (\<lambda>p. (fst p, it_pk it, snd p)) (filter (pair_matches (m, FS_RID_NULL)) ps)) + stack_quads m M st"

text \<open>The chain of every leaf of the tree can be walked.\<close>

definition leaves_walk :: "ptree \<Rightarrow> nat set \<Rightarrow> (rid \<rightharpoonup> (rid \<times> rid) list) \<Rightarrow> bool" where
  "leaves_walk pt U M \<longleftrightarrow> (\<forall>n \<in> U. \<forall>l. slots pt n = Leaf_slot l \<longrightarrow>
     pt_walk (pt_table pt) (lf_block l) (pairs_of M (lf_pk l)))"

definition next_ok where
  "next_ok pt U m M it ps st \<longleftrightarrow> (\<exists>found it'. fs_ptree_traverse_next pt it = Some (found, it')
     \<and> (case found of
          None \<Rightarrow> it_quads m M it ps st = {#}
        | Some q \<Rightarrow> \<exists>ps' st'. it_rep pt U it' ps' st' \<and> fst (it_pair it') = m
            \<and> it_quads m M it ps st = add_mset q (it_quads m M it' ps' st')))"

lemma traverse_hit:
  assumes "it_rep pt U it ps st" "fst (it_pair it) = m" "filter (pair_matches (m, FS_RID_NULL)) ps \<noteq> []"
  shows "next_ok pt U m M it ps st"
proof -
  let ?d = "dropWhile (\<lambda>p. \<not> pair_matches (m, FS_RID_NULL) p) ps"
  have f: "filter (pair_matches (m, FS_RID_NULL)) ps = filter (pair_matches (m, FS_RID_NULL)) ?d" by (induction ps) auto
  obtain p ps' where d: "?d = p # ps'" using assms(3) f by (cases ?d) auto
  have "pt_walk (pt_table pt) (it_block it) ps" using assms(1) by (simp add: it_rep_def)
  from next_match_ok [OF this, of "(m, FS_RID_NULL)"] d obtain b' where
    b': "next_match (pt_table pt) (it_block it) (m, FS_RID_NULL) = Some (Some p, b')" "pt_walk (pt_table pt) b' ps'" by auto
  have "pair_matches (m, FS_RID_NULL) p" using d hd_dropWhile [of "\<lambda>p. \<not> pair_matches (m, FS_RID_NULL) p" ps] by simp
  then have fl: "filter (pair_matches (m, FS_RID_NULL)) ps = p # filter (pair_matches (m, FS_RID_NULL)) ps'"
    using f d by simp
  have "fs_ptree_traverse_next pt it = Some (Some (fst p, it_pk it, snd p), it\<lparr>it_block := b'\<rparr>)"
    using b'(1) assms(2) by (subst fs_ptree_traverse_next.simps) simp
  moreover have "it_rep pt U (it\<lparr>it_block := b'\<rparr>) ps' st" using assms(1) b'(2) by (simp add: it_rep_def)
  moreover have "it_quads m M it ps st = add_mset (fst p, it_pk it, snd p) (it_quads m M (it\<lparr>it_block := b'\<rparr>) ps' st)"
    using fl by (simp add: it_quads_def)
  ultimately show ?thesis using assms(2) unfolding next_ok_def by (auto intro!: exI [of _ ps'] exI [of _ st])
qed

lemma next_match_none:
  assumes "pt_walk tbl b ps" "filter (pair_matches pat) ps = []"
  shows "next_match tbl b pat = Some (None, 0)"
proof -
  have "dropWhile (\<lambda>p. \<not> pair_matches pat p) ps = []" using assms(2) by (simp add: filter_empty_conv)
  with next_match_ok [OF assms(1), of pat] show ?thesis by simp
qed

lemma next_ok_same:
  "fs_ptree_traverse_next pt it = fs_ptree_traverse_next pt it2 \<Longrightarrow> it_quads m M it ps st = it_quads m M it2 ps2 st2 \<Longrightarrow>
     next_ok pt U m M it2 ps2 st2 \<Longrightarrow> next_ok pt U m M it ps st"
  by (simp only: next_ok_def)

text \<open>With nothing left of the current chain, the iterator goes on from the top of its stack.\<close>

lemma traverse_pop:
  assumes hp: "heap_ok pt U fn fl" and lw: "leaves_walk pt U M"
    and it: "it_rep pt U it ps ((s, b, ts) # rest)" and done_ps: "filter (pair_matches (fst (it_pair it), FS_RID_NULL)) ps = []"
  shows "\<exists>it2 ps2 st2. fs_ptree_traverse_next pt it = fs_ptree_traverse_next pt it2 \<and> it_rep pt U it2 ps2 st2
     \<and> it_pair it2 = it_pair it \<and> stack_weight st2 < stack_weight ((s, b, ts) # rest)
     \<and> it_quads (fst (it_pair it)) M it2 ps2 st2 = stack_quads (fst (it_pair it)) M ((s, b, ts) # rest)"
proof -
  let ?m = "fst (it_pair it)"
  have nm: "next_match (pt_table pt) (it_block it) (?m, FS_RID_NULL) = Some (None, 0)"
    using it done_ps by (intro next_match_none) (auto simp: it_rep_def)
  have es: "entry_stored pt U (s, b, ts)" "list_all (entry_stored pt U) rest" "it_stack it = (NODE_ID s, b) # map stack_entry rest"
    using it by (auto simp: it_rep_def stack_entry_def)
  have st: "s \<in> U" "set (concat (map fp ts)) \<subseteq> U" "slots pt s = Node_slot (map tid ts)" "list_all (stored (slots pt)) ts"
    "length ts = 4" "b \<le> 4"
    using es(1) by (auto simp: entry_stored_def)
  note nd = get_node_stored [OF hp st(1,3)]
  obtain hit below where a: "ascan (drop b ts) b rest = (hit, below)" by (cases "ascan (drop b ts) b rest")
  have sc: "scan_branches pt (map tid ts) b (map stack_entry rest) = Some (hit, map stack_entry below)"
    using scan_branches_ok [OF hp st(5,2,4,6), of rest] a by simp
  have bl: "list_all (entry_stored pt U) below"
    using ascan_stored [OF entry_stored_children [OF es(1), of b] es(2), of b] a by simp
  show ?thesis
  proof (cases hit)
    case None
    let ?it = "it\<lparr>it_block := 0, it_stack := map stack_entry below\<rparr>"
    have "fs_ptree_traverse_next pt it = fs_ptree_traverse_next pt ?it"
      using nm es(3) nd sc None by (subst fs_ptree_traverse_next.simps) simp
    moreover have "it_rep pt U ?it [] below" using bl by (simp add: it_rep_def)
    ultimately show ?thesis
      using ascan_None [of "drop b ts" b rest below ?m M] a None
      by (intro exI [of _ ?it] exI [of _ "[]"] exI [of _ below]) (simp add: it_quads_def stack_quads_def stack_weight_def)
  next
    case (Some lc)
    obtain l c where lc: "lc = (l, c)" by (cases lc)
    obtain n where n: "c \<le> 4" "TLeaf n l \<in> set ts"
      "mset (concat (map (tree_quads ?m M) (drop b ts))) + stack_quads ?m M rest
       = mset (tree_quads ?m M (TLeaf n l)) + mset (concat (map (tree_quads ?m M) (drop c ts))) + stack_quads ?m M below"
      "sum_list (map weight (drop b ts)) + stack_weight rest = 1 + sum_list (map weight (drop c ts)) + stack_weight below"
      using ascan_Some [of b ts rest l c below ?m M] a Some lc st(5) by auto
    let ?it = "it\<lparr>it_block := lf_block l, it_pk := lf_pk l, it_stack := map stack_entry ((s, c, ts) # below)\<rparr>"
    have "fs_ptree_traverse_next pt it = fs_ptree_traverse_next pt ?it"
      using nm es(3) nd sc Some lc by (subst fs_ptree_traverse_next.simps) (simp add: stack_entry_def)
    moreover have "n \<in> U" "slots pt n = Leaf_slot l" using st(2,4) n(2) by (fastforce simp: list_all_iff)+
    then have "pt_walk (pt_table pt) (lf_block l) (pairs_of M (lf_pk l))" using lw unfolding leaves_walk_def by blast
    then have "it_rep pt U ?it (pairs_of M (lf_pk l)) ((s, c, ts) # below)"
      using bl es(1) n(1) by (auto simp: it_rep_def entry_stored_def)
    ultimately show ?thesis using n(3,4)
      by (intro exI [of _ ?it] exI [of _ "pairs_of M (lf_pk l)"] exI [of _ "(s, c, ts) # below"])
        (simp add: it_quads_def stack_quads_def stack_weight_def)
  qed
qed

lemma traverse_next_ok:
  assumes hp: "heap_ok pt U fn fl" and lw: "leaves_walk pt U M"
    and "it_rep pt U it ps st" "fst (it_pair it) = m"
  shows "next_ok pt U m M it ps st"
  using assms(3,4)
proof (induction "stack_weight st" arbitrary: it ps st rule: less_induct)
  case less
  show ?case
  proof (cases "filter (pair_matches (m, FS_RID_NULL)) ps = []")
    case False
    then show ?thesis by (rule traverse_hit [OF less.prems])
  next
    case True
    have q: "it_quads m M it ps st = stack_quads m M st" using True by (simp add: it_quads_def)
    show ?thesis
    proof (cases st)
      case Nil
      have "next_match (pt_table pt) (it_block it) (fst (it_pair it), FS_RID_NULL) = Some (None, 0)"
        using less.prems True by (intro next_match_none) (auto simp: it_rep_def)
      then have "fs_ptree_traverse_next pt it = Some (None, it\<lparr>it_block := 0\<rparr>)"
        using less.prems(1) Nil by (subst fs_ptree_traverse_next.simps) (simp add: it_rep_def)
      then show ?thesis using q Nil by (simp add: next_ok_def stack_quads_def)
    next
      case (Cons e rest)
      obtain s b ts where e: "e = (s, b, ts)" by (cases e)
      obtain it2 ps2 st2 where n: "fs_ptree_traverse_next pt it = fs_ptree_traverse_next pt it2" "it_rep pt U it2 ps2 st2"
        "it_pair it2 = it_pair it" "stack_weight st2 < stack_weight st" "it_quads m M it2 ps2 st2 = stack_quads m M st"
        using traverse_pop [OF hp lw, of it ps s b ts rest] less.prems True Cons e by auto
      have "next_ok pt U m M it2 ps2 st2" using less.hyps n(2-4) less.prems(2) by simp
      then show ?thesis using next_ok_same [OF n(1)] q n(5) by metis
    qed
  qed
qed

text \<open>All the quads of a traversal.\<close>

partial_function (option) traverse_all :: "ptree \<Rightarrow> ptree_it \<Rightarrow> (rid \<times> rid \<times> rid) list option" where
  "traverse_all pt it =
     do {
       (found, it') \<leftarrow> fs_ptree_traverse_next pt it;
       case found of None \<Rightarrow> Some [] | Some q \<Rightarrow> do { qs \<leftarrow> traverse_all pt it'; Some (q # qs) }
     }"

lemma traverse_all_ok:
  assumes "heap_ok pt U fn fl" "leaves_walk pt U M" "it_rep pt U it ps st" "fst (it_pair it) = m"
  shows "\<exists>qs. traverse_all pt it = Some qs \<and> mset qs = it_quads m M it ps st"
  using assms(3,4)
proof (induction "size (it_quads m M it ps st)" arbitrary: it ps st rule: less_induct)
  case less
  obtain found it' where n: "fs_ptree_traverse_next pt it = Some (found, it')"
    "case found of None \<Rightarrow> it_quads m M it ps st = {#}
      | Some q \<Rightarrow> \<exists>ps' st'. it_rep pt U it' ps' st' \<and> fst (it_pair it') = m
          \<and> it_quads m M it ps st = add_mset q (it_quads m M it' ps' st')"
    using traverse_next_ok [OF assms(1,2) less.prems] unfolding next_ok_def by blast
  show ?case
  proof (cases found)
    case None
    then show ?thesis using n by (subst traverse_all.simps) simp
  next
    case (Some q)
    then obtain ps' st' where r: "it_rep pt U it' ps' st'" "fst (it_pair it') = m"
      "it_quads m M it ps st = add_mset q (it_quads m M it' ps' st')" using n(2) by auto
    obtain qs where "traverse_all pt it' = Some qs" "mset qs = it_quads m M it' ps' st'"
      using less.hyps [OF _ r(1,2)] r(3) by auto
    then show ?thesis using n(1) Some r(3) by (subst traverse_all.simps) simp
  qed
qed

lemma count_concat: "count (mset (concat xss)) x = (\<Sum>xs \<leftarrow> xss. count (mset xs) x)"
  by (induction xss) auto

lemma count_leaf_quads:
  "count (mset (map (\<lambda>p. (fst p, k, snd p)) (filter (pair_matches (m, FS_RID_NULL)) ps))) (a, k', b)
     = (if k = k' \<and> (m = FS_RID_NULL \<or> m = a) then count (mset ps) (a, b) else 0)"
  by (induction ps) (auto simp: pair_matches_def)

text \<open>A tree stands for the pairs of the keys it finds.\<close>

lemma count_tree_quads:
  "tree_ok p t \<Longrightarrow> count (mset (tree_quads m M t)) (a, k, b)
     = (if tfind t (length p) k \<noteq> None \<and> (m = FS_RID_NULL \<or> m = a) then count (mset (pairs_of M k)) (a, b) else 0)"
proof (induction t arbitrary: p)
  case (TNode s ts)
  let ?c = "PK_BRANCH k (length p)" and ?n = "count (mset (pairs_of M k)) (a, b)"
  have len: "length ts = 4" "?c < length ts" using TNode.prems by auto
  have IH: "count (mset (tree_quads m M (ts ! c))) (a, k, b)
      = (if tfind (ts ! c) (Suc (length p)) k \<noteq> None \<and> (m = FS_RID_NULL \<or> m = a) then ?n else 0)" if "c < 4" for c
    using TNode.IH [of "ts ! c" "p @ [c]"] TNode.prems that len(1) by simp
  have "count (mset (tree_quads m M (TNode s ts))) (a, k, b) = (\<Sum>c < 4. count (mset (tree_quads m M (ts ! c))) (a, k, b))"
    unfolding tree_quads.simps count_concat map_map comp_def by (simp add: sum_list_sum_nth len(1) atLeast0LessThan)
  also have "\<dots> = (\<Sum>c < 4. if c = ?c then count (mset (tree_quads m M (ts ! ?c))) (a, k, b) else 0)"
    using IH tfind_other_branch [OF TNode.prems] by (intro sum.cong) auto
  also have "\<dots> = count (mset (tree_quads m M (ts ! ?c))) (a, k, b)" using len by simp
  finally show ?case using IH [of ?c] len by simp
qed (simp_all only: tree_quads.simps count_leaf_quads tfind.simps, auto)

text \<open>Every leaf slot of a tree is found under its key.\<close>

lemma leaf_found:
  "tree_ok p t \<Longrightarrow> stored m t \<Longrightarrow> n \<in> set (fp t) \<Longrightarrow> m n = Leaf_slot l \<Longrightarrow> tfind t (length p) (lf_pk l) = Some (n, l)"
proof (induction t arbitrary: p)
  case (TNode s ts)
  have "n \<noteq> s" using TNode.prems(2,4) by auto
  then obtain c where c: "c < length ts" "n \<in> set (fp (ts ! c))"
    using TNode.prems(3) by (auto simp: in_set_conv_nth [of _ ts])
  have "tree_ok (p @ [c]) (ts ! c)" "stored m (ts ! c)" "length p < 32" using TNode.prems(1,2) c(1) by (auto simp: list_all_length)
  then have f: "tfind (ts ! c) (Suc (length p)) (lf_pk l) = Some (n, l)"
    using TNode.IH [of "ts ! c" "p @ [c]"] c TNode.prems(4) by simp
  then have "take (length (p @ [c])) (digits (lf_pk l)) = p @ [c]"
    using tfind_prefix \<open>tree_ok (p @ [c]) (ts ! c)\<close> by blast
  then have "PK_BRANCH (lf_pk l) (length p) = c" using take_Suc_digits [OF \<open>length p < 32\<close>, of "lf_pk l"] by simp
  then show ?case using f c(1) by simp
qed auto

section \<open>Properties\<close>



lemma ptree_traverse_ok:
  assumes "ptree_holds pt M oh oP"
  shows "\<exists>qs. traverse_all pt (fs_ptree_traverse m) = Some qs \<and> (\<forall>a k b. count (mset qs) (a, k, b)
     = (if m = FS_RID_NULL \<or> m = a then count (mset (pairs_of M k)) (a, b) else 0))"
proof -
  obtain ts h where hw: "holds_with pt ts h M oh oP" using assms unfolding ptree_holds_def by blast
  have rep: "ptree_rep pt ts" and e: "\<And>k. entry_ok (leaf_of ts k) (h k) (M k)"
    and ph: "pt_holds (pt_table pt) (case_sum h oh) (case_sum M oP)"
    using hw unfolding holds_with_def by blast+
  let ?T = "TNode 1 ts" and ?U = "set (fp (TNode 1 ts))"
  obtain fn fl where hp: "heap_ok pt ?U fn fl" using rep unfolding ptree_rep_def by blast
  have t: "tree_ok [] ?T" "stored (slots pt) ?T" "distinct (fp ?T)" using rep unfolding ptree_rep_def by blast+
  have "leaves_walk pt ?U M"
    unfolding leaves_walk_def
  proof (intro ballI allI impI)
    fix n l assume n: "n \<in> ?U" "slots pt n = Leaf_slot l"
    then have f: "leaf_of ts (lf_pk l) = Some (n, l)" using leaf_found [OF t(1,2) n] by simp
    then obtain ps where "M (lf_pk l) = Some ps" "h (lf_pk l) = lf_block l"
      using e [of "lf_pk l"] by (auto simp: entry_ok_def simp del: tfind.simps split: option.splits)
    then show "pt_walk (pt_table pt) (lf_block l) (pairs_of M (lf_pk l))"
      using ptr.holds_walk [OF ph, of "Inl (lf_pk l)" ps] by simp
  qed
  moreover have "it_rep pt ?U (fs_ptree_traverse m) [] [(1, 0, ts)]"
    using t(1,2)
    by (auto simp: it_rep_def fs_ptree_traverse_def stack_entry_def entry_stored_def NODE_ID_root [symmetric]
        intro!: exI [of _ "[]"])
  moreover have "fst (it_pair (fs_ptree_traverse m)) = m" by (simp add: fs_ptree_traverse_def)
  ultimately obtain qs where qs: "traverse_all pt (fs_ptree_traverse m) = Some qs"
    "mset qs = it_quads m M (fs_ptree_traverse m) [] [(1, 0, ts)]"
    using traverse_all_ok [OF hp] by blast
  have "mset qs = mset (tree_quads m M ?T)" using qs(2) by (simp add: it_quads_def stack_quads_def)
  moreover have "(if leaf_of ts k \<noteq> None \<and> P then count (mset (pairs_of M k)) x else 0)
      = (if P then count (mset (pairs_of M k)) x else 0)" for k P x
    using e [of k] by (cases "leaf_of ts k") (simp_all add: entry_ok_def del: tfind.simps)
  ultimately have "\<forall>a k b. count (mset qs) (a, k, b)
     = (if m = FS_RID_NULL \<or> m = a then count (mset (pairs_of M k)) (a, b) else 0)"
    using count_tree_quads [OF t(1), of m M] by (simp only: list.size simp_thms)
  with qs(1) show ?thesis by blast
qed

text \<open>C16: a traversal of the tree ends, and lists each pair of each key exactly as often as the
  key's list has it, as the quad of model, key and other end; for a given model it lists the
  pairs of that model only.\<close>

theorem ptree_traverse_complete:
  assumes "ptree_holds pt M oh oP"
  shows "\<exists>qs. traverse_all pt (fs_ptree_traverse m) = Some qs \<and> (\<forall>a k b. count (mset qs) (a, k, b)
     = (if m = FS_RID_NULL \<or> m = a then count (mset (pairs_of M k)) (a, b) else 0))"
  using assms by (rule ptree_traverse_ok)

theorem ptree_traverse_complete_witness:
  "\<exists>pt qs. fs_ptree_add False (Some (fs_ptree_create fs_ptable_create)) 5 (Some (1, 2)) = Some (0, Some pt)
     \<and> traverse_all pt (fs_ptree_traverse FS_RID_NULL) = Some qs \<and> count (mset qs) (1, 5, 2) = 1"
proof -
  obtain pt where pt: "fs_ptree_add False (Some (fs_ptree_create fs_ptable_create)) 5 (Some (1, 2)) = Some (0, Some pt)"
    "ptree_holds pt [5 \<mapsto> [(1, 2)]] (\<lambda>_ :: unit. 0) Map.empty"
    using ptree_add_ok [OF empty_tree empty_tree_room, of False 5 "(1, 2)"] by auto
  with ptree_traverse_complete [OF pt(2), of FS_RID_NULL] show ?thesis by fastforce
qed

end
