(* ===== verification/Forest.thy ===== *)
theory Forest
  imports PtreeBulk
begin

text \<open>
  All radix trees of a segment keep their pairs in one pair table (\<open>be->pairs\<close> in
  \<open>src/src/backend/backend.c\<close>).  A forest is a family of trees over one table; an operation on one of
  them is the operation of \<open>ptree.c\<close> on that tree with the current table.  The lemmas carry the
  refinement theorems of a single tree over to the family.
\<close>

section \<open>Renaming the owners of chains\<close>

lemma arena_rename:
  assumes "arena_rep nxt free lim fs Ch" and "\<And>k k' j. g k = Some j \<Longrightarrow> g k' = Some j \<Longrightarrow> k = k'"
  shows "arena_rep nxt free lim fs (\<lambda>k. Option.bind (g k) Ch)"
  unfolding arena_rep_def
proof (intro conjI allI impI)
  show "linked nxt free fs" "\<forall>i \<in> set fs. i < lim" using assms(1) by (simp_all add: arena_rep_def)
next
  fix k ids assume "Option.bind (g k) Ch = Some ids"
  then obtain j where "Ch j = Some ids" by (auto simp: bind_eq_Some_conv)
  then show "linked nxt (head_of ids) ids" "\<forall>i \<in> set ids. i < lim \<and> i \<notin> set fs" using assms(1) by (simp_all add: arena_rep_def)
next
  fix k k' ids ids' assume "Option.bind (g k) Ch = Some ids" "Option.bind (g k') Ch = Some ids'" and ne: "k \<noteq> k'"
  then obtain j j' where "g k = Some j" "Ch j = Some ids" "g k' = Some j'" "Ch j' = Some ids'" by (auto simp: bind_eq_Some_conv)
  moreover from this assms(2) [of k j k'] ne have "j \<noteq> j'" by auto
  ultimately show "set ids \<inter> set ids' = {}" using assms(1) unfolding arena_rep_def by blast
qed

lemma pt_holds_rename:
  assumes "pt_holds pt hds Ps" and inj: "\<And>k k' j. g k = Some j \<Longrightarrow> g k' = Some j \<Longrightarrow> k = k'"
    and "\<And>k. Ps' k = Option.bind (g k) Ps" and "\<And>k j. g k = Some j \<Longrightarrow> hds' k = hds j"
  shows "pt_holds pt hds' Ps'"
proof -
  obtain fs Ch where r: "pt_rep pt fs Ch" "\<And>k. Ps k = map_option (map (row_pair pt)) (Ch k)"
    "\<And>k ids. Ch k = Some ids \<Longrightarrow> hds k = head_of ids"
    using assms(1) unfolding pt_holds_def by blast
  have "arena_rep (pt_nxt pt) (pt_free_list pt) (pt_length pt) fs (\<lambda>k. Option.bind (g k) Ch)"
    by (rule arena_rename [OF pt_rep_arena [OF r(1)] inj])
  then have "pt_rep pt fs (\<lambda>k. Option.bind (g k) Ch)" using r(1) by (simp add: pt_rep_def)
  moreover have "hds' k = head_of ids" if "Option.bind (g k) Ch = Some ids" for k ids
    using r(3) assms(4) that by (auto simp: bind_eq_Some_conv)
  moreover have "Ps' k = map_option (map (row_pair pt)) (Option.bind (g k) Ch)" for k
    using r(2) assms(3) by (cases "g k") simp_all
  ultimately show ?thesis unfolding pt_holds_def by blast
qed

section \<open>Forests\<close>

definition tree_part :: "ptree \<Rightarrow> ttree list \<Rightarrow> (rid \<Rightarrow> nat) \<Rightarrow> (rid \<rightharpoonup> (rid \<times> rid) list) \<Rightarrow> bool" where
  "tree_part pt ts h M \<longleftrightarrow> ptree_rep pt ts \<and> (\<forall>pk. entry_ok (leaf_of ts pk) (h pk) (M pk))
     \<and> finite (dom M) \<and> pt_count pt = pair_total M"

definition forest :: "ptable \<Rightarrow> ('t \<rightharpoonup> ptree) \<Rightarrow> ('t \<Rightarrow> rid \<rightharpoonup> (rid \<times> rid) list) \<Rightarrow> bool" where
  "forest tbl T M \<longleftrightarrow> (\<exists>ts h. (\<forall>t pt. T t = Some pt \<longrightarrow> tree_part pt (ts t) (h t) (M t))
     \<and> (\<forall>t. T t = None \<longrightarrow> M t = Map.empty)
     \<and> pt_holds tbl (\<lambda>(t, pk). h t pk) (\<lambda>(t, pk). M t pk))"

text \<open>One tree of a forest with the table, and what its change makes of the forest.\<close>

lemma forest_view:
  fixes T :: "'t \<rightharpoonup> ptree"
  assumes f: "forest tbl T M" and t: "T t = Some pt"
  shows "\<exists>(oh :: 't \<times> rid \<Rightarrow> nat) oP. ptree_holds (pt\<lparr>pt_table := tbl\<rparr>) (M t) oh oP
    \<and> (\<forall>pt' M'. ptree_holds pt' M' oh oP \<longrightarrow> forest (pt_table pt') (T(t \<mapsto> pt')) (M(t := M')))"
proof -
  obtain ts h where r: "\<And>u q. T u = Some q \<Longrightarrow> tree_part q (ts u) (h u) (M u)" "\<And>u. T u = None \<Longrightarrow> M u = Map.empty"
    "pt_holds tbl (\<lambda>(t, pk). h t pk) (\<lambda>(t, pk). M t pk)" using f unfolding forest_def by blast
  define oh where "oh = (\<lambda>(u :: 't, pk). h u pk)"
  define oP where "oP = (\<lambda>(u, pk). if u = t then None else M u pk)"
  let ?g = "case_sum (\<lambda>pk. Some (t, pk)) (\<lambda>(u, pk). if u = t then None else Some (u, pk))"
  have "pt_holds tbl (case_sum (h t) oh) (case_sum (M t) oP)"
    by (rule pt_holds_rename [OF r(3), of ?g]) (auto simp: oh_def oP_def split: sum.splits if_split_asm)
  then have "ptree_holds (pt\<lparr>pt_table := tbl\<rparr>) (M t) oh oP"
    using r(1) [OF t] unfolding ptree_holds_def holds_with_def tree_part_def
    by (intro exI [of _ "ts t"] exI [of _ "h t"]) (simp del: tfind.simps)
  moreover have "forest (pt_table pt') (T(t \<mapsto> pt')) (M(t := M'))" if p: "ptree_holds pt' M' oh oP" for pt' M'
  proof -
    obtain ts' h' where w: "ptree_rep pt' ts'" "pt_holds (pt_table pt') (case_sum h' oh) (case_sum M' oP)"
      "\<forall>pk. entry_ok (leaf_of ts' pk) (h' pk) (M' pk)" "finite (dom M')" "pt_count pt' = pair_total M'"
      using p unfolding ptree_holds_def holds_with_def by blast
    let ?k = "\<lambda>(u, pk). if u = t then Some (Inl pk) else Some (Inr (u, pk))"
    have "pt_holds (pt_table pt') (\<lambda>(u, pk). (h(t := h')) u pk) (\<lambda>(u, pk). (M(t := M')) u pk)"
      by (rule pt_holds_rename [OF w(2), of ?k]) (auto simp: oh_def oP_def split: if_split_asm)
    moreover have "tree_part q ((ts(t := ts')) u) ((h(t := h')) u) ((M(t := M')) u)" if "(T(t \<mapsto> pt')) u = Some q" for u q
      using that r(1) [of u q] w unfolding tree_part_def by (cases "u = t") (simp_all del: tfind.simps)
    moreover have "(M(t := M')) u = Map.empty" if "(T(t \<mapsto> pt')) u = None" for u
      using that r(2) by (auto split: if_split_asm)
    ultimately show ?thesis unfolding forest_def by blast
  qed
  ultimately show ?thesis by blast
qed

text \<open>A new tree is empty.\<close>

lemma forest_new:
  assumes f: "forest tbl T M" and t: "T t = None"
  shows "forest tbl (T(t \<mapsto> fs_ptree_create tbl)) M"
proof -
  obtain ts h where r: "\<And>u q. T u = Some q \<Longrightarrow> tree_part q (ts u) (h u) (M u)" "\<And>u. T u = None \<Longrightarrow> M u = Map.empty"
    "pt_holds tbl (\<lambda>(t, pk). h t pk) (\<lambda>(t, pk). M t pk)" using f unfolding forest_def by blast
  have "tree_part (fs_ptree_create tbl) no_trees (\<lambda>_. 0) (M t)"
    using ptree_rep_create [of tbl] r(2) [OF t]
    by (simp add: tree_part_def entry_ok_def pair_total_def fs_ptree_create_def fs_ptree_write_header_def Let_def)
  then have "tree_part q ((ts(t := no_trees)) u) ((h(t := \<lambda>_. 0)) u) (M u)" if "(T(t \<mapsto> fs_ptree_create tbl)) u = Some q" for u q
    using that r(1) by (auto split: if_split_asm)
  moreover have "M u = Map.empty" if "(T(t \<mapsto> fs_ptree_create tbl)) u = None" for u
    using that r(2) by (auto split: if_split_asm)
  moreover have "pt_holds tbl (\<lambda>(u, pk). (h(t := \<lambda>_. 0)) u pk) (\<lambda>(u, pk). M u pk)"
    by (rule pt_holds_rename [OF r(3), of "\<lambda>(u, pk). if u = t then None else Some (u, pk)"])
      (use r(2) [OF t] in \<open>auto split: if_split_asm\<close>)
  ultimately show ?thesis unfolding forest_def by blast
qed

lemma forest_create: "forest fs_ptable_create Map.empty (\<lambda>_. Map.empty)"
proof -
  have "pt_holds fs_ptable_create (\<lambda>(t, pk). 0) (\<lambda>(t :: 'a, pk). (Map.empty :: rid \<rightharpoonup> (rid \<times> rid) list) pk)"
    unfolding pt_holds_def by (intro exI [of _ "[]"] exI [of _ Map.empty]) (auto simp: pt_rep_create)
  then show ?thesis unfolding forest_def by (intro exI [of _ "\<lambda>_. no_trees"] exI [of _ "\<lambda>_ _. 0"]) simp
qed

section \<open>Operations on one tree of a forest\<close>

lemma forest_add:
  assumes f: "forest tbl T M" and t: "T t = Some pt" and room: "ptree_room 32 pt" "pt_room tbl"
  shows "\<exists>pt'. fs_ptree_add dedup (Some (pt\<lparr>pt_table := tbl\<rparr>)) pk (Some pr) = Some (0, Some pt')
    \<and> forest (pt_table pt') (T(t \<mapsto> pt')) (M(t := (M t)(pk \<mapsto>
        (if dedup \<and> pr \<in> set (pairs_of (M t) pk) then pairs_of (M t) pk else pr # pairs_of (M t) pk))))"
proof -
  obtain oh :: "'a \<times> rid \<Rightarrow> nat" and oP where v: "ptree_holds (pt\<lparr>pt_table := tbl\<rparr>) (M t) oh oP"
    "\<And>pt' M'. ptree_holds pt' M' oh oP \<Longrightarrow> forest (pt_table pt') (T(t \<mapsto> pt')) (M(t := M'))"
    using forest_view [OF f t] by blast
  have "ptree_room 32 (pt\<lparr>pt_table := tbl\<rparr>)" using room(1) by (simp add: ptree_room_def cap_def)
  then obtain pt' where "fs_ptree_add dedup (Some (pt\<lparr>pt_table := tbl\<rparr>)) pk (Some pr) = Some (0, Some pt')"
    "ptree_holds pt' ((M t)(pk \<mapsto> (if dedup \<and> pr \<in> set (pairs_of (M t) pk) then pairs_of (M t) pk
       else pr # pairs_of (M t) pk))) oh oP" using ptree_add_ok [OF v(1)] room(2) by fastforce
  then show ?thesis using v(2) by blast
qed

lemma forest_remove:
  fixes pat :: "rid \<times> rid"
  assumes f: "forest tbl T M" and t: "T t = Some pt"
  defines "gone \<equiv> \<lambda>pk. filter (pair_matches pat) (pairs_of (M t) pk)"
    and "rest \<equiv> \<lambda>pk. filter (\<lambda>p. \<not> pair_matches pat p) (pairs_of (M t) pk)"
  shows "\<exists>pt'. fs_ptree_remove (Some (pt\<lparr>pt_table := tbl\<rparr>)) pk pat models
      = Some (if M t pk = None \<or> gone pk \<noteq> [] then 0 else 1, Some pt', models_after pat models (gone pk))
    \<and> forest (pt_table pt') (T(t \<mapsto> pt')) (M(t := (if gone pk = [] then M t else keep_pairs (M t) pk (rest pk))))"
proof -
  obtain oh :: "'a \<times> rid \<Rightarrow> nat" and oP where v: "ptree_holds (pt\<lparr>pt_table := tbl\<rparr>) (M t) oh oP"
    "\<And>pt' M'. ptree_holds pt' M' oh oP \<Longrightarrow> forest (pt_table pt') (T(t \<mapsto> pt')) (M(t := M'))"
    using forest_view [OF f t] by blast
  show ?thesis unfolding gone_def rest_def using ptree_remove_ok [OF v(1), where pat = pat and pk = pk and models = models] v(2)
    by blast
qed

text \<open>The count of a tree tells whether a purge removed anything.\<close>

lemma plen_purge: "plen (purge pat v) = int (length (filter (\<lambda>p. \<not> pair_matches pat p) (case v of None \<Rightarrow> [] | Some ps \<Rightarrow> ps)))"
  by (cases v) (simp_all add: purge_def plen_def Let_def)

lemma purge_total:
  assumes "finite (dom M)" "pair_total (\<lambda>k. purge pat (M k)) = pair_total M"
  shows "filter (pair_matches pat) (pairs_of M k) = []"
proof (rule ccontr)
  assume ne: "filter (pair_matches pat) (pairs_of M k) \<noteq> []"
  then have k: "k \<in> dom M" by (cases "M k") auto
  obtain x where "x \<in> set (pairs_of M k)" "pair_matches pat x" using ne unfolding filter_empty_conv by blast
  then have less: "length (filter (\<lambda>p. \<not> pair_matches pat p) (pairs_of M k)) < length (pairs_of M k)"
    by (intro length_filter_less) auto
  have pl: "plen (M j) = int (length (pairs_of M j))" for j by (cases "M j") (simp_all add: plen_def)
  have "dom (\<lambda>k. purge pat (M k)) \<subseteq> dom M" by (auto simp: purge_def split: option.splits)
  then have "pair_total (\<lambda>k. purge pat (M k)) = (\<Sum>j \<in> dom M. plen (purge pat (M j)))" using assms(1) by (intro pair_total_superset)
  also have "\<dots> < (\<Sum>j \<in> dom M. plen (M j))"
    using assms(1) k less by (intro sum_strict_mono_ex1) (auto simp: plen_purge pl intro!: bexI [of _ k])
  finally show False using assms(2) by (simp add: pair_total_def)
qed

lemma forest_remove_all:
  assumes f: "forest tbl T M" and t: "T t = Some pt"
  shows "\<exists>pt' r. fs_ptree_remove_all (Some (pt\<lparr>pt_table := tbl\<rparr>)) (Some pat) = Some (r, Some pt')
    \<and> forest (pt_table pt') (T(t \<mapsto> pt')) (M(t := (\<lambda>k. purge pat (M t k))))
    \<and> (r \<noteq> 0 \<longrightarrow> (\<forall>k. filter (pair_matches pat) (pairs_of (M t) k) = []))"
proof -
  obtain oh :: "'a \<times> rid \<Rightarrow> nat" and oP where v: "ptree_holds (pt\<lparr>pt_table := tbl\<rparr>) (M t) oh oP"
    "\<And>pt' M'. ptree_holds pt' M' oh oP \<Longrightarrow> forest (pt_table pt') (T(t \<mapsto> pt')) (M(t := M'))"
    using forest_view [OF f t] by blast
  let ?pt = "pt\<lparr>pt_table := tbl\<rparr>"
  obtain pt' where r: "fs_ptree_remove_all (Some ?pt) (Some pat) = Some (if fs_ptree_count pt' = fs_ptree_count ?pt then 1 else 0, Some pt')"
    "ptree_holds pt' (\<lambda>k. purge pat (M t k)) oh oP" using ptree_remove_all_ok [OF v(1)] by blast
  have c: "finite (dom (M t))" "pt_count ?pt = pair_total (M t)" "pt_count pt' = pair_total (\<lambda>k. purge pat (M t k))"
    using v(1) r(2) unfolding ptree_holds_def holds_with_def by blast+
  have "filter (pair_matches pat) (pairs_of (M t) k) = []" if "fs_ptree_count pt' = fs_ptree_count ?pt" for k
    by (rule purge_total [OF c(1)]) (use that c(2,3) in \<open>simp add: fs_ptree_count_def\<close>)
  then have "(if fs_ptree_count pt' = fs_ptree_count ?pt then 1 else 0 :: int) \<noteq> 0 \<longrightarrow> (\<forall>k. filter (pair_matches pat) (pairs_of (M t) k) = [])"
    by presburger
  then show ?thesis using r(1) v(2) [OF r(2)] by blast
qed

lemma forest_search:
  assumes f: "forest tbl T M" and t: "T t = Some pt"
  shows "case M t pk of None \<Rightarrow> fs_ptree_search (Some (pt\<lparr>pt_table := tbl\<rparr>)) pk pat = Some None
    | Some ps \<Rightarrow> \<exists>it. fs_ptree_search (Some (pt\<lparr>pt_table := tbl\<rparr>)) pk pat = Some (Some it)
        \<and> fs_ptree_it_get_length (Some it) = length ps \<and> it_all (pt\<lparr>pt_table := tbl\<rparr>) it = Some (filter (pair_matches pat) ps)"
proof -
  obtain oh :: "'a \<times> rid \<Rightarrow> nat" and oP where "ptree_holds (pt\<lparr>pt_table := tbl\<rparr>) (M t) oh oP"
    using forest_view [OF f t] by blast
  from ptree_search_ok [OF this] show ?thesis .
qed

lemma forest_traverse:
  assumes f: "forest tbl T M" and t: "T t = Some pt"
  shows "\<exists>qs. traverse_all (pt\<lparr>pt_table := tbl\<rparr>) (fs_ptree_traverse m) = Some qs \<and> (\<forall>a k b. count (mset qs) (a, k, b)
     = (if m = FS_RID_NULL \<or> m = a then count (mset (pairs_of (M t) k)) (a, b) else 0))"
proof -
  obtain oh :: "'a \<times> rid \<Rightarrow> nat" and oP where "ptree_holds (pt\<lparr>pt_table := tbl\<rparr>) (M t) oh oP"
    using forest_view [OF f t] by blast
  from ptree_traverse_ok [OF this] show ?thesis .
qed

end
