(* ===== verification/FsList.thy ===== *)
theory FsList
  imports CQsort Rid
begin

text \<open>
  The append-only lists of \<open>src/src/backend/list.c\<close> and the row comparisons of
  \<open>src/src/backend/sort.c\<close>.  A list is a file of rows of a fixed width with a write buffer; an import
  fills lists of quads, sorts them in chunks and reads them back merged, without duplicates.  The
  rows are of any type: \<open>zrow\<close> is the row of zero bytes that \<open>calloc\<close> gives.  File names, locks, failing
  system calls and printing are left out.
\<close>

section \<open>Lists\<close>

datatype sort_state = Unsorted | Chunk_sorted | Sorted

record 'r fs_list =
  l_width :: nat
  l_offset :: nat
  l_file :: "'r list"
  l_fd :: nat
  l_buffer :: "'r list"
  l_sort :: sort_state
  l_sort_func :: "'r \<Rightarrow> 'r \<Rightarrow> int"
  l_chunks :: nat
  l_count :: nat
  l_chunk_pos :: "int list option"
  l_chunk_end :: "int list"
  l_last :: 'r

definition LIST_BUFFER_SIZE :: nat where "LIST_BUFFER_SIZE = 256"
definition CHUNK_SIZE :: nat where "CHUNK_SIZE = 131072 * 4096"

text \<open>\<open>fs_list_open_filename\<close> on a file with the given rows; \<open>None\<close> is a null pointer.\<close>

definition fs_list_open :: "'r \<Rightarrow> nat \<Rightarrow> 'r list \<Rightarrow> 'r fs_list option" where
  "fs_list_open zrow width rows =
     (if CHUNK_SIZE mod width \<noteq> 0 then None
      else Some \<lparr>l_width = width, l_offset = length rows, l_file = rows, l_fd = length rows, l_buffer = [], l_sort = Unsorted,
        l_sort_func = (\<lambda>_ _. 0), l_chunks = 0, l_count = 0, l_chunk_pos = None, l_chunk_end = [], l_last = zrow\<rparr>)"

text \<open>A new or truncated file.\<close>

abbreviation fs_list_create :: "'r \<Rightarrow> nat \<Rightarrow> 'r fs_list option" where
  "fs_list_create zrow width \<equiv> fs_list_open zrow width []"

definition fs_list_flush :: "'r fs_list option \<Rightarrow> int \<times> 'r fs_list option" where
  "fs_list_flush lo = (case lo of None \<Rightarrow> (1, None) | Some l \<Rightarrow>
     let file = take (l_offset l) (l_file l) @ l_buffer l @ drop (l_offset l + length (l_buffer l)) (l_file l)
     in (0, Some (l\<lparr>l_file := file, l_buffer := [], l_offset := length file, l_fd := length file\<rparr>)))"

definition fs_list_add :: "'r fs_list option \<Rightarrow> 'r \<Rightarrow> (int \<times> 'r fs_list option) option" where
  "fs_list_add lo row = (case lo of None \<Rightarrow> Some (- 1, None) | Some l \<Rightarrow>
     let l = (if length (l_buffer l) = LIST_BUFFER_SIZE then the (snd (fs_list_flush (Some l))) else l)
     in if length (l_buffer l) \<ge> LIST_BUFFER_SIZE then None
        else let l = l\<lparr>l_buffer := l_buffer l @ [row]\<rparr>
             in Some (int (l_offset l + length (l_buffer l)) - 1, Some l))"

definition fs_list_get :: "'r fs_list option \<Rightarrow> nat \<Rightarrow> int \<times> 'r option \<times> 'r fs_list option" where
  "fs_list_get lo pos = (case lo of None \<Rightarrow> (1, None, None) | Some l \<Rightarrow>
     if pos \<ge> l_offset l then
       if pos \<ge> l_offset l + length (l_buffer l) then (1, None, Some l)
       else (0, Some (l_buffer l ! (pos - l_offset l)), Some l)
     else if pos < length (l_file l) then (0, Some (l_file l ! pos), Some (l\<lparr>l_fd := pos + 1\<rparr>))
     else (1, None, Some (l\<lparr>l_fd := pos\<rparr>)))"

definition fs_list_length :: "'r fs_list \<Rightarrow> nat" where
  "fs_list_length l = l_offset l + length (l_buffer l)"

definition fs_list_rewind :: "'r fs_list \<Rightarrow> 'r fs_list" where
  "fs_list_rewind l = l\<lparr>l_fd := 0\<rparr>"

definition fs_list_next_value :: "'r fs_list \<Rightarrow> int \<times> 'r option \<times> 'r fs_list" where
  "fs_list_next_value l =
     (if l_fd l < length (l_file l) then (1, Some (l_file l ! l_fd l), l\<lparr>l_fd := l_fd l + 1\<rparr>) else (0, None, l))"

definition fs_list_truncate :: "'r fs_list \<Rightarrow> int \<times> 'r fs_list" where
  "fs_list_truncate l = (0, l\<lparr>l_file := [], l_offset := 0, l_buffer := []\<rparr>)"

text \<open>The rows that the closed file has.\<close>

definition fs_list_close :: "'r fs_list \<Rightarrow> 'r list" where
  "fs_list_close l = l_file (the (snd (fs_list_flush (Some l))))"

section \<open>Sorting\<close>

text \<open>Mapping no bytes fails.\<close>

definition fs_list_sort_chunk :: "'r fs_list \<Rightarrow> nat \<Rightarrow> nat \<Rightarrow> ('r \<Rightarrow> 'r \<Rightarrow> int) \<Rightarrow> int \<times> 'r fs_list" where
  "fs_list_sort_chunk l start len cmp =
     (if len = 0 then (1, l)
      else (0, l\<lparr>l_file := take start (l_file l) @ qsort cmp (take len (drop start (l_file l))) @ drop (start + len) (l_file l)\<rparr>))"

definition fs_list_sort :: "'r fs_list \<Rightarrow> ('r \<Rightarrow> 'r \<Rightarrow> int) \<Rightarrow> int \<times> 'r fs_list" where
  "fs_list_sort l cmp =
     (let l = (the (snd (fs_list_flush (Some l))))\<lparr>l_sort_func := cmp\<rparr>;
          (ret, l) = fs_list_sort_chunk l 0 (l_offset l) cmp
      in if ret \<noteq> 0 then (1, l) else (0, l\<lparr>l_sort := Sorted\<rparr>))"

text \<open>The loop over the chunks; its counter is an \<open>int\<close>.\<close>

partial_function (option) sort_chunk_loop :: "'r fs_list \<Rightarrow> ('r \<Rightarrow> 'r \<Rightarrow> int) \<Rightarrow> nat \<Rightarrow> (int \<times> 'r fs_list) option" where
  "sort_chunk_loop l cmp c =
     (if c \<ge> 2147483648 then None
      else if c < l_offset l then
        let len = (if l_offset l - c > CHUNK_SIZE div l_width l then CHUNK_SIZE div l_width l else l_offset l - c);
            (ret, l) = fs_list_sort_chunk l c len cmp
        in if ret \<noteq> 0 then Some (ret, l) else sort_chunk_loop l cmp (c + CHUNK_SIZE div l_width l)
      else Some (0, l))"

definition fs_list_sort_chunked :: "'r fs_list \<Rightarrow> ('r \<Rightarrow> 'r \<Rightarrow> int) \<Rightarrow> (int \<times> 'r fs_list) option" where
  "fs_list_sort_chunked l cmp = do {
     let l = (the (snd (fs_list_flush (Some l))))\<lparr>l_sort_func := cmp\<rparr>;
     (ret, l) \<leftarrow> sort_chunk_loop l cmp 0;
     if ret \<noteq> 0 then Some (ret, l)
     else Some (0, l\<lparr>l_sort := (if l_offset l \<le> CHUNK_SIZE div l_width l then Sorted else Chunk_sorted)\<rparr>)
   }"

section \<open>Merging\<close>

text \<open>The positions of the chunks are computed as \<open>int\<close>, with wrap-around, and kept in bytes.\<close>

definition int32 :: "int \<Rightarrow> int" where
  "int32 i = (i + 2147483648) mod 4294967296 - 2147483648"

text \<open>A row of the mapping of the file, which has \<open>l_offset\<close> rows.\<close>

definition row_at :: "'r fs_list \<Rightarrow> int \<Rightarrow> 'r option" where
  "row_at l p = (if 0 \<le> p \<and> p mod int (l_width l) = 0 \<and> p div int (l_width l) < int (l_offset l)
     then load_at (l_file l) (nat (p div int (l_width l))) else None)"

text \<open>The first call after a sort; \<open>None\<close> when the lengths of the chunks do not add up.\<close>

definition init_chunks :: "'r \<Rightarrow> 'r fs_list \<Rightarrow> 'r fs_list option" where
  "init_chunks zrow l =
     (let chunks = l_offset l * l_width l div CHUNK_SIZE + 1;
          pos = map (\<lambda>c. int32 (int c * int CHUNK_SIZE)) [0..<chunks];
          en = (map (\<lambda>c. int32 ((int c + 1) * int CHUNK_SIZE)) [0..<chunks])[chunks - 1 := int (l_offset l) * int (l_width l)];
          len = sum_list (map2 (\<lambda>p e. if e \<ge> p then (e - p) div int (l_width l) else - ((p - e) div int (l_width l))) pos en)
      in if len \<noteq> int (l_offset l) then None
         else Some (l\<lparr>l_count := 0, l_chunks := chunks, l_chunk_pos := Some pos, l_chunk_end := en, l_last := zrow\<rparr>))"

fun best_chunk :: "'r fs_list \<Rightarrow> int list \<Rightarrow> nat list \<Rightarrow> nat option \<Rightarrow> nat option option" where
  "best_chunk l pos [] best_c = Some best_c"
| "best_chunk l pos (c # cs) best_c =
     (if pos ! c \<ge> l_chunk_end l ! c then best_chunk l pos cs best_c
      else case best_c of
        None \<Rightarrow> best_chunk l pos cs (Some c)
      | Some b \<Rightarrow> do {
          x \<leftarrow> row_at l (pos ! c);
          y \<leftarrow> row_at l (pos ! b);
          best_chunk l pos cs (Some (if l_sort_func l x y < 0 then c else b))
        })"

text \<open>From the label \<open>again\<close> on.\<close>

partial_function (option) sort_again :: "'r fs_list \<Rightarrow> (int \<times> 'r option \<times> 'r fs_list) option" where
  "sort_again l = do {
     pos \<leftarrow> l_chunk_pos l;
     best_c \<leftarrow> best_chunk l pos [0..<l_chunks l] None;
     case best_c of
       None \<Rightarrow> Some (0, None, l\<lparr>l_chunk_pos := None\<rparr>)
     | Some b \<Rightarrow> do {
         x \<leftarrow> row_at l (pos ! b);
         let l1 = l\<lparr>l_chunk_pos := Some (pos[b := pos ! b + int (l_width l)]), l_count := l_count l + 1\<rparr>;
         if l_last l = x then sort_again l1 else Some (1, Some x, l1\<lparr>l_last := x\<rparr>)
       }
   }"

definition fs_list_next_sort_uniqed :: "'r \<Rightarrow> 'r fs_list \<Rightarrow> (int \<times> 'r option \<times> 'r fs_list) option" where
  "fs_list_next_sort_uniqed zrow l =
     (case l_sort l of
        Unsorted \<Rightarrow> Some (fs_list_next_value l)
      | _ \<Rightarrow>
        if l_chunk_pos l = None then
          case init_chunks zrow l of None \<Rightarrow> Some (1, None, l) | Some l1 \<Rightarrow> sort_again l1
        else sort_again l)"

section \<open>Comparisons of quads\<close>

type_synonym quad = "rid \<times> rid \<times> rid \<times> rid"

text \<open>The macro \<open>SORT\<close>, followed by the rest of the function.\<close>

definition sort_step :: "rid \<Rightarrow> rid \<Rightarrow> int \<Rightarrow> int" where
  "sort_step a b rest = (if a < b then - 1 else if a > b then 1 else rest)"

text \<open>The same for two values of which neither is the wildcard.\<close>

definition sort_bound :: "rid \<Rightarrow> rid \<Rightarrow> int \<Rightarrow> int" where
  "sort_bound a b rest = (if a \<noteq> FS_RID_NULL \<and> b \<noteq> FS_RID_NULL then sort_step a b rest else 0)"

definition quad_sort_by_subject :: "quad \<Rightarrow> quad \<Rightarrow> int" where
  "quad_sort_by_subject = (\<lambda>(a0, a1, a2, a3) (b0, b1, b2, b3).
     sort_bound a1 b1 (sort_bound a2 b2 (sort_bound a0 b0 (sort_bound a3 b3 0))))"

definition quad_sort_by_object :: "quad \<Rightarrow> quad \<Rightarrow> int" where
  "quad_sort_by_object = (\<lambda>(a0, a1, a2, a3) (b0, b1, b2, b3).
     sort_bound a3 b3 (sort_bound a2 b2 (sort_bound a0 b0 (sort_bound a1 b1 0))))"

definition quad_sort_by_mspo :: "quad \<Rightarrow> quad \<Rightarrow> int" where
  "quad_sort_by_mspo = (\<lambda>(a0, a1, a2, a3) (b0, b1, b2, b3).
     sort_step a0 b0 (sort_step a1 b1 (sort_step a2 b2 (sort_step a3 b3 0))))"

definition quad_sort_by_psmo :: "quad \<Rightarrow> quad \<Rightarrow> int" where
  "quad_sort_by_psmo = (\<lambda>(a0, a1, a2, a3) (b0, b1, b2, b3).
     sort_step a2 b2 (sort_step a1 b1 (sort_step a0 b0 (sort_step a3 b3 0))))"

definition quad_sort_by_poms :: "quad \<Rightarrow> quad \<Rightarrow> int" where
  "quad_sort_by_poms = (\<lambda>(a0, a1, a2, a3) (b0, b1, b2, b3).
     sort_step a2 b2 (sort_step a3 b3 (sort_step a0 b0 (sort_step a1 b1 0))))"

lemmas quad_sort_defs = quad_sort_by_mspo_def quad_sort_by_psmo_def quad_sort_by_poms_def sort_step_def

section \<open>A list as a sequence\<close>

definition list_ok :: "'r fs_list \<Rightarrow> bool" where
  "list_ok l \<longleftrightarrow> l_offset l = length (l_file l) \<and> length (l_buffer l) \<le> LIST_BUFFER_SIZE \<and> CHUNK_SIZE mod l_width l = 0"

definition l_elems :: "'r fs_list \<Rightarrow> 'r list" where
  "l_elems l = l_file l @ l_buffer l"

lemma list_open_ok: "fs_list_open zrow w rows = Some l \<Longrightarrow> list_ok l \<and> l_elems l = rows \<and> l_width l = w"
  by (auto simp: fs_list_open_def list_ok_def l_elems_def split: if_split_asm)

lemma list_create_ok: "fs_list_create zrow w = Some l \<Longrightarrow> list_ok l \<and> l_elems l = [] \<and> l_width l = w"
  by (auto simp: fs_list_open_def list_ok_def l_elems_def split: if_split_asm)

lemma list_width: "list_ok l \<Longrightarrow> 0 < l_width l" "list_ok l \<Longrightarrow> 0 < CHUNK_SIZE div l_width l"
proof -
  assume ok: "list_ok l"
  have c: "0 < CHUNK_SIZE" by (simp add: CHUNK_SIZE_def)
  with ok show w: "0 < l_width l" by (cases "l_width l") (simp_all add: list_ok_def)
  from ok c have "l_width l \<le> CHUNK_SIZE" by (auto simp: list_ok_def intro: dvd_imp_le)
  with w show "0 < CHUNK_SIZE div l_width l" by (simp add: div_greater_zero_iff)
qed

lemma list_flush_ok:
  assumes "list_ok l"
  shows "fs_list_flush (Some l) = (0, Some (l\<lparr>l_file := l_elems l, l_buffer := [], l_offset := length (l_elems l), l_fd := length (l_elems l)\<rparr>))"
  using assms by (simp add: fs_list_flush_def list_ok_def l_elems_def Let_def)

lemma list_close_ok: "list_ok l \<Longrightarrow> fs_list_close l = l_elems l"
  by (simp add: fs_list_close_def list_flush_ok)

lemma list_add_ok:
  assumes "list_ok l"
  shows "\<exists>l'. fs_list_add (Some l) row = Some (int (length (l_elems l)), Some l') \<and> list_ok l' \<and> l_elems l' = l_elems l @ [row]
    \<and> l_width l' = l_width l \<and> l_sort l' = l_sort l \<and> l_chunk_pos l' = l_chunk_pos l"
proof (cases "length (l_buffer l) = LIST_BUFFER_SIZE")
  case True
  then show ?thesis using assms
    by (simp add: fs_list_add_def list_flush_ok Let_def) (simp add: list_ok_def l_elems_def LIST_BUFFER_SIZE_def)
next
  case False
  then show ?thesis using assms by (auto simp: fs_list_add_def Let_def list_ok_def l_elems_def)
qed

lemma list_get_ok:
  assumes "list_ok l"
  shows "fst (fs_list_get (Some l) i) = (if i < length (l_elems l) then 0 else 1)
    \<and> fst (snd (fs_list_get (Some l) i)) = (if i < length (l_elems l) then Some (l_elems l ! i) else None)"
  using assms by (auto simp: fs_list_get_def list_ok_def l_elems_def nth_append)

section \<open>Sorting in chunks\<close>

function chunk_sorted :: "('r \<Rightarrow> 'r \<Rightarrow> int) \<Rightarrow> nat \<Rightarrow> 'r list \<Rightarrow> 'r list" where
  "chunk_sorted cmp k xs = (if k = 0 \<or> xs = [] then xs else qsort cmp (take k xs) @ chunk_sorted cmp k (drop k xs))"
  by pat_completeness auto
termination by (relation "measure (\<lambda>(cmp, k, xs). length xs)") (auto simp: length_greater_0_conv)

declare chunk_sorted.simps [simp del]

lemma length_chunk_sorted [simp]: "length (chunk_sorted cmp k xs) = length xs"
proof (induction cmp k xs rule: chunk_sorted.induct)
  case (1 cmp k xs)
  then show ?case by (subst chunk_sorted.simps) (simp add: min_def)
qed

lemma mset_chunk_sorted [simp]: "mset (chunk_sorted cmp k xs) = mset xs"
proof (induction cmp k xs rule: chunk_sorted.induct)
  case (1 cmp k xs)
  have "mset (take k xs) + mset (drop k xs) = mset xs" by (metis append_take_drop_id mset_append)
  with 1 show ?case by (subst chunk_sorted.simps) simp
qed

lemma chunk_of_sorted:
  assumes "0 < k"
  shows "take k (drop (c * k) (chunk_sorted cmp k xs)) = qsort cmp (take k (drop (c * k) xs))"
proof (induction c arbitrary: xs)
  case 0
  have "take k (qsort cmp (take k xs) @ ys) = qsort cmp (take k xs)" if "length xs \<le> k \<longrightarrow> ys = []" for ys
    using that by (cases "length xs \<le> k") simp_all
  moreover have "length xs \<le> k \<longrightarrow> chunk_sorted cmp k (drop k xs) = []" by (simp add: chunk_sorted.simps)
  ultimately show ?case using assms by (subst chunk_sorted.simps) (simp add: qsort_def)
next
  case (Suc c)
  show ?case
  proof (cases "length xs \<le> k")
    case True
    then have "drop (Suc c * k) xs = []" "drop (Suc c * k) (chunk_sorted cmp k xs) = []" by simp_all
    then show ?thesis by (simp add: qsort_def)
  next
    case False
    then have l: "length (qsort cmp (take k xs)) = k" by simp
    have "chunk_sorted cmp k xs = qsort cmp (take k xs) @ chunk_sorted cmp k (drop k xs)"
      using False assms by (subst chunk_sorted.simps) auto
    then have "drop (Suc c * k) (chunk_sorted cmp k xs) = drop (c * k) (chunk_sorted cmp k (drop k xs))"
      using l by (simp add: add.commute)
    then show ?thesis using Suc.IH [of "drop k xs"] by (simp add: add.commute)
  qed
qed

lemma sort_chunk_loop_ok:
  assumes "l_offset l = length (l_file l)" and k: "k = CHUNK_SIZE div l_width l" "0 < k"
    and "c + (length (l_file l) + k) < 2147483648 + c" and "c < length (l_file l) + k"
  shows "sort_chunk_loop l cmp c = Some (0, l\<lparr>l_file := take c (l_file l) @ chunk_sorted cmp k (drop c (l_file l))\<rparr>)"
  using assms
proof (induction "length (l_file l) - c" arbitrary: l c rule: less_induct)
  case less
  show ?case
  proof (cases "c < length (l_file l)")
    case True
    let ?len = "if l_offset l - c > k then k else l_offset l - c"
    let ?f = "take c (l_file l) @ qsort cmp (take ?len (drop c (l_file l))) @ drop (c + ?len) (l_file l)"
    have tk: "take ?len (drop c (l_file l)) = take k (drop c (l_file l))" and
      dr: "drop (c + ?len) (l_file l) = drop (c + k) (l_file l)" using less.prems(1) True by auto
    have len: "length ?f = length (l_file l)" using less.prems(1) True by auto
    have step: "sort_chunk_loop l cmp c = sort_chunk_loop (l\<lparr>l_file := ?f\<rparr>) cmp (c + k)"
    proof -
      have "fs_list_sort_chunk l c ?len cmp = (0, l\<lparr>l_file := ?f\<rparr>)"
        unfolding fs_list_sort_chunk_def using less.prems(1,3) True by (simp del: if_split)
      moreover have "\<not> 2147483648 \<le> c" "c < l_offset l" using less.prems(1,4) True by linarith+
      ultimately show ?thesis unfolding sort_chunk_loop.simps [of l cmp c] Let_def less.prems(2) [symmetric]
        by (simp add: less.prems(2) [symmetric])
    qed
    have hyp: "sort_chunk_loop (l\<lparr>l_file := f\<rparr>) cmp (c + k) =
      Some (0, l\<lparr>l_file := f, l_file := take (c + k) f @ chunk_sorted cmp k (drop (c + k) f)\<rparr>)"
      if "length f = length (l_file l)" for f
      using less.hyps [of "l\<lparr>l_file := f\<rparr>" "c + k"] less.prems True that by simp
    have "sort_chunk_loop (l\<lparr>l_file := ?f\<rparr>) cmp (c + k) =
      Some (0, l\<lparr>l_file := ?f, l_file := take (c + k) ?f @ chunk_sorted cmp k (drop (c + k) ?f)\<rparr>)"
      by (rule hyp [OF len])
    moreover have "take (c + k) ?f @ chunk_sorted cmp k (drop (c + k) ?f) = take c (l_file l) @ chunk_sorted cmp k (drop c (l_file l))"
    proof -
      have "drop c (l_file l) \<noteq> []" using True by simp
      then have cs: "chunk_sorted cmp k (drop c (l_file l)) = qsort cmp (take k (drop c (l_file l))) @ chunk_sorted cmp k (drop (c + k) (l_file l))"
        using less.prems(3) by (subst chunk_sorted.simps) (simp add: add.commute)
      show ?thesis unfolding cs tk dr using True less.prems(3)
        by (cases "c + k \<le> length (l_file l)") (simp_all add: chunk_sorted.simps)
    qed
    ultimately show ?thesis unfolding step by simp
  next
    case False
    then show ?thesis using less.prems by (subst sort_chunk_loop.simps) (simp add: chunk_sorted.simps)
  qed
qed

lemma sort_chunked_ok:
  assumes ok: "list_ok l" and sz: "length (l_elems l) + CHUNK_SIZE div l_width l < 2147483648"
  shows "\<exists>l'. fs_list_sort_chunked l cmp = Some (0, l') \<and> list_ok l' \<and> l_width l' = l_width l \<and> l_sort_func l' = cmp
    \<and> l_sort l' \<noteq> Unsorted \<and> l_chunk_pos l' = l_chunk_pos l \<and> l_buffer l' = []
    \<and> l_file l' = chunk_sorted cmp (CHUNK_SIZE div l_width l) (l_elems l)"
proof -
  let ?l = "l\<lparr>l_file := l_elems l, l_buffer := [], l_offset := length (l_elems l), l_fd := length (l_elems l), l_sort_func := cmp\<rparr>"
  have "sort_chunk_loop ?l cmp 0 = Some (0, ?l\<lparr>l_file := chunk_sorted cmp (CHUNK_SIZE div l_width l) (l_elems l)\<rparr>)"
    using sort_chunk_loop_ok [of ?l "CHUNK_SIZE div l_width l" 0 cmp] list_width(2) [OF ok] sz by simp
  then show ?thesis using ok by (simp add: fs_list_sort_chunked_def list_flush_ok) (simp add: list_ok_def)
qed

section \<open>Merging the chunks\<close>

text \<open>A loop that calls \<open>fs_list_next_sort_uniqed\<close> until it returns 0, and the rows it sees.\<close>

partial_function (option) read_sorted :: "'r \<Rightarrow> 'r fs_list \<Rightarrow> ('r list \<times> 'r fs_list) option" where
  "read_sorted zrow l = do {
     (ret, out, l1) \<leftarrow> fs_list_next_sort_uniqed zrow l;
     if ret = 0 then Some ([], l1)
     else do { x \<leftarrow> out; (xs, l2) \<leftarrow> read_sorted zrow l1; Some (x # xs, l2) }
   }"

text \<open>Reading a sorted list without repetitions, after the row \<open>z\<close>.\<close>

fun skip_equal :: "'r \<Rightarrow> 'r list \<Rightarrow> 'r list" where
  "skip_equal z [] = []"
| "skip_equal z (x # xs) = (if x = z then skip_equal z xs else x # skip_equal x xs)"

text \<open>The rows of each chunk that are still to be read.\<close>

definition chunk_rows :: "'r fs_list \<Rightarrow> int \<Rightarrow> int \<Rightarrow> 'r list" where
  "chunk_rows l p e = take (nat (e div int (l_width l)) - nat (p div int (l_width l))) (drop (nat (p div int (l_width l))) (l_file l))"

definition merging :: "'r fs_list \<Rightarrow> int list \<Rightarrow> 'r list list \<Rightarrow> bool" where
  "merging l pos Rs \<longleftrightarrow> l_chunk_pos l = Some pos \<and> 0 < l_width l \<and> l_offset l = length (l_file l)
     \<and> length pos = l_chunks l \<and> length (l_chunk_end l) = l_chunks l \<and> length Rs = l_chunks l
     \<and> (\<forall>c < l_chunks l. 0 \<le> pos ! c \<and> pos ! c \<le> l_chunk_end l ! c \<and> int (l_width l) dvd pos ! c \<and> int (l_width l) dvd l_chunk_end l ! c
          \<and> l_chunk_end l ! c \<le> int (l_offset l) * int (l_width l)
          \<and> Rs ! c = chunk_rows l (pos ! c) (l_chunk_end l ! c) \<and> qsorted (l_sort_func l) (Rs ! c))"

lemma chunk_step:
  assumes "0 < l_width l" and "l_offset l = length (l_file l)" and "0 \<le> p" and "p < e"
    and "int (l_width l) dvd p" and "int (l_width l) dvd e" and "e \<le> int (l_offset l) * int (l_width l)"
  shows "\<exists>x. row_at l p = Some x \<and> chunk_rows l p e = x # chunk_rows l (p + int (l_width l)) e \<and> p + int (l_width l) \<le> e"
proof -
  let ?w = "int (l_width l)"
  obtain a b where ab: "p = ?w * a" "e = ?w * b" using assms(5,6) by (auto simp: dvd_def)
  have w: "0 < ?w" using assms(1) by simp
  have a: "0 \<le> a" using assms(3) ab w by (simp add: zero_le_mult_iff)
  have lt: "a < b" using assms(4) ab w by simp
  have b: "b \<le> int (length (l_file l))"
  proof -
    have "?w * b \<le> ?w * int (length (l_file l))" using assms(2,7) ab by (simp add: mult.commute)
    with w show ?thesis by simp
  qed
  have d: "p div ?w = a" "e div ?w = b" "(p + ?w) div ?w = a + 1" using ab w by simp_all
  have i: "nat a < length (l_file l)" using a b lt by linarith
  have "row_at l p = Some (l_file l ! nat a)" using ab a b lt i d assms(2) by (simp add: row_at_def load_at_def)
  moreover have "chunk_rows l p e = l_file l ! nat a # chunk_rows l (p + ?w) e"
  proof -
    have "nat b - nat a = Suc (nat b - nat (a + 1))" "nat (a + 1) = Suc (nat a)" using a lt by linarith+
    then show ?thesis unfolding chunk_rows_def d using i by (simp add: Cons_nth_drop_Suc [symmetric])
  qed
  moreover have "p + ?w \<le> e"
  proof -
    have "?w * (a + 1) \<le> ?w * b" using lt w by (intro mult_left_mono) auto
    then show ?thesis using ab by (simp add: algebra_simps)
  qed
  ultimately show ?thesis by blast
qed

lemma merging_last: "merging (l\<lparr>l_last := z\<rparr>) pos Rs \<longleftrightarrow> merging l pos Rs"
  by (simp add: merging_def chunk_rows_def)

lemma merging_chunk:
  assumes m: "merging l pos Rs" and c: "c < l_chunks l"
  shows "pos ! c \<ge> l_chunk_end l ! c \<longleftrightarrow> Rs ! c = []"
    and "Rs ! c \<noteq> [] \<Longrightarrow> row_at l (pos ! c) = Some (hd (Rs ! c)) \<and> chunk_rows l (pos ! c + int (l_width l)) (l_chunk_end l ! c) = tl (Rs ! c)
      \<and> pos ! c + int (l_width l) \<le> l_chunk_end l ! c"
proof -
  note d = m [unfolded merging_def, THEN conjunct2, THEN conjunct2, THEN conjunct2, THEN conjunct2, THEN conjunct2, THEN conjunct2, rule_format, OF c]
  have m0: "0 < l_width l" "l_offset l = length (l_file l)" using m by (simp_all add: merging_def)
  have step: "pos ! c < l_chunk_end l ! c \<Longrightarrow> \<exists>x. row_at l (pos ! c) = Some x \<and> Rs ! c = x # chunk_rows l (pos ! c + int (l_width l)) (l_chunk_end l ! c)
      \<and> pos ! c + int (l_width l) \<le> l_chunk_end l ! c"
    using chunk_step [OF m0, of "pos ! c" "l_chunk_end l ! c"] d by auto
  show e: "pos ! c \<ge> l_chunk_end l ! c \<longleftrightarrow> Rs ! c = []"
  proof
    assume "pos ! c \<ge> l_chunk_end l ! c"
    with d show "Rs ! c = []" by (simp add: chunk_rows_def)
  next
    assume "Rs ! c = []"
    with step show "pos ! c \<ge> l_chunk_end l ! c" by fastforce
  qed
  show "Rs ! c \<noteq> [] \<Longrightarrow> row_at l (pos ! c) = Some (hd (Rs ! c)) \<and> chunk_rows l (pos ! c + int (l_width l)) (l_chunk_end l ! c) = tl (Rs ! c)
      \<and> pos ! c + int (l_width l) \<le> l_chunk_end l ! c"
    using e step by fastforce
qed

lemma merging_advance:
  assumes m: "merging l pos Rs" and b: "b < l_chunks l" "Rs ! b \<noteq> []"
  shows "merging (l\<lparr>l_chunk_pos := Some (pos[b := pos ! b + int (l_width l)]), l_count := n, l_last := z\<rparr>)
    (pos[b := pos ! b + int (l_width l)]) (Rs[b := tl (Rs ! b)])"
proof -
  let ?l = "l\<lparr>l_chunk_pos := Some (pos[b := pos ! b + int (l_width l)]), l_count := n, l_last := z\<rparr>"
  have rows: "chunk_rows ?l p e = chunk_rows l p e" for p e by (simp add: chunk_rows_def)
  note cb = merging_chunk(2) [OF m b]
  have "qsorted (l_sort_func l) (tl (Rs ! b))" using m b by (cases "Rs ! b") (auto simp: merging_def)
  with m b cb show ?thesis unfolding merging_def rows by (auto simp: nth_list_update)
qed

text \<open>The contract of the comparisons of rows: a linear order that answers 0 for identical rows only and
  has the row of zero bytes as its least element.\<close>

locale row_order = total_comparator cmp for cmp :: "'r \<Rightarrow> 'r \<Rightarrow> int" +
  fixes zrow :: 'r
  assumes cmp_zero: "cmp a b = 0 \<Longrightarrow> a = b"
    and zrow_least: "cmp zrow a \<le> 0"
begin

text \<open>The chunk that the loop chooses has a least row at its head.\<close>

lemma best_chunk_ok:
  assumes m: "merging l pos Rs" and f: "l_sort_func l = cmp" and cs: "set cs \<subseteq> {..<l_chunks l}"
    and best: "\<And>b. best_c = Some b \<Longrightarrow> b < l_chunks l \<and> Rs ! b \<noteq> []"
  shows "\<exists>r. best_chunk l pos cs best_c = Some r \<and>
    (case r of None \<Rightarrow> best_c = None \<and> (\<forall>c \<in> set cs. Rs ! c = [])
     | Some b \<Rightarrow> b < l_chunks l \<and> Rs ! b \<noteq> [] \<and> (\<forall>c \<in> set cs \<union> set_option best_c. Rs ! c \<noteq> [] \<longrightarrow> cmp (hd (Rs ! b)) (hd (Rs ! c)) \<le> 0))"
  using cs best
proof (induction cs arbitrary: best_c)
  case Nil
  have "cmp a a \<le> 0" for a using cmp_total [of a a] by simp
  with Nil show ?case by (cases best_c) auto
next
  case (Cons c cs)
  then have c: "c < l_chunks l" by simp
  show ?case
  proof (cases "Rs ! c = []")
    case True
    then have "best_chunk l pos (c # cs) best_c = best_chunk l pos cs best_c" using merging_chunk(1) [OF m c] by simp
    with Cons.IH [of best_c] Cons.prems True show ?thesis by (auto split: option.splits)
  next
    case False
    note rc = merging_chunk(2) [OF m c False] and ne = merging_chunk(1) [OF m c]
    show ?thesis
    proof (cases best_c)
      case None
      then have "best_chunk l pos (c # cs) best_c = best_chunk l pos cs (Some c)" using ne False by simp
      with Cons.IH [of "Some c"] Cons.prems False c None show ?thesis by (auto split: option.splits)
    next
      case (Some b)
      then have b: "b < l_chunks l" "Rs ! b \<noteq> []" using Cons.prems(2) by auto
      define nb where "nb = (if cmp (hd (Rs ! c)) (hd (Rs ! b)) < 0 then c else b)"
      have nb: "nb < l_chunks l" "Rs ! nb \<noteq> []" using b c False by (simp_all add: nb_def)
      have eq: "best_chunk l pos (c # cs) best_c = best_chunk l pos cs (Some nb)"
        using ne False rc merging_chunk(2) [OF m b] f Some by (simp add: nb_def)
      have le: "cmp (hd (Rs ! nb)) (hd (Rs ! c)) \<le> 0" "cmp (hd (Rs ! nb)) (hd (Rs ! b)) \<le> 0"
        using cmp_total [of "hd (Rs ! b)" "hd (Rs ! c)"] cmp_total [of "hd (Rs ! b)" "hd (Rs ! b)"] cmp_total [of "hd (Rs ! c)" "hd (Rs ! c)"]
          cmp_zero [of "hd (Rs ! c)" "hd (Rs ! b)"] unfolding nb_def by force+
      obtain b' where r: "best_chunk l pos cs (Some nb) = Some (Some b')" and b': "b' < l_chunks l" "Rs ! b' \<noteq> []"
        and all: "\<And>d. d \<in> set cs \<Longrightarrow> Rs ! d \<noteq> [] \<Longrightarrow> cmp (hd (Rs ! b')) (hd (Rs ! d)) \<le> 0"
        and lb: "cmp (hd (Rs ! b')) (hd (Rs ! nb)) \<le> 0"
        using Cons.IH [of "Some nb"] Cons.prems(1) nb by (auto split: option.split_asm)
      have "cmp (hd (Rs ! b')) (hd (Rs ! c)) \<le> 0" "cmp (hd (Rs ! b')) (hd (Rs ! b)) \<le> 0" using cmp_trans [OF lb] le by blast+
      with eq r b' all Some show ?thesis by auto
    qed
  qed
qed

text \<open>One call: the least remaining row that differs from the last one.\<close>

lemma mset_concat_tl:
  assumes "b < length Rs" and "Rs ! b = x # xs"
  shows "mset (concat Rs) = add_mset x (mset (concat (Rs[b := xs])))"
proof -
  have "Rs = take b Rs @ (x # xs) # drop (Suc b) Rs" using assms by (metis id_take_nth_drop)
  then have "mset (concat Rs) = mset (concat (take b Rs)) + mset (x # xs) + mset (concat (drop (Suc b) Rs))"
    by (metis concat.simps(2) concat_append mset_append union_assoc)
  moreover have "concat (Rs[b := xs]) = concat (take b Rs) @ xs @ concat (drop (Suc b) Rs)"
    using assms(1) by (simp add: upd_conv_take_nth_drop)
  ultimately show ?thesis by simp
qed

lemma least_sorted:
  assumes b: "b < length Rs" "Rs ! b = x # xs" and srt: "\<And>c. c < length Rs \<Longrightarrow> qsorted cmp (Rs ! c)"
    and least: "\<And>c. c < length Rs \<Longrightarrow> Rs ! c \<noteq> [] \<Longrightarrow> cmp x (hd (Rs ! c)) \<le> 0"
  shows "qsort cmp (concat Rs) = x # qsort cmp (concat (Rs[b := xs]))"
proof (rule sym, rule qsort_unique)
  have all: "cmp x y \<le> 0" if "c < length Rs" "y \<in> set (Rs ! c)" for c y
  proof (cases "Rs ! c")
    case (Cons z zs)
    then have "cmp x z \<le> 0" using least [OF that(1)] by simp
    moreover have "cmp z y \<le> 0" using srt [OF that(1)] that(2) Cons cmp_total [of z z] by auto
    ultimately show ?thesis by (rule cmp_trans)
  qed (use that in simp)
  have "cmp x y \<le> 0" if "y \<in> set (concat (Rs[b := xs]))" for y
  proof -
    from that mset_concat_tl [OF b] have "y \<in> set (concat Rs)" by (metis add_mset_add_single set_mset_mset union_iff)
    then obtain zs where "zs \<in> set Rs" "y \<in> set zs" by auto
    then obtain c where "c < length Rs" "y \<in> set (Rs ! c)" by (metis in_set_conv_nth)
    then show ?thesis by (rule all)
  qed
  then show "qsorted cmp (x # qsort cmp (concat (Rs[b := xs])))" by (simp add: qsorted_qsort)
  show "mset (x # qsort cmp (concat (Rs[b := xs]))) = mset (concat Rs)" using mset_concat_tl [OF b] by simp
qed

lemma sort_again_ok:
  assumes "merging l pos Rs" and "l_sort_func l = cmp"
  shows "\<exists>l'. sort_again l = Some (case skip_equal (l_last l) (qsort cmp (concat Rs)) of
       [] \<Rightarrow> (0, None, l') | x # xs \<Rightarrow> (1, Some x, l'))
     \<and> l_sort_func l' = cmp \<and> l_sort l' = l_sort l
     \<and> (case skip_equal (l_last l) (qsort cmp (concat Rs)) of
          [] \<Rightarrow> l_chunk_pos l' = None
        | x # xs \<Rightarrow> l_last l' = x \<and> (\<exists>pos' Rs'. merging l' pos' Rs' \<and> skip_equal x (qsort cmp (concat Rs')) = xs))"
  using assms
proof (induction "length (concat Rs)" arbitrary: l pos Rs rule: less_induct)
  case less
  have pos: "l_chunk_pos l = Some pos" and len: "length Rs = l_chunks l" using less.prems(1) by (simp_all add: merging_def)
  have sub: "set [0..<l_chunks l] \<subseteq> {..<l_chunks l}" by auto
  from best_chunk_ok [OF less.prems sub, of None] obtain r where r: "best_chunk l pos [0..<l_chunks l] None = Some r" and
    cr: "case r of None \<Rightarrow> None = (None :: nat option) \<and> (\<forall>c \<in> set [0..<l_chunks l]. Rs ! c = [])
     | Some b \<Rightarrow> b < l_chunks l \<and> Rs ! b \<noteq> [] \<and> (\<forall>c \<in> set [0..<l_chunks l] \<union> set_option None. Rs ! c \<noteq> [] \<longrightarrow> cmp (hd (Rs ! b)) (hd (Rs ! c)) \<le> 0)"
    by blast
  have case_r: "case r of None \<Rightarrow> \<forall>c < l_chunks l. Rs ! c = []
      | Some b \<Rightarrow> b < l_chunks l \<and> Rs ! b \<noteq> [] \<and> (\<forall>c < l_chunks l. Rs ! c \<noteq> [] \<longrightarrow> cmp (hd (Rs ! b)) (hd (Rs ! c)) \<le> 0)"
    using cr by (cases r) auto
  show ?case
  proof (cases r)
    case None
    then have "concat Rs = []" using case_r len by (auto simp: in_set_conv_nth)
    then have "qsort cmp (concat Rs) = []" by (simp only: qsort_def foldr.simps id_apply)
    moreover have "sort_again l = Some (0, None, l\<lparr>l_chunk_pos := None\<rparr>)" using r None pos by (subst sort_again.simps) simp
    ultimately show ?thesis using less.prems(2) by simp
  next
    case (Some b)
    then obtain x xs where b: "b < l_chunks l" "Rs ! b = x # xs"
      and least: "\<And>c. c < l_chunks l \<Longrightarrow> Rs ! c \<noteq> [] \<Longrightarrow> cmp x (hd (Rs ! c)) \<le> 0"
      using case_r by (cases "Rs ! b") auto
    have row: "row_at l (pos ! b) = Some x" using merging_chunk(2) [OF less.prems(1) b(1)] b(2) by simp
    let ?pos = "pos[b := pos ! b + int (l_width l)]"
    let ?Rs = "Rs[b := xs]"
    have srt: "c < length Rs \<Longrightarrow> qsorted cmp (Rs ! c)" for c using less.prems len unfolding merging_def by metis
    have q: "qsort cmp (concat Rs) = x # qsort cmp (concat ?Rs)"
      by (rule least_sorted) (use b len srt least in auto)
    have adv: "merging (l\<lparr>l_chunk_pos := Some ?pos, l_count := l_count l + 1, l_last := z\<rparr>) ?pos ?Rs" for z
      using merging_advance [OF less.prems(1) b(1)] b(2) by simp
    show ?thesis
    proof (cases "l_last l = x")
      case True
      let ?l = "l\<lparr>l_chunk_pos := Some ?pos, l_count := l_count l + 1\<rparr>"
      have same: "?l\<lparr>l_last := l_last l\<rparr> = ?l" by simp
      have step: "sort_again l = sort_again ?l" using r Some pos row True by (subst sort_again.simps) simp
      have "length (concat ?Rs) < length (concat Rs)"
        using mset_concat_tl [of b Rs x xs] b len by (metis impossible_Cons less_le_not_le mset_eq_length mset.simps(2) not_less)
      moreover have "merging ?l ?pos ?Rs" using adv [of x] by (simp only: merging_last)
      ultimately have "\<exists>l'. sort_again ?l = Some (case skip_equal (l_last ?l) (qsort cmp (concat ?Rs)) of
           [] \<Rightarrow> (0, None, l') | x # xs \<Rightarrow> (1, Some x, l'))
         \<and> l_sort_func l' = cmp \<and> l_sort l' = l_sort ?l
         \<and> (case skip_equal (l_last ?l) (qsort cmp (concat ?Rs)) of
              [] \<Rightarrow> l_chunk_pos l' = None
            | x # xs \<Rightarrow> l_last l' = x \<and> (\<exists>pos' Rs'. merging l' pos' Rs' \<and> skip_equal x (qsort cmp (concat Rs')) = xs))"
        using less.prems(2) by (intro less.hyps) simp_all
      then show ?thesis unfolding step q using True by simp
    next
      case False
      have "sort_again l = Some (1, Some x, l\<lparr>l_chunk_pos := Some ?pos, l_count := l_count l + 1, l_last := x\<rparr>)"
        using r Some pos row False by (subst sort_again.simps) simp
      then show ?thesis unfolding q using False adv [of x] less.prems(2) by auto
    qed
  qed
qed

lemma read_sorted_merging:
  assumes "merging l pos Rs" and "l_sort_func l = cmp" and "l_sort l \<noteq> Unsorted"
  shows "\<exists>l'. read_sorted zrow l = Some (skip_equal (l_last l) (qsort cmp (concat Rs)), l') \<and> l_chunk_pos l' = None"
  using assms
proof (induction "skip_equal (l_last l) (qsort cmp (concat Rs))" arbitrary: l pos Rs)
  case Nil
  have "fs_list_next_sort_uniqed zrow l = sort_again l"
    using Nil.prems by (auto simp: fs_list_next_sort_uniqed_def merging_def split: sort_state.split)
  with sort_again_ok [OF Nil.prems(1,2)] Nil.hyps show ?case by (subst read_sorted.simps) (auto simp flip: Nil.hyps)
next
  case (Cons x xs)
  have n: "fs_list_next_sort_uniqed zrow l = sort_again l"
    using Cons.prems by (auto simp: fs_list_next_sort_uniqed_def merging_def split: sort_state.split)
  from sort_again_ok [OF Cons.prems(1,2)] obtain l1 pos' Rs' where l1: "sort_again l = Some (1, Some x, l1)" "l_sort_func l1 = cmp"
    "l_sort l1 = l_sort l" "l_last l1 = x" "merging l1 pos' Rs'" "skip_equal x (qsort cmp (concat Rs')) = xs"
    unfolding Cons.hyps(2) [symmetric] by auto
  have "\<exists>l'. read_sorted zrow l1 = Some (xs, l') \<and> l_chunk_pos l' = None"
    using Cons.hyps(1) [of l1 Rs' pos'] l1 Cons.prems(3) by simp
  then show ?case unfolding Cons.hyps(2) [symmetric] using n l1(1) by (subst read_sorted.simps) auto
qed

text \<open>Reading a sorted list without repetitions and without the zero row.\<close>

lemma skip_equal_sorted:
  "qsorted cmp xs \<Longrightarrow> (\<And>x. x \<in> set xs \<Longrightarrow> cmp z x \<le> 0) \<Longrightarrow>
    qsorted cmp (skip_equal z xs) \<and> distinct (skip_equal z xs) \<and> set (skip_equal z xs) = set xs - {z}"
proof (induction z xs rule: skip_equal.induct)
  case (2 z x xs)
  show ?case
  proof (cases "x = z")
    case True
    with 2 show ?thesis by auto
  next
    case False
    have IH: "qsorted cmp (skip_equal x xs) \<and> distinct (skip_equal x xs) \<and> set (skip_equal x xs) = set xs - {x}"
      using 2(2) [OF False] 2(3) by simp
    moreover have "z \<notin> set xs"
    proof
      assume "z \<in> set xs"
      with 2(3) have "cmp x z \<le> 0" by simp
      moreover have "cmp z x \<le> 0" using 2(4) by simp
      ultimately show False using False cmp_antisym by blast
    qed
    ultimately show ?thesis using False 2(3) by auto
  qed
qed simp

end

text \<open>The initial positions, for less than \<open>2 ^ 31\<close> bytes.\<close>

lemma int32_id: "- 2147483648 \<le> i \<Longrightarrow> i < 2147483648 \<Longrightarrow> int32 i = i"
  by (simp add: int32_def)


lemma init_chunks_ok:
  assumes w: "0 < l_width l" and C: "CHUNK_SIZE = l_width l * k" and lim: "l_offset l * l_width l < 2147483648"
  defines "m \<equiv> l_offset l * l_width l div CHUNK_SIZE"
  shows "init_chunks zrow l = Some (l\<lparr>l_count := 0, l_chunks := Suc m,
    l_chunk_pos := Some (map (\<lambda>c. int c * int CHUNK_SIZE) [0..<Suc m]),
    l_chunk_end := map (\<lambda>c. (int c + 1) * int CHUNK_SIZE) [0..<m] @ [int (l_offset l) * int (l_width l)], l_last := zrow\<rparr>)"
proof -
  let ?C = "int CHUNK_SIZE" and ?w = "int (l_width l)" and ?N = "int (l_offset l) * int (l_width l)"
  let ?f = "\<lambda>p e. if e \<ge> p then (e - p) div ?w else - ((p - e) div ?w)"
  have mC: "m * CHUNK_SIZE \<le> l_offset l * l_width l" unfolding m_def by simp
  then have mC': "int m * ?C \<le> ?N" using of_nat_mono [OF mC, where 'a = int] by simp
  have N: "?N < 2147483648" using lim by (simp flip: of_nat_mult)
  have id: "int32 (int c * ?C) = int c * ?C" if "c \<le> m" for c
  proof (rule int32_id)
    have "int c * ?C \<le> int m * ?C" using that by (intro mult_right_mono) auto
    with mC' N show "int c * ?C < 2147483648" by linarith
    have "0 \<le> int c * ?C" by simp
    then show "- 2147483648 \<le> int c * ?C" by linarith
  qed
  have pos: "map (\<lambda>c. int32 (int c * ?C)) [0..<Suc m] = map (\<lambda>c. int c * ?C) [0..<Suc m]"
    by (rule map_cong [OF refl], rule id) auto
  have "int32 ((int c + 1) * ?C) = (int c + 1) * ?C" if "c < m" for c
    using id [of "Suc c"] that by (simp add: add.commute)
  then have "map (\<lambda>c. int32 ((int c + 1) * ?C)) [0..<m] = map (\<lambda>c. (int c + 1) * ?C) [0..<m]" by simp
  then have en: "(map (\<lambda>c. int32 ((int c + 1) * ?C)) [0..<Suc m])[Suc m - 1 := ?N] = map (\<lambda>c. (int c + 1) * ?C) [0..<m] @ [?N]"
    by (simp add: list_update_append)
  have Ck: "?C = ?w * int k" using C by (metis of_nat_mult)
  have one: "?f (int c * ?C) ((int c + 1) * ?C) = int k" for c
  proof -
    have "(int c + 1) * ?C - int c * ?C = ?w * int k" unfolding Ck by (simp add: algebra_simps)
    moreover have "int c * ?C \<le> (int c + 1) * ?C" by (intro mult_right_mono) auto
    ultimately show ?thesis using w by simp
  qed
  have last: "?f (int m * ?C) ?N = int (l_offset l) - int m * int k"
  proof -
    have "?N - int m * ?C = ?w * (int (l_offset l) - int m * int k)" unfolding Ck by (simp add: algebra_simps)
    then have "(?N - int m * ?C) div ?w = int (l_offset l) - int m * int k" using w by simp
    then show ?thesis using mC' by simp
  qed
  have "map2 ?f (map (\<lambda>c. int c * ?C) [0..<m]) (map (\<lambda>c. (int c + 1) * ?C) [0..<m]) = replicate m (int k)"
    by (rule nth_equalityI) (simp_all add: one)
  then have "sum_list (map2 ?f (map (\<lambda>c. int c * ?C) [0..<Suc m]) (map (\<lambda>c. (int c + 1) * ?C) [0..<m] @ [?N])) = int (l_offset l)"
    using last by (simp add: sum_list_replicate)
  then show ?thesis unfolding init_chunks_def Let_def m_def [symmetric] by (simp only: Suc_eq_plus1 [symmetric] pos en) simp
qed

lemma concat_chunks: "concat (map (\<lambda>c. take k (drop (c * k) xs)) [0..<n]) = take (n * k) xs"
proof (induction n)
  case (Suc n)
  then show ?case using take_add [of "n * k" k xs] by (simp add: add.commute [of k])
qed simp

lemma initial_merging:
  assumes w: "0 < l_width l" and C: "CHUNK_SIZE = l_width l * k" and lim: "l_offset l * l_width l < 2147483648"
    and off: "l_offset l = length (l_file l)"
    and srt: "\<And>c. qsorted (l_sort_func l) (take k (drop (c * k) (l_file l)))"
  shows "\<exists>l1 pos Rs. init_chunks zrow l = Some l1 \<and> merging l1 pos Rs \<and> concat Rs = l_file l
    \<and> l_last l1 = zrow \<and> l_sort_func l1 = l_sort_func l \<and> l_sort l1 = l_sort l"
proof -
  define m where "m = l_offset l * l_width l div CHUNK_SIZE"
  let ?w = "int (l_width l)"
  let ?pos = "map (\<lambda>c. int c * int CHUNK_SIZE) [0..<Suc m]"
  let ?en = "map (\<lambda>c. (int c + 1) * int CHUNK_SIZE) [0..<m] @ [int (l_offset l) * ?w]"
  let ?l1 = "l\<lparr>l_count := 0, l_chunks := Suc m, l_chunk_pos := Some ?pos, l_chunk_end := ?en, l_last := zrow\<rparr>"
  let ?Rs = "map (\<lambda>c. take k (drop (c * k) (l_file l))) [0..<Suc m]"
  have k: "0 < k" using C by (cases k) (simp_all add: CHUNK_SIZE_def)
  have md: "m = l_offset l div k" unfolding m_def C using w by (simp add: mult.commute)
  have hi: "l_offset l < Suc m * k" and lo: "m * k \<le> l_offset l"
    unfolding md using k by (simp_all add: dividend_less_div_times add.commute)
  have init: "init_chunks zrow l = Some ?l1" using init_chunks_ok [OF w C lim, of zrow] unfolding m_def by simp
  have pos_div: "nat (int c * int CHUNK_SIZE div ?w) = c * k" for c
  proof -
    have "int c * int CHUNK_SIZE = ?w * int (c * k)" unfolding C by simp
    then show ?thesis using w by (metis nat_int nonzero_mult_div_cancel_left of_nat_0_less_iff order_less_irrefl)
  qed
  have rows: "take k (drop (c * k) (l_file l)) = chunk_rows ?l1 (?pos ! c) (?en ! c)" if "c < Suc m" for c
  proof (cases "c = m")
    case True
    have "nat (int (l_offset l) * ?w div ?w) = l_offset l" using w by simp
    then have "chunk_rows ?l1 (?pos ! c) (?en ! c) = take (l_offset l - m * k) (drop (m * k) (l_file l))"
      using True pos_div [of m] by (simp add: chunk_rows_def nth_append)
    then show ?thesis using True hi off by simp
  next
    case False
    with that have c: "c < m" by simp
    then have "chunk_rows ?l1 (?pos ! c) (?en ! c) = take (Suc c * k - c * k) (drop (c * k) (l_file l))"
      using pos_div [of c] pos_div [of "Suc c"] by (simp add: chunk_rows_def nth_append add.commute)
    then show ?thesis by simp
  qed
  have Ck: "int CHUNK_SIZE = ?w * int k" using C by (metis of_nat_mult)
  have bound: "0 \<le> ?pos ! c \<and> ?pos ! c \<le> ?en ! c \<and> ?w dvd ?pos ! c \<and> ?w dvd ?en ! c \<and> ?en ! c \<le> int (l_offset l) * ?w" if "c < Suc m" for c
  proof (cases "c = m")
    case True
    have "int (m * k) * ?w \<le> int (l_offset l) * ?w" using lo by (intro mult_right_mono) linarith+
    then show ?thesis unfolding Ck using True by (simp add: nth_append algebra_simps)
  next
    case False
    with that have c: "c < m" by simp
    have "Suc c * k \<le> m * k" using c by (intro mult_right_mono) auto
    with lo have "int (Suc c * k) * ?w \<le> int (l_offset l) * ?w" by (intro mult_right_mono) linarith+
    then show ?thesis unfolding Ck using c by (simp add: nth_append algebra_simps)
  qed
  have "merging ?l1 ?pos ?Rs"
    unfolding merging_def
  proof (intro conjI allI impI)
    fix c assume "c < l_chunks ?l1"
    then have c: "c < Suc m" by simp
    note b = bound [OF c]
    show "0 \<le> ?pos ! c" "?pos ! c \<le> l_chunk_end ?l1 ! c" "int (l_width ?l1) dvd ?pos ! c" "int (l_width ?l1) dvd l_chunk_end ?l1 ! c"
      "l_chunk_end ?l1 ! c \<le> int (l_offset ?l1) * int (l_width ?l1)"
      using b by (simp_all del: upt_Suc)
    have R: "?Rs ! c = take k (drop (c * k) (l_file l))" using c by (simp del: upt_Suc)
    show "?Rs ! c = chunk_rows ?l1 (?pos ! c) (l_chunk_end ?l1 ! c)" unfolding R using rows [OF c] by simp
    show "qsorted (l_sort_func ?l1) (?Rs ! c)" unfolding R using srt [of c] by simp
  qed (use w off in simp_all)
  moreover have "concat ?Rs = l_file l" using hi off by (simp only: concat_chunks) simp
  ultimately show ?thesis using init by (intro exI [of _ ?l1] exI [of _ ?pos] exI [of _ ?Rs]) simp
qed

context row_order
begin

lemma read_back_ok:
  assumes ok: "list_ok l" and np: "l_chunk_pos l = None" and lim: "length (l_elems l) * l_width l < 2147483648"
    and rows: "length (l_elems l) + CHUNK_SIZE div l_width l < 2147483648"
  shows "\<exists>l' xs l''. fs_list_sort_chunked l cmp = Some (0, l') \<and> read_sorted zrow l' = Some (xs, l'')
    \<and> qsorted cmp xs \<and> distinct xs \<and> set xs = set (l_elems l) - {zrow}"
proof -
  let ?k = "CHUNK_SIZE div l_width l"
  obtain l' where l': "fs_list_sort_chunked l cmp = Some (0, l')" "list_ok l'" "l_width l' = l_width l" "l_sort_func l' = cmp"
    "l_sort l' \<noteq> Unsorted" "l_chunk_pos l' = None" "l_file l' = chunk_sorted cmp ?k (l_elems l)"
    using sort_chunked_ok [OF ok rows, of cmp] np by auto
  have w: "0 < l_width l'" using list_width(1) [OF ok] l'(3) by simp
  have k: "0 < ?k" by (rule list_width(2) [OF ok])
  have C: "CHUNK_SIZE = l_width l' * ?k" using ok l'(3) by (auto simp: list_ok_def)
  have off: "l_offset l' = length (l_file l')" using l'(2) by (simp add: list_ok_def)
  have srt: "qsorted (l_sort_func l') (take ?k (drop (c * ?k) (l_file l')))" for c
    unfolding l'(4,7) chunk_of_sorted [OF k] by (rule qsorted_qsort)
  have lim': "l_offset l' * l_width l' < 2147483648" using lim off l'(3,7) by simp
  obtain l1 pos Rs where l1: "init_chunks zrow l' = Some l1" "merging l1 pos Rs" "concat Rs = l_file l'" "l_last l1 = zrow"
    "l_sort_func l1 = cmp" "l_sort l1 = l_sort l'"
    using initial_merging [OF w C lim' off srt, of zrow] l'(4) by auto
  have np1: "l_chunk_pos l1 = Some pos" using l1(2) by (simp add: merging_def)
  have "fs_list_next_sort_uniqed zrow l' = fs_list_next_sort_uniqed zrow l1"
    using l'(5,6) l1(1,6) np1 by (auto simp: fs_list_next_sort_uniqed_def split: sort_state.split)
  then have "read_sorted zrow l' = read_sorted zrow l1" by (simp only: read_sorted.simps [of zrow l'] read_sorted.simps [of zrow l1])
  moreover have "l_sort l1 \<noteq> Unsorted" using l'(5) l1(6) by simp
  ultimately obtain l'' where rs: "read_sorted zrow l' = Some (skip_equal zrow (qsort cmp (l_file l')), l'')"
    using read_sorted_merging [OF l1(2,5)] l1(3,4) by auto
  have "set (l_file l') = set (l_elems l)" using mset_chunk_sorted [of cmp ?k "l_elems l"] l'(7) mset_eq_setD by metis
  then show ?thesis using l'(1) rs skip_equal_sorted [OF qsorted_qsort, where z = zrow] zrow_least by auto
qed

end

section \<open>The orders of quads\<close>

interpretation mspo: row_order quad_sort_by_mspo "(0, 0, 0, 0)"
  by unfold_locales (auto simp: quad_sort_defs split: if_split_asm)

interpretation psmo: row_order quad_sort_by_psmo "(0, 0, 0, 0)"
  by unfold_locales (auto simp: quad_sort_defs split: if_split_asm)

interpretation poms: row_order quad_sort_by_poms "(0, 0, 0, 0)"
  by unfold_locales (auto simp: quad_sort_defs split: if_split_asm)

section \<open>Properties\<close>


definition sample_list :: "quad fs_list" where
  "sample_list = the (fs_list_create (0, 0, 0, 0) 32)"

lemma sample_list_ok: "list_ok sample_list" "l_elems sample_list = []" "l_width sample_list = 32" "l_chunk_pos sample_list = None"
  by (simp_all add: sample_list_def fs_list_open_def CHUNK_SIZE_def list_ok_def l_elems_def)


text \<open>
  C28: Sorting a list of quads in chunks and reading it back merged ends, and gives every row once, in
  the order of the comparison, as long as the list has less than \<open>2 ^ 31\<close> bytes; the row of zeros is
  left out.
\<close>

theorem list_sort_uniq:
  assumes "list_ok l" and "l_chunk_pos l = None" and "length (l_elems l) * l_width l < 2147483648"
    and "length (l_elems l) + CHUNK_SIZE div l_width l < 2147483648"
    and "cmp \<in> {quad_sort_by_mspo, quad_sort_by_psmo, quad_sort_by_poms}"
  shows "\<exists>l' xs l''. fs_list_sort_chunked l cmp = Some (0, l') \<and> read_sorted (0, 0, 0, 0) l' = Some (xs, l'')
    \<and> qsorted cmp xs \<and> distinct xs \<and> set xs = set (l_elems l) - {(0, 0, 0, 0)}"
  using assms(5) mspo.read_back_ok [OF assms(1-4)] psmo.read_back_ok [OF assms(1-4)] poms.read_back_ok [OF assms(1-4)] by auto

theorem list_sort_uniq_witness:
  "\<exists>l0 l' xs l''. fs_list_add (Some sample_list) (1, 2, 3, 4) = Some (0, Some l0) \<and> fs_list_sort_chunked l0 quad_sort_by_psmo = Some (0, l')
    \<and> read_sorted (0, 0, 0, 0) l' = Some (xs, l'') \<and> set xs = {(1, 2, 3, 4)}"
proof -
  obtain l0 where l0: "fs_list_add (Some sample_list) (1, 2, 3, 4) = Some (0, Some l0)" "list_ok l0" "l_elems l0 = [(1, 2, 3, 4)]"
    "l_width l0 = 32" "l_chunk_pos l0 = None"
    using list_add_ok [OF sample_list_ok(1), of "(1, 2, 3, 4)"] sample_list_ok by auto
  have "length (l_elems l0) * l_width l0 < 2147483648" "length (l_elems l0) + CHUNK_SIZE div l_width l0 < 2147483648"
    using l0(3,4) by (simp_all add: CHUNK_SIZE_def)
  from list_sort_uniq [OF l0(2,5) this, of quad_sort_by_psmo] l0 show ?thesis by auto
qed

section \<open>Long lists\<close>

lemma best_chunk_outside:
  assumes "c \<in> set cs" and "pos ! c < 0" and "pos ! c < l_chunk_end l ! c"
  shows "best_chunk l pos cs (Some b) = None"
  using assms(1)
proof (induction cs arbitrary: b)
  case (Cons d cs)
  have r: "row_at l (pos ! c) = None" using assms(2) by (simp add: row_at_def)
  show ?case
  proof (cases "d = c")
    case True
    then show ?thesis using r assms(3) by simp
  next
    case False
    then have "best_chunk l pos cs b' = None" if "b' \<noteq> None" for b' using Cons that by (cases b') auto
    then show ?thesis by (auto split: option.split bind_split)
  qed
qed simp

lemma long_list_chunks:
  assumes "2147483648 \<le> l_offset l * l_width l" and "init_chunks zrow l = Some l1"
  shows "\<exists>pos. l_chunk_pos l1 = Some pos \<and> 4 < l_chunks l1 \<and> pos ! 0 < l_chunk_end l1 ! 0 \<and> pos ! 4 < 0 \<and> pos ! 4 < l_chunk_end l1 ! 4"
proof -
  let ?n = "l_offset l * l_width l div CHUNK_SIZE + 1"
  let ?pos = "map (\<lambda>c. int32 (int c * int CHUNK_SIZE)) [0..<?n]"
  let ?en = "(map (\<lambda>c. int32 ((int c + 1) * int CHUNK_SIZE)) [0..<?n])[?n - 1 := int (l_offset l) * int (l_width l)]"
  have l1: "l_chunk_pos l1 = Some ?pos" "l_chunks l1 = ?n" "l_chunk_end l1 = ?en"
    using assms(2) by (auto simp: init_chunks_def Let_def split: if_split_asm)
  have "2147483648 div CHUNK_SIZE \<le> l_offset l * l_width l div CHUNK_SIZE" by (rule div_le_mono [OF assms(1)])
  then have n: "4 < ?n" by (simp add: CHUNK_SIZE_def)
  have "0 < l_offset l * l_width l" using assms(1) by linarith
  then have N: "0 < int (l_offset l) * int (l_width l)" by simp
  have c: "int32 (4 * int CHUNK_SIZE) = - 2147483648" "int32 (5 * int CHUNK_SIZE) = - 1610612736" "int32 0 = 0" "int32 (int CHUNK_SIZE) = 536870912"
    by (simp_all add: int32_def CHUNK_SIZE_def)
  have "?pos ! 4 = int32 (4 * int CHUNK_SIZE)" "?pos ! 0 = int32 0" using n by (simp_all del: upt_Suc)
  moreover have "?en ! 4 = (if ?n - 1 = 4 then int (l_offset l) * int (l_width l) else int32 (5 * int CHUNK_SIZE))"
    using n by (simp add: nth_list_update del: upt_Suc)
  moreover have "?en ! 0 = int32 (int CHUNK_SIZE)" using n by (simp add: nth_list_update del: upt_Suc)
  ultimately show ?thesis unfolding l1 using n c N by (intro exI [of _ ?pos]) auto
qed

text \<open>
  C40: Reading back a sorted list of \<open>2 ^ 31\<close> bytes or more fails at once: the positions of the fifth
  chunk wrap around, so that either the mapping is read outside its bounds or the call returns success
  without a row.
\<close>

theorem long_list_fails:
  assumes "2147483648 \<le> l_offset l * l_width l" and "l_sort l \<noteq> Unsorted" and "l_chunk_pos l = None"
  shows "fs_list_next_sort_uniqed zrow l = None \<or> fs_list_next_sort_uniqed zrow l = Some (1, None, l)"
proof (cases "init_chunks zrow l")
  case None
  then show ?thesis using assms by (auto simp: fs_list_next_sort_uniqed_def split: sort_state.split)
next
  case (Some l1)
  from long_list_chunks [OF assms(1) Some] obtain pos where pos: "l_chunk_pos l1 = Some pos" "4 < l_chunks l1"
    "pos ! 0 < l_chunk_end l1 ! 0" "pos ! 4 < 0" "pos ! 4 < l_chunk_end l1 ! 4" by blast
  have "[0..<l_chunks l1] = 0 # [1..<l_chunks l1]" using pos(2) by (simp add: upt_conv_Cons)
  then have "best_chunk l1 pos [0..<l_chunks l1] None = best_chunk l1 pos [1..<l_chunks l1] (Some 0)" using pos(3) by simp
  also have "\<dots> = None" by (rule best_chunk_outside [of 4]) (use pos in auto)
  finally have "sort_again l1 = None" using pos(1) by (subst sort_again.simps) simp
  then show ?thesis using Some assms by (auto simp: fs_list_next_sort_uniqed_def split: sort_state.split)
qed

theorem long_list_fails_witness:
  "fs_list_next_sort_uniqed (0, 0, 0, 0) (sample_list\<lparr>l_offset := 67108864, l_sort := Chunk_sorted\<rparr>) \<in>
    {None, Some (1, None, sample_list\<lparr>l_offset := 67108864, l_sort := Chunk_sorted\<rparr>)}"
  using long_list_fails [of "sample_list\<lparr>l_offset := 67108864, l_sort := Chunk_sorted\<rparr>" "(0, 0, 0, 0)"] sample_list_ok by simp

end
