(* ===== verification/Mhash.thy ===== *)
theory Mhash
  imports RidVector
begin

text \<open>
  The model hash (\<open>src/src/backend/mhash.c\<close>): a file of entries that maps the identifier of a graph
  to the number of its chain of triples, with linear probing over a bounded distance and doubling of
  the table.  The file is the list of its entries; reading past its end leaves the buffer as it was
  and writing past its end fills the gap with zeros.  Failing system calls, locks, printing, the
  consistency check and opening an existing file are left out.
\<close>

section \<open>Entries and the file\<close>

record mh_entry =
  me_rid :: rid
  me_val :: nat

record mhash =
  mh_size :: nat
  mh_count :: int
  mh_dist :: nat
  mh_file :: "mh_entry list"

definition FS_MHASH_DEFAULT_LENGTH :: nat where "FS_MHASH_DEFAULT_LENGTH = 4096"
definition FS_MHASH_DEFAULT_SEARCH_DIST :: nat where "FS_MHASH_DEFAULT_SEARCH_DIST = 16"

definition blank :: mh_entry where "blank = \<lparr>me_rid = 0, me_val = 0\<rparr>"

text \<open>\<open>pread\<close> into a buffer that holds \<open>e\<close>, and \<open>pwrite\<close>.\<close>

definition mh_read :: "mhash \<Rightarrow> nat \<Rightarrow> mh_entry \<Rightarrow> mh_entry" where
  "mh_read mh i e = (if i < length (mh_file mh) then mh_file mh ! i else e)"

definition mh_write :: "mhash \<Rightarrow> nat \<Rightarrow> mh_entry \<Rightarrow> mhash" where
  "mh_write mh i e =
     mh\<lparr>mh_file := (mh_file mh @ replicate (Suc i - length (mh_file mh)) blank)[i := e]\<rparr>"

definition FS_MHASH_ENTRY :: "nat \<Rightarrow> rid \<Rightarrow> nat" where
  "FS_MHASH_ENTRY sz r = unat (drop_bit 10 r) AND (sz - 1)"

text \<open>What \<open>fs_mhash_open_filename\<close> makes of a new or truncated file.\<close>

definition fs_mhash_create :: mhash where
  "fs_mhash_create = \<lparr>mh_size = FS_MHASH_DEFAULT_LENGTH, mh_count = 0,
     mh_dist = FS_MHASH_DEFAULT_SEARCH_DIST, mh_file = []\<rparr>"

section \<open>Operations\<close>

text \<open>
  The loop of \<open>fs_mhash_put\<close>, with \<open>n\<close> steps left until \<open>i\<close> is the search distance: the position and
  the contents of the entry to write, or nothing when the table has to grow.
\<close>

fun put_scan :: "mhash \<Rightarrow> rid \<Rightarrow> nat \<Rightarrow> nat \<Rightarrow> nat option \<Rightarrow> (nat \<times> mh_entry) option" where
  "put_scan mh r n entry candidate =
     (let e = mh_read mh entry blank in
      if me_rid e = r then Some (entry, e)
      else
        let candidate = (if me_rid e = 0 \<and> candidate = None then Some entry else candidate) in
        if n = 0 \<or> entry = mh_size mh - 1 then map_option (\<lambda>c. (c, mh_read mh c e)) candidate
        else put_scan mh r (n - 1) (entry + 1) candidate)"

declare put_scan.simps [simp del]

text \<open>
  \<open>double_size\<close>.  Its buffer \<open>e\<close> is an automatic variable of the loop body, which keeps its contents
  between the turns; before the first turn they are arbitrary (\<open>junk\<close>).  A size that does not fit an
  \<open>int32_t\<close> is \<open>None\<close>.
\<close>

definition double_step :: "nat \<Rightarrow> nat \<Rightarrow> mh_entry \<times> mhash \<Rightarrow> mh_entry \<times> mhash" where
  "double_step oldsize i = (\<lambda>(e, mh).
     let e = mh_read mh i e in
     if me_rid e = 0 then (e, mh)
     else if FS_MHASH_ENTRY (mh_size mh) (me_rid e) \<ge> oldsize
     then (e, mh_write (mh_write mh i blank) (oldsize + i) e)
     else (e, mh))"

definition double_size :: "mh_entry \<Rightarrow> mhash \<Rightarrow> mhash option" where
  "double_size junk mh =
     (if mh_size mh * 2 \<ge> 2147483648 then None
      else let mh1 = mh\<lparr>mh_size := mh_size mh * 2, mh_dist := mh_dist mh * 2 + 1\<rparr>
           in Some (snd (fold (double_step (mh_size mh)) [0..<mh_size mh] (junk, mh1))))"

partial_function (option) fs_mhash_put :: "mh_entry \<Rightarrow> mhash \<Rightarrow> rid \<Rightarrow> nat \<Rightarrow> (int \<times> mhash) option" where
  "fs_mhash_put junk mh r val =
     (case put_scan mh r (mh_dist mh) (FS_MHASH_ENTRY (mh_size mh) r) None of
        None \<Rightarrow> do { mh1 \<leftarrow> double_size junk mh; fs_mhash_put junk mh1 r val }
      | Some (entry, e) \<Rightarrow>
          if me_rid e = r \<and> me_val e = val then Some (0, mh)
          else
            let mh1 = mh_write mh entry \<lparr>me_rid = r, me_val = val\<rparr>;
                d = (if val \<noteq> 0 then if me_val e = 0 then 1 else 0
                     else if me_val e \<noteq> 0 then - 1 else 0)
            in Some (0, mh1\<lparr>mh_count := mh_count mh1 + d\<rparr>))"

text \<open>The loop of \<open>fs_mhash_get_intl\<close> with \<open>n\<close> turns left.\<close>

fun get_scan :: "mhash \<Rightarrow> rid \<Rightarrow> nat \<Rightarrow> nat \<Rightarrow> mh_entry \<Rightarrow> nat" where
  "get_scan mh r 0 entry e = 0"
| "get_scan mh r (Suc n) entry e =
     (let e = mh_read mh entry e in
      if me_rid e = r then me_val e
      else let entry = (entry + 1) AND (mh_size mh - 1) in
        if entry = 0 then 0 else get_scan mh r n entry e)"

definition fs_mhash_get_intl :: "mhash \<Rightarrow> rid \<Rightarrow> nat" where
  "fs_mhash_get_intl mh r = get_scan mh r (mh_dist mh) (FS_MHASH_ENTRY (mh_size mh) r) blank"

definition fs_mhash_get :: "mhash \<Rightarrow> rid \<Rightarrow> nat" where
  "fs_mhash_get mh r = fs_mhash_get_intl mh r"

definition fs_mhash_get_keys :: "(nat \<Rightarrow> rid) \<Rightarrow> mhash option \<Rightarrow> rid_vector option option" where
  "fs_mhash_get_keys junk mho =
     (case mho of None \<Rightarrow> Some None
      | Some mh \<Rightarrow> map_option Some (append_each (fs_rid_vector_append junk) (fs_rid_vector_new 0)
          (map me_rid (filter (\<lambda>e. me_val e \<noteq> 0) (mh_file mh)))))"

definition fs_mhash_count :: "mhash \<Rightarrow> int" where
  "fs_mhash_count mh = mh_count mh"

section \<open>Invariant and abstraction\<close>

text \<open>The entry at a position, blank past the end of the file.\<close>

abbreviation slot_at :: "mhash \<Rightarrow> nat \<Rightarrow> mh_entry" where
  "slot_at mh i \<equiv> mh_read mh i blank"

definition mh_ok :: "mhash \<Rightarrow> bool" where
  "mh_ok mh \<longleftrightarrow>
     (\<exists>k. mh_size mh = 2 ^ k) \<and> 0 < mh_dist mh \<and> length (mh_file mh) \<le> mh_size mh
     \<and> (\<forall>i. me_rid (slot_at mh i) \<noteq> 0 \<longrightarrow>
          FS_MHASH_ENTRY (mh_size mh) (me_rid (slot_at mh i)) \<le> i
          \<and> i \<le> FS_MHASH_ENTRY (mh_size mh) (me_rid (slot_at mh i)) + mh_dist mh)
     \<and> (\<forall>i j. me_rid (slot_at mh i) \<noteq> 0 \<longrightarrow> me_rid (slot_at mh i) = me_rid (slot_at mh j) \<longrightarrow> i = j)
     \<and> (\<forall>i. me_rid (slot_at mh i) = 0 \<longrightarrow> me_val (slot_at mh i) = 0)
     \<and> mh_count mh = int (card {i. me_val (slot_at mh i) \<noteq> 0})"

text \<open>The value that the table holds for an identifier, 0 if it has none.\<close>

definition mh_map :: "mhash \<Rightarrow> rid \<Rightarrow> nat" where
  "mh_map mh r = (case find (\<lambda>e. me_rid e = r) (mh_file mh) of None \<Rightarrow> 0 | Some e \<Rightarrow> me_val e)"

text \<open>The entry lies at the search distance itself, which \<open>fs_mhash_put\<close> uses and \<open>fs_mhash_get\<close> does not
  look at.\<close>

definition at_limit :: "mhash \<Rightarrow> rid \<Rightarrow> bool" where
  "at_limit mh r \<longleftrightarrow> me_rid (slot_at mh (FS_MHASH_ENTRY (mh_size mh) r + mh_dist mh)) = r"

text \<open>The number of entries in use, removed ones included, and the number of positions that are
  searched for an identifier after \<open>d\<close> doublings.\<close>

definition mh_used :: "mhash \<Rightarrow> nat" where
  "mh_used mh = card {i. me_rid (slot_at mh i) \<noteq> 0}"

definition mh_room :: "mhash \<Rightarrow> rid \<Rightarrow> nat \<Rightarrow> bool" where
  "mh_room mh r d \<longleftrightarrow> mh_size mh * 2 ^ d < 2147483648
     \<and> mh_used mh < Suc (mh_dist mh) * 2 ^ d
     \<and> mh_used mh < mh_size mh * 2 ^ d - FS_MHASH_ENTRY (mh_size mh * 2 ^ d) r"

section \<open>Reading and writing\<close>

lemma slot_write: "slot_at (mh_write mh i e) j = (if j = i then e else slot_at mh j)"
  by (auto simp: mh_read_def mh_write_def nth_append nth_list_update)

lemma write_simps [simp]:
  "mh_size (mh_write mh i e) = mh_size mh" "mh_dist (mh_write mh i e) = mh_dist mh" "mh_count (mh_write mh i e) = mh_count mh"
  "length (mh_file (mh_write mh i e)) = max (length (mh_file mh)) (Suc i)"
  by (auto simp: mh_write_def)

lemma slot_count [simp]: "slot_at (mh\<lparr>mh_count := c\<rparr>) i = slot_at mh i"
  by (simp add: mh_read_def)

lemma blank_simps [simp]: "me_rid blank = 0" "me_val blank = 0"
  by (simp_all add: blank_def)

lemma slot_beyond: "length (mh_file mh) \<le> i \<Longrightarrow> slot_at mh i = blank"
  by (simp add: mh_read_def)

lemma slot_used: "me_rid (slot_at mh i) \<noteq> 0 \<Longrightarrow> i < length (mh_file mh)" "me_val (slot_at mh i) \<noteq> 0 \<Longrightarrow> i < length (mh_file mh)"
  by (auto simp: mh_read_def split: if_split_asm)

lemma slot_finite: "finite {i. me_rid (slot_at mh i) \<noteq> 0}" "finite {i. me_val (slot_at mh i) \<noteq> 0}"
  using slot_used by (auto intro: finite_subset [of _ "{..<length (mh_file mh)}"])

lemma and_pow2_mod: "(n::nat) AND (2 ^ k - 1) = n mod 2 ^ k"
  using take_bit_eq_mask [of k n] by (simp only: mask_eq_exp_minus_1 take_bit_eq_mod)

lemma entry_mod: "FS_MHASH_ENTRY (2 ^ k) r = unat (drop_bit 10 r) mod 2 ^ k"
  unfolding FS_MHASH_ENTRY_def by (rule and_pow2_mod)

lemma mh_okD:
  assumes "mh_ok mh"
  shows "\<exists>k. mh_size mh = 2 ^ k" "0 < mh_dist mh" "length (mh_file mh) \<le> mh_size mh"
    and "me_rid (slot_at mh i) \<noteq> 0 \<Longrightarrow> FS_MHASH_ENTRY (mh_size mh) (me_rid (slot_at mh i)) \<le> i"
    and "me_rid (slot_at mh i) \<noteq> 0 \<Longrightarrow> i \<le> FS_MHASH_ENTRY (mh_size mh) (me_rid (slot_at mh i)) + mh_dist mh"
    and "me_rid (slot_at mh i) \<noteq> 0 \<Longrightarrow> me_rid (slot_at mh i) = me_rid (slot_at mh j) \<Longrightarrow> i = j"
    and "me_rid (slot_at mh i) = 0 \<Longrightarrow> me_val (slot_at mh i) = 0"
    and "mh_count mh = int (card {i. me_val (slot_at mh i) \<noteq> 0})"
  using assms unfolding mh_ok_def by blast+

lemma entry_less: "mh_ok mh \<Longrightarrow> FS_MHASH_ENTRY (mh_size mh) r < mh_size mh"
  using mh_okD(1) [of mh] entry_mod by force

lemma mh_map_none: "(\<And>i. me_rid (slot_at mh i) \<noteq> r) \<Longrightarrow> mh_map mh r = 0"
proof -
  assume r: "\<And>i. me_rid (slot_at mh i) \<noteq> r"
  have "me_rid (mh_file mh ! i) \<noteq> r" if "i < length (mh_file mh)" for i
    using r [of i] that by (simp add: mh_read_def)
  then have "find (\<lambda>e. me_rid e = r) (mh_file mh) = None"
    by (auto simp: find_None_iff in_set_conv_nth)
  then show ?thesis by (simp add: mh_map_def)
qed

lemma mh_map_slot:
  assumes ok: "mh_ok mh" and r: "me_rid (slot_at mh i) = r" "r \<noteq> 0"
  shows "mh_map mh r = me_val (slot_at mh i)"
proof -
  from r have i: "i < length (mh_file mh)" "me_rid (mh_file mh ! i) = r" by (auto simp: mh_read_def split: if_split_asm)
  then obtain e where e: "find (\<lambda>e. me_rid e = r) (mh_file mh) = Some e"
    by (cases "find (\<lambda>e. me_rid e = r) (mh_file mh)") (auto simp: find_None_iff)
  then obtain j where j: "j < length (mh_file mh)" "me_rid e = r" "e = mh_file mh ! j" by (auto simp: find_Some_iff)
  then have "slot_at mh j = e" by (simp add: mh_read_def)
  with j mh_okD(6) [OF ok, of i j] r have "slot_at mh i = e" by simp
  with e show ?thesis by (simp add: mh_map_def)
qed

lemma mh_map_cases:
  assumes "mh_ok mh" "r \<noteq> 0"
  obtains (found) i where "me_rid (slot_at mh i) = r" "mh_map mh r = me_val (slot_at mh i)"
  | (none) "\<And>i. me_rid (slot_at mh i) \<noteq> r" "mh_map mh r = 0"
  using mh_map_none mh_map_slot assms by metis

section \<open>Probing\<close>

lemma read_candidate: "c \<le> i \<Longrightarrow> mh_read mh c (slot_at mh i) = slot_at mh c"
  by (simp add: mh_read_def)

text \<open>The entry that \<open>fs_mhash_put\<close> chooses between \<open>entry\<close> and the last position \<open>w\<close> that it looks at.\<close>

definition chosen :: "mhash \<Rightarrow> rid \<Rightarrow> nat \<Rightarrow> nat \<Rightarrow> nat option \<Rightarrow> (nat \<times> mh_entry) option \<Rightarrow> bool" where
  "chosen mh r entry w candidate res \<longleftrightarrow> (case res of
     None \<Rightarrow> candidate = None \<and> (\<forall>j. entry \<le> j \<and> j \<le> w \<longrightarrow> me_rid (slot_at mh j) \<noteq> r \<and> me_rid (slot_at mh j) \<noteq> 0)
   | Some (i, e) \<Rightarrow> e = slot_at mh i \<and>
       (entry \<le> i \<and> i \<le> w \<and> me_rid e = r
        \<or> (candidate = Some i \<or> entry \<le> i \<and> i \<le> w) \<and> me_rid e = 0
          \<and> (\<forall>j. entry \<le> j \<and> j \<le> w \<longrightarrow> me_rid (slot_at mh j) \<noteq> r)))"

lemma chosen_step:
  assumes "chosen mh r (Suc entry) w c' res" and "me_rid (slot_at mh entry) \<noteq> r" and "entry \<le> w"
    and "c' = (if me_rid (slot_at mh entry) = 0 \<and> c = None then Some entry else c)"
  shows "chosen mh r entry w c res"
proof -
  have split: "entry \<le> j \<and> j \<le> w \<longleftrightarrow> j = entry \<or> Suc entry \<le> j \<and> j \<le> w" for j using assms(3) by auto
  show ?thesis using assms(1,2,4) unfolding chosen_def split
    by (cases res) (auto split: if_split_asm)
qed

lemma put_scan_chosen:
  assumes "entry < mh_size mh" and "\<And>c. candidate = Some c \<Longrightarrow> c < entry \<and> me_rid (slot_at mh c) = 0"
  shows "chosen mh r entry (min (entry + n) (mh_size mh - 1)) candidate (put_scan mh r n entry candidate)"
  using assms
proof (induction n arbitrary: entry candidate)
  case 0
  let ?e = "slot_at mh entry"
  have w: "min (entry + 0) (mh_size mh - 1) = entry" using 0 by simp
  show ?case unfolding w
    using 0 by (subst put_scan.simps) (auto simp: chosen_def Let_def read_candidate split: option.split)
next
  case (Suc n)
  let ?c = "if me_rid (slot_at mh entry) = 0 \<and> candidate = None then Some entry else candidate"
  show ?case
  proof (cases "me_rid (slot_at mh entry) = r")
    case True
    then show ?thesis using Suc.prems by (subst put_scan.simps) (auto simp: chosen_def Let_def)
  next
    case False
    show ?thesis
    proof (cases "entry = mh_size mh - 1")
      case True
      then have w: "min (entry + Suc n) (mh_size mh - 1) = entry" by simp
      show ?thesis unfolding w using Suc.prems False True
        by (subst put_scan.simps) (auto simp: chosen_def Let_def read_candidate split: option.split)
    next
      case last: False
      have ps: "put_scan mh r (Suc n) entry candidate = put_scan mh r n (Suc entry) ?c"
        using False last by (subst put_scan.simps) (simp add: Let_def)
      have "chosen mh r (Suc entry) (min (Suc entry + n) (mh_size mh - 1)) ?c (put_scan mh r n (Suc entry) ?c)"
        by (rule Suc.IH) (use Suc.prems last in \<open>auto split: if_split_asm\<close>)
      then show ?thesis unfolding ps using chosen_step [OF _ False _ refl, where c = candidate] Suc.prems by auto
    qed
  qed
qed

section \<open>Lookup\<close>

lemma wrap_entry: "mh_size mh = 2 ^ k \<Longrightarrow> i < mh_size mh \<Longrightarrow>
    (i + 1) AND (mh_size mh - 1) = (if i = mh_size mh - 1 then 0 else i + 1)"
proof -
  assume k: "mh_size mh = 2 ^ k" and i: "i < mh_size mh"
  from k i show ?thesis unfolding k by (simp only: and_pow2_mod) (auto simp: mod_if)
qed

lemma get_scan_ok:
  assumes "mh_size mh = 2 ^ k" and "i < mh_size mh" and "r \<noteq> 0" and "me_rid e \<noteq> r"
  shows "get_scan mh r n i e =
    (case find (\<lambda>j. me_rid (slot_at mh j) = r) [i..<min (i + n) (mh_size mh)] of None \<Rightarrow> 0 | Some j \<Rightarrow> me_val (slot_at mh j))"
  using assms(2,4)
proof (induction n arbitrary: i e)
  case 0
  then show ?case by (simp add: min_def)
next
  case (Suc n)
  let ?e = "mh_read mh i e"
  have up: "[i..<min (i + Suc n) (mh_size mh)] = i # [Suc i..<min (Suc i + n) (mh_size mh)]"
    using Suc.prems(1) by (simp add: upt_conv_Cons)
  show ?case
  proof (cases "me_rid (slot_at mh i) = r")
    case True
    then have "?e = slot_at mh i" using assms(3) by (auto simp: mh_read_def split: if_split_asm)
    with True show ?thesis unfolding up by simp
  next
    case False
    then have e: "me_rid ?e \<noteq> r" using Suc.prems by (auto simp: mh_read_def split: if_split_asm)
    show ?thesis
    proof (cases "i = mh_size mh - 1")
      case True
      then have "[Suc i..<min (Suc i + n) (mh_size mh)] = []" using Suc.prems by simp
      then show ?thesis using e False wrap_entry [OF assms(1) Suc.prems(1)] True unfolding up by simp
    next
      case last: False
      then show ?thesis using e False wrap_entry [OF assms(1) Suc.prems(1)] Suc.IH [of "Suc i" ?e] Suc.prems
        unfolding up by simp
    qed
  qed
qed

lemma find_the: "i \<in> set xs \<Longrightarrow> find (\<lambda>j. j = i) xs = Some i"
  by (induction xs) auto

lemma mhash_get_ok:
  assumes ok: "mh_ok mh" and r: "r \<noteq> 0"
  shows "fs_mhash_get mh r = (if at_limit mh r then 0 else mh_map mh r)"
proof -
  let ?h = "FS_MHASH_ENTRY (mh_size mh) r"
  let ?P = "\<lambda>j. me_rid (slot_at mh j) = r"
  let ?w = "[?h..<min (?h + mh_dist mh) (mh_size mh)]"
  obtain k where k: "mh_size mh = 2 ^ k" using mh_okD(1) [OF ok] by blast
  have g: "fs_mhash_get mh r = (case find ?P ?w of None \<Rightarrow> 0 | Some j \<Rightarrow> me_val (slot_at mh j))"
    unfolding fs_mhash_get_def fs_mhash_get_intl_def by (rule get_scan_ok [OF k entry_less [OF ok] r]) (use r in simp)
  from ok r show ?thesis
  proof (cases rule: mh_map_cases)
    case (found i)
    have u: "me_rid (slot_at mh i) \<noteq> 0" using found r by simp
    have i: "?h \<le> i" "i \<le> ?h + mh_dist mh" using mh_okD(4,5) [OF ok u] found(1) by simp_all
    have "i < mh_size mh" using slot_used(1) [OF u] mh_okD(3) [OF ok] by simp
    note i = i this
    have only: "?P j \<longleftrightarrow> j = i" for j using mh_okD(6) [OF ok u, of j] found(1) by metis
    have lim: "at_limit mh r \<longleftrightarrow> i = ?h + mh_dist mh" using only by (auto simp: at_limit_def)
    show ?thesis
    proof (cases "i = ?h + mh_dist mh")
      case True
      then have "find ?P ?w = None" using only by (auto simp: find_None_iff)
      with g lim True show ?thesis by simp
    next
      case False
      have "find (\<lambda>j. j = i) ?w = Some i" using i False by (auto intro: find_the)
      then have "find ?P ?w = Some i" using only by simp
      with g lim False found show ?thesis by simp
    qed
  next
    case none
    then have "find ?P ?w = None" by (auto simp: find_None_iff)
    with g none show ?thesis by simp
  qed
qed

section \<open>Doubling\<close>

lemma entry_double:
  assumes "mh_size mh = 2 ^ k"
  shows "FS_MHASH_ENTRY (mh_size mh * 2) r =
    (if FS_MHASH_ENTRY (mh_size mh * 2) r \<ge> mh_size mh then FS_MHASH_ENTRY (mh_size mh) r + mh_size mh else FS_MHASH_ENTRY (mh_size mh) r)"
proof -
  let ?n = "unat (drop_bit 10 r)"
  have e: "FS_MHASH_ENTRY (mh_size mh * 2) r = ?n mod (2 ^ k * 2)" "FS_MHASH_ENTRY (mh_size mh) r = ?n mod 2 ^ k"
    using entry_mod [of "Suc k" r] entry_mod [of k r] assms by (simp_all add: mult.commute)
  have "?n mod (2 ^ k * 2) = 2 ^ k * (?n div 2 ^ k mod 2) + ?n mod 2 ^ k" by (rule mod_mult2_eq)
  moreover have "?n mod 2 ^ k < 2 ^ k" by simp
  moreover have "?n div 2 ^ k mod 2 = 0 \<or> ?n div 2 ^ k mod 2 = 1" by linarith
  ultimately show ?thesis unfolding e unfolding assms by (metis add.commute add.left_neutral le_add1 mult_0_right mult_numeral_1_right numeral_One not_le)
qed

text \<open>Where an entry lies after the doubling: those whose hash has the new bit move up by the old size.\<close>

definition moves :: "mhash \<Rightarrow> mh_entry \<Rightarrow> bool" where
  "moves mh e \<longleftrightarrow> me_rid e \<noteq> 0 \<and> mh_size mh \<le> FS_MHASH_ENTRY (mh_size mh * 2) (me_rid e)"

definition half_doubled :: "mhash \<Rightarrow> nat \<Rightarrow> mhash \<Rightarrow> bool" where
  "half_doubled mh n mh' \<longleftrightarrow> mh_size mh' = mh_size mh * 2 \<and> mh_dist mh' = mh_dist mh * 2 + 1 \<and> mh_count mh' = mh_count mh
     \<and> length (mh_file mh) \<le> length (mh_file mh') \<and> length (mh_file mh') \<le> mh_size mh * 2
     \<and> (\<forall>j < mh_size mh. slot_at mh' j = (if j < n \<and> moves mh (slot_at mh j) then blank else slot_at mh j)
          \<and> slot_at mh' (mh_size mh + j) = (if j < n \<and> moves mh (slot_at mh j) then slot_at mh j else blank))"

lemma double_step_ok:
  assumes "half_doubled mh i mh'" and "i < mh_size mh"
    and stale: "length (mh_file mh') \<le> i \<Longrightarrow> \<not> moves mh e"
  shows "\<exists>e' mh''. double_step (mh_size mh) i (e, mh') = (e', mh'') \<and> half_doubled mh (Suc i) mh''
    \<and> (length (mh_file mh'') \<le> Suc i \<longrightarrow> \<not> moves mh e')"
proof -
  note h = assms(1) [unfolded half_doubled_def]
  let ?e = "mh_read mh' i e"
  have si: "slot_at mh' i = slot_at mh i" using h assms(2) by auto
  have upd: "j < Suc i \<longleftrightarrow> j = i \<or> j < i" for j by auto
  show ?thesis
  proof (cases "i < length (mh_file mh')")
    case True
    then have e: "?e = slot_at mh i" using si by (simp add: mh_read_def)
    show ?thesis
    proof (cases "moves mh (slot_at mh i)")
      case mv: True
      have "double_step (mh_size mh) i (e, mh') = (slot_at mh i, mh_write (mh_write mh' i blank) (mh_size mh + i) (slot_at mh i))"
        using mv h by (simp add: double_step_def e moves_def Let_def)
      moreover have "half_doubled mh (Suc i) (mh_write (mh_write mh' i blank) (mh_size mh + i) (slot_at mh i))"
        using h mv assms(2) by (auto simp: half_doubled_def slot_write upd)
      ultimately show ?thesis using assms(2) by simp
    next
      case mv: False
      have "double_step (mh_size mh) i (e, mh') = (slot_at mh i, mh')"
        using mv h by (auto simp: double_step_def e moves_def Let_def)
      moreover have "half_doubled mh (Suc i) mh'" using h mv by (auto simp: half_doubled_def upd)
      ultimately show ?thesis using mv by simp
    qed
  next
    case False
    then have e: "?e = e" "\<not> moves mh e" using stale by (simp_all add: mh_read_def)
    have "slot_at mh i = blank" using si False by (simp add: mh_read_def)
    then have mv: "\<not> moves mh (slot_at mh i)" by (simp add: moves_def)
    have "double_step (mh_size mh) i (e, mh') = (e, mh')"
      using e h by (auto simp: double_step_def moves_def Let_def)
    moreover have "half_doubled mh (Suc i) mh'" using h mv by (auto simp: half_doubled_def upd)
    ultimately show ?thesis using e by simp
  qed
qed

lemma double_loop_ok:
  assumes start: "half_doubled mh 0 mh1" and "mh_file mh1 \<noteq> []" and "n \<le> mh_size mh"
  shows "\<exists>e' mh'. fold (double_step (mh_size mh)) [0..<n] (e, mh1) = (e', mh') \<and> half_doubled mh n mh'
    \<and> (length (mh_file mh') \<le> n \<longrightarrow> \<not> moves mh e')"
  using assms(3)
proof (induction n)
  case 0
  then show ?case using assms(1,2) by simp
next
  case (Suc n)
  then obtain e' mh' where "fold (double_step (mh_size mh)) [0..<n] (e, mh1) = (e', mh')" "half_doubled mh n mh'"
    "length (mh_file mh') \<le> n \<longrightarrow> \<not> moves mh e'" by auto
  with double_step_ok [of mh n mh' e'] Suc.prems show ?case by simp
qed

lemma double_size_ok:
  assumes ok: "mh_ok mh" and ne: "mh_file mh \<noteq> []" and sz: "mh_size mh * 2 < 2147483648"
  shows "\<exists>mh'. double_size junk mh = Some mh' \<and> half_doubled mh (mh_size mh) mh'"
proof -
  let ?mh1 = "mh\<lparr>mh_size := mh_size mh * 2, mh_dist := mh_dist mh * 2 + 1\<rparr>"
  have "half_doubled mh 0 ?mh1" using mh_okD(3) [OF ok] by (auto simp: half_doubled_def mh_read_def)
  from double_loop_ok [OF this, of "mh_size mh" junk] ne sz show ?thesis by (auto simp: double_size_def)
qed

definition new_pos :: "mhash \<Rightarrow> nat \<Rightarrow> nat" where
  "new_pos mh i = (if moves mh (slot_at mh i) then i + mh_size mh else i)"

lemma new_pos_inj: "inj_on (new_pos mh) {..<mh_size mh}"
  by (auto simp: inj_on_def new_pos_def split: if_split_asm)

definition doubled :: "mhash \<Rightarrow> mhash \<Rightarrow> bool" where
  "doubled mh mh' \<longleftrightarrow> mh_ok mh \<and> half_doubled mh (mh_size mh) mh'"

lemma doubledD:
  assumes "doubled mh mh'"
  shows "mh_ok mh" "mh_size mh' = mh_size mh * 2" "mh_dist mh' = mh_dist mh * 2 + 1" "mh_count mh' = mh_count mh"
    "length (mh_file mh') \<le> mh_size mh * 2"
    "j < mh_size mh \<Longrightarrow> slot_at mh' j = (if moves mh (slot_at mh j) then blank else slot_at mh j)"
    "j < mh_size mh \<Longrightarrow> slot_at mh' (mh_size mh + j) = (if moves mh (slot_at mh j) then slot_at mh j else blank)"
  using assms by (simp_all add: doubled_def half_doubled_def)

lemma used_less: "mh_ok mh \<Longrightarrow> me_rid (slot_at mh i) \<noteq> 0 \<Longrightarrow> i < mh_size mh"
  using slot_used(1) [of mh i] mh_okD(3) [of mh] by simp

lemma val_used: "mh_ok mh \<Longrightarrow> me_val (slot_at mh i) \<noteq> 0 \<Longrightarrow> me_rid (slot_at mh i) \<noteq> 0"
  using mh_okD(7) [of mh i] by metis

lemma slot_doubled: "doubled mh mh' \<Longrightarrow> me_rid (slot_at mh i) \<noteq> 0 \<Longrightarrow> slot_at mh' (new_pos mh i) = slot_at mh i"
  using used_less [OF doubledD(1)] doubledD(6,7) by (auto simp: new_pos_def add.commute)

lemma slot_undoubled:
  assumes dbl: "doubled mh mh'" and u: "me_rid (slot_at mh' j) \<noteq> 0"
  shows "\<exists>i. me_rid (slot_at mh i) \<noteq> 0 \<and> j = new_pos mh i"
proof (cases "j < mh_size mh")
  case True
  from u doubledD(6) [OF dbl True] show ?thesis by (auto simp: new_pos_def split: if_split_asm intro!: exI [of _ j])
next
  case False
  have "j < mh_size mh * 2" using slot_used(1) [OF u] doubledD(5) [OF dbl] by simp
  with False obtain i where i: "j = mh_size mh + i" "i < mh_size mh" by (auto simp: not_less le_iff_add)
  from u doubledD(7) [OF dbl i(2)] i(1) show ?thesis by (auto simp: new_pos_def moves_def split: if_split_asm intro!: exI [of _ i])
qed

lemma used_doubled: "doubled mh mh' \<Longrightarrow> {j. me_rid (slot_at mh' j) \<noteq> 0} = new_pos mh ` {i. me_rid (slot_at mh i) \<noteq> 0}"
  using slot_undoubled slot_doubled by force

lemma inj_used: "mh_ok mh \<Longrightarrow> S \<subseteq> {i. me_rid (slot_at mh i) \<noteq> 0} \<Longrightarrow> inj_on (new_pos mh) S"
  by (rule inj_on_subset [OF new_pos_inj]) (use used_less in auto)

lemma mh_used_doubled: "doubled mh mh' \<Longrightarrow> mh_used mh' = mh_used mh"
  by (simp add: mh_used_def used_doubled card_image inj_used doubledD(1))

lemma rid_0_doubled:
  assumes dbl: "doubled mh mh'" and 0: "me_rid (slot_at mh' j) = 0"
  shows "me_val (slot_at mh' j) = 0"
proof (cases "j < mh_size mh * 2")
  case True
  obtain i where i: "i < mh_size mh" "j = i \<or> j = mh_size mh + i"
    using True by (cases "j < mh_size mh") (auto intro: that [of "j - mh_size mh"])
  have "slot_at mh' j \<in> {slot_at mh i, blank}" using doubledD(6,7) [OF dbl i(1)] i(2) by auto
  with 0 mh_okD(7) [OF doubledD(1) [OF dbl], of i] show ?thesis by auto
next
  case False
  then show ?thesis using slot_used(2) [of mh' j] doubledD(5) [OF dbl] by auto
qed

lemma vals_doubled:
  assumes dbl: "doubled mh mh'"
  shows "{j. me_val (slot_at mh' j) \<noteq> 0} = new_pos mh ` {i. me_val (slot_at mh i) \<noteq> 0}"
proof (intro equalityI subsetI)
  fix j assume j: "j \<in> {j. me_val (slot_at mh' j) \<noteq> 0}"
  then have "me_rid (slot_at mh' j) \<noteq> 0" using rid_0_doubled [OF dbl, of j] by auto
  then obtain i where "me_rid (slot_at mh i) \<noteq> 0" "j = new_pos mh i" using slot_undoubled [OF dbl] by blast
  with j slot_doubled [OF dbl, of i] show "j \<in> new_pos mh ` {i. me_val (slot_at mh i) \<noteq> 0}" by simp
next
  fix j assume "j \<in> new_pos mh ` {i. me_val (slot_at mh i) \<noteq> 0}"
  then obtain i where "me_val (slot_at mh i) \<noteq> 0" "j = new_pos mh i" by blast
  with slot_doubled [OF dbl, of i] val_used [OF doubledD(1) [OF dbl], of i]
  show "j \<in> {j. me_val (slot_at mh' j) \<noteq> 0}" by simp
qed

lemma new_pos_bounds:
  assumes ok: "mh_ok mh" and u: "me_rid (slot_at mh i) \<noteq> 0"
  shows "FS_MHASH_ENTRY (mh_size mh * 2) (me_rid (slot_at mh i)) \<le> new_pos mh i"
    and "new_pos mh i \<le> FS_MHASH_ENTRY (mh_size mh * 2) (me_rid (slot_at mh i)) + mh_dist mh"
proof -
  obtain k where k: "mh_size mh = 2 ^ k" using mh_okD(1) [OF ok] by blast
  note b = mh_okD(4,5) [OF ok u]
  have "FS_MHASH_ENTRY (mh_size mh * 2) (me_rid (slot_at mh i)) =
    FS_MHASH_ENTRY (mh_size mh) (me_rid (slot_at mh i)) + (if moves mh (slot_at mh i) then mh_size mh else 0)"
    using entry_double [OF k, of "me_rid (slot_at mh i)"] u by (auto simp: moves_def split: if_split_asm)
  with b show "FS_MHASH_ENTRY (mh_size mh * 2) (me_rid (slot_at mh i)) \<le> new_pos mh i"
    "new_pos mh i \<le> FS_MHASH_ENTRY (mh_size mh * 2) (me_rid (slot_at mh i)) + mh_dist mh"
    by (simp_all add: new_pos_def)
qed

lemma doubled_ok:
  assumes dbl: "doubled mh mh'"
  shows "mh_ok mh'"
  unfolding mh_ok_def
proof (intro conjI allI impI)
  note ok = doubledD(1) [OF dbl]
  note sizes = doubledD(2-5) [OF dbl]
  obtain k where "mh_size mh = 2 ^ k" using mh_okD(1) [OF ok] by blast
  then show "\<exists>k. mh_size mh' = 2 ^ k" using sizes by (intro exI [of _ "Suc k"]) simp
  show "0 < mh_dist mh'" "length (mh_file mh') \<le> mh_size mh'" using sizes by simp_all
  show "me_rid (slot_at mh' j) = 0 \<Longrightarrow> me_val (slot_at mh' j) = 0" for j by (rule rid_0_doubled [OF dbl])
  have "card {j. me_val (slot_at mh' j) \<noteq> 0} = card {i. me_val (slot_at mh i) \<noteq> 0}"
    unfolding vals_doubled [OF dbl] by (rule card_image, rule inj_used [OF ok]) (use val_used [OF ok] in auto)
  then show "mh_count mh' = int (card {j. me_val (slot_at mh' j) \<noteq> 0})" using mh_okD(8) [OF ok] sizes by simp
next
  fix j assume "me_rid (slot_at mh' j) \<noteq> 0"
  then obtain i where i: "me_rid (slot_at mh i) \<noteq> 0" "j = new_pos mh i" using slot_undoubled [OF dbl] by blast
  note b = new_pos_bounds [OF doubledD(1) [OF dbl] i(1)] doubledD(2,3) [OF dbl]
  show "FS_MHASH_ENTRY (mh_size mh') (me_rid (slot_at mh' j)) \<le> j"
    unfolding i(2) slot_doubled [OF dbl i(1)] using b by simp
  show "j \<le> FS_MHASH_ENTRY (mh_size mh') (me_rid (slot_at mh' j)) + mh_dist mh'"
    unfolding i(2) slot_doubled [OF dbl i(1)] using b by simp
next
  fix i j assume u: "me_rid (slot_at mh' i) \<noteq> 0" and eq: "me_rid (slot_at mh' i) = me_rid (slot_at mh' j)"
  from u obtain a where a: "me_rid (slot_at mh a) \<noteq> 0" "i = new_pos mh a" using slot_undoubled [OF dbl] by blast
  from u eq have "me_rid (slot_at mh' j) \<noteq> 0" by simp
  then obtain b where b: "me_rid (slot_at mh b) \<noteq> 0" "j = new_pos mh b" using slot_undoubled [OF dbl] by blast
  have "me_rid (slot_at mh a) = me_rid (slot_at mh b)"
    using eq slot_doubled [OF dbl a(1)] slot_doubled [OF dbl b(1)] a(2) b(2) by simp
  from mh_okD(6) [OF doubledD(1) [OF dbl] a(1) this] show "i = j" using a b by simp
qed

lemma mh_map_doubled:
  assumes dbl: "doubled mh mh'" and r: "r \<noteq> 0"
  shows "mh_map mh' r = mh_map mh r"
  using doubledD(1) [OF dbl] r
proof (cases rule: mh_map_cases)
  case (found i)
  then show ?thesis using mh_map_slot [OF doubled_ok [OF dbl], of "new_pos mh i" r] slot_doubled [OF dbl, of i] r by simp
next
  case none
  have "me_rid (slot_at mh' j) \<noteq> r" for j
  proof
    assume j: "me_rid (slot_at mh' j) = r"
    with r obtain i where "me_rid (slot_at mh i) \<noteq> 0" "j = new_pos mh i" using slot_undoubled [OF dbl, of j] by blast
    with slot_doubled [OF dbl, of i] j none(1) [of i] show False by simp
  qed
  with none mh_map_none [of mh' r] show ?thesis by simp
qed

section \<open>Storing a value\<close>

text \<open>The last position that a search for \<open>r\<close> looks at.\<close>

definition window_end :: "mhash \<Rightarrow> rid \<Rightarrow> nat" where
  "window_end mh r = min (FS_MHASH_ENTRY (mh_size mh) r + mh_dist mh) (mh_size mh - 1)"

lemma in_window:
  assumes ok: "mh_ok mh" and "r \<noteq> 0" and "me_rid (slot_at mh j) = r"
  shows "FS_MHASH_ENTRY (mh_size mh) r \<le> j" "j \<le> window_end mh r"
  using mh_okD(4,5) [OF ok, of j] used_less [OF ok, of j] assms by (auto simp: window_end_def)

definition stored :: "mhash \<Rightarrow> nat \<Rightarrow> rid \<Rightarrow> nat \<Rightarrow> mhash" where
  "stored mh i r val = (let mh1 = mh_write mh i \<lparr>me_rid = r, me_val = val\<rparr>; e = slot_at mh i;
      d = (if val \<noteq> 0 then if me_val e = 0 then 1 else 0 else if me_val e \<noteq> 0 then - 1 else 0)
    in mh1\<lparr>mh_count := mh_count mh1 + d\<rparr>)"

lemma stored_simps [simp]:
  "mh_size (stored mh i r val) = mh_size mh" "mh_dist (stored mh i r val) = mh_dist mh"
  "slot_at (stored mh i r val) j = (if j = i then \<lparr>me_rid = r, me_val = val\<rparr> else slot_at mh j)"
  "length (mh_file (stored mh i r val)) = max (length (mh_file mh)) (Suc i)"
  by (simp_all add: stored_def Let_def slot_write del: of_nat_eq_iff)

lemma stored_count:
  assumes "mh_count mh = int (card {j. me_val (slot_at mh j) \<noteq> 0})"
  shows "mh_count (stored mh i r val) = int (card {j. me_val (slot_at (stored mh i r val) j) \<noteq> 0})"
proof -
  let ?S = "{j. me_val (slot_at mh j) \<noteq> 0}"
  have f: "finite ?S" by (rule slot_finite)
  have "{j. me_val (slot_at (stored mh i r val) j) \<noteq> 0} = (if val \<noteq> 0 then insert i ?S else ?S - {i})" by auto
  moreover have "int (card ?S) = int (card (?S - {i})) + 1" if "i \<in> ?S"
    using card_Suc_Diff1 [OF f that] by simp
  ultimately show ?thesis using assms f
    by (auto simp: stored_def Let_def card_insert_if simp del: stored_simps)
qed

lemma stored_ok:
  assumes ok: "mh_ok mh" and r: "r \<noteq> 0"
    and i: "FS_MHASH_ENTRY (mh_size mh) r \<le> i" "i \<le> window_end mh r"
    and only: "\<And>j. me_rid (slot_at mh j) = r \<Longrightarrow> j = i"
  shows "mh_ok (stored mh i r val)"
  unfolding mh_ok_def
proof (intro conjI allI impI)
  have sz: "0 < mh_size mh" using entry_less [OF ok, of r] by simp
  show "\<exists>k. mh_size (stored mh i r val) = 2 ^ k" "0 < mh_dist (stored mh i r val)" using mh_okD(1,2) [OF ok] by simp_all
  show "length (mh_file (stored mh i r val)) \<le> mh_size (stored mh i r val)"
    using mh_okD(3) [OF ok] i(2) sz by (auto simp: window_end_def)
  show "me_rid (slot_at (stored mh i r val) j) = 0 \<Longrightarrow> me_val (slot_at (stored mh i r val) j) = 0" for j
    using mh_okD(7) [OF ok, of j] r by (simp split: if_split_asm)
  show "mh_count (stored mh i r val) = int (card {j. me_val (slot_at (stored mh i r val) j) \<noteq> 0})"
    by (rule stored_count [OF mh_okD(8) [OF ok]])
next
  fix j assume "me_rid (slot_at (stored mh i r val) j) \<noteq> 0"
  then have u: "j = i \<or> j \<noteq> i \<and> me_rid (slot_at mh j) \<noteq> 0" by (auto split: if_split_asm)
  then show "FS_MHASH_ENTRY (mh_size (stored mh i r val)) (me_rid (slot_at (stored mh i r val) j)) \<le> j"
    using i(1) mh_okD(4) [OF ok, of j] by auto
  from u show "j \<le> FS_MHASH_ENTRY (mh_size (stored mh i r val)) (me_rid (slot_at (stored mh i r val) j)) + mh_dist (stored mh i r val)"
    using i(2) mh_okD(5) [OF ok, of j] by (auto simp: window_end_def)
next
  fix a b assume u: "me_rid (slot_at (stored mh i r val) a) \<noteq> 0"
    and eq: "me_rid (slot_at (stored mh i r val) a) = me_rid (slot_at (stored mh i r val) b)"
  show "a = b"
  proof (cases "a = i \<or> b = i")
    case True
    with eq only [of a] only [of b] show ?thesis by (auto split: if_split_asm)
  next
    case False
    with u eq mh_okD(6) [OF ok, of a b] show ?thesis by simp
  qed
qed

lemma stored_map:
  assumes ok: "mh_ok mh" and ok': "mh_ok (stored mh i r val)" and r: "r \<noteq> 0" and s: "s \<noteq> 0"
    and e: "me_rid (slot_at mh i) = r \<or> me_rid (slot_at mh i) = 0"
  shows "mh_map (stored mh i r val) s = (if s = r then val else mh_map mh s)"
proof (cases "s = r")
  case True
  then show ?thesis using mh_map_slot [OF ok', of i s] s by simp
next
  case False
  show ?thesis using ok s
  proof (cases rule: mh_map_cases)
    case (found j)
    then have "j \<noteq> i" using e False s by auto
    with found mh_map_slot [OF ok', of j s] s False show ?thesis by simp
  next
    case none
    then have "me_rid (slot_at (stored mh i r val) j) \<noteq> s" for j using False by simp
    with none mh_map_none [of "stored mh i r val" s] False show ?thesis by simp
  qed
qed

text \<open>A full window is no longer than the number of used entries.\<close>

lemma full_window:
  assumes ok: "mh_ok mh" and full: "\<And>j. FS_MHASH_ENTRY (mh_size mh) r \<le> j \<Longrightarrow> j \<le> window_end mh r \<Longrightarrow> me_rid (slot_at mh j) \<noteq> 0"
  shows "Suc (window_end mh r) - FS_MHASH_ENTRY (mh_size mh) r \<le> mh_used mh"
proof -
  have "card {FS_MHASH_ENTRY (mh_size mh) r..window_end mh r} \<le> mh_used mh"
    unfolding mh_used_def by (rule card_mono [OF slot_finite(1)]) (use full in auto)
  then show ?thesis by simp
qed

lemma room_0:
  assumes ok: "mh_ok mh" and "mh_used mh < Suc (mh_dist mh)" and "mh_used mh < mh_size mh - FS_MHASH_ENTRY (mh_size mh) r"
  shows "mh_used mh < Suc (window_end mh r) - FS_MHASH_ENTRY (mh_size mh) r"
  using assms entry_less [OF ok, of r] by (auto simp: window_end_def min_def)

lemma room_double:
  assumes dbl: "doubled mh mh'" and "mh_room mh r (Suc d)"
  shows "mh_room mh' r d"
proof -
  have "mh_size mh' * 2 ^ d = mh_size mh * 2 ^ Suc d" "Suc (mh_dist mh') * 2 ^ d = Suc (mh_dist mh) * 2 ^ Suc d"
    using doubledD(2,3) [OF dbl] by simp_all
  with assms(2) mh_used_doubled [OF dbl] show ?thesis unfolding mh_room_def by metis
qed

abbreviation scan_for :: "mhash \<Rightarrow> rid \<Rightarrow> (nat \<times> mh_entry) option" where
  "scan_for mh r \<equiv> put_scan mh r (mh_dist mh) (FS_MHASH_ENTRY (mh_size mh) r) None"

lemma scan_for_chosen: "mh_ok mh \<Longrightarrow> chosen mh r (FS_MHASH_ENTRY (mh_size mh) r) (window_end mh r) None (scan_for mh r)"
  unfolding window_end_def by (rule put_scan_chosen) (simp_all add: entry_less)

lemma put_found:
  assumes ok: "mh_ok mh" and r: "r \<noteq> 0" and sc: "scan_for mh r = Some (i, e)"
  shows "\<exists>mh'. fs_mhash_put junk mh r val = Some (0, mh') \<and> mh_ok mh' \<and> (\<forall>s. s \<noteq> 0 \<longrightarrow> mh_map mh' s = (if s = r then val else mh_map mh s))"
proof -
  let ?h = "FS_MHASH_ENTRY (mh_size mh) r"
  from scan_for_chosen [OF ok, of r] sc have e: "e = slot_at mh i" and i: "?h \<le> i" "i \<le> window_end mh r"
    and c: "me_rid e = r \<or> me_rid e = 0 \<and> (\<forall>j. ?h \<le> j \<and> j \<le> window_end mh r \<longrightarrow> me_rid (slot_at mh j) \<noteq> r)"
    by (auto simp: chosen_def)
  have only: "j = i" if j: "me_rid (slot_at mh j) = r" for j
    using c
  proof
    assume "me_rid e = r"
    then show ?thesis using mh_okD(6) [OF ok, of i j] j r e by simp
  next
    assume "me_rid e = 0 \<and> (\<forall>j. ?h \<le> j \<and> j \<le> window_end mh r \<longrightarrow> me_rid (slot_at mh j) \<noteq> r)"
    then show ?thesis using in_window [OF ok r j] j by blast
  qed
  show ?thesis
  proof (cases "me_rid e = r \<and> me_val e = val")
    case True
    have "fs_mhash_put junk mh r val = Some (0, mh)" using sc True by (subst fs_mhash_put.simps) simp
    moreover have "mh_map mh r = val" using mh_map_slot [OF ok, of i r] True e r by simp
    ultimately show ?thesis using ok by auto
  next
    case False
    have "fs_mhash_put junk mh r val = Some (0, stored mh i r val)"
      using sc False e by (subst fs_mhash_put.simps) (auto simp add: stored_def Let_def)
    moreover note ok' = stored_ok [OF ok r i only, where val = val]
    moreover have "mh_map (stored mh i r val) s = (if s = r then val else mh_map mh s)" if "s \<noteq> 0" for s
      using stored_map [OF ok ok' r that] c e by blast
    ultimately show ?thesis by auto
  qed
qed

lemma put_full:
  assumes ok: "mh_ok mh" and sc: "scan_for mh r = None"
  shows "Suc (window_end mh r) - FS_MHASH_ENTRY (mh_size mh) r \<le> mh_used mh" "mh_file mh \<noteq> []"
proof -
  let ?h = "FS_MHASH_ENTRY (mh_size mh) r"
  have full: "?h \<le> j \<Longrightarrow> j \<le> window_end mh r \<Longrightarrow> me_rid (slot_at mh j) \<noteq> 0" for j
    using scan_for_chosen [OF ok, of r] sc by (auto simp: chosen_def)
  show "Suc (window_end mh r) - ?h \<le> mh_used mh" by (rule full_window [OF ok full])
  have "me_rid (slot_at mh ?h) \<noteq> 0" using full [of ?h] entry_less [OF ok, of r] by (simp add: window_end_def)
  then show "mh_file mh \<noteq> []" by (auto simp: mh_read_def split: if_split_asm)
qed

lemma mhash_put_ok:
  assumes "mh_ok mh" and "r \<noteq> 0" and "mh_room mh r d"
  shows "\<exists>mh'. fs_mhash_put junk mh r val = Some (0, mh') \<and> mh_ok mh' \<and> (\<forall>s. s \<noteq> 0 \<longrightarrow> mh_map mh' s = (if s = r then val else mh_map mh s))"
  using assms(1,3)
proof (induction d arbitrary: mh)
  case (0 mh)
  then have "mh_used mh < Suc (window_end mh r) - FS_MHASH_ENTRY (mh_size mh) r" by (intro room_0) (simp_all add: mh_room_def)
  with put_full(1) [OF 0(1), of r] obtain i e where "scan_for mh r = Some (i, e)" by (cases "scan_for mh r") auto
  from put_found [OF 0(1) assms(2) this] show ?case .
next
  case (Suc d mh)
  show ?case
  proof (cases "scan_for mh r")
    case None
    have "mh_size mh * 2 \<le> mh_size mh * 2 ^ Suc d" by simp
    then have "mh_size mh * 2 < 2147483648" using Suc.prems(2) unfolding mh_room_def by linarith
    from double_size_ok [OF Suc.prems(1) put_full(2) [OF Suc.prems(1) None] this, of junk] Suc.prems(1)
    obtain mh1 where mh1: "double_size junk mh = Some mh1" "doubled mh mh1" by (auto simp: doubled_def)
    have "fs_mhash_put junk mh r val = fs_mhash_put junk mh1 r val" using None mh1(1) by (subst fs_mhash_put.simps) simp
    with Suc.IH [OF doubled_ok [OF mh1(2)] room_double [OF mh1(2) Suc.prems(2)]] mh_map_doubled [OF mh1(2)]
    show ?thesis by auto
  next
    case (Some res)
    then show ?thesis using put_found [OF Suc.prems(1) assms(2)] by (cases res) simp
  qed
qed

text \<open>An identifier that is found can be set to 0, and every other one keeps its value.\<close>

lemma mhash_reset_ok:
  assumes ok: "mh_ok mh" and r: "r \<noteq> 0" and g: "fs_mhash_get mh r \<noteq> 0"
  shows "\<exists>mh'. fs_mhash_put junk mh r 0 = Some (0, mh') \<and> mh_ok mh' \<and> (\<forall>s. s \<noteq> 0 \<longrightarrow> fs_mhash_get mh' s = (if s = r then 0 else fs_mhash_get mh s))"
proof -
  let ?h = "FS_MHASH_ENTRY (mh_size mh) r"
  have "mh_map mh r \<noteq> 0" using g mhash_get_ok [OF ok r] by (simp split: if_split_asm)
  then obtain i where i: "me_rid (slot_at mh i) = r" "me_val (slot_at mh i) \<noteq> 0"
    using mh_map_cases [OF ok r] by metis
  note w = in_window [OF ok r i(1)]
  have only: "j = i" if "me_rid (slot_at mh j) = r" for j using mh_okD(6) [OF ok, of i j] that i(1) r by simp
  obtain k e where sc: "scan_for mh r = Some (k, e)" using scan_for_chosen [OF ok, of r] w i(1) by (cases "scan_for mh r") (auto simp: chosen_def)
  have e: "e = slot_at mh k" "me_rid e = r" using scan_for_chosen [OF ok, of r] w i(1) sc by (auto simp: chosen_def)
  then have k: "k = i" using only by simp
  have put: "fs_mhash_put junk mh r 0 = Some (0, stored mh i r 0)"
    using sc e i k by (subst fs_mhash_put.simps) (auto simp add: stored_def Let_def)
  have ok': "mh_ok (stored mh i r 0)" using stored_ok [OF ok r w only] .
  have lim: "at_limit (stored mh i r 0) s = at_limit mh s" for s using i(1) by (auto simp: at_limit_def)
  have "fs_mhash_get (stored mh i r 0) s = (if s = r then 0 else fs_mhash_get mh s)" if "s \<noteq> 0" for s
    using mhash_get_ok [OF ok' that] mhash_get_ok [OF ok that] lim stored_map [OF ok ok' r that] i(1) by (cases "s = r") auto
  then show ?thesis using put ok' by blast
qed

lemma distinct_map_filter_nth:
  assumes "\<And>i j. i < length xs \<Longrightarrow> j < length xs \<Longrightarrow> P (xs ! i) \<Longrightarrow> P (xs ! j) \<Longrightarrow> f (xs ! i) = f (xs ! j) \<Longrightarrow> i = j"
  shows "distinct (map f (filter P xs))"
  using assms
proof (induction xs)
  case (Cons x xs)
  have "distinct (map f (filter P xs))" using Cons.prems [of "Suc i" "Suc j" for i j] by (intro Cons.IH) simp
  moreover have "f x \<notin> f ` set (filter P xs)" if "P x"
  proof
    assume "f x \<in> f ` set (filter P xs)"
    then obtain j where "j < length xs" "P (xs ! j)" "f x = f (xs ! j)" by (auto simp: in_set_conv_nth)
    then show False using Cons.prems [of 0 "Suc j"] that by simp
  qed
  ultimately show ?case by simp
qed simp

lemma mhash_keys_ok:
  assumes ok: "mh_ok mh" and sz: "mh_size mh < 2147483648"
  shows "\<exists>v. fs_mhash_get_keys junk (Some mh) = Some (Some v) \<and> wf_vec v
    \<and> distinct (rv_elems v) \<and> set (rv_elems v) = {r. r \<noteq> 0 \<and> mh_map mh r \<noteq> 0}
    \<and> int (length (rv_elems v)) = fs_mhash_count mh"
proof -
  let ?es = "filter (\<lambda>e. me_val e \<noteq> 0) (mh_file mh)"
  let ?rs = "map me_rid ?es"
  have slot: "i < length (mh_file mh) \<Longrightarrow> mh_file mh ! i = slot_at mh i" for i by (simp add: mh_read_def)
  have "length ?rs \<le> length (mh_file mh)" by simp
  then have len: "length ?rs \<le> 2147483648" using mh_okD(3) [OF ok] sz by linarith
  have "{i. i < length (mh_file mh) \<and> me_val (mh_file mh ! i) \<noteq> 0} = {i. me_val (slot_at mh i) \<noteq> 0}"
    using slot slot_used(2) [of mh] by auto
  then have cnt: "int (length ?rs) = mh_count mh" using mh_okD(8) [OF ok] by (simp add: length_filter_conv_card)
  have dist: "distinct ?rs"
  proof (rule distinct_map_filter_nth)
    fix i j assume "i < length (mh_file mh)" "j < length (mh_file mh)" "me_val (mh_file mh ! i) \<noteq> 0" "me_rid (mh_file mh ! i) = me_rid (mh_file mh ! j)"
    then show "i = j" using slot mh_okD(6) [OF ok val_used [OF ok], of i j] by metis
  qed
  have set_eq: "set ?rs = {r. r \<noteq> 0 \<and> mh_map mh r \<noteq> 0}"
  proof (intro equalityI subsetI)
    fix r assume "r \<in> set ?rs"
    then obtain e where e: "e \<in> set (mh_file mh)" "me_val e \<noteq> 0" "me_rid e = r" by auto
    from e(1) obtain i where "i < length (mh_file mh)" "mh_file mh ! i = e" by (auto simp: in_set_conv_nth)
    with e slot [of i] have i: "me_rid (slot_at mh i) = r" "me_val (slot_at mh i) \<noteq> 0" by simp_all
    with val_used [OF ok i(2)] mh_map_slot [OF ok i(1)] show "r \<in> {r. r \<noteq> 0 \<and> mh_map mh r \<noteq> 0}" by simp
  next
    fix r assume r: "r \<in> {r. r \<noteq> 0 \<and> mh_map mh r \<noteq> 0}"
    then have "r \<noteq> 0" by simp
    from ok this show "r \<in> set ?rs"
    proof (cases rule: mh_map_cases)
      case (found i)
      with r have v: "me_val (slot_at mh i) \<noteq> 0" by simp
      from slot_used(2) [OF v] slot [of i] have "slot_at mh i \<in> set (mh_file mh)" by (metis nth_mem)
      with v have "slot_at mh i \<in> set ?es" by simp
      then have "me_rid (slot_at mh i) \<in> set ?rs" by simp
      with found show ?thesis by simp
    qed (use r in simp)
  qed
  have new: "wf_vec (fs_rid_vector_new 0)" "rv_elems (fs_rid_vector_new 0) = []" using wf_new [of 0] by simp_all
  obtain v where "append_each (fs_rid_vector_append junk) (fs_rid_vector_new 0) ?rs = Some v" "wf_vec v" "rv_elems v = ?rs"
    using rv.append_each_ok [OF new(1), of ?rs junk] new(2) len by auto
  with cnt dist set_eq show ?thesis by (simp add: fs_mhash_get_keys_def fs_mhash_count_def)
qed

lemma mhash_create_ok: "mh_ok fs_mhash_create" "mh_map fs_mhash_create r = 0"
  unfolding mh_ok_def mh_map_def fs_mhash_create_def
  by (simp_all add: mh_read_def FS_MHASH_DEFAULT_LENGTH_def FS_MHASH_DEFAULT_SEARCH_DIST_def exI [of _ 12])

section \<open>Properties\<close>

text \<open>
  C26: Storing a value in the model hash ends, whatever doublings it takes, as long as after some
  number of doublings that fits 31 bits the entries in use are fewer than the positions searched; it
  keeps the invariant of the table and changes the value of exactly the given identifier.
\<close>

theorem mhash_put_refines:
  assumes "mh_ok mh" and "r \<noteq> 0" and "mh_room mh r d"
  shows "\<exists>mh'. fs_mhash_put junk mh r val = Some (0, mh') \<and> mh_ok mh'
    \<and> (\<forall>s. s \<noteq> 0 \<longrightarrow> mh_map mh' s = (if s = r then val else mh_map mh s))"
  by (rule mhash_put_ok [OF assms])

theorem mhash_put_refines_witness:
  "\<exists>mh'. fs_mhash_put blank fs_mhash_create 0xC000000000000001 7 = Some (0, mh') \<and> mh_ok mh'
    \<and> mh_map mh' 0xC000000000000001 = 7"
proof -
  have "mh_used fs_mhash_create = 0" by (simp add: mh_used_def mh_read_def fs_mhash_create_def)
  then have "mh_room fs_mhash_create 0xC000000000000001 0"
    using entry_less [OF mhash_create_ok(1), of "0xC000000000000001"]
    by (simp add: mh_room_def, simp add: fs_mhash_create_def FS_MHASH_DEFAULT_LENGTH_def)
  from mhash_put_refines [OF mhash_create_ok(1) _ this, of blank 7] show ?thesis by auto
qed

text \<open>
  C27: Looking up an identifier gives the value of the table, except when its entry lies at the search
  distance itself; and the list of keys has each identifier with a value once, as many as the count.
\<close>

theorem mhash_get_correct:
  assumes "mh_ok mh" and "r \<noteq> 0" and "mh_size mh < 2147483648"
  shows "fs_mhash_get mh r = (if at_limit mh r then 0 else mh_map mh r)
    \<and> (\<exists>v. fs_mhash_get_keys junk (Some mh) = Some (Some v) \<and> wf_vec v
        \<and> distinct (rv_elems v) \<and> set (rv_elems v) = {r. r \<noteq> 0 \<and> mh_map mh r \<noteq> 0}
        \<and> int (length (rv_elems v)) = fs_mhash_count mh)"
  using mhash_get_ok [OF assms(1,2)] mhash_keys_ok [OF assms(1,3)] by simp

lemma create_size: "mh_size fs_mhash_create = 2 ^ 12"
  by (simp add: fs_mhash_create_def FS_MHASH_DEFAULT_LENGTH_def)

lemma create_entry: "FS_MHASH_ENTRY (mh_size fs_mhash_create) 0xC000000000000001 = 0"
  unfolding create_size entry_mod by simp

lemma sample_mhash: "mh_ok (stored fs_mhash_create 0 0xC000000000000001 7)"
proof (rule stored_ok [OF mhash_create_ok(1)])
  show "FS_MHASH_ENTRY (mh_size fs_mhash_create) 0xC000000000000001 \<le> 0" by (simp add: create_entry)
  show "me_rid (slot_at fs_mhash_create j) = 0xC000000000000001 \<Longrightarrow> j = 0" for j
    by (simp add: mh_read_def fs_mhash_create_def)
qed simp_all

theorem mhash_get_correct_witness:
  "fs_mhash_get (stored fs_mhash_create 0 0xC000000000000001 7) 0xC000000000000001 = 7"
proof -
  have "\<not> at_limit (stored fs_mhash_create 0 0xC000000000000001 7) 0xC000000000000001"
    by (simp add: at_limit_def create_entry, simp add: fs_mhash_create_def FS_MHASH_DEFAULT_SEARCH_DIST_def mh_read_def)
  moreover have "mh_map (stored fs_mhash_create 0 0xC000000000000001 7) 0xC000000000000001 = 7"
    using mh_map_slot [OF sample_mhash, of 0 "0xC000000000000001"] by simp
  moreover have "mh_size (stored fs_mhash_create 0 0xC000000000000001 7) < 2147483648" by (simp add: create_size)
  ultimately show ?thesis using mhash_get_correct [OF sample_mhash, of "0xC000000000000001"] by simp
qed

text \<open>
  C34: When all positions before the search distance are in use and the one at the distance is free,
  a new graph is stored there, and the lookup, which stops one position earlier, does not find it.
\<close>

theorem mhash_loses_entry:
  assumes ok: "mh_ok mh" and r: "r \<noteq> 0"
    and full: "\<And>j. FS_MHASH_ENTRY (mh_size mh) r \<le> j \<Longrightarrow> j < FS_MHASH_ENTRY (mh_size mh) r + mh_dist mh \<Longrightarrow> me_rid (slot_at mh j) \<notin> {0, r}"
    and free: "FS_MHASH_ENTRY (mh_size mh) r + mh_dist mh < mh_size mh"
      "me_rid (slot_at mh (FS_MHASH_ENTRY (mh_size mh) r + mh_dist mh)) = 0"
  shows "\<exists>mh'. fs_mhash_put junk mh r val = Some (0, mh') \<and> mh_map mh' r = val \<and> fs_mhash_get mh' r = 0"
proof -
  let ?i = "FS_MHASH_ENTRY (mh_size mh) r + mh_dist mh"
  have w: "window_end mh r = ?i" using free(1) by (simp add: window_end_def)
  have sc: "scan_for mh r = Some (?i, slot_at mh ?i)"
  proof (cases "scan_for mh r")
    case None
    then show ?thesis using scan_for_chosen [OF ok, of r] w free(2) by (auto simp: chosen_def)
  next
    case (Some res)
    obtain i e where res: "res = (i, e)" by (cases res)
    from scan_for_chosen [OF ok, of r] Some res w have "e = slot_at mh i" "FS_MHASH_ENTRY (mh_size mh) r \<le> i" "i \<le> ?i"
      "me_rid (slot_at mh i) \<in> {0, r}" by (auto simp: chosen_def)
    moreover from this full [of i] have "i = ?i" by (cases "i < ?i") auto
    ultimately show ?thesis using Some res by simp
  qed
  have put: "fs_mhash_put junk mh r val = Some (0, stored mh ?i r val)"
    using sc free(2) r by (subst fs_mhash_put.simps) (auto simp: stored_def Let_def)
  have only: "j = ?i" if "me_rid (slot_at mh j) = r" for j
    using in_window [OF ok r that] w full [of j] that by (cases "j < ?i") auto
  have ok': "mh_ok (stored mh ?i r val)" by (rule stored_ok [OF ok r _ _ only]) (simp_all add: w)
  have "at_limit (stored mh ?i r val) r" by (simp add: at_limit_def)
  then show ?thesis using put mhash_get_ok [OF ok' r] mh_map_slot [OF ok', of ?i r] r by simp
qed

text \<open>Sixteen graphs whose hash is 0.\<close>

definition crowded :: mhash where
  "crowded = fs_mhash_create\<lparr>mh_count := 16, mh_file := map (\<lambda>k. \<lparr>me_rid = 0xC000000000000000 + of_nat k, me_val = k + 2\<rparr>) [0..<16]\<rparr>"

lemma crowded_slot: "slot_at crowded i = (if i < 16 then \<lparr>me_rid = 0xC000000000000000 + of_nat i, me_val = i + 2\<rparr> else blank)"
  by (simp add: crowded_def mh_read_def)

lemma crowded_entry: "i \<le> 16 \<Longrightarrow> FS_MHASH_ENTRY (mh_size crowded) (0xC000000000000000 + of_nat i) = 0"
proof -
  assume "i \<le> 16"
  then have "i \<in> set [0..<17]" by simp
  moreover have "list_all (\<lambda>i. unat (drop_bit 10 (0xC000000000000000 + of_nat i :: rid)) mod 2 ^ 12 = 0) [0..<17]"
    by (simp add: upt_rec)
  moreover have "mh_size crowded = 2 ^ 12" using create_size by (simp add: crowded_def)
  ultimately show ?thesis by (simp only: entry_mod list_all_iff)
qed

lemma crowded_inj: "i < 16 \<Longrightarrow> j < 16 \<Longrightarrow> (0xC000000000000000 + of_nat i :: rid) = 0xC000000000000000 + of_nat j \<Longrightarrow> i = j"
  by (simp add: of_nat_inverse word_of_nat_eq_iff take_bit_nat_eq_self)

lemma crowded_rid: "i \<le> 16 \<Longrightarrow> (0xC000000000000000 + of_nat i :: rid) \<noteq> 0"
proof -
  assume "i \<le> 16"
  then have "i \<in> set [0..<17]" by simp
  moreover have "list_all (\<lambda>i. (0xC000000000000000 + of_nat i :: rid) \<noteq> 0) [0..<17]" by (simp add: upt_rec)
  ultimately show ?thesis unfolding list_all_iff by blast
qed

lemma crowded_ok: "mh_ok crowded"
  unfolding mh_ok_def
proof (intro conjI allI impI)
  show "\<exists>k. mh_size crowded = 2 ^ k" using create_size by (intro exI [of _ 12]) (simp add: crowded_def)
  show "0 < mh_dist crowded" "length (mh_file crowded) \<le> mh_size crowded"
    by (simp_all add: crowded_def fs_mhash_create_def FS_MHASH_DEFAULT_SEARCH_DIST_def FS_MHASH_DEFAULT_LENGTH_def)
  show "me_rid (slot_at crowded i) = 0 \<Longrightarrow> me_val (slot_at crowded i) = 0" for i
    using crowded_rid [of i] by (simp add: crowded_slot split: if_split_asm)
  have "{i. me_val (slot_at crowded i) \<noteq> 0} = {..<16}" by (auto simp: crowded_slot)
  then show "mh_count crowded = int (card {i. me_val (slot_at crowded i) \<noteq> 0})" by (simp add: crowded_def)
next
  fix i assume "me_rid (slot_at crowded i) \<noteq> 0"
  then have i: "i < 16" by (simp add: crowded_slot split: if_split_asm)
  then show "FS_MHASH_ENTRY (mh_size crowded) (me_rid (slot_at crowded i)) \<le> i"
    using crowded_entry [of i] by (simp add: crowded_slot)
  show "i \<le> FS_MHASH_ENTRY (mh_size crowded) (me_rid (slot_at crowded i)) + mh_dist crowded"
    using i by (simp add: crowded_def fs_mhash_create_def FS_MHASH_DEFAULT_SEARCH_DIST_def)
next
  fix i j assume "me_rid (slot_at crowded i) \<noteq> 0" "me_rid (slot_at crowded i) = me_rid (slot_at crowded j)"
  then show "i = j" using crowded_inj [of i j] by (simp add: crowded_slot split: if_split_asm)
qed

theorem mhash_loses_entry_witness:
  "\<exists>mh'. fs_mhash_put blank crowded 0xC000000000000010 99 = Some (0, mh') \<and> mh_map mh' 0xC000000000000010 = 99
    \<and> fs_mhash_get mh' 0xC000000000000010 = 0"
proof (rule mhash_loses_entry [OF crowded_ok])
  have h: "FS_MHASH_ENTRY (mh_size crowded) 0xC000000000000010 = 0" using crowded_entry [of 16] by simp
  have d: "mh_dist crowded = 16" by (simp add: crowded_def fs_mhash_create_def FS_MHASH_DEFAULT_SEARCH_DIST_def)
  have "j < 16 \<Longrightarrow> (0xC000000000000000 + of_nat j :: rid) \<noteq> 0xC000000000000010" for j
    using word_of_nat_eq_iff [of j 16, where 'a = 64] by (auto simp: take_bit_nat_eq_self)
  then show "me_rid (slot_at crowded j) \<notin> {0, 0xC000000000000010}"
    if "FS_MHASH_ENTRY (mh_size crowded) 0xC000000000000010 \<le> j" "j < FS_MHASH_ENTRY (mh_size crowded) 0xC000000000000010 + mh_dist crowded" for j
    using that h d crowded_rid [of j] by (simp add: crowded_slot)
  show "FS_MHASH_ENTRY (mh_size crowded) 0xC000000000000010 + mh_dist crowded < mh_size crowded"
    using create_size unfolding h d by (simp add: crowded_def)
  show "me_rid (slot_at crowded (FS_MHASH_ENTRY (mh_size crowded) 0xC000000000000010 + mh_dist crowded)) = 0"
    unfolding h d by (simp add: crowded_slot)
qed simp

end
