(* ===== verification/Tbchain.thy ===== *)
theory Tbchain
  imports Ptree
begin

text \<open>
  The chains of triple blocks of \<open>src/src/backend/tbchain.c\<close>, which list the triples of every
  model: a memory-mapped array of 128-byte blocks of up to five triples, linked by \<open>cont\<close>, with
  a free list.  Blocks 0 and 1 are reserved.  A chain grows at its head; a chain marked
  \<open>SUPERSET\<close> may list triples that were deleted since, which its iterator finds out by asking
  the ptree of the predicate and then erases.

  A result \<open>None\<close> is an access outside the mapped blocks or outside a block, or a loop that does
  not end.  System calls succeed; a file extended by \<open>ftruncate\<close> reads as zeros.  Opening an
  existing file, sync, printing, statistics, unlink and close are left out.
\<close>

type_synonym triple = "rid \<times> rid \<times> rid"

record tblock =
  tb_cont :: nat
  tb_length :: nat
  tb_flags :: u8
  tb_data :: "triple list"

definition FS_TBLOCK_LEN :: nat where "FS_TBLOCK_LEN = 5"

definition FS_TBCHAIN_SPARSE :: u8 where "FS_TBCHAIN_SPARSE = 1"
definition FS_TBCHAIN_SUPERSET :: u8 where "FS_TBCHAIN_SUPERSET = 2"

definition TBCHAIN_INIT_SIZE :: nat where "TBCHAIN_INIT_SIZE = 1024"

definition zero_tblock :: tblock where
  "zero_tblock = \<lparr>tb_cont = 0, tb_length = 0, tb_flags = 0, tb_data = replicate FS_TBLOCK_LEN (0, 0, 0)\<rparr>"

text \<open>The header fields and the mapped blocks; one block more than \<open>size\<close> is mapped.\<close>

record tbchain =
  tbc_mapped :: bool
  tbc_size :: nat
  tbc_length :: nat
  tbc_free_list :: nat
  tbc_data :: "nat \<Rightarrow> tblock"

section \<open>Operations\<close>

definition tbc_get :: "tbchain \<Rightarrow> nat \<Rightarrow> tblock option" where
  "tbc_get bc b = (if b < tbc_size bc + 1 then Some (tbc_data bc b) else None)"

definition tbc_put :: "tbchain \<Rightarrow> nat \<Rightarrow> tblock \<Rightarrow> tbchain option" where
  "tbc_put bc b x = (if b < tbc_size bc + 1 then Some (bc\<lparr>tbc_data := (tbc_data bc)(b := x)\<rparr>) else None)"

definition unmap_bc :: "tbchain \<Rightarrow> tbchain" where
  "unmap_bc bc = bc\<lparr>tbc_mapped := False\<rparr>"

definition map_bc :: "tbchain \<Rightarrow> nat \<Rightarrow> nat \<Rightarrow> tbchain" where
  "map_bc bc len sz = bc\<lparr>tbc_mapped := True, tbc_size := sz, tbc_length := len,
     tbc_data := (\<lambda>i. if i < tbc_size bc + 1 then tbc_data bc i else zero_tblock)\<rparr>"

definition fs_tbchain_free_block :: "tbchain \<Rightarrow> nat \<Rightarrow> (int \<times> tbchain) option" where
  "fs_tbchain_free_block bc b =
     (if b = 0 \<or> b = 1 then Some (1, bc)
      else if b \<ge> tbc_length bc then Some (1, bc)
      else do {
        x \<leftarrow> tbc_get bc b;
        bc' \<leftarrow> tbc_put bc b (x\<lparr>tb_cont := tbc_free_list bc\<rparr>);
        Some (0, bc'\<lparr>tbc_free_list := b\<rparr>)
      })"

text \<open>The loops that free the new blocks of a file, from block \<open>i\<close> on.\<close>

fun free_blocks :: "tbchain \<Rightarrow> nat list \<Rightarrow> tbchain option" where
  "free_blocks bc [] = Some bc"
| "free_blocks bc (i # is) = do { (_, bc') \<leftarrow> fs_tbchain_free_block bc i; free_blocks bc' is }"

text \<open>\<open>fs_tbchain_open_filename\<close> with \<open>O_TRUNC\<close>: a new file.\<close>

definition fs_tbchain_create :: "tbchain option" where
  "fs_tbchain_create =
     free_blocks \<lparr>tbc_mapped = True, tbc_size = TBCHAIN_INIT_SIZE, tbc_length = TBCHAIN_INIT_SIZE,
                  tbc_free_list = 0, tbc_data = (\<lambda>_. zero_tblock)\<rparr> [2..<TBCHAIN_INIT_SIZE]"

text \<open>\<open>length\<close> and \<open>size\<close> are copied to \<open>int\<close> variables; doubling them must not overflow.\<close>

definition tb_grow :: "tbchain \<Rightarrow> tbchain option" where
  "tb_grow bc =
     (if tbc_free_list bc = 0 then
        if tbc_size bc * 2 < 2147483648 \<and> tbc_length bc < 2147483648
        then free_blocks ((map_bc (unmap_bc bc) (tbc_length bc) (tbc_size bc * 2))\<lparr>tbc_length := tbc_size bc * 2\<rparr>)
               [tbc_size bc..<tbc_size bc * 2]
        else None
      else Some bc)"

definition fs_tbchain_new_block :: "tbchain \<Rightarrow> (nat \<times> tbchain) option" where
  "fs_tbchain_new_block bc0 =
     (if \<not> tbc_mapped bc0 then Some (0, bc0)
      else
        let bc = (if tbc_length bc0 = 0 then bc0\<lparr>tbc_length := tbc_size bc0\<rparr> else bc0)
        in do {
          bc1 \<leftarrow> tb_grow bc;
          if tbc_free_list bc1 \<noteq> 0 then do {
            x \<leftarrow> tbc_get bc1 (tbc_free_list bc1);
            bc2 \<leftarrow> tbc_put (bc1\<lparr>tbc_free_list := tb_cont x\<rparr>) (tbc_free_list bc1) zero_tblock;
            Some (tbc_free_list bc1, bc2)
          }
          else Some (0, bc1)
        })"

definition fs_tbchain_new_chain :: "tbchain \<Rightarrow> (nat \<times> tbchain) option" where
  "fs_tbchain_new_chain bc = do {
     (b, bc) \<leftarrow> fs_tbchain_new_block bc;
     x \<leftarrow> tbc_get bc b;
     bc \<leftarrow> tbc_put bc b (x\<lparr>tb_cont := 0\<rparr>);
     Some (b, bc)
   }"

partial_function (option) tb_remove_loop :: "tbchain \<Rightarrow> nat \<Rightarrow> (int \<times> tbchain) option" where
  "tb_remove_loop c b = do {
     x \<leftarrow> tbc_get c b;
     (_, c') \<leftarrow> fs_tbchain_free_block c b;
     if tb_cont x > tbc_size c' then Some (1, c')
     else if tb_cont x \<noteq> 0 then tb_remove_loop c' (tb_cont x)
     else Some (0, c')
   }"

definition fs_tbchain_remove_chain :: "tbchain \<Rightarrow> nat \<Rightarrow> (int \<times> tbchain) option" where
  "fs_tbchain_remove_chain c b =
     (if \<not> tbc_mapped c then Some (1, c)
      else if b > tbc_size c then Some (1, c)
      else if b = 0 \<or> b = 1 then Some (1, c)
      else tb_remove_loop c b)"

definition fs_tbchain_set_bit :: "tbchain \<Rightarrow> nat \<Rightarrow> u8 \<Rightarrow> tbchain option" where
  "fs_tbchain_set_bit bc b bt =
     (if b = 0 \<or> b = 1 then Some bc
      else if b > tbc_length bc then Some bc
      else do {
        x \<leftarrow> tbc_get bc b;
        if tb_flags x AND bt = 0 then tbc_put bc b (x\<lparr>tb_flags := tb_flags x OR bt\<rparr>) else Some bc
      })"

definition fs_tbchain_clear_bit :: "tbchain \<Rightarrow> nat \<Rightarrow> u8 \<Rightarrow> tbchain option" where
  "fs_tbchain_clear_bit bc b bt =
     (if b = 0 \<or> b = 1 then Some bc
      else if b > tbc_length bc then Some bc
      else do {
        x \<leftarrow> tbc_get bc b;
        if tb_flags x AND bt \<noteq> 0 then tbc_put bc b (x\<lparr>tb_flags := tb_flags x AND NOT bt\<rparr>) else Some bc
      })"

definition fs_tbchain_get_bit :: "tbchain \<Rightarrow> nat \<Rightarrow> u8 \<Rightarrow> u8 option" where
  "fs_tbchain_get_bit bc b bt =
     (if b = 0 \<or> b = 1 then Some 0
      else if b > tbc_length bc then Some 0
      else do { x \<leftarrow> tbc_get bc b; Some (tb_flags x AND bt) })"

text \<open>The block that takes the next triple: the head, or a new block before a full head.\<close>

definition head_block :: "tbchain \<Rightarrow> nat \<Rightarrow> (nat \<times> bool \<times> tbchain) option" where
  "head_block bc b = do {
     x \<leftarrow> tbc_get bc b;
     if tb_length x + 1 > FS_TBLOCK_LEN then do {
       (new_b, bc1) \<leftarrow> fs_tbchain_new_block bc;
       if new_b = 0 then Some (b, False, bc1)
       else do {
         y \<leftarrow> tbc_get bc1 new_b;
         x1 \<leftarrow> tbc_get bc1 b;
         bc2 \<leftarrow> tbc_put bc1 new_b (y\<lparr>tb_cont := b, tb_length := 0, tb_flags := tb_flags x1\<rparr>);
         Some (new_b, True, bc2)
       }
     }
     else Some (b, True, bc)
   }"

definition fs_tbchain_add_triple :: "tbchain \<Rightarrow> nat \<Rightarrow> triple \<Rightarrow> (nat \<times> tbchain) option" where
  "fs_tbchain_add_triple bc b t =
     (if b = 0 \<or> b = 1 then Some (0, bc)
      else if b > tbc_length bc then Some (0, bc)
      else do {
        (b', found, bc1) \<leftarrow> head_block bc b;
        if \<not> found then Some (b', bc1)
        else do {
          x \<leftarrow> tbc_get bc1 b';
          ds \<leftarrow> store_at (tb_data x) (tb_length x) t;
          bc2 \<leftarrow> tbc_put bc1 b' (x\<lparr>tb_data := ds, tb_length := tb_length x + 1\<rparr>);
          Some (b', bc2)
        }
      })"

text \<open>The count is an \<open>int\<close>; a chain of \<open>2 ^ 31\<close> triples overflows it.\<close>

partial_function (option) tb_length_loop :: "tbchain \<Rightarrow> tblock \<Rightarrow> nat \<Rightarrow> nat option" where
  "tb_length_loop bc bp len =
     (if len + tb_length bp \<ge> 2147483648 then None
      else if tb_cont bp \<noteq> 0 then do { bp' \<leftarrow> tbc_get bc (tb_cont bp); tb_length_loop bc bp' (len + tb_length bp) }
      else Some (len + tb_length bp))"

definition fs_tbchain_length :: "tbchain \<Rightarrow> nat \<Rightarrow> nat option" where
  "fs_tbchain_length bc b =
     (if b = 0 \<or> b = 1 then Some 0
      else if b > tbc_length bc then Some 0
      else do { bp \<leftarrow> tbc_get bc b; tb_length_loop bc bp 0 })"

definition fs_tbchain_allocated_blocks :: "tbchain \<Rightarrow> nat" where
  "fs_tbchain_allocated_blocks bc = u32 (tbc_length bc)"

section \<open>Iteration\<close>

record tbchain_it =
  ti_model :: rid
  ti_chain :: nat
  ti_node :: nat
  ti_pos :: nat
  ti_superset :: bool

definition fs_tbchain_new_iterator :: "tbchain option \<Rightarrow> rid \<Rightarrow> nat \<Rightarrow> tbchain_it option option" where
  "fs_tbchain_new_iterator tbc model chain =
     (case tbc of None \<Rightarrow> Some None
      | Some bc \<Rightarrow>
        if chain = 0 \<or> chain = 1 then Some None
        else if chain > tbc_size bc then Some None
        else do {
          flag \<leftarrow> fs_tbchain_get_bit bc chain FS_TBCHAIN_SUPERSET;
          Some (Some \<lparr>ti_model = model, ti_chain = chain, ti_node = chain, ti_pos = 0, ti_superset = flag \<noteq> 0\<rparr>)
        })"

text \<open>
  The check of a triple of a superset chain.  The backend, when there is one, gives the ptree of
  a predicate; the search asks for the pair of the model and the object under the subject.
\<close>

definition tb_check :: "(rid \<Rightarrow> ptree option) option \<Rightarrow> rid \<Rightarrow> triple \<Rightarrow> bool option" where
  "tb_check be model t =
     (case be of None \<Rightarrow> Some True
      | Some get_ptree \<Rightarrow>
        (let (s, p, obj) = t; pt = get_ptree p
         in do {
           pit \<leftarrow> fs_ptree_search pt s (model, obj);
           (case pit of None \<Rightarrow> Some False
            | Some i \<Rightarrow> do { (r, _) \<leftarrow> fs_ptree_it_next (the pt) i; Some (r \<noteq> None) })
         }))"

text \<open>The loop of \<open>fs_tbchain_it_next\<close>: the next triple, or \<open>None\<close> for the end.\<close>

partial_function (option) tb_it_loop ::
  "(rid \<Rightarrow> ptree option) option \<Rightarrow> tbchain \<Rightarrow> tbchain_it \<Rightarrow> (triple option \<times> tbchain \<times> tbchain_it) option" where
  "tb_it_loop be bc it =
     (if ti_node it = 0 then do {
        bc' \<leftarrow> (if ti_superset it then fs_tbchain_clear_bit bc (ti_chain it) FS_TBCHAIN_SUPERSET else Some bc);
        Some (None, bc', it)
      }
      else if ti_node it = 1 then Some (None, bc, it)
      else do {
        x \<leftarrow> tbc_get bc (ti_node it);
        if ti_pos it \<ge> tb_length x then tb_it_loop be bc (it\<lparr>ti_node := tb_cont x, ti_pos := 0\<rparr>)
        else do {
          t \<leftarrow> load_at (tb_data x) (ti_pos it);
          if fst t = FS_RID_GONE then tb_it_loop be bc (it\<lparr>ti_pos := ti_pos it + 1\<rparr>)
          else do {
            ok \<leftarrow> (if ti_superset it then tb_check be (ti_model it) t else Some True);
            if ok then Some (Some t, bc, it\<lparr>ti_pos := ti_pos it + 1\<rparr>)
            else do {
              bc1 \<leftarrow> tbc_put bc (ti_node it) (x\<lparr>tb_data := (tb_data x)[ti_pos it := (FS_RID_GONE, snd t)]\<rparr>);
              bc2 \<leftarrow> fs_tbchain_set_bit bc1 (ti_chain it) FS_TBCHAIN_SPARSE;
              tb_it_loop be bc2 (it\<lparr>ti_pos := ti_pos it + 1\<rparr>)
            }
          }
        }
      })"

definition fs_tbchain_it_next ::
  "(rid \<Rightarrow> ptree option) option \<Rightarrow> tbchain \<Rightarrow> tbchain_it option \<Rightarrow> (triple option \<times> tbchain \<times> tbchain_it option) option" where
  "fs_tbchain_it_next be bc it =
     (case it of None \<Rightarrow> Some (None, bc, None)
      | Some i \<Rightarrow> map_option (\<lambda>(r, bc', i'). (r, bc', Some i')) (tb_it_loop be bc i))"

section \<open>What the blocks represent\<close>

definition tb_nxt :: "tbchain \<Rightarrow> nat \<Rightarrow> nat" where
  "tb_nxt bc i = tb_cont (tbc_data bc i)"

definition block_triples :: "tblock \<Rightarrow> triple list" where
  "block_triples x = take (tb_length x) (tb_data x)"

definition block_ok :: "tblock \<Rightarrow> bool" where
  "block_ok x \<longleftrightarrow> length (tb_data x) = FS_TBLOCK_LEN \<and> tb_length x \<le> FS_TBLOCK_LEN"

text \<open>The free list is \<open>fs\<close> and the chain of owner \<open>k\<close> has the blocks \<open>Ch k\<close>.\<close>

definition tb_rep :: "tbchain \<Rightarrow> nat list \<Rightarrow> ('k \<rightharpoonup> nat list) \<Rightarrow> bool" where
  "tb_rep bc fs Ch \<longleftrightarrow> tbc_mapped bc \<and> tbc_length bc = tbc_size bc \<and> 2 \<le> tbc_size bc
     \<and> arena_rep (tb_nxt bc) (tbc_free_list bc) (tbc_size bc) fs Ch
     \<and> (\<forall>i \<in> set fs. 2 \<le> i) \<and> (\<forall>k ids. Ch k = Some ids \<longrightarrow> (\<forall>i \<in> set ids. 2 \<le> i \<and> block_ok (tbc_data bc i)))"

definition tb_room :: "tbchain \<Rightarrow> bool" where
  "tb_room bc \<longleftrightarrow> tbc_free_list bc \<noteq> 0 \<or> tbc_size bc * 2 < 2147483648"

text \<open>A block outside the free list and every chain.\<close>

definition unowned :: "nat list \<Rightarrow> ('k \<rightharpoonup> nat list) \<Rightarrow> nat \<Rightarrow> bool" where
  "unowned fs Ch i \<longleftrightarrow> i \<notin> set fs \<and> (\<forall>k ids. Ch k = Some ids \<longrightarrow> i \<notin> set ids)"

lemma arena_push:
  assumes rep: "arena_rep nxt free lim fs Ch" and x: "unowned fs Ch x" "x < lim" "x \<noteq> 0"
  shows "arena_rep (nxt(x := free)) x lim (x # fs) Ch"
proof -
  have l: "linked (nxt(x := free)) b ids = linked nxt b ids" if "x \<notin> set ids" for b ids
    using that by (rule linked_upd)
  show ?thesis using rep x l unfolding arena_rep_def unowned_def by auto
qed

lemma arena_unfree:
  assumes rep: "arena_rep nxt free lim (f # fs) Ch"
  shows "arena_rep (nxt(f := v)) (nxt f) lim fs Ch" "unowned fs Ch f" "f < lim" "f \<noteq> 0" "free = f"
proof -
  show u: "unowned fs Ch f"
    using arena_free_distinct [OF rep] arena_chain_not_free [OF rep] unfolding unowned_def by fastforce
  show "f < lim" "f \<noteq> 0" "free = f" using arena_free_less [OF rep] arena_free [OF rep] by auto
  have l: "linked (nxt(f := v)) b ids = linked nxt b ids" if "f \<notin> set ids" for b ids
    using that by (rule linked_upd)
  show "arena_rep (nxt(f := v)) (nxt f) lim fs Ch" using rep u l unfolding arena_rep_def unowned_def by auto
qed

lemma arena_attach:
  assumes rep: "arena_rep nxt free lim fs Ch" and k: "Ch k = Some ids" and n: "unowned fs Ch n" "n < lim" "n \<noteq> 0"
  shows "arena_rep (nxt(n := head_of ids)) free lim fs (Ch(k \<mapsto> n # ids))"
proof (rule arena_updI [OF rep])
  have u: "n \<notin> set fs" "\<And>j js. Ch j = Some js \<Longrightarrow> n \<notin> set js" using n(1) by (auto simp: unowned_def)
  show "linked (nxt(n := head_of ids)) free fs" using u arena_free [OF rep] by (simp add: linked_upd)
  show "\<forall>i \<in> set fs. i < lim" "lim \<le> lim" using arena_free_less [OF rep] by auto
  show "linked (nxt(n := head_of ids)) (head_of (n # ids)) (n # ids)"
    using n(3) arena_chain [OF rep k] u(2) [OF k] by (simp add: linked_upd)
  show "\<forall>i \<in> set (n # ids). i < lim \<and> i \<notin> set fs"
    using arena_chain_less [OF rep k] arena_chain_not_free [OF rep k] u n by auto
  fix j js assume "j \<noteq> k" "Ch j = Some js"
  then show "\<forall>i \<in> set js. (nxt(n := head_of ids)) i = nxt i \<and> i \<notin> set fs \<and> i \<notin> set (n # ids)"
    using u(2) arena_disjoint [OF rep _ k] arena_chain_not_free [OF rep] by auto
qed

lemma tbc_get_Some [simp]: "b \<le> tbc_size bc \<Longrightarrow> tbc_get bc b = Some (tbc_data bc b)"
  by (simp add: tbc_get_def)

lemma tbc_put_Some [simp]: "b \<le> tbc_size bc \<Longrightarrow> tbc_put bc b x = Some (bc\<lparr>tbc_data := (tbc_data bc)(b := x)\<rparr>)"
  by (simp add: tbc_put_def)

lemma tb_nxt_upd [simp]: "tb_nxt (bc\<lparr>tbc_data := (tbc_data bc)(b := x)\<rparr>) = (tb_nxt bc)(b := tb_cont x)"
  "tb_nxt (bc\<lparr>tbc_data := (tbc_data bc)(b := x), tbc_free_list := f\<rparr>) = (tb_nxt bc)(b := tb_cont x)"
  "tb_nxt (bc\<lparr>tbc_free_list := f, tbc_data := (tbc_data bc)(b := x)\<rparr>) = (tb_nxt bc)(b := tb_cont x)"
  by (auto simp: tb_nxt_def)

lemma tb_repD:
  assumes "tb_rep bc fs Ch"
  shows "tbc_mapped bc" "tbc_length bc = tbc_size bc" "2 \<le> tbc_size bc"
    "arena_rep (tb_nxt bc) (tbc_free_list bc) (tbc_size bc) fs Ch" "\<And>i. i \<in> set fs \<Longrightarrow> 2 \<le> i"
    "\<And>k ids i. Ch k = Some ids \<Longrightarrow> i \<in> set ids \<Longrightarrow> 2 \<le> i \<and> i < tbc_size bc \<and> block_ok (tbc_data bc i)"
  using assms arena_chain_less [of "tb_nxt bc" "tbc_free_list bc" "tbc_size bc" fs Ch] unfolding tb_rep_def by auto

section \<open>Allocation\<close>

lemma free_block_ok:
  assumes "tb_rep bc fs Ch" "unowned fs Ch b" "2 \<le> b" "b < tbc_size bc"
  defines "bc' \<equiv> bc\<lparr>tbc_data := (tbc_data bc)(b := (tbc_data bc b)\<lparr>tb_cont := tbc_free_list bc\<rparr>), tbc_free_list := b\<rparr>"
  shows "fs_tbchain_free_block bc b = Some (0, bc')" "tb_rep bc' (b # fs) Ch"
proof -
  note r = tb_repD [OF assms(1)]
  show "fs_tbchain_free_block bc b = Some (0, bc')"
    using assms(3,4) r(2) by (simp add: fs_tbchain_free_block_def bc'_def)
  have "arena_rep ((tb_nxt bc)(b := tbc_free_list bc)) b (tbc_size bc) (b # fs) Ch"
    using arena_push [OF r(4) assms(2,4)] assms(3) by simp
  then show "tb_rep bc' (b # fs) Ch"
    using r(1,2,3,5) r(6) assms(2,3) unfolding tb_rep_def bc'_def unowned_def by (auto simp: block_ok_def)
qed

lemma free_blocks_ok:
  "tb_rep bc fs Ch \<Longrightarrow> distinct is \<Longrightarrow> \<forall>i \<in> set is. unowned fs Ch i \<and> 2 \<le> i \<and> i < tbc_size bc \<Longrightarrow>
   \<exists>bc'. free_blocks bc is = Some bc' \<and> tb_rep bc' (rev is @ fs) Ch \<and> tbc_size bc' = tbc_size bc
     \<and> (\<forall>j. j \<notin> set is \<longrightarrow> tbc_data bc' j = tbc_data bc j)"
proof (induction "is" arbitrary: bc fs)
  case (Cons i "is")
  let ?bc = "bc\<lparr>tbc_data := (tbc_data bc)(i := (tbc_data bc i)\<lparr>tb_cont := tbc_free_list bc\<rparr>), tbc_free_list := i\<rparr>"
  have f: "fs_tbchain_free_block bc i = Some (0, ?bc)" "tb_rep ?bc (i # fs) Ch"
    using free_block_ok [OF Cons.prems(1), of i] Cons.prems(3) by auto
  have "\<forall>j \<in> set is. unowned (i # fs) Ch j \<and> 2 \<le> j \<and> j < tbc_size ?bc"
    using Cons.prems(2,3) by (auto simp: unowned_def)
  then obtain bc' where "free_blocks ?bc is = Some bc'" "tb_rep bc' (rev is @ i # fs) Ch" "tbc_size bc' = tbc_size ?bc"
      "\<forall>j. j \<notin> set is \<longrightarrow> tbc_data bc' j = tbc_data ?bc j"
    using Cons.IH [OF f(2)] Cons.prems(2) by auto
  then show ?case using f(1) by auto
qed auto

lemma create_ok: "\<exists>bc. fs_tbchain_create = Some bc \<and> tb_rep bc (rev [2..<TBCHAIN_INIT_SIZE]) (Map.empty :: 'k \<rightharpoonup> nat list) \<and> tbc_size bc = TBCHAIN_INIT_SIZE"
proof -
  let ?bc = "\<lparr>tbc_mapped = True, tbc_size = TBCHAIN_INIT_SIZE, tbc_length = TBCHAIN_INIT_SIZE, tbc_free_list = 0, tbc_data = (\<lambda>_. zero_tblock)\<rparr>"
  have "2 \<le> TBCHAIN_INIT_SIZE" by (simp add: TBCHAIN_INIT_SIZE_def)
  then have "tb_rep ?bc [] (Map.empty :: 'k \<rightharpoonup> nat list)" by (simp add: tb_rep_def arena_empty)
  from free_blocks_ok [OF this, of "[2..<TBCHAIN_INIT_SIZE]"] show ?thesis
    unfolding fs_tbchain_create_def by (auto simp: unowned_def)
qed

text \<open>Growing the file puts the new blocks on the free list.\<close>

lemma tb_grow_ok:
  assumes rep: "tb_rep bc fs Ch" and e: "tbc_free_list bc = 0"
  defines "g \<equiv> (map_bc (unmap_bc bc) (tbc_length bc) (tbc_size bc * 2))\<lparr>tbc_length := tbc_size bc * 2\<rparr>"
  shows "\<exists>bc' fs'. free_blocks g [tbc_size bc..<tbc_size bc * 2] = Some bc' \<and> tb_rep bc' fs' Ch \<and> fs' \<noteq> []
    \<and> (\<forall>j < tbc_size bc. tbc_data bc' j = tbc_data bc j) \<and> tbc_size bc' = tbc_size bc * 2"
proof -
  note r = tb_repD [OF rep]
  have fs: "fs = []" using arena_free [OF r(4)] e by simp
  have g: "tbc_size g = tbc_size bc * 2" "tbc_length g = tbc_size bc * 2" "tbc_mapped g" "tbc_free_list g = 0"
      "\<And>j. j < tbc_size bc \<Longrightarrow> tbc_data g j = tbc_data bc j"
    using e by (auto simp: g_def map_bc_def unmap_bc_def)
  have "arena_rep (tb_nxt g) 0 (tbc_size bc * 2) [] Ch"
    using arena_lim_mono [OF arena_cong [OF r(4)], of "tb_nxt g" "tbc_size bc * 2"] g(5) e fs by (simp add: tb_nxt_def)
  then have "tb_rep g [] Ch" unfolding tb_rep_def using g r(3,6) by auto
  moreover have "\<forall>i \<in> set [tbc_size bc..<tbc_size bc * 2]. unowned [] Ch i \<and> 2 \<le> i \<and> i < tbc_size g"
    using r(3,6) g(1) by (auto simp: unowned_def) fastforce
  ultimately obtain bc' where b: "free_blocks g [tbc_size bc..<tbc_size bc * 2] = Some bc'"
      "tb_rep bc' (rev [tbc_size bc..<tbc_size bc * 2] @ []) Ch"
      "\<forall>j. j \<notin> set [tbc_size bc..<tbc_size bc * 2] \<longrightarrow> tbc_data bc' j = tbc_data g j" "tbc_size bc' = tbc_size bc * 2"
    using free_blocks_ok [of g "[]" Ch "[tbc_size bc..<tbc_size bc * 2]"] g(1) by auto
  moreover have "\<forall>j < tbc_size bc. tbc_data bc' j = tbc_data bc j" using b(3) g(5) by simp
  moreover have "rev [tbc_size bc..<tbc_size bc * 2] \<noteq> []" using r(3) by simp
  ultimately show ?thesis by (intro exI [of _ bc'] exI [of _ "rev [tbc_size bc..<tbc_size bc * 2]"]) auto
qed

text \<open>A new block is cleared and belongs to nobody; the blocks of the chains are as before.\<close>

lemma new_block_ok:
  assumes rep: "tb_rep bc fs Ch" and room: "tb_room bc"
  obtains b bc' fs' where "fs_tbchain_new_block bc = Some (b, bc')" "tb_rep bc' fs' Ch" "unowned fs' Ch b" "tbc_size bc' \<le> 2 * tbc_size bc"
    "2 \<le> b" "b < tbc_size bc'" "tbc_data bc' b = zero_tblock" "\<And>k ids i. Ch k = Some ids \<Longrightarrow> i \<in> set ids \<Longrightarrow> tbc_data bc' i = tbc_data bc i"
proof -
  note r = tb_repD [OF rep]
  have "\<exists>bc1 fs1. tb_grow bc = Some bc1 \<and> tb_rep bc1 fs1 Ch \<and> fs1 \<noteq> [] \<and> (\<forall>j < tbc_size bc. tbc_data bc1 j = tbc_data bc j)
      \<and> tbc_size bc1 \<le> 2 * tbc_size bc"
  proof (cases "tbc_free_list bc = 0")
    case True
    with tb_grow_ok [OF rep True] room r(2) show ?thesis by (auto simp: tb_room_def tb_grow_def)
  next
    case False
    then have "fs \<noteq> []" using arena_free [OF r(4)] by auto
    with False rep show ?thesis by (auto simp: tb_grow_def)
  qed
  then obtain bc1 fs1 where g: "tb_grow bc = Some bc1" "tb_rep bc1 fs1 Ch" "fs1 \<noteq> []"
      "\<forall>j < tbc_size bc. tbc_data bc1 j = tbc_data bc j" "tbc_size bc1 \<le> 2 * tbc_size bc"
    by blast
  then obtain f fs' where f: "fs1 = f # fs'" by (cases fs1) auto
  note r1 = tb_repD [OF g(2)]
  note u = arena_unfree(1) [OF r1(4) [unfolded f], of 0] arena_unfree(2-5) [OF r1(4) [unfolded f]]
  let ?bc = "bc1\<lparr>tbc_free_list := tb_nxt bc1 f, tbc_data := (tbc_data bc1)(f := zero_tblock)\<rparr>"
  have n: "fs_tbchain_new_block bc = Some (f, ?bc)"
    unfolding fs_tbchain_new_block_def Let_def using r(1,2,3) g(1) u(3-5) by (simp add: tb_nxt_def)
  have z: "tb_cont zero_tblock = 0" by (simp add: zero_tblock_def)
  have nf: "f \<notin> set ids" if "Ch k = Some ids" for k ids using u(2) that by (auto simp: unowned_def)
  have "tb_rep ?bc fs' Ch" unfolding tb_rep_def
    using r1(1,2,3,5,6) u(1) f z nf by auto
  moreover have "tbc_data ?bc i = tbc_data bc i" if "Ch k = Some ids" "i \<in> set ids" for k ids i
    using that nf [OF that(1)] r(6) [OF that] g(4) by auto
  ultimately show ?thesis using that [of f ?bc fs'] n u(2,3) r1(5) f g(5) by simp
qed

section \<open>Chains as lists of blocks\<close>

text \<open>The flags of the first block and the triples of every block.\<close>

definition chains_of :: "tbchain \<Rightarrow> ('k \<rightharpoonup> nat list) \<Rightarrow> 'k \<rightharpoonup> u8 \<times> triple list list" where
  "chains_of bc Ch k = map_option (\<lambda>ids. (tb_flags (tbc_data bc (head_of ids)), map (\<lambda>i. block_triples (tbc_data bc i)) ids)) (Ch k)"

text \<open>The owners of \<open>C\<close> have their chains at the heads \<open>h\<close>.\<close>

definition tb_holds :: "tbchain \<Rightarrow> ('k \<Rightarrow> nat) \<Rightarrow> ('k \<rightharpoonup> u8 \<times> triple list list) \<Rightarrow> bool" where
  "tb_holds bc h C \<longleftrightarrow> (\<exists>fs Ch. tb_rep bc fs Ch \<and> C = chains_of bc Ch \<and> (\<forall>k ids. Ch k = Some ids \<longrightarrow> ids \<noteq> [] \<and> h k = head_of ids))"

lemma tb_holdsE:
  assumes "tb_holds bc h C"
  obtains fs Ch where "tb_rep bc fs Ch" "C = chains_of bc Ch" "\<And>k ids. Ch k = Some ids \<Longrightarrow> ids \<noteq> [] \<and> h k = head_of ids"
  using assms unfolding tb_holds_def by blast

lemma tb_holdsI:
  "tb_rep bc fs Ch \<Longrightarrow> (\<And>k. C k = chains_of bc Ch k) \<Longrightarrow> (\<And>k ids. Ch k = Some ids \<Longrightarrow> ids \<noteq> [] \<and> h k = head_of ids) \<Longrightarrow> tb_holds bc h C"
  unfolding tb_holds_def by blast

lemma chains_of_Some:
  "chains_of bc Ch k = Some (fl, xss) \<longleftrightarrow>
   (\<exists>ids. Ch k = Some ids \<and> fl = tb_flags (tbc_data bc (head_of ids)) \<and> xss = map (\<lambda>i. block_triples (tbc_data bc i)) ids)"
  by (auto simp: chains_of_def)

lemma chains_of_frame:
  assumes "ids \<noteq> []" "\<And>i. i \<in> set ids \<Longrightarrow> tbc_data bc' i = tbc_data bc i" "Ch k = Some ids" "Ch' k = Some ids"
  shows "chains_of bc' Ch' k = chains_of bc Ch k"
proof -
  have "head_of ids \<in> set ids" using assms(1) by (cases ids) auto
  with assms(2-) show ?thesis by (simp add: chains_of_def)
qed

text \<open>A block of one chain is overwritten without changing its link.\<close>

lemma tb_rep_put:
  assumes "tb_rep bc fs Ch" "tb_cont x = tb_nxt bc b" "block_ok x"
  shows "tb_rep (bc\<lparr>tbc_data := (tbc_data bc)(b := x)\<rparr>) fs Ch"
proof -
  have "(tb_nxt bc)(b := tb_cont x) = tb_nxt bc" using assms(2) by auto
  then show ?thesis using assms(1,3) unfolding tb_rep_def by auto
qed

lemma chains_put:
  assumes rep: "tb_rep bc fs Ch" and ne: "\<And>k ids. Ch k = Some ids \<Longrightarrow> ids \<noteq> []"
    and k: "Ch k = Some (pre @ b # post)"
    and fl: "fl = (if pre = [] then tb_flags x else tb_flags (tbc_data bc (head_of pre)))"
  defines "bl \<equiv> \<lambda>i. block_triples (tbc_data bc i)"
  shows "chains_of (bc\<lparr>tbc_data := (tbc_data bc)(b := x)\<rparr>) Ch =
    (chains_of bc Ch)(k \<mapsto> (fl, map bl pre @ block_triples x # map bl post))"
proof
  fix j
  let ?bc = "bc\<lparr>tbc_data := (tbc_data bc)(b := x)\<rparr>"
  note a = tb_repD(4) [OF rep]
  have d: "distinct (pre @ b # post)" by (rule arena_chain_distinct [OF a k])
  show "chains_of ?bc Ch j = ((chains_of bc Ch)(k \<mapsto> (fl, map bl pre @ block_triples x # map bl post))) j"
  proof (cases "j = k")
    case True
    have "tb_flags (tbc_data ?bc (head_of (pre @ b # post))) = fl" using d fl by (cases pre) auto
    with True k d show ?thesis by (auto simp: chains_of_def bl_def)
  next
    case False
    show ?thesis
    proof (cases "Ch j")
      case (Some ids)
      have "b \<notin> set ids" using arena_disjoint [OF a k Some False [symmetric], of b] by simp
      then have "chains_of ?bc Ch j = chains_of bc Ch j" using ne [OF Some] Some by (intro chains_of_frame) auto
      with False show ?thesis by simp
    qed (use False in \<open>simp add: chains_of_def\<close>)
  qed
qed

lemma tb_holds_put:
  assumes rep: "tb_rep bc fs Ch" and hd: "\<And>k ids. Ch k = Some ids \<Longrightarrow> ids \<noteq> [] \<and> h k = head_of ids"
    and k: "Ch k = Some (pre @ b # post)" and x: "tb_cont x = tb_nxt bc b" "block_ok x"
    and fl: "fl = (if pre = [] then tb_flags x else tb_flags (tbc_data bc (head_of pre)))"
  defines "bl \<equiv> \<lambda>i. block_triples (tbc_data bc i)"
  shows "tb_holds (bc\<lparr>tbc_data := (tbc_data bc)(b := x)\<rparr>) h
    ((chains_of bc Ch)(k \<mapsto> (fl, map bl pre @ block_triples x # map bl post)))"
  by (rule tb_holdsI [OF tb_rep_put [OF rep x]])
    (use hd chains_put [OF rep _ k fl] in \<open>auto simp: bl_def\<close>)

lemma put_head:
  assumes "tb_rep bc fs Ch" "\<And>k ids. Ch k = Some ids \<Longrightarrow> ids \<noteq> [] \<and> h k = head_of ids" "Ch k = Some ids"
  obtains post where "ids = h k # post" "2 \<le> h k" "h k < tbc_size bc" "block_ok (tbc_data bc (h k))"
  using assms(2) [OF assms(3)] tb_repD(6) [OF assms(1,3), of "h k"] by (cases ids) auto

lemma attach_block:
  assumes rep: "tb_rep bc fs Ch" and b: "unowned fs Ch b" "2 \<le> b" "b < tbc_size bc"
    and k: "Ch k = Some ids" and x: "tb_cont x = head_of ids" "block_ok x"
  shows "tb_rep (bc\<lparr>tbc_data := (tbc_data bc)(b := x)\<rparr>) fs (Ch(k \<mapsto> b # ids))"
proof -
  note r = tb_repD [OF rep]
  have "arena_rep ((tb_nxt bc)(b := tb_cont x)) (tbc_free_list bc) (tbc_size bc) fs (Ch(k \<mapsto> b # ids))"
    using arena_attach [OF r(4) k b(1,3)] b(2) x(1) by simp
  then show ?thesis unfolding tb_rep_def using r(1,2,3,5,6) k b(2) x(2) by auto
qed

lemma new_owner_rep: "tb_rep bc fs Ch \<Longrightarrow> Ch k = None \<Longrightarrow> tb_rep bc fs (Ch(k \<mapsto> []))"
  unfolding tb_rep_def by (auto intro: arena_new_owner split: if_splits)

lemma chains_attach:
  assumes "unowned fs Ch b" "\<And>k ids. Ch k = Some ids \<Longrightarrow> ids \<noteq> []" "Ch k = Some ids \<or> ids = []"
    "\<And>j js i. Ch j = Some js \<Longrightarrow> i \<in> set js \<Longrightarrow> tbc_data bc' i = tbc_data bc i"
  shows "chains_of (bc'\<lparr>tbc_data := (tbc_data bc')(b := x)\<rparr>) (Ch(k \<mapsto> b # ids)) =
    (chains_of bc Ch)(k \<mapsto> (tb_flags x, block_triples x # map (\<lambda>i. block_triples (tbc_data bc i)) ids))"
proof
  fix j
  let ?bc = "bc'\<lparr>tbc_data := (tbc_data bc')(b := x)\<rparr>"
  have nb: "b \<notin> set js" if "Ch j = Some js" for j js using assms(1) that by (auto simp: unowned_def)
  show "chains_of ?bc (Ch(k \<mapsto> b # ids)) j =
      ((chains_of bc Ch)(k \<mapsto> (tb_flags x, block_triples x # map (\<lambda>i. block_triples (tbc_data bc i)) ids))) j"
  proof (cases "j = k")
    case True
    then show ?thesis using assms(3,4) nb by (auto simp: chains_of_def)
  next
    case False
    show ?thesis
    proof (cases "Ch j")
      case (Some js)
      have "chains_of ?bc (Ch(k \<mapsto> b # ids)) j = chains_of bc Ch j"
        by (rule chains_of_frame [where ids = js]) (use False Some assms(2,4) nb in auto)
      with False show ?thesis by simp
    qed (use False in \<open>simp add: chains_of_def\<close>)
  qed
qed

lemma block_ok_zero: "block_ok (zero_tblock\<lparr>tb_cont := c, tb_flags := f\<rparr>)" "block_ok zero_tblock"
  by (simp_all add: block_ok_def zero_tblock_def)

lemma new_chain_ok:
  assumes "tb_holds bc h C" "C k = None" "tb_room bc"
  shows "\<exists>b bc'. fs_tbchain_new_chain bc = Some (b, bc') \<and> 2 \<le> b \<and> tb_holds bc' (h(k := b)) (C(k \<mapsto> (0, [[]])))
    \<and> tbc_size bc' \<le> 2 * tbc_size bc"
proof -
  obtain fs Ch where r: "tb_rep bc fs Ch" "C = chains_of bc Ch" "\<And>k ids. Ch k = Some ids \<Longrightarrow> ids \<noteq> [] \<and> h k = head_of ids"
    using tb_holdsE [OF assms(1)] by blast
  have k: "Ch k = None" using assms(2) r(2) by (simp add: chains_of_def)
  obtain b bc1 fs1 where n: "fs_tbchain_new_block bc = Some (b, bc1)" "tb_rep bc1 fs1 Ch" "unowned fs1 Ch b" "2 \<le> b" "b < tbc_size bc1"
      "tbc_data bc1 b = zero_tblock" "\<And>k ids i. Ch k = Some ids \<Longrightarrow> i \<in> set ids \<Longrightarrow> tbc_data bc1 i = tbc_data bc i" "tbc_size bc1 \<le> 2 * tbc_size bc"
    using new_block_ok [OF r(1) assms(3)] by metis
  let ?bc = "bc1\<lparr>tbc_data := (tbc_data bc1)(b := zero_tblock\<lparr>tb_cont := 0\<rparr>)\<rparr>"
  have e: "fs_tbchain_new_chain bc = Some (b, ?bc)" using n(1,5,6) by (simp add: fs_tbchain_new_chain_def)
  have u: "unowned fs1 (Ch(k \<mapsto> [])) b" using n(3) by (auto simp: unowned_def)
  have z: "block_ok (zero_tblock\<lparr>tb_cont := 0\<rparr>)" by (simp add: block_ok_def zero_tblock_def)
  have rep: "tb_rep ?bc fs1 (Ch(k \<mapsto> [b]))"
    using attach_block [OF new_owner_rep [OF n(2) k] u n(4,5), of k "[]" "zero_tblock\<lparr>tb_cont := 0\<rparr>"] z by simp
  have c: "chains_of ?bc (Ch(k \<mapsto> [b])) = C(k \<mapsto> (0, [[]]))"
    using chains_attach [OF n(3), of k "[]" bc1 bc "zero_tblock\<lparr>tb_cont := 0\<rparr>"] r(2,3) n(7)
    by (simp add: zero_tblock_def block_triples_def)
  have "tb_holds ?bc (h(k := b)) (C(k \<mapsto> (0, [[]])))"
    by (rule tb_holdsI [OF rep]) (use c r(3) in \<open>auto split: if_splits\<close>)
  with e n(4,8) show ?thesis by (intro exI [of _ b] exI [of _ ?bc]) simp
qed

text \<open>
  A new chain takes a free block, growing the file when there is none, and is empty and
  unflagged; the chains of all other owners stay as they are.
\<close>

theorem tbchain_new_chain_refines:
  assumes "tb_holds bc h C" "C k = None" "tb_room bc"
  shows "\<exists>b bc'. fs_tbchain_new_chain bc = Some (b, bc') \<and> 2 \<le> b \<and> tb_holds bc' (h(k := b)) (C(k \<mapsto> (0, [[]])))
    \<and> tbc_size bc' \<le> 2 * tbc_size bc"
  using assms by (rule new_chain_ok)

text \<open>A triple goes to the end of the first block, or to a new block in front of a full one.\<close>

fun add_entry :: "triple \<Rightarrow> triple list list \<Rightarrow> triple list list" where
  "add_entry t [] = [[t]]"
| "add_entry t (xs # xss) = (if length xs < FS_TBLOCK_LEN then (xs @ [t]) # xss else [t] # xs # xss)"

lemma block_triples_add:
  "block_ok x \<Longrightarrow> tb_length x < FS_TBLOCK_LEN \<Longrightarrow>
   block_triples (x\<lparr>tb_data := (tb_data x)[tb_length x := t], tb_length := tb_length x + 1\<rparr>) = block_triples x @ [t]"
  by (simp add: block_triples_def block_ok_def take_Suc_conv_app_nth)

lemma length_block_triples: "block_ok x \<Longrightarrow> length (block_triples x) = tb_length x"
  by (simp add: block_triples_def block_ok_def)

lemma add_triple_in_head:
  assumes r: "tb_rep bc fs Ch" "\<And>k ids. Ch k = Some ids \<Longrightarrow> ids \<noteq> [] \<and> h k = head_of ids" "Ch k = Some (b # post)"
    and l: "tb_length (tbc_data bc b) < FS_TBLOCK_LEN"
  shows "\<exists>bc'. fs_tbchain_add_triple bc b t = Some (b, bc') \<and> tbc_size bc' \<le> 2 * tbc_size bc \<and> tb_holds bc' h ((chains_of bc Ch)(k \<mapsto>
    (tb_flags (tbc_data bc b), add_entry t (map (\<lambda>i. block_triples (tbc_data bc i)) (b # post)))))"
proof -
  let ?x = "tbc_data bc b"
  let ?y = "?x\<lparr>tb_data := (tb_data ?x)[tb_length ?x := t], tb_length := tb_length ?x + 1\<rparr>"
  have b: "2 \<le> b" "b < tbc_size bc" "block_ok ?x" using tb_repD(6) [OF r(1,3)] by auto
  have "store_at (tb_data ?x) (tb_length ?x) t = Some ((tb_data ?x)[tb_length ?x := t])" using b(3) l by (simp add: block_ok_def)
  moreover have "b \<le> tbc_length bc" "b \<noteq> 0" "b \<noteq> 1" using b tb_repD(2) [OF r(1)] by auto
  ultimately have e: "fs_tbchain_add_triple bc b t = Some (b, bc\<lparr>tbc_data := (tbc_data bc)(b := ?y)\<rparr>)"
    using b(2) l by (simp add: fs_tbchain_add_triple_def head_block_def)
  have "block_ok ?y" using b(3) l by (simp add: block_ok_def)
  then have "tb_holds (bc\<lparr>tbc_data := (tbc_data bc)(b := ?y)\<rparr>) h ((chains_of bc Ch)(k \<mapsto>
      (tb_flags ?x, add_entry t (map (\<lambda>i. block_triples (tbc_data bc i)) (b # post)))))"
    using tb_holds_put [where k = k and pre = "[]" and b = b and post = post and x = ?y and fl = "tb_flags ?x", OF r(1,2)] r(3) b(3) l block_triples_add [OF b(3) l, of t]
    by (simp add: tb_nxt_def length_block_triples)
  with e show ?thesis by (intro exI [of _ "bc\<lparr>tbc_data := (tbc_data bc)(b := ?y)\<rparr>"]) simp
qed

lemma add_triple_new_head:
  assumes r: "tb_rep bc fs Ch" "\<And>k ids. Ch k = Some ids \<Longrightarrow> ids \<noteq> [] \<and> h k = head_of ids" "Ch k = Some (b # post)"
    and l: "\<not> tb_length (tbc_data bc b) < FS_TBLOCK_LEN" and room: "tb_room bc"
  shows "\<exists>n bc'. fs_tbchain_add_triple bc b t = Some (n, bc') \<and> tbc_size bc' \<le> 2 * tbc_size bc \<and> tb_holds bc' (h(k := n)) ((chains_of bc Ch)(k \<mapsto>
    (tb_flags (tbc_data bc b), add_entry t (map (\<lambda>i. block_triples (tbc_data bc i)) (b # post)))))"
proof -
  obtain n bc1 fs1 where n: "fs_tbchain_new_block bc = Some (n, bc1)" "tb_rep bc1 fs1 Ch" "unowned fs1 Ch n" "2 \<le> n" "n < tbc_size bc1"
      "tbc_data bc1 n = zero_tblock" "\<And>k ids i. Ch k = Some ids \<Longrightarrow> i \<in> set ids \<Longrightarrow> tbc_data bc1 i = tbc_data bc i" "tbc_size bc1 \<le> 2 * tbc_size bc"
    using new_block_ok [OF r(1) room] by metis
  have b: "2 \<le> b" "b < tbc_size bc" "block_ok (tbc_data bc b)" "b < tbc_size bc1" "b \<le> tbc_length bc"
    using tb_repD(6) [OF r(1,3), of b] tb_repD(6) [OF n(2) r(3), of b] tb_repD(2) [OF r(1)] by auto
  have db: "tbc_data bc1 b = tbc_data bc b" using n(7) [OF r(3), of b] by simp
  have nb: "n \<noteq> b" using n(3) r(3) unfolding unowned_def by fastforce
  let ?z = "zero_tblock\<lparr>tb_cont := b, tb_length := 0, tb_flags := tb_flags (tbc_data bc b)\<rparr>"
  let ?y = "?z\<lparr>tb_data := (tb_data ?z)[0 := t], tb_length := 1\<rparr>"
  let ?bc = "bc1\<lparr>tbc_data := (tbc_data bc1)(n := ?y)\<rparr>"
  have z: "length (tb_data zero_tblock) = 5" "length (tb_data ?z) = 5" "tb_length ?z = 0" by (simp_all add: zero_tblock_def FS_TBLOCK_LEN_def)
  have hb: "head_block bc b = Some (n, True, bc1\<lparr>tbc_data := (tbc_data bc1)(n := ?z)\<rparr>)"
    using b l n(1,4,5,6) db nb by (simp add: head_block_def not_less)
  have e: "fs_tbchain_add_triple bc b t = Some (n, ?bc)"
    using b(1,5) n(5) hb z unfolding fs_tbchain_add_triple_def by simp
  have y: "tb_cont ?y = head_of (b # post)" "block_ok ?y" "block_triples ?y = [t]" "tb_flags ?y = tb_flags (tbc_data bc b)"
    using z by (simp_all add: block_ok_def FS_TBLOCK_LEN_def block_triples_def take_Suc_conv_app_nth)
  have rep: "tb_rep ?bc fs1 (Ch(k \<mapsto> n # b # post))" by (rule attach_block [OF n(2-5) r(3) y(1,2)])
  have c: "chains_of ?bc (Ch(k \<mapsto> n # b # post)) = (chains_of bc Ch)(k \<mapsto>
      (tb_flags (tbc_data bc b), [t] # map (\<lambda>i. block_triples (tbc_data bc i)) (b # post)))"
    using chains_attach [OF n(3), of k "b # post" bc1 bc ?y] r(2,3) n(7) unfolding y(3,4) by blast
  have a: "add_entry t (map (\<lambda>i. block_triples (tbc_data bc i)) (b # post)) = [t] # map (\<lambda>i. block_triples (tbc_data bc i)) (b # post)"
    using l b(3) by (simp add: length_block_triples)
  have "tb_holds ?bc (h(k := n)) ((chains_of bc Ch)(k \<mapsto>
      (tb_flags (tbc_data bc b), add_entry t (map (\<lambda>i. block_triples (tbc_data bc i)) (b # post)))))"
    unfolding a by (rule tb_holdsI [OF rep]) (use c r(2) in \<open>auto split: if_splits\<close>)
  with e n(8) show ?thesis by (intro exI [of _ n] exI [of _ ?bc]) simp
qed

lemma add_triple_ok:
  assumes "tb_holds bc h C" "C k = Some (fl, xss)" "tb_room bc"
  shows "\<exists>b bc'. fs_tbchain_add_triple bc (h k) t = Some (b, bc') \<and> tb_holds bc' (h(k := b)) (C(k \<mapsto> (fl, add_entry t xss)))
    \<and> mset (concat (add_entry t xss)) = add_mset t (mset (concat xss)) \<and> tbc_size bc' \<le> 2 * tbc_size bc"
proof -
  obtain fs Ch where r: "tb_rep bc fs Ch" "C = chains_of bc Ch" "\<And>k ids. Ch k = Some ids \<Longrightarrow> ids \<noteq> [] \<and> h k = head_of ids"
    using tb_holdsE [OF assms(1)] by blast
  obtain ids where ids: "Ch k = Some ids" "fl = tb_flags (tbc_data bc (head_of ids))" "xss = map (\<lambda>i. block_triples (tbc_data bc i)) ids"
    using assms(2) unfolding r(2) chains_of_Some by blast
  obtain post where p: "ids = h k # post" by (rule put_head [OF r(1,3) ids(1)])
  have m: "mset (concat (add_entry t xss)) = add_mset t (mset (concat xss))" by (cases xss) auto
  show ?thesis
  proof (cases "tb_length (tbc_data bc (h k)) < FS_TBLOCK_LEN")
    case True
    obtain bc' where "fs_tbchain_add_triple bc (h k) t = Some (h k, bc')" "tb_holds bc' h (C(k \<mapsto> (fl, add_entry t xss)))"
        "tbc_size bc' \<le> 2 * tbc_size bc"
      using add_triple_in_head [where h = h and k = k and post = post and t = t, OF r(1,3) _ True] ids r(2) by (auto simp: p simp del: add_entry.simps)
    with m show ?thesis by auto
  next
    case False
    show ?thesis
      using add_triple_new_head [where h = h and k = k and post = post and t = t, OF r(1,3) _ False assms(3)] ids r(2) m by (auto simp: p simp del: add_entry.simps)
  qed
qed

text \<open>
  C31: Adding a triple to a chain gives back a head whose chain lists the old triples and the new
  one, in the first block while that has room and in a new block in front of it afterwards, with
  the flags of the chain kept; the chains of all other owners stay as they are.
\<close>

theorem tbchain_add_triple_refines:
  assumes "tb_holds bc h C" "C k = Some (fl, xss)" "tb_room bc"
  shows "\<exists>b bc'. fs_tbchain_add_triple bc (h k) t = Some (b, bc') \<and> tb_holds bc' (h(k := b)) (C(k \<mapsto> (fl, add_entry t xss)))
    \<and> mset (concat (add_entry t xss)) = add_mset t (mset (concat xss)) \<and> tbc_size bc' \<le> 2 * tbc_size bc"
  using assms by (rule add_triple_ok)

section \<open>Removal, length and flags\<close>

lemma tb_remove_step:
  assumes rep: "tb_rep bc fs Ch" and k: "Ch k = Some (b # post)"
  defines "bc' \<equiv> bc\<lparr>tbc_data := (tbc_data bc)(b := (tbc_data bc b)\<lparr>tb_cont := tbc_free_list bc\<rparr>), tbc_free_list := b\<rparr>"
  shows "fs_tbchain_free_block bc b = Some (0, bc')" "tbc_get bc b = Some (tbc_data bc b)" "tb_rep bc' (b # fs) (Ch(k \<mapsto> post))"
proof -
  note r = tb_repD [OF rep]
  have b: "2 \<le> b" "b < tbc_size bc" using r(6) [OF k, of b] by auto
  then show "fs_tbchain_free_block bc b = Some (0, bc')" "tbc_get bc b = Some (tbc_data bc b)"
    using r(2) by (simp_all add: fs_tbchain_free_block_def bc'_def)
  have "arena_rep ((tb_nxt bc)(b := tbc_free_list bc)) b (tbc_size bc) (b # fs) (Ch(k \<mapsto> post))"
    using arena_unlink [OF r(4), of k "[]" b post] k by (simp add: unlink_nxt_def)
  moreover have "2 \<le> i \<and> block_ok (tbc_data bc' i)" if "(Ch(k \<mapsto> post)) j = Some js" "i \<in> set js" for j js i
    using that r(6) [of j _ i] r(6) [OF k, of i] by (auto simp: bc'_def block_ok_def split: if_splits)
  ultimately show "tb_rep bc' (b # fs) (Ch(k \<mapsto> post))"
    unfolding tb_rep_def using r(1-3,5) b(1) by (simp add: bc'_def del: fun_upd_apply)
qed

lemma tb_remove_loop_ok:
  "tb_rep bc fs Ch \<Longrightarrow> Ch k = Some (b # post) \<Longrightarrow>
   \<exists>bc' fs'. tb_remove_loop bc b = Some (0, bc') \<and> tb_rep bc' fs' (Ch(k \<mapsto> []))
     \<and> (\<forall>i. i \<notin> set (b # post) \<longrightarrow> tbc_data bc' i = tbc_data bc i)"
proof (induction post arbitrary: bc fs Ch b)
  case Nil
  note rep = Nil.prems(1) and k = Nil.prems(2)
  show ?case using tb_remove_step [OF rep k] arena_chain [OF tb_repD(4) [OF rep] k]
    by (subst tb_remove_loop.simps) (auto simp: tb_nxt_def)
next
  case (Cons c post)
  note rep = Cons.prems(1) and k = Cons.prems(2)
  let ?bc = "bc\<lparr>tbc_data := (tbc_data bc)(b := (tbc_data bc b)\<lparr>tb_cont := tbc_free_list bc\<rparr>), tbc_free_list := b\<rparr>"
  note st = tb_remove_step [OF rep k]
  have c: "tb_cont (tbc_data bc b) = c" "c \<noteq> 0" using arena_chain [OF tb_repD(4) [OF rep] k] by (auto simp: tb_nxt_def)
  have "c < tbc_size bc" using tb_repD(6) [OF rep k, of c] by simp
  then have e: "tb_remove_loop bc b = tb_remove_loop ?bc c" using st(1,2) c by (subst tb_remove_loop.simps) simp
  have "(Ch(k \<mapsto> c # post)) k = Some (c # post)" by simp
  then obtain bc' fs' where b: "tb_remove_loop ?bc c = Some (0, bc')" "tb_rep bc' fs' (Ch(k \<mapsto> c # post, k \<mapsto> []))"
      "\<forall>i. i \<notin> set (c # post) \<longrightarrow> tbc_data bc' i = tbc_data ?bc i"
    using Cons.IH [OF st(3)] by blast
  have "tb_rep bc' fs' (Ch(k \<mapsto> []))" using b(2) by (simp only: fun_upd_upd)
  moreover have "\<forall>i. i \<notin> set (b # c # post) \<longrightarrow> tbc_data bc' i = tbc_data bc i" using b(3) by simp
  ultimately show ?case unfolding e using b(1) by blast
qed

lemma tbchain_remove_ok:
  assumes "tb_holds bc h C" "C k = Some (fl, xss)"
  shows "\<exists>bc'. fs_tbchain_remove_chain bc (h k) = Some (0, bc') \<and> tb_holds bc' h (C(k := None))"
proof -
  obtain fs Ch where r: "tb_rep bc fs Ch" "C = chains_of bc Ch" "\<And>k ids. Ch k = Some ids \<Longrightarrow> ids \<noteq> [] \<and> h k = head_of ids"
    using tb_holdsE [OF assms(1)] by blast
  obtain ids where ids: "Ch k = Some ids" using assms(2) unfolding r(2) chains_of_Some by blast
  obtain post where p: "ids = h k # post" "2 \<le> h k" "h k < tbc_size bc" by (rule put_head [OF r(1,3) ids])
  obtain bc' fs' where b: "tb_remove_loop bc (h k) = Some (0, bc')" "tb_rep bc' fs' (Ch(k \<mapsto> []))"
      "\<forall>i. i \<notin> set ids \<longrightarrow> tbc_data bc' i = tbc_data bc i"
    using tb_remove_loop_ok [OF r(1) ids [unfolded p(1)]] p(1) by blast
  have rep: "tb_rep bc' fs' (Ch(k := None))"
    using b(2) arena_drop_owner [OF tb_repD(4) [OF b(2)], of k] unfolding tb_rep_def by (auto split: if_splits)
  have "tb_holds bc' h (C(k := None))"
  proof (rule tb_holdsI [OF rep])
    fix j
    show "(C(k := None)) j = chains_of bc' (Ch(k := None)) j"
    proof (cases "j = k \<or> Ch j = None")
      case False
      then obtain js where js: "Ch j = Some js" "j \<noteq> k" by auto
      have "i \<notin> set ids" if "i \<in> set js" for i using arena_disjoint [OF tb_repD(4) [OF r(1)] js(1) ids js(2) that] .
      then have "chains_of bc' (Ch(k := None)) j = chains_of bc Ch j"
        by (intro chains_of_frame [where ids = js]) (use js r(3) b(3) in auto)
      with js show ?thesis by (simp add: r(2))
    qed (auto simp: r(2) chains_of_def)
  qed (use r(3) in \<open>auto split: if_splits\<close>)
  moreover have "fs_tbchain_remove_chain bc (h k) = Some (0, bc')"
    using b(1) p(2,3) tb_repD(1) [OF r(1)] by (simp add: fs_tbchain_remove_chain_def)
  ultimately show ?thesis by blast
qed


lemma tb_length_loop_ok:
  "linked (tb_nxt bc) b (b # post) \<Longrightarrow> \<forall>i \<in> set (b # post). i < tbc_size bc \<Longrightarrow>
   n + sum_list (map (\<lambda>i. tb_length (tbc_data bc i)) (b # post)) < 2147483648 \<Longrightarrow>
   tb_length_loop bc (tbc_data bc b) n = Some (n + sum_list (map (\<lambda>i. tb_length (tbc_data bc i)) (b # post)))"
proof (induction post arbitrary: b n)
  case Nil
  then show ?case by (subst tb_length_loop.simps) (auto simp: tb_nxt_def)
next
  case (Cons c post)
  then have c: "tb_cont (tbc_data bc b) = c" "c \<noteq> 0" "c < tbc_size bc" by (auto simp: tb_nxt_def)
  then show ?case using Cons.IH [of c "n + tb_length (tbc_data bc b)"] Cons.prems
    by (subst tb_length_loop.simps) (simp add: add.assoc)
qed

text \<open>
  C26: The length of a chain is the number of its triples, for a chain of fewer than \<open>2 ^ 31\<close>.
\<close>

theorem tbchain_length_correct:
  assumes "tb_holds bc h C" "C k = Some (fl, xss)" "length (concat xss) < 2147483648"
  shows "fs_tbchain_length bc (h k) = Some (length (concat xss))"
proof -
  obtain fs Ch where r: "tb_rep bc fs Ch" "C = chains_of bc Ch" "\<And>k ids. Ch k = Some ids \<Longrightarrow> ids \<noteq> [] \<and> h k = head_of ids"
    using tb_holdsE [OF assms(1)] by blast
  obtain ids where ids: "Ch k = Some ids" "xss = map (\<lambda>i. block_triples (tbc_data bc i)) ids"
    using assms(2) unfolding r(2) chains_of_Some by blast
  obtain post where p: "ids = h k # post" "2 \<le> h k" "h k < tbc_size bc" by (rule put_head [OF r(1,3) ids(1)])
  have "block_ok (tbc_data bc i)" if "i \<in> set ids" for i using tb_repD(6) [OF r(1) ids(1) that] by simp
  then have "map length xss = map (\<lambda>i. tb_length (tbc_data bc i)) ids"
    unfolding ids(2) map_map comp_def by (intro map_cong) (auto simp: length_block_triples)
  then have l: "length (concat xss) = sum_list (map (\<lambda>i. tb_length (tbc_data bc i)) ids)" by (simp add: length_concat)
  have "linked (tb_nxt bc) (h k) (h k # post)" "\<forall>i \<in> set (h k # post). i < tbc_size bc"
    using arena_chain [OF tb_repD(4) [OF r(1)] ids(1)] tb_repD(6) [OF r(1) ids(1)] p(1) by auto
  from tb_length_loop_ok [OF this, of 0] have "tb_length_loop bc (tbc_data bc (h k)) 0 = Some (length (concat xss))"
    using assms(3) l p(1) by simp
  then show ?thesis using p(2,3) tb_repD(2) [OF r(1)] by (simp add: fs_tbchain_length_def)
qed

section \<open>A first chain\<close>

text \<open>A new file, one chain in it and one triple in the chain, as a state that meets the
  hypotheses of the theorems above.\<close>

abbreviation no_heads :: "unit \<Rightarrow> nat" where "no_heads \<equiv> \<lambda>_. 0"

lemma created: "\<exists>bc. fs_tbchain_create = Some bc \<and> tb_holds bc no_heads Map.empty \<and> tb_room bc \<and> tbc_size bc = 1024"
proof -
  obtain bc where bc: "fs_tbchain_create = Some bc" "tb_rep bc (rev [2..<TBCHAIN_INIT_SIZE]) (Map.empty :: unit \<rightharpoonup> nat list)"
      "tbc_size bc = TBCHAIN_INIT_SIZE" using create_ok by blast
  have "tb_holds bc no_heads Map.empty" by (rule tb_holdsI [OF bc(2)]) (simp_all add: chains_of_def)
  with bc(1,3) show ?thesis by (auto simp: tb_room_def TBCHAIN_INIT_SIZE_def)
qed

lemma first_chain:
  obtains bc b bc' where "fs_tbchain_create = Some bc" "fs_tbchain_new_chain bc = Some (b, bc')" "2 \<le> b"
    "tb_holds bc' (no_heads(() := b)) [() \<mapsto> (0, [[]])]" "tb_room bc'"
proof -
  obtain bc where bc: "fs_tbchain_create = Some bc" "tb_holds bc no_heads Map.empty" "tb_room bc" "tbc_size bc = 1024"
    using created by blast
  obtain b bc' where "fs_tbchain_new_chain bc = Some (b, bc')" "2 \<le> b" "tb_holds bc' (no_heads(() := b)) [() \<mapsto> (0, [[]])]"
      "tbc_size bc' \<le> 2 * tbc_size bc"
    using new_chain_ok [OF bc(2) _ bc(3), of "()"] by auto
  with bc(1,4) that show ?thesis by (simp add: tb_room_def)
qed

lemma first_triple:
  obtains bc b bc1 b' bc' where "fs_tbchain_create = Some bc" "fs_tbchain_new_chain bc = Some (b, bc1)"
    "fs_tbchain_add_triple bc1 b (1, 2, 3) = Some (b', bc')" "tb_holds bc' (no_heads(() := b')) [() \<mapsto> (0, [[(1, 2, 3)]])]"
proof -
  obtain bc b bc1 where c: "fs_tbchain_create = Some bc" "fs_tbchain_new_chain bc = Some (b, bc1)"
    "tb_holds bc1 (no_heads(() := b)) [() \<mapsto> (0, [[]])]" "tb_room bc1" by (rule first_chain)
  from add_triple_ok [OF c(3) _ c(4), of "()" 0 "[[]]" "(1, 2, 3)"] show ?thesis
    using c(1,2) that by (auto simp: FS_TBLOCK_LEN_def)
qed

theorem tbchain_new_chain_refines_witness:
  "\<exists>bc b bc'. fs_tbchain_create = Some bc \<and> fs_tbchain_new_chain bc = Some (b, bc')
    \<and> tb_holds bc' (no_heads(() := b)) [() \<mapsto> (0, [[]])]"
proof -
  obtain bc where bc: "fs_tbchain_create = Some bc" "tb_holds bc no_heads Map.empty" "tb_room bc" using created by blast
  from tbchain_new_chain_refines [OF bc(2) _ bc(3), of "()"] bc(1) show ?thesis by auto
qed

theorem tbchain_add_triple_refines_witness:
  "\<exists>bc b bc1 b' bc'. fs_tbchain_create = Some bc \<and> fs_tbchain_new_chain bc = Some (b, bc1)
    \<and> fs_tbchain_add_triple bc1 b (1, 2, 3) = Some (b', bc') \<and> tb_holds bc' (no_heads(() := b')) [() \<mapsto> (0, [[(1, 2, 3)]])]"
proof -
  obtain bc b bc1 where c: "fs_tbchain_create = Some bc" "fs_tbchain_new_chain bc = Some (b, bc1)"
    "tb_holds bc1 (no_heads(() := b)) [() \<mapsto> (0, [[]])]" "tb_room bc1" by (rule first_chain)
  from tbchain_add_triple_refines [OF c(3) _ c(4), of "()" 0 "[[]]" "(1, 2, 3)"] show ?thesis
    using c(1,2) by (auto simp: FS_TBLOCK_LEN_def)
qed


theorem tbchain_length_correct_witness:
  "\<exists>bc b bc1 b' bc'. fs_tbchain_create = Some bc \<and> fs_tbchain_new_chain bc = Some (b, bc1)
    \<and> fs_tbchain_add_triple bc1 b (1, 2, 3) = Some (b', bc') \<and> fs_tbchain_length bc' b' = Some 1"
proof -
  obtain bc b bc1 b' bc2 where c: "fs_tbchain_create = Some bc" "fs_tbchain_new_chain bc = Some (b, bc1)"
    "fs_tbchain_add_triple bc1 b (1, 2, 3) = Some (b', bc2)" "tb_holds bc2 (no_heads(() := b')) [() \<mapsto> (0, [[(1, 2, 3)]])]"
    by (rule first_triple)
  from tbchain_length_correct [OF c(4), of "()" 0 "[[(1, 2, 3)]]"] c(1-3) show ?thesis by auto
qed

end
