(* ===== verification/Tlist.thy ===== *)
theory Tlist
  imports Tbchain
begin

text \<open>
  The model index files of \<open>src/src/backend/tlist.c\<close>: a header with the number of triples, the triples,
  and a write buffer.  A store uses them instead of triple block chains when its metadata asks for
  one file per graph.  Failing system calls other than writing to a file opened for reading, the
  nested directories, locks and printing are left out.
\<close>

section \<open>Files and lists\<close>

datatype open_flag = O_CREAT | O_TRUNC | O_RDWR

text \<open>The length in the header and the rows after it.\<close>

type_synonym tl_file = "nat \<times> triple list"

record tlist =
  tl_rdwr :: bool
  tl_header :: nat
  tl_rows :: "triple list"
  tl_fd :: nat
  tl_offset :: nat
  tl_buffer :: "triple list"

definition TLIST_BUFFER_SIZE :: nat where "TLIST_BUFFER_SIZE = 256"

text \<open>The position of the file after the header is that of the first row.\<close>

definition tl_write_header :: "tlist \<Rightarrow> tlist" where
  "tl_write_header l = l\<lparr>tl_header := (if tl_rdwr l then tl_offset l else tl_header l), tl_fd := 0\<rparr>"

definition fs_tlist_open :: "tl_file option \<Rightarrow> open_flag list \<Rightarrow> tlist option" where
  "fs_tlist_open file flags = do {
     (hdr, rows) \<leftarrow> (case file of
         None \<Rightarrow> if O_CREAT \<in> set flags then Some (0, []) else None
       | Some f \<Rightarrow> if O_TRUNC \<in> set flags then Some (0, []) else Some f);
     Some (tl_write_header \<lparr>tl_rdwr = (O_RDWR \<in> set flags), tl_header = hdr, tl_rows = rows, tl_fd = 0,
       tl_offset = (if O_TRUNC \<in> set flags then 0 else hdr), tl_buffer = []\<rparr>)
   }"

definition fs_tlist_flush :: "tlist option \<Rightarrow> int \<times> tlist option" where
  "fs_tlist_flush lo = (case lo of None \<Rightarrow> (1, None) | Some l \<Rightarrow>
     if tl_buffer l \<noteq> [] \<and> \<not> tl_rdwr l then (- 1, Some (l\<lparr>tl_fd := length (tl_rows l)\<rparr>))
     else (0, Some (tl_write_header (l\<lparr>tl_rows := tl_rows l @ tl_buffer l, tl_offset := tl_offset l + length (tl_buffer l), tl_buffer := []\<rparr>))))"

definition fs_tlist_add :: "tlist option \<Rightarrow> triple \<Rightarrow> int \<times> tlist option" where
  "fs_tlist_add lo t = (case lo of None \<Rightarrow> (- 1, None) | Some l \<Rightarrow>
     let (ret, lo1) = (if length (tl_buffer l) = TLIST_BUFFER_SIZE then fs_tlist_flush (Some l) else (0, Some l)) in
     if ret \<noteq> 0 then (ret, lo1)
     else let l1 = (the lo1)\<lparr>tl_buffer := tl_buffer (the lo1) @ [t]\<rparr>
          in (int (tl_offset l1 + length (tl_buffer l1)) - 1, Some l1))"

definition fs_tlist_length :: "tlist \<Rightarrow> nat" where
  "fs_tlist_length l = tl_offset l + length (tl_buffer l)"

definition fs_tlist_rewind :: "tlist \<Rightarrow> tlist" where
  "fs_tlist_rewind l = l\<lparr>tl_fd := 0\<rparr>"

definition fs_tlist_next_value :: "tlist \<Rightarrow> triple option \<times> tlist" where
  "fs_tlist_next_value l =
     (if tl_fd l < length (tl_rows l) then (Some (tl_rows l ! tl_fd l), l\<lparr>tl_fd := tl_fd l + 1\<rparr>) else (None, l))"

definition fs_tlist_truncate :: "tlist \<Rightarrow> tlist" where
  "fs_tlist_truncate l = l\<lparr>tl_rows := [], tl_offset := 0, tl_buffer := []\<rparr>"

text \<open>Closing leaves a file behind.\<close>

definition fs_tlist_close :: "tlist \<Rightarrow> tl_file" where
  "fs_tlist_close l = (let l1 = the (snd (fs_tlist_flush (Some l))) in (tl_header l1, tl_rows l1))"

text \<open>Reading with \<open>fs_tlist_next_value\<close> until it returns 0.\<close>

fun tl_read :: "nat \<Rightarrow> tlist \<Rightarrow> triple list" where
  "tl_read 0 l = []"
| "tl_read (Suc n) l = (case fs_tlist_next_value l of (None, _) \<Rightarrow> [] | (Some t, l1) \<Rightarrow> t # tl_read n l1)"

definition tl_read_all :: "tlist \<Rightarrow> triple list" where
  "tl_read_all l = tl_read (Suc (length (tl_rows l))) l"

section \<open>A list as a sequence\<close>

definition tl_ok :: "tlist \<Rightarrow> bool" where
  "tl_ok l \<longleftrightarrow> tl_rdwr l \<and> tl_offset l = length (tl_rows l) \<and> length (tl_buffer l) \<le> TLIST_BUFFER_SIZE"

definition tl_elems :: "tlist \<Rightarrow> triple list" where
  "tl_elems l = tl_rows l @ tl_buffer l"

lemma tlist_add_ok:
  assumes "tl_ok l"
  shows "\<exists>l'. fs_tlist_add (Some l) t = (int (length (tl_elems l)), Some l') \<and> tl_ok l' \<and> tl_elems l' = tl_elems l @ [t]"
proof (cases "length (tl_buffer l) = TLIST_BUFFER_SIZE")
  case True
  then show ?thesis using assms
    by (simp add: fs_tlist_add_def fs_tlist_flush_def tl_write_header_def tl_ok_def tl_elems_def TLIST_BUFFER_SIZE_def Let_def)
next
  case False
  then show ?thesis using assms by (auto simp: fs_tlist_add_def tl_ok_def tl_elems_def)
qed

lemma tlist_close_ok: "tl_ok l \<Longrightarrow> fs_tlist_close l = (length (tl_elems l), tl_elems l)"
  by (simp add: fs_tlist_close_def fs_tlist_flush_def tl_write_header_def tl_ok_def tl_elems_def)

lemma tlist_open_ok:
  assumes "O_RDWR \<in> set flags" "O_TRUNC \<notin> set flags" "case f of None \<Rightarrow> O_CREAT \<in> set flags | Some (n, rows) \<Rightarrow> n = length rows"
  shows "\<exists>l. fs_tlist_open f flags = Some l \<and> tl_ok l \<and> tl_elems l = (case f of None \<Rightarrow> [] | Some (n, rows) \<Rightarrow> rows)"
  using assms by (auto simp: fs_tlist_open_def tl_write_header_def tl_ok_def tl_elems_def split: option.splits)

lemma tl_read_drop: "length (tl_rows l) - tl_fd l < n \<Longrightarrow> tl_read n l = drop (tl_fd l) (tl_rows l)"
proof (induction n arbitrary: l)
  case (Suc n)
  then show ?case by (cases "tl_fd l < length (tl_rows l)") (simp_all add: fs_tlist_next_value_def Cons_nth_drop_Suc)
qed simp

lemma tl_read_all_ok: "tl_read_all (fs_tlist_rewind l) = tl_rows l"
  by (simp add: tl_read_all_def tl_read_drop fs_tlist_rewind_def del: tl_read.simps)

lemma tlist_adds_ok:
  assumes "tl_ok l"
  shows "\<exists>l'. foldl (\<lambda>lo t. snd (fs_tlist_add lo t)) (Some l) ts = Some l' \<and> tl_ok l' \<and> tl_elems l' = tl_elems l @ ts"
  using assms
proof (induction ts arbitrary: l)
  case (Cons t ts)
  then show ?case using tlist_add_ok [OF Cons.prems, of t] by fastforce
qed simp

text \<open>
  C38: Triples appended to a graph's file are read back after it is closed and opened again, for
  reading only, after the triples the file had, in the order they were appended.
\<close>

theorem tlist_roundtrip:
  assumes "case f of None \<Rightarrow> True | Some (n, rows) \<Rightarrow> n = length rows"
  shows "\<exists>l l' r. fs_tlist_open f [O_CREAT, O_RDWR] = Some l \<and> foldl (\<lambda>lo t. snd (fs_tlist_add lo t)) (Some l) ts = Some l'
    \<and> fs_tlist_open (Some (fs_tlist_close l')) [] = Some r
    \<and> tl_read_all (fs_tlist_rewind r) = (case f of None \<Rightarrow> [] | Some (n, rows) \<Rightarrow> rows) @ ts
    \<and> fs_tlist_length r = length (tl_read_all (fs_tlist_rewind r))"
proof -
  obtain l where l: "fs_tlist_open f [O_CREAT, O_RDWR] = Some l" "tl_ok l" "tl_elems l = (case f of None \<Rightarrow> [] | Some (n, rows) \<Rightarrow> rows)"
    using tlist_open_ok [of "[O_CREAT, O_RDWR]" f] assms by (cases f) auto
  obtain l' where "foldl (\<lambda>lo t. snd (fs_tlist_add lo t)) (Some l) ts = Some l'" "tl_ok l'" "tl_elems l' = tl_elems l @ ts"
    using tlist_adds_ok [OF l(2)] by blast
  with l show ?thesis
    by (auto simp: tlist_close_ok tl_read_all_ok fs_tlist_open_def tl_write_header_def fs_tlist_length_def split: option.splits)
qed

theorem tlist_roundtrip_witness:
  "\<exists>l l' r. fs_tlist_open (Some (1, [(1, 2, 3)])) [O_CREAT, O_RDWR] = Some l
    \<and> foldl (\<lambda>lo t. snd (fs_tlist_add lo t)) (Some l) [(4, 5, 6), (7, 8, 9)] = Some l'
    \<and> fs_tlist_open (Some (fs_tlist_close l')) [] = Some r \<and> tl_read_all (fs_tlist_rewind r) = [(1, 2, 3), (4, 5, 6), (7, 8, 9)]"
  using tlist_roundtrip [of "Some (1, [(1, 2, 3)])" "[(4, 5, 6), (7, 8, 9)]"] by auto

end
