(* ===== verification/TbchainIter.thy ===== *)
theory TbchainIter
  imports Tbchain PtreeOps
begin

text \<open>
  Iterating over a chain of triple blocks.  A chain that is marked as a superset lists triples
  that may have been deleted; its iterator asks the ptree of each predicate, returns the triples
  that are still there, erases the others and finally clears the mark.
\<close>

section \<open>Flags\<close>

lemma flag_simps:
  fixes fl :: u8
  shows "fl AND FS_TBCHAIN_SPARSE \<noteq> 0 \<Longrightarrow> fl OR FS_TBCHAIN_SPARSE = fl"
    "fl AND FS_TBCHAIN_SUPERSET \<noteq> 0 \<Longrightarrow> fl OR FS_TBCHAIN_SUPERSET = fl"
    "fl AND FS_TBCHAIN_SPARSE = 0 \<Longrightarrow> fl AND NOT FS_TBCHAIN_SPARSE = fl"
    "fl AND FS_TBCHAIN_SUPERSET = 0 \<Longrightarrow> fl AND NOT FS_TBCHAIN_SUPERSET = fl"
proof -
  have b: "bit (1 :: u8) n \<longleftrightarrow> n = 0" "bit (2 :: u8) n \<longleftrightarrow> n = 1" for n
    using bit_push_bit_iff [of 1 "1 :: u8" n] by (auto simp: bit_1_iff push_bit_eq_mult simp del: bit_numeral_word_iff)
  have e: "fl AND m = 0 \<longleftrightarrow> \<not> bit fl n" if "\<And>i. bit m i \<longleftrightarrow> i = n" "n < 8" for m n
    using that by (auto simp: bit_eq_iff [of "fl AND m" 0] bit_and_iff dest: bit_imp_le_length)
  have o: "bit fl n \<Longrightarrow> fl OR m = fl" if "\<And>i. bit m i \<longleftrightarrow> i = n" for m n
    using that by (auto intro!: bit_word_eqI simp: bit_or_iff)
  have n: "\<not> bit fl n \<Longrightarrow> fl AND NOT m = fl" if "\<And>i. bit m i \<longleftrightarrow> i = n" for m n
  proof (rule bit_word_eqI)
    fix i assume "\<not> bit fl n" "i < LENGTH(8)"
    then show "bit (fl AND NOT m) i \<longleftrightarrow> bit fl i" using that by (cases "i = n") (auto simp: bit_and_iff bit_not_iff)
  qed
  show "fl AND FS_TBCHAIN_SPARSE \<noteq> 0 \<Longrightarrow> fl OR FS_TBCHAIN_SPARSE = fl"
    "fl AND FS_TBCHAIN_SPARSE = 0 \<Longrightarrow> fl AND NOT FS_TBCHAIN_SPARSE = fl"
    using e [OF b(1)] o [OF b(1)] n [OF b(1)] unfolding FS_TBCHAIN_SPARSE_def by auto
  show "fl AND FS_TBCHAIN_SUPERSET \<noteq> 0 \<Longrightarrow> fl OR FS_TBCHAIN_SUPERSET = fl"
    "fl AND FS_TBCHAIN_SUPERSET = 0 \<Longrightarrow> fl AND NOT FS_TBCHAIN_SUPERSET = fl"
    using e [OF b(2)] o [OF b(2)] n [OF b(2)] unfolding FS_TBCHAIN_SUPERSET_def by auto
qed

abbreviation flagged :: "tbchain \<Rightarrow> nat \<Rightarrow> u8 \<Rightarrow> tbchain" where
  "flagged bc b fl \<equiv> bc\<lparr>tbc_data := (tbc_data bc)(b := (tbc_data bc b)\<lparr>tb_flags := fl\<rparr>)\<rparr>"

lemma flagged_same: "tb_flags (tbc_data bc b) = fl \<Longrightarrow> flagged bc b fl = bc"
proof -
  assume "tb_flags (tbc_data bc b) = fl"
  then have "(tbc_data bc b)\<lparr>tb_flags := fl\<rparr> = tbc_data bc b" by simp
  then show ?thesis by (simp only: fun_upd_triv) simp
qed

lemma bit_ops:
  assumes "2 \<le> b" "b < tbc_size bc" "tbc_length bc = tbc_size bc" "bt = FS_TBCHAIN_SPARSE \<or> bt = FS_TBCHAIN_SUPERSET"
  shows "fs_tbchain_set_bit bc b bt = Some (flagged bc b (tb_flags (tbc_data bc b) OR bt))"
    "fs_tbchain_clear_bit bc b bt = Some (flagged bc b (tb_flags (tbc_data bc b) AND NOT bt))"
    "fs_tbchain_get_bit bc b bt = Some (tb_flags (tbc_data bc b) AND bt)"
  using assms flag_simps [of "tb_flags (tbc_data bc b)"] flagged_same [of bc b]
  by (auto simp: fs_tbchain_set_bit_def fs_tbchain_clear_bit_def fs_tbchain_get_bit_def)

lemma flagged_rep:
  assumes "tb_rep bc fs Ch" "Ch k = Some ids" "b \<in> set ids"
  shows "tb_rep (flagged bc b fl) fs Ch" "tb_nxt (flagged bc b fl) = tb_nxt bc"
    "block_triples (tbc_data (flagged bc b fl) i) = block_triples (tbc_data bc i)"
proof -
  show "tb_rep (flagged bc b fl) fs Ch"
    by (rule tb_rep_put [OF assms(1)]) (use tb_repD(6) [OF assms] in \<open>auto simp: tb_nxt_def block_ok_def\<close>)
  show "tb_nxt (flagged bc b fl) = tb_nxt bc" by (auto simp: tb_nxt_def)
  show "block_triples (tbc_data (flagged bc b fl) i) = block_triples (tbc_data bc i)" by (simp add: block_triples_def)
qed

section \<open>Iteration\<close>

text \<open>Calling \<open>fs_tbchain_it_next\<close> until it returns 0.\<close>

partial_function (option) tb_it_all ::
  "(rid \<Rightarrow> ptree option) option \<Rightarrow> tbchain \<Rightarrow> tbchain_it \<Rightarrow> (triple list \<times> tbchain) option" where
  "tb_it_all be bc it =
     do {
       (r, bc', it') \<leftarrow> fs_tbchain_it_next be bc (Some it);
       (case r of None \<Rightarrow> Some ([], bc')
        | Some t \<Rightarrow> do { (ts, bc'') \<leftarrow> tb_it_all be bc' (the it'); Some (t # ts, bc'') })
     }"

lemma tb_it_all_loop:
  "tb_it_all be bc it =
     do { (r, bc', it') \<leftarrow> tb_it_loop be bc it;
          (case r of None \<Rightarrow> Some ([], bc') | Some t \<Rightarrow> do { (ts, bc'') \<leftarrow> tb_it_all be bc' it'; Some (t # ts, bc'') }) }"
  by (subst tb_it_all.simps) (auto simp: fs_tbchain_it_next_def Option.bind_map_option split: Option.bind_split option.split)

lemma tb_it_all_end:
  "ti_node it = 0 \<Longrightarrow> tb_it_all be bc it =
     map_option (\<lambda>bc'. ([], bc')) (if ti_superset it then fs_tbchain_clear_bit bc (ti_chain it) FS_TBCHAIN_SUPERSET else Some bc)"
  by (subst tb_it_all_loop, subst tb_it_loop.simps) (auto split: Option.bind_split)

lemma tb_it_all_same: "tb_it_loop be bc it = tb_it_loop be bc' it' \<Longrightarrow> tb_it_all be bc it = tb_it_all be bc' it'"
  by (subst (1 2) tb_it_all_loop) simp

text \<open>What a triple of the chain becomes, and whether it is returned.\<close>

definition dropped :: "bool \<Rightarrow> (triple \<Rightarrow> bool) \<Rightarrow> triple \<Rightarrow> bool" where
  "dropped ss ok t \<longleftrightarrow> ss \<and> fst t \<noteq> FS_RID_GONE \<and> \<not> ok t"

definition mark :: "bool \<Rightarrow> (triple \<Rightarrow> bool) \<Rightarrow> triple \<Rightarrow> triple" where
  "mark ss ok t = (if dropped ss ok t then (FS_RID_GONE, snd t) else t)"

definition keep :: "bool \<Rightarrow> (triple \<Rightarrow> bool) \<Rightarrow> triple \<Rightarrow> bool" where
  "keep ss ok t \<longleftrightarrow> fst t \<noteq> FS_RID_GONE \<and> \<not> dropped ss ok t"

text \<open>The entries of block \<open>b\<close> from \<open>pos\<close> on are processed and the head \<open>hb\<close> may be flagged.\<close>

definition processed :: "bool \<Rightarrow> (triple \<Rightarrow> bool) \<Rightarrow> nat \<Rightarrow> nat \<Rightarrow> nat \<Rightarrow> tbchain \<Rightarrow> tbchain \<Rightarrow> bool" where
  "processed ss ok hb b pos bc bc' \<longleftrightarrow> tb_nxt bc' = tb_nxt bc
     \<and> (\<forall>i. block_triples (tbc_data bc' i) = (if i = b then take pos (block_triples (tbc_data bc b))
          @ map (mark ss ok) (drop pos (block_triples (tbc_data bc b))) else block_triples (tbc_data bc i)))
     \<and> (\<forall>i. i \<noteq> hb \<longrightarrow> tb_flags (tbc_data bc' i) = tb_flags (tbc_data bc i))
     \<and> tb_flags (tbc_data bc' hb) = (if \<exists>t \<in> set (drop pos (block_triples (tbc_data bc b))). dropped ss ok t
          then tb_flags (tbc_data bc hb) OR FS_TBCHAIN_SPARSE else tb_flags (tbc_data bc hb))"

lemma erase_entry:
  assumes rep: "tb_rep bc fs Ch" and k: "Ch k = Some ids" and b: "b \<in> set ids" and pos: "pos < tb_length (tbc_data bc b)"
    and hb: "hb \<in> set ids"
  defines "x \<equiv> tbc_data bc b"
  shows "\<exists>bc2. do { bc1 \<leftarrow> tbc_put bc b (x\<lparr>tb_data := (tb_data x)[pos := (FS_RID_GONE, snd (tb_data x ! pos))]\<rparr>);
                  fs_tbchain_set_bit bc1 hb FS_TBCHAIN_SPARSE } = Some bc2
    \<and> tb_rep bc2 fs Ch \<and> tb_nxt bc2 = tb_nxt bc \<and> tb_length (tbc_data bc2 b) = tb_length x
    \<and> (\<forall>i. block_triples (tbc_data bc2 i) = (if i = b then (block_triples x)[pos := (FS_RID_GONE, snd (block_triples x ! pos))]
          else block_triples (tbc_data bc i)))
    \<and> (\<forall>i. i \<noteq> hb \<longrightarrow> tb_flags (tbc_data bc2 i) = tb_flags (tbc_data bc i))
    \<and> tb_flags (tbc_data bc2 hb) = tb_flags (tbc_data bc hb) OR FS_TBCHAIN_SPARSE"
proof -
  let ?y = "x\<lparr>tb_data := (tb_data x)[pos := (FS_RID_GONE, snd (tb_data x ! pos))]\<rparr>"
  let ?bc1 = "bc\<lparr>tbc_data := (tbc_data bc)(b := ?y)\<rparr>"
  have b': "b < tbc_size bc" "block_ok x" using tb_repD(6) [OF rep k b] by (auto simp: x_def)
  have rep1: "tb_rep ?bc1 fs Ch" by (rule tb_rep_put [OF rep]) (use b'(2) in \<open>auto simp: tb_nxt_def x_def block_ok_def\<close>)
  have hb1: "2 \<le> hb" "hb < tbc_size ?bc1" using tb_repD(6) [OF rep k hb] by auto
  have fl: "tb_flags (tbc_data ?bc1 i) = tb_flags (tbc_data bc i)" for i by (simp add: x_def)
  let ?bc2 = "flagged ?bc1 hb (tb_flags (tbc_data ?bc1 hb) OR FS_TBCHAIN_SPARSE)"
  have s: "fs_tbchain_set_bit ?bc1 hb FS_TBCHAIN_SPARSE = Some ?bc2"
    using bit_ops(1) [OF hb1 tb_repD(2) [OF rep1]] by simp
  have bt: "block_triples ?y = (block_triples x)[pos := (FS_RID_GONE, snd (block_triples x ! pos))]"
    using pos by (simp add: block_triples_def x_def take_update_swap)
  show ?thesis
  proof (intro exI [of _ ?bc2] conjI allI impI)
    show "do { bc1 \<leftarrow> tbc_put bc b ?y; fs_tbchain_set_bit bc1 hb FS_TBCHAIN_SPARSE } = Some ?bc2" using b'(1) s by simp
    show "tb_rep ?bc2 fs Ch" by (rule flagged_rep(1) [OF rep1 k hb])
    show "tb_nxt ?bc2 = tb_nxt bc" by (auto simp: tb_nxt_def x_def)
    show "tb_length (tbc_data ?bc2 b) = tb_length x" by (simp add: x_def)
    show "tb_flags (tbc_data ?bc2 i) = tb_flags (tbc_data bc i)" if "i \<noteq> hb" for i using that fl [of i] by simp
    show "tb_flags (tbc_data ?bc2 hb) = tb_flags (tbc_data bc hb) OR FS_TBCHAIN_SPARSE" using fl [of hb] by simp
    fix i
    show "block_triples (tbc_data ?bc2 i) = (if i = b then (block_triples x)[pos := (FS_RID_GONE, snd (block_triples x ! pos))]
          else block_triples (tbc_data bc i))"
      unfolding flagged_rep(3) [OF rep1 k hb] using bt by simp
  qed
qed

abbreviation at :: "rid \<Rightarrow> nat \<Rightarrow> bool \<Rightarrow> nat \<Rightarrow> nat \<Rightarrow> tbchain_it" where
  "at model hb ss b pos \<equiv> \<lparr>ti_model = model, ti_chain = hb, ti_node = b, ti_pos = pos, ti_superset = ss\<rparr>"

text \<open>One turn of the loop at an entry of a block.\<close>

lemma tb_it_turn:
  assumes rep: "tb_rep bc fs Ch" and k: "Ch k = Some ids" and b: "b \<in> set ids" and hb: "hb \<in> set ids"
    and chk: "\<And>t. tb_check be model t = Some (ok t)" and pos: "pos < tb_length (tbc_data bc b)"
  defines "t \<equiv> block_triples (tbc_data bc b) ! pos"
  shows "\<exists>bc1. tb_rep bc1 fs Ch \<and> tb_length (tbc_data bc1 b) = tb_length (tbc_data bc b) \<and> tb_nxt bc1 = tb_nxt bc
    \<and> (\<forall>i. block_triples (tbc_data bc1 i) = (if i = b then (block_triples (tbc_data bc b))[pos := mark ss ok t] else block_triples (tbc_data bc i)))
    \<and> (\<forall>i. i \<noteq> hb \<longrightarrow> tb_flags (tbc_data bc1 i) = tb_flags (tbc_data bc i))
    \<and> tb_flags (tbc_data bc1 hb) = (if dropped ss ok t then tb_flags (tbc_data bc hb) OR FS_TBCHAIN_SPARSE else tb_flags (tbc_data bc hb))
    \<and> tb_it_all be bc (at model hb ss b pos) = do {
        (ts, bc') \<leftarrow> tb_it_all be bc1 (at model hb ss b (pos + 1)); Some ((if keep ss ok t then [t] else []) @ ts, bc') }"
proof -
  let ?x = "tbc_data bc b"
  have b': "2 \<le> b" "b < tbc_size bc" "block_ok ?x" using tb_repD(6) [OF rep k b] by auto
  have t: "t = tb_data ?x ! pos" "load_at (tb_data ?x) pos = Some t"
    using pos b'(3) by (auto simp: t_def block_triples_def block_ok_def)
  have same: "(block_triples ?x)[pos := t] = block_triples ?x" unfolding t_def by (rule list_update_id)
  have step: "tb_it_loop be bc (at model hb ss b pos) =
      (if fst t = FS_RID_GONE then tb_it_loop be bc (at model hb ss b (pos + 1))
       else if keep ss ok t then Some (Some t, bc, at model hb ss b (pos + 1))
       else do { bc1 \<leftarrow> tbc_put bc b (?x\<lparr>tb_data := (tb_data ?x)[pos := (FS_RID_GONE, snd t)]\<rparr>);
                 bc2 \<leftarrow> fs_tbchain_set_bit bc1 hb FS_TBCHAIN_SPARSE; tb_it_loop be bc2 (at model hb ss b (pos + 1)) })"
    using b' t(2) pos chk by (subst tb_it_loop.simps) (auto simp: keep_def dropped_def)
  consider "fst t = FS_RID_GONE" | "keep ss ok t" | "dropped ss ok t" by (auto simp: keep_def)
  then show ?thesis
  proof cases
    case 1
    then have m: "\<not> dropped ss ok t" "\<not> keep ss ok t" "mark ss ok t = t" by (auto simp: dropped_def keep_def mark_def)
    have "tb_it_all be bc (at model hb ss b pos) = tb_it_all be bc (at model hb ss b (pos + 1))"
      using step 1 by (intro tb_it_all_same) simp
    then show ?thesis using rep m same by (intro exI [of _ bc]) (auto split: Option.bind_split)
  next
    case 2
    then have m: "\<not> dropped ss ok t" "fst t \<noteq> FS_RID_GONE" "mark ss ok t = t" by (auto simp: dropped_def keep_def mark_def)
    have "tb_it_all be bc (at model hb ss b pos) = do { (ts, bc') \<leftarrow> tb_it_all be bc (at model hb ss b (pos + 1)); Some (t # ts, bc') }"
      using step 2 m(2) by (subst tb_it_all_loop) simp
    then show ?thesis using rep m 2 same by (intro exI [of _ bc]) (auto split: Option.bind_split)
  next
    case 3
    then have m: "\<not> keep ss ok t" "fst t \<noteq> FS_RID_GONE" "mark ss ok t = (FS_RID_GONE, snd t)" by (auto simp: dropped_def keep_def mark_def)
    obtain bc2 where e: "do { bc1 \<leftarrow> tbc_put bc b (?x\<lparr>tb_data := (tb_data ?x)[pos := (FS_RID_GONE, snd t)]\<rparr>);
          fs_tbchain_set_bit bc1 hb FS_TBCHAIN_SPARSE } = Some bc2"
        "tb_rep bc2 fs Ch" "tb_nxt bc2 = tb_nxt bc" "tb_length (tbc_data bc2 b) = tb_length ?x"
        "\<forall>i. block_triples (tbc_data bc2 i) = (if i = b then (block_triples ?x)[pos := mark ss ok t] else block_triples (tbc_data bc i))"
        "\<forall>i. i \<noteq> hb \<longrightarrow> tb_flags (tbc_data bc2 i) = tb_flags (tbc_data bc i)"
        "tb_flags (tbc_data bc2 hb) = tb_flags (tbc_data bc hb) OR FS_TBCHAIN_SPARSE"
      using erase_entry [OF rep k b pos hb] unfolding t(1) [symmetric] t_def [symmetric] m(3) [symmetric] by blast
    have "tb_it_loop be bc (at model hb ss b pos) = tb_it_loop be bc2 (at model hb ss b (pos + 1))"
      using step m e(1) by (auto split: Option.bind_splits)
    then have "tb_it_all be bc (at model hb ss b pos) = tb_it_all be bc2 (at model hb ss b (pos + 1))" by (rule tb_it_all_same)
    then show ?thesis using e m 3 by (intro exI [of _ bc2]) (auto split: Option.bind_split)
  qed
qed

lemma processed_step:
  assumes "pos < length (block_triples (tbc_data bc b))"
    and "\<forall>i. block_triples (tbc_data bc1 i) = (if i = b then (block_triples (tbc_data bc b))[pos := mark ss ok (block_triples (tbc_data bc b) ! pos)]
          else block_triples (tbc_data bc i))"
    and "tb_nxt bc1 = tb_nxt bc" "\<forall>i. i \<noteq> hb \<longrightarrow> tb_flags (tbc_data bc1 i) = tb_flags (tbc_data bc i)"
    and "tb_flags (tbc_data bc1 hb) = (if dropped ss ok (block_triples (tbc_data bc b) ! pos)
          then tb_flags (tbc_data bc hb) OR FS_TBCHAIN_SPARSE else tb_flags (tbc_data bc hb))"
    and "processed ss ok hb b (pos + 1) bc1 bc2"
  shows "processed ss ok hb b pos bc bc2"
proof -
  let ?bt = "block_triples (tbc_data bc b)"
  have d: "drop pos ?bt = ?bt ! pos # drop (pos + 1) ?bt" using assms(1) by (simp add: Cons_nth_drop_Suc)
  have b: "block_triples (tbc_data bc1 b) = ?bt[pos := mark ss ok (?bt ! pos)]" using assms(2) by simp
  have d1: "drop (pos + 1) (block_triples (tbc_data bc1 b)) = drop (pos + 1) ?bt" unfolding b by simp
  have t1: "take (pos + 1) (block_triples (tbc_data bc1 b)) = take pos ?bt @ [mark ss ok (?bt ! pos)]"
    unfolding b using assms(1) by (simp add: take_Suc_conv_app_nth)
  show ?thesis using assms(2-6) unfolding processed_def d d1 t1 by auto
qed

lemma tb_it_block:
  assumes k: "Ch k = Some ids" and b: "b \<in> set ids" and hb: "hb \<in> set ids" and chk: "\<And>t. tb_check be model t = Some (ok t)"
  shows "tb_rep bc fs Ch \<Longrightarrow> pos \<le> tb_length (tbc_data bc b) \<Longrightarrow>
    \<exists>bc1. tb_rep bc1 fs Ch \<and> processed ss ok hb b pos bc bc1
      \<and> tb_it_all be bc (at model hb ss b pos) = do {
          (ts, bc') \<leftarrow> tb_it_all be bc1 (at model hb ss (tb_nxt bc b) 0);
          Some (filter (keep ss ok) (drop pos (block_triples (tbc_data bc b))) @ ts, bc') }"
proof (induction "tb_length (tbc_data bc b) - pos" arbitrary: bc pos)
  case 0
  have b': "2 \<le> b" "b < tbc_size bc" "block_ok (tbc_data bc b)" using tb_repD(6) [OF 0(2) k b] by auto
  have d: "drop pos (block_triples (tbc_data bc b)) = []" using 0(1,3) b'(3) by (simp add: length_block_triples)
  have "processed ss ok hb b pos bc bc" using 0(1,3) b'(3) by (simp add: processed_def d length_block_triples)
  moreover have "tb_it_all be bc (at model hb ss b pos) = tb_it_all be bc (at model hb ss (tb_nxt bc b) 0)"
    by (rule tb_it_all_same, subst (1) tb_it_loop.simps) (use 0(1) b' in \<open>simp add: tb_nxt_def\<close>)
  ultimately show ?case using 0(2) d by (intro exI [of _ bc]) (auto split: Option.bind_split)
next
  case (Suc n)
  then have pos: "pos < tb_length (tbc_data bc b)" by simp
  let ?t = "block_triples (tbc_data bc b) ! pos"
  obtain bc1 where s: "tb_rep bc1 fs Ch" "tb_length (tbc_data bc1 b) = tb_length (tbc_data bc b)" "tb_nxt bc1 = tb_nxt bc"
      "\<forall>i. block_triples (tbc_data bc1 i) = (if i = b then (block_triples (tbc_data bc b))[pos := mark ss ok ?t] else block_triples (tbc_data bc i))"
      "\<forall>i. i \<noteq> hb \<longrightarrow> tb_flags (tbc_data bc1 i) = tb_flags (tbc_data bc i)"
      "tb_flags (tbc_data bc1 hb) = (if dropped ss ok ?t then tb_flags (tbc_data bc hb) OR FS_TBCHAIN_SPARSE else tb_flags (tbc_data bc hb))"
      "tb_it_all be bc (at model hb ss b pos) = do {
        (ts, bc') \<leftarrow> tb_it_all be bc1 (at model hb ss b (pos + 1)); Some ((if keep ss ok ?t then [?t] else []) @ ts, bc') }"
    using tb_it_turn [OF Suc.prems(1) k b hb chk pos, of ss] by blast
  obtain bc2 where i: "tb_rep bc2 fs Ch" "processed ss ok hb b (pos + 1) bc1 bc2"
      "tb_it_all be bc1 (at model hb ss b (pos + 1)) = do {
          (ts, bc') \<leftarrow> tb_it_all be bc2 (at model hb ss (tb_nxt bc1 b) 0);
          Some (filter (keep ss ok) (drop (pos + 1) (block_triples (tbc_data bc1 b))) @ ts, bc') }"
  proof -
    have n: "n = tb_length (tbc_data bc1 b) - (pos + 1)" "pos + 1 \<le> tb_length (tbc_data bc1 b)"
      using Suc.hyps(2) s(2) pos by linarith+
    show ?thesis using Suc.hyps(1) [OF n(1) s(1) n(2)] that by blast
  qed
  have l: "pos < length (block_triples (tbc_data bc b))"
    using pos tb_repD(6) [OF Suc.prems(1) k b] by (simp add: length_block_triples)
  have d: "drop pos (block_triples (tbc_data bc b)) = ?t # drop (pos + 1) (block_triples (tbc_data bc b))"
    using l by (simp add: Cons_nth_drop_Suc)
  have d1: "drop (pos + 1) (block_triples (tbc_data bc1 b)) = drop (pos + 1) (block_triples (tbc_data bc b))" using s(4) by simp
  have "processed ss ok hb b pos bc bc2" by (rule processed_step [OF l s(4,3,5,6) i(2)])
  then show ?case
    using i(1) s(3) unfolding s(7) i(3) d d1 by (intro exI [of _ bc2]) (auto split: Option.bind_split)
qed

lemma tb_it_chain:
  assumes k: "Ch k = Some ids" and hb: "hb \<in> set ids" and chk: "\<And>t. tb_check be model t = Some (ok t)"
  shows "tb_rep bc fs Ch \<Longrightarrow> linked (tb_nxt bc) b rest \<Longrightarrow> set rest \<subseteq> set ids \<Longrightarrow> distinct rest \<Longrightarrow>
    \<exists>bc'. tb_rep bc' fs Ch
      \<and> tb_it_all be bc (at model hb ss b 0) = Some (filter (keep ss ok) (concat (map (\<lambda>i. block_triples (tbc_data bc i)) rest)), bc')
      \<and> (\<forall>i. block_triples (tbc_data bc' i) = (if i \<in> set rest then map (mark ss ok) (block_triples (tbc_data bc i)) else block_triples (tbc_data bc i)))
      \<and> (\<forall>i. i \<noteq> hb \<longrightarrow> tb_flags (tbc_data bc' i) = tb_flags (tbc_data bc i))
      \<and> tb_flags (tbc_data bc' hb) = (let f = (if \<exists>i \<in> set rest. \<exists>t \<in> set (block_triples (tbc_data bc i)). dropped ss ok t
             then tb_flags (tbc_data bc hb) OR FS_TBCHAIN_SPARSE else tb_flags (tbc_data bc hb))
           in if ss then f AND NOT FS_TBCHAIN_SUPERSET else f)"
proof (induction rest arbitrary: bc b)
  case Nil
  have hb': "2 \<le> hb" "hb < tbc_size bc" using tb_repD(6) [OF Nil.prems(1) k hb] by auto
  let ?bc = "flagged bc hb (tb_flags (tbc_data bc hb) AND NOT FS_TBCHAIN_SUPERSET)"
  have c: "fs_tbchain_clear_bit bc hb FS_TBCHAIN_SUPERSET = Some ?bc"
    using bit_ops(2) [OF hb' tb_repD(2) [OF Nil.prems(1)]] by simp
  show ?case
  proof (cases ss)
    case True
    show ?thesis using True Nil.prems(2) c flagged_rep [OF Nil.prems(1) k hb]
      by (intro exI [of _ ?bc]) (simp add: tb_it_all_end)
  next
    case False
    then show ?thesis using Nil.prems by (intro exI [of _ bc]) (simp add: tb_it_all_end)
  qed
next
  case (Cons c rest)
  then have c: "c = b" "b \<in> set ids" "linked (tb_nxt bc) (tb_nxt bc b) rest" "b \<notin> set rest" by auto
  obtain bc1 where s: "tb_rep bc1 fs Ch" "processed ss ok hb b 0 bc bc1"
      "tb_it_all be bc (at model hb ss b 0) = do {
          (ts, bc') \<leftarrow> tb_it_all be bc1 (at model hb ss (tb_nxt bc b) 0);
          Some (filter (keep ss ok) (block_triples (tbc_data bc b)) @ ts, bc') }"
    using tb_it_block [OF k c(2) hb chk Cons.prems(1), of 0 ss] by auto
  have p: "tb_nxt bc1 = tb_nxt bc" "\<And>i. i \<noteq> b \<Longrightarrow> block_triples (tbc_data bc1 i) = block_triples (tbc_data bc i)"
      "block_triples (tbc_data bc1 b) = map (mark ss ok) (block_triples (tbc_data bc b))"
    using s(2) unfolding processed_def by auto
  have r: "block_triples (tbc_data bc1 i) = block_triples (tbc_data bc i)" if "i \<in> set rest" for i
    using that c(4) by (intro p(2)) blast
  then have m: "map (\<lambda>i. block_triples (tbc_data bc1 i)) rest = map (\<lambda>i. block_triples (tbc_data bc i)) rest"
    by (intro map_cong) auto
  have e: "(\<exists>i \<in> set rest. \<exists>t \<in> set (block_triples (tbc_data bc1 i)). dropped ss ok t)
      = (\<exists>i \<in> set rest. \<exists>t \<in> set (block_triples (tbc_data bc i)). dropped ss ok t)"
    using r by (intro bex_cong) auto
  obtain bc' where i: "tb_rep bc' fs Ch"
      "tb_it_all be bc1 (at model hb ss (tb_nxt bc b) 0) = Some (filter (keep ss ok) (concat (map (\<lambda>i. block_triples (tbc_data bc i)) rest)), bc')"
      "\<forall>i. block_triples (tbc_data bc' i) = (if i \<in> set rest then map (mark ss ok) (block_triples (tbc_data bc1 i)) else block_triples (tbc_data bc1 i))"
      "\<forall>i. i \<noteq> hb \<longrightarrow> tb_flags (tbc_data bc' i) = tb_flags (tbc_data bc1 i)"
      "tb_flags (tbc_data bc' hb) = (let f = (if \<exists>i \<in> set rest. \<exists>t \<in> set (block_triples (tbc_data bc i)). dropped ss ok t
             then tb_flags (tbc_data bc1 hb) OR FS_TBCHAIN_SPARSE else tb_flags (tbc_data bc1 hb))
           in if ss then f AND NOT FS_TBCHAIN_SUPERSET else f)"
    using Cons.IH [OF s(1), of "tb_nxt bc b"] Cons.prems c(3) p(1) unfolding m e by auto
  show ?case
  proof (intro exI [of _ bc'] conjI)
    show "tb_rep bc' fs Ch" by (rule i(1))
    show "tb_it_all be bc (at model hb ss b 0) = Some (filter (keep ss ok) (concat (map (\<lambda>i. block_triples (tbc_data bc i)) (c # rest))), bc')"
      unfolding s(3) i(2) c(1) by simp
    show "\<forall>i. block_triples (tbc_data bc' i) = (if i \<in> set (c # rest) then map (mark ss ok) (block_triples (tbc_data bc i)) else block_triples (tbc_data bc i))"
      using i(3) p(2,3) c(1,4) r by auto
    show "\<forall>i. i \<noteq> hb \<longrightarrow> tb_flags (tbc_data bc' i) = tb_flags (tbc_data bc i)" using i(4) s(2) unfolding processed_def by simp
    have "tb_flags (tbc_data bc1 hb) = (if \<exists>t \<in> set (block_triples (tbc_data bc b)). dropped ss ok t
        then tb_flags (tbc_data bc hb) OR FS_TBCHAIN_SPARSE else tb_flags (tbc_data bc hb))"
      using s(2) unfolding processed_def by simp
    then show "tb_flags (tbc_data bc' hb) = (let f = (if \<exists>i \<in> set (c # rest). \<exists>t \<in> set (block_triples (tbc_data bc i)). dropped ss ok t
             then tb_flags (tbc_data bc hb) OR FS_TBCHAIN_SPARSE else tb_flags (tbc_data bc hb))
           in if ss then f AND NOT FS_TBCHAIN_SUPERSET else f)"
      unfolding i(5) c(1) by (simp add: Let_def)
  qed
qed

section \<open>The check against the index\<close>

text \<open>The backend's ptree of each predicate holds the map \<open>M p\<close>; a predicate without a ptree has
  no pairs.\<close>

definition index_holds ::
  "(rid \<Rightarrow> ptree option) \<Rightarrow> (rid \<Rightarrow> rid \<rightharpoonup> (rid \<times> rid) list) \<Rightarrow> (rid \<Rightarrow> 'o \<Rightarrow> nat) \<Rightarrow> (rid \<Rightarrow> 'o \<rightharpoonup> (rid \<times> rid) list) \<Rightarrow> bool" where
  "index_holds get_ptree M oh oP \<longleftrightarrow>
     (\<forall>p. case get_ptree p of None \<Rightarrow> M p = Map.empty | Some pt \<Rightarrow> ptree_holds pt (M p) (oh p) (oP p))"

definition in_index :: "(rid \<Rightarrow> rid \<rightharpoonup> (rid \<times> rid) list) \<Rightarrow> rid \<Rightarrow> triple \<Rightarrow> bool" where
  "in_index M model t = (case t of (s, p, obj) \<Rightarrow> \<exists>pr \<in> set (pairs_of (M p) s). pair_matches (model, obj) pr)"

lemma it_next_found:
  assumes "it_all pt i = Some ps"
  shows "\<exists>r i'. fs_ptree_it_next pt i = Some (r, i') \<and> (r \<noteq> None) = (ps \<noteq> [])"
proof (cases "fs_ptree_it_next pt i")
  case None
  with assms show ?thesis by (simp add: it_all.simps [of pt i])
next
  case (Some ri)
  obtain r i' where ri: "ri = (r, i')" by (cases ri)
  have "Some ps = (case r of None \<Rightarrow> Some [] | Some p \<Rightarrow> do { ps \<leftarrow> it_all pt i'; Some (p # ps) })"
    unfolding assms [symmetric] using Some ri by (subst it_all.simps) simp
  then have "(r \<noteq> None) = (ps \<noteq> [])" by (cases r) (auto split: Option.bind_splits)
  with Some ri show ?thesis by auto
qed

lemma tb_check_ok:
  assumes "index_holds get_ptree M oh oP"
  shows "tb_check (Some get_ptree) model t = Some (in_index M model t)"
proof -
  obtain s p obj where t: "t = (s, p, obj)" by (cases t)
  show ?thesis
  proof (cases "get_ptree p")
    case None
    from spec [OF assms [unfolded index_holds_def], of p] None have "M p = Map.empty" by simp
    with None show ?thesis by (simp add: tb_check_def t fs_ptree_search_def in_index_def)
  next
    case (Some pt)
    from spec [OF assms [unfolded index_holds_def], of p] Some have h: "ptree_holds pt (M p) (oh p) (oP p)" by simp
    note f = ptree_search_ok [OF h, of s "(model, obj)"]
    show ?thesis
    proof (cases "M p s")
      case None
      with f Some show ?thesis by (simp add: tb_check_def t in_index_def)
    next
      case (Some ps)
      with f obtain i where i: "fs_ptree_search (Some pt) s (model, obj) = Some (Some i)" "it_all pt i = Some (filter (pair_matches (model, obj)) ps)"
        by auto
      obtain r i' where n: "fs_ptree_it_next pt i = Some (r, i')" "(r \<noteq> None) = (filter (pair_matches (model, obj)) ps \<noteq> [])"
        using it_next_found [OF i(2)] by blast
      have "(r \<noteq> None) = in_index M model t" unfolding n(2) by (auto simp: in_index_def t Some filter_empty_conv)
      then show ?thesis using i(1) n(1) \<open>get_ptree p = Some pt\<close> by (simp add: tb_check_def t)
    qed
  qed
qed

lemma keep_marked: "filter (keep False ok') (map (mark ss ok) ts) = filter (keep ss ok) ts"
  by (induction ts) (auto simp: keep_def mark_def dropped_def)

lemma tbchain_iterate_ok:
  fixes model :: rid
  assumes "tb_holds bc h C" "C k = Some (fl, xss)" "index_holds get_ptree M oh oP"
  defines "ss \<equiv> fl AND FS_TBCHAIN_SUPERSET \<noteq> 0"
    and "ok \<equiv> in_index M model"
  shows "\<exists>it bc'. fs_tbchain_new_iterator (Some bc) model (h k) = Some (Some it)
    \<and> tb_it_all (Some get_ptree) bc it = Some (filter (keep ss ok) (concat xss), bc')
    \<and> tb_holds bc' h (C(k \<mapsto> (let f = (if \<exists>t \<in> set (concat xss). dropped ss ok t then fl OR FS_TBCHAIN_SPARSE else fl)
                              in if ss then f AND NOT FS_TBCHAIN_SUPERSET else f, map (map (mark ss ok)) xss)))
    \<and> filter (keep False ok) (concat (map (map (mark ss ok)) xss)) = filter (keep ss ok) (concat xss)"
proof -
  obtain fs Ch where r: "tb_rep bc fs Ch" "C = chains_of bc Ch" "\<And>k ids. Ch k = Some ids \<Longrightarrow> ids \<noteq> [] \<and> h k = head_of ids"
    using tb_holdsE [OF assms(1)] by blast
  obtain ids where ids: "Ch k = Some ids" "fl = tb_flags (tbc_data bc (head_of ids))" "xss = map (\<lambda>i. block_triples (tbc_data bc i)) ids"
    using assms(2) unfolding r(2) chains_of_Some by blast
  obtain post where p: "ids = h k # post" "2 \<le> h k" "h k < tbc_size bc" by (rule put_head [OF r(1,3) ids(1)])
  have hb: "h k \<in> set ids" "fl = tb_flags (tbc_data bc (h k))" using p(1) ids(2) by auto
  have it: "fs_tbchain_new_iterator (Some bc) model (h k) = Some (Some (at model (h k) ss (h k) 0))"
    using p(2,3) bit_ops(3) [OF p(2,3) tb_repD(2) [OF r(1)]] hb(2) by (simp add: fs_tbchain_new_iterator_def ss_def)
  have chk: "\<And>t. tb_check (Some get_ptree) model t = Some (ok t)" unfolding ok_def by (rule tb_check_ok [OF assms(3)])
  have l: "linked (tb_nxt bc) (h k) ids" "distinct ids"
    using arena_chain [OF tb_repD(4) [OF r(1)] ids(1)] arena_chain_distinct [OF tb_repD(4) [OF r(1)] ids(1)] p(1) by auto
  obtain bc' where b: "tb_rep bc' fs Ch" "tb_it_all (Some get_ptree) bc (at model (h k) ss (h k) 0) = Some (filter (keep ss ok) (concat xss), bc')"
      "\<forall>i. block_triples (tbc_data bc' i) = (if i \<in> set ids then map (mark ss ok) (block_triples (tbc_data bc i)) else block_triples (tbc_data bc i))"
      "\<forall>i. i \<noteq> h k \<longrightarrow> tb_flags (tbc_data bc' i) = tb_flags (tbc_data bc i)"
      "tb_flags (tbc_data bc' (h k)) = (let f = (if \<exists>t \<in> set (concat xss). dropped ss ok t then fl OR FS_TBCHAIN_SPARSE else fl)
          in if ss then f AND NOT FS_TBCHAIN_SUPERSET else f)"
    using tb_it_chain [OF ids(1) hb(1) chk r(1) l(1) subset_refl l(2), of ss] unfolding ids(3) hb(2) by auto
  let ?C = "C(k \<mapsto> (tb_flags (tbc_data bc' (h k)), map (map (mark ss ok)) xss))"
  have "?C j = chains_of bc' Ch j" for j
  proof (cases "Ch j")
    case (Some js)
    show ?thesis
    proof (cases "j = k")
      case True
      then show ?thesis using ids(1,3) b(3) r(3) [OF ids(1)] by (auto simp: chains_of_def)
    next
      case False
      have d: "i \<notin> set ids" if "i \<in> set js" for i using arena_disjoint [OF tb_repD(4) [OF r(1)] Some ids(1) False that] .
      moreover have "head_of js \<in> set js" using r(3) [OF Some] by (cases js) auto
      ultimately have "tb_flags (tbc_data bc' (head_of js)) = tb_flags (tbc_data bc (head_of js))" using b(4) hb(1) by metis
      then show ?thesis using False Some b(3) d by (simp add: chains_of_def r(2))
    qed
  qed (use ids(1) in \<open>auto simp: chains_of_def r(2)\<close>)
  then have "tb_holds bc' h ?C" by (intro tb_holdsI [OF b(1)] r(3)) auto
  moreover have "filter (keep False ok) (concat (map (map (mark ss ok)) xss)) = filter (keep ss ok) (concat xss)"
    by (simp add: map_concat [symmetric] keep_marked)
  ultimately show ?thesis using it b(2) unfolding b(5) by blast
qed



text \<open>
  Setting, clearing and reading a flag of a chain works on the flags of that chain alone and
  never touches its triples.
\<close>

theorem tbchain_flags_refine:
  assumes "tb_holds bc h C" "C k = Some (fl, xss)" "bt \<in> {FS_TBCHAIN_SPARSE, FS_TBCHAIN_SUPERSET}"
  shows "\<exists>bc1 bc2. fs_tbchain_set_bit bc (h k) bt = Some bc1 \<and> tb_holds bc1 h (C(k \<mapsto> (fl OR bt, xss)))
    \<and> fs_tbchain_clear_bit bc (h k) bt = Some bc2 \<and> tb_holds bc2 h (C(k \<mapsto> (fl AND NOT bt, xss)))
    \<and> fs_tbchain_get_bit bc (h k) bt = Some (fl AND bt)"
proof -
  obtain fs Ch where r: "tb_rep bc fs Ch" "C = chains_of bc Ch" "\<And>k ids. Ch k = Some ids \<Longrightarrow> ids \<noteq> [] \<and> h k = head_of ids"
    using tb_holdsE [OF assms(1)] by blast
  obtain ids where ids: "Ch k = Some ids" "fl = tb_flags (tbc_data bc (head_of ids))" "xss = map (\<lambda>i. block_triples (tbc_data bc i)) ids"
    using assms(2) unfolding r(2) chains_of_Some by blast
  obtain post where p: "ids = h k # post" "2 \<le> h k" "h k < tbc_size bc" by (rule put_head [OF r(1,3) ids(1)])
  note ops = bit_ops [OF p(2,3) tb_repD(2) [OF r(1)], of bt]
  have hk: "h k \<in> set ids" using p(1) by simp
  have "tb_holds (flagged bc (h k) f) h (C(k \<mapsto> (f, xss)))" for f
  proof (rule tb_holdsI [OF flagged_rep(1) [OF r(1) ids(1) hk]])
    have "chains_of (flagged bc (h k) f) Ch = C(k \<mapsto> (f, xss))"
    proof -
      have "Ch k = Some ([] @ h k # post)" "f = (if [] = [] then tb_flags ((tbc_data bc (h k))\<lparr>tb_flags := f\<rparr>) else tb_flags (tbc_data bc (head_of [])))"
        using ids(1) p(1) by simp_all
      moreover have "ids \<noteq> []" if "Ch k = Some ids" for k ids using r(3) [OF that] by simp
      moreover have "block_triples ((tbc_data bc (h k))\<lparr>tb_flags := f\<rparr>) = block_triples (tbc_data bc (h k))" by (simp add: block_triples_def)
      ultimately show ?thesis
        using chains_put [OF r(1), of k "[]" "h k" post f "(tbc_data bc (h k))\<lparr>tb_flags := f\<rparr>"] unfolding r(2) ids(3) p(1) by simp
    qed
    then show "(C(k \<mapsto> (f, xss))) j = chains_of (flagged bc (h k) f) Ch j" for j by simp
  qed (rule r(3))
  then show ?thesis using ops assms(3) ids(2) p(1) by auto
qed

theorem tbchain_flags_refine_witness:
  "\<exists>bc b bc1 bc2 bc3. fs_tbchain_create = Some bc \<and> fs_tbchain_new_chain bc = Some (b, bc1)
    \<and> fs_tbchain_set_bit bc1 b FS_TBCHAIN_SUPERSET = Some bc2 \<and> tb_holds bc2 (no_heads(() := b)) [() \<mapsto> (2, [[]])]
    \<and> fs_tbchain_clear_bit bc1 b FS_TBCHAIN_SUPERSET = Some bc3 \<and> fs_tbchain_get_bit bc1 b FS_TBCHAIN_SUPERSET = Some 0"
proof -
  obtain bc b bc1 where c: "fs_tbchain_create = Some bc" "fs_tbchain_new_chain bc = Some (b, bc1)"
    "tb_holds bc1 (no_heads(() := b)) [() \<mapsto> (0, [[]])]" by (rule first_chain)
  from tbchain_flags_refine [OF c(3), of "()" 0 "[[]]" FS_TBCHAIN_SUPERSET] c(1,2) show ?thesis
    by (auto simp: FS_TBCHAIN_SUPERSET_def)
qed

end
