(* ===== verification/Backend.thy ===== *)
theory Backend
  imports Forest FsList Mhash Tlist TbchainIter
begin

text \<open>
  The storage backend of one segment (\<open>src/src/backend/backend.c\<close>): the directory of radix trees, two
  for each predicate, with the ring that limits how many of them are open, and the model usage
  table.  The tree files stay on disk when a tree is closed: \<open>be_files\<close> maps a predicate and the letter
  of the file (false for \<open>s\<close>, true for \<open>o\<close>) to its contents, and an open tree is the name of its file.
  All trees work on the pair table \<open>be_pairs\<close>.  Metadata, the resource hash, timings, locks and signals
  are left out.
\<close>

section \<open>State\<close>

type_synonym tree_name = "rid \<times> bool"

record ptree_ref =
  pr_pred :: rid
  pr_ptree_s :: bool
  pr_ptree_o :: bool

record backend =
  be_segments :: int
  be_model_data :: bool
  be_model_files :: bool
  be_models :: mhash
  be_model_list :: tbchain
  be_predicates :: "rid fs_list"
  be_tlists :: "rid \<rightharpoonup> tl_file"
  be_pairs :: ptable
  be_files :: "tree_name \<rightharpoonup> ptree"
  be_pended_import :: bool
  be_pended :: "quad fs_list option list"
  be_ptree_size :: nat
  be_ptree_length :: nat
  be_ptrees_priv :: "ptree_ref list"
  be_rid_id_map :: "rid \<rightharpoonup> nat"
  be_ptree_open_flags :: "open_flag list"
  be_ptree_open_count :: nat
  be_open_ptrees :: "nat list"
  be_open_ptrees_newest :: nat
  be_open_ptrees_oldest :: nat
  be_approx_size :: int

definition FS_MAX_OPEN_PTREES :: nat where "FS_MAX_OPEN_PTREES = 300"
definition FS_PENDED_LISTS :: nat where "FS_PENDED_LISTS = 16"

text \<open>An entry of the directory that \<open>calloc\<close> made.\<close>

definition null_ref :: ptree_ref where
  "null_ref = \<lparr>pr_pred = 0, pr_ptree_s = False, pr_ptree_o = False\<rparr>"

section \<open>Opening trees\<close>

text \<open>\<open>fs_ptree_open\<close> with the flags of the backend; the result is false for a null pointer.\<close>

definition fs_ptree_open :: "backend \<Rightarrow> rid \<Rightarrow> bool \<Rightarrow> bool \<times> backend" where
  "fs_ptree_open be pred pk =
     (case be_files be (pred, pk) of
        None \<Rightarrow>
          if O_CREAT \<in> set (be_ptree_open_flags be)
          then (True, be\<lparr>be_files := (be_files be)((pred, pk) \<mapsto> fs_ptree_create (be_pairs be))\<rparr>)
          else (False, be)
      | Some pt \<Rightarrow>
          if O_TRUNC \<in> set (be_ptree_open_flags be)
          then (True, be\<lparr>be_files := (be_files be)((pred, pk) \<mapsto> fs_ptree_create (be_pairs be))\<rparr>)
          else (True, be\<lparr>be_files := (be_files be)((pred, pk) \<mapsto>
                 (if node_free pt = 0 then pt\<lparr>node_free := FS_PTREE_NULL_NODE\<rparr> else pt))\<rparr>))"

text \<open>The step of a ring index.\<close>

definition ring_next :: "nat \<Rightarrow> nat" where
  "ring_next i = (if i + 1 \<ge> FS_MAX_OPEN_PTREES then 0 else i + 1)"

definition close_oldest :: "backend \<Rightarrow> backend option" where
  "close_oldest be = do {
     toclose \<leftarrow> load_at (be_open_ptrees be) (be_open_ptrees_oldest be);
     r \<leftarrow> load_at (be_ptrees_priv be) toclose;
     Some (be\<lparr>be_open_ptrees_oldest := ring_next (be_open_ptrees_oldest be),
              be_ptrees_priv := (be_ptrees_priv be)[toclose := r\<lparr>pr_ptree_s := False, pr_ptree_o := False\<rparr>],
              be_ptree_open_count := be_ptree_open_count be - 1\<rparr>)
   }"

definition fs_backend_ptree_limited_open :: "backend \<Rightarrow> nat \<Rightarrow> backend option" where
  "fs_backend_ptree_limited_open be n = do {
     r \<leftarrow> load_at (be_ptrees_priv be) n;
     if pr_ptree_s r then Some be
     else do {
       be1 \<leftarrow> (if be_ptree_open_count be \<ge> FS_MAX_OPEN_PTREES then close_oldest be else Some be);
       let (s, be2) = fs_ptree_open be1 (pr_pred r) False;
       let (obj, be3) = fs_ptree_open be2 (pr_pred r) True;
       ring \<leftarrow> store_at (be_open_ptrees be3) (be_open_ptrees_newest be3) n;
       Some (be3\<lparr>be_ptrees_priv := (be_ptrees_priv be3)[n := r\<lparr>pr_ptree_s := s, pr_ptree_o := obj\<rparr>],
                 be_open_ptrees := ring,
                 be_rid_id_map := (be_rid_id_map be3)(pr_pred r \<mapsto> n),
                 be_open_ptrees_newest := ring_next (be_open_ptrees_newest be3),
                 be_ptree_open_count := be_ptree_open_count be3 + 1\<rparr>)
     }
   }"

text \<open>The inner \<open>None\<close> is the null pointer for a number past the end.\<close>

definition fs_backend_ptree_ref :: "backend \<Rightarrow> nat \<Rightarrow> (ptree_ref option \<times> backend) option" where
  "fs_backend_ptree_ref be n =
     (if n \<ge> be_ptree_length be then Some (None, be)
      else do {
        r \<leftarrow> load_at (be_ptrees_priv be) n;
        if pr_ptree_s r then Some (Some r, be)
        else do {
          be1 \<leftarrow> fs_backend_ptree_limited_open be n;
          r1 \<leftarrow> load_at (be_ptrees_priv be1) n;
          Some (Some r1, be1)
        }
      })"

text \<open>A pointer to an open tree is the name of its file.\<close>

definition ref_tree :: "ptree_ref \<Rightarrow> bool \<Rightarrow> tree_name option" where
  "ref_tree r object = (if (if object then pr_ptree_o r else pr_ptree_s r) then Some (pr_pred r, object) else None)"

definition fs_backend_get_ptree :: "backend \<Rightarrow> rid \<Rightarrow> bool \<Rightarrow> (tree_name option \<times> backend) option" where
  "fs_backend_get_ptree be pred object = do {
     let id = (case be_rid_id_map be pred of None \<Rightarrow> 0 | Some n \<Rightarrow> n);
     miss \<leftarrow> (if id = 0 then
                if be_ptree_length be = 0 then Some True
                else map_option (\<lambda>r. pr_pred r \<noteq> pred) (load_at (be_ptrees_priv be) 0)
              else Some False);
     if miss then Some (None, be)
     else do {
       (r, be1) \<leftarrow> fs_backend_ptree_ref be id;
       r \<leftarrow> r;
       Some (ref_tree r object, be1)
     }
   }"

text \<open>\<open>junk\<close> is what \<open>realloc\<close> leaves in the new half of the directory.\<close>

definition fs_backend_open_ptree :: "(nat \<Rightarrow> ptree_ref) \<Rightarrow> backend \<Rightarrow> rid \<Rightarrow> (nat \<times> backend) option" where
  "fs_backend_open_ptree junk be pred = do {
     let be1 = (if be_ptree_length be = be_ptree_size be
       then be\<lparr>be_ptree_size := be_ptree_size be * 2,
               be_ptrees_priv := realloc junk (be_ptrees_priv be) (be_ptree_size be * 2)\<rparr>
       else be);
     priv \<leftarrow> store_at (be_ptrees_priv be1) (be_ptree_length be1) \<lparr>pr_pred = pred, pr_ptree_s = False, pr_ptree_o = False\<rparr>;
     be2 \<leftarrow> fs_backend_ptree_limited_open (be1\<lparr>be_ptrees_priv := priv\<rparr>) (be_ptree_length be1);
     r \<leftarrow> load_at (be_ptrees_priv be2) (be_ptree_length be2);
     t \<leftarrow> ref_tree r False;
     pt \<leftarrow> be_files be2 t;
     Some (be_ptree_length be2, be2\<lparr>be_approx_size := be_approx_size be2 + fs_ptree_count pt,
                                    be_ptree_length := be_ptree_length be2 + 1\<rparr>)
   }"

section \<open>Operations on an open tree\<close>

text \<open>The tree behind a pointer works on the pair table of the backend.\<close>

definition tree_at :: "backend \<Rightarrow> tree_name \<Rightarrow> ptree option" where
  "tree_at be t = map_option (\<lambda>pt. pt\<lparr>pt_table := be_pairs be\<rparr>) (be_files be t)"

definition tree_back :: "backend \<Rightarrow> tree_name \<Rightarrow> ptree \<Rightarrow> backend" where
  "tree_back be t pt = be\<lparr>be_files := (be_files be)(t \<mapsto> pt), be_pairs := pt_table pt\<rparr>"

definition be_ptree_add :: "bool \<Rightarrow> backend \<Rightarrow> tree_name option \<Rightarrow> rid \<Rightarrow> rid \<times> rid \<Rightarrow> (int \<times> backend) option" where
  "be_ptree_add dedup be tree pk pair =
     (case tree of None \<Rightarrow> Some (1, be)
      | Some t \<Rightarrow> do {
          (ret, pt) \<leftarrow> fs_ptree_add dedup (tree_at be t) pk (Some pair);
          Some (ret, case pt of None \<Rightarrow> be | Some pt \<Rightarrow> tree_back be t pt)
        })"

definition be_ptree_remove :: "backend \<Rightarrow> tree_name option \<Rightarrow> rid \<Rightarrow> rid \<times> rid \<Rightarrow> rid_set option \<Rightarrow> (int \<times> backend \<times> rid_set option) option" where
  "be_ptree_remove be tree pk pair models = do {
     (ret, pt, models) \<leftarrow> fs_ptree_remove (Option.bind tree (tree_at be)) pk pair models;
     Some (ret, case (tree, pt) of (Some t, Some pt) \<Rightarrow> tree_back be t pt | _ \<Rightarrow> be, models)
   }"

definition be_ptree_remove_all :: "backend \<Rightarrow> tree_name option \<Rightarrow> rid \<times> rid \<Rightarrow> (int \<times> backend) option" where
  "be_ptree_remove_all be tree pair = do {
     (ret, pt) \<leftarrow> fs_ptree_remove_all (Option.bind tree (tree_at be)) (Some pair);
     Some (ret, case (tree, pt) of (Some t, Some pt) \<Rightarrow> tree_back be t pt | _ \<Rightarrow> be)
   }"

section \<open>Opening and closing the files\<close>

text \<open>What a closed segment has on disk.\<close>

record be_disk =
  dk_models :: mhash
  dk_model_list :: tbchain
  dk_tlists :: "rid \<rightharpoonup> tl_file"
  dk_predicates :: "rid list"
  dk_pairs :: ptable
  dk_files :: "tree_name \<rightharpoonup> ptree"

text \<open>
  The state \<open>fs_backend_init\<close> makes for the given metadata.  The files are not open; their fields are
  filled by \<open>fs_backend_open_files\<close>.
\<close>

definition fs_backend_init :: "int \<Rightarrow> bool \<Rightarrow> bool \<Rightarrow> be_disk \<Rightarrow> backend" where
  "fs_backend_init segments model_data model_files disk =
     \<lparr>be_segments = segments, be_model_data = model_data, be_model_files = model_files,
      be_models = dk_models disk, be_model_list = dk_model_list disk,
      be_predicates = the (fs_list_open 0 8 (dk_predicates disk)), be_tlists = dk_tlists disk, be_pairs = dk_pairs disk, be_files = dk_files disk,
      be_pended_import = False, be_pended = replicate FS_PENDED_LISTS None,
      be_ptree_size = 0, be_ptree_length = 0, be_ptrees_priv = [], be_rid_id_map = Map.empty,
      be_ptree_open_flags = [], be_ptree_open_count = 0, be_open_ptrees = replicate 300 0,
      be_open_ptrees_newest = 0, be_open_ptrees_oldest = 0, be_approx_size = 0\<rparr>"

text \<open>The loop that opens the trees of every stored predicate.\<close>

partial_function (option) open_preds :: "(nat \<Rightarrow> ptree_ref) \<Rightarrow> backend \<Rightarrow> backend option" where
  "open_preds junk be =
     (let (more, pred, l) = fs_list_next_value (be_predicates be); be1 = be\<lparr>be_predicates := l\<rparr>
      in if more = 0 then Some be1
         else do {
           p \<leftarrow> pred;
           (_, be2) \<leftarrow> fs_backend_open_ptree junk be1 p;
           open_preds junk be2
         })"

text \<open>\<open>O_TRUNC\<close> empties the model files, the list of predicates and the pair table.\<close>

definition fs_backend_open_files :: "(nat \<Rightarrow> ptree_ref) \<Rightarrow> backend \<Rightarrow> be_disk \<Rightarrow> open_flag list \<Rightarrow> backend option" where
  "fs_backend_open_files junk be disk flags = do {
     let trunc = (O_TRUNC \<in> set flags);
     mlist \<leftarrow> (if trunc then fs_tbchain_create else Some (dk_model_list disk));
     preds \<leftarrow> fs_list_open 0 8 (if trunc then [] else dk_predicates disk);
     let len = fs_list_length preds;
     let size = (if len < 16 then 16 else len);
     open_preds junk (be\<lparr>be_models := (if trunc then fs_mhash_create else dk_models disk), be_model_list := mlist,
       be_predicates := fs_list_rewind preds, be_ptree_length := 0, be_ptree_size := size, be_ptree_open_flags := flags,
       be_ptrees_priv := replicate size null_ref, be_tlists := dk_tlists disk,
       be_pairs := (if trunc then fs_ptable_create else dk_pairs disk),
       be_files := dk_files disk, be_rid_id_map := Map.empty\<rparr>)
   }"

text \<open>\<open>fs_backend_close_files\<close>: the disk, and the state with the ring as it was.\<close>

definition fs_backend_close_files :: "backend \<Rightarrow> be_disk \<times> backend" where
  "fs_backend_close_files be =
     (\<lparr>dk_models = be_models be, dk_model_list = be_model_list be, dk_tlists = be_tlists be,
       dk_predicates = fs_list_close (be_predicates be),
       dk_pairs = be_pairs be, dk_files = be_files be\<rparr>,
      be\<lparr>be_ptree_open_count := 0, be_ptrees_priv := [], be_ptree_length := 0, be_ptree_size := 0, be_rid_id_map := Map.empty\<rparr>)"

section \<open>The usage of models\<close>

definition fs_backend_model_get_usage :: "backend \<Rightarrow> rid \<Rightarrow> nat" where
  "fs_backend_model_get_usage be model = fs_mhash_get (be_models be) model"

text \<open>\<open>fs_backend_model_set_usage\<close> outside a transaction; transactions are not supported by this backend.\<close>

definition fs_backend_model_set_usage :: "mh_entry \<Rightarrow> backend \<Rightarrow> rid \<Rightarrow> nat \<Rightarrow> (int \<times> backend) option" where
  "fs_backend_model_set_usage junk be model val =
     (if fs_mhash_get (be_models be) model = val then Some (0, be)
      else do {
        (ret, mh) \<leftarrow> fs_mhash_put junk (be_models be) model val;
        let be1 = be\<lparr>be_models := mh\<rparr>;
        Some (ret, if val = 1 then
            (case fs_tlist_open (be_tlists be1 model) [O_CREAT, O_RDWR] of
               None \<Rightarrow> be1 | Some l \<Rightarrow> be1\<lparr>be_tlists := (be_tlists be1)(model \<mapsto> fs_tlist_close l)\<rparr>)
          else be1)
      })"

section \<open>The invariant of the directory\<close>

definition be_preds :: "backend \<Rightarrow> rid list" where
  "be_preds be = map pr_pred (take (be_ptree_length be) (be_ptrees_priv be))"

definition dir_ok :: "backend \<Rightarrow> bool" where
  "dir_ok be \<longleftrightarrow> be_ptree_length be \<le> be_ptree_size be \<and> length (be_ptrees_priv be) = be_ptree_size be \<and> 0 < be_ptree_size be
     \<and> distinct (be_preds be)
     \<and> (\<forall>p i. be_rid_id_map be p = Some i \<longleftrightarrow> i < be_ptree_length be \<and> be_preds be ! i = p)"

text \<open>The entries of the ring from the oldest on.\<close>

definition ring_queue :: "backend \<Rightarrow> nat list" where
  "ring_queue be = map (\<lambda>j. be_open_ptrees be ! ((be_open_ptrees_oldest be + j) mod 300)) [0..<be_ptree_open_count be]"

text \<open>
  The ring lists the open entries of the directory, each once; both trees of an entry are open or
  both are closed.  The entries that count are given as \<open>n\<close>: while a new entry is being made it is
  not part of the directory yet.
\<close>

definition ring_ok :: "nat \<Rightarrow> backend \<Rightarrow> bool" where
  "ring_ok n be \<longleftrightarrow> length (be_open_ptrees be) = 300 \<and> be_open_ptrees_oldest be < 300 \<and> be_ptree_open_count be \<le> 300
     \<and> be_open_ptrees_newest be = (be_open_ptrees_oldest be + be_ptree_open_count be) mod 300
     \<and> n \<le> length (be_ptrees_priv be) \<and> distinct (ring_queue be)
     \<and> set (ring_queue be) = {i. i < n \<and> pr_ptree_s (be_ptrees_priv be ! i)}
     \<and> (\<forall>i < n. pr_ptree_o (be_ptrees_priv be ! i) = pr_ptree_s (be_ptrees_priv be ! i))"

lemma ring_next_mod: "i < 300 \<Longrightarrow> ring_next i = Suc i mod 300"
  by (auto simp: ring_next_def FS_MAX_OPEN_PTREES_def mod_if)

lemma ring_queue_close:
  assumes "ring_ok n be" "be_ptree_open_count be = 300"
  shows "\<exists>be'. close_oldest be = Some be' \<and> ring_ok n be' \<and> be_ptree_open_count be' = 299
    \<and> (\<exists>c < n. be' = be\<lparr>be_ptrees_priv := (be_ptrees_priv be)[c := (be_ptrees_priv be ! c)\<lparr>pr_ptree_s := False, pr_ptree_o := False\<rparr>],
        be_open_ptrees_oldest := be_open_ptrees_oldest be', be_ptree_open_count := 299\<rparr>)"
proof -
  let ?c = "be_open_ptrees be ! be_open_ptrees_oldest be"
  let ?be = "be\<lparr>be_open_ptrees_oldest := ring_next (be_open_ptrees_oldest be), be_ptree_open_count := 299,
    be_ptrees_priv := (be_ptrees_priv be)[?c := (be_ptrees_priv be ! ?c)\<lparr>pr_ptree_s := False, pr_ptree_o := False\<rparr>]\<rparr>"
  have o: "be_open_ptrees_oldest be < 300" "length (be_open_ptrees be) = 300" using assms(1) unfolding ring_ok_def by blast+
  have q: "ring_queue be = ?c # ring_queue ?be"
    using map_upt_Suc [of "\<lambda>j. be_open_ptrees be ! ((be_open_ptrees_oldest be + j) mod 300)" 299] assms(2) o(1)
    by (simp add: ring_queue_def ring_next_mod mod_simps del: upt_Suc)
  then have "?c \<in> set (ring_queue be)" by simp
  then have c: "?c < n" "?c < length (be_ptrees_priv be)" using assms(1) unfolding ring_ok_def by auto
  have run: "close_oldest be = Some ?be" using o c assms(2) by (simp add: close_oldest_def)
  have "set (ring_queue be) = {i. i < n \<and> pr_ptree_s (be_ptrees_priv be ! i)}" "distinct (ring_queue be)"
    using assms(1) unfolding ring_ok_def by blast+
  then have "set (ring_queue ?be) = {i. i < n \<and> pr_ptree_s (be_ptrees_priv be ! i)} - {?c}" "distinct (ring_queue ?be)"
    unfolding q by auto
  moreover have "{i. i < n \<and> pr_ptree_s (be_ptrees_priv ?be ! i)} = {i. i < n \<and> pr_ptree_s (be_ptrees_priv be ! i)} - {?c}"
    using c by (auto simp: nth_list_update)
  ultimately have "ring_ok n ?be"
    using assms o c unfolding ring_ok_def by (simp add: ring_next_mod mod_simps nth_list_update)
  then show ?thesis using run c(1) by auto
qed

text \<open>Putting a closed entry on the ring.\<close>

lemma ring_queue_push:
  assumes "ring_ok n be" "be_ptree_open_count be < 300" "c < n" "\<not> pr_ptree_s (be_ptrees_priv be ! c)"
    and r: "pr_ptree_s r" "pr_ptree_o r"
    and be': "be_open_ptrees be' = (be_open_ptrees be)[be_open_ptrees_newest be := c]"
      "be_open_ptrees_oldest be' = be_open_ptrees_oldest be" "be_ptree_open_count be' = Suc (be_ptree_open_count be)"
      "be_open_ptrees_newest be' = ring_next (be_open_ptrees_newest be)" "be_ptrees_priv be' = (be_ptrees_priv be)[c := r]"
  shows "ring_ok n be'"
proof -
  let ?k = "be_ptree_open_count be"
  have o: "be_open_ptrees_oldest be < 300" "length (be_open_ptrees be) = 300" "n \<le> length (be_ptrees_priv be)"
    "be_open_ptrees_newest be = (be_open_ptrees_oldest be + ?k) mod 300" using assms(1) unfolding ring_ok_def by blast+
  have ne: "(be_open_ptrees_oldest be + j) mod 300 \<noteq> be_open_ptrees_newest be" if "j < ?k" for j
    using that assms(2) o(1) unfolding o(4) by (auto simp: mod_if split: if_split_asm)
  have "ring_queue be' = ring_queue be @ [c]"
    using ne [THEN not_sym] o by (simp add: ring_queue_def be')
  moreover have "set (ring_queue be) = {i. i < n \<and> pr_ptree_s (be_ptrees_priv be ! i)}" "distinct (ring_queue be)"
    using assms(1) unfolding ring_ok_def by blast+
  moreover have "{i. i < n \<and> pr_ptree_s (be_ptrees_priv be' ! i)} = insert c {i. i < n \<and> pr_ptree_s (be_ptrees_priv be ! i)}"
    using assms(3) o(3) r by (auto simp: be' nth_list_update)
  moreover have "\<forall>i < n. pr_ptree_o (be_ptrees_priv be' ! i) = pr_ptree_s (be_ptrees_priv be' ! i)"
    using assms(1,3) o(3) r unfolding ring_ok_def by (auto simp: be' nth_list_update)
  ultimately show ?thesis using assms(2,4) o unfolding ring_ok_def by (simp add: be' ring_next_mod mod_simps)
qed

section \<open>What the backend holds\<close>

text \<open>
  The tree files hold \<open>M\<close>; the trees of the predicates of the directory are among them
  (\<open>be_opens\<close>), and there are no others (\<open>be_holds\<close>).  \<open>keep_flags\<close> says that opening makes missing
  files and keeps existing ones.
\<close>

definition keep_flags :: "backend \<Rightarrow> bool" where
  "keep_flags be \<longleftrightarrow> O_CREAT \<in> set (be_ptree_open_flags be) \<and> O_TRUNC \<notin> set (be_ptree_open_flags be)"

definition be_opens :: "backend \<Rightarrow> (tree_name \<Rightarrow> rid \<rightharpoonup> (rid \<times> rid) list) \<Rightarrow> bool" where
  "be_opens be M \<longleftrightarrow> keep_flags be \<and> dir_ok be \<and> ring_ok (be_ptree_length be) be
     \<and> set (be_preds be) \<times> UNIV \<subseteq> dom (be_files be) \<and> forest (be_pairs be) (be_files be) M"

definition be_holds :: "backend \<Rightarrow> (tree_name \<Rightarrow> rid \<rightharpoonup> (rid \<times> rid) list) \<Rightarrow> bool" where
  "be_holds be M \<longleftrightarrow> be_opens be M \<and> dom (be_files be) = set (be_preds be) \<times> UNIV"

text \<open>What opening and closing trees leaves alone.\<close>

definition same_store :: "backend \<Rightarrow> backend \<Rightarrow> bool" where
  "same_store be' be \<longleftrightarrow> be_segments be' = be_segments be \<and> be_model_data be' = be_model_data be \<and> be_model_files be' = be_model_files be
     \<and> be_models be' = be_models be \<and> be_model_list be' = be_model_list be \<and> be_pended_import be' = be_pended_import be \<and> be_pended be' = be_pended be \<and> be_tlists be' = be_tlists be \<and> be_predicates be' = be_predicates be
     \<and> be_pairs be' = be_pairs be \<and> be_files be' = be_files be \<and> be_ptree_length be' = be_ptree_length be
     \<and> be_preds be' = be_preds be \<and> be_approx_size be' = be_approx_size be"

lemma same_store_refl [simp]: "same_store be be"
  by (simp add: same_store_def)

lemma same_store_trans: "same_store b2 b1 \<Longrightarrow> same_store b1 b0 \<Longrightarrow> same_store b2 b0"
  by (simp add: same_store_def)

lemma forest_node_free: "forest tbl T M \<Longrightarrow> T t = Some pt \<Longrightarrow> node_free pt \<noteq> 0"
proof -
  assume "forest tbl T M" "T t = Some pt"
  then obtain ts fn where "free_nodes (slots pt) (node_free pt) fn"
    unfolding forest_def tree_part_def ptree_rep_def heap_ok_def by blast
  then show ?thesis by (cases fn) (auto simp: FS_PTREE_NULL_NODE_def NODE_ID_def)
qed

lemma open_tree:
  assumes f: "forest (be_pairs be) (be_files be) M" and k: "keep_flags be"
  shows "\<exists>F. fs_ptree_open be p k = (True, be\<lparr>be_files := F\<rparr>) \<and> forest (be_pairs be) F M
    \<and> dom F = insert (p, k) (dom (be_files be)) \<and> be_files be \<subseteq>\<^sub>m F
    \<and> (be_files be (p, k) = None \<longrightarrow> F (p, k) = Some (fs_ptree_create (be_pairs be)))"
proof (cases "be_files be (p, k)")
  case None
  then show ?thesis using forest_new [OF f None] k
    by (intro exI [of _ "(be_files be)((p, k) \<mapsto> fs_ptree_create (be_pairs be))"])
      (auto simp: fs_ptree_open_def keep_flags_def map_le_def)
next
  case (Some pt)
  then have "(be_files be)((p, k) \<mapsto> pt) = be_files be" by auto
  then have "fs_ptree_open be p k = (True, be\<lparr>be_files := be_files be\<rparr>)"
    using Some k forest_node_free [OF f Some] by (simp add: fs_ptree_open_def keep_flags_def)
  then show ?thesis using f Some by (intro exI [of _ "be_files be"]) auto
qed

text \<open>The fields that opening an entry may change.\<close>

definition opened :: "backend \<Rightarrow> rid \<Rightarrow> nat \<Rightarrow> backend \<Rightarrow> bool" where
  "opened be p n be' \<longleftrightarrow> be' = be\<lparr>be_files := be_files be', be_ptrees_priv := be_ptrees_priv be', be_rid_id_map := (be_rid_id_map be)(p \<mapsto> n),
       be_open_ptrees := be_open_ptrees be', be_open_ptrees_newest := be_open_ptrees_newest be',
       be_open_ptrees_oldest := be_open_ptrees_oldest be', be_ptree_open_count := be_ptree_open_count be'\<rparr>
     \<and> map pr_pred (be_ptrees_priv be') = map pr_pred (be_ptrees_priv be)
     \<and> dom (be_files be') = insert (p, False) (insert (p, True) (dom (be_files be))) \<and> be_files be \<subseteq>\<^sub>m be_files be'"

lemma make_room:
  assumes "ring_ok m be" "n < m" "\<not> pr_ptree_s (be_ptrees_priv be ! n)"
  shows "\<exists>be'. (if be_ptree_open_count be \<ge> FS_MAX_OPEN_PTREES then close_oldest be else Some be) = Some be'
    \<and> ring_ok m be' \<and> be_ptree_open_count be' < 300 \<and> \<not> pr_ptree_s (be_ptrees_priv be' ! n)
    \<and> be' = be\<lparr>be_ptrees_priv := be_ptrees_priv be', be_open_ptrees_oldest := be_open_ptrees_oldest be', be_ptree_open_count := be_ptree_open_count be'\<rparr>
    \<and> map pr_pred (be_ptrees_priv be') = map pr_pred (be_ptrees_priv be)"
proof (cases "be_ptree_open_count be \<ge> FS_MAX_OPEN_PTREES")
  case True
  then have "be_ptree_open_count be = 300" using assms(1) by (simp add: ring_ok_def FS_MAX_OPEN_PTREES_def)
  then obtain be' c where c: "close_oldest be = Some be'" "ring_ok m be'" "be_ptree_open_count be' = 299" "c < m"
    "be' = be\<lparr>be_ptrees_priv := (be_ptrees_priv be)[c := (be_ptrees_priv be ! c)\<lparr>pr_ptree_s := False, pr_ptree_o := False\<rparr>],
       be_open_ptrees_oldest := be_open_ptrees_oldest be', be_ptree_open_count := 299\<rparr>"
    using ring_queue_close [OF assms(1)] by blast
  have len: "m \<le> length (be_ptrees_priv be)" using assms(1) by (simp add: ring_ok_def)
  define pv where "pv = (be_ptrees_priv be)[c := (be_ptrees_priv be ! c)\<lparr>pr_ptree_s := False, pr_ptree_o := False\<rparr>]"
  have pv: "be_ptrees_priv be' = pv" by (subst c(5)) (simp add: pv_def)
  have "map pr_pred pv = map pr_pred (be_ptrees_priv be)"
    using c(4) len by (auto simp: pv_def map_update list_update_same_conv)
  moreover have "\<not> pr_ptree_s (pv ! n)" using assms(2,3) len c(4) by (auto simp: pv_def nth_list_update)
  ultimately show ?thesis using True c(1-3) c(5) [folded pv_def] pv by auto
next
  case False
  then show ?thesis using assms by (auto simp: FS_MAX_OPEN_PTREES_def)
qed

lemma limited_open_new:
  assumes f: "forest (be_pairs be) (be_files be) M" and k: "keep_flags be" and g: "ring_ok m be"
    and n: "n < m" "\<not> pr_ptree_s (be_ptrees_priv be ! n)" "pr_pred (be_ptrees_priv be ! n) = p"
  shows "\<exists>be'. fs_backend_ptree_limited_open be n = Some be' \<and> ring_ok m be' \<and> opened be p n be'
    \<and> be_ptrees_priv be' ! n = \<lparr>pr_pred = p, pr_ptree_s = True, pr_ptree_o = True\<rparr> \<and> forest (be_pairs be') (be_files be') M
    \<and> (\<forall>k. be_files be (p, k) = None \<longrightarrow> be_files be' (p, k) = Some (fs_ptree_create (be_pairs be)))"
proof -
  have len: "m \<le> length (be_ptrees_priv be)" "length (be_open_ptrees be) = 300" using g by (simp_all add: ring_ok_def)
  obtain be1 where b1: "(if be_ptree_open_count be \<ge> FS_MAX_OPEN_PTREES then close_oldest be else Some be) = Some be1"
    "ring_ok m be1" "be_ptree_open_count be1 < 300" "\<not> pr_ptree_s (be_ptrees_priv be1 ! n)"
    "be1 = be\<lparr>be_ptrees_priv := be_ptrees_priv be1, be_open_ptrees_oldest := be_open_ptrees_oldest be1, be_ptree_open_count := be_ptree_open_count be1\<rparr>"
    "map pr_pred (be_ptrees_priv be1) = map pr_pred (be_ptrees_priv be)"
    using make_room [OF g n(1,2)] by blast
  obtain pv i j where b1eq: "be1 = be\<lparr>be_ptrees_priv := pv, be_open_ptrees_oldest := i, be_ptree_open_count := j\<rparr>" using b1(5) by blast
  then have e1: "be_files be1 = be_files be" "be_pairs be1 = be_pairs be" "keep_flags be1" "be_open_ptrees be1 = be_open_ptrees be"
    "be_rid_id_map be1 = be_rid_id_map be" using k by (simp_all add: keep_flags_def)
  have f1: "forest (be_pairs be1) (be_files be1) M" using f e1 by simp
  obtain F where o1: "fs_ptree_open be1 p False = (True, be1\<lparr>be_files := F\<rparr>)" "forest (be_pairs be) F M"
    "dom F = insert (p, False) (dom (be_files be))" "be_files be \<subseteq>\<^sub>m F"
    "be_files be (p, False) = None \<longrightarrow> F (p, False) = Some (fs_ptree_create (be_pairs be))"
    using open_tree [OF f1 e1(3), where p = p and k = False] unfolding e1(1,2) by (elim exE conjE) (rule that)
  let ?be2 = "be1\<lparr>be_files := F\<rparr>"
  have "forest (be_pairs ?be2) (be_files ?be2) M" "keep_flags ?be2" using o1(2) e1 by (simp_all add: keep_flags_def)
  from open_tree [OF this, where p = p and k = True]
  obtain G where o2: "fs_ptree_open ?be2 p True = (True, be1\<lparr>be_files := G\<rparr>)" "forest (be_pairs be) G M"
    "dom G = insert (p, True) (dom F)" "F \<subseteq>\<^sub>m G" "F (p, True) = None \<longrightarrow> G (p, True) = Some (fs_ptree_create (be_pairs be))" by (simp add: e1(2)) (elim exE conjE, rule that)
  let ?r = "\<lparr>pr_pred = p, pr_ptree_s = True, pr_ptree_o = True\<rparr>"
  let ?be = "be1\<lparr>be_files := G, be_ptrees_priv := (be_ptrees_priv be1)[n := ?r], be_open_ptrees := (be_open_ptrees be1)[be_open_ptrees_newest be1 := n],
     be_rid_id_map := (be_rid_id_map be)(p \<mapsto> n), be_open_ptrees_newest := ring_next (be_open_ptrees_newest be1), be_ptree_open_count := be_ptree_open_count be1 + 1\<rparr>"
  have nw: "be_open_ptrees_newest be1 < 300" using b1(2) by (simp add: ring_ok_def)
  have rr: "(be_ptrees_priv be ! n)\<lparr>pr_ptree_s := True, pr_ptree_o := True\<rparr> = ?r" using n(3) by (cases "be_ptrees_priv be ! n") simp
  have run: "fs_backend_ptree_limited_open be n = Some ?be"
    using n len b1(1) o1(1) o2(1) nw e1 by (simp add: fs_backend_ptree_limited_open_def rr)
  have ring: "ring_ok m ?be" by (rule ring_queue_push [OF b1(2-3) n(1) b1(4), of ?r]) simp_all
  have l1: "length (be_ptrees_priv be1) = length (be_ptrees_priv be)" using b1(6) by (metis length_map)
  have pp: "map pr_pred (be_ptrees_priv ?be) = map pr_pred (be_ptrees_priv be)"
    using n len b1(6) by (simp add: map_update list_update_same_conv)
  have "be_files be \<subseteq>\<^sub>m G" using o1(4) o2(4) by (rule map_le_trans)
  then have "opened be p n ?be" using pp o1(3) o2(3) unfolding opened_def by (simp add: b1eq insert_commute)
  moreover have "be_files be (p, k) = None \<longrightarrow> G (p, k) = Some (fs_ptree_create (be_pairs be))" for k
  proof (cases k)
    case True
    have "F (p, True) = None" if "be_files be (p, True) = None"
    proof (rule ccontr)
      assume "F (p, True) \<noteq> None"
      then have "(p, True) \<in> dom F" by blast
      with o1(3) that show False by auto
    qed
    then show ?thesis using True o2(5) by simp
  next
    case False
    then show ?thesis using o1(5) o2(4) unfolding map_le_def by (metis domI)
  qed
  ultimately show ?thesis using run ring o2(2) e1(2) n len l1 by simp
qed

lemma be_opensD:
  assumes "be_opens be M"
  shows "keep_flags be" "dir_ok be" "ring_ok (be_ptree_length be) be" "set (be_preds be) \<times> UNIV \<subseteq> dom (be_files be)"
    "forest (be_pairs be) (be_files be) M" "length (be_preds be) = be_ptree_length be"
    "be_ptree_length be \<le> length (be_ptrees_priv be)" "\<And>i. i < be_ptree_length be \<Longrightarrow> pr_pred (be_ptrees_priv be ! i) = be_preds be ! i"
  using assms by (auto simp: be_opens_def dir_ok_def be_preds_def)

text \<open>A map that gains an entry it has.\<close>

lemma map_upd_same: "m k = Some v \<Longrightarrow> m(k \<mapsto> v) = m"
  by auto

lemma map_le_dom_eq: "m \<subseteq>\<^sub>m m' \<Longrightarrow> dom m' \<subseteq> dom m \<Longrightarrow> m' = m"
  by (rule map_le_antisym [symmetric]) (simp_all add: map_le_def subset_iff)

lemma limited_open_skip:
  "n < length (be_ptrees_priv be) \<Longrightarrow> pr_ptree_s (be_ptrees_priv be ! n) \<Longrightarrow> fs_backend_ptree_limited_open be n = Some be"
  by (simp add: fs_backend_ptree_limited_open_def)

lemma open_entry:
  fixes n :: nat
  assumes h: "be_opens be M" and n: "n < be_ptree_length be"
  shows "\<exists>be'. fs_backend_ptree_limited_open be n = Some be' \<and> be_opens be' M \<and> same_store be' be
    \<and> be_ptrees_priv be' ! n = \<lparr>pr_pred = be_preds be ! n, pr_ptree_s = True, pr_ptree_o = True\<rparr>"
proof (cases "pr_ptree_s (be_ptrees_priv be ! n)")
  case True
  then have "pr_ptree_o (be_ptrees_priv be ! n)" using be_opensD(3) [OF h] n by (simp add: ring_ok_def)
  then have "be_ptrees_priv be ! n = \<lparr>pr_pred = be_preds be ! n, pr_ptree_s = True, pr_ptree_o = True\<rparr>"
    using True be_opensD(8) [OF h n] by (cases "be_ptrees_priv be ! n") simp
  then show ?thesis using True h n be_opensD(7) [OF h] by (auto simp: fs_backend_ptree_limited_open_def)
next
  case False
  let ?p = "be_preds be ! n"
  obtain be' where b: "fs_backend_ptree_limited_open be n = Some be'" "ring_ok (be_ptree_length be) be'" "opened be ?p n be'"
    "be_ptrees_priv be' ! n = \<lparr>pr_pred = ?p, pr_ptree_s = True, pr_ptree_o = True\<rparr>" "forest (be_pairs be') (be_files be') M"
    using limited_open_new [OF be_opensD(5,1,3) [OF h] n False be_opensD(8) [OF h n]] by blast
  have id: "be_rid_id_map be ?p = Some n" using be_opensD(2) [OF h] n by (simp add: dir_ok_def)
  have "?p \<in> set (be_preds be)" using n be_opensD(6) [OF h] by simp
  then have "dom (be_files be') = dom (be_files be)" using b(3) be_opensD(4) [OF h] unfolding opened_def by auto
  then have F: "be_files be' = be_files be" using b(3) map_le_dom_eq unfolding opened_def by blast
  obtain pv rg nw ol c where eq: "be' = be\<lparr>be_files := be_files be, be_ptrees_priv := pv, be_rid_id_map := be_rid_id_map be,
       be_open_ptrees := rg, be_open_ptrees_newest := nw, be_open_ptrees_oldest := ol, be_ptree_open_count := c\<rparr>"
    "map pr_pred pv = map pr_pred (be_ptrees_priv be)"
  proof -
    have "be' = be\<lparr>be_files := be_files be, be_ptrees_priv := be_ptrees_priv be', be_rid_id_map := be_rid_id_map be,
       be_open_ptrees := be_open_ptrees be', be_open_ptrees_newest := be_open_ptrees_newest be',
       be_open_ptrees_oldest := be_open_ptrees_oldest be', be_ptree_open_count := be_ptree_open_count be'\<rparr>"
      using b(3) unfolding opened_def F map_upd_same [where m = "be_rid_id_map be", OF id] by blast
    then show ?thesis by (rule that) (use b(3) in \<open>simp add: opened_def\<close>)
  qed
  have pr: "be_preds be' = be_preds be" unfolding be_preds_def by (simp add: eq(1) take_map [symmetric] eq(2))
  have len: "length pv = length (be_ptrees_priv be)" using eq(2) by (metis length_map)
  have "same_store be' be" unfolding same_store_def by (simp add: pr) (simp add: eq(1))
  moreover have "dir_ok be'" using be_opensD(2) [OF h] len unfolding dir_ok_def pr by (simp add: eq(1))
  moreover have "keep_flags be'" "be_ptree_length be' = be_ptree_length be" using be_opensD(1) [OF h] by (simp_all add: eq(1) keep_flags_def)
  ultimately show ?thesis using b(1,2,4,5) be_opensD(4) [OF h] F pr unfolding be_opens_def by auto
qed

lemma get_ptree_ok:
  assumes h: "be_opens be M"
  shows "\<exists>be'. fs_backend_get_ptree be p k = Some (if p \<in> set (be_preds be) then Some (p, k) else None, be')
    \<and> be_opens be' M \<and> same_store be' be"
proof (cases "p \<in> set (be_preds be)")
  case True
  then obtain n where n: "n < be_ptree_length be" "be_preds be ! n = p" using be_opensD(6) [OF h] by (metis in_set_conv_nth)
  then have id: "be_rid_id_map be p = Some n" using be_opensD(2) [OF h] by (simp add: dir_ok_def)
  obtain be' where b: "fs_backend_ptree_limited_open be n = Some be'" "be_opens be' M" "same_store be' be"
    "be_ptrees_priv be' ! n = \<lparr>pr_pred = p, pr_ptree_s = True, pr_ptree_o = True\<rparr>"
    using open_entry [OF h n(1)] n(2) by blast
  have len: "n < length (be_ptrees_priv be)" "n < length (be_ptrees_priv be')"
    using n(1) be_opensD(7) [OF h] be_opensD(7) [OF b(2)] b(3) by (auto simp: same_store_def)
  have "fs_backend_ptree_ref be n = Some (Some \<lparr>pr_pred = p, pr_ptree_s = True, pr_ptree_o = True\<rparr>, be')"
    using b(1,4) len n(1) by (cases "pr_ptree_s (be_ptrees_priv be ! n)") (simp_all add: fs_backend_ptree_ref_def limited_open_skip)
  moreover have "n = 0 \<Longrightarrow> pr_pred (be_ptrees_priv be ! 0) = p" using be_opensD(8) [OF h n(1)] n(2) by simp
  ultimately show ?thesis using True id n(1) len b(2,3) by (auto simp: fs_backend_get_ptree_def ref_tree_def)
next
  case False
  then have id: "be_rid_id_map be p = None"
    using be_opensD(2,6) [OF h] unfolding dir_ok_def by (metis not_None_eq nth_mem)
  have "pr_pred (be_ptrees_priv be ! 0) \<noteq> p" "0 < length (be_ptrees_priv be)" if "be_ptree_length be \<noteq> 0"
    using that False be_opensD(6-8) [OF h] by (metis not_gr_zero nth_mem, linarith)
  then show ?thesis using False h id by (auto simp: fs_backend_get_ptree_def)
qed

lemma ring_ok_extend:
  assumes "ring_ok n be" "be_open_ptrees be' = be_open_ptrees be" "be_open_ptrees_oldest be' = be_open_ptrees_oldest be"
    "be_ptree_open_count be' = be_ptree_open_count be" "be_open_ptrees_newest be' = be_open_ptrees_newest be"
    "n < length (be_ptrees_priv be')" "\<And>i. i < n \<Longrightarrow> be_ptrees_priv be' ! i = be_ptrees_priv be ! i"
    "\<not> pr_ptree_s (be_ptrees_priv be' ! n)" "\<not> pr_ptree_o (be_ptrees_priv be' ! n)"
  shows "ring_ok (Suc n) be'"
proof -
  have "ring_queue be' = ring_queue be" using assms by (simp add: ring_queue_def)
  moreover have "{i. i < Suc n \<and> pr_ptree_s (be_ptrees_priv be' ! i)} = {i. i < n \<and> pr_ptree_s (be_ptrees_priv be ! i)}"
    using assms(7,8) by (auto simp: less_Suc_eq)
  ultimately show ?thesis using assms by (auto simp: ring_ok_def less_Suc_eq)
qed

text \<open>A new predicate gets two empty trees and the next number.\<close>

definition fresh_entry :: "(nat \<Rightarrow> ptree_ref) \<Rightarrow> backend \<Rightarrow> rid \<Rightarrow> backend" where
  "fresh_entry junk be p =
     (let be1 = (if be_ptree_length be = be_ptree_size be
       then be\<lparr>be_ptree_size := be_ptree_size be * 2, be_ptrees_priv := realloc junk (be_ptrees_priv be) (be_ptree_size be * 2)\<rparr> else be)
      in be1\<lparr>be_ptrees_priv := (be_ptrees_priv be1)[be_ptree_length be := \<lparr>pr_pred = p, pr_ptree_s = False, pr_ptree_o = False\<rparr>]\<rparr>)"

lemma fresh_entry_ok:
  assumes h: "be_opens be M"
  shows "\<exists>pv sz. fresh_entry junk be p = be\<lparr>be_ptree_size := sz, be_ptrees_priv := pv\<rparr> \<and> be_ptree_length be < sz \<and> length pv = sz
      \<and> pv ! be_ptree_length be = \<lparr>pr_pred = p, pr_ptree_s = False, pr_ptree_o = False\<rparr>
      \<and> take (be_ptree_length be) pv = take (be_ptree_length be) (be_ptrees_priv be)"
proof -
  have d: "be_ptree_length be \<le> be_ptree_size be" "length (be_ptrees_priv be) = be_ptree_size be" "0 < be_ptree_size be"
    using be_opensD(2) [OF h] by (simp_all add: dir_ok_def)
  show ?thesis
  proof (cases "be_ptree_length be = be_ptree_size be")
    case True
    then show ?thesis using d unfolding fresh_entry_def Let_def
      by (intro exI [of _ "(realloc junk (be_ptrees_priv be) (be_ptree_size be * 2))[be_ptree_length be := \<lparr>pr_pred = p, pr_ptree_s = False, pr_ptree_o = False\<rparr>]"]
          exI [of _ "be_ptree_size be * 2"]) (simp add: take_realloc)
  next
    case False
    then show ?thesis using d unfolding fresh_entry_def Let_def
      by (intro exI [of _ "(be_ptrees_priv be)[be_ptree_length be := \<lparr>pr_pred = p, pr_ptree_s = False, pr_ptree_o = False\<rparr>]"]
          exI [of _ "be_ptree_size be"]) simp
  qed
qed

lemma open_ptree_ok:
  assumes h: "be_opens be M" and p: "p \<notin> set (be_preds be)"
  shows "\<exists>be'. fs_backend_open_ptree junk be p = Some (be_ptree_length be, be') \<and> be_opens be' M \<and> be_preds be' = be_preds be @ [p]
    \<and> be_ptrees_priv be' ! be_ptree_length be = \<lparr>pr_pred = p, pr_ptree_s = True, pr_ptree_o = True\<rparr>
    \<and> be_models be' = be_models be \<and> be_model_list be' = be_model_list be \<and> be_tlists be' = be_tlists be \<and> be_predicates be' = be_predicates be
    \<and> be_pended_import be' = be_pended_import be \<and> be_pended be' = be_pended be
    \<and> be_segments be' = be_segments be \<and> be_pairs be' = be_pairs be
    \<and> be_approx_size be' = be_approx_size be + (case be_files be (p, False) of None \<Rightarrow> 0 | Some pt \<Rightarrow> pt_count pt)
    \<and> dom (be_files be') = dom (be_files be) \<union> {p} \<times> UNIV
    \<and> (\<forall>k. be_files be (p, k) = None \<longrightarrow> be_files be' (p, k) = Some (fs_ptree_create (be_pairs be)))
    \<and> be_model_data be' = be_model_data be \<and> be_model_files be' = be_model_files be \<and> be_files be \<subseteq>\<^sub>m be_files be'"
proof -
  let ?L = "be_ptree_length be"
  define be1 where "be1 = fresh_entry junk be p"
  obtain pv sz where b1: "be1 = be\<lparr>be_ptree_size := sz, be_ptrees_priv := pv\<rparr>" "?L < sz" "length pv = sz"
    "pv ! ?L = \<lparr>pr_pred = p, pr_ptree_s = False, pr_ptree_o = False\<rparr>" "take ?L pv = take ?L (be_ptrees_priv be)"
    using fresh_entry_ok [OF h, of junk p] unfolding be1_def by blast
  have same: "pv ! i = be_ptrees_priv be ! i" if "i < ?L" for i using b1(5) that by (metis nth_take)
  have ring: "ring_ok (Suc ?L) be1" by (rule ring_ok_extend [OF be_opensD(3) [OF h]]) (use b1 same in simp_all)
  have e1: "forest (be_pairs be1) (be_files be1) M" "keep_flags be1" using be_opensD(1,5) [OF h] by (simp_all add: b1(1) keep_flags_def)
  obtain be2 where b2: "fs_backend_ptree_limited_open be1 ?L = Some be2" "ring_ok (Suc ?L) be2" "opened be1 p ?L be2"
    "be_ptrees_priv be2 ! ?L = \<lparr>pr_pred = p, pr_ptree_s = True, pr_ptree_o = True\<rparr>" "forest (be_pairs be2) (be_files be2) M"
    "\<forall>k. be_files be1 (p, k) = None \<longrightarrow> be_files be2 (p, k) = Some (fs_ptree_create (be_pairs be1))"
    using limited_open_new [OF e1 ring, of ?L p] b1(1,4) by auto
  obtain F pv2 rg nw ol c where eq: "be2 = be1\<lparr>be_files := F, be_ptrees_priv := pv2, be_rid_id_map := (be_rid_id_map be1)(p \<mapsto> ?L),
       be_open_ptrees := rg, be_open_ptrees_newest := nw, be_open_ptrees_oldest := ol, be_ptree_open_count := c\<rparr>"
    and F: "dom F = insert (p, False) (insert (p, True) (dom (be_files be)))" "be_files be \<subseteq>\<^sub>m F" "map pr_pred pv2 = map pr_pred pv"
    using b2(3) unfolding opened_def by (elim conjE) (rule that, assumption, simp_all add: b1(1))
  have len: "length pv2 = sz" using F(3) b1(3) by (metis length_map)
  define c0 where "c0 = (case be_files be (p, False) of None \<Rightarrow> 0 | Some pt \<Rightarrow> pt_count pt)"
  obtain pt where pt: "be_files be2 (p, False) = Some pt" "pt_count pt = c0"
  proof (cases "be_files be (p, False)")
    case None
    moreover have "pt_count (fs_ptree_create (be_pairs be)) = 0" by (simp add: fs_ptree_create_def fs_ptree_write_header_def Let_def)
    ultimately show ?thesis using that b2(6) by (auto simp: b1(1) c0_def)
  next
    case (Some pt)
    then have "F (p, False) = Some pt" using F(2) unfolding map_le_def by (metis domI)
    then show ?thesis using that Some by (simp add: eq c0_def)
  qed
  let ?be = "be2\<lparr>be_approx_size := be_approx_size be2 + c0, be_ptree_length := Suc ?L\<rparr>"
  have run: "fs_backend_open_ptree junk be p = Some (?L, ?be)"
  proof -
    have "fs_backend_open_ptree junk be p = do {
      be2 \<leftarrow> fs_backend_ptree_limited_open be1 ?L;
      r \<leftarrow> load_at (be_ptrees_priv be2) (be_ptree_length be2); t \<leftarrow> ref_tree r False; pt \<leftarrow> be_files be2 t;
      Some (be_ptree_length be2, be2\<lparr>be_approx_size := be_approx_size be2 + fs_ptree_count pt, be_ptree_length := be_ptree_length be2 + 1\<rparr>) }"
      using b1(2,3) be_opensD(2) [OF h] unfolding be1_def fs_backend_open_ptree_def fresh_entry_def
      by (auto simp: Let_def dir_ok_def)
    then show ?thesis using b2(1,4) pt len b1(2) by (simp add: eq b1(1) ref_tree_def fs_ptree_count_def)
  qed
  have pr: "be_preds ?be = be_preds be @ [p]"
  proof -
    have "be_preds ?be = take (Suc ?L) (map pr_pred pv)" by (simp add: be_preds_def eq take_map [symmetric] F(3))
    also have "\<dots> = map pr_pred (take ?L pv) @ [p]" using b1(2-4) by (simp add: take_map [symmetric] take_Suc_conv_app_nth)
    finally show ?thesis unfolding b1(5) be_preds_def .
  qed
  have "dir_ok ?be"
  proof -
    have d: "distinct (be_preds be)" "\<And>q i. be_rid_id_map be q = Some i \<longleftrightarrow> i < ?L \<and> be_preds be ! i = q"
      using be_opensD(2) [OF h] by (simp_all add: dir_ok_def)
    have "((be_rid_id_map be)(p \<mapsto> ?L)) q = Some i \<longleftrightarrow> i < Suc ?L \<and> (be_preds be @ [p]) ! i = q" for q i
      using d(2) [of q i] p be_opensD(6) [OF h] by (auto simp: nth_append less_Suc_eq)
    then show ?thesis using d(1) p b1(2) len unfolding dir_ok_def pr by (simp add: eq b1(1))
  qed
  moreover have "set (be_preds be @ [p]) \<times> UNIV \<subseteq> dom (be_files ?be)"
    using F(1) be_opensD(4) [OF h] by (auto simp: eq UNIV_bool)
  moreover have d': "dom (be_files ?be) = dom (be_files be) \<union> {p} \<times> UNIV" using F(1) by (auto simp: eq UNIV_bool)
  moreover have "ring_ok (be_ptree_length ?be) ?be" using b2(2) by (simp add: ring_ok_def ring_queue_def)
  moreover have "keep_flags ?be" using e1(2) by (simp add: keep_flags_def eq)
  ultimately have "be_opens ?be M" using b2(5) unfolding be_opens_def pr by simp
  then show ?thesis using run pr b2(4,6) F(2) d' by (simp add: eq b1(1) c0_def)
qed

section \<open>The closed directory\<close>

lemma be_holds_opens: "be_holds be M \<Longrightarrow> be_opens be M"
  by (simp add: be_holds_def)

lemma be_holds_files: "be_holds be M \<Longrightarrow> be_files be (p, k) \<noteq> None \<longleftrightarrow> p \<in> set (be_preds be)"
  by (auto simp: be_holds_def)

lemma be_holds_none: "be_holds be M \<Longrightarrow> p \<notin> set (be_preds be) \<Longrightarrow> M (p, k) = Map.empty"
  using be_holds_files [of be M p k] be_opensD(5) [OF be_holds_opens] unfolding forest_def by blast

lemma get_ptree_holds:
  assumes "be_holds be M"
  shows "\<exists>be'. fs_backend_get_ptree be p k = Some (if p \<in> set (be_preds be) then Some (p, k) else None, be')
    \<and> be_holds be' M \<and> same_store be' be"
  using get_ptree_ok [OF be_holds_opens [OF assms], of p k] assms by (auto simp: be_holds_def same_store_def)

lemma limited_open_holds:
  assumes "be_holds be M" "n < be_ptree_length be"
  shows "\<exists>be'. fs_backend_ptree_limited_open be n = Some be' \<and> be_holds be' M \<and> same_store be' be
    \<and> be_ptrees_priv be' ! n = \<lparr>pr_pred = be_preds be ! n, pr_ptree_s = True, pr_ptree_o = True\<rparr>"
  using open_entry [OF be_holds_opens [OF assms(1)] assms(2)] assms(1) by (auto simp: be_holds_def same_store_def)

text \<open>What adding a predicate leaves alone.\<close>

definition same_rest :: "backend \<Rightarrow> backend \<Rightarrow> bool" where
  "same_rest be' be \<longleftrightarrow> be_segments be' = be_segments be \<and> be_model_data be' = be_model_data be \<and> be_model_files be' = be_model_files be
     \<and> be_models be' = be_models be \<and> be_model_list be' = be_model_list be \<and> be_pended_import be' = be_pended_import be \<and> be_pended be' = be_pended be \<and> be_tlists be' = be_tlists be"

lemma same_rest_refl [simp]: "same_rest be be"
  by (simp add: same_rest_def)

lemma same_rest_trans: "same_rest b2 b1 \<Longrightarrow> same_rest b1 b0 \<Longrightarrow> same_rest b2 b0"
  by (simp add: same_rest_def)

lemma same_store_rest: "same_store be' be \<Longrightarrow> same_rest be' be"
  by (simp add: same_store_def same_rest_def)

lemma open_ptree_holds:
  assumes "be_holds be M" "p \<notin> set (be_preds be)"
  shows "\<exists>be'. fs_backend_open_ptree junk be p = Some (be_ptree_length be, be') \<and> be_holds be' M \<and> be_preds be' = be_preds be @ [p]
    \<and> be_ptrees_priv be' ! be_ptree_length be = \<lparr>pr_pred = p, pr_ptree_s = True, pr_ptree_o = True\<rparr> \<and> same_rest be' be
    \<and> be_predicates be' = be_predicates be \<and> be_approx_size be' = be_approx_size be \<and> be_pairs be' = be_pairs be
    \<and> (\<forall>k. be_files be' (p, k) = Some (fs_ptree_create (be_pairs be)))"
proof -
  have n: "be_files be (p, k) = None" for k using be_holds_files [OF assms(1)] assms(2) by blast
  obtain be' where b: "fs_backend_open_ptree junk be p = Some (be_ptree_length be, be')" "be_opens be' M" "be_preds be' = be_preds be @ [p]"
    "be_ptrees_priv be' ! be_ptree_length be = \<lparr>pr_pred = p, pr_ptree_s = True, pr_ptree_o = True\<rparr>" "same_rest be' be"
    "be_predicates be' = be_predicates be" "be_approx_size be' = be_approx_size be" "be_pairs be' = be_pairs be"
    "dom (be_files be') = dom (be_files be) \<union> {p} \<times> UNIV" "\<forall>k. be_files be' (p, k) = Some (fs_ptree_create (be_pairs be))"
    using open_ptree_ok [OF be_holds_opens [OF assms(1)] assms(2), of junk] n unfolding same_rest_def by auto
  then have "be_holds be' M" using assms(1) by (auto simp: be_holds_def)
  with b show ?thesis by auto
qed

section \<open>Operations on the trees\<close>

definition add_pair :: "bool \<Rightarrow> (rid \<rightharpoonup> (rid \<times> rid) list) \<Rightarrow> rid \<Rightarrow> rid \<times> rid \<Rightarrow> (rid \<rightharpoonup> (rid \<times> rid) list)" where
  "add_pair dedup m pk pr = m(pk \<mapsto> (if dedup \<and> pr \<in> set (pairs_of m pk) then pairs_of m pk else pr # pairs_of m pk))"

definition drop_pairs :: "(rid \<rightharpoonup> (rid \<times> rid) list) \<Rightarrow> rid \<Rightarrow> rid \<times> rid \<Rightarrow> (rid \<rightharpoonup> (rid \<times> rid) list)" where
  "drop_pairs m pk pat = (if filter (pair_matches pat) (pairs_of m pk) = [] then m
     else keep_pairs m pk (filter (\<lambda>p. \<not> pair_matches pat p) (pairs_of m pk)))"

definition be_room :: "backend \<Rightarrow> tree_name \<Rightarrow> bool" where
  "be_room be t \<longleftrightarrow> (case be_files be t of None \<Rightarrow> True | Some pt \<Rightarrow> ptree_room 32 pt) \<and> pt_room (be_pairs be)"

lemma tree_back_simps [simp]:
  "be_preds (tree_back be t pt) = be_preds be" "same_rest (tree_back be t pt) be" "be_predicates (tree_back be t pt) = be_predicates be"
  "be_approx_size (tree_back be t pt) = be_approx_size be" "be_pairs (tree_back be t pt) = pt_table pt"
  "be_files (tree_back be t pt) = (be_files be)(t \<mapsto> pt)" "be_ptree_length (tree_back be t pt) = be_ptree_length be"
  "be_ptrees_priv (tree_back be t pt) = be_ptrees_priv be"
  by (simp_all add: tree_back_def be_preds_def same_rest_def)

lemma tree_back_holds:
  assumes "be_holds be M" "fst t \<in> set (be_preds be)" "forest (pt_table pt) ((be_files be)(t \<mapsto> pt)) M'"
  shows "be_holds (tree_back be t pt) M'"
proof -
  have "dom ((be_files be)(t \<mapsto> pt)) = dom (be_files be)" using assms(1,2) by (cases t) (auto simp: be_holds_def)
  moreover have "keep_flags (tree_back be t pt)" "dir_ok (tree_back be t pt)" "ring_ok (be_ptree_length be) (tree_back be t pt)"
    using assms(1) by (simp_all add: be_holds_def be_opens_def keep_flags_def dir_ok_def be_preds_def ring_ok_def ring_queue_def tree_back_def)
  ultimately show ?thesis using assms(1,3) unfolding be_holds_def be_opens_def by simp
qed

lemma be_add_ok:
  assumes h: "be_holds be M" and p: "p \<in> set (be_preds be)" and room: "be_room be (p, k)"
  shows "\<exists>be' pt. be_ptree_add dedup be (Some (p, k)) pk pr = Some (0, be') \<and> be' = tree_back be (p, k) pt
    \<and> be_holds be' (M((p, k) := add_pair dedup (M (p, k)) pk pr))"
proof -
  obtain pt where pt: "be_files be (p, k) = Some pt" using be_holds_files [OF h] p by blast
  obtain pt' where r: "fs_ptree_add dedup (Some (pt\<lparr>pt_table := be_pairs be\<rparr>)) pk (Some pr) = Some (0, Some pt')"
    "forest (pt_table pt') ((be_files be)((p, k) \<mapsto> pt')) (M((p, k) := add_pair dedup (M (p, k)) pk pr))"
    using forest_add [OF be_opensD(5) [OF be_holds_opens [OF h]] pt, of dedup pk pr] room pt unfolding be_room_def add_pair_def by auto
  show ?thesis using r(1) pt tree_back_holds [OF h _ r(2)] p by (auto simp: be_ptree_add_def tree_at_def)
qed

lemma be_remove_ok:
  fixes p :: rid and k :: bool
  assumes h: "be_holds be M" and p: "p \<in> set (be_preds be)"
  defines "gone \<equiv> \<lambda>pk pat. filter (pair_matches pat) (pairs_of (M (p, k)) pk)"
  shows "\<exists>be' pt. be_ptree_remove be (Some (p, k)) pk pat models
      = Some (if M (p, k) pk = None \<or> gone pk pat \<noteq> [] then 0 else 1, be', models_after pat models (gone pk pat))
    \<and> be' = tree_back be (p, k) pt \<and> be_holds be' (M((p, k) := drop_pairs (M (p, k)) pk pat))"
proof -
  obtain pt where pt: "be_files be (p, k) = Some pt" using be_holds_files [OF h] p by blast
  obtain pt' where r: "fs_ptree_remove (Some (pt\<lparr>pt_table := be_pairs be\<rparr>)) pk pat models
      = Some (if M (p, k) pk = None \<or> gone pk pat \<noteq> [] then 0 else 1, Some pt', models_after pat models (gone pk pat))"
    "forest (pt_table pt') ((be_files be)((p, k) \<mapsto> pt')) (M((p, k) := drop_pairs (M (p, k)) pk pat))"
    using forest_remove [OF be_opensD(5) [OF be_holds_opens [OF h]] pt, where pk = pk and pat = pat and models = models]
    unfolding gone_def drop_pairs_def by (auto simp del: fun_upd_apply)
  show ?thesis using r(1) pt tree_back_holds [OF h _ r(2)] p by (auto simp: be_ptree_remove_def tree_at_def)
qed

lemma be_remove_all_ok:
  assumes h: "be_holds be M" and p: "p \<in> set (be_preds be)"
  shows "\<exists>be' pt r. be_ptree_remove_all be (Some (p, k)) pat = Some (r, be')
    \<and> be' = tree_back be (p, k) pt \<and> be_holds be' (M((p, k) := (\<lambda>s. purge pat (M (p, k) s))))
    \<and> (r \<noteq> 0 \<longrightarrow> (\<forall>s. filter (pair_matches pat) (pairs_of (M (p, k)) s) = []))"
proof -
  obtain pt where pt: "be_files be (p, k) = Some pt" using be_holds_files [OF h] p by blast
  obtain pt' r where r: "fs_ptree_remove_all (Some (pt\<lparr>pt_table := be_pairs be\<rparr>)) (Some pat) = Some (r, Some pt')"
    "forest (pt_table pt') ((be_files be)((p, k) \<mapsto> pt')) (M((p, k) := (\<lambda>s. purge pat (M (p, k) s))))"
    "r \<noteq> 0 \<longrightarrow> (\<forall>s. filter (pair_matches pat) (pairs_of (M (p, k)) s) = [])"
    using forest_remove_all [OF be_opensD(5) [OF be_holds_opens [OF h]] pt, where pat = pat] by blast
  show ?thesis using r(1,3) pt tree_back_holds [OF h _ r(2)] p by (auto simp: be_ptree_remove_all_def tree_at_def)
qed

section \<open>Closing and opening\<close>

lemma next_value_at:
  "l_fd l < length (l_file l) \<Longrightarrow> fs_list_next_value l = (1, Some (l_file l ! l_fd l), l\<lparr>l_fd := l_fd l + 1\<rparr>)"
  "l_fd l \<ge> length (l_file l) \<Longrightarrow> fs_list_next_value l = (0, None, l)"
  by (simp_all add: fs_list_next_value_def)

lemma be_predicates_frame [simp]:
  "be_preds (be\<lparr>be_predicates := l\<rparr>) = be_preds be" "be_opens (be\<lparr>be_predicates := l\<rparr>) M = be_opens be M"
  "same_rest (be\<lparr>be_predicates := l\<rparr>) be' = same_rest be be'" "same_rest be' (be\<lparr>be_predicates := l\<rparr>) = same_rest be' be"
  by (simp_all add: be_opens_def be_preds_def keep_flags_def dir_ok_def ring_ok_def ring_queue_def same_rest_def)

definition stored_count :: "(tree_name \<rightharpoonup> ptree) \<Rightarrow> rid list \<Rightarrow> int" where
  "stored_count F ps = (\<Sum>p \<leftarrow> ps. pt_count (the (F (p, False))))"

lemma open_preds_ok:
  assumes "be_opens be M" "l_fd (be_predicates be) = length (be_preds be)" "l_file (be_predicates be) = be_preds be @ rest"
    "distinct (be_preds be @ rest)" "set rest \<times> UNIV \<subseteq> dom (be_files be)"
  shows "\<exists>be'. open_preds junk be = Some be' \<and> be_opens be' M \<and> be_preds be' = be_preds be @ rest \<and> same_rest be' be
    \<and> be_predicates be' = (be_predicates be)\<lparr>l_fd := length (be_preds be @ rest)\<rparr> \<and> be_pairs be' = be_pairs be \<and> be_files be' = be_files be
    \<and> be_approx_size be' = be_approx_size be + stored_count (be_files be) rest"
  using assms
proof (induction rest arbitrary: be)
  case Nil
  have "(be_predicates be)\<lparr>l_fd := length (be_preds be)\<rparr> = be_predicates be" using Nil.prems(2) by simp
  then show ?case using Nil.prems by (simp add: open_preds.simps [of junk be] next_value_at(2) stored_count_def)
next
  case (Cons p rest)
  let ?l = "(be_predicates be)\<lparr>l_fd := Suc (length (be_preds be))\<rparr>" and ?L = "be_ptree_length be"
  have nv: "fs_list_next_value (be_predicates be) = (1, Some p, ?l)" using Cons.prems(2,3) by (simp add: next_value_at(1))
  have p: "p \<notin> set (be_preds be)" using Cons.prems(4) by auto
  have pd: "{p} \<times> UNIV \<subseteq> dom (be_files be)" "set rest \<times> UNIV \<subseteq> dom (be_files be)" using Cons.prems(5) by auto
  then obtain pt where pt: "be_files be (p, False) = Some pt" by blast
  obtain be2 where b: "fs_backend_open_ptree junk (be\<lparr>be_predicates := ?l\<rparr>) p = Some (?L, be2)" "be_opens be2 M" "be_preds be2 = be_preds be @ [p]"
    "same_rest be2 be" "be_predicates be2 = ?l" "be_pairs be2 = be_pairs be" "be_approx_size be2 = be_approx_size be + pt_count pt"
    "dom (be_files be2) = dom (be_files be)" "be_files be \<subseteq>\<^sub>m be_files be2"
    using open_ptree_ok [of "be\<lparr>be_predicates := ?l\<rparr>" M p junk] Cons.prems(1) p pt Un_absorb2 [OF pd(1)] by (auto simp: same_rest_def)
  have F: "be_files be2 = be_files be" using b(8,9) map_le_dom_eq by blast
  obtain be' where "open_preds junk be2 = Some be'" "be_opens be' M" "be_preds be' = be_preds be @ p # rest" "same_rest be' be2"
    "be_predicates be' = (be_predicates be)\<lparr>l_fd := length (be_preds be @ p # rest)\<rparr>" "be_pairs be' = be_pairs be" "be_files be' = be_files be"
    "be_approx_size be' = be_approx_size be + stored_count (be_files be) (p # rest)"
    using Cons.IH [OF b(2)] Cons.prems(3,4) pd(2) b(3,5-7) F pt by (auto simp: stored_count_def add.assoc)
  moreover have "open_preds junk be = open_preds junk be2"
    using nv b(1) by (subst open_preds.simps) simp
  ultimately show ?case using b(4) same_rest_trans by (intro exI [of _ be']) simp
qed

definition preds_ok :: "backend \<Rightarrow> bool" where
  "preds_ok be \<longleftrightarrow> list_ok (be_predicates be) \<and> l_width (be_predicates be) = 8 \<and> l_elems (be_predicates be) = be_preds be"

lemma empty_dir_opens:
  assumes "forest (be_pairs be) (be_files be) M" "keep_flags be" "be_ptree_length be = 0" "be_ptree_size be > 0"
    "be_ptrees_priv be = replicate (be_ptree_size be) null_ref" "be_rid_id_map be = Map.empty" "be_ptree_open_count be = 0"
    "be_open_ptrees be = replicate 300 0" "be_open_ptrees_newest be = 0" "be_open_ptrees_oldest be = 0"
  shows "be_opens be M" "be_preds be = []"
  using assms by (simp_all add: be_opens_def dir_ok_def be_preds_def ring_ok_def ring_queue_def)

lemma reopen_ok:
  assumes h: "be_holds be M" and p: "preds_ok be"
  shows "\<exists>be'. fs_backend_open_files junk (fs_backend_init segs md mf (fst (fs_backend_close_files be))) (fst (fs_backend_close_files be)) [O_RDWR, O_CREAT] = Some be'
    \<and> be_holds be' M \<and> preds_ok be' \<and> be_preds be' = be_preds be \<and> be_models be' = be_models be \<and> be_model_list be' = be_model_list be \<and> be_tlists be' = be_tlists be
    \<and> be_approx_size be' = stored_count (be_files be) (be_preds be)"
proof -
  define disk where "disk = fst (fs_backend_close_files be)"
  have dk: "dk_predicates disk = be_preds be" "dk_files disk = be_files be" "dk_pairs disk = be_pairs be" "dk_models disk = be_models be"
    "dk_model_list disk = be_model_list be" "dk_tlists disk = be_tlists be" using p by (simp_all add: disk_def fs_backend_close_files_def list_close_ok preds_ok_def)
  obtain l where l: "fs_list_open 0 8 (be_preds be) = Some l" using that by (simp add: fs_list_open_def CHUNK_SIZE_def)
  have l': "list_ok l" "l_file l = be_preds be" "l_width l = 8" "l_buffer l = []" "l_offset l = length (be_preds be)"
    using l by (auto simp: fs_list_open_def list_ok_def split: if_split_asm)
  define size where "size = (if length (be_preds be) < 16 then 16 else length (be_preds be))"
  define be0 where "be0 = (fs_backend_init segs md mf disk)\<lparr>be_models := be_models be, be_model_list := be_model_list be,
       be_predicates := fs_list_rewind l, be_ptree_length := 0, be_ptree_size := size, be_ptree_open_flags := [O_RDWR, O_CREAT],
       be_ptrees_priv := replicate size null_ref, be_tlists := be_tlists be, be_pairs := be_pairs be, be_files := be_files be, be_rid_id_map := Map.empty\<rparr>"
  have b0: "be_opens be0 M" "be_preds be0 = []"
    using be_opensD(5) [OF be_holds_opens [OF h]]
    by (auto intro!: empty_dir_opens simp: be0_def keep_flags_def size_def fs_backend_init_def)
  have e0: "be_files be0 = be_files be" "be_approx_size be0 = 0" "be_predicates be0 = l\<lparr>l_fd := 0\<rparr>" "be_pairs be0 = be_pairs be"
    "be_models be0 = be_models be" "be_model_list be0 = be_model_list be" "be_tlists be0 = be_tlists be"
    by (simp_all add: be0_def fs_backend_init_def fs_list_rewind_def)
  have run: "fs_backend_open_files junk (fs_backend_init segs md mf disk) disk [O_RDWR, O_CREAT] = open_preds junk be0"
    using l l' unfolding fs_backend_open_files_def be0_def size_def by (simp add: dk fs_list_length_def Let_def)
  have d: "distinct (be_preds be)" "set (be_preds be) \<times> UNIV \<subseteq> dom (be_files be)" "dom (be_files be) = set (be_preds be) \<times> UNIV"
    using h by (simp_all add: be_holds_def be_opens_def dir_ok_def)
  obtain be' where b: "open_preds junk be0 = Some be'" "be_opens be' M" "be_preds be' = be_preds be" "same_rest be' be0"
    "be_predicates be' = l\<lparr>l_fd := length (be_preds be)\<rparr>" "be_files be' = be_files be" "be_approx_size be' = stored_count (be_files be) (be_preds be)"
    using open_preds_ok [OF b0(1), of "be_preds be" junk] d l'(2) by (auto simp: b0(2) e0)
  have "be_holds be' M" using b(2,3,6) d(3) by (simp add: be_holds_def)
  moreover have "preds_ok be'" using l' by (simp add: preds_ok_def b(3,5) list_ok_def l_elems_def)
  ultimately show ?thesis using run b(1,3,4,7) e0(5-7) unfolding disk_def [symmetric] by (simp add: same_rest_def)
qed

text \<open>A segment that was just made.\<close>

definition new_disk :: be_disk where
  "new_disk = \<lparr>dk_models = fs_mhash_create, dk_model_list = the fs_tbchain_create, dk_tlists = Map.empty, dk_predicates = [], dk_pairs = fs_ptable_create, dk_files = Map.empty\<rparr>"

definition new_backend :: "int \<Rightarrow> bool \<Rightarrow> bool \<Rightarrow> open_flag list \<Rightarrow> backend" where
  "new_backend segs md mf flags = the (fs_backend_open_files (\<lambda>_. null_ref) (fs_backend_init segs md mf new_disk) new_disk flags)"

lemma new_backend_fields:
  fixes segs :: int and md mf :: bool
  assumes "O_TRUNC \<notin> set flags"
  defines "be \<equiv> new_backend segs md mf flags"
  shows "be_segments be = segs" "be_model_data be = md" "be_model_files be = mf" "be_models be = fs_mhash_create" "be_model_list be = the fs_tbchain_create" "be_tlists be = Map.empty"
    "be_predicates be = the (fs_list_open 0 8 [])" "be_pairs be = fs_ptable_create" "be_files be = Map.empty" "be_ptree_size be = 16"
    "be_ptree_length be = 0" "be_ptrees_priv be = replicate 16 null_ref" "be_rid_id_map be = Map.empty" "be_ptree_open_flags be = flags"
    "be_ptree_open_count be = 0" "be_open_ptrees be = replicate 300 0" "be_open_ptrees_newest be = 0" "be_open_ptrees_oldest be = 0" "be_approx_size be = 0"
proof -
  obtain l where l: "fs_list_open 0 8 [] = Some (l :: rid fs_list)" by (simp add: fs_list_open_def CHUNK_SIZE_def)
  then have l': "l_file l = []" "l_offset l = 0" "l_buffer l = []" "l_fd l = 0" by (auto simp: fs_list_open_def split: if_split_asm)
  then have n: "fs_list_rewind l = l" "fs_list_next_value l = (0, None, l)" by (simp_all add: fs_list_rewind_def fs_list_next_value_def)
  define be0 where "be0 = (fs_backend_init segs md mf new_disk)\<lparr>be_predicates := l, be_ptree_size := 16, be_ptree_open_flags := flags, be_ptrees_priv := replicate 16 null_ref\<rparr>"
  have "open_preds (\<lambda>_. null_ref) be0 = Some be0"
    by (subst open_preds.simps) (simp add: be0_def n(2) fs_backend_init_def)
  moreover have "fs_backend_open_files (\<lambda>_. null_ref) (fs_backend_init segs md mf new_disk) new_disk flags = open_preds (\<lambda>_. null_ref) be0"
    using l l' n assms(1) by (simp add: fs_backend_open_files_def new_disk_def be0_def fs_backend_init_def fs_list_length_def Let_def)
  ultimately have "be = be0" by (simp add: be_def new_backend_def)
  then show "be_segments be = segs" "be_model_data be = md" "be_model_files be = mf" "be_models be = fs_mhash_create" "be_model_list be = the fs_tbchain_create" "be_tlists be = Map.empty"
    "be_predicates be = the (fs_list_open 0 8 [])" "be_pairs be = fs_ptable_create" "be_files be = Map.empty" "be_ptree_size be = 16"
    "be_ptree_length be = 0" "be_ptrees_priv be = replicate 16 null_ref" "be_rid_id_map be = Map.empty" "be_ptree_open_flags be = flags"
    "be_ptree_open_count be = 0" "be_open_ptrees be = replicate 300 0" "be_open_ptrees_newest be = 0" "be_open_ptrees_oldest be = 0" "be_approx_size be = 0"
    by (simp_all add: be0_def fs_backend_init_def new_disk_def l)
qed

lemma new_backend_holds:
  assumes "set flags = {O_RDWR, O_CREAT}"
  shows "be_holds (new_backend segs md mf flags) (\<lambda>_. Map.empty)" "be_preds (new_backend segs md mf flags) = []" "preds_ok (new_backend segs md mf flags)"
proof -
  let ?be = "new_backend segs md mf flags"
  have "O_TRUNC \<notin> set flags" using assms by simp
  note e = new_backend_fields [OF this, of segs md mf]
  have f: "forest (be_pairs ?be) (be_files ?be) (\<lambda>_. Map.empty)" "keep_flags ?be" by (simp_all add: e forest_create keep_flags_def assms)
  have o: "be_opens ?be (\<lambda>_. Map.empty)" "be_preds ?be = []" by (rule empty_dir_opens [OF f]; simp add: e)+
  show "be_preds ?be = []" by (rule o(2))
  show "be_holds ?be (\<lambda>_. Map.empty)" using o by (simp add: be_holds_def e)
  have "list_ok (the (fs_list_open 0 8 ([] :: rid list))) \<and> l_elems (the (fs_list_open 0 8 ([] :: rid list))) = [] \<and> l_width (the (fs_list_open 0 8 ([] :: rid list))) = 8"
    by (rule list_open_ok) (simp add: fs_list_open_def CHUNK_SIZE_def)
  then show "preds_ok ?be" by (simp add: preds_ok_def e o(2))
qed

section \<open>Runs of the backend\<close>

text \<open>One use of the directory: a lookup, a new predicate, or a change of a tree that was looked up.\<close>

inductive be_step :: "bool \<Rightarrow> backend \<Rightarrow> backend \<Rightarrow> bool" for dedup where
  look: "fs_backend_get_ptree be p k = Some (t, be') \<Longrightarrow> be_step dedup be be'"
| open_new: "fs_backend_get_ptree be p k = Some (None, be1) \<Longrightarrow> fs_backend_open_ptree junk be1 p = Some (n, be') \<Longrightarrow> be_step dedup be be'"
| add: "fs_backend_get_ptree be p k = Some (Some t, be1) \<Longrightarrow> be_room be1 t \<Longrightarrow> be_ptree_add dedup be1 (Some t) pk pr = Some (r, be')
    \<Longrightarrow> be_step dedup be be'"
| remove: "fs_backend_get_ptree be p k = Some (Some t, be1) \<Longrightarrow> be_ptree_remove be1 (Some t) pk pat models = Some (r, be', models')
    \<Longrightarrow> be_step dedup be be'"

lemma be_step_holds:
  assumes "be_step dedup be be'" "be_holds be M"
  shows "\<exists>M'. be_holds be' M'"
  using assms
proof cases
  case (look p k t)
  then show ?thesis using get_ptree_holds [OF assms(2), of p k] by auto
next
  case (open_new p k be1 junk n)
  then have b: "be_holds be1 M" "be_preds be1 = be_preds be" "p \<notin> set (be_preds be)"
    using get_ptree_holds [OF assms(2), of p k] by (auto simp: same_store_def split: if_split_asm)
  then show ?thesis using open_ptree_holds [OF b(1), of p junk] open_new(2) by auto
next
  case (add p k t be1 pk pr r)
  then have b: "be_holds be1 M" "be_preds be1 = be_preds be" "p \<in> set (be_preds be)" "t = (p, k)"
    using get_ptree_holds [OF assms(2), of p k] by (auto simp: same_store_def split: if_split_asm)
  then show ?thesis using be_add_ok [OF b(1), of p k dedup pk pr] add(2,3) by auto
next
  case (remove p k t be1 pk pat models r models')
  then have b: "be_holds be1 M" "be_preds be1 = be_preds be" "p \<in> set (be_preds be)" "t = (p, k)"
    using get_ptree_holds [OF assms(2), of p k] by (auto simp: same_store_def split: if_split_asm)
  then show ?thesis using be_remove_ok [OF b(1), of p k pk pat models] remove(2) by auto
qed

lemma open_count:
  assumes "be_holds be M"
  shows "card {i. i < be_ptree_length be \<and> pr_ptree_s (be_ptrees_priv be ! i)} = be_ptree_open_count be" "be_ptree_open_count be \<le> 300"
proof -
  have r: "ring_ok (be_ptree_length be) be" using assms by (simp add: be_holds_def be_opens_def)
  then have "card (set (ring_queue be)) = length (ring_queue be)" unfolding ring_ok_def by (intro distinct_card) blast
  then show "card {i. i < be_ptree_length be \<and> pr_ptree_s (be_ptrees_priv be ! i)} = be_ptree_open_count be" "be_ptree_open_count be \<le> 300"
    using r by (simp_all add: ring_ok_def ring_queue_def)
qed





text \<open>
  C19: After all graphs of a segment were dropped the files are open with \<open>O_TRUNC\<close>, and the backend
  keeps the flags.  When the limit on open trees closed a predicate since, the next use of the
  predicate truncates both of its files: whatever pairs they held, the trees are empty.
\<close>

theorem truncated_on_reopen:
  assumes "O_TRUNC \<in> set (be_ptree_open_flags be)" "ring_ok m be" "n < m" "\<not> pr_ptree_s (be_ptrees_priv be ! n)"
    and "\<And>k. be_files be (pr_pred (be_ptrees_priv be ! n), k) \<noteq> None"
  shows "\<exists>be'. fs_backend_ptree_limited_open be n = Some be'
    \<and> (\<forall>k. be_files be' (pr_pred (be_ptrees_priv be ! n), k) = Some (fs_ptree_create (be_pairs be)))"
proof -
  let ?p = "pr_pred (be_ptrees_priv be ! n)"
  have len: "n < length (be_ptrees_priv be)" using assms(2,3) by (simp add: ring_ok_def)
  obtain be1 where b1: "(if be_ptree_open_count be \<ge> FS_MAX_OPEN_PTREES then close_oldest be else Some be) = Some be1" "ring_ok m be1"
    "be1 = be\<lparr>be_ptrees_priv := be_ptrees_priv be1, be_open_ptrees_oldest := be_open_ptrees_oldest be1, be_ptree_open_count := be_ptree_open_count be1\<rparr>"
    using make_room [OF assms(2-4)] by blast
  obtain pv i j where b1eq: "be1 = be\<lparr>be_ptrees_priv := pv, be_open_ptrees_oldest := i, be_ptree_open_count := j\<rparr>" using b1(3) by blast
  then have e: "be_files be1 = be_files be" "be_pairs be1 = be_pairs be" "be_ptree_open_flags be1 = be_ptree_open_flags be" by simp_all
  have ring: "be_open_ptrees_newest be1 < 300" "length (be_open_ptrees be1) = 300" using b1(2) by (simp_all add: ring_ok_def)
  let ?t = "fs_ptree_create (be_pairs be)"
  obtain pt pt' where old: "be_files be (?p, False) = Some pt" "be_files be (?p, True) = Some pt'"
    using assms(5) [of False] assms(5) [of True] by blast
  have o1: "fs_ptree_open be1 ?p False = (True, be1\<lparr>be_files := (be_files be)((?p, False) \<mapsto> ?t)\<rparr>)"
    using assms(1) old(1) by (simp add: fs_ptree_open_def e)
  have o2: "fs_ptree_open (be1\<lparr>be_files := (be_files be)((?p, False) \<mapsto> ?t)\<rparr>) ?p True
      = (True, be1\<lparr>be_files := (be_files be)((?p, False) \<mapsto> ?t, (?p, True) \<mapsto> ?t)\<rparr>)"
    using assms(1) old(2) by (simp add: fs_ptree_open_def e)
  have "\<exists>be'. fs_backend_ptree_limited_open be n = Some be' \<and> be_files be' = (be_files be)((?p, False) \<mapsto> ?t, (?p, True) \<mapsto> ?t)"
    using assms(4) len b1(1) o1 o2 ring by (simp add: fs_backend_ptree_limited_open_def)
  then obtain be' where "fs_backend_ptree_limited_open be n = Some be'" "be_files be' = (be_files be)((?p, False) \<mapsto> ?t, (?p, True) \<mapsto> ?t)" by blast
  moreover have "((be_files be)((?p, False) \<mapsto> ?t, (?p, True) \<mapsto> ?t)) (?p, k) = Some ?t" for k by (cases k) simp_all
  ultimately show ?thesis by auto
qed

text \<open>A dropped segment that gained the predicate 5, which was closed since.\<close>

definition dropped_backend :: backend where
  "dropped_backend = (new_backend 2 True False [O_RDWR, O_CREAT])\<lparr>be_ptree_open_flags := [O_RDWR, O_CREAT, O_TRUNC],
     be_ptree_length := 1, be_ptrees_priv := (replicate 16 null_ref)[0 := \<lparr>pr_pred = 5, pr_ptree_s = False, pr_ptree_o = False\<rparr>],
     be_files := (\<lambda>t. if fst t = 5 then Some ((fs_ptree_create fs_ptable_create)\<lparr>pt_count := 1\<rparr>) else None)\<rparr>"

theorem truncated_on_reopen_witness:
  "\<exists>be'. fs_backend_ptree_limited_open dropped_backend 0 = Some be' \<and> be_files dropped_backend (5, False) \<noteq> be_files be' (5, False)"
proof -
  let ?be = dropped_backend
  note e = new_backend_fields [of "[O_RDWR, O_CREAT]" 2 True False]
  have f: "be_ptree_open_flags ?be = [O_RDWR, O_CREAT, O_TRUNC]" "be_ptrees_priv ?be ! 0 = \<lparr>pr_pred = 5, pr_ptree_s = False, pr_ptree_o = False\<rparr>"
    "\<And>k. be_files ?be (5, k) = Some ((fs_ptree_create fs_ptable_create)\<lparr>pt_count := 1\<rparr>)" "be_pairs ?be = fs_ptable_create"
    by (simp_all add: dropped_backend_def e)
  have r: "ring_ok 1 ?be" using f(2) by (auto simp: dropped_backend_def ring_ok_def ring_queue_def e)
  obtain be' where "fs_backend_ptree_limited_open ?be 0 = Some be'" "be_files be' (5, False) = Some (fs_ptree_create fs_ptable_create)"
    using truncated_on_reopen [OF _ r, of 0] by (auto simp: f)
  moreover have "(fs_ptree_create fs_ptable_create)\<lparr>pt_count := 1\<rparr> \<noteq> fs_ptree_create fs_ptable_create"
    by (simp add: fs_ptree_create_def fs_ptree_write_header_def Let_def)
  ultimately show ?thesis using f(3) by auto
qed

end
