(* ===== verification/ImportBackend.thy ===== *)
theory ImportBackend
  imports Backend
begin

text \<open>
  Import into a segment (\<open>src/src/backend/import-backend.c\<close>).  Quads collect in a buffer; a commit sorts it, drops repeated quads and
  adds the others to the trees keyed by subject, then to those keyed by object, then to the index of
  their graph.  Large imports go through sorted lists instead.  The static buffer is an argument and
  a result; timings are left out, as is the import of resources.
\<close>

section \<open>The buffer\<close>

record q_buf =
  qb_skip :: bool
  qb_quad :: quad

definition QUAD_BUF_SIZE :: nat where "QUAD_BUF_SIZE = 10240"

definition FS_BIND_BY_SUBJECT :: u32 where "FS_BIND_BY_SUBJECT = 0x1000000"
definition FS_BIND_BY_OBJECT :: u32 where "FS_BIND_BY_OBJECT = 0x2000000"

definition qbuf_sort_ps :: "q_buf \<Rightarrow> q_buf \<Rightarrow> int" where
  "qbuf_sort_ps a b = (case (qb_quad a, qb_quad b) of ((a0, a1, a2, a3), (b0, b1, b2, b3)) \<Rightarrow>
     sort_step a2 b2 (sort_step a1 b1 (sort_step a3 b3 (sort_step a0 b0 0))))"

definition qbuf_sort_po :: "q_buf \<Rightarrow> q_buf \<Rightarrow> int" where
  "qbuf_sort_po a b = (case (qb_quad a, qb_quad b) of ((a0, a1, a2, a3), (b0, b1, b2, b3)) \<Rightarrow>
     sort_step a2 b2 (sort_step a3 b3 0))"

definition qbuf_sort_m :: "q_buf \<Rightarrow> q_buf \<Rightarrow> int" where
  "qbuf_sort_m a b = (case (qb_quad a, qb_quad b) of ((a0, a1, a2, a3), (b0, b1, b2, b3)) \<Rightarrow> sort_step a0 b0 0)"

text \<open>The loop that marks a quad that equals the one before it.\<close>

fun mark_dups :: "q_buf list \<Rightarrow> q_buf list" where
  "mark_dups (a # b # qs) = a # mark_dups ((if qb_quad b = qb_quad a then b\<lparr>qb_skip := True\<rparr> else b) # qs)"
| "mark_dups qs = qs"

section \<open>The trees\<close>

text \<open>The tree of a predicate, which is made when it is missing.\<close>

definition import_tree :: "(nat \<Rightarrow> ptree_ref) \<Rightarrow> backend \<Rightarrow> rid \<Rightarrow> bool \<Rightarrow> (tree_name option \<times> backend) option" where
  "import_tree junk be pred pass = do {
     (pt, be1) \<leftarrow> fs_backend_get_ptree be pred pass;
     (case pt of
        Some t \<Rightarrow> Some (Some t, be1)
      | None \<Rightarrow> do {
          (_, be2) \<leftarrow> fs_backend_open_ptree junk be1 pred;
          (id, l) \<leftarrow> fs_list_add (Some (be_predicates be2)) pred;
          l \<leftarrow> l;
          r \<leftarrow> load_at (be_ptrees_priv be2) (nat id);
          Some (ref_tree r pass, be2\<lparr>be_predicates := l\<rparr>)
        })
   }"

text \<open>One pass over the buffer; false is the pass over the trees keyed by subject.\<close>

fun import_pass :: "bool \<Rightarrow> (nat \<Rightarrow> ptree_ref) \<Rightarrow> bool \<Rightarrow> rid \<Rightarrow> tree_name option \<Rightarrow> q_buf list \<Rightarrow> backend \<Rightarrow> (q_buf list \<times> backend) option" where
  "import_pass dedup junk pass last_pred pt [] be = Some ([], be)"
| "import_pass dedup junk pass last_pred pt (q # qs) be =
     (if qb_skip q then do {
        (qs1, be1) \<leftarrow> import_pass dedup junk pass last_pred pt qs be;
        Some (q # qs1, be1)
      }
      else
        let (m, s, pred, obj) = qb_quad q in do {
          (pt1, be1) \<leftarrow> (if last_pred \<noteq> pred then import_tree junk be pred pass else Some (pt, be));
          (ret, be2) \<leftarrow> be_ptree_add dedup be1 pt1 (if pass then obj else s) (m, if pass then s else obj);
          let q1 = (if \<not> pass \<and> ret \<noteq> 0 then q\<lparr>qb_skip := True\<rparr> else q);
          let be3 = (if \<not> pass \<and> ret = 0 then be2\<lparr>be_approx_size := be_approx_size be2 + 1\<rparr> else be2);
          (qs1, be4) \<leftarrow> import_pass dedup junk pass pred pt1 qs be3;
          Some (q1 # qs1, be4)
        })"

definition import_trees :: "bool \<Rightarrow> (nat \<Rightarrow> ptree_ref) \<Rightarrow> q_buf list \<Rightarrow> backend \<Rightarrow> (q_buf list \<times> backend) option" where
  "import_trees dedup junk buf be = do {
     (buf1, be1) \<leftarrow> import_pass dedup junk False FS_RID_NULL None (mark_dups (qsort qbuf_sort_ps buf)) be;
     import_pass dedup junk True FS_RID_NULL None (qsort qbuf_sort_po buf1) be1
   }"

section \<open>The model indexes\<close>

text \<open>The model file that is open, with its graph.\<close>

type_synonym open_tlist = "(rid \<times> tlist) option"

definition close_tlist :: "open_tlist \<Rightarrow> backend \<Rightarrow> backend" where
  "close_tlist tlo be = (case tlo of None \<Rightarrow> be | Some (m, l) \<Rightarrow> be\<lparr>be_tlists := (be_tlists be)(m \<mapsto> fs_tlist_close l)\<rparr>)"

text \<open>The part of the loop that runs when the graph changes.\<close>

definition next_model :: "mh_entry \<Rightarrow> backend \<Rightarrow> rid \<Rightarrow> (open_tlist \<times> nat \<times> backend) option" where
  "next_model junk be model =
     (let node = fs_mhash_get (be_models be) model in
      if node = 1 then Some (map_option (Pair model) (fs_tlist_open (be_tlists be model) [O_RDWR]), 0, be)
      else if node = 0 then
        if be_model_files be then do {
          (_, mh) \<leftarrow> fs_mhash_put junk (be_models be) model 1;
          Some (map_option (Pair model) (fs_tlist_open (be_tlists be model) [O_CREAT, O_RDWR]), 0, be\<lparr>be_models := mh\<rparr>)
        }
        else Some (None, node, be)
      else Some (None, node, be))"

text \<open>Appending to a chain of triple blocks, which is made when there is none.\<close>

definition add_to_chain :: "mh_entry \<Rightarrow> backend \<Rightarrow> rid \<Rightarrow> nat \<Rightarrow> triple \<Rightarrow> (nat \<times> backend) option" where
  "add_to_chain junk be model model_node t = do {
     (node, be1) \<leftarrow> (if model_node = 0 then do {
         (node, bc) \<leftarrow> fs_tbchain_new_chain (be_model_list be);
         (_, mh) \<leftarrow> fs_mhash_put junk (be_models be) model node;
         Some (node, be\<lparr>be_model_list := bc, be_models := mh\<rparr>)
       } else Some (model_node, be));
     (new_node, bc) \<leftarrow> fs_tbchain_add_triple (be_model_list be1) node t;
     let be2 = be1\<lparr>be_model_list := bc\<rparr>;
     if new_node \<noteq> node then do {
       (_, mh) \<leftarrow> fs_mhash_put junk (be_models be2) model new_node;
       Some (new_node, be2\<lparr>be_models := mh\<rparr>)
     } else Some (node, be2)
   }"

fun import_models :: "mh_entry \<Rightarrow> open_tlist \<Rightarrow> rid \<Rightarrow> nat \<Rightarrow> q_buf list \<Rightarrow> backend \<Rightarrow> backend option" where
  "import_models junk tlo last_model model_node [] be = Some (close_tlist tlo be)"
| "import_models junk tlo last_model model_node (q # qs) be =
     (if qb_skip q then import_models junk tlo last_model model_node qs be
      else
        let (model, t) = qb_quad q in do {
          (tl1, node, be1) \<leftarrow> (if model \<noteq> last_model then next_model junk (close_tlist tlo be) model
                               else Some (tlo, model_node, be));
          (case tl1 of
             Some (m, l) \<Rightarrow> import_models junk (map_option (Pair m) (snd (fs_tlist_add (Some l) t))) model node qs be1
           | None \<Rightarrow> do {
               (node1, be2) \<leftarrow> add_to_chain junk be1 model node t;
               import_models junk None model node1 qs be2
             })
        })"

section \<open>Committing\<close>

text \<open>Rows for the pended lists, by a hash of the predicate.\<close>

fun pend_rows :: "q_buf list \<Rightarrow> backend \<Rightarrow> backend option" where
  "pend_rows [] be = Some be"
| "pend_rows (q # qs) be =
     (if qb_skip q then pend_rows qs be
      else let n = unat (drop_bit 40 (fst (snd (snd (qb_quad q))))) mod FS_PENDED_LISTS in do {
        l \<leftarrow> load_at (be_pended be) n;
        (_, l1) \<leftarrow> fs_list_add l (qb_quad q);
        pend_rows qs (be\<lparr>be_pended := (be_pended be)[n := l1]\<rparr>)
      })"

definition import_guard :: "backend \<Rightarrow> int \<Rightarrow> u32 \<Rightarrow> int" where
  "import_guard be seg flags =
     (if flags AND (FS_BIND_BY_SUBJECT OR FS_BIND_BY_OBJECT) = 0 then 1
      else if flags AND FS_BIND_BY_OBJECT \<noteq> 0 then 2
      else if seg < 0 \<or> seg \<ge> be_segments be then 3 else 0)"

definition fs_quad_import_commit ::
  "bool \<Rightarrow> (nat \<Rightarrow> ptree_ref) \<Rightarrow> mh_entry \<Rightarrow> backend \<Rightarrow> int \<Rightarrow> u32 \<Rightarrow> q_buf list \<Rightarrow> (int \<times> q_buf list \<times> backend) option" where
  "fs_quad_import_commit dedup junk mjunk be seg flags buf =
     (if import_guard be seg flags \<noteq> 0 then Some (import_guard be seg flags, buf, be)
      else do {
        (buf1, be1) \<leftarrow> (if be_pended_import be then do { be1 \<leftarrow> pend_rows buf be; Some (buf, be1) }
                        else import_trees dedup junk buf be);
        let be2 = be1\<lparr>be_predicates := the (snd (fs_list_flush (Some (be_predicates be1))))\<rparr>;
        be3 \<leftarrow> import_models mjunk None FS_RID_NULL 0 (qsort qbuf_sort_m buf1) be2;
        Some (0, [], be3)
      })"

text \<open>The first full buffer opens the pended lists.\<close>

definition start_pending :: "backend \<Rightarrow> backend" where
  "start_pending be = (if be_pended_import be then be
     else be\<lparr>be_pended_import := True, be_pended := replicate FS_PENDED_LISTS (fs_list_open (0, 0, 0, 0) 32 [])\<rparr>)"

partial_function (option) import_fill ::
  "bool \<Rightarrow> (nat \<Rightarrow> ptree_ref) \<Rightarrow> mh_entry \<Rightarrow> backend \<Rightarrow> int \<Rightarrow> u32 \<Rightarrow> q_buf list \<Rightarrow> quad list \<Rightarrow> (int \<times> q_buf list \<times> backend) option" where
  "import_fill dedup junk mjunk be seg flags buf rows =
     (if rows = [] then Some (0, buf, be)
      else
        let n = QUAD_BUF_SIZE - length buf;
            buf1 = buf @ map (\<lambda>q. \<lparr>qb_skip = False, qb_quad = q\<rparr>) (take n rows)
        in if length buf1 = QUAD_BUF_SIZE then do {
             (ret, buf2, be1) \<leftarrow> fs_quad_import_commit dedup junk mjunk (start_pending be) seg flags buf1;
             if ret \<noteq> 0 then Some (ret, buf2, be1)
             else import_fill dedup junk mjunk be1 seg flags buf2 (drop n rows)
           }
           else import_fill dedup junk mjunk be seg flags buf1 (drop n rows))"

definition fs_quad_import ::
  "bool \<Rightarrow> (nat \<Rightarrow> ptree_ref) \<Rightarrow> mh_entry \<Rightarrow> backend \<Rightarrow> int \<Rightarrow> u32 \<Rightarrow> q_buf list \<Rightarrow> quad list \<Rightarrow> (int \<times> q_buf list \<times> backend) option" where
  "fs_quad_import dedup junk mjunk be seg flags buf rows =
     (if import_guard be seg flags \<noteq> 0 then Some (import_guard be seg flags, buf, be)
      else import_fill dedup junk mjunk be seg flags buf rows)"

section \<open>Sorting and marking\<close>

text \<open>The quads that count.\<close>

definition active :: "q_buf list \<Rightarrow> quad list" where
  "active qs = map qb_quad (filter (\<lambda>q. \<not> qb_skip q) qs)"

lemma active_simps [simp]:
  "active [] = []" "active (q # qs) = (if qb_skip q then active qs else qb_quad q # active qs)"
  by (simp_all add: active_def)

lemma mset_active_cong: "mset qs = mset qs' \<Longrightarrow> mset (active qs) = mset (active qs')"
  by (simp add: active_def mset_map mset_filter)

text \<open>The comparison is that of the permuted quads.\<close>

definition ps_key :: "q_buf \<Rightarrow> quad" where
  "ps_key q = (case qb_quad q of (m, s, p, obj) \<Rightarrow> (p, s, obj, m))"

lemma sort_ps_key: "qbuf_sort_ps a b = quad_sort_by_mspo (ps_key a) (ps_key b)"
  by (simp add: qbuf_sort_ps_def quad_sort_by_mspo_def ps_key_def split: prod.splits)

lemma ps_key_eq: "ps_key a = ps_key b \<longleftrightarrow> qb_quad a = qb_quad b"
  by (auto simp: ps_key_def split: prod.splits)

interpretation ps: comparator qbuf_sort_ps
  by unfold_locales (use mspo.cmp_total mspo.cmp_trans in \<open>unfold sort_ps_key, blast+\<close>)

lemma sort_ps_quads: "qbuf_sort_ps a b \<le> 0 \<Longrightarrow> qbuf_sort_ps b a \<le> 0 \<Longrightarrow> qb_quad a = qb_quad b"
  unfolding sort_ps_key ps_key_eq [symmetric] by (rule mspo.cmp_antisym)

lemma sort_ps_cong: "qb_quad a = qb_quad a' \<Longrightarrow> qb_quad b = qb_quad b' \<Longrightarrow> qbuf_sort_ps a b = qbuf_sort_ps a' b'"
  by (simp add: qbuf_sort_ps_def)

text \<open>In a sorted buffer equal quads are adjacent: marking leaves each quad once.\<close>

lemma mark_dups_ok:
  assumes "sorted_wrt (\<lambda>a b. qbuf_sort_ps a b \<le> 0) qs" "\<forall>q \<in> set (tl qs). \<not> qb_skip q"
  shows "length (mark_dups qs) = length qs \<and> distinct (active (tl (mark_dups qs)))
    \<and> set (active (tl (mark_dups qs))) = qb_quad ` set qs - (if qs = [] then {} else {qb_quad (hd qs)})
    \<and> (qs \<noteq> [] \<longrightarrow> hd (mark_dups qs) = hd qs \<and> mark_dups qs \<noteq> [])"
  using assms
proof (induction qs rule: mark_dups.induct)
  case (1 a b qs)
  let ?b = "if qb_quad b = qb_quad a then b\<lparr>qb_skip := True\<rparr> else b"
  have bq: "qb_quad ?b = qb_quad b" by simp
  have srt: "sorted_wrt (\<lambda>a b. qbuf_sort_ps a b \<le> 0) (?b # qs)"
    using "1.prems"(1) sort_ps_cong [OF bq refl] by auto
  have ns: "\<forall>q \<in> set (tl (?b # qs)). \<not> qb_skip q" using "1.prems"(2) by simp
  note ih = "1.IH" [OF srt ns]
  obtain ms where ms: "mark_dups (?b # qs) = ?b # ms" using ih by (cases "mark_dups (?b # qs)") auto
  have ih': "distinct (active ms)" "set (active ms) = insert (qb_quad b) (qb_quad ` set qs) - {qb_quad b}"
    "length (?b # ms) = length (?b # qs)" using ih ms bq by auto
  have a: "qb_quad a \<notin> qb_quad ` set qs \<or> qb_quad a = qb_quad b"
  proof -
    have "qb_quad a = qb_quad b" if q: "q \<in> set qs" "qb_quad a = qb_quad q" for q
    proof -
      have "qbuf_sort_ps b q \<le> 0" "qbuf_sort_ps a b \<le> 0" using "1.prems"(1) q(1) by auto
      then have "qbuf_sort_ps b a \<le> 0" using sort_ps_cong [OF refl q(2)] by metis
      with \<open>qbuf_sort_ps a b \<le> 0\<close> show ?thesis by (rule sort_ps_quads)
    qed
    then show ?thesis by auto
  qed
  have act: "active (?b # ms) = (if qb_quad b = qb_quad a then active ms else qb_quad b # active ms)" using "1.prems"(2) by simp
  have "mark_dups (a # b # qs) = a # ?b # ms" using ms by simp
  moreover have "distinct (active (?b # ms))" unfolding act using ih' by auto
  moreover have "set (active (?b # ms)) = qb_quad ` set (a # b # qs) - {qb_quad a}" unfolding act using ih' a by auto
  ultimately show ?case using ih'(3) by simp
qed simp_all

lemma mark_sorted_ok:
  assumes "\<forall>q \<in> set buf. \<not> qb_skip q"
  shows "distinct (active (mark_dups (qsort qbuf_sort_ps buf)))" "set (active (mark_dups (qsort qbuf_sort_ps buf))) = qb_quad ` set buf"
proof -
  let ?qs = "qsort qbuf_sort_ps buf"
  have s: "\<forall>q \<in> set ?qs. \<not> qb_skip q" using assms by simp
  have m: "length (mark_dups ?qs) = length ?qs \<and> distinct (active (tl (mark_dups ?qs)))
    \<and> set (active (tl (mark_dups ?qs))) = qb_quad ` set ?qs - (if ?qs = [] then {} else {qb_quad (hd ?qs)})
    \<and> (?qs \<noteq> [] \<longrightarrow> hd (mark_dups ?qs) = hd ?qs \<and> mark_dups ?qs \<noteq> [])"
    by (rule mark_dups_ok [OF ps.qsorted_qsort]) (use s in \<open>metis list.set_sel(2) list.sel(2)\<close>)
  show "distinct (active (mark_dups ?qs))" "set (active (mark_dups ?qs)) = qb_quad ` set buf"
  proof -
    have "distinct (active (mark_dups ?qs)) \<and> set (active (mark_dups ?qs)) = qb_quad ` set ?qs"
    proof (cases ?qs)
      case (Cons q qs)
      then obtain ms where ms: "mark_dups ?qs = q # ms" using m by (cases "mark_dups ?qs") auto
      have "\<not> qb_skip q" using s Cons by simp
      then show ?thesis using m unfolding ms unfolding Cons by auto
    qed simp
    then show "distinct (active (mark_dups ?qs))" "set (active (mark_dups ?qs)) = qb_quad ` set buf" by simp_all
  qed
qed

section \<open>What a commit makes of the trees\<close>

text \<open>How often a quad is stored in the trees keyed by subject (false) or by object (true).\<close>

definition quads_in :: "bool \<Rightarrow> (tree_name \<Rightarrow> rid \<rightharpoonup> (rid \<times> rid) list) \<Rightarrow> quad \<Rightarrow> nat" where
  "quads_in pass M = (\<lambda>(m, s, p, obj).
     count (mset (pairs_of (M (p, pass)) (if pass then obj else s))) (m, if pass then s else obj))"

definition after_add :: "bool \<Rightarrow> nat \<Rightarrow> nat" where
  "after_add dedup n = (if dedup \<and> 0 < n then n else Suc n)"

lemma add_pair_pairs:
  "pairs_of (add_pair dedup m pk pr) k =
     (if k = pk then (if dedup \<and> pr \<in> set (pairs_of m pk) then pairs_of m pk else pr # pairs_of m pk) else pairs_of m k)"
  by (simp add: add_pair_def)

lemma quads_in_add:
  "quads_in pass (M((p, pass) := add_pair dedup (M (p, pass)) (if pass then obj else s) (m, if pass then s else obj))) q
     = (if q = (m, s, p, obj) then after_add dedup (quads_in pass M q) else quads_in pass M q)"
  "quads_in (\<not> pass) (M((p, pass) := x)) q = quads_in (\<not> pass) M q"
proof -
  obtain m' s' p' o' where q: "q = (m', s', p', o')" by (cases q)
  show "quads_in pass (M((p, pass) := add_pair dedup (M (p, pass)) (if pass then obj else s) (m, if pass then s else obj))) q
     = (if q = (m, s, p, obj) then after_add dedup (quads_in pass M q) else quads_in pass M q)"
    unfolding q by (cases pass) (auto simp: quads_in_def add_pair_pairs after_add_def)
  show "quads_in (\<not> pass) (M((p, pass) := x)) q = quads_in (\<not> pass) M q"
    unfolding q by (cases pass) (simp_all add: quads_in_def)
qed

lemma preds_ok_frame: "preds_ok be \<Longrightarrow> be_predicates be' = be_predicates be \<Longrightarrow> be_preds be' = be_preds be \<Longrightarrow> preds_ok be'"
  by (simp add: preds_ok_def)

lemma import_tree_ok:
  assumes h: "be_holds be M" and po: "preds_ok be"
  shows "\<exists>be'. import_tree junk be p pass = Some (Some (p, pass), be') \<and> be_holds be' M \<and> preds_ok be'
    \<and> set (be_preds be') = insert p (set (be_preds be)) \<and> same_rest be' be \<and> be_approx_size be' = be_approx_size be
    \<and> be_pairs be' = be_pairs be \<and> (if p \<in> set (be_preds be) then be_files be' = be_files be
        else \<forall>k. be_files be' (p, k) = Some (fs_ptree_create (be_pairs be)))"
proof -
  obtain be1 where b1: "fs_backend_get_ptree be p pass = Some (if p \<in> set (be_preds be) then Some (p, pass) else None, be1)"
    "be_holds be1 M" "same_store be1 be" using get_ptree_holds [OF h, of p pass] by blast
  have s1: "be_preds be1 = be_preds be" "be_predicates be1 = be_predicates be" "be_approx_size be1 = be_approx_size be" "same_rest be1 be"
    "be_pairs be1 = be_pairs be" "be_files be1 = be_files be"
    using b1(3) same_store_rest [OF b1(3)] by (simp_all add: same_store_def)
  show ?thesis
  proof (cases "p \<in> set (be_preds be)")
    case True
    then show ?thesis using b1 s1 preds_ok_frame [OF po s1(2,1)] by (auto simp: import_tree_def)
  next
    case False
    then have "p \<notin> set (be_preds be1)" by (simp add: s1)
    then obtain be2 where b2: "fs_backend_open_ptree junk be1 p = Some (be_ptree_length be1, be2)" "be_holds be2 M" "be_preds be2 = be_preds be @ [p]"
      "be_ptrees_priv be2 ! be_ptree_length be1 = \<lparr>pr_pred = p, pr_ptree_s = True, pr_ptree_o = True\<rparr>" "same_rest be2 be1"
      "be_predicates be2 = be_predicates be" "be_approx_size be2 = be_approx_size be" "be_pairs be2 = be_pairs be"
      "\<forall>k. be_files be2 (p, k) = Some (fs_ptree_create (be_pairs be))"
      using open_ptree_holds [OF b1(2), of p junk] s1 by auto
    have len: "length (be_preds be) = be_ptree_length be1" using be_opensD(6) [OF be_holds_opens [OF b1(2)]] s1(1) by simp
    have "Suc (be_ptree_length be1) = be_ptree_length be2" using be_opensD(6) [OF be_holds_opens [OF b2(2)]] b2(3) len by simp
    then have lt: "be_ptree_length be1 < length (be_ptrees_priv be2)" using be_opensD(7) [OF be_holds_opens [OF b2(2)]] by simp
    obtain l' where l: "fs_list_add (Some (be_predicates be2)) p = Some (int (length (be_preds be)), Some l')" "list_ok l'"
      "l_elems l' = be_preds be @ [p]" "l_width l' = 8"
      using list_add_ok [of "be_predicates be" p] po b2(6) by (auto simp: preds_ok_def)
    have run: "import_tree junk be p pass = Some (Some (p, pass), be2\<lparr>be_predicates := l'\<rparr>)"
      using False b1(1) b2(1,4) l(1) lt len by (simp add: import_tree_def ref_tree_def)
    have "be_holds (be2\<lparr>be_predicates := l'\<rparr>) M" using b2(2) by (simp add: be_holds_def)
    moreover have "preds_ok (be2\<lparr>be_predicates := l'\<rparr>)" using l by (simp add: preds_ok_def b2(3))
    ultimately show ?thesis using run b2(3,7,8,9) False same_rest_trans [OF b2(5) s1(4)] by auto
  qed
qed

text \<open>The files have room for every pair that the pass adds.\<close>

fun pass_room :: "bool \<Rightarrow> (nat \<Rightarrow> ptree_ref) \<Rightarrow> bool \<Rightarrow> rid \<Rightarrow> tree_name option \<Rightarrow> q_buf list \<Rightarrow> backend \<Rightarrow> bool" where
  "pass_room dedup junk pass last_pred pt [] be = True"
| "pass_room dedup junk pass last_pred pt (q # qs) be =
     (if qb_skip q then pass_room dedup junk pass last_pred pt qs be
      else
        let (m, s, pred, obj) = qb_quad q in
        (case (if last_pred \<noteq> pred then import_tree junk be pred pass else Some (pt, be)) of
           None \<Rightarrow> True
         | Some (pt1, be1) \<Rightarrow> (case pt1 of None \<Rightarrow> True | Some t \<Rightarrow> be_room be1 t) \<and>
             (case be_ptree_add dedup be1 pt1 (if pass then obj else s) (m, if pass then s else obj) of
                None \<Rightarrow> True
              | Some (ret, be2) \<Rightarrow> pass_room dedup junk pass pred pt1 qs
                  (if \<not> pass \<and> ret = 0 then be2\<lparr>be_approx_size := be_approx_size be2 + 1\<rparr> else be2))))"

lemma approx_frame [simp]:
  "be_holds (be\<lparr>be_approx_size := n\<rparr>) M = be_holds be M" "preds_ok (be\<lparr>be_approx_size := n\<rparr>) = preds_ok be"
  "be_preds (be\<lparr>be_approx_size := n\<rparr>) = be_preds be" "same_rest (be\<lparr>be_approx_size := n\<rparr>) b = same_rest be b"
  by (simp_all add: be_holds_def be_opens_def keep_flags_def dir_ok_def be_preds_def ring_ok_def ring_queue_def preds_ok_def same_rest_def)

definition pass_done :: "bool \<Rightarrow> bool \<Rightarrow> quad list \<Rightarrow> (tree_name \<Rightarrow> rid \<rightharpoonup> (rid \<times> rid) list) \<Rightarrow> (tree_name \<Rightarrow> rid \<rightharpoonup> (rid \<times> rid) list) \<Rightarrow> bool" where
  "pass_done dedup pass qs M M' \<longleftrightarrow> (\<forall>q. quads_in pass M' q = (if q \<in> set qs then after_add dedup (quads_in pass M q) else quads_in pass M q)
     \<and> quads_in (\<not> pass) M' q = quads_in (\<not> pass) M q)"

lemma import_pass_ok:
  assumes "be_holds be M" "preds_ok be" "distinct (active qs)" "\<forall>q \<in> set (active qs). fst (snd (snd q)) \<noteq> FS_RID_NULL"
    "last_pred = FS_RID_NULL \<or> pt = Some (last_pred, pass) \<and> last_pred \<in> set (be_preds be)" "pass_room dedup junk pass last_pred pt qs be"
  shows "\<exists>be' M'. import_pass dedup junk pass last_pred pt qs be = Some (qs, be') \<and> be_holds be' M' \<and> preds_ok be'
    \<and> pass_done dedup pass (active qs) M M' \<and> same_rest be' be
    \<and> be_approx_size be' = be_approx_size be + (if pass then 0 else int (length (active qs)))"
  using assms
proof (induction qs arbitrary: be M last_pred pt)
  case Nil
  then show ?case by (auto simp: pass_done_def)
next
  case (Cons q qs)
  show ?case
  proof (cases "qb_skip q")
    case True
    then show ?thesis using Cons.IH [OF Cons.prems(1,2) _ _ Cons.prems(5)] Cons.prems(3,4,6) by auto
  next
    case False
    obtain m s p obj where q: "qb_quad q = (m, s, p, obj)" by (cases "qb_quad q")
    have p0: "p \<noteq> FS_RID_NULL" using Cons.prems(4) False q by auto
    obtain be1 where b1: "(if last_pred \<noteq> p then import_tree junk be p pass else Some (pt, be)) = Some (Some (p, pass), be1)"
      "be_holds be1 M" "preds_ok be1" "p \<in> set (be_preds be1)" "same_rest be1 be" "be_approx_size be1 = be_approx_size be"
    proof (cases "last_pred = p")
      case True
      then show ?thesis using that [of be] Cons.prems(1,2,5) p0 by auto
    next
      case False
      then show ?thesis using that import_tree_ok [OF Cons.prems(1,2), of junk p pass] by auto
    qed
    let ?pk = "if pass then obj else s" and ?pr = "(m, if pass then s else obj)"
    have room: "be_room be1 (p, pass)" using Cons.prems(6) False q b1(1) by (simp split: if_split_asm)
    obtain be2 pt2 where b2: "be_ptree_add dedup be1 (Some (p, pass)) ?pk ?pr = Some (0, be2)" "be2 = tree_back be1 (p, pass) pt2"
      "be_holds be2 (M((p, pass) := add_pair dedup (M (p, pass)) ?pk ?pr))"
      using be_add_ok [OF b1(2,4) room, of dedup ?pk ?pr] by blast
    let ?M = "M((p, pass) := add_pair dedup (M (p, pass)) ?pk ?pr)"
    define be3 where "be3 = (if \<not> pass then be2\<lparr>be_approx_size := be_approx_size be2 + 1\<rparr> else be2)"
    have s2: "preds_ok be2" "be_preds be2 = be_preds be1" "same_rest be2 be1" "be_approx_size be2 = be_approx_size be"
      using b1(6) preds_ok_frame [OF b1(3), of be2] by (simp_all add: b2(2))
    have b3: "be_holds be3 ?M" "preds_ok be3" "p \<in> set (be_preds be3)" "same_rest be3 be" "be_approx_size be3 = be_approx_size be + (if pass then 0 else 1)"
      using b2(3) s2 b1(4) same_rest_trans [OF s2(3) b1(5)] by (cases pass; simp add: be3_def)+
    have room3: "pass_room dedup junk pass p (Some (p, pass)) qs be3"
      using Cons.prems(6) False q b1(1) b2(1) by (auto simp: be3_def split: if_split_asm)
    obtain be' M' where r: "import_pass dedup junk pass p (Some (p, pass)) qs be3 = Some (qs, be')" "be_holds be' M'" "preds_ok be'"
      "pass_done dedup pass (active qs) ?M M'" "same_rest be' be3"
      "be_approx_size be' = be_approx_size be3 + (if pass then 0 else int (length (active qs)))"
    proof -
      have "distinct (active qs)" "\<forall>q \<in> set (active qs). fst (snd (snd q)) \<noteq> FS_RID_NULL" using Cons.prems(3,4) False by simp_all
      from Cons.IH [OF b3(1,2) this _ room3] b3(3) show ?thesis using that by blast
    qed
    have run: "import_pass dedup junk pass last_pred pt (q # qs) be = Some (q # qs, be')"
      using False q b1(1) b2(1) r(1) by (simp add: be3_def split: if_split_asm)
    have nq: "(m, s, p, obj) \<notin> set (active qs)" using Cons.prems(3) False q by simp
    have "pass_done dedup pass (active (q # qs)) M M'"
      using r(4) nq False q quads_in_add [where M = M and p = p and pass = pass] unfolding pass_done_def by auto
    then show ?thesis using run r(2,3,5,6) b3(4,5) False same_rest_trans by (intro exI [of _ be'] exI [of _ M']) auto
  qed
qed

definition import_room :: "bool \<Rightarrow> (nat \<Rightarrow> ptree_ref) \<Rightarrow> q_buf list \<Rightarrow> backend \<Rightarrow> bool" where
  "import_room dedup junk buf be \<longleftrightarrow>
     (let qs = mark_dups (qsort qbuf_sort_ps buf)
      in pass_room dedup junk False FS_RID_NULL None qs be
       \<and> (case import_pass dedup junk False FS_RID_NULL None qs be of
            None \<Rightarrow> True
          | Some (buf1, be1) \<Rightarrow> pass_room dedup junk True FS_RID_NULL None (qsort qbuf_sort_po buf1) be1))"

definition imported :: "bool \<Rightarrow> quad set \<Rightarrow> (tree_name \<Rightarrow> rid \<rightharpoonup> (rid \<times> rid) list) \<Rightarrow> (tree_name \<Rightarrow> rid \<rightharpoonup> (rid \<times> rid) list) \<Rightarrow> bool" where
  "imported dedup Q M M' \<longleftrightarrow>
     (\<forall>k q. quads_in k M' q = (if q \<in> Q then after_add dedup (quads_in k M q) else quads_in k M q))"

lemma import_trees_ok:
  assumes h: "be_holds be M" and po: "preds_ok be" and sk: "\<forall>q \<in> set buf. \<not> qb_skip q"
    and nn: "\<forall>q \<in> set buf. fst (snd (snd (qb_quad q))) \<noteq> FS_RID_NULL" and room: "import_room dedup junk buf be"
  shows "\<exists>buf' be' M'. import_trees dedup junk buf be = Some (buf', be') \<and> be_holds be' M' \<and> preds_ok be'
    \<and> imported dedup (qb_quad ` set buf) M M' \<and> same_rest be' be \<and> distinct (active buf') \<and> set (active buf') = qb_quad ` set buf
    \<and> be_approx_size be' = be_approx_size be + int (card (qb_quad ` set buf))"
proof -
  define qs where "qs = mark_dups (qsort qbuf_sort_ps buf)"
  have a: "distinct (active qs)" "set (active qs) = qb_quad ` set buf" unfolding qs_def using mark_sorted_ok [OF sk] by blast+
  have n1: "\<forall>q \<in> set (active qs). fst (snd (snd q)) \<noteq> FS_RID_NULL" using nn a(2) by auto
  have r1: "pass_room dedup junk False FS_RID_NULL None qs be" using room by (simp add: import_room_def qs_def Let_def)
  obtain be1 M1 where p1: "import_pass dedup junk False FS_RID_NULL None qs be = Some (qs, be1)" "be_holds be1 M1" "preds_ok be1"
    "pass_done dedup False (active qs) M M1" "same_rest be1 be" "be_approx_size be1 = be_approx_size be + int (length (active qs))"
    using import_pass_ok [OF h po a(1) n1 _ r1] by auto
  define qs2 where "qs2 = qsort qbuf_sort_po qs"
  have m2: "mset (active qs2) = mset (active qs)" unfolding qs2_def by (rule mset_active_cong) simp
  then have a2: "distinct (active qs2)" "set (active qs2) = qb_quad ` set buf" using a mset_eq_setD [OF m2] by (metis distinct_count_atmost_1, simp)
  have n2: "\<forall>q \<in> set (active qs2). fst (snd (snd q)) \<noteq> FS_RID_NULL" using nn a2(2) by auto
  have r2: "pass_room dedup junk True FS_RID_NULL None qs2 be1" using room p1(1) by (simp add: import_room_def qs_def [symmetric] qs2_def)
  obtain be2 M2 where p2: "import_pass dedup junk True FS_RID_NULL None qs2 be1 = Some (qs2, be2)" "be_holds be2 M2" "preds_ok be2"
    "pass_done dedup True (active qs2) M1 M2" "same_rest be2 be1" "be_approx_size be2 = be_approx_size be1"
    using import_pass_ok [OF p1(2,3) a2(1) n2 _ r2] by auto
  have run: "import_trees dedup junk buf be = Some (qs2, be2)" using p1(1) p2(1) by (simp add: import_trees_def qs_def [symmetric] qs2_def)
  have "quads_in k M2 q = (if q \<in> qb_quad ` set buf then after_add dedup (quads_in k M q) else quads_in k M q)" for k q
    using spec [OF p1(4) [unfolded pass_done_def], of q] spec [OF p2(4) [unfolded pass_done_def], of q] a(2) a2(2)
    by (cases k) simp_all
  moreover have "length (active qs) = card (qb_quad ` set buf)" using distinct_card [OF a(1)] a(2) by simp
  ultimately show ?thesis using run p2(2,3,6) p1(6) a2 same_rest_trans [OF p2(5) p1(5)] unfolding imported_def by (intro exI [of _ qs2] exI [of _ be2] exI [of _ M2]) simp
qed

text \<open>How much a table grows when a pair is added.\<close>

lemma new_row_size: "fs_ptable_new_row pt = Some (n, pt') \<Longrightarrow> pt_size pt' \<le> max (pt_size pt) (pt_new_size (pt_size pt))"
  by (auto simp: fs_ptable_new_row_def map_pt_def unmap_pt_def pt_put_def Let_def split: if_split_asm Option.bind_split_asm)

lemma add_pair_size: "fs_ptable_add_pair pt b p = Some (n, pt') \<Longrightarrow> pt_size pt' \<le> max (pt_size pt) (pt_new_size (pt_size pt))"
  using new_row_size [of pt]
  by (auto simp: fs_ptable_add_pair_def pt_put_def split: if_split_asm Option.bind_split_asm prod.split_asm)

lemma be_add_size:
  assumes h: "be_holds be M" and room: "be_room be t" and run: "be_ptree_add dedup be (Some t) pk pr = Some (r, be')"
  shows "pt_size (be_pairs be') \<le> max (pt_size (be_pairs be)) (pt_new_size (pt_size (be_pairs be)))"
proof (cases "be_files be t")
  case None
  then show ?thesis using run by (auto simp: be_ptree_add_def tree_at_def fs_ptree_add_def)
next
  case (Some pt)
  obtain oh :: "tree_name \<times> rid \<Rightarrow> nat" and oP where v: "ptree_holds (pt\<lparr>pt_table := be_pairs be\<rparr>) (M t) oh oP"
    using forest_view [OF be_opensD(5) [OF be_holds_opens [OF h]] Some] by blast
  then obtain ts hh where hw: "holds_with (pt\<lparr>pt_table := be_pairs be\<rparr>) ts hh (M t) oh oP" unfolding ptree_holds_def by blast
  have "ptree_room 32 (pt\<lparr>pt_table := be_pairs be\<rparr>)" using room Some by (simp add: be_room_def ptree_room_def cap_def)
  then obtain n pt1 where c: "get_or_create_leaf (pt\<lparr>pt_table := be_pairs be\<rparr>) pk = Some (n, pt1)" "pt_table pt1 = be_pairs be"
    using create_holds [OF hw, of pk] by auto
  obtain pt' where p: "fs_ptree_add dedup (Some (pt\<lparr>pt_table := be_pairs be\<rparr>)) pk (Some pr) = Some (r, pt')"
    "be' = (case pt' of None \<Rightarrow> be | Some pt \<Rightarrow> tree_back be t pt)"
    using run Some by (auto simp: be_ptree_add_def tree_at_def split: Option.bind_split_asm)
  have "pt_size (pt_table q) \<le> max (pt_size (be_pairs be)) (pt_new_size (pt_size (be_pairs be)))" if "pt' = Some q" for q
    using p(1) c add_pair_size [of "be_pairs be" _ pr] unfolding that fs_ptree_add_def
    by (auto simp: Let_def slot_put_def split: Option.bind_split_asm if_split_asm)
  then show ?thesis using p(2) by (cases pt') auto
qed

section \<open>Properties of an import\<close>


text \<open>A buffer with one quad, twice, for a new segment.\<close>

definition sample_buf :: "q_buf list" where
  "sample_buf = replicate 2 \<lparr>qb_skip = False, qb_quad = (1, 2, 3, 4)\<rparr>"

lemma sample_marked:
  "mark_dups (qsort qbuf_sort_ps sample_buf) = [\<lparr>qb_skip = False, qb_quad = (1, 2, 3, 4)\<rparr>, \<lparr>qb_skip = True, qb_quad = (1, 2, 3, 4)\<rparr>]"
  "qsort qbuf_sort_po [\<lparr>qb_skip = False, qb_quad = (1, 2, 3, 4)\<rparr>, \<lparr>qb_skip = True, qb_quad = (1, 2, 3, 4)\<rparr>]
     = [\<lparr>qb_skip = False, qb_quad = (1, 2, 3, 4)\<rparr>, \<lparr>qb_skip = True, qb_quad = (1, 2, 3, 4)\<rparr>]"
  by (simp_all add: sample_buf_def qsort_def qbuf_sort_ps_def qbuf_sort_po_def sort_step_def numeral_2_eq_2)

lemma create_room: "ptree_room 32 (fs_ptree_create tbl)"
  by (simp add: ptree_room_def cap_def fs_ptree_create_def fs_ptree_write_header_def Let_def FS_PTREE_SIZE_INC_def)

lemma sample_room: "import_room dedup (\<lambda>_. null_ref) sample_buf (new_backend 2 True False [O_RDWR, O_CREAT])"
proof -
  let ?be = "new_backend 2 True False [O_RDWR, O_CREAT]" and ?M = "\<lambda>_. Map.empty" and ?j = "\<lambda>_. null_ref"
  have f: "set [O_RDWR, O_CREAT] = {O_RDWR, O_CREAT}" "O_TRUNC \<notin> set [O_RDWR, O_CREAT]" by simp_all
  note h = new_backend_holds [OF f(1), of 2 True False]
  have pr: "be_pairs ?be = fs_ptable_create" by (rule new_backend_fields [OF f(2)])
  obtain be1 where b1: "import_tree ?j ?be 3 False = Some (Some (3, False), be1)" "be_holds be1 ?M" "preds_ok be1" "set (be_preds be1) = {3}"
    "be_pairs be1 = fs_ptable_create" "\<forall>k. be_files be1 (3, k) = Some (fs_ptree_create fs_ptable_create)"
    using import_tree_ok [OF h(1,3), of ?j 3 False] h(2) pr by auto
  have r1: "be_room be1 (3, False)" using b1(5,6) by (simp add: be_room_def create_room) (simp add: pt_room_def fs_ptable_create_def)
  obtain be2 pt where b2: "be_ptree_add dedup be1 (Some (3, False)) 2 (1, 4) = Some (0, be2)" "be2 = tree_back be1 (3, False) pt"
    "be_holds be2 (?M((3, False) := add_pair dedup Map.empty 2 (1, 4)))"
    using be_add_ok [OF b1(2) _ r1, of dedup 2 "(1, 4)"] b1(4) by auto
  let ?M2 = "?M((3, False) := add_pair dedup Map.empty 2 (1, 4))" and ?be3 = "be2\<lparr>be_approx_size := be_approx_size be2 + 1\<rparr>"
  have "pt_size (be_pairs be2) \<le> 2048" using be_add_size [OF b1(2) r1 b2(1)] b1(5) by (simp add: fs_ptable_create_def pt_new_size_def)
  then have rp: "pt_room (be_pairs ?be3)" by (simp add: pt_room_def)
  have b3: "be_holds ?be3 ?M2" "preds_ok ?be3" "set (be_preds ?be3) = {3}" "be_files ?be3 (3, True) = Some (fs_ptree_create fs_ptable_create)"
    using b2(3) b1(4,6) preds_ok_frame [OF b1(3), of be2] by (simp_all add: b2(2))
  obtain be4 where b4: "import_tree ?j ?be3 3 True = Some (Some (3, True), be4)" "be_pairs be4 = be_pairs ?be3" "be_files be4 = be_files ?be3"
    using import_tree_ok [OF b3(1,2), of ?j 3 True] b3(3) by auto
  have r4: "be_room be4 (3, True)" using b4(2,3) b3(4) rp by (simp add: be_room_def create_room)
  have p1: "import_pass dedup ?j False FS_RID_NULL None (mark_dups (qsort qbuf_sort_ps sample_buf)) ?be
      = Some (mark_dups (qsort qbuf_sort_ps sample_buf), ?be3)"
    using b1(1) b2(1) by (simp add: sample_marked FS_RID_NULL_def)
  have "pass_room dedup ?j False FS_RID_NULL None (mark_dups (qsort qbuf_sort_ps sample_buf)) ?be"
    using b1(1) b2(1) r1 by (simp add: sample_marked FS_RID_NULL_def)
  moreover have "pass_room dedup ?j True FS_RID_NULL None (qsort qbuf_sort_po (mark_dups (qsort qbuf_sort_ps sample_buf))) ?be3"
    using b4(1) r4 by (simp add: sample_marked FS_RID_NULL_def split: option.splits)
  ultimately show ?thesis using p1 by (simp add: import_room_def Let_def)
qed


end
