(* ===== verification/DeleteBackend.thy ===== *)
theory DeleteBackend
  imports ImportBackend
begin

text \<open>
  Deletion from a segment (\<open>src/src/backend/import-backend.c\<close>): of quads by pattern, of small graphs
  by way of their chain, of graphs by a scan of all trees, and of everything by new files.
\<close>

section \<open>Deleting quads\<close>

text \<open>The values that \<open>fs_rid_set_next\<close> returns before the null identifier.\<close>

partial_function (option) rid_set_scan :: "rid_set \<Rightarrow> rid list option" where
  "rid_set_scan s =
     (let (v, s1) = fs_rid_set_next s
      in if v = FS_RID_NULL then Some [] else do { vs \<leftarrow> rid_set_scan s1; Some (v # vs) })"

text \<open>The rows with the given predicate; the vectors are the lists of their elements.\<close>

fun delete_rows :: "rid list \<Rightarrow> rid list \<Rightarrow> rid list \<Rightarrow> rid list \<Rightarrow> rid \<Rightarrow> tree_name \<Rightarrow> tree_name \<Rightarrow> nat list \<Rightarrow> backend \<Rightarrow> rid_set option
    \<Rightarrow> (backend \<times> rid_set option) option" where
  "delete_rows mv sv pv ov pred sfp ofp [] be models = Some (be, models)"
| "delete_rows mv sv pv ov pred sfp ofp (i # is) be models = do {
     p \<leftarrow> load_at pv i;
     if p = pred then do {
       m \<leftarrow> load_at mv i; s \<leftarrow> load_at sv i; obj \<leftarrow> load_at ov i;
       (_, be1, models1) \<leftarrow> be_ptree_remove be (Some sfp) s (m, obj) models;
       (_, be2, models2) \<leftarrow> be_ptree_remove be1 (Some ofp) obj (m, s) models1;
       delete_rows mv sv pv ov pred sfp ofp is be2 models2
     }
     else delete_rows mv sv pv ov pred sfp ofp is be models
   }"

fun delete_preds :: "rid list \<Rightarrow> rid list \<Rightarrow> rid list \<Rightarrow> rid list \<Rightarrow> rid list \<Rightarrow> backend \<Rightarrow> rid_set option \<Rightarrow> (backend \<times> rid_set option) option" where
  "delete_preds mv sv pv ov [] be models = Some (be, models)"
| "delete_preds mv sv pv ov (pred # preds) be models = do {
     (sfp, be1) \<leftarrow> fs_backend_get_ptree be pred False;
     (ofp, be2) \<leftarrow> fs_backend_get_ptree be1 pred True;
     (case (sfp, ofp) of
        (Some st, Some ot) \<Rightarrow> do {
          (be3, models1) \<leftarrow> delete_rows mv sv pv ov pred st ot [0..<length pv] be2 models;
          delete_preds mv sv pv ov preds be3 models1
        }
      | _ \<Rightarrow> delete_preds mv sv pv ov preds be2 models)
   }"

fun flag_models :: "rid list \<Rightarrow> backend \<Rightarrow> backend option" where
  "flag_models [] be = Some be"
| "flag_models (model # ms) be =
     (let val = fs_mhash_get (be_models be) model in
      if val > 1 then do {
        bc \<leftarrow> fs_tbchain_set_bit (be_model_list be) val FS_TBCHAIN_SUPERSET;
        flag_models ms (be\<lparr>be_model_list := bc\<rparr>)
      }
      else flag_models ms be)"

definition fs_delete_quads :: "rid list \<Rightarrow> rid list \<Rightarrow> rid list \<Rightarrow> rid list \<Rightarrow> backend \<Rightarrow> (int \<times> backend) option" where
  "fs_delete_quads mv sv pv ov be = do {
     let preds = foldl fs_rid_set_add fs_rid_set_new pv;
     let models = foldl fs_rid_set_add fs_rid_set_new (filter (\<lambda>m. m \<noteq> FS_RID_NULL) mv);
     ps \<leftarrow> rid_set_scan (rewind_from preds 0);
     (be1, models1) \<leftarrow> delete_preds mv sv pv ov ps be (Some models);
     models1 \<leftarrow> models1;
     ms \<leftarrow> rid_set_scan (rewind_from models1 0);
     be2 \<leftarrow> flag_models ms be1;
     Some (0, be2)
   }"

section \<open>Deleting graphs\<close>

text \<open>
  The trees that the iterator of a chain consults; that it may close other trees to open one is not
  tracked here.
\<close>

definition be_lookup :: "backend \<Rightarrow> rid \<Rightarrow> ptree option" where
  "be_lookup be p = (if p \<in> set (be_preds be) then tree_at be (p, False) else None)"

text \<open>The second loop over the chain, which removes the quads of one predicate.\<close>

partial_function (option) search_chain_loop ::
  "rid \<Rightarrow> rid \<Rightarrow> tree_name \<Rightarrow> tree_name \<Rightarrow> tbchain_it option \<Rightarrow> backend \<Rightarrow> int \<Rightarrow> (int \<times> backend) option" where
  "search_chain_loop model pred sfp ofp it be errors = do {
     (r, bc, it1) \<leftarrow> fs_tbchain_it_next (Some (be_lookup be)) (be_model_list be) it;
     let be1 = be\<lparr>be_model_list := bc\<rparr>;
     (case r of
        None \<Rightarrow> Some (errors, be1)
      | Some (s, p, obj) \<Rightarrow>
          if p = pred then do {
            (e1, be2, _) \<leftarrow> be_ptree_remove be1 (Some sfp) s (model, obj) None;
            (e2, be3, _) \<leftarrow> be_ptree_remove be2 (Some ofp) obj (model, s) None;
            search_chain_loop model pred sfp ofp it1 be3 (errors + (if e1 \<noteq> 0 then 1 else 0) + (if e2 \<noteq> 0 then 1 else 0))
          }
          else search_chain_loop model pred sfp ofp it1 be1 errors)
   }"

fun remove_preds :: "rid \<Rightarrow> nat \<Rightarrow> rid list \<Rightarrow> backend \<Rightarrow> int \<Rightarrow> (int \<times> backend) option" where
  "remove_preds model model_id [] be errors = Some (errors, be)"
| "remove_preds model model_id (pred # preds) be errors = do {
     (sfp, be1) \<leftarrow> fs_backend_get_ptree be pred False;
     (ofp, be2) \<leftarrow> fs_backend_get_ptree be1 pred True;
     (case (sfp, ofp) of
        (Some st, Some ot) \<Rightarrow> do {
          it \<leftarrow> fs_tbchain_new_iterator (Some (be_model_list be2)) model model_id;
          (errors1, be3) \<leftarrow> search_chain_loop model pred st ot it be2 errors;
          remove_preds model model_id preds be3 errors1
        }
      | _ \<Rightarrow> remove_preds model model_id preds be2 errors)
   }"

definition remove_by_search :: "backend \<Rightarrow> rid \<Rightarrow> nat \<Rightarrow> (int \<times> backend) option" where
  "remove_by_search be model model_id = do {
     it \<leftarrow> fs_tbchain_new_iterator (Some (be_model_list be)) model model_id;
     (ts, bc) \<leftarrow> (case it of None \<Rightarrow> Some ([], be_model_list be) | Some i \<Rightarrow> tb_it_all (Some (be_lookup be)) (be_model_list be) i);
     let preds = foldl fs_rid_set_add fs_rid_set_new (map (\<lambda>(s, p, obj). p) ts);
     ps \<leftarrow> rid_set_scan (rewind_from preds 0);
     (errors, be1) \<leftarrow> remove_preds model model_id ps (be\<lparr>be_model_list := bc\<rparr>) 0;
     (e, bc1) \<leftarrow> fs_tbchain_remove_chain (be_model_list be1) model_id;
     Some (errors + e, be1\<lparr>be_model_list := bc1\<rparr>)
   }"

text \<open>The graphs to delete: those in use, from the last null identifier on.\<close>

fun todo_models :: "backend \<Rightarrow> rid list \<Rightarrow> rid list \<Rightarrow> rid list" where
  "todo_models be [] todo = todo"
| "todo_models be (model # ms) todo =
     (let todo1 = (if model = FS_RID_NULL then [FS_RID_NULL] else todo);
          exists = (if be_model_data be then fs_backend_model_get_usage be model else 1)
      in todo_models be ms (if exists \<noteq> 0 then todo1 @ [model] else todo1))"

fun unlink_trees :: "nat list \<Rightarrow> backend \<Rightarrow> backend option" where
  "unlink_trees [] be = Some be"
| "unlink_trees (i # is) be = do {
     be1 \<leftarrow> fs_backend_ptree_limited_open be i;
     r \<leftarrow> load_at (be_ptrees_priv be1) i;
     let F1 = (if pr_ptree_s r then (be_files be1)((pr_pred r, False) := None) else be_files be1);
     let F2 = (if pr_ptree_o r then F1((pr_pred r, True) := None) else F1);
     unlink_trees is (be1\<lparr>be_files := F2, be_ptrees_priv := (be_ptrees_priv be1)[i := null_ref]\<rparr>)
   }"

text \<open>The model files go with a shell command; the pair table and the model list are unlinked too.\<close>

definition fs_backend_unlink_indexes :: "backend \<Rightarrow> backend option" where
  "fs_backend_unlink_indexes be = do {
     be1 \<leftarrow> unlink_trees [0..<be_ptree_length be] be;
     Some (be1\<lparr>be_ptree_length := 0, be_tlists := Map.empty\<rparr>)
   }"

fun empty_models :: "mh_entry \<Rightarrow> rid list \<Rightarrow> backend \<Rightarrow> backend option" where
  "empty_models junk [] be = Some be"
| "empty_models junk (model # ms) be = do {
     let val = fs_mhash_get (be_models be) model;
     be1 \<leftarrow> (if val = 1 then
               (case fs_tlist_open (be_tlists be model) [O_RDWR] of
                  None \<Rightarrow> Some be
                | Some l \<Rightarrow> Some (be\<lparr>be_tlists := (be_tlists be)(model \<mapsto> fs_tlist_close (fs_tlist_truncate l))\<rparr>))
             else if val > 1 then do {
               (_, bc) \<leftarrow> fs_tbchain_remove_chain (be_model_list be) val;
               Some (be\<lparr>be_model_list := bc\<rparr>)
             }
             else Some be);
     (_, be2) \<leftarrow> fs_backend_model_set_usage junk be1 model 0;
     empty_models junk ms be2
   }"

text \<open>The graphs are removed from both trees of one entry of the directory.\<close>

fun purge_models :: "tree_name option \<Rightarrow> tree_name option \<Rightarrow> rid list \<Rightarrow> backend \<Rightarrow> backend option" where
  "purge_models st ot [] be = Some be"
| "purge_models st ot (model # ms) be = do {
     (ret, be1) \<leftarrow> be_ptree_remove_all be st (model, FS_RID_NULL);
     if ret = 0 then do {
       (_, be2) \<leftarrow> be_ptree_remove_all be1 ot (model, FS_RID_NULL);
       purge_models st ot ms be2
     }
     else purge_models st ot ms be1
   }"

fun purge_trees :: "rid list \<Rightarrow> nat list \<Rightarrow> backend \<Rightarrow> backend option" where
  "purge_trees todo [] be = Some be"
| "purge_trees todo (i # is) be = do {
     be1 \<leftarrow> fs_backend_ptree_limited_open be i;
     r \<leftarrow> load_at (be_ptrees_priv be1) i;
     be2 \<leftarrow> purge_models (ref_tree r False) (ref_tree r True) todo be1;
     purge_trees todo is be2
   }"

text \<open>A graph with fewer triples than a hundredth of the store, or fewer than a hundred.\<close>

definition small_chain :: "backend \<Rightarrow> nat \<Rightarrow> bool" where
  "small_chain be len \<longleftrightarrow> int len < (if be_approx_size be \<ge> 0 then be_approx_size be div 100 else - (- be_approx_size be div 100)) \<or> len < 100"

definition fs_delete_models :: "(nat \<Rightarrow> ptree_ref) \<Rightarrow> mh_entry \<Rightarrow> backend \<Rightarrow> rid list \<Rightarrow> (int \<times> backend) option" where
  "fs_delete_models junk mjunk be mvec =
     (let todo = todo_models be mvec [] in
      if todo \<noteq> [] \<and> hd todo = FS_RID_NULL then do {
        be1 \<leftarrow> fs_backend_unlink_indexes be;
        let (disk, be2) = fs_backend_close_files be1;
        be3 \<leftarrow> fs_backend_open_files junk be2 disk [O_RDWR, O_CREAT, O_TRUNC];
        Some (0, be3)
      }
      else do {
        let val = (if length todo = 1 then fs_mhash_get (be_models be) (hd todo) else 0);
        len \<leftarrow> (if val > 1 then fs_tbchain_length (be_model_list be) val else Some 0);
        if val > 1 \<and> small_chain be len then do {
          (_, be1) \<leftarrow> remove_by_search be (hd todo) val;
          (_, be2) \<leftarrow> fs_backend_model_set_usage mjunk be1 (hd todo) 0;
          Some (0, be2)
        }
        else do {
          be1 \<leftarrow> empty_models mjunk todo be;
          be2 \<leftarrow> (if todo \<noteq> [] then purge_trees todo [0..<be_ptree_length be1] be1 else Some be1);
          Some (0, be2)
        }
      })"

section \<open>Quads that a row of the request matches\<close>

definition row_matches :: "quad \<Rightarrow> quad \<Rightarrow> bool" where
  "row_matches = (\<lambda>(m, s, p, obj) (m', s', p', obj'). (m = FS_RID_NULL \<or> m = m') \<and> s = s' \<and> p = p' \<and> obj = obj')"

lemma drop_pairs_pairs:
  "pairs_of (drop_pairs m pk pat) k = (if k = pk then filter (\<lambda>p. \<not> pair_matches pat p) (pairs_of m pk) else pairs_of m k)"
proof (cases "filter (pair_matches pat) (pairs_of m pk) = []")
  case True
  then have "filter (\<lambda>p. \<not> pair_matches pat p) (pairs_of m pk) = pairs_of m pk" by (auto simp: filter_empty_conv filter_id_conv)
  then show ?thesis using True by (simp add: drop_pairs_def)
next
  case False
  then show ?thesis by (simp add: drop_pairs_def keep_pairs_def)
qed

lemma quads_in_drop:
  assumes "s \<noteq> FS_RID_NULL" "obj \<noteq> FS_RID_NULL"
  shows "quads_in pass (M((p, pass) := drop_pairs (M (p, pass)) (if pass then obj else s) (m, if pass then s else obj))) q
     = (if row_matches (m, s, p, obj) q then 0 else quads_in pass M q)"
proof -
  obtain m' s' p' o' where q: "q = (m', s', p', o')" by (cases q)
  show ?thesis using assms unfolding q
    by (cases pass) (auto simp: quads_in_def drop_pairs_pairs row_matches_def pair_matches_def)
qed

lemma rid_set_scan_remaining: "wf_rid_set s \<Longrightarrow> FS_RID_NULL \<notin> set (remaining s) \<Longrightarrow> rid_set_scan s = Some (remaining s)"
proof (induction "remaining s" arbitrary: s)
  case Nil
  then show ?case using next_remaining [OF Nil(2)] by (subst rid_set_scan.simps) (auto simp: Nil(1) [symmetric])
next
  case (Cons v vs)
  obtain s' where s': "fs_rid_set_next s = (v, s')" "rs_entry s' = rs_entry s" "remaining s' = vs"
    using next_remaining [OF Cons(3)] Cons(2) [symmetric] by auto
  have "rid_set_scan s' = Some vs" using Cons(1) [of s'] s' Cons(2-4) wf_rid_set_cong [of s' s] by (metis list.set_intros(2))
  then show ?case using s'(1) Cons(2,4) by (subst rid_set_scan.simps) (auto simp: Cons(2) [symmetric])
qed

lemma rid_set_scan_ok:
  assumes "wf_rid_set s"
  shows "rid_set_scan (rewind_from s 0) = Some (set_vals s)" "set (set_vals s) = rs_members s" "FS_RID_NULL \<notin> rs_members s"
proof -
  have r: "remaining (rewind_from s 0) = set_vals s" "rs_entry (rewind_from s 0) = rs_entry s"
    using rewind_remaining [OF _ assms, of 0] by (simp_all add: set_vals_from)
  show m: "set (set_vals s) = rs_members s" "FS_RID_NULL \<notin> rs_members s" using set_set_vals [OF assms] by (simp_all add: rs_members_def)
  show "rid_set_scan (rewind_from s 0) = Some (set_vals s)"
    using rid_set_scan_remaining [of "rewind_from s 0"] r m assms wf_rid_set_cong [of "rewind_from s 0" s] by simp
qed

lemma models_after_ok:
  assumes "wf_rid_set ms"
  shows "\<exists>ms'. models_after pat (Some ms) gone = Some ms' \<and> wf_rid_set ms'
    \<and> rs_members ms' = rs_members ms \<union> (if fst pat = FS_RID_NULL then fst ` set gone - {FS_RID_NULL} else {})"
  using rs.foldl_add [OF assms, of "map fst gone"] assms by (auto simp: models_after_def)

text \<open>What a run of removals did: the quads that match a row are gone, from both kinds of trees, and the
  graphs that lost one are recorded.\<close>

definition deleted :: "quad set \<Rightarrow> backend \<Rightarrow> (tree_name \<Rightarrow> rid \<rightharpoonup> (rid \<times> rid) list) \<Rightarrow> rid_set \<Rightarrow> backend \<Rightarrow> (tree_name \<Rightarrow> rid \<rightharpoonup> (rid \<times> rid) list) \<Rightarrow> rid_set \<Rightarrow> bool" where
  "deleted R be M ms be' M' ms' \<longleftrightarrow> be_holds be' M' \<and> same_rest be' be \<and> be_preds be' = be_preds be \<and> be_predicates be' = be_predicates be
     \<and> wf_rid_set ms' \<and> rs_members ms \<subseteq> rs_members ms'
     \<and> (\<forall>k q. quads_in k M' q = (if \<exists>r \<in> R. row_matches r q then 0 else quads_in k M q))
     \<and> (\<forall>q. quads_in False M' q \<noteq> quads_in False M q \<and> fst q \<noteq> FS_RID_NULL \<longrightarrow> fst q \<in> rs_members ms')"

lemma deleted_refl: "be_holds be M \<Longrightarrow> wf_rid_set ms \<Longrightarrow> deleted {} be M ms be M ms"
  by (simp add: deleted_def)

lemma deletedD:
  assumes "deleted R be M ms be' M' ms'"
  shows "be_holds be' M'" "same_rest be' be" "be_preds be' = be_preds be" "be_predicates be' = be_predicates be" "wf_rid_set ms'"
    "rs_members ms \<subseteq> rs_members ms'" "quads_in k M' q = (if \<exists>r \<in> R. row_matches r q then 0 else quads_in k M q)"
    "quads_in False M' q \<noteq> quads_in False M q \<Longrightarrow> fst q \<noteq> FS_RID_NULL \<Longrightarrow> fst q \<in> rs_members ms'"
  using assms unfolding deleted_def by blast+

lemma deleted_trans:
  assumes "deleted R be M ms be1 M1 ms1" "deleted R' be1 M1 ms1 be2 M2 ms2"
  shows "deleted (R \<union> R') be M ms be2 M2 ms2"
proof -
  note a = deletedD [OF assms(1)] and b = deletedD [OF assms(2)]
  have "quads_in k M2 q = (if \<exists>r \<in> R \<union> R'. row_matches r q then 0 else quads_in k M q)" for k q
    unfolding b(7) a(7) by auto
  moreover have "fst q \<in> rs_members ms2" if "quads_in False M2 q \<noteq> quads_in False M q" "fst q \<noteq> FS_RID_NULL" for q
  proof (cases "quads_in False M1 q = quads_in False M q")
    case True
    then show ?thesis using b(8) that by simp
  next
    case False
    then show ?thesis using a(8) that(2) b(6) by blast
  qed
  moreover have "same_rest be2 be" "be_preds be2 = be_preds be" "be_predicates be2 = be_predicates be" "rs_members ms \<subseteq> rs_members ms2"
    using same_rest_trans [OF b(2) a(2)] a(3,4,6) b(3,4,6) by auto
  ultimately show ?thesis using b(1,5) unfolding deleted_def by blast
qed

lemma remove_row_ok:
  assumes h: "be_holds be M" and p: "p \<in> set (be_preds be)" and ms: "wf_rid_set ms" and n: "s \<noteq> FS_RID_NULL" "obj \<noteq> FS_RID_NULL"
    and m: "m \<noteq> FS_RID_NULL \<Longrightarrow> m \<in> rs_members ms"
  shows "\<exists>be1 ms1 be2 ms2 M2 r1 r2. be_ptree_remove be (Some (p, False)) s (m, obj) (Some ms) = Some (r1, be1, Some ms1)
    \<and> be_ptree_remove be1 (Some (p, True)) obj (m, s) (Some ms1) = Some (r2, be2, Some ms2) \<and> deleted {(m, s, p, obj)} be M ms be2 M2 ms2"
proof -
  let ?g = "filter (pair_matches (m, obj)) (pairs_of (M (p, False)) s)"
  let ?M1 = "M((p, False) := drop_pairs (M (p, False)) s (m, obj))"
  obtain be1 pt where b1: "be_ptree_remove be (Some (p, False)) s (m, obj) (Some ms)
      = Some (if M (p, False) s = None \<or> ?g \<noteq> [] then 0 else 1, be1, models_after (m, obj) (Some ms) ?g)"
    "be1 = tree_back be (p, False) pt" "be_holds be1 ?M1"
    using be_remove_ok [OF h p, of False s "(m, obj)" "Some ms"] by blast
  obtain ms1 where m1: "models_after (m, obj) (Some ms) ?g = Some ms1" "wf_rid_set ms1"
    "rs_members ms1 = rs_members ms \<union> (if m = FS_RID_NULL then fst ` set ?g - {FS_RID_NULL} else {})"
    using models_after_ok [OF ms, of "(m, obj)" ?g] by auto
  let ?g2 = "filter (pair_matches (m, s)) (pairs_of (?M1 (p, True)) obj)"
  let ?M2 = "?M1((p, True) := drop_pairs (?M1 (p, True)) obj (m, s))"
  have p1: "p \<in> set (be_preds be1)" using p by (simp add: b1(2))
  obtain be2 pt2 where b2: "be_ptree_remove be1 (Some (p, True)) obj (m, s) (Some ms1)
      = Some (if ?M1 (p, True) obj = None \<or> ?g2 \<noteq> [] then 0 else 1, be2, models_after (m, s) (Some ms1) ?g2)"
    "be2 = tree_back be1 (p, True) pt2" "be_holds be2 ?M2"
    using be_remove_ok [OF b1(3) p1, of True obj "(m, s)" "Some ms1"] by blast
  obtain ms2 where m2: "models_after (m, s) (Some ms1) ?g2 = Some ms2" "wf_rid_set ms2" "rs_members ms1 \<subseteq> rs_members ms2"
    using models_after_ok [OF m1(2), of "(m, s)" ?g2] by auto
  have q1: "quads_in False ?M1 q = (if row_matches (m, s, p, obj) q then 0 else quads_in False M q)" "quads_in True ?M1 q = quads_in True M q" for q
    using quads_in_drop [OF n, of False M p m q] quads_in_add(2) [of False M p _ q] by simp_all
  have q2: "quads_in True ?M2 q = (if row_matches (m, s, p, obj) q then 0 else quads_in True ?M1 q)" "quads_in False ?M2 q = quads_in False ?M1 q" for q
    using quads_in_drop [OF n, of True ?M1 p m q] quads_in_add(2) [of True ?M1 p _ q] by simp_all
  have q: "quads_in k ?M2 q = (if row_matches (m, s, p, obj) q then 0 else quads_in k M q)" for k q
    by (cases k) (simp_all only: q1 q2 if_cancel)
  have lost: "fst q \<in> rs_members ms2" if "quads_in False ?M2 q \<noteq> quads_in False M q" "fst q \<noteq> FS_RID_NULL" for q
  proof -
    obtain m' s' p' o' where qq: "q = (m', s', p', o')" by (cases q)
    from that(1) have "row_matches (m, s, p, obj) q" "quads_in False M q \<noteq> 0" unfolding q by (auto split: if_split_asm)
    then have e: "m = FS_RID_NULL \<or> m = m'" "s' = s" "p' = p" "o' = obj" "(m', obj) \<in> set (pairs_of (M (p, False)) s)"
      unfolding qq by (auto simp: row_matches_def quads_in_def)
    have "m' \<in> rs_members ms1"
    proof (cases "m = FS_RID_NULL")
      case True
      then have "m' \<in> fst ` set ?g" using e(5) by (force simp: pair_matches_def)
      then show ?thesis using m1(3) True that(2) qq by simp
    next
      case False
      then show ?thesis using e(1) m m1(3) by auto
    qed
    then show ?thesis using m2(3) qq by auto
  qed
  have "rs_members ms \<subseteq> rs_members ms2" using m1(3) m2(3) by auto
  moreover have "same_rest be2 be" using same_rest_trans [of be2 be1 be] by (simp add: b1(2) b2(2))
  ultimately have "deleted {(m, s, p, obj)} be M ms be2 ?M2 ms2"
    unfolding deleted_def using b2(3) m2(2) q lost by (simp add: b1(2) b2(2) del: fun_upd_apply)
  then show ?thesis using b1(1) b2(1) m1(1) m2(1) by auto
qed

section \<open>A request\<close>

text \<open>The rows of a request.\<close>

definition request :: "rid list \<Rightarrow> rid list \<Rightarrow> rid list \<Rightarrow> rid list \<Rightarrow> bool" where
  "request mv sv pv ov \<longleftrightarrow> length mv = length pv \<and> length sv = length pv \<and> length ov = length pv
     \<and> FS_RID_NULL \<notin> set sv \<and> FS_RID_NULL \<notin> set ov"

definition rows_of :: "rid list \<Rightarrow> rid list \<Rightarrow> rid list \<Rightarrow> rid list \<Rightarrow> nat set \<Rightarrow> rid set \<Rightarrow> quad set" where
  "rows_of mv sv pv ov I P = {(mv ! i, sv ! i, pv ! i, ov ! i) | i. i \<in> I \<and> pv ! i \<in> P}"

lemma delete_rows_ok:
  assumes "be_holds be M" "pred \<in> set (be_preds be)" "wf_rid_set ms" "request mv sv pv ov" "set js \<subseteq> {..<length pv}"
    "set mv - {FS_RID_NULL} \<subseteq> rs_members ms"
  shows "\<exists>be' M' ms'. delete_rows mv sv pv ov pred (pred, False) (pred, True) js be (Some ms) = Some (be', Some ms')
    \<and> deleted (rows_of mv sv pv ov (set js) {pred}) be M ms be' M' ms'"
  using assms
proof (induction js arbitrary: be M ms)
  case Nil
  then show ?case using deleted_refl [OF Nil.prems(1,3)] by (auto simp: rows_of_def)
next
  case (Cons i js)
  have i: "i < length pv" "i < length mv" "i < length sv" "i < length ov" using Cons.prems(4,5) by (auto simp: request_def)
  show ?case
  proof (cases "pv ! i = pred")
    case False
    then have "rows_of mv sv pv ov (set (i # js)) {pred} = rows_of mv sv pv ov (set js) {pred}" by (auto simp: rows_of_def)
    then show ?thesis using Cons.IH [OF Cons.prems(1-4) _ Cons.prems(6)] Cons.prems(5) False i by simp
  next
    case True
    have n: "sv ! i \<noteq> FS_RID_NULL" "ov ! i \<noteq> FS_RID_NULL" using Cons.prems(4) i unfolding request_def by (metis nth_mem)+
    have m: "mv ! i \<noteq> FS_RID_NULL \<Longrightarrow> mv ! i \<in> rs_members ms" using Cons.prems(6) nth_mem [OF i(2)] by blast
    obtain be1 ms1 be2 ms2 M2 r1 r2 where b: "be_ptree_remove be (Some (pred, False)) (sv ! i) (mv ! i, ov ! i) (Some ms) = Some (r1, be1, Some ms1)"
      "be_ptree_remove be1 (Some (pred, True)) (ov ! i) (mv ! i, sv ! i) (Some ms1) = Some (r2, be2, Some ms2)"
      "deleted {(mv ! i, sv ! i, pred, ov ! i)} be M ms be2 M2 ms2"
      using remove_row_ok [OF Cons.prems(1-3) n m] by blast
    note d = deletedD [OF b(3)]
    obtain be' M' ms' where r: "delete_rows mv sv pv ov pred (pred, False) (pred, True) js be2 (Some ms2) = Some (be', Some ms')"
      "deleted (rows_of mv sv pv ov (set js) {pred}) be2 M2 ms2 be' M' ms'"
    proof -
      have "pred \<in> set (be_preds be2)" "set js \<subseteq> {..<length pv}" "set mv - {FS_RID_NULL} \<subseteq> rs_members ms2"
        using Cons.prems(2,5,6) d(3,6) by auto
      from Cons.IH [OF d(1) this(1) d(5) Cons.prems(4) this(2,3)] show ?thesis using that by blast
    qed
    have "rows_of mv sv pv ov (set (i # js)) {pred} = {(mv ! i, sv ! i, pred, ov ! i)} \<union> rows_of mv sv pv ov (set js) {pred}"
      using True by (auto simp: rows_of_def)
    then show ?thesis using r(1) b(1,2) True i deleted_trans [OF b(3) r(2)] by auto
  qed
qed

lemma deleted_open:
  "deleted R be1 M ms be' M' ms' \<Longrightarrow> same_store be1 be \<Longrightarrow> deleted R be M ms be' M' ms'"
  unfolding deleted_def using same_rest_trans [OF _ same_store_rest] by (auto simp: same_store_def)

lemma no_pred_quads: "be_holds be M \<Longrightarrow> p \<notin> set (be_preds be) \<Longrightarrow> quads_in k M (m, s, p, obj) = 0"
  by (simp add: quads_in_def be_holds_none)

lemma delete_preds_ok:
  assumes "be_holds be M" "wf_rid_set ms" "request mv sv pv ov" "set mv - {FS_RID_NULL} \<subseteq> rs_members ms"
  shows "\<exists>be' M' ms'. delete_preds mv sv pv ov preds be (Some ms) = Some (be', Some ms')
    \<and> deleted (rows_of mv sv pv ov {..<length pv} (set preds)) be M ms be' M' ms'"
  using assms
proof (induction preds arbitrary: be M ms)
  case Nil
  then show ?case using deleted_refl [OF Nil.prems(1,2)] by (auto simp: rows_of_def)
next
  case (Cons p preds)
  obtain be1 where b1: "fs_backend_get_ptree be p False = Some (if p \<in> set (be_preds be) then Some (p, False) else None, be1)"
    "be_holds be1 M" "same_store be1 be" using get_ptree_holds [OF Cons.prems(1), of p False] by blast
  have p1: "be_preds be1 = be_preds be" using b1(3) by (simp add: same_store_def)
  obtain be2 where b2: "fs_backend_get_ptree be1 p True = Some (if p \<in> set (be_preds be) then Some (p, True) else None, be2)"
    "be_holds be2 M" "same_store be2 be" using get_ptree_holds [OF b1(2), of p True] same_store_trans [OF _ b1(3)] p1 by auto
  have p2: "be_preds be2 = be_preds be" using b2(3) by (simp add: same_store_def)
  let ?rows = "\<lambda>P. rows_of mv sv pv ov {..<length pv} P"
  have split: "?rows (set (p # preds)) = ?rows {p} \<union> ?rows (set preds)" by (auto simp: rows_of_def)
  show ?case
  proof (cases "p \<in> set (be_preds be)")
    case True
    obtain be3 M3 ms3 where b3: "delete_rows mv sv pv ov p (p, False) (p, True) [0..<length pv] be2 (Some ms) = Some (be3, Some ms3)"
      "deleted (?rows {p}) be2 M ms be3 M3 ms3"
      using delete_rows_ok [OF b2(2) _ Cons.prems(2,3) _ Cons.prems(4), of p "[0..<length pv]"] True p2 by (auto simp: atLeast0LessThan)
    note d = deletedD [OF b3(2)]
    obtain be' M' ms' where r: "delete_preds mv sv pv ov preds be3 (Some ms3) = Some (be', Some ms')"
      "deleted (?rows (set preds)) be3 M3 ms3 be' M' ms'"
      using Cons.IH [OF d(1,5) Cons.prems(3)] Cons.prems(4) d(6) by blast
    show ?thesis unfolding split using True b1(1) b2(1) b3(1) r(1) deleted_open [OF deleted_trans [OF b3(2) r(2)] b2(3)] by auto
  next
    case False
    obtain be' M' ms' where r: "delete_preds mv sv pv ov preds be2 (Some ms) = Some (be', Some ms')"
      "deleted (?rows (set preds)) be2 M ms be' M' ms'"
      using Cons.IH [OF b2(2) Cons.prems(2-4)] by blast
    have "deleted (?rows {p} \<union> ?rows (set preds)) be2 M ms be' M' ms'"
    proof -
      have z: "quads_in k M q = 0" if "\<exists>r \<in> ?rows {p}. row_matches r q" for k q
        using that no_pred_quads [OF Cons.prems(1) False] by (cases q) (auto simp: rows_of_def row_matches_def)
      have "quads_in k M' q = (if \<exists>r \<in> ?rows {p} \<union> ?rows (set preds). row_matches r q then 0 else quads_in k M q)" for k q
        using deletedD(7) [OF r(2), of k q] z [of q k] by auto
      then show ?thesis using r(2) unfolding deleted_def by blast
    qed
    from deleted_open [OF this b2(3)] show ?thesis unfolding split using False b1(1) b2(1) r(1) by auto
  qed
qed

section \<open>The model index\<close>

text \<open>
  The chain of a graph is at the node its hash entry names.  It has every triple of the graph, and
  unless it is marked as a superset it has no other; a graph without an entry has no triples.
\<close>

definition models_rep :: "backend \<Rightarrow> (rid \<Rightarrow> nat) \<Rightarrow> (rid \<rightharpoonup> u8 \<times> triple list list) \<Rightarrow> bool" where
  "models_rep be h C \<longleftrightarrow> tb_holds (be_model_list be) h C
     \<and> (\<forall>m. fs_mhash_get (be_models be) m > 1 \<longrightarrow> C m \<noteq> None \<and> h m = fs_mhash_get (be_models be) m)"

definition models_cover :: "backend \<Rightarrow> (tree_name \<Rightarrow> rid \<rightharpoonup> (rid \<times> rid) list) \<Rightarrow> (rid \<rightharpoonup> u8 \<times> triple list list) \<Rightarrow> bool" where
  "models_cover be M C \<longleftrightarrow> (\<forall>m. m \<noteq> FS_RID_NULL \<longrightarrow>
     (fs_mhash_get (be_models be) m = 0 \<longrightarrow> (\<forall>s p obj. quads_in False M (m, s, p, obj) = 0))
     \<and> (fs_mhash_get (be_models be) m > 1 \<longrightarrow> (\<forall>fl xss. C m = Some (fl, xss) \<longrightarrow>
          (\<forall>s p obj. quads_in False M (m, s, p, obj) \<noteq> 0 \<longrightarrow> (s, p, obj) \<in> set (concat xss))
          \<and> (fl AND FS_TBCHAIN_SUPERSET = 0 \<longrightarrow> (\<forall>s p obj. (s, p, obj) \<in> set (concat xss) \<longrightarrow> s = FS_RID_GONE \<or> quads_in False M (m, s, p, obj) \<noteq> 0)))))"

text \<open>Both kinds of trees hold the same quads, and the model index covers them.\<close>

definition be_sound :: "backend \<Rightarrow> (tree_name \<Rightarrow> rid \<rightharpoonup> (rid \<times> rid) list) \<Rightarrow> (rid \<Rightarrow> nat) \<Rightarrow> (rid \<rightharpoonup> u8 \<times> triple list list) \<Rightarrow> bool" where
  "be_sound be M h C \<longleftrightarrow> be_holds be M \<and> preds_ok be \<and> (\<forall>q. quads_in False M q = quads_in True M q) \<and> models_rep be h C \<and> models_cover be M C"

definition flagged_as :: "u8 \<times> triple list list \<Rightarrow> u8 \<times> triple list list" where
  "flagged_as c = (fst c OR FS_TBCHAIN_SUPERSET, snd c)"

lemma flag_models_ok:
  assumes "models_rep be h C"
  shows "\<exists>bc C'. flag_models ms be = Some (be\<lparr>be_model_list := bc\<rparr>) \<and> models_rep (be\<lparr>be_model_list := bc\<rparr>) h C'
    \<and> (\<forall>m. C' m = (if m \<in> set ms \<and> fs_mhash_get (be_models be) m > 1 then map_option flagged_as (C m) else C m))"
  using assms
proof (induction ms arbitrary: be C)
  case Nil
  then show ?case by (intro exI [of _ "be_model_list be"] exI [of _ C]) simp
next
  case (Cons m ms)
  show ?case
  proof (cases "fs_mhash_get (be_models be) m > 1")
    case False
    then show ?thesis using Cons.IH [OF Cons.prems] by (auto split: if_split_asm)
  next
    case True
    obtain fl xss where c: "C m = Some (fl, xss)" "h m = fs_mhash_get (be_models be) m" "tb_holds (be_model_list be) h C"
      using Cons.prems True unfolding models_rep_def by fastforce
    obtain bc where b: "fs_tbchain_set_bit (be_model_list be) (h m) FS_TBCHAIN_SUPERSET = Some bc"
      "tb_holds bc h (C(m \<mapsto> (fl OR FS_TBCHAIN_SUPERSET, xss)))"
      using tbchain_flags_refine [OF c(3,1), of FS_TBCHAIN_SUPERSET] by blast
    let ?be = "be\<lparr>be_model_list := bc\<rparr>" and ?C = "C(m \<mapsto> (fl OR FS_TBCHAIN_SUPERSET, xss))"
    have "models_rep ?be h ?C" using b(2) Cons.prems unfolding models_rep_def by auto
    from Cons.IH [OF this] obtain bc' C' where r: "flag_models ms ?be = Some (be\<lparr>be_model_list := bc'\<rparr>)" "models_rep (be\<lparr>be_model_list := bc'\<rparr>) h C'"
      "\<forall>n. C' n = (if n \<in> set ms \<and> fs_mhash_get (be_models be) n > 1 then map_option flagged_as (?C n) else ?C n)"
      by auto
    have "C' n = (if n \<in> set (m # ms) \<and> fs_mhash_get (be_models be) n > 1 then map_option flagged_as (C n) else C n)" for n
      using r(3) c(1) True by (auto simp: flagged_as_def or.assoc)
    moreover have "flag_models (m # ms) be = Some (be\<lparr>be_model_list := bc'\<rparr>)" using r(1) b(1) c(2) True by simp
    ultimately show ?thesis using r(2) by blast
  qed
qed

lemma delete_quads_ok:
  assumes h: "be_sound be M nd C" and rq: "request mv sv pv ov"
  defines "R \<equiv> {(mv ! i, sv ! i, pv ! i, ov ! i) | i. i < length pv \<and> pv ! i \<noteq> FS_RID_NULL}"
  shows "\<exists>be' M' C'. fs_delete_quads mv sv pv ov be = Some (0, be') \<and> be_sound be' M' nd C'
    \<and> (\<forall>k q. quads_in k M' q = (if \<exists>r \<in> R. row_matches r q then 0 else quads_in k M q))
    \<and> be_models be' = be_models be \<and> be_preds be' = be_preds be"
proof -
  have bh: "be_holds be M" "preds_ok be" "\<And>q. quads_in False M q = quads_in True M q" "models_rep be nd C" "models_cover be M C"
    using h unfolding be_sound_def by blast+
  let ?P = "foldl fs_rid_set_add fs_rid_set_new pv" and ?ms = "foldl fs_rid_set_add fs_rid_set_new (filter (\<lambda>m. m \<noteq> FS_RID_NULL) mv)"
  have P: "wf_rid_set ?P" "rs_members ?P = set pv - {FS_RID_NULL}"
    using rs.foldl_add [OF rs.invar_empty, of pv] by (simp_all add: rs.members_empty)
  have ms: "wf_rid_set ?ms" "set mv - {FS_RID_NULL} \<subseteq> rs_members ?ms"
    using rs.foldl_add [OF rs.invar_empty, of "filter (\<lambda>m. m \<noteq> FS_RID_NULL) mv"] by (auto simp: rs.members_empty)
  obtain be1 M1 ms1 where d1: "delete_preds mv sv pv ov (set_vals ?P) be (Some ?ms) = Some (be1, Some ms1)"
    "deleted (rows_of mv sv pv ov {..<length pv} (set (set_vals ?P))) be M ?ms be1 M1 ms1"
    using delete_preds_ok [OF bh(1) ms(1) rq ms(2)] by blast
  have R: "rows_of mv sv pv ov {..<length pv} (set (set_vals ?P)) = R"
    using rid_set_scan_ok(2) [OF P(1)] P(2) unfolding rows_of_def R_def by auto
  note d = deletedD [OF d1(2) [unfolded R]]
  have mm: "be_models be1 = be_models be" "be_model_list be1 = be_model_list be" using d(2) by (simp_all add: same_rest_def)
  have rep1: "models_rep be1 nd C" using bh(4) by (simp add: models_rep_def mm)
  obtain bc C' where f: "flag_models (set_vals ms1) be1 = Some (be1\<lparr>be_model_list := bc\<rparr>)" "models_rep (be1\<lparr>be_model_list := bc\<rparr>) nd C'"
    "\<forall>m. C' m = (if m \<in> set (set_vals ms1) \<and> fs_mhash_get (be_models be1) m > 1 then map_option flagged_as (C m) else C m)"
    using flag_models_ok [OF rep1] by blast
  let ?be = "be1\<lparr>be_model_list := bc\<rparr>"
  have run: "fs_delete_quads mv sv pv ov be = Some (0, ?be)"
    using d1(1) f(1) rid_set_scan_ok(1) [OF P(1)] rid_set_scan_ok(1) [OF d(5)] by (simp add: fs_delete_quads_def Let_def)
  have le: "quads_in False M1 q \<noteq> 0 \<Longrightarrow> quads_in False M q \<noteq> 0" for q unfolding d(7) by (simp split: if_split_asm)
  have cov: "models_cover ?be M1 C'"
    unfolding models_cover_def
  proof (intro allI impI conjI)
    fix m s p obj assume "fs_mhash_get (be_models ?be) m = 0" "m \<noteq> FS_RID_NULL"
    then have "quads_in False M (m, s, p, obj) = 0" using bh(5) mm unfolding models_cover_def by auto
    then show "quads_in False M1 (m, s, p, obj) = 0" using le by blast
  next
    fix m fl xss s p obj assume m: "m \<noteq> FS_RID_NULL" "fs_mhash_get (be_models ?be) m > 1" "C' m = Some (fl, xss)" and q: "quads_in False M1 (m, s, p, obj) \<noteq> 0"
    obtain fl0 where "C m = Some (fl0, xss)" using m(3) f(3) by (auto simp: flagged_as_def split: if_split_asm)
    then show "(s, p, obj) \<in> set (concat xss)" using bh(5) m(1,2) le [OF q] mm unfolding models_cover_def by auto
  next
    fix m fl xss s p obj assume m: "m \<noteq> FS_RID_NULL" "fs_mhash_get (be_models ?be) m > 1" "C' m = Some (fl, xss)"
      and fl: "fl AND FS_TBCHAIN_SUPERSET = 0" and t: "(s, p, obj) \<in> set (concat xss)"
    have "(x OR y) AND y = y" for x y :: u8 by (rule bit_eqI) (auto simp: bit_simps)
    then have nf: "(x OR FS_TBCHAIN_SUPERSET) AND FS_TBCHAIN_SUPERSET \<noteq> 0" for x :: u8 by (simp add: FS_TBCHAIN_SUPERSET_def)
    have ns: "m \<notin> set (set_vals ms1)" and Cm: "C m = Some (fl, xss)"
      using m f(3) fl nf by (auto simp: flagged_as_def split: if_split_asm)
    then have "quads_in False M1 (m, s, p, obj) = quads_in False M (m, s, p, obj)"
      using d(8) [of "(m, s, p, obj)"] m(1) rid_set_scan_ok(2) [OF d(5)] by auto
    then show "s = FS_RID_GONE \<or> quads_in False M1 (m, s, p, obj) \<noteq> 0"
      using bh(5) m(1,2) Cm fl t mm unfolding models_cover_def by auto
  qed
  have eq: "quads_in False M1 q = quads_in True M1 q" for q unfolding d(7) bh(3) ..
  have "be_holds ?be M1" using d(1) by (simp add: be_holds_def be_opens_def keep_flags_def dir_ok_def be_preds_def ring_ok_def ring_queue_def)
  moreover have "preds_ok ?be" using bh(2) d(3,4) by (simp add: preds_ok_def be_preds_def)
  ultimately have "be_sound ?be M1 nd C'" using eq f(2) cov unfolding be_sound_def by blast
  moreover have "be_models ?be = be_models be" "be_preds ?be = be_preds be" using mm d(3) by (simp_all add: be_preds_def)
  ultimately show ?thesis using run d(7) by blast
qed

section \<open>Deleting graphs from the trees\<close>

definition pred_of :: "quad \<Rightarrow> rid" where
  "pred_of q = fst (snd (snd q))"

lemma purge_pairs: "(case purge pat (m k) of None \<Rightarrow> [] | Some ps \<Rightarrow> ps) = filter (\<lambda>p. \<not> pair_matches pat p) (pairs_of m k)"
  by (cases "m k") (simp_all add: purge_def Let_def)

lemma quads_in_purge:
  assumes "m \<noteq> FS_RID_NULL"
  shows "quads_in pass (M((p, pass) := (\<lambda>s. purge (m, FS_RID_NULL) (M (p, pass) s)))) q
     = (if fst q = m \<and> pred_of q = p then 0 else quads_in pass M q)"
proof -
  obtain m' s' p' o' where q: "q = (m', s', p', o')" by (cases q)
  show ?thesis using assms unfolding q
    by (cases pass) (auto simp: quads_in_def purge_pairs pair_matches_def pred_of_def)
qed

text \<open>What removing a set of graphs from the trees of some predicates leaves.\<close>

definition purged_models :: "rid set \<Rightarrow> rid set \<Rightarrow> backend \<Rightarrow> (tree_name \<Rightarrow> rid \<rightharpoonup> (rid \<times> rid) list) \<Rightarrow> backend \<Rightarrow> (tree_name \<Rightarrow> rid \<rightharpoonup> (rid \<times> rid) list) \<Rightarrow> bool" where
  "purged_models G P be M be' M' \<longleftrightarrow> be_holds be' M' \<and> same_rest be' be \<and> be_preds be' = be_preds be \<and> be_predicates be' = be_predicates be
     \<and> be_ptree_length be' = be_ptree_length be
     \<and> (\<forall>k q. quads_in k M' q = (if fst q \<in> G \<and> pred_of q \<in> P then 0 else quads_in k M q))"

lemma purged_modelsD:
  assumes "purged_models G P be M be' M'"
  shows "be_holds be' M'" "same_rest be' be" "be_preds be' = be_preds be" "be_predicates be' = be_predicates be"
    "be_ptree_length be' = be_ptree_length be" "quads_in k M' q = (if fst q \<in> G \<and> pred_of q \<in> P then 0 else quads_in k M q)"
  using assms unfolding purged_models_def by blast+

lemma purged_models_trans:
  assumes "purged_models G P be M be1 M1" "purged_models G' P' be1 M1 be2 M2" "G = G' \<or> P = P'"
  shows "purged_models (G \<union> G') (P \<union> P') be M be2 M2"
proof -
  have "quads_in k M2 q = (if fst q \<in> G \<union> G' \<and> pred_of q \<in> P \<union> P' then 0 else quads_in k M q)" for k q
    unfolding purged_modelsD(6) [OF assms(2)] purged_modelsD(6) [OF assms(1)] using assms(3) by auto
  then show ?thesis using purged_modelsD(1-5) [OF assms(1)] purged_modelsD(1-5) [OF assms(2)] same_rest_trans [of be2 be1 be]
    unfolding purged_models_def by simp
qed

lemma purged_models_open: "purged_models G P be1 M be' M' \<Longrightarrow> same_store be1 be \<Longrightarrow> purged_models G P be M be' M'"
  unfolding purged_models_def using same_rest_trans [OF _ same_store_rest] by (auto simp: same_store_def)

lemma purge_model_ok:
  assumes h: "be_holds be M" and p: "p \<in> set (be_preds be)" and m: "m \<noteq> FS_RID_NULL"
    and eq: "\<And>q. quads_in False M q = quads_in True M q"
  shows "\<exists>r be1 M1. be_ptree_remove_all be (Some (p, False)) (m, FS_RID_NULL) = Some (r, be1) \<and>
    (if r = 0 then \<exists>r' be2 M2. be_ptree_remove_all be1 (Some (p, True)) (m, FS_RID_NULL) = Some (r', be2) \<and> purged_models {m} {p} be M be2 M2
     else purged_models {m} {p} be M be1 M1)"
proof -
  let ?pat = "(m, FS_RID_NULL)" and ?M1 = "M((p, False) := (\<lambda>s. purge (m, FS_RID_NULL) (M (p, False) s)))"
  obtain be1 pt r where b1: "be_ptree_remove_all be (Some (p, False)) ?pat = Some (r, be1)" "be1 = tree_back be (p, False) pt" "be_holds be1 ?M1"
    "r \<noteq> 0 \<longrightarrow> (\<forall>s. filter (pair_matches ?pat) (pairs_of (M (p, False)) s) = [])"
    using be_remove_all_ok [OF h p, of False ?pat] by blast
  have q1: "quads_in False ?M1 q = (if fst q = m \<and> pred_of q = p then 0 else quads_in False M q)" "quads_in True ?M1 q = quads_in True M q" for q
    using quads_in_purge [OF m, of False M p q] quads_in_add(2) [of False M p _ q] by simp_all
  have s1: "same_rest be1 be" "be_preds be1 = be_preds be" "be_predicates be1 = be_predicates be" "be_ptree_length be1 = be_ptree_length be"
    by (simp_all add: b1(2))
  show ?thesis
  proof (cases "r = 0")
    case True
    have p1: "p \<in> set (be_preds be1)" using p s1 by simp
    let ?M2 = "?M1((p, True) := (\<lambda>s. purge ?pat (?M1 (p, True) s)))"
    obtain be2 pt2 r' where b2: "be_ptree_remove_all be1 (Some (p, True)) ?pat = Some (r', be2)" "be2 = tree_back be1 (p, True) pt2" "be_holds be2 ?M2"
      using be_remove_all_ok [OF b1(3) p1, of True ?pat] by blast
    have q2: "quads_in True ?M2 q = (if fst q = m \<and> pred_of q = p then 0 else quads_in True ?M1 q)" "quads_in False ?M2 q = quads_in False ?M1 q" for q
      using quads_in_purge [OF m, of True ?M1 p q] quads_in_add(2) [of True ?M1 p _ q] by simp_all
    have "quads_in k ?M2 q = (if fst q = m \<and> pred_of q = p then 0 else quads_in k M q)" for k q
      by (cases k) (simp_all only: q1 q2 if_cancel)
    then have "purged_models {m} {p} be M be2 ?M2"
      using b2(3) s1 same_rest_trans [of be2 be1 be] unfolding purged_models_def by (simp add: b2(2) del: fun_upd_apply)
    then show ?thesis using b1(1) b2(1) True by auto
  next
    case False
    then have none: "filter (pair_matches ?pat) (pairs_of (M (p, False)) s) = []" for s using b1(4) by blast
    have z: "quads_in False M q = 0" if q: "fst q = m" "pred_of q = p" for q
    proof -
      obtain s obj where qq: "q = (m, s, p, obj)" using q by (cases q) (auto simp: pred_of_def)
      have "(m, obj) \<notin> set (pairs_of (M (p, False)) s)" using none [of s] by (auto simp: filter_empty_conv pair_matches_def)
      then show ?thesis unfolding qq quads_in_def by (simp add: not_in_iff [symmetric])
    qed
    then have z': "quads_in k M q = 0" if "fst q = m" "pred_of q = p" for k q using eq [of q] z [OF that] by (cases k) simp_all
    have "quads_in k ?M1 q = (if fst q = m \<and> pred_of q = p then 0 else quads_in k M q)" for k q
      using z' [of q True] by (cases k) (simp_all only: q1, auto)
    then have "purged_models {m} {p} be M be1 ?M1" using b1(3) s1 unfolding purged_models_def by (simp del: fun_upd_apply)
    then show ?thesis using b1(1) False by auto
  qed
qed

lemma purge_models_ok:
  assumes "be_holds be M" "p \<in> set (be_preds be)" "FS_RID_NULL \<notin> set ms" "\<And>q. quads_in False M q = quads_in True M q"
  shows "\<exists>be' M'. purge_models (Some (p, False)) (Some (p, True)) ms be = Some be' \<and> purged_models (set ms) {p} be M be' M'"
  using assms
proof (induction ms arbitrary: be M)
  case Nil
  then show ?case by (auto simp: purged_models_def)
next
  case (Cons m ms)
  have m: "m \<noteq> FS_RID_NULL" using Cons.prems(3) by auto
  obtain be1 M1 where b: "purge_models (Some (p, False)) (Some (p, True)) (m # ms) be = purge_models (Some (p, False)) (Some (p, True)) ms be1"
    "purged_models {m} {p} be M be1 M1"
    using purge_model_ok [OF Cons.prems(1,2) m Cons.prems(4)] by (force split: if_split_asm)
  have e: "be_holds be1 M1" "p \<in> set (be_preds be1)" "quads_in False M1 q = quads_in True M1 q" for q
    using purged_modelsD(1,3) [OF b(2)] Cons.prems(2) unfolding purged_modelsD(6) [OF b(2)] Cons.prems(4) by auto
  have n: "FS_RID_NULL \<notin> set ms" using Cons.prems(3) by simp
  obtain be' M' where r: "purge_models (Some (p, False)) (Some (p, True)) ms be1 = Some be'" "purged_models (set ms) {p} be1 M1 be' M'"
    using Cons.IH [OF e(1,2) n e(3)] by blast
  then show ?case using b(1) purged_models_trans [OF b(2) r(2)] by auto
qed

lemma purge_trees_ok:
  assumes "be_holds be M" "set js \<subseteq> {..<be_ptree_length be}" "FS_RID_NULL \<notin> set todo" "\<And>q. quads_in False M q = quads_in True M q"
  shows "\<exists>be' M'. purge_trees todo js be = Some be' \<and> purged_models (set todo) ((!) (be_preds be) ` set js) be M be' M'"
  using assms
proof (induction js arbitrary: be M)
  case Nil
  then show ?case by (auto simp: purged_models_def)
next
  case (Cons i js)
  let ?p = "be_preds be ! i"
  have i: "i < be_ptree_length be" using Cons.prems(2) by simp
  obtain be1 where b1: "fs_backend_ptree_limited_open be i = Some be1" "be_holds be1 M" "same_store be1 be"
    "be_ptrees_priv be1 ! i = \<lparr>pr_pred = ?p, pr_ptree_s = True, pr_ptree_o = True\<rparr>"
    using limited_open_holds [OF Cons.prems(1) i] by blast
  have s1: "be_preds be1 = be_preds be" "be_ptree_length be1 = be_ptree_length be" using b1(3) by (simp_all add: same_store_def)
  have len: "i < length (be_ptrees_priv be1)" using be_opensD(7) [OF be_holds_opens [OF b1(2)]] i s1 by simp
  have p: "?p \<in> set (be_preds be1)" using i be_opensD(6) [OF be_holds_opens [OF Cons.prems(1)]] s1 by simp
  obtain be2 M2 where b2: "purge_models (Some (?p, False)) (Some (?p, True)) todo be1 = Some be2" "purged_models (set todo) {?p} be1 M be2 M2"
    using purge_models_ok [OF b1(2) p Cons.prems(3,4)] by blast
  have e: "be_holds be2 M2" "be_preds be2 = be_preds be" "be_ptree_length be2 = be_ptree_length be" "quads_in False M2 q = quads_in True M2 q" for q
    using purged_modelsD(1,3,5) [OF b2(2)] s1 unfolding purged_modelsD(6) [OF b2(2)] Cons.prems(4) by auto
  have js: "set js \<subseteq> {..<be_ptree_length be2}" using Cons.prems(2) e(3) by simp
  obtain be' M' where r: "purge_trees todo js be2 = Some be'" "purged_models (set todo) ((!) (be_preds be) ` set js) be2 M2 be' M'"
    using Cons.IH [OF e(1) js Cons.prems(3) e(4)] unfolding e(2) by blast
  have "purge_trees todo (i # js) be = Some be'" using b1(1,4) len b2(1) r(1) by (simp add: ref_tree_def)
  moreover have "purged_models (set todo) ((!) (be_preds be) ` set (i # js)) be M be' M'"
    using purged_models_open [OF purged_models_trans [OF b2(2) r(2)] b1(3)] by simp
  ultimately show ?case by blast
qed

section \<open>Deleting graphs from the model index\<close>

lemma get_scan_zero:
  assumes "mh_ok mh" "me_rid e = 0 \<longrightarrow> me_val e = 0"
  shows "get_scan mh 0 n entry e = 0"
  using assms(2)
proof (induction n arbitrary: entry e)
  case (Suc n)
  have "me_rid (mh_read mh entry e) = 0 \<longrightarrow> me_val (mh_read mh entry e) = 0"
    using Suc.prems mh_okD(7) [OF assms(1), of entry] by (auto simp: mh_read_def split: if_split_asm)
  then show ?case using Suc.IH by (simp add: Let_def)
qed simp

lemma get_zero: "mh_ok mh \<Longrightarrow> fs_mhash_get mh 0 = 0"
  by (simp add: fs_mhash_get_def fs_mhash_get_intl_def get_scan_zero)

abbreviation with_models :: "backend \<Rightarrow> mhash \<Rightarrow> tbchain \<Rightarrow> (rid \<rightharpoonup> tl_file) \<Rightarrow> backend" where
  "with_models be mh bc tls \<equiv> be\<lparr>be_models := mh, be_model_list := bc, be_tlists := tls\<rparr>"

lemma with_models_frame [simp]:
  "be_holds (with_models be mh bc tls) M = be_holds be M" "preds_ok (with_models be mh bc tls) = preds_ok be"
  "be_preds (with_models be mh bc tls) = be_preds be"
  by (simp_all add: be_holds_def be_opens_def keep_flags_def dir_ok_def be_preds_def ring_ok_def ring_queue_def preds_ok_def)

lemma empty_model_ok:
  assumes rep: "models_rep be h C" and ok: "mh_ok (be_models be)" and m: "m \<noteq> 0"
  shows "\<exists>mh bc tls C'. empty_models junk (m # ms) be = empty_models junk ms (with_models be mh bc tls)
    \<and> mh_ok mh \<and> models_rep (with_models be mh bc tls) h C' \<and> (\<forall>n. fs_mhash_get mh n = (if n = m then 0 else fs_mhash_get (be_models be) n))
    \<and> (\<forall>n. n \<noteq> m \<longrightarrow> C' n = C n)"
proof (cases "fs_mhash_get (be_models be) m = 0")
  case True
  then show ?thesis using rep ok
    by (intro exI [of _ "be_models be"] exI [of _ "be_model_list be"] exI [of _ "be_tlists be"] exI [of _ C])
      (simp add: fs_backend_model_set_usage_def)
next
  case False
  let ?v = "fs_mhash_get (be_models be) m"
  obtain mh where mh: "fs_mhash_put junk (be_models be) m 0 = Some (0, mh)" "mh_ok mh"
    "\<And>n. n \<noteq> 0 \<Longrightarrow> fs_mhash_get mh n = (if n = m then 0 else fs_mhash_get (be_models be) n)"
    using mhash_reset_ok [OF ok m False, of junk] by blast
  have g: "fs_mhash_get mh n = (if n = m then 0 else fs_mhash_get (be_models be) n)" for n
    using mh(3) [of n] get_zero [OF mh(2)] get_zero [OF ok] m by (cases "n = 0") auto
  obtain bc tls C' where b: "(if ?v = 1 then (case fs_tlist_open (be_tlists be m) [O_RDWR] of None \<Rightarrow> Some be
         | Some l \<Rightarrow> Some (be\<lparr>be_tlists := (be_tlists be)(m \<mapsto> fs_tlist_close (fs_tlist_truncate l))\<rparr>))
       else if ?v > 1 then do { (_, bc) \<leftarrow> fs_tbchain_remove_chain (be_model_list be) ?v; Some (be\<lparr>be_model_list := bc\<rparr>) } else Some be)
     = Some (be\<lparr>be_model_list := bc, be_tlists := tls\<rparr>)"
    "tb_holds bc h C'" "\<forall>n. n \<noteq> m \<longrightarrow> C' n = C n"
  proof (cases "?v = 1")
    case True
    have "tb_holds (be_model_list be) h C" using rep by (simp add: models_rep_def)
    then show ?thesis
      using True that [where bc = "be_model_list be" and tls = "be_tlists be" and C' = C]
        that [where bc = "be_model_list be" and C' = C
          and tls = "(be_tlists be)(m \<mapsto> fs_tlist_close (fs_tlist_truncate (the (fs_tlist_open (be_tlists be m) [O_RDWR]))))"]
      by (cases "fs_tlist_open (be_tlists be m) [O_RDWR]") simp_all
  next
    case n1: False
    then have v: "?v > 1" using False by simp
    then obtain fl xss where c: "C m = Some (fl, xss)" "h m = ?v" "tb_holds (be_model_list be) h C"
      using rep unfolding models_rep_def by fastforce
    obtain bc where "fs_tbchain_remove_chain (be_model_list be) (h m) = Some (0, bc)" "tb_holds bc h (C(m := None))"
      using tbchain_remove_ok [OF c(3,1)] by blast
    then show ?thesis using that [where bc = bc and tls = "be_tlists be" and C' = "C(m := None)"] c(2) v n1 by simp
  qed
  have su: "fs_backend_model_set_usage junk (be\<lparr>be_model_list := bc, be_tlists := tls\<rparr>) m 0 = Some (0, with_models be mh bc tls)"
    using False mh(1) by (simp add: fs_backend_model_set_usage_def)
  have "empty_models junk (m # ms) be = empty_models junk ms (with_models be mh bc tls)"
    unfolding empty_models.simps Let_def b(1) using su by simp
  moreover have "models_rep (with_models be mh bc tls) h C'"
    using rep b(2,3) g unfolding models_rep_def by (auto split: if_split_asm)
  ultimately show ?thesis using mh(2) g b(3) by (intro exI [of _ mh] exI [of _ bc] exI [of _ tls] exI [of _ C']) blast
qed

lemma empty_models_ok:
  assumes "models_rep be h C" "mh_ok (be_models be)" "0 \<notin> set ms"
  shows "\<exists>mh bc tls C'. empty_models junk ms be = Some (with_models be mh bc tls) \<and> mh_ok mh \<and> models_rep (with_models be mh bc tls) h C'
    \<and> (\<forall>n. fs_mhash_get mh n = (if n \<in> set ms then 0 else fs_mhash_get (be_models be) n)) \<and> (\<forall>n. n \<notin> set ms \<longrightarrow> C' n = C n)"
  using assms
proof (induction ms arbitrary: be C)
  case Nil
  then show ?case
    by (intro exI [of _ "be_models be"] exI [of _ "be_model_list be"] exI [of _ "be_tlists be"] exI [of _ C]) simp
next
  case (Cons m ms)
  have m: "m \<noteq> 0" "0 \<notin> set ms" using Cons.prems(3) by auto
  obtain mh bc tls C1 where b: "empty_models junk (m # ms) be = empty_models junk ms (with_models be mh bc tls)"
    "mh_ok mh" "models_rep (with_models be mh bc tls) h C1" "\<forall>n. fs_mhash_get mh n = (if n = m then 0 else fs_mhash_get (be_models be) n)"
    "\<forall>n. n \<noteq> m \<longrightarrow> C1 n = C n"
    using empty_model_ok [OF Cons.prems(1,2) m(1)] by blast
  obtain mh' bc' tls' C' where r: "empty_models junk ms (with_models be mh bc tls) = Some (with_models be mh' bc' tls')" "mh_ok mh'"
    "models_rep (with_models be mh' bc' tls') h C'" "\<forall>n. fs_mhash_get mh' n = (if n \<in> set ms then 0 else fs_mhash_get mh n)" "\<forall>n. n \<notin> set ms \<longrightarrow> C' n = C1 n"
    using Cons.IH [OF b(3) _ m(2)] b(2) by auto
  show ?case
    by (intro exI [of _ mh'] exI [of _ bc'] exI [of _ tls'] exI [of _ C'] conjI) (use b r in simp_all)
qed

lemma todo_models_set:
  assumes "FS_RID_NULL \<notin> set ms"
  shows "set (todo_models be ms todo) = set todo \<union> {m \<in> set ms. be_model_data be \<longrightarrow> fs_mhash_get (be_models be) m \<noteq> 0}"
  using assms by (induction ms arbitrary: todo) (auto simp: fs_backend_model_get_usage_def Let_def)

lemma delete_models_ok:
  assumes h: "be_sound be M nodes C" and ok: "mh_ok (be_models be)" and ms: "FS_RID_NULL \<notin> set mvec" "0 \<notin> set mvec"
    and n1: "length (todo_models be mvec []) \<noteq> 1"
  shows "\<exists>be' M' C'. fs_delete_models junk mjunk be mvec = Some (0, be') \<and> be_sound be' M' nodes C' \<and> mh_ok (be_models be')
    \<and> (\<forall>k q. quads_in k M' q = (if fst q \<in> set mvec then 0 else quads_in k M q))"
proof -
  define todo where "todo = todo_models be mvec []"
  have td: "set todo = {m \<in> set mvec. be_model_data be \<longrightarrow> fs_mhash_get (be_models be) m \<noteq> 0}"
    unfolding todo_def todo_models_set [OF ms(1)] by simp
  have tn: "FS_RID_NULL \<notin> set todo" "0 \<notin> set todo" using ms td by auto
  have bh: "be_holds be M" "preds_ok be" "\<And>q. quads_in False M q = quads_in True M q" "models_rep be nodes C" "models_cover be M C"
    using h unfolding be_sound_def by blast+
  obtain mh bc tls C' where e: "empty_models mjunk todo be = Some (with_models be mh bc tls)" "mh_ok mh" "models_rep (with_models be mh bc tls) nodes C'"
    "\<forall>n. fs_mhash_get mh n = (if n \<in> set todo then 0 else fs_mhash_get (be_models be) n)" "\<forall>n. n \<notin> set todo \<longrightarrow> C' n = C n"
    using empty_models_ok [OF bh(4) ok tn(2)] by blast
  let ?be1 = "with_models be mh bc tls"
  have h1: "be_holds ?be1 M" using bh(1) by simp
  define js where "js = [0..<be_ptree_length be]"
  have js: "set js \<subseteq> {..<be_ptree_length ?be1}" by (simp add: js_def atLeast0LessThan)
  obtain be2 M2 where p: "purge_trees todo js ?be1 = Some be2" "purged_models (set todo) ((!) (be_preds ?be1) ` set js) ?be1 M be2 M2"
    using purge_trees_ok [OF h1 js tn(1) bh(3)] by blast
  have all: "(!) (be_preds ?be1) ` set js = set (be_preds be)"
    unfolding js_def with_models_frame be_opensD(6) [OF be_holds_opens [OF bh(1)], symmetric]
    by (simp only: set_map [symmetric] map_nth)
  note d = purged_modelsD [OF p(2) [unfolded all]]
  have none: "quads_in k M q = 0" if "fst q \<in> set mvec" "fst q \<notin> set todo \<or> pred_of q \<notin> set (be_preds be)" for k q
  proof -
    obtain m s p obj where q: "q = (m, s, p, obj)" by (cases q)
    have "quads_in False M q = 0"
    proof (cases "p \<in> set (be_preds be)")
      case True
      then have "m \<notin> set todo" using that q by (simp add: pred_of_def)
      then have "fs_mhash_get (be_models be) m = 0" "m \<noteq> FS_RID_NULL" using that(1) td q ms(1) by auto
      then show ?thesis using bh(5) unfolding q models_cover_def by blast
    next
      case False
      then show ?thesis using no_pred_quads [OF bh(1)] q by simp
    qed
    then show ?thesis using bh(3) [of q] by (cases k) simp_all
  qed
  have q2: "quads_in k M2 q = (if fst q \<in> set mvec then 0 else quads_in k M q)" for k q
    using none [of q k] td unfolding d(6) by auto
  have mm: "be_models be2 = mh" "be_model_list be2 = bc" using d(2) by (simp_all add: same_rest_def)
  have "models_rep be2 nodes C'" using e(3) mm by (simp add: models_rep_def)
  moreover have "models_cover be2 M2 C'"
    unfolding models_cover_def mm
  proof (intro allI impI conjI)
    fix m s p obj assume "fs_mhash_get mh m = 0" "m \<noteq> FS_RID_NULL"
    then show "quads_in False M2 (m, s, p, obj) = 0" using e(4) td bh(5) unfolding q2 models_cover_def by (auto split: if_split_asm)
  next
    fix m fl xss s p obj assume m: "m \<noteq> FS_RID_NULL" "fs_mhash_get mh m > 1" "C' m = Some (fl, xss)" and q: "quads_in False M2 (m, s, p, obj) \<noteq> 0"
    then have "m \<notin> set todo" "fs_mhash_get (be_models be) m > 1" "quads_in False M (m, s, p, obj) \<noteq> 0"
      using e(4) unfolding q2 by (auto split: if_split_asm)
    then show "(s, p, obj) \<in> set (concat xss)" using m(1,3) e(5) bh(5) unfolding models_cover_def by auto
  next
    fix m fl xss s p obj assume m: "m \<noteq> FS_RID_NULL" "fs_mhash_get mh m > 1" "C' m = Some (fl, xss)"
      and fl: "fl AND FS_TBCHAIN_SUPERSET = 0" and t: "(s, p, obj) \<in> set (concat xss)"
    have "m \<notin> set todo" "fs_mhash_get (be_models be) m > 1" using e(4) m(2) by (auto split: if_split_asm)
    moreover from this have "m \<notin> set mvec" using td by auto
    ultimately show "s = FS_RID_GONE \<or> quads_in False M2 (m, s, p, obj) \<noteq> 0"
      using m(1,3) e(5) bh(5) fl t unfolding q2 models_cover_def by auto
  qed
  moreover have "preds_ok be2" using bh(2) d(3,4) by (simp add: preds_ok_def)
  moreover have "quads_in False M2 q = quads_in True M2 q" for q unfolding q2 bh(3) ..
  ultimately have "be_sound be2 M2 nodes C'" using d(1) unfolding be_sound_def by blast
  moreover have "fs_delete_models junk mjunk be mvec = Some (0, if todo = [] then ?be1 else be2)"
  proof -
    have "\<not> (todo \<noteq> [] \<and> hd todo = FS_RID_NULL)" using tn(1) hd_in_set [of todo] by metis
    then show ?thesis using n1 e(1) p(1) by (cases "todo = []") (simp_all add: fs_delete_models_def todo_def [symmetric] js_def Let_def)
  qed
  moreover have "be_sound ?be1 M nodes C'" "quads_in k M q = (if fst q \<in> set mvec then 0 else quads_in k M q)" if "todo = []" for k q
  proof -
    show "quads_in k M q = (if fst q \<in> set mvec then 0 else quads_in k M q)" using none [of q k] that by simp
    have "fs_mhash_get mh n = fs_mhash_get (be_models be) n" "C' = C" for n using e(4,5) that by auto
    then show "be_sound ?be1 M nodes C'" using bh e(3) unfolding be_sound_def models_cover_def by simp
  qed
  moreover have "mh_ok (be_models ?be1)" "mh_ok (be_models be2)" using e(2) mm(1) by simp_all
  ultimately show ?thesis using q2 by (cases "todo = []") (simp only: if_True if_False simp_thms, blast)+
qed

section \<open>Properties\<close>

text \<open>
  C2: Deleting quads by pattern keeps the segment sound: a pattern without a graph matches the quad in
  every graph; the matching quads disappear from the trees keyed by subject and from those keyed by
  object and no other quad does; and every graph that lost a quad has its chain marked as a superset, so that
  the chains still list all triples of their graph and the unmarked ones list no others.
\<close>

theorem delete_quads_sound:
  assumes "be_sound be M nodes C" "request mv sv pv ov"
  shows "\<exists>be' M' C'. fs_delete_quads mv sv pv ov be = Some (0, be') \<and> be_sound be' M' nodes C'
    \<and> (\<forall>k q. quads_in k M' q = (if \<exists>i < length pv. pv ! i \<noteq> FS_RID_NULL \<and> row_matches (mv ! i, sv ! i, pv ! i, ov ! i) q
         then 0 else quads_in k M q))
    \<and> be_preds be' = be_preds be"
proof -
  let ?R = "{(mv ! i, sv ! i, pv ! i, ov ! i) | i. i < length pv \<and> pv ! i \<noteq> FS_RID_NULL}"
  have e: "(\<exists>r \<in> ?R. row_matches r q) \<longleftrightarrow> (\<exists>i < length pv. pv ! i \<noteq> FS_RID_NULL \<and> row_matches (mv ! i, sv ! i, pv ! i, ov ! i) q)" for q
    by blast
  show ?thesis using delete_quads_ok [OF assms] unfolding e by blast
qed

lemma get_scan_empty: "mh_file mh = [] \<Longrightarrow> get_scan mh r n entry blank = 0"
  by (induction n arbitrary: entry) (simp_all add: mh_read_def Let_def)

lemma new_backend_sound: "be_sound (new_backend 2 md False [O_RDWR, O_CREAT]) (\<lambda>_. Map.empty) (\<lambda>_. 0) Map.empty"
proof -
  have f: "set [O_RDWR, O_CREAT] = {O_RDWR, O_CREAT}" "O_TRUNC \<notin> set [O_RDWR, O_CREAT]" by simp_all
  note h = new_backend_holds [OF f(1), of 2 md False] and e = new_backend_fields [OF f(2), of 2 md False]
  have "tb_holds (the fs_tbchain_create) (\<lambda>_ :: rid. 0) Map.empty"
  proof -
    obtain bc where c: "fs_tbchain_create = Some bc" "tb_rep bc (rev [2..<TBCHAIN_INIT_SIZE]) (Map.empty :: rid \<rightharpoonup> nat list)" using create_ok by blast
    have "tb_holds bc (\<lambda>_ :: rid. 0) Map.empty" by (rule tb_holdsI [OF c(2)]) (simp_all add: chains_of_def)
    then show ?thesis unfolding c(1) option.sel .
  qed
  moreover have "fs_mhash_get fs_mhash_create m = 0" for m
    by (simp add: fs_mhash_get_def fs_mhash_get_intl_def get_scan_empty fs_mhash_create_def)
  moreover have "quads_in k (\<lambda>_. Map.empty) q = 0" for k q by (simp add: quads_in_def split: prod.splits)
  ultimately show ?thesis using h(1,3) by (simp add: be_sound_def models_rep_def models_cover_def e)
qed

theorem delete_quads_sound_witness:
  "\<exists>be'. fs_delete_quads [FS_RID_NULL] [2] [3] [4] (new_backend 2 True False [O_RDWR, O_CREAT]) = Some (0, be') \<and> be_preds be' = []"
  using delete_quads_sound [OF new_backend_sound [of True], of "[FS_RID_NULL]" "[2]" "[3]" "[4]"] new_backend_holds(2) [of "[O_RDWR, O_CREAT]" 2 True False]
  by (auto simp: request_def FS_RID_NULL_def)



end
