(* ===== verification/Hash.thy ===== *)
theory Hash
  imports Rid
begin

text \<open>
  Resource identifiers from strings (\<open>common/hash.c\<close>).  URIs and literals are hashed with UMAC,
  which is an argument \<open>umac\<close> of the definitions (the message and the nonce give the 64-bit tag);
  blank node names carry their number in hexadecimal.  The skolem prefix is an argument too.  A
  \<open>NULL\<close> string is \<open>None\<close>.  The table of blank node names of an import and the initialisation
  and release of the hash context are left out.
\<close>

section \<open>Names\<close>

definition RDF_NAMESPACE :: string where "RDF_NAMESPACE = ''http://www.w3.org/1999/02/22-rdf-syntax-ns#''"
definition RDFS_NAMESPACE :: string where "RDFS_NAMESPACE = ''http://www.w3.org/2000/01/rdf-schema#''"
definition XSD_NAMESPACE :: string where "XSD_NAMESPACE = ''http://www.w3.org/2001/XMLSchema#''"
definition RDF_TYPE :: string where "RDF_TYPE = RDF_NAMESPACE @ ''type''"
definition RDFS_LABEL :: string where "RDFS_LABEL = RDFS_NAMESPACE @ ''label''"
definition XSD_STRING :: string where "XSD_STRING = XSD_NAMESPACE @ ''string''"
definition XSD_INTEGER :: string where "XSD_INTEGER = XSD_NAMESPACE @ ''integer''"
definition XSD_DECIMAL :: string where "XSD_DECIMAL = XSD_NAMESPACE @ ''decimal''"
definition XSD_FLOAT :: string where "XSD_FLOAT = XSD_NAMESPACE @ ''float''"
definition XSD_DOUBLE :: string where "XSD_DOUBLE = XSD_NAMESPACE @ ''double''"
definition XSD_DATE :: string where "XSD_DATE = XSD_NAMESPACE @ ''date''"
definition XSD_DATETIME :: string where "XSD_DATETIME = XSD_NAMESPACE @ ''dateTime''"
definition XSD_BOOLEAN :: string where "XSD_BOOLEAN = XSD_NAMESPACE @ ''boolean''"
definition FS_DEFAULT_GRAPH :: string where "FS_DEFAULT_GRAPH = ''default:''"
definition FS_SYSTEM_CONFIG :: string where "FS_SYSTEM_CONFIG = ''system:config''"
definition FS_TEXT :: string where "FS_TEXT = ''http://4store.org/fulltext#''"
definition FS_TEXT_INDEX :: string where "FS_TEXT_INDEX = FS_TEXT @ ''index''"
definition FS_TEXT_TOKEN :: string where "FS_TEXT_TOKEN = FS_TEXT @ ''token''"
definition FS_TEXT_DMETAPHONE :: string where "FS_TEXT_DMETAPHONE = FS_TEXT @ ''dmetaphone''"
definition FS_TEXT_STEM :: string where "FS_TEXT_STEM = FS_TEXT @ ''stem''"
definition FS_ACL :: string where "FS_ACL = ''http://4store.org/acl#''"
definition FS_ACL_ADMIN :: string where "FS_ACL_ADMIN = FS_ACL @ ''admin''"
definition FS_ACL_ONLY_ACCESS_BY :: string where "FS_ACL_ONLY_ACCESS_BY = FS_ACL @ ''onlyAccessBy''"
definition FS_ACL_DEFAULT_ADMIN :: string where "FS_ACL_DEFAULT_ADMIN = ''4sadminuser''"

section \<open>Numbers in hexadecimal\<close>

text \<open>\<open>strtoll\<close> with base 16: blanks, a sign, an optional \<open>0x\<close>, then digits; a value out of range
  is clamped.\<close>

definition hex_val :: "char \<Rightarrow> int option" where
  "hex_val c = (let n = of_char c in
     if 48 \<le> n \<and> n \<le> 57 then Some (n - 48)
     else if 97 \<le> n \<and> n \<le> 102 then Some (n - 87)
     else if 65 \<le> n \<and> n \<le> 70 then Some (n - 55)
     else None)"

fun hex_digits :: "string \<Rightarrow> int \<Rightarrow> int" where
  "hex_digits [] acc = acc"
| "hex_digits (c # cs) acc = (case hex_val c of None \<Rightarrow> acc | Some d \<Rightarrow> hex_digits cs (acc * 16 + d))"

definition skip_0x :: "string \<Rightarrow> string" where
  "skip_0x s = (case s of a # b # c # cs \<Rightarrow>
       if a = CHR ''0'' \<and> (b = CHR ''x'' \<or> b = CHR ''X'') \<and> hex_val c \<noteq> None then c # cs else s
     | _ \<Rightarrow> s)"

definition strtoll16 :: "string \<Rightarrow> int" where
  "strtoll16 s =
     (let s1 = dropWhile (\<lambda>c. c \<in> {CHR '' '', CHR 9, CHR 10, CHR 11, CHR 12, CHR 13}) s;
          (neg, s2) = (case s1 of c # cs \<Rightarrow> if c = CHR ''-'' then (True, cs) else if c = CHR ''+'' then (False, cs) else (False, s1)
                       | [] \<Rightarrow> (False, s1));
          v = hex_digits (skip_0x s2) 0
      in max (- 9223372036854775808) (min 9223372036854775807 (if neg then - v else v)))"

section \<open>Hashing\<close>

definition isalpha :: "char \<Rightarrow> bool" where
  "isalpha c = (let n = of_char c :: nat in 65 \<le> n \<and> n \<le> 90 \<or> 97 \<le> n \<and> n \<le> 122)"

text \<open>The size of the buffer that \<open>umac_wrapper\<close> copies the string and its terminator to.\<close>

definition umac_buffer_size :: "nat \<Rightarrow> nat" where
  "umac_buffer_size slen = (if slen < 1024 then 1024 else slen + 33 - (slen + 1) mod 32)"

definition umac_wrapper :: "(string \<Rightarrow> rid \<Rightarrow> rid) \<Rightarrow> string option \<Rightarrow> rid \<Rightarrow> rid" where
  "umac_wrapper umac str nonce_in = (case str of None \<Rightarrow> 0 | Some s \<Rightarrow> umac s nonce_in)"

text \<open>The branch that the three kinds of blank node names share.\<close>

definition bnode_rid :: "string \<Rightarrow> rid" where
  "bnode_rid s = (let bnode_id = word_of_int (strtoll16 s) in if bnode_id = 0 then FS_RID_GONE else FS_NUM_BNODE bnode_id)"

definition fs_hash_uri :: "(string \<Rightarrow> rid \<Rightarrow> rid) \<Rightarrow> string \<Rightarrow> string option \<Rightarrow> rid" where
  "fs_hash_uri umac prefix str =
     (case str of None \<Rightarrow> 0
      | Some s \<Rightarrow>
        if take 7 s = ''bnode:b'' then bnode_rid (drop 7 s)
        else if take 3 s = ''_:b'' then bnode_rid (drop 3 s)
        else if length prefix \<noteq> 0 \<and> take (length prefix) s = prefix then bnode_rid (drop (length prefix) s)
        else if s = [] \<or> \<not> isalpha (hd s) then FS_RID_GONE
        else umac_wrapper umac (Some s) 0 OR 0xC000000000000000)"

definition fs_hash_uri_ignore_bnode :: "(string \<Rightarrow> rid \<Rightarrow> rid) \<Rightarrow> string option \<Rightarrow> rid" where
  "fs_hash_uri_ignore_bnode umac str =
     (case str of None \<Rightarrow> 0 | Some s \<Rightarrow> umac_wrapper umac (Some s) 0 OR 0xC000000000000000)"

definition fs_hash_literal :: "(string \<Rightarrow> rid \<Rightarrow> rid) \<Rightarrow> string option \<Rightarrow> rid \<Rightarrow> rid" where
  "fs_hash_literal umac str attr =
     (case str of None \<Rightarrow> 0 | Some s \<Rightarrow> umac_wrapper umac (Some s) attr AND 0x7FFFFFFFFFFFFFFF)"

definition fs_rid_hash :: "rid \<Rightarrow> u32" where
  "fs_rid_hash r = ucast r"

definition fs_rid_equal :: "rid \<Rightarrow> rid \<Rightarrow> bool" where
  "fs_rid_equal a b \<longleftrightarrow> a = b"

section \<open>Predefined resources\<close>

record fs_globals =
  fc_default_graph :: rid
  fc_system_config :: rid
  fc_empty :: rid
  fc_lang_de :: rid
  fc_lang_en :: rid
  fc_lang_en_gb :: rid
  fc_lang_es :: rid
  fc_lang_fr :: rid
  fc_rdf_type :: rid
  fc_xsd_boolean :: rid
  fc_xsd_byte :: rid
  fc_xsd_datetime :: rid
  fc_xsd_date :: rid
  fc_xsd_decimal :: rid
  fc_xsd_double :: rid
  fc_xsd_float :: rid
  fc_xsd_int :: rid
  fc_xsd_integer :: rid
  fc_xsd_long :: rid
  fc_xsd_ninteger :: rid
  fc_xsd_nninteger :: rid
  fc_xsd_npinteger :: rid
  fc_xsd_pinteger :: rid
  fc_xsd_short :: rid
  fc_xsd_string :: rid
  fc_xsd_ubyte :: rid
  fc_xsd_uint :: rid
  fc_xsd_ulong :: rid
  fc_xsd_ushort :: rid
  fc_rdfs_label :: rid
  fc_fs_text_index :: rid
  fc_fs_token :: rid
  fc_fs_dmetaphone :: rid
  fc_fs_stem :: rid
  fc_fs_acl_admin :: rid
  fc_fs_acl_access_by :: rid
  fc_fs_acl_default_admin :: rid

text \<open>What \<open>fs_hash_init\<close> stores in \<open>fs_c\<close>.\<close>

definition fs_hash_init :: "(string \<Rightarrow> rid \<Rightarrow> rid) \<Rightarrow> string \<Rightarrow> fs_globals" where
  "fs_hash_init umac prefix = \<lparr>
     fc_default_graph = fs_hash_uri umac prefix (Some (FS_DEFAULT_GRAPH)),
     fc_system_config = fs_hash_uri umac prefix (Some (FS_SYSTEM_CONFIG)),
     fc_empty = 0,
     fc_lang_de = fs_hash_literal umac (Some ''de'') 0,
     fc_lang_en = fs_hash_literal umac (Some ''en'') 0,
     fc_lang_en_gb = fs_hash_literal umac (Some ''en-GB'') 0,
     fc_lang_es = fs_hash_literal umac (Some ''es'') 0,
     fc_lang_fr = fs_hash_literal umac (Some ''fr'') 0,
     fc_rdf_type = fs_hash_uri umac prefix (Some (RDF_NAMESPACE @ ''type'')),
     fc_xsd_boolean = fs_hash_uri umac prefix (Some (XSD_BOOLEAN)),
     fc_xsd_byte = fs_hash_uri umac prefix (Some (XSD_NAMESPACE @ ''byte'')),
     fc_xsd_datetime = fs_hash_uri umac prefix (Some (XSD_DATETIME)),
     fc_xsd_date = fs_hash_uri umac prefix (Some (XSD_DATE)),
     fc_xsd_decimal = fs_hash_uri umac prefix (Some (XSD_DECIMAL)),
     fc_xsd_double = fs_hash_uri umac prefix (Some (XSD_DOUBLE)),
     fc_xsd_float = fs_hash_uri umac prefix (Some (XSD_FLOAT)),
     fc_xsd_int = fs_hash_uri umac prefix (Some (XSD_NAMESPACE @ ''int'')),
     fc_xsd_integer = fs_hash_uri umac prefix (Some (XSD_INTEGER)),
     fc_xsd_long = fs_hash_uri umac prefix (Some (XSD_NAMESPACE @ ''long'')),
     fc_xsd_ninteger = fs_hash_uri umac prefix (Some (XSD_NAMESPACE @ ''negativeInteger'')),
     fc_xsd_nninteger = fs_hash_uri umac prefix (Some (XSD_NAMESPACE @ ''nonNegativeInteger'')),
     fc_xsd_npinteger = fs_hash_uri umac prefix (Some (XSD_NAMESPACE @ ''nonPositiveInteger'')),
     fc_xsd_pinteger = fs_hash_uri umac prefix (Some (XSD_NAMESPACE @ ''positiveInteger'')),
     fc_xsd_short = fs_hash_uri umac prefix (Some (XSD_NAMESPACE @ ''short'')),
     fc_xsd_string = fs_hash_uri umac prefix (Some (XSD_STRING)),
     fc_xsd_ubyte = fs_hash_uri umac prefix (Some (XSD_NAMESPACE @ ''unsignedByte'')),
     fc_xsd_uint = fs_hash_uri umac prefix (Some (XSD_NAMESPACE @ ''unsignedInt'')),
     fc_xsd_ulong = fs_hash_uri umac prefix (Some (XSD_NAMESPACE @ ''unsignedLong'')),
     fc_xsd_ushort = fs_hash_uri umac prefix (Some (XSD_NAMESPACE @ ''unsignedShort'')),
     fc_rdfs_label = fs_hash_uri umac prefix (Some (RDFS_LABEL)),
     fc_fs_text_index = fs_hash_uri umac prefix (Some (FS_TEXT_INDEX)),
     fc_fs_token = fs_hash_uri umac prefix (Some (FS_TEXT_TOKEN)),
     fc_fs_dmetaphone = fs_hash_uri umac prefix (Some (FS_TEXT_DMETAPHONE)),
     fc_fs_stem = fs_hash_uri umac prefix (Some (FS_TEXT_STEM)),
     fc_fs_acl_admin = fs_hash_uri umac prefix (Some (FS_ACL_ADMIN)),
     fc_fs_acl_access_by = fs_hash_uri umac prefix (Some (FS_ACL_ONLY_ACCESS_BY)),
     fc_fs_acl_default_admin = fs_hash_literal umac (Some FS_ACL_DEFAULT_ADMIN) 0\<rparr>"

definition fs_hash_predefined_literal :: "fs_globals \<Rightarrow> rid \<Rightarrow> string option" where
  "fs_hash_predefined_literal fs_c rid =
     (if rid = fc_lang_en fs_c then Some ''en''
      else if rid = fc_lang_fr fs_c then Some ''fr''
      else if rid = fc_lang_de fs_c then Some ''de''
      else if rid = fc_lang_es fs_c then Some ''es''
      else if rid = fc_lang_en_gb fs_c then Some ''en-GB''
      else if rid = fc_empty fs_c then Some ''''
      else None)"

definition fs_hash_predefined_uri :: "fs_globals \<Rightarrow> rid \<Rightarrow> string option" where
  "fs_hash_predefined_uri fs_c rid =
     (if rid = fc_xsd_string fs_c then Some (XSD_STRING)
      else if rid = fc_xsd_integer fs_c then Some (XSD_INTEGER)
      else if rid = fc_xsd_float fs_c then Some (XSD_FLOAT)
      else if rid = fc_xsd_double fs_c then Some (XSD_DOUBLE)
      else if rid = fc_xsd_decimal fs_c then Some (XSD_DECIMAL)
      else if rid = fc_xsd_boolean fs_c then Some (XSD_BOOLEAN)
      else if rid = fc_xsd_datetime fs_c then Some (XSD_DATETIME)
      else if rid = fc_xsd_date fs_c then Some (XSD_DATE)
      else if rid = fc_xsd_pinteger fs_c then Some (XSD_NAMESPACE @ ''positiveInteger'')
      else if rid = fc_xsd_ninteger fs_c then Some (XSD_NAMESPACE @ ''negativeInteger'')
      else if rid = fc_xsd_npinteger fs_c then Some (XSD_NAMESPACE @ ''nonPositiveInteger'')
      else if rid = fc_xsd_nninteger fs_c then Some (XSD_NAMESPACE @ ''nonNegativeInteger'')
      else if rid = fc_xsd_long fs_c then Some (XSD_NAMESPACE @ ''long'')
      else if rid = fc_xsd_int fs_c then Some (XSD_NAMESPACE @ ''int'')
      else if rid = fc_xsd_short fs_c then Some (XSD_NAMESPACE @ ''short'')
      else if rid = fc_xsd_byte fs_c then Some (XSD_NAMESPACE @ ''short'')
      else if rid = fc_xsd_ulong fs_c then Some (XSD_NAMESPACE @ ''unsignedLong'')
      else if rid = fc_xsd_uint fs_c then Some (XSD_NAMESPACE @ ''unsignedInt'')
      else if rid = fc_xsd_ushort fs_c then Some (XSD_NAMESPACE @ ''unsignedShort'')
      else if rid = fc_xsd_ubyte fs_c then Some (XSD_NAMESPACE @ ''unsignedByte'')
      else if rid = fc_rdf_type fs_c then Some (RDF_TYPE)
      else if rid = fc_default_graph fs_c then Some (FS_DEFAULT_GRAPH)
      else if rid = fc_system_config fs_c then Some (FS_SYSTEM_CONFIG)
      else if rid = fc_rdfs_label fs_c then Some (RDFS_LABEL)
      else None)"

text \<open>How the results name a blank node (\<open>frontend/results.c\<close>, \<open>fs_value_to_row\<close>): \<open>"_:b%llx"\<close>, or
  \<open>"%s%llx"\<close> with the skolem prefix in a build with \<open>FS_SKOLEMIZE\<close>.\<close>

definition hex_char :: "nat \<Rightarrow> char" where
  "hex_char d = char_of (if d < 10 then d + 48 else d + 87)"

fun hex_str :: "nat \<Rightarrow> string" where
  "hex_str n = (if n < 16 then [hex_char n] else hex_str (n div 16) @ [hex_char (n mod 16)])"

declare hex_str.simps [simp del]

definition bnode_name :: "bool \<Rightarrow> string \<Rightarrow> rid \<Rightarrow> string" where
  "bnode_name skolemize prefix r = (if skolemize then prefix else ''_:b'') @ hex_str (unat (FS_BNODE_NUM r))"

section \<open>Properties\<close>

lemma umac_buffer_fits: "slen + 1 \<le> umac_buffer_size slen"
proof -
  have "(slen + 1) mod 32 < 32" by simp
  then have "slen + 1 \<le> slen + 33 - (slen + 1) mod 32" by linarith
  then show ?thesis unfolding umac_buffer_size_def by (cases "slen < 1024") simp_all
qed

lemma or_top_uri: "FS_IS_URI (x OR 0xC000000000000000)"
  by (simp add: FS_IS_URI_bit bit_or_iff top_bits del: bit_numeral_word_iff)

lemma and_low_literal: "FS_IS_LITERAL (x AND 0x7FFFFFFFFFFFFFFF)"
proof -
  have "(0x7FFFFFFFFFFFFFFF :: rid) = mask 63" by (simp add: mask_eq_exp_minus_1)
  then have "\<not> bit (0x7FFFFFFFFFFFFFFF :: rid) 63" by (simp only: bit_mask_iff) simp
  then show ?thesis by (simp add: FS_IS_LITERAL_bit bit_and_iff del: bit_numeral_word_iff)
qed

text \<open>A string that one of the blank node branches takes.\<close>

definition is_bnode_name :: "string \<Rightarrow> string \<Rightarrow> bool" where
  "is_bnode_name prefix s \<longleftrightarrow> take 7 s = ''bnode:b'' \<or> take 3 s = ''_:b''
     \<or> length prefix \<noteq> 0 \<and> take (length prefix) s = prefix"

text \<open>
  Whatever the hash function is, the identifier of a string is of the kind that its class
  promises: a literal's identifier is a literal, a URI's a URI, a blank node name gives the null
  identifier or one outside the literals, and every other string the null identifier.
\<close>

theorem fs_hash_kinds:
  "FS_IS_LITERAL (fs_hash_literal umac str attr)
   \<and> FS_IS_URI (fs_hash_uri_ignore_bnode umac (Some s))
   \<and> (if is_bnode_name prefix s then fs_hash_uri umac prefix (Some s) = FS_RID_GONE \<or> FS_IS_URI_BN (fs_hash_uri umac prefix (Some s))
      else if s = [] then fs_hash_uri umac prefix (Some s) = FS_RID_GONE
      else if isalpha (hd s) then FS_IS_URI (fs_hash_uri umac prefix (Some s))
      else fs_hash_uri umac prefix (Some s) = FS_RID_GONE)"
proof (intro conjI)
  show "FS_IS_LITERAL (fs_hash_literal umac str attr)"
    by (cases str) (simp_all add: fs_hash_literal_def and_low_literal, simp add: FS_IS_LITERAL_def)
  show "FS_IS_URI (fs_hash_uri_ignore_bnode umac (Some s))" by (simp add: fs_hash_uri_ignore_bnode_def or_top_uri)
  have b: "bnode_rid t = FS_RID_GONE \<or> FS_IS_URI_BN (bnode_rid t)" for t
    by (simp add: bnode_rid_def Let_def FS_IS_URI_BN_bit FS_NUM_BNODE_bit)
  show "if is_bnode_name prefix s then fs_hash_uri umac prefix (Some s) = FS_RID_GONE \<or> FS_IS_URI_BN (fs_hash_uri umac prefix (Some s))
      else if s = [] then fs_hash_uri umac prefix (Some s) = FS_RID_GONE
      else if isalpha (hd s) then FS_IS_URI (fs_hash_uri umac prefix (Some s))
      else fs_hash_uri umac prefix (Some s) = FS_RID_GONE"
    using b or_top_uri by (auto simp: is_bnode_name_def fs_hash_uri_def)
qed

section \<open>Blank node names\<close>

lemma hex_val_all: "list_all (\<lambda>d. hex_val (hex_char d) = Some (int d)) [0..<16]"
  by code_simp

lemma hex_val_char: "d < 16 \<Longrightarrow> hex_val (hex_char d) = Some (int d)"
  using hex_val_all by (simp only: list_all_iff set_upt atLeastLessThan_iff) simp

lemma hex_val_others: "hex_val CHR ''-'' = None" "hex_val CHR ''+'' = None" "hex_val CHR ''x'' = None" "hex_val CHR ''X'' = None"
  "hex_val CHR '' '' = None" "hex_val CHR 9 = None" "hex_val CHR 10 = None" "hex_val CHR 11 = None" "hex_val CHR 12 = None" "hex_val CHR 13 = None"
  by code_simp+

lemma hex_val_not:
  assumes "hex_val c = Some d"
  shows "c \<noteq> CHR ''-''" "c \<noteq> CHR ''+''" "c \<noteq> CHR ''x''" "c \<noteq> CHR ''X''" "c \<notin> {CHR '' '', CHR 9, CHR 10, CHR 11, CHR 12, CHR 13}"
  using assms hex_val_others by (auto simp only: insert_iff empty_iff option.distinct)

lemma hex_str_chars: "c \<in> set (hex_str n) \<Longrightarrow> \<exists>d < 16. c = hex_char d"
proof (induction n rule: hex_str.induct)
  case (1 n)
  then show ?case by (cases "n < 16") (auto simp: hex_str.simps [of n] intro: exI [of _ "n mod 16"])
qed

lemma hex_digits_str: "hex_digits (hex_str n @ cs) 0 = hex_digits cs (int n)"
proof (induction n arbitrary: cs rule: hex_str.induct)
  case (1 n)
  show ?case
  proof (cases "n < 16")
    case True
    then show ?thesis by (simp add: hex_str.simps [of n] hex_val_char)
  next
    case False
    have "int (n div 16) * 16 + int (n mod 16) = int n" by (simp add: zdiv_int zmod_int)
    with 1 False show ?thesis by (simp add: hex_str.simps [of n] hex_val_char)
  qed
qed

lemma hex_str_nonempty: "hex_str n \<noteq> []"
  by (subst hex_str.simps) simp

lemma hex_str_val: "c \<in> set (hex_str n) \<Longrightarrow> \<exists>d. hex_val c = Some d"
  using hex_str_chars hex_val_char by metis

lemma skip_0x_hex: "skip_0x (hex_str n) = hex_str n"
proof (cases "\<exists>a b c cs. hex_str n = a # b # c # cs")
  case True
  then obtain a b c cs where h: "hex_str n = a # b # c # cs" by blast
  then have "b \<in> set (hex_str n)" by simp
  then obtain d where "hex_val b = Some d" using hex_str_val by blast
  from hex_val_not(3,4) [OF this]
  show ?thesis unfolding skip_0x_def h list.case by simp
next
  case False
  then show ?thesis unfolding skip_0x_def by (simp split: list.split)
qed

lemma strtoll16_hex:
  assumes n: "n < 9223372036854775808"
  shows "strtoll16 (hex_str n) = int n"
proof -
  obtain c cs where c: "hex_str n = c # cs" using hex_str_nonempty by (cases "hex_str n") auto
  then have m: "c \<in> set (hex_str n)" by simp
  obtain d where "hex_val c = Some d" using hex_str_val [OF m] by blast
  note nb = hex_val_not(5) [OF this] and s = hex_val_not(1,2) [OF this]
  have 1: "dropWhile (\<lambda>c. c \<in> {CHR '' '', CHR 9, CHR 10, CHR 11, CHR 12, CHR 13}) (hex_str n) = hex_str n"
    unfolding c using nb by (simp only: dropWhile.simps if_False)
  have 2: "(case hex_str n of [] \<Rightarrow> (False, hex_str n)
      | d # ds \<Rightarrow> if d = CHR ''-'' then (True, ds) else if d = CHR ''+'' then (False, ds) else (False, hex_str n)) = (False, hex_str n)"
    unfolding c using s by simp
  have 3: "hex_digits (hex_str n) 0 = int n" using hex_digits_str [of n "[]"] by simp
  have "strtoll16 (hex_str n) = max (- 9223372036854775808) (min 9223372036854775807 (int n))"
    unfolding strtoll16_def Let_def 1 2 by (simp add: skip_0x_hex 3)
  with n show ?thesis by simp
qed

lemma bnode_num:
  assumes "FS_IS_BNODE r"
  shows "unat (FS_BNODE_NUM r) < 2 ^ 62" "FS_NUM_BNODE (FS_BNODE_NUM r) = r" "FS_BNODE_NUM r = 0 \<longleftrightarrow> r = FS_RID_NULL"
proof -
  have "FS_BNODE_NUM r = take_bit 62 r"
  proof -
    have b: "bit r 63" "\<not> bit r 62" using assms by (simp_all add: FS_IS_BNODE_bit)
    have "r = take_bit 62 r OR 0x8000000000000000"
    proof (rule bit_word_eqI)
      fix n assume "n < LENGTH(64)"
      then have "n < 62 \<or> n = 62 \<or> n = 63" by auto
      with b show "bit r n \<longleftrightarrow> bit (take_bit 62 r OR 0x8000000000000000) n"
        by (auto simp: bit_or_iff bit_take_bit_iff top_bits simp del: bit_numeral_word_iff)
    qed
    also have "\<dots> = take_bit 62 r + 0x8000000000000000"
      by (rule disjunctive_add_eq_or [symmetric], rule bit_word_eqI)
        (auto simp: bit_and_iff bit_take_bit_iff top_bits simp del: bit_numeral_word_iff)
    finally show ?thesis unfolding FS_BNODE_NUM_def by (metis add_diff_cancel_right')
  qed
  note t = this
  show "unat (FS_BNODE_NUM r) < 2 ^ 62" unfolding t unsigned_take_bit_eq by (rule take_bit_nat_less_exp)
  show "FS_NUM_BNODE (FS_BNODE_NUM r) = r"
  proof (rule bit_word_eqI)
    fix n assume "n < LENGTH(64)"
    then have "n < 62 \<or> n = 62 \<or> n = 63" by auto
    with assms show "bit (FS_NUM_BNODE (FS_BNODE_NUM r)) n \<longleftrightarrow> bit r n"
      by (auto simp: FS_NUM_BNODE_bit t bit_take_bit_iff FS_IS_BNODE_bit)
  qed
  show "FS_BNODE_NUM r = 0 \<longleftrightarrow> r = FS_RID_NULL" by (simp add: FS_BNODE_NUM_def FS_RID_NULL_def)
qed

lemma bnode_rid_name:
  assumes "FS_IS_BNODE r"
  shows "bnode_rid (hex_str (unat (FS_BNODE_NUM r))) = (if r = FS_RID_NULL then FS_RID_GONE else r)"
proof -
  have "unat (FS_BNODE_NUM r) < 9223372036854775808" using bnode_num(1) [OF assms] by simp
  then have "word_of_int (strtoll16 (hex_str (unat (FS_BNODE_NUM r)))) = FS_BNODE_NUM r" by (simp add: strtoll16_hex)
  then show ?thesis unfolding bnode_rid_def Let_def by (simp add: bnode_num [OF assms])
qed

text \<open>
  The name that the results give to a blank node is read back as the same blank node, with the
  built-in prefix and with a skolem prefix that does not look like the built-in ones; only the
  identifier of the unbound value, which has the bits of a blank node, becomes the null identifier.
\<close>

theorem bnode_name_roundtrip:
  assumes "FS_IS_BNODE r"
    and "skolemize \<Longrightarrow> 7 \<le> length prefix \<and> take 7 prefix \<noteq> ''bnode:b'' \<and> take 3 prefix \<noteq> ''_:b''"
  shows "fs_hash_uri umac prefix (Some (bnode_name skolemize prefix r)) = (if r = FS_RID_NULL then FS_RID_GONE else r)"
proof (cases skolemize)
  case True
  with assms(2) have "fs_hash_uri umac prefix (Some (prefix @ h)) = bnode_rid h" for h
    by (cases "prefix = []") (simp_all add: fs_hash_uri_def)
  then show ?thesis using bnode_rid_name [OF assms(1)] True by (simp add: bnode_name_def)
next
  case False
  have "fs_hash_uri umac prefix (Some (''_:b'' @ h)) = bnode_rid h" for h
    by (simp add: fs_hash_uri_def)
  then show ?thesis using bnode_rid_name [OF assms(1)] False by (simp add: bnode_name_def)
qed

theorem bnode_name_roundtrip_witness:
  "fs_hash_uri (\<lambda>s n. 5) ''http://e/genid/'' (Some (bnode_name True ''http://e/genid/'' 0x8000000000001A2B)) = 0x8000000000001A2B"
  using bnode_name_roundtrip [of "0x8000000000001A2B" True "''http://e/genid/''" "\<lambda>s n. 5"]
  by (simp add: FS_IS_BNODE_def FS_RID_NULL_def)

text \<open>The identifiers that \<open>fs_hash_predefined_uri\<close> knows.\<close>

definition predefined_uris :: "fs_globals \<Rightarrow> rid list" where
  "predefined_uris c = [fc_xsd_string c, fc_xsd_integer c, fc_xsd_float c, fc_xsd_double c, fc_xsd_decimal c, fc_xsd_boolean c, fc_xsd_datetime c, fc_xsd_date c, fc_xsd_pinteger c, fc_xsd_ninteger c, fc_xsd_npinteger c, fc_xsd_nninteger c, fc_xsd_long c, fc_xsd_int c, fc_xsd_short c, fc_xsd_byte c, fc_xsd_ulong c, fc_xsd_uint c, fc_xsd_ushort c, fc_xsd_ubyte c, fc_rdf_type c, fc_default_graph c, fc_system_config c, fc_rdfs_label c]"

lemma predefined_uri_none: "fs_hash_predefined_uri c rid = None \<longleftrightarrow> rid \<notin> set (predefined_uris c)"
  unfolding fs_hash_predefined_uri_def predefined_uris_def by simp

lemma predefined_uri_hash:
  "fs_hash_predefined_uri (fs_hash_init umac prefix) rid = Some s \<Longrightarrow>
    rid = fc_xsd_byte (fs_hash_init umac prefix) \<or> fs_hash_uri umac prefix (Some s) = rid"
  unfolding fs_hash_predefined_uri_def fs_hash_init_def fs_globals.simps RDF_TYPE_def
  by (auto split: if_split_asm)

lemma predefined_uri_not_byte: "fs_hash_predefined_uri c rid \<noteq> Some (XSD_NAMESPACE @ ''byte'')"
  unfolding fs_hash_predefined_uri_def
  by (simp add: XSD_STRING_def XSD_INTEGER_def XSD_FLOAT_def XSD_DOUBLE_def XSD_DECIMAL_def XSD_BOOLEAN_def XSD_DATETIME_def XSD_DATE_def)
    (simp add: RDF_TYPE_def RDF_NAMESPACE_def RDFS_LABEL_def RDFS_NAMESPACE_def FS_DEFAULT_GRAPH_def FS_SYSTEM_CONFIG_def XSD_NAMESPACE_def)

lemma predefined_literal_hash:
  "fs_hash_predefined_literal (fs_hash_init umac prefix) rid = Some s \<Longrightarrow> s = [] \<and> rid = 0 \<or> fs_hash_literal umac (Some s) 0 = rid"
  unfolding fs_hash_predefined_literal_def fs_hash_init_def fs_globals.simps by (auto split: if_split_asm)

text \<open>
  C34: The tables of predefined resources agree with the hash: a URI that they return hashes to the
  identifier it was asked for, they answer for exactly the identifiers they list, and a literal they
  return hashes to its identifier or is the empty one.  The one exception is the identifier of
  \<open>xsd:byte\<close>, whose own name is never returned.
\<close>

theorem fs_hash_predefined_correct:
  "(case fs_hash_predefined_uri (fs_hash_init umac prefix) rid of
      None \<Rightarrow> rid \<notin> set (predefined_uris (fs_hash_init umac prefix))
    | Some s \<Rightarrow> rid \<in> set (predefined_uris (fs_hash_init umac prefix)) \<and> s \<noteq> XSD_NAMESPACE @ ''byte'' \<and>
        (rid = fc_xsd_byte (fs_hash_init umac prefix) \<or> fs_hash_uri umac prefix (Some s) = rid))
   \<and> (case fs_hash_predefined_literal (fs_hash_init umac prefix) rid of
      None \<Rightarrow> rid \<noteq> 0
    | Some s \<Rightarrow> s = [] \<and> rid = 0 \<or> fs_hash_literal umac (Some s) 0 = rid)"
proof (rule conjI, goal_cases)
  case 1
  show ?case
    using predefined_uri_none [of "fs_hash_init umac prefix" rid] predefined_uri_hash [of umac prefix rid]
      predefined_uri_not_byte [of "fs_hash_init umac prefix" rid]
    by (cases "fs_hash_predefined_uri (fs_hash_init umac prefix) rid") simp_all
next
  case 2
  have "fs_hash_predefined_literal (fs_hash_init umac prefix) rid = None \<Longrightarrow> rid \<noteq> 0"
    by (auto simp: fs_hash_predefined_literal_def fs_hash_init_def split: if_split_asm)
  then show ?case using predefined_literal_hash [of umac prefix rid]
    by (cases "fs_hash_predefined_literal (fs_hash_init umac prefix) rid") simp_all
qed

end
