(* ===== verification/QueryBackend.thy ===== *)
theory QueryBackend
  imports DeleteBackend Hash
begin

text \<open>
  Answering bind requests (\<open>src/src/backend/query-backend.c\<close>).  A request gives a list of identifiers
  for each of the four slots of a quad, where an empty list matches everything, and flags that name the
  slots to return.  Vectors are the lists of their elements; a returned \<open>None\<close> inside the result is the
  null pointer.  The result has one column per requested slot.  A tree that the limit on open trees
  closes while an iterator still uses it stays readable here.
\<close>

section \<open>Flags\<close>

definition FS_BIND_MODEL :: u32 where "FS_BIND_MODEL = 0x01"
definition FS_BIND_SUBJECT :: u32 where "FS_BIND_SUBJECT = 0x02"
definition FS_BIND_PREDICATE :: u32 where "FS_BIND_PREDICATE = 0x04"
definition FS_BIND_OBJECT :: u32 where "FS_BIND_OBJECT = 0x08"
definition FS_BIND_DISTINCT :: u32 where "FS_BIND_DISTINCT = 0x100"
definition FS_BIND_SAME_MASK :: u32 where "FS_BIND_SAME_MASK = 0xf000"
definition FS_BIND_SAME_XXXX :: u32 where "FS_BIND_SAME_XXXX = 0x0000"
definition FS_BIND_SAME_XXAA :: u32 where "FS_BIND_SAME_XXAA = 0x1000"
definition FS_BIND_SAME_XAXA :: u32 where "FS_BIND_SAME_XAXA = 0x2000"
definition FS_BIND_SAME_XAAX :: u32 where "FS_BIND_SAME_XAAX = 0x3000"
definition FS_BIND_SAME_XAAA :: u32 where "FS_BIND_SAME_XAAA = 0x4000"
definition FS_BIND_SAME_AXXA :: u32 where "FS_BIND_SAME_AXXA = 0x5000"
definition FS_BIND_SAME_AXAX :: u32 where "FS_BIND_SAME_AXAX = 0x6000"
definition FS_BIND_SAME_AXAA :: u32 where "FS_BIND_SAME_AXAA = 0x7000"
definition FS_BIND_SAME_AAXX :: u32 where "FS_BIND_SAME_AAXX = 0x8000"
definition FS_BIND_SAME_AAXA :: u32 where "FS_BIND_SAME_AAXA = 0x9000"
definition FS_BIND_SAME_AAAX :: u32 where "FS_BIND_SAME_AAAX = 0xa000"
definition FS_BIND_SAME_AAAA :: u32 where "FS_BIND_SAME_AAAA = 0xb000"
definition FS_BIND_SAME_AABB :: u32 where "FS_BIND_SAME_AABB = 0xc000"
definition FS_BIND_SAME_ABAB :: u32 where "FS_BIND_SAME_ABAB = 0xd000"
definition FS_BIND_SAME_ABBA :: u32 where "FS_BIND_SAME_ABBA = 0xe000"
definition FS_QUERY_DEFAULT_GRAPH :: u32 where "FS_QUERY_DEFAULT_GRAPH = 0x80000000"
definition FS_DEFAULT_GRAPH_RID :: rid where "FS_DEFAULT_GRAPH_RID = 0xDB4D687EBF8EED87"
definition FS_INT_MAX :: int where "FS_INT_MAX = 2147483647"

lemmas bind_flag_defs = FS_BIND_MODEL_def FS_BIND_SUBJECT_def FS_BIND_PREDICATE_def FS_BIND_OBJECT_def FS_BIND_DISTINCT_def
  FS_BIND_BY_SUBJECT_def FS_BIND_BY_OBJECT_def

definition slot_bits :: "u32 list" where
  "slot_bits = [FS_BIND_MODEL, FS_BIND_SUBJECT, FS_BIND_PREDICATE, FS_BIND_OBJECT]"

abbreviation flag_set :: "u32 \<Rightarrow> u32 \<Rightarrow> bool" where
  "flag_set tobind f \<equiv> tobind AND f \<noteq> 0"

text \<open>The number of slots to return.\<close>

definition bind_cols :: "u32 \<Rightarrow> nat" where
  "bind_cols tobind = length (filter (flag_set tobind) slot_bits)"

definition graph_ok :: "quad \<Rightarrow> u32 \<Rightarrow> bool" where
  "graph_ok quad flags \<longleftrightarrow> \<not> (flag_set flags FS_QUERY_DEFAULT_GRAPH \<and> fst quad = FS_DEFAULT_GRAPH_RID)"

definition bind_same :: "quad \<Rightarrow> u32 \<Rightarrow> bool" where
  "bind_same quad flags =
     (let (m, s, p, obj) = quad; k = flags AND FS_BIND_SAME_MASK in
      if k = FS_BIND_SAME_XXXX then True
      else if k = FS_BIND_SAME_XXAA then p = obj
      else if k = FS_BIND_SAME_XAXA then s = obj
      else if k = FS_BIND_SAME_XAAX then s = p
      else if k = FS_BIND_SAME_XAAA then s = p \<and> p = obj
      else if k = FS_BIND_SAME_AXXA then m = obj
      else if k = FS_BIND_SAME_AXAX then m = p
      else if k = FS_BIND_SAME_AXAA then m = p \<and> p = obj
      else if k = FS_BIND_SAME_AAXX then m = s
      else if k = FS_BIND_SAME_AAXA then m = s \<and> s = obj
      else if k = FS_BIND_SAME_AAAX then m = s \<and> s = p
      else if k = FS_BIND_SAME_AAAA then m = s \<and> s = p \<and> p = obj
      else if k = FS_BIND_SAME_AABB then m = s \<and> p = obj
      else if k = FS_BIND_SAME_ABAB then m = p \<and> s = obj
      else if k = FS_BIND_SAME_ABBA then m = obj \<and> s = p
      else True)"

text \<open>One value more in column \<open>col\<close> if the slot is wanted.\<close>

definition bind_col :: "u32 \<Rightarrow> u32 \<Rightarrow> rid \<Rightarrow> nat \<times> rid list list \<Rightarrow> nat \<times> rid list list" where
  "bind_col tobind slot r = (\<lambda>(col, ret). if flag_set tobind slot then (col + 1, ret[col := ret ! col @ [r]]) else (col, ret))"

definition bind_results :: "quad \<Rightarrow> u32 \<Rightarrow> rid list list \<Rightarrow> rid list list" where
  "bind_results quad tobind ret =
     (let (m, s, p, obj) = quad in
      snd (bind_col tobind FS_BIND_OBJECT obj (bind_col tobind FS_BIND_PREDICATE p
        (bind_col tobind FS_BIND_SUBJECT s (bind_col tobind FS_BIND_MODEL m (0, ret))))))"

section \<open>Loops\<close>

text \<open>A loop over an array that goes on while the condition holds.\<close>

fun for_loop :: "('s \<Rightarrow> bool) \<Rightarrow> ('a \<Rightarrow> 's \<Rightarrow> 's option) \<Rightarrow> 'a list \<Rightarrow> 's \<Rightarrow> 's option" where
  "for_loop go f [] st = Some st"
| "for_loop go f (x # xs) st = (if go st then do { st1 \<leftarrow> f x st; for_loop go f xs st1 } else Some st)"

text \<open>
  The loop that the branches of \<open>fs_bind\<close> run over an iterator: \<open>while (next (it, x) && count < limit)\<close>.
  The buffer \<open>x\<close> keeps the last value that was read; \<open>quad\<close> makes the quad that a value stands for.
\<close>

partial_function (option) bind_loop ::
  "('i \<Rightarrow> ('a option \<times> 'i) option) \<Rightarrow> ('a \<Rightarrow> quad) \<Rightarrow> u32 \<Rightarrow> int \<Rightarrow> 'i \<Rightarrow> 'a \<Rightarrow> int \<Rightarrow> rid list list
   \<Rightarrow> ('i \<times> 'a \<times> int \<times> rid list list) option" where
  "bind_loop nxt quad tobind limit it x n ret = do {
     (found, it1) \<leftarrow> nxt it;
     (case found of
        None \<Rightarrow> Some (it1, x, n, ret)
      | Some y \<Rightarrow>
          if \<not> n < limit then Some (it1, y, n, ret)
          else if \<not> bind_same (quad y) tobind then bind_loop nxt quad tobind limit it1 y n ret
          else if \<not> graph_ok (quad y) tobind then bind_loop nxt quad tobind limit it1 y n ret
          else bind_loop nxt quad tobind limit it1 y (n + 1) (bind_results (quad y) tobind ret))
   }"

text \<open>The variables of \<open>fs_bind\<close> that its branches change.\<close>

record bind_state =
  bs_be :: backend
  bs_count :: int
  bs_ret :: "rid list list"
  bs_pair :: "rid \<times> rid"

definition below :: "int \<Rightarrow> bind_state \<Rightarrow> bool" where
  "below limit st \<longleftrightarrow> bs_count st < limit"

text \<open>Searching one key of a tree for the current pair.\<close>

definition bind_search :: "u32 \<Rightarrow> int \<Rightarrow> tree_name \<Rightarrow> rid \<Rightarrow> (rid \<times> rid \<Rightarrow> quad) \<Rightarrow> bind_state \<Rightarrow> bind_state option" where
  "bind_search tobind limit t pk quad st = do {
     pt \<leftarrow> tree_at (bs_be st) t;
     it \<leftarrow> fs_ptree_search (Some pt) pk (bs_pair st);
     (case it of
        None \<Rightarrow> Some st
      | Some it \<Rightarrow> do {
          (_, pair, n, ret) \<leftarrow> bind_loop (fs_ptree_it_next pt) quad tobind limit it (bs_pair st) (bs_count st) (bs_ret st);
          Some (st\<lparr>bs_pair := pair, bs_count := n, bs_ret := ret\<rparr>)
        })
   }"

text \<open>Traversing a tree for one graph, or all.\<close>

definition bind_traverse :: "u32 \<Rightarrow> int \<Rightarrow> tree_name \<Rightarrow> rid \<Rightarrow> bind_state \<Rightarrow> bind_state option" where
  "bind_traverse tobind limit t mrid st = do {
     pt \<leftarrow> tree_at (bs_be st) t;
     (_, _, n, ret) \<leftarrow> bind_loop (fs_ptree_traverse_next pt) (\<lambda>(m, s, obj). (m, s, fst t, obj)) tobind limit
        (fs_ptree_traverse mrid) (FS_RID_NULL, FS_RID_NULL, FS_RID_NULL) (bs_count st) (bs_ret st);
     Some (st\<lparr>bs_count := n, bs_ret := ret\<rparr>)
   }"

text \<open>The assignments \<open>if (mvl) pair[0] = mv->data[m]; if (ovl) pair[1] = ov->data[o];\<close>\<close>

definition set_pair :: "rid list \<Rightarrow> nat \<Rightarrow> rid list \<Rightarrow> nat \<Rightarrow> rid \<times> rid \<Rightarrow> (rid \<times> rid) option" where
  "set_pair mv m ov j pair = do {
     a \<leftarrow> (if mv \<noteq> [] then load_at mv m else Some (fst pair));
     b \<leftarrow> (if ov \<noteq> [] then load_at ov j else Some (snd pair));
     Some (a, b)
   }"

abbreviation null_pair :: "rid \<times> rid" where
  "null_pair \<equiv> (FS_RID_NULL, FS_RID_NULL)"

text \<open>The number of turns of a loop over a slot, one for an empty vector.\<close>

definition turns :: "rid list \<Rightarrow> nat list" where
  "turns v = [0..<if v \<noteq> [] then length v else 1]"

definition sort_uniq :: "rid list \<Rightarrow> rid list" where
  "sort_uniq xs =
     rv_elems (the (fs_rid_vector_uniq (Some (fs_rid_vector_sort \<lparr>rv_length = length xs, rv_size = length xs, rv_data = xs\<rparr>)) False))"

section \<open>The branches of \<open>fs_bind\<close>\<close>

text \<open>Graphs and nothing else given: the model index lists their triples.  A model file is opened read-only.\<close>

definition bind_models :: "u32 \<Rightarrow> int \<Rightarrow> rid list \<Rightarrow> bind_state \<Rightarrow> bind_state option" where
  "bind_models tobind limit = for_loop (\<lambda>_. True) (\<lambda>model st.
     let be = bs_be st; mnode = fs_mhash_get (be_models be) model; quad = (\<lambda>(s, p, obj). (model, s, p, obj)) in
     if mnode = 0 then Some st
     else if mnode = 1 then
       (case fs_tlist_open (be_tlists be model) [] of
          None \<Rightarrow> Some st
        | Some l \<Rightarrow> do {
            (_, _, n, ret) \<leftarrow> bind_loop (\<lambda>l. Some (fs_tlist_next_value l)) quad tobind limit (fs_tlist_rewind l) (0, 0, 0) (bs_count st) (bs_ret st);
            Some (st\<lparr>bs_count := n, bs_ret := ret\<rparr>)
          })
     else do {
       it \<leftarrow> fs_tbchain_new_iterator (Some (be_model_list be)) model mnode;
       ((bc, _), _, n, ret) \<leftarrow> bind_loop
          (\<lambda>(bc, it). fs_tbchain_it_next (Some (be_lookup be)) bc it)
          quad tobind limit (be_model_list be, it) (0, 0, 0) (bs_count st) (bs_ret st);
       Some (st\<lparr>bs_be := be\<lparr>be_model_list := bc\<rparr>, bs_count := n, bs_ret := ret\<rparr>)
     })"

text \<open>The tree of a given predicate, and the tree at a position of the directory.\<close>

definition with_pred :: "bool \<Rightarrow> (tree_name \<Rightarrow> bind_state \<Rightarrow> bind_state option) \<Rightarrow> rid \<Rightarrow> bind_state \<Rightarrow> bind_state option" where
  "with_pred object f pred st = do {
     (t, be1) \<leftarrow> fs_backend_get_ptree (bs_be st) pred object;
     let st1 = st\<lparr>bs_be := be1\<rparr>;
     (case t of None \<Rightarrow> Some st1 | Some t \<Rightarrow> f t st1)
   }"

definition with_entry :: "bool \<Rightarrow> (tree_name \<Rightarrow> bind_state \<Rightarrow> bind_state option) \<Rightarrow> nat \<Rightarrow> bind_state \<Rightarrow> bind_state option" where
  "with_entry object f p st = do {
     be1 \<leftarrow> fs_backend_ptree_limited_open (bs_be st) p;
     r \<leftarrow> load_at (be_ptrees_priv be1) p;
     let st1 = st\<lparr>bs_be := be1\<rparr>;
     (case ref_tree r object of None \<Rightarrow> Some st1 | Some t \<Rightarrow> f t st1)
   }"

definition traverse_models :: "(bind_state \<Rightarrow> bool) \<Rightarrow> u32 \<Rightarrow> int \<Rightarrow> rid list \<Rightarrow> tree_name \<Rightarrow> bind_state \<Rightarrow> bind_state option" where
  "traverse_models go tobind limit mv t = for_loop go (\<lambda>m st. do {
     mrid \<leftarrow> (if mv \<noteq> [] then load_at mv m else Some FS_RID_NULL);
     bind_traverse tobind limit t mrid st
   }) (turns mv)"

text \<open>By subject with no subject given.\<close>

definition bind_no_subject :: "u32 \<Rightarrow> int \<Rightarrow> rid list \<Rightarrow> rid list \<Rightarrow> bind_state \<Rightarrow> bind_state option" where
  "bind_no_subject tobind limit mv pv st =
     (if pv \<noteq> [] then for_loop (below limit) (with_pred False (traverse_models (below limit) tobind limit mv)) pv st
      else for_loop (below limit) (with_entry False (traverse_models (\<lambda>_. True) tobind limit mv)) [0..<be_ptree_length (bs_be st)] st)"

text \<open>
  One key of a tree for every given graph and every given value of the other slot.  The conditions of
  the two loops differ between the branches; \<open>fresh\<close> says that the pair is cleared for every search.
\<close>

definition search_key :: "bool \<Rightarrow> (bind_state \<Rightarrow> bool) \<Rightarrow> (bind_state \<Rightarrow> bool) \<Rightarrow> u32 \<Rightarrow> int \<Rightarrow> rid list \<Rightarrow> rid list \<Rightarrow> tree_name \<Rightarrow> rid \<Rightarrow> bind_state \<Rightarrow> bind_state option" where
  "search_key fresh go_m go_v tobind limit mv vv t pk =
     for_loop go_m (\<lambda>m. for_loop go_v (\<lambda>j st. do {
       pair \<leftarrow> set_pair mv m vv j (if fresh then null_pair else bs_pair st);
       bind_search tobind limit t pk (\<lambda>(a, b). if snd t then (a, b, fst t, pk) else (a, pk, fst t, b)) (st\<lparr>bs_pair := pair\<rparr>)
     }) (turns vv)) (turns mv)"

text \<open>Predicates and keys given: all combinations, or row by row for a conjunctive request.\<close>

definition bind_pred_key :: "bool \<Rightarrow> bool \<Rightarrow> (bind_state \<Rightarrow> bool) \<Rightarrow> (bind_state \<Rightarrow> bool) \<Rightarrow> u32 \<Rightarrow> int \<Rightarrow> rid list \<Rightarrow> rid list \<Rightarrow> rid list \<Rightarrow> rid list \<Rightarrow> bind_state \<Rightarrow> bind_state option" where
  "bind_pred_key rowwise object go_m go_v tobind limit mv kv pv vv =
     (if \<not> rowwise
      then for_loop (below limit) (with_pred object (\<lambda>t. for_loop (below limit) (search_key True go_m go_v tobind limit mv vv t) kv)) pv
      else for_loop (below limit) (\<lambda>p st. do {
        pred \<leftarrow> load_at pv p;
        with_pred object (\<lambda>t st. do { pk \<leftarrow> load_at kv p; search_key True go_m go_v tobind limit mv vv t pk st }) pred st
      }) [0..<length pv])"

text \<open>Keys but no predicate given.  The pair is declared outside the two inner loops and keeps what the last search found.\<close>

definition bind_all_preds :: "bool \<Rightarrow> u32 \<Rightarrow> int \<Rightarrow> rid list \<Rightarrow> rid list \<Rightarrow> rid list \<Rightarrow> bind_state \<Rightarrow> bind_state option" where
  "bind_all_preds object tobind limit mv kv vv st =
     for_loop (below limit) (with_entry object (\<lambda>t. for_loop (below limit)
       (\<lambda>pk st. search_key False (below limit) (below limit) tobind limit mv vv t pk (st\<lparr>bs_pair := null_pair\<rparr>)) kv))
       [0..<be_ptree_length (bs_be st)] st"

text \<open>Distinct predicates: those of the directory whose tree is not empty.\<close>

fun distinct_preds :: "nat list \<Rightarrow> backend \<Rightarrow> (rid list \<times> backend) option" where
  "distinct_preds [] be = Some ([], be)"
| "distinct_preds (i # is) be = do {
     be1 \<leftarrow> fs_backend_ptree_limited_open be i;
     r \<leftarrow> load_at (be_ptrees_priv be1) i;
     t \<leftarrow> ref_tree r False;
     pt \<leftarrow> tree_at be1 t;
     (ps, be2) \<leftarrow> distinct_preds is be1;
     Some (if fs_ptree_count pt > 0 then pr_pred r # ps else ps, be2)
   }"

text \<open>Distinct objects of one predicate, collected in a set.\<close>

partial_function (option) distinct_loop :: "ptree \<Rightarrow> rid \<Rightarrow> u32 \<Rightarrow> int \<Rightarrow> ptree_it \<Rightarrow> int \<Rightarrow> rid_set \<Rightarrow> rid_set option" where
  "distinct_loop pt pred tobind limit it n s = do {
     (found, it1) \<leftarrow> fs_ptree_traverse_next pt it;
     (case found of
        None \<Rightarrow> Some s
      | Some (m, subj, obj) \<Rightarrow>
          if \<not> n < limit then Some s
          else if \<not> bind_same (m, subj, pred, obj) tobind then distinct_loop pt pred tobind limit it1 n s
          else if \<not> graph_ok (m, subj, pred, obj) tobind then distinct_loop pt pred tobind limit it1 n s
          else distinct_loop pt pred tobind limit it1 (n + 1) (fs_rid_set_add s obj))
   }"

definition distinct_objects :: "(nat \<Rightarrow> rid) \<Rightarrow> u32 \<Rightarrow> int \<Rightarrow> rid \<Rightarrow> backend \<Rightarrow> (rid list \<times> backend) option" where
  "distinct_objects junk tobind limit pred be = do {
     (t, be1) \<leftarrow> fs_backend_get_ptree be pred False;
     (case t of
        None \<Rightarrow> Some ([], be1)
      | Some t \<Rightarrow> do {
          pt \<leftarrow> tree_at be1 t;
          s \<leftarrow> distinct_loop pt pred tobind limit (fs_ptree_traverse FS_RID_NULL) 0 fs_rid_set_new;
          v \<leftarrow> fs_rid_vector_append_set junk (fs_rid_vector_new 0) (Some s);
          Some (rv_elems v, be1)
        })
   }"

text \<open>A request is conjunctive when it has as many predicates as keys.\<close>

definition conjunctive :: "u32 \<Rightarrow> rid list \<Rightarrow> rid list \<Rightarrow> rid list \<Rightarrow> bool" where
  "conjunctive tobind sv pv ov \<longleftrightarrow>
     flag_set tobind FS_BIND_BY_SUBJECT \<and> sv \<noteq> [] \<and> pv \<noteq> [] \<and> length pv = length sv
     \<or> flag_set tobind FS_BIND_BY_OBJECT \<and> ov \<noteq> [] \<and> pv \<noteq> [] \<and> length pv = length ov"

text \<open>The branches that share the counter and the final test.\<close>

definition bind_branches :: "bool \<Rightarrow> u32 \<Rightarrow> int \<Rightarrow> rid list \<Rightarrow> rid list \<Rightarrow> rid list \<Rightarrow> rid list \<Rightarrow> bind_state \<Rightarrow> bind_state option" where
  "bind_branches rowwise tobind limit mv sv pv ov st =
     (if flag_set tobind FS_BIND_BY_SUBJECT \<and> sv = [] then bind_no_subject tobind limit mv pv st
      else if flag_set tobind FS_BIND_BY_SUBJECT \<and> pv \<noteq> [] \<and> sv \<noteq> []
      then bind_pred_key rowwise False (below limit) (\<lambda>_. True) tobind limit mv sv pv ov st
      else if flag_set tobind FS_BIND_BY_OBJECT \<and> pv \<noteq> [] \<and> ov \<noteq> []
      then bind_pred_key rowwise True (if rowwise then \<lambda>_. True else below limit) (below limit) tobind limit mv ov pv sv st
      else if flag_set tobind FS_BIND_BY_SUBJECT then bind_all_preds False tobind limit mv sv ov st
      else bind_all_preds True tobind limit mv ov sv st)"

definition fs_bind :: "(nat \<Rightarrow> rid) \<Rightarrow> backend \<Rightarrow> u32 \<Rightarrow> rid list \<Rightarrow> rid list \<Rightarrow> rid list \<Rightarrow> rid list \<Rightarrow> int \<Rightarrow> (rid list list option \<times> backend) option" where
  "fs_bind junk be tobind mv sv pv ov limit =
     (let rowwise = conjunctive tobind sv pv ov;
          cols = bind_cols tobind;
          limit = (if limit = - 1 then FS_INT_MAX else limit);
          limit = (if cols = 0 then 1 else limit);
          by = tobind AND (FS_BIND_BY_SUBJECT OR FS_BIND_BY_OBJECT);
          mv = (if rowwise then mv else sort_uniq mv); sv = (if rowwise then sv else sort_uniq sv);
          pv = (if rowwise then pv else sort_uniq pv); ov = (if rowwise then ov else sort_uniq ov);
          st = \<lparr>bs_be = be, bs_count = 0, bs_ret = replicate cols [], bs_pair = null_pair\<rparr> in
      if by = 0 \<or> by = FS_BIND_BY_SUBJECT OR FS_BIND_BY_OBJECT then Some (None, be)
      else if cols = 1 \<and> flag_set tobind FS_BIND_MODEL \<and> flag_set tobind FS_BIND_DISTINCT \<and> mv = [] \<and> sv = [] \<and> pv = [] \<and> ov = []
      then do {
        keys \<leftarrow> fs_mhash_get_keys junk (Some (be_models be));
        v \<leftarrow> keys;
        Some (Some [rv_elems v], be)
      }
      else if cols = 1 \<and> flag_set tobind FS_BIND_PREDICATE \<and> flag_set tobind FS_BIND_DISTINCT \<and> mv = [] \<and> sv = [] \<and> pv = [] \<and> ov = []
      then do {
        (ps, be1) \<leftarrow> distinct_preds [0..<nat (min limit (int (be_ptree_length be)))] be;
        Some (Some [ps], be1)
      }
      else if cols = 1 \<and> flag_set tobind FS_BIND_OBJECT \<and> flag_set tobind FS_BIND_DISTINCT \<and> mv = [] \<and> sv = [] \<and> length pv = 1 \<and> ov = []
      then do {
        (os, be1) \<leftarrow> distinct_objects junk tobind limit (hd pv) be;
        Some (Some [os], be1)
      }
      else if mv \<noteq> [] \<and> sv = [] \<and> pv = [] \<and> ov = []
      then do {
        st1 \<leftarrow> bind_models tobind limit mv st;
        Some (Some (bs_ret st1), bs_be st1)
      }
      else do {
        st1 \<leftarrow> bind_branches rowwise tobind limit mv sv pv ov st;
        Some (if bs_count st1 = 0 \<and> cols = 0 then None else Some (bs_ret st1), bs_be st1)
      })"

section \<open>Reverse binding and sizes\<close>

text \<open>An iterator with the tree it reads.\<close>

type_synonym tree_it = "tree_name \<times> ptree_it"

definition fs_backend_get_matches :: "backend \<Rightarrow> quad \<Rightarrow> u32 \<Rightarrow> (tree_it option \<times> backend) option" where
  "fs_backend_get_matches be quad flags =
     (let (m, s, p, obj) = quad; by_s = flag_set flags FS_BIND_BY_SUBJECT in do {
        (t, be1) \<leftarrow> fs_backend_get_ptree be p (\<not> by_s);
        (case t of
           None \<Rightarrow> Some (None, be1)
         | Some t \<Rightarrow> do {
             pt \<leftarrow> tree_at be1 t;
             it \<leftarrow> fs_ptree_search (Some pt) (if by_s then s else obj) (m, if by_s then obj else s);
             Some (map_option (Pair t) it, be1)
           })
      })"

fun reverse_matches :: "u32 \<Rightarrow> rid list \<Rightarrow> rid list \<Rightarrow> nat list \<Rightarrow> backend \<Rightarrow> (tree_it option list \<times> backend) option" where
  "reverse_matches tobind pv ov [] be = Some ([], be)"
| "reverse_matches tobind pv ov (i # is) be = do {
     p \<leftarrow> (if pv \<noteq> [] then load_at pv i else Some FS_RID_NULL);
     obj \<leftarrow> load_at ov i;
     (it, be1) \<leftarrow> fs_backend_get_matches be (FS_RID_NULL, FS_RID_NULL, p, obj) (tobind AND FS_BIND_SAME_MASK);
     (its, be2) \<leftarrow> reverse_matches tobind pv ov is be1;
     Some (it # its, be2)
   }"

text \<open>The iterator with the fewest rows, as position and size; the first one when none is left.\<close>

fun narrowest :: "tree_it option list \<Rightarrow> nat list \<Rightarrow> nat \<times> int \<Rightarrow> nat \<times> int" where
  "narrowest res [] best = best"
| "narrowest res (j # js) best =
     (case res ! j of
        None \<Rightarrow> narrowest res js best
      | Some (t, it) \<Rightarrow>
          if int (fs_ptree_it_get_length (Some it)) < snd best then narrowest res js (j, int (fs_ptree_it_get_length (Some it)))
          else narrowest res js best)"

fun by_width :: "nat \<Rightarrow> tree_it option list \<Rightarrow> tree_it option list" where
  "by_width 0 res = []"
| "by_width (Suc n) res =
     (let j = fst (narrowest res [0..<length res] (0, FS_INT_MAX)) in res ! j # by_width n (res[j := None]))"

text \<open>The rows of one iterator that agree with what was found so far; both columns get the second value of the pair.\<close>

partial_function (option) reverse_loop ::
  "ptree \<Rightarrow> u32 \<Rightarrow> rid list option \<Rightarrow> rid list option \<Rightarrow> ptree_it \<Rightarrow> rid list \<Rightarrow> rid list \<Rightarrow> (rid list \<times> rid list) option" where
  "reverse_loop pt tobind mv sv it inter0 inter1 = do {
     (found, it1) \<leftarrow> fs_ptree_it_next pt it;
     (case found of
        None \<Rightarrow> Some (inter0, inter1)
      | Some (a, b) \<Rightarrow>
          if (case mv of None \<Rightarrow> True | Some v \<Rightarrow> a \<in> set v) \<and> (case sv of None \<Rightarrow> True | Some v \<Rightarrow> b \<in> set v)
          then reverse_loop pt tobind mv sv it1
                 (if flag_set tobind FS_BIND_MODEL then inter0 @ [b] else inter0)
                 (if flag_set tobind FS_BIND_SUBJECT then inter1 @ [b] else inter1)
          else reverse_loop pt tobind mv sv it1 inter0 inter1)
   }"

fun reverse_inter :: "u32 \<Rightarrow> backend \<Rightarrow> tree_it option list \<Rightarrow> rid list option \<Rightarrow> rid list option \<Rightarrow> (rid list option \<times> rid list option) option" where
  "reverse_inter tobind be [] mv sv = Some (mv, sv)"
| "reverse_inter tobind be (r # rs) mv sv = do {
     (i0, i1) \<leftarrow> (case r of
         None \<Rightarrow> Some ([], [])
       | Some (t, it) \<Rightarrow> do { pt \<leftarrow> tree_at be t; reverse_loop pt tobind mv sv it [] [] });
     reverse_inter tobind be rs (if flag_set tobind FS_BIND_MODEL then Some i0 else mv)
       (if flag_set tobind FS_BIND_SUBJECT then Some i1 else sv)
   }"

text \<open>\<open>fs_rid_vector_truncate\<close> on the elements.\<close>

definition truncated :: "int \<Rightarrow> rid list option \<Rightarrow> rid list option" where
  "truncated limit = map_option (\<lambda>v. if length v < u32_of_int limit then v else take (u32_of_int limit) v)"

text \<open>A column that is never filled is the null pointer.\<close>

definition fs_reverse_bind :: "backend \<Rightarrow> u32 \<Rightarrow> rid list \<Rightarrow> rid list \<Rightarrow> rid list \<Rightarrow> rid list \<Rightarrow> int \<Rightarrow> (rid list option list option \<times> backend) option" where
  "fs_reverse_bind be tobind mvi svi pv ov limit =
     (let cols = bind_cols tobind; limit = (if limit = - 1 then FS_INT_MAX else limit);
          by = tobind AND (FS_BIND_BY_SUBJECT OR FS_BIND_BY_OBJECT) in
      if by = 0 \<or> by = FS_BIND_BY_SUBJECT OR FS_BIND_BY_OBJECT \<or> flag_set tobind FS_BIND_BY_OBJECT then Some (None, be)
      else if pv \<noteq> [] \<and> length pv \<noteq> length ov then Some (None, be)
      else do {
        (res, be1) \<leftarrow> reverse_matches tobind pv ov [0..<length ov] be;
        (mv, sv) \<leftarrow> reverse_inter tobind be1 (by_width (length ov) res)
           (if mvi \<noteq> [] then Some mvi else None) (if svi \<noteq> [] then Some svi else None);
        Some (Some (if cols = 1 \<and> flag_set tobind FS_BIND_SUBJECT then [truncated limit sv]
                    else if cols = 2 \<and> flag_set tobind FS_BIND_SUBJECT \<and> flag_set tobind FS_BIND_MODEL
                    then [truncated limit mv, truncated limit sv]
                    else replicate (if cols = 0 then 1 else cols) None), be1)
      })"

text \<open>Streaming is not implemented in the code; \<open>stream\<close> is the field of the backend.\<close>

definition fs_bind_first :: "rid list list option" where
  "fs_bind_first = None"

definition fs_bind_next :: "bool \<Rightarrow> u32 \<Rightarrow> rid list list option" where
  "fs_bind_next stream tobind =
     (if \<not> stream then None else if bind_cols tobind = 0 then None else Some (replicate (bind_cols tobind) []))"

definition fs_bind_done :: "bool \<Rightarrow> int" where
  "fs_bind_done stream = (if stream then 0 else 1)"

definition fs_bind_price :: u64 where
  "fs_bind_price = 0"

record data_size =
  ds_quads_s :: u64
  ds_quads_o :: u64
  ds_quads_sr :: u64
  ds_resources :: u64
  ds_models_s :: u64
  ds_models_o :: u64

fun tree_sizes :: "nat list \<Rightarrow> backend \<Rightarrow> (u64 \<times> u64 \<times> backend) option" where
  "tree_sizes [] be = Some (0, 0, be)"
| "tree_sizes (i # is) be = do {
     be1 \<leftarrow> fs_backend_ptree_limited_open be i;
     r \<leftarrow> load_at (be_ptrees_priv be1) i;
     ts \<leftarrow> ref_tree r False; s \<leftarrow> tree_at be1 ts;
     tob \<leftarrow> ref_tree r True; ob \<leftarrow> tree_at be1 tob;
     (a, b, be2) \<leftarrow> tree_sizes is be1;
     Some (word_of_int (fs_ptree_count s) + a, word_of_int (fs_ptree_count ob) + b, be2)
   }"

text \<open>The number of resources is that of the resource hash.\<close>

definition fs_get_data_size :: "u64 \<Rightarrow> backend \<Rightarrow> (data_size \<times> backend) option" where
  "fs_get_data_size resources be =
     (if be_ptrees_priv be = []
      then Some (\<lparr>ds_quads_s = 0, ds_quads_o = 0, ds_quads_sr = 0, ds_resources = 0, ds_models_s = 0, ds_models_o = 0\<rparr>, be)
      else do {
        (s, sr, be1) \<leftarrow> tree_sizes [0..<be_ptree_length be] be;
        Some (\<lparr>ds_quads_s = s, ds_quads_o = - 1, ds_quads_sr = sr, ds_resources = resources,
               ds_models_s = word_of_int (fs_mhash_count (be_models be1)), ds_models_o = - 1\<rparr>, be1)
      })"

end
