(* ===== verification/QueryBind.thy ===== *)
theory QueryBind
  imports QueryBackend
begin

text \<open>
  What \<open>fs_bind\<close> returns: the loops of its branches as lists of quads.  A branch appends to the columns
  the quads that its iterators yield, up to the limit (\<open>bound\<close>); the list of quads is then compared with
  what the trees hold.
\<close>

section \<open>Iterators\<close>

definition wanted :: "u32 \<Rightarrow> quad \<Rightarrow> bool" where
  "wanted tobind q \<longleftrightarrow> bind_same q tobind \<and> graph_ok q tobind"

lemma bind_loop_Some:
  "nxt it = Some (Some y, it1) \<Longrightarrow> bind_loop nxt quad tobind limit it x n ret
     = (if \<not> n < limit then Some (it1, y, n, ret)
        else if wanted tobind (quad y) then bind_loop nxt quad tobind limit it1 y (n + 1) (bind_results (quad y) tobind ret)
        else bind_loop nxt quad tobind limit it1 y n ret)"
  by (subst bind_loop.simps) (auto simp: wanted_def)

lemma bind_loop_None: "nxt it = Some (None, it1) \<Longrightarrow> bind_loop nxt quad tobind limit it x n ret = Some (it1, x, n, ret)"
  by (subst bind_loop.simps) simp

text \<open>An iterator with the list of what it yields until its end.\<close>

locale row_source =
  fixes nxt :: "'i \<Rightarrow> ('a option \<times> 'i) option" and yields :: "'i \<Rightarrow> 'a list option"
  assumes yields_Nil: "yields it = Some [] \<Longrightarrow> \<exists>it'. nxt it = Some (None, it')"
    and yields_Cons: "yields it = Some (x # xs) \<Longrightarrow> \<exists>it'. nxt it = Some (Some x, it') \<and> yields it' = Some xs"
begin

lemma loop_ok:
  assumes "yields it = Some xs"
  shows "\<exists>it' y. bind_loop nxt quad tobind limit it x n ret
    = (let r = take (nat (limit - n)) (filter (wanted tobind) (map quad xs))
       in Some (it', y, n + int (length r), fold (\<lambda>q. bind_results q tobind) r ret))"
  using assms
proof (induction xs arbitrary: it x n ret)
  case Nil
  then show ?case using yields_Nil bind_loop_None by (fastforce simp: Let_def)
next
  case (Cons a xs)
  obtain it' where it: "nxt it = Some (Some a, it')" "yields it' = Some xs" using yields_Cons [OF Cons.prems] by blast
  note IH = Cons.IH [OF it(2)]
  consider "\<not> n < limit" | "n < limit" "\<not> wanted tobind (quad a)" | "n < limit" "wanted tobind (quad a)" by blast
  then show ?case
  proof cases
    case 1
    then show ?thesis by (simp add: bind_loop_Some [of nxt, OF it(1)] Let_def)
  next
    case 2
    then show ?thesis using IH [of a n ret] by (simp add: bind_loop_Some [of nxt, OF it(1)] Let_def)
  next
    case 3
    have k: "nat (limit - n) = Suc (nat (limit - (n + 1)))" using 3(1) by simp
    show ?thesis using IH [of a "n + 1" "bind_results (quad a) tobind ret"] 3
      by (simp add: bind_loop_Some [of nxt, OF it(1)] Let_def k add.assoc)
  qed
qed

text \<open>A loop that does not reach the limit reads to the end.\<close>

lemma loop_all:
  assumes "yields it = Some xs" "n + int (length (filter (wanted tobind) (map quad xs))) < limit"
  shows "\<exists>it'. bind_loop nxt quad tobind limit it x n ret = Some (it', last (x # xs), n + int (length (filter (wanted tobind) (map quad xs))),
       fold (\<lambda>q. bind_results q tobind) (filter (wanted tobind) (map quad xs)) ret)"
  using assms
proof (induction xs arbitrary: it x n ret)
  case Nil
  then show ?case using yields_Nil bind_loop_None by fastforce
next
  case (Cons a xs)
  obtain it' where it: "nxt it = Some (Some a, it')" "yields it' = Some xs" using yields_Cons [OF Cons.prems(1)] by blast
  show ?case
  proof (cases "wanted tobind (quad a)")
    case True
    then show ?thesis using Cons.IH [OF it(2), of "n + 1" a "bind_results (quad a) tobind ret"] Cons.prems(2)
      by (simp add: bind_loop_Some [of nxt, OF it(1)] add.assoc)
  next
    case False
    then show ?thesis using Cons.IH [OF it(2), of n a ret] Cons.prems(2) by (simp add: bind_loop_Some [of nxt, OF it(1)])
  qed
qed

end

interpretation search: row_source "fs_ptree_it_next pt" "it_all pt" for pt
proof
  fix it
  assume "it_all pt it = Some []"
  then show "\<exists>it'. fs_ptree_it_next pt it = Some (None, it')"
    by (subst (asm) it_all.simps) (auto split: Option.bind_splits option.splits)
next
  fix it x xs
  assume "it_all pt it = Some (x # xs)"
  then show "\<exists>it'. fs_ptree_it_next pt it = Some (Some x, it') \<and> it_all pt it' = Some xs"
    by (subst (asm) it_all.simps) (auto split: Option.bind_splits option.splits)
qed

interpretation trav: row_source "fs_ptree_traverse_next pt" "traverse_all pt" for pt
proof
  fix it
  assume "traverse_all pt it = Some []"
  then show "\<exists>it'. fs_ptree_traverse_next pt it = Some (None, it')"
    by (subst (asm) traverse_all.simps) (auto split: Option.bind_splits option.splits)
next
  fix it x xs
  assume "traverse_all pt it = Some (x # xs)"
  then show "\<exists>it'. fs_ptree_traverse_next pt it = Some (Some x, it') \<and> traverse_all pt it' = Some xs"
    by (subst (asm) traverse_all.simps) (auto split: Option.bind_splits option.splits)
qed

section \<open>Columns\<close>

text \<open>The slots that are returned, and the columns of a list of quads.\<close>

definition slots :: "u32 \<Rightarrow> (quad \<Rightarrow> rid) list" where
  "slots tobind =
     (if flag_set tobind FS_BIND_MODEL then [\<lambda>(m, s, p, obj). m] else []) @ (if flag_set tobind FS_BIND_SUBJECT then [\<lambda>(m, s, p, obj). s] else [])
     @ (if flag_set tobind FS_BIND_PREDICATE then [\<lambda>(m, s, p, obj). p] else []) @ (if flag_set tobind FS_BIND_OBJECT then [\<lambda>(m, s, p, obj). obj] else [])"

definition columns :: "u32 \<Rightarrow> quad list \<Rightarrow> rid list list" where
  "columns tobind qs = map (\<lambda>f. map f qs) (slots tobind)"

lemma length_slots: "length (slots tobind) = bind_cols tobind"
  by (simp add: slots_def bind_cols_def slot_bits_def)

lemma bind_results_columns: "bind_results q tobind (columns tobind qs) = columns tobind (qs @ [q])"
proof -
  obtain m s p obj where q: "q = (m, s, p, obj)" by (cases q)
  show ?thesis
    by (simp add: q bind_results_def columns_def slots_def bind_col_def)
qed

lemma fold_columns: "fold (\<lambda>q. bind_results q tobind) rows (columns tobind qs) = columns tobind (qs @ rows)"
  by (induction rows arbitrary: qs) (simp_all add: bind_results_columns)

lemma no_rows: "columns tobind [] = replicate (bind_cols tobind) []"
  by (simp add: columns_def map_replicate_const length_slots)

section \<open>Loops over slots\<close>

text \<open>The state after a part of the request whose quads are \<open>rows\<close>.\<close>

definition bound :: "backend \<Rightarrow> (tree_name \<Rightarrow> rid \<rightharpoonup> (rid \<times> rid) list) \<Rightarrow> u32 \<Rightarrow> int \<Rightarrow> quad list \<Rightarrow> bind_state \<Rightarrow> bind_state \<Rightarrow> bool" where
  "bound be0 M tobind limit rows st st' \<longleftrightarrow> be_holds (bs_be st') M \<and> same_store (bs_be st') be0
     \<and> (let r = take (nat (limit - bs_count st)) rows
        in bs_count st' = bs_count st + int (length r) \<and> bs_ret st' = fold (\<lambda>q. bind_results q tobind) r (bs_ret st))"

definition ready :: "backend \<Rightarrow> (tree_name \<Rightarrow> rid \<rightharpoonup> (rid \<times> rid) list) \<Rightarrow> bind_state \<Rightarrow> bool" where
  "ready be0 M st \<longleftrightarrow> be_holds (bs_be st) M \<and> same_store (bs_be st) be0"

lemma bound_ready: "bound be0 M tobind limit rows st st' \<Longrightarrow> ready be0 M st'"
  by (simp add: bound_def ready_def)

lemma bound_Nil: "ready be0 M st \<Longrightarrow> bound be0 M tobind limit [] st st"
  by (simp add: bound_def ready_def)

lemma bound_full: "ready be0 M st \<Longrightarrow> limit \<le> bs_count st \<Longrightarrow> bound be0 M tobind limit rows st st"
  by (simp add: bound_def ready_def)

lemma bound_trans:
  assumes "bound be0 M tobind limit r1 st st1" "bound be0 M tobind limit r2 st1 st2"
  shows "bound be0 M tobind limit (r1 @ r2) st st2"
proof -
  have "nat (limit - (bs_count st + int (min (length r1) (nat (limit - bs_count st))))) = nat (limit - bs_count st) - length r1"
    by linarith
  then show ?thesis using assms unfolding bound_def Let_def by (simp add: take_append)
qed

lemma for_loop_bound:
  assumes "ready be0 M st" and "\<And>x st. x \<in> set xs \<Longrightarrow> ready be0 M st \<Longrightarrow> \<exists>st'. f x st = Some st' \<and> bound be0 M tobind limit (R x) st st'"
    and "\<And>st. \<not> go st \<Longrightarrow> limit \<le> bs_count st"
  shows "\<exists>st'. for_loop go f xs st = Some st' \<and> bound be0 M tobind limit (concat (map R xs)) st st'"
  using assms(1,2)
proof (induction xs arbitrary: st)
  case (Cons x xs)
  show ?case
  proof (cases "go st")
    case True
    obtain st1 where s1: "f x st = Some st1" "bound be0 M tobind limit (R x) st st1" using Cons.prems(2) [OF _ Cons.prems(1)] by auto
    obtain st2 where "for_loop go f xs st1 = Some st2" "bound be0 M tobind limit (concat (map R xs)) st1 st2"
      using Cons.IH [OF bound_ready [OF s1(2)]] Cons.prems(2) by auto
    then show ?thesis using True s1 bound_trans [OF s1(2)] by auto
  next
    case False
    then show ?thesis using bound_full [OF Cons.prems(1) assms(3)] by simp
  qed
qed (simp add: bound_Nil)

lemma below_ends: "\<not> below limit st \<Longrightarrow> limit \<le> bs_count st"
  by (simp add: below_def)

section \<open>Searching trees\<close>

text \<open>The values of a slot that a loop tries; a missing slot is the wildcard.\<close>

definition opts :: "rid list \<Rightarrow> rid list" where
  "opts v = (if v = [] then [FS_RID_NULL] else v)"

definition opt_at :: "rid list \<Rightarrow> nat \<Rightarrow> rid" where
  "opt_at v i = (if v = [] then FS_RID_NULL else v ! i)"

lemma opts_turns: "map (opt_at v) (turns v) = opts v"
  by (auto simp: opts_def turns_def opt_at_def intro: nth_equalityI)

lemma turns_less: "i \<in> set (turns v) \<Longrightarrow> v \<noteq> [] \<Longrightarrow> i < length v"
  by (simp add: turns_def)

lemma set_pair_null: "m \<in> set (turns mv) \<Longrightarrow> j \<in> set (turns vv) \<Longrightarrow> set_pair mv m vv j null_pair = Some (opt_at mv m, opt_at vv j)"
  by (auto simp: set_pair_def opt_at_def load_at_Some turns_less)

text \<open>The quad of a pair under a key, and the quads that one search finds.\<close>

abbreviation quad_of :: "tree_name \<Rightarrow> rid \<Rightarrow> rid \<times> rid \<Rightarrow> quad" where
  "quad_of t pk \<equiv> (\<lambda>(a, b). if snd t then (a, b, fst t, pk) else (a, pk, fst t, b))"

definition found :: "u32 \<Rightarrow> (tree_name \<Rightarrow> rid \<rightharpoonup> (rid \<times> rid) list) \<Rightarrow> tree_name \<Rightarrow> rid \<Rightarrow> rid \<times> rid \<Rightarrow> quad list" where
  "found tobind M t pk pat = filter (wanted tobind) (map (quad_of t pk) (filter (pair_matches pat) (pairs_of (M t) pk)))"

lemma ready_tree:
  assumes "ready be0 M st" "fst t \<in> set (be_preds be0)"
  obtains pt where "be_files (bs_be st) t = Some pt" "tree_at (bs_be st) t = Some (pt\<lparr>pt_table := be_pairs (bs_be st)\<rparr>)"
    "forest (be_pairs (bs_be st)) (be_files (bs_be st)) M"
proof -
  have h: "be_holds (bs_be st) M" "be_preds (bs_be st) = be_preds be0" using assms(1) by (auto simp: ready_def same_store_def)
  have "be_files (bs_be st) t \<noteq> None" using be_holds_files [OF h(1), of "fst t" "snd t"] assms(2) h(2) by simp
  then show ?thesis using that be_opensD(5) [OF be_holds_opens [OF h(1)]] by (auto simp: tree_at_def)
qed

lemma bind_search_ok:
  assumes r: "ready be0 M st" and t: "fst t \<in> set (be_preds be0)"
  shows "\<exists>st'. bind_search tobind limit t pk (quad_of t pk) st = Some st' \<and> bound be0 M tobind limit (found tobind M t pk (bs_pair st)) st st'"
proof -
  obtain pt where pt: "be_files (bs_be st) t = Some pt" "tree_at (bs_be st) t = Some (pt\<lparr>pt_table := be_pairs (bs_be st)\<rparr>)"
    "forest (be_pairs (bs_be st)) (be_files (bs_be st)) M" by (rule ready_tree [OF r t])
  let ?pt = "pt\<lparr>pt_table := be_pairs (bs_be st)\<rparr>"
  note s = forest_search [OF pt(3,1), of pk "bs_pair st"]
  show ?thesis
  proof (cases "M t pk")
    case None
    then show ?thesis using s bound_Nil [OF r] by (simp add: bind_search_def pt(2) found_def)
  next
    case (Some ps)
    then obtain it where it: "fs_ptree_search (Some ?pt) pk (bs_pair st) = Some (Some it)"
      "it_all ?pt it = Some (filter (pair_matches (bs_pair st)) ps)" using s by auto
    define rows where "rows = found tobind M t pk (bs_pair st)"
    have rows: "filter (wanted tobind) (map (quad_of t pk) (filter (pair_matches (bs_pair st)) ps)) = rows"
      by (simp add: rows_def found_def Some)
    obtain it' y where l: "bind_loop (fs_ptree_it_next ?pt) (quad_of t pk) tobind limit it (bs_pair st) (bs_count st) (bs_ret st)
      = (let r = take (nat (limit - bs_count st)) rows in Some (it', y, bs_count st + int (length r), fold (\<lambda>q. bind_results q tobind) r (bs_ret st)))"
      using search.loop_ok [OF it(2), of "quad_of t pk" tobind limit "bs_pair st" "bs_count st" "bs_ret st"] unfolding rows by blast
    show ?thesis unfolding rows_def [symmetric] using r
      by (simp add: bind_search_def pt(2) it(1) l Let_def bound_def ready_def)
  qed
qed

text \<open>The search that a key of a tree gets: all given graphs with all given values of the other slot.\<close>

definition key_rows :: "u32 \<Rightarrow> (tree_name \<Rightarrow> rid \<rightharpoonup> (rid \<times> rid) list) \<Rightarrow> rid list \<Rightarrow> rid list \<Rightarrow> tree_name \<Rightarrow> rid \<Rightarrow> quad list" where
  "key_rows tobind M mv vv t pk = concat (map (\<lambda>a. concat (map (\<lambda>b. found tobind M t pk (a, b)) (opts vv))) (opts mv))"

lemma search_key_ok:
  assumes r: "ready be0 M st" and t: "fst t \<in> set (be_preds be0)"
    and go: "\<And>st. \<not> go_m st \<Longrightarrow> limit \<le> bs_count st" "\<And>st. \<not> go_v st \<Longrightarrow> limit \<le> bs_count st"
  shows "\<exists>st'. search_key True go_m go_v tobind limit mv vv t pk st = Some st' \<and> bound be0 M tobind limit (key_rows tobind M mv vv t pk) st st'"
proof -
  have e: "key_rows tobind M mv vv t pk
    = concat (map (\<lambda>m. concat (map (\<lambda>j. found tobind M t pk (opt_at mv m, opt_at vv j)) (turns vv))) (turns mv))"
    unfolding key_rows_def opts_turns [symmetric] by (simp add: comp_def)
  show ?thesis unfolding search_key_def e
  proof (rule for_loop_bound [OF r _ go(1)])
    fix m st assume m: "m \<in> set (turns mv)" and st: "ready be0 M st"
    show "\<exists>st'. for_loop go_v (\<lambda>j st. do {
       pair \<leftarrow> set_pair mv m vv j (if True then null_pair else bs_pair st);
       bind_search tobind limit t pk (quad_of t pk) (st\<lparr>bs_pair := pair\<rparr>)
     }) (turns vv) st = Some st' \<and> bound be0 M tobind limit (concat (map (\<lambda>j. found tobind M t pk (opt_at mv m, opt_at vv j)) (turns vv))) st st'"
    proof (rule for_loop_bound [OF st _ go(2)])
      fix j st assume j: "j \<in> set (turns vv)" and st: "ready be0 M st"
      have "ready be0 M (st\<lparr>bs_pair := (opt_at mv m, opt_at vv j)\<rparr>)" using st by (simp add: ready_def)
      from bind_search_ok [OF this t, of tobind limit pk]
      show "\<exists>st'. do {
         pair \<leftarrow> set_pair mv m vv j (if True then null_pair else bs_pair st);
         bind_search tobind limit t pk (quad_of t pk) (st\<lparr>bs_pair := pair\<rparr>)
       } = Some st' \<and> bound be0 M tobind limit (found tobind M t pk (opt_at mv m, opt_at vv j)) st st'"
        by (simp add: set_pair_null [OF m j] bound_def)
    qed
  qed
qed

lemma key_rows_none: "M t = Map.empty \<Longrightarrow> key_rows tobind M mv vv t pk = []"
  by (simp add: key_rows_def found_def)

lemma ready_none: "ready be0 M st \<Longrightarrow> p \<notin> set (be_preds be0) \<Longrightarrow> M (p, k) = Map.empty"
  using be_holds_none [of "bs_be st" M p k] by (auto simp: ready_def same_store_def)

lemma with_pred_ok:
  assumes r: "ready be0 M st" and f: "\<And>st. p \<in> set (be_preds be0) \<Longrightarrow> ready be0 M st \<Longrightarrow> \<exists>st'. f (p, k) st = Some st' \<and> bound be0 M tobind limit rows st st'"
    and none: "p \<notin> set (be_preds be0) \<Longrightarrow> rows = []"
  shows "\<exists>st'. with_pred k f p st = Some st' \<and> bound be0 M tobind limit rows st st'"
proof -
  have h: "be_holds (bs_be st) M" "be_preds (bs_be st) = be_preds be0" "same_store (bs_be st) be0" using r by (auto simp: ready_def same_store_def)
  obtain be' where g: "fs_backend_get_ptree (bs_be st) p k = Some (if p \<in> set (be_preds be0) then Some (p, k) else None, be')"
    "be_holds be' M" "same_store be' (bs_be st)" using get_ptree_holds [OF h(1), of p k] h(2) by auto
  have r': "ready be0 M (st\<lparr>bs_be := be'\<rparr>)" using g(2) same_store_trans [OF g(3) h(3)] by (simp add: ready_def)
  show ?thesis
  proof (cases "p \<in> set (be_preds be0)")
    case True
    from f [OF this r'] show ?thesis using g(1) True by (simp add: with_pred_def bound_def)
  next
    case False
    then have "rows = []" by (rule none)
    then show ?thesis using g(1) False r' by (simp add: with_pred_def bound_def ready_def)
  qed
qed

lemma bind_pred_key_ok:
  assumes r: "ready be0 M st" and go: "\<And>st. \<not> go_m st \<Longrightarrow> limit \<le> bs_count st" "\<And>st. \<not> go_v st \<Longrightarrow> limit \<le> bs_count st"
  shows "\<exists>st'. bind_pred_key False k go_m go_v tobind limit mv kv pv vv st = Some st'
    \<and> bound be0 M tobind limit (concat (map (\<lambda>p. concat (map (key_rows tobind M mv vv (p, k)) kv)) pv)) st st'"
proof -
  have "\<exists>st'. with_pred k (\<lambda>t. for_loop (below limit) (search_key True go_m go_v tobind limit mv vv t) kv) p st = Some st'
      \<and> bound be0 M tobind limit (concat (map (key_rows tobind M mv vv (p, k)) kv)) st st'"
    if "ready be0 M st" for p st
  proof (rule with_pred_ok [OF that])
    fix st assume "p \<in> set (be_preds be0)" "ready be0 M st"
    then show "\<exists>st'. for_loop (below limit) (search_key True go_m go_v tobind limit mv vv (p, k)) kv st = Some st'
      \<and> bound be0 M tobind limit (concat (map (key_rows tobind M mv vv (p, k)) kv)) st st'"
      by (intro for_loop_bound search_key_ok go below_ends) simp_all
  qed (simp add: key_rows_none ready_none [OF that])
  then show ?thesis unfolding bind_pred_key_def simp_thms if_True if_False by (intro for_loop_bound [OF r _ below_ends])
qed

text \<open>Row by row, the key of a predicate is the one at the same position.\<close>

lemma bind_rowwise_ok:
  assumes r: "ready be0 M st" and go: "\<And>st. \<not> go_m st \<Longrightarrow> limit \<le> bs_count st" "\<And>st. \<not> go_v st \<Longrightarrow> limit \<le> bs_count st"
    and len: "length kv = length pv"
  shows "\<exists>st'. bind_pred_key True k go_m go_v tobind limit mv kv pv vv st = Some st'
    \<and> bound be0 M tobind limit (concat (map (\<lambda>i. key_rows tobind M mv vv (pv ! i, k) (kv ! i)) [0..<length pv])) st st'"
proof -
  have "\<exists>st'. do { pred \<leftarrow> load_at pv p;
        with_pred k (\<lambda>t st. do { pk \<leftarrow> load_at kv p; search_key True go_m go_v tobind limit mv vv t pk st }) pred st } = Some st'
      \<and> bound be0 M tobind limit (key_rows tobind M mv vv (pv ! p, k) (kv ! p)) st st'"
    if p: "p \<in> set [0..<length pv]" and st: "ready be0 M st" for p st
  proof -
    have l: "load_at pv p = Some (pv ! p)" "load_at kv p = Some (kv ! p)" using p len by (simp_all add: load_at_Some)
    have "\<exists>st'. with_pred k (\<lambda>t st. search_key True go_m go_v tobind limit mv vv t (kv ! p) st) (pv ! p) st = Some st'
      \<and> bound be0 M tobind limit (key_rows tobind M mv vv (pv ! p, k) (kv ! p)) st st'"
      by (rule with_pred_ok [OF st]) (simp_all add: key_rows_none search_key_ok go ready_none [OF st])
    then show ?thesis by (simp add: l)
  qed
  then show ?thesis unfolding bind_pred_key_def simp_thms if_True if_False by (intro for_loop_bound [OF r _ below_ends])
qed

section \<open>Counting\<close>

lemma sum_list_pick: "distinct xs \<Longrightarrow> (\<Sum>x \<leftarrow> xs. if x = a then c else 0) = (if a \<in> set xs then c else (0 :: nat))"
  by (induction xs) auto

lemma count_filter_mset: "count (mset (filter P xs)) x = (if P x then count (mset xs) x else 0)"
  by (induction xs) auto

text \<open>What a request asks of one slot.\<close>

definition in_slot :: "rid list \<Rightarrow> rid \<Rightarrow> bool" where
  "in_slot v r \<longleftrightarrow> v = [] \<or> r \<in> set v"

definition slot_ok :: "rid list \<Rightarrow> bool" where
  "slot_ok v \<longleftrightarrow> distinct v \<and> FS_RID_NULL \<notin> set v"

lemma sum_opts:
  assumes "slot_ok v"
  shows "(\<Sum>a \<leftarrow> opts v. if a = FS_RID_NULL \<or> a = r then c else 0) = (if in_slot v r then c else (0 :: nat))"
proof (cases "v = []")
  case False
  have "(\<Sum>a \<leftarrow> v. if a = FS_RID_NULL \<or> a = r then c else 0) = (\<Sum>a \<leftarrow> v. if a = r then c else 0)"
    using assms by (intro arg_cong [where f = sum_list] map_cong) (auto simp: slot_ok_def)
  then show ?thesis using sum_list_pick [of v r c] assms False by (simp add: opts_def in_slot_def slot_ok_def)
qed (simp add: opts_def in_slot_def)

lemma count_map_quad_of:
  "count (mset (map (quad_of t pk) xs)) (m, s, p, obj)
     = (if fst t = p \<and> pk = (if snd t then obj else s) then count (mset xs) (m, if snd t then s else obj) else 0)"
  by (induction xs) auto

lemma count_found:
  "count (mset (found tobind M (p', k) pk (a, b))) (m, s, p, obj)
     = (if p' = p \<and> pk = (if k then obj else s) \<and> (a = FS_RID_NULL \<or> a = m) \<and> (b = FS_RID_NULL \<or> b = (if k then s else obj)) \<and> wanted tobind (m, s, p, obj)
        then quads_in k M (m, s, p, obj) else 0)"
  unfolding found_def count_filter_mset count_map_quad_of
  by (auto simp: count_filter_mset quads_in_def pair_matches_def)

lemma count_key_rows:
  assumes "slot_ok mv" "slot_ok vv"
  shows "count (mset (key_rows tobind M mv vv (p', k) pk)) (m, s, p, obj)
     = (if p' = p \<and> pk = (if k then obj else s) \<and> in_slot mv m \<and> in_slot vv (if k then s else obj) \<and> wanted tobind (m, s, p, obj)
        then quads_in k M (m, s, p, obj) else 0)"
proof -
  define c where "c = (if p' = p \<and> pk = (if k then obj else s) \<and> wanted tobind (m, s, p, obj) then quads_in k M (m, s, p, obj) else 0)"
  have f: "count (mset (found tobind M (p', k) pk (a, b))) (m, s, p, obj)
    = (if b = FS_RID_NULL \<or> b = (if k then s else obj) then if a = FS_RID_NULL \<or> a = m then c else 0 else 0)" for a b
    unfolding count_found c_def by simp
  have "count (mset (key_rows tobind M mv vv (p', k) pk)) (m, s, p, obj)
    = (\<Sum>a \<leftarrow> opts mv. if a = FS_RID_NULL \<or> a = m then if in_slot vv (if k then s else obj) then c else 0 else 0)"
    unfolding key_rows_def count_concat map_map comp_def f sum_opts [OF assms(2)]
    by (intro arg_cong [where f = sum_list] map_cong refl) simp
  then show ?thesis unfolding sum_opts [OF assms(1)] c_def by simp
qed

lemma count_pred_rows:
  assumes "slot_ok mv" "slot_ok vv" "distinct kv" "distinct pv"
  shows "count (mset (concat (map (\<lambda>p. concat (map (key_rows tobind M mv vv (p, k)) kv)) pv))) (m, s, p, obj)
     = (if p \<in> set pv \<and> (if k then obj else s) \<in> set kv \<and> in_slot mv m \<and> in_slot vv (if k then s else obj) \<and> wanted tobind (m, s, p, obj)
        then quads_in k M (m, s, p, obj) else 0)"
proof -
  define c where "c = (if in_slot mv m \<and> in_slot vv (if k then s else obj) \<and> wanted tobind (m, s, p, obj) then quads_in k M (m, s, p, obj) else 0)"
  have f: "count (mset (key_rows tobind M mv vv (p', k) pk)) (m, s, p, obj)
    = (if pk = (if k then obj else s) then if p' = p then c else 0 else 0)" for p' pk
    unfolding count_key_rows [OF assms(1,2)] c_def by simp
  have "count (mset (concat (map (\<lambda>p. concat (map (key_rows tobind M mv vv (p, k)) kv)) pv))) (m, s, p, obj)
    = (\<Sum>p' \<leftarrow> pv. if p' = p then if (if k then obj else s) \<in> set kv then c else 0 else 0)"
    unfolding count_concat map_map comp_def f sum_list_pick [OF assms(3)]
    by (intro arg_cong [where f = sum_list] map_cong refl) simp
  then show ?thesis unfolding sum_list_pick [OF assms(4)] c_def by simp
qed

section \<open>Requests\<close>

lemma sort_uniq_ok: "sort_uniq xs = uniq_spec False (qsort rid_compare xs)"
proof -
  let ?d = "qsort rid_compare xs"
  obtain d out where u: "uniq_loop False (length xs) ?d 0 0 = (d, out)" by (cases "uniq_loop False (length xs) ?d 0 0")
  have "take out d = uniq_spec False ?d" using uniq_loop_ok [OF _ _ _ u] by simp
  then show ?thesis using u by (simp add: sort_uniq_def fs_rid_vector_uniq_def fs_rid_vector_sort_def rv_elems_def)
qed

lemma sort_uniq_simps [simp]:
  "set (sort_uniq xs) = set xs" "distinct (sort_uniq xs)" "sort_uniq xs = [] \<longleftrightarrow> xs = []"
proof -
  show s: "set (sort_uniq xs) = set xs" by (simp add: sort_uniq_ok set_uniq_spec)
  have "sorted_wrt (\<lambda>a b. sint a < sint b) (sort_uniq xs)" unfolding sort_uniq_ok by (rule uniq_spec_sorted)
  then show "distinct (sort_uniq xs)" by (induction "sort_uniq xs" rule: rev_induct) (auto simp: sorted_wrt_iff_nth_less distinct_conv_nth, metis linorder_neqE_nat less_irrefl)
  show "sort_uniq xs = [] \<longleftrightarrow> xs = []" using s by (metis set_empty)
qed

lemma in_slot_sort_uniq [simp]: "in_slot (sort_uniq v) = in_slot v"
  by (simp add: in_slot_def fun_eq_iff)

lemma slot_ok_sort_uniq [simp]: "slot_ok (sort_uniq v) \<longleftrightarrow> FS_RID_NULL \<notin> set v"
  by (simp add: slot_ok_def)

text \<open>The flag that says by which trees a request is answered.\<close>

definition bind_by :: "bool \<Rightarrow> u32 \<Rightarrow> bool" where
  "bind_by object tobind \<longleftrightarrow>
     tobind AND (FS_BIND_BY_SUBJECT OR FS_BIND_BY_OBJECT) = (if object then FS_BIND_BY_OBJECT else FS_BIND_BY_SUBJECT)"

lemma bind_by_flags:
  assumes "bind_by object tobind"
  shows "flag_set tobind FS_BIND_BY_SUBJECT \<longleftrightarrow> \<not> object" "flag_set tobind FS_BIND_BY_OBJECT \<longleftrightarrow> object"
    "tobind AND (FS_BIND_BY_SUBJECT OR FS_BIND_BY_OBJECT) \<noteq> 0"
    "tobind AND (FS_BIND_BY_SUBJECT OR FS_BIND_BY_OBJECT) \<noteq> FS_BIND_BY_SUBJECT OR FS_BIND_BY_OBJECT"
proof -
  let ?by = "FS_BIND_BY_SUBJECT OR FS_BIND_BY_OBJECT"
  have a: "tobind AND FS_BIND_BY_SUBJECT = (tobind AND ?by) AND FS_BIND_BY_SUBJECT" "tobind AND FS_BIND_BY_OBJECT = (tobind AND ?by) AND FS_BIND_BY_OBJECT"
    unfolding and.assoc by (simp_all add: FS_BIND_BY_SUBJECT_def FS_BIND_BY_OBJECT_def)
  have e: "tobind AND ?by = (if object then FS_BIND_BY_OBJECT else FS_BIND_BY_SUBJECT)" using assms by (simp only: bind_by_def)
  show "flag_set tobind FS_BIND_BY_SUBJECT \<longleftrightarrow> \<not> object" "flag_set tobind FS_BIND_BY_OBJECT \<longleftrightarrow> object"
    unfolding a e by (cases object; simp add: FS_BIND_BY_SUBJECT_def FS_BIND_BY_OBJECT_def)+
  show "tobind AND ?by \<noteq> 0" "tobind AND ?by \<noteq> ?by"
    unfolding e by (cases object; simp add: FS_BIND_BY_SUBJECT_def FS_BIND_BY_OBJECT_def)+
qed

definition bind_limit :: "u32 \<Rightarrow> int \<Rightarrow> int" where
  "bind_limit tobind limit = (if bind_cols tobind = 0 then 1 else if limit = - 1 then FS_INT_MAX else limit)"

definition bind_start :: "backend \<Rightarrow> u32 \<Rightarrow> bind_state" where
  "bind_start be tobind = \<lparr>bs_be = be, bs_count = 0, bs_ret = replicate (bind_cols tobind) [], bs_pair = null_pair\<rparr>"

definition bind_answer :: "u32 \<Rightarrow> int \<Rightarrow> quad list \<Rightarrow> rid list list option" where
  "bind_answer tobind limit rows =
     (let r = take (nat (bind_limit tobind limit)) rows in if r = [] \<and> bind_cols tobind = 0 then None else Some (columns tobind r))"

lemma bound_answer:
  assumes "bound be M tobind (bind_limit tobind limit) rows (bind_start be tobind) st'"
  shows "(if bs_count st' = 0 \<and> bind_cols tobind = 0 then None else Some (bs_ret st')) = bind_answer tobind limit rows"
    "be_holds (bs_be st') M" "same_store (bs_be st') be"
proof -
  define r where "r = take (nat (bind_limit tobind limit)) rows"
  have "bs_count st' = int (length r)" "bs_ret st' = columns tobind r"
    using assms fold_columns [of tobind r "[]"] by (simp_all add: bound_def Let_def bind_start_def no_rows r_def)
  then show "(if bs_count st' = 0 \<and> bind_cols tobind = 0 then None else Some (bs_ret st')) = bind_answer tobind limit rows"
    unfolding bind_answer_def r_def [symmetric] by simp
  show "be_holds (bs_be st') M" "same_store (bs_be st') be" using assms by (simp_all add: bound_def)
qed

text \<open>The requests that go to the branches.\<close>

lemma fs_bind_branches:
  assumes flag: "bind_by object tobind" and given: "sv \<noteq> [] \<or> ov \<noteq> [] \<or> \<not> flag_set tobind FS_BIND_DISTINCT \<and> (pv \<noteq> [] \<or> mv = [])"
    and b: "bind_branches (conjunctive tobind sv pv ov) tobind (bind_limit tobind limit)
       (if conjunctive tobind sv pv ov then mv else sort_uniq mv) (if conjunctive tobind sv pv ov then sv else sort_uniq sv)
       (if conjunctive tobind sv pv ov then pv else sort_uniq pv) (if conjunctive tobind sv pv ov then ov else sort_uniq ov) (bind_start be tobind) = Some st'"
    and bd: "bound be M tobind (bind_limit tobind limit) rows (bind_start be tobind) st'"
  shows "fs_bind junk be tobind mv sv pv ov limit = Some (bind_answer tobind limit rows, bs_be st')"
proof -
  define c where "c = conjunctive tobind sv pv ov"
  define mv' sv' pv' ov' where vs: "mv' = (if c then mv else sort_uniq mv)" "sv' = (if c then sv else sort_uniq sv)"
    "pv' = (if c then pv else sort_uniq pv)" "ov' = (if c then ov else sort_uniq ov)"
  have g: "sv' \<noteq> [] \<or> ov' \<noteq> [] \<or> \<not> flag_set tobind FS_BIND_DISTINCT \<and> (pv' \<noteq> [] \<or> mv' = [])" using given by (auto simp: vs)
  have b': "bind_branches c tobind (bind_limit tobind limit) mv' sv' pv' ov' (bind_start be tobind) = Some st'" using b by (simp only: vs c_def)
  show ?thesis
    unfolding fs_bind_def Let_def c_def [symmetric] vs [symmetric] bind_limit_def [symmetric] bind_start_def [symmetric] bound_answer(1) [OF bd, symmetric]
    using g bind_by_flags(3,4) [OF flag] b' by auto
qed

section \<open>Traversing trees\<close>

text \<open>What traversing a tree for one graph gives; opening and closing trees does not change it.\<close>

definition tree_rows :: "backend \<Rightarrow> u32 \<Rightarrow> tree_name \<Rightarrow> rid \<Rightarrow> quad list" where
  "tree_rows be tobind t mrid = filter (wanted tobind) (map (\<lambda>(m, s, obj). (m, s, fst t, obj))
     (case tree_at be t of None \<Rightarrow> [] | Some pt \<Rightarrow> the (traverse_all pt (fs_ptree_traverse mrid))))"

lemma tree_at_same: "same_store be' be \<Longrightarrow> tree_at be' t = tree_at be t"
  by (simp add: tree_at_def same_store_def)

lemma bind_traverse_ok:
  assumes r: "ready be0 M st" and t: "fst t \<in> set (be_preds be0)"
  shows "\<exists>st'. bind_traverse tobind limit t mrid st = Some st' \<and> bound be0 M tobind limit (tree_rows be0 tobind t mrid) st st'"
proof -
  obtain pt where pt: "be_files (bs_be st) t = Some pt" "tree_at (bs_be st) t = Some (pt\<lparr>pt_table := be_pairs (bs_be st)\<rparr>)"
    "forest (be_pairs (bs_be st)) (be_files (bs_be st)) M" by (rule ready_tree [OF r t])
  let ?pt = "pt\<lparr>pt_table := be_pairs (bs_be st)\<rparr>" and ?quad = "\<lambda>(m, s, obj). (m, s, fst t, obj)"
  obtain qs where q: "traverse_all ?pt (fs_ptree_traverse mrid) = Some qs" using forest_traverse [OF pt(3,1), of mrid] by blast
  have "tree_at be0 t = Some ?pt" using pt(2) tree_at_same [of "bs_be st" be0 t] r by (simp add: ready_def)
  then have rows: "filter (wanted tobind) (map ?quad qs) = tree_rows be0 tobind t mrid" using q by (simp add: tree_rows_def)
  obtain it' y where l: "bind_loop (fs_ptree_traverse_next ?pt) ?quad tobind limit (fs_ptree_traverse mrid) (FS_RID_NULL, FS_RID_NULL, FS_RID_NULL) (bs_count st) (bs_ret st)
    = (let r = take (nat (limit - bs_count st)) (tree_rows be0 tobind t mrid) in Some (it', y, bs_count st + int (length r), fold (\<lambda>q. bind_results q tobind) r (bs_ret st)))"
    using trav.loop_ok [OF q, of ?quad tobind limit "(FS_RID_NULL, FS_RID_NULL, FS_RID_NULL)" "bs_count st" "bs_ret st"] unfolding rows by blast
  show ?thesis using r by (simp add: bind_traverse_def pt(2) l Let_def bound_def ready_def)
qed

lemma traverse_models_ok:
  assumes "ready be0 M st" "fst t \<in> set (be_preds be0)" "\<And>st. \<not> go st \<Longrightarrow> limit \<le> bs_count st"
  shows "\<exists>st'. traverse_models go tobind limit mv t st = Some st' \<and> bound be0 M tobind limit (concat (map (tree_rows be0 tobind t) (opts mv))) st st'"
proof -
  have "\<exists>st'. do { mrid \<leftarrow> (if mv \<noteq> [] then load_at mv m else Some FS_RID_NULL); bind_traverse tobind limit t mrid st } = Some st'
      \<and> bound be0 M tobind limit (tree_rows be0 tobind t (opt_at mv m)) st st'"
    if "m \<in> set (turns mv)" "ready be0 M st" for m st
    using bind_traverse_ok [OF that(2) assms(2), of tobind limit "opt_at mv m"] turns_less [OF that(1)] by (auto simp: opt_at_def load_at_Some split: if_splits)
  from for_loop_bound [OF assms(1) this assms(3), of "turns mv"] show ?thesis
    unfolding traverse_models_def opts_turns [symmetric] by (simp add: comp_def)
qed

lemma count_tree_rows:
  assumes h: "be_holds be M"
  shows "count (mset (tree_rows be tobind (p', False) mrid)) (m, s, p, obj)
     = (if p' = p \<and> (mrid = FS_RID_NULL \<or> mrid = m) \<and> wanted tobind (m, s, p, obj) then quads_in False M (m, s, p, obj) else 0)"
proof (cases "be_files be (p', False)")
  case None
  then have "p' \<notin> set (be_preds be)" using be_holds_files [OF h, of p' False] by simp
  then have "M (p', False) = Map.empty" by (rule be_holds_none [OF h])
  then show ?thesis using None by (auto simp: tree_rows_def tree_at_def quads_in_def)
next
  case (Some pt)
  obtain qs where q: "traverse_all (pt\<lparr>pt_table := be_pairs be\<rparr>) (fs_ptree_traverse mrid) = Some qs"
    "\<And>a k b. count (mset qs) (a, k, b) = (if mrid = FS_RID_NULL \<or> mrid = a then count (mset (pairs_of (M (p', False)) k)) (a, b) else 0)"
    using forest_traverse [OF be_opensD(5) [OF be_holds_opens [OF h]] Some] by blast
  have c: "count (mset (map (\<lambda>(m, s, obj). (m, s, p', obj)) xs)) (m, s, p, obj) = (if p' = p then count (mset xs) (m, s, obj) else 0)" for xs
    by (induction xs) auto
  have e: "tree_rows be tobind (p', False) mrid = filter (wanted tobind) (map (\<lambda>(m, s, obj). (m, s, p', obj)) qs)"
    using Some q(1) by (simp add: tree_rows_def tree_at_def)
  show ?thesis unfolding e count_filter_mset c q(2) by (simp add: quads_in_def)
qed

lemma with_entry_ok:
  assumes r: "ready be0 M st" and n: "n < be_ptree_length be0"
    and f: "\<And>st. ready be0 M st \<Longrightarrow> \<exists>st'. f (be_preds be0 ! n, k) st = Some st' \<and> bound be0 M tobind limit rows st st'"
  shows "\<exists>st'. with_entry k f n st = Some st' \<and> bound be0 M tobind limit rows st st'"
proof -
  have h: "be_holds (bs_be st) M" "be_preds (bs_be st) = be_preds be0" "same_store (bs_be st) be0" "be_ptree_length (bs_be st) = be_ptree_length be0"
    using r by (auto simp: ready_def same_store_def)
  obtain be' where g: "fs_backend_ptree_limited_open (bs_be st) n = Some be'" "be_holds be' M" "same_store be' (bs_be st)"
    "be_ptrees_priv be' ! n = \<lparr>pr_pred = be_preds be0 ! n, pr_ptree_s = True, pr_ptree_o = True\<rparr>" using limited_open_holds [OF h(1), of n] n h(2,4) by auto
  have "n < length (be_ptrees_priv be')"
    using be_opensD(7) [OF be_holds_opens [OF g(2)]] g(3) h(4) n by (simp add: same_store_def)
  then have l: "load_at (be_ptrees_priv be') n = Some \<lparr>pr_pred = be_preds be0 ! n, pr_ptree_s = True, pr_ptree_o = True\<rparr>" using g(4) by (simp add: load_at_Some)
  have r': "ready be0 M (st\<lparr>bs_be := be'\<rparr>)" using g(2) same_store_trans [OF g(3) h(3)] by (simp add: ready_def)
  from f [OF r'] show ?thesis by (auto simp: with_entry_def g(1) l ref_tree_def bound_def)
qed

section \<open>Keys without a predicate\<close>

lemma bind_search_all:
  fixes st :: bind_state and M :: "tree_name \<Rightarrow> rid \<rightharpoonup> (rid \<times> rid) list" and t :: tree_name and pk :: rid and tobind :: u32
  assumes r: "ready be0 M st" and t: "fst t \<in> set (be_preds be0)"
  defines "rows \<equiv> found tobind M t pk (bs_pair st)"
  assumes l: "bs_count st + int (length rows) < limit"
  shows "bind_search tobind limit t pk (quad_of t pk) st = Some (st\<lparr>bs_pair := last (bs_pair st # filter (pair_matches (bs_pair st)) (pairs_of (M t) pk)),
     bs_count := bs_count st + int (length rows), bs_ret := fold (\<lambda>q. bind_results q tobind) rows (bs_ret st)\<rparr>)"
proof -
  obtain pt where pt: "be_files (bs_be st) t = Some pt" "tree_at (bs_be st) t = Some (pt\<lparr>pt_table := be_pairs (bs_be st)\<rparr>)"
    "forest (be_pairs (bs_be st)) (be_files (bs_be st)) M" by (rule ready_tree [OF r t])
  let ?pt = "pt\<lparr>pt_table := be_pairs (bs_be st)\<rparr>"
  note s = forest_search [OF pt(3,1), of pk "bs_pair st"]
  show ?thesis
  proof (cases "M t pk")
    case None
    then show ?thesis using s by (simp add: bind_search_def pt(2) rows_def found_def)
  next
    case (Some ps)
    then obtain it where it: "fs_ptree_search (Some ?pt) pk (bs_pair st) = Some (Some it)"
      "it_all ?pt it = Some (filter (pair_matches (bs_pair st)) ps)" using s by auto
    have e: "filter (wanted tobind) (map (quad_of t pk) (filter (pair_matches (bs_pair st)) ps)) = rows"
      by (simp add: rows_def found_def Some)
    have "\<exists>it'. bind_loop (fs_ptree_it_next ?pt) (quad_of t pk) tobind limit it (bs_pair st) (bs_count st) (bs_ret st)
      = Some (it', last (bs_pair st # filter (pair_matches (bs_pair st)) ps), bs_count st + int (length rows), fold (\<lambda>q. bind_results q tobind) rows (bs_ret st))"
      using search.loop_all [OF it(2), of "bs_count st" tobind "quad_of t pk" limit "bs_pair st" "bs_ret st"] l unfolding e by blast
    then show ?thesis by (auto simp: bind_search_def pt(2) it(1) Some)
  qed
qed

section \<open>Properties\<close>

lemma bind_by_key_ok:
  fixes object :: bool and sv ov :: "rid list"
  assumes h: "be_holds be M" and flag: "bind_by object tobind"
  defines "kv \<equiv> if object then ov else sv" and "vv \<equiv> if object then sv else ov"
  assumes ne: "kv \<noteq> []" "pv \<noteq> []" "length pv \<noteq> length kv" and null: "FS_RID_NULL \<notin> set mv \<union> set vv"
  shows "\<exists>rows be'. fs_bind junk be tobind mv sv pv ov limit = Some (bind_answer tobind limit rows, be') \<and> be_holds be' M \<and> same_store be' be
    \<and> (\<forall>m s p obj. count (mset rows) (m, s, p, obj)
        = (if in_slot mv m \<and> in_slot sv s \<and> p \<in> set pv \<and> in_slot ov obj \<and> wanted tobind (m, s, p, obj) then quads_in object M (m, s, p, obj) else 0))"
proof -
  define lim where "lim = bind_limit tobind limit"
  let ?rows = "concat (map (\<lambda>p. concat (map (key_rows tobind M (sort_uniq mv) (sort_uniq vv) (p, object)) (sort_uniq kv))) (sort_uniq pv))"
  note f = bind_by_flags [OF flag]
  have nc: "\<not> conjunctive tobind sv pv ov" using f(1,2) ne(3) by (auto simp: conjunctive_def kv_def split: if_splits)
  have r: "ready be M (bind_start be tobind)" using h by (simp add: ready_def bind_start_def)
  have go: "\<And>st. \<not> (if object then below lim else (\<lambda>_. True)) st \<Longrightarrow> lim \<le> bs_count st" using below_ends by (metis (full_types))
  have e: "bind_branches False tobind lim (sort_uniq mv) (sort_uniq sv) (sort_uniq pv) (sort_uniq ov) st
      = bind_pred_key False object (below lim) (if object then below lim else (\<lambda>_. True)) tobind lim (sort_uniq mv) (sort_uniq kv) (sort_uniq pv) (sort_uniq vv) st" for st
    using ne(1,2) f(1,2) by (simp add: bind_branches_def kv_def vv_def split: if_splits)
  obtain st' where st': "bind_branches False tobind lim (sort_uniq mv) (sort_uniq sv) (sort_uniq pv) (sort_uniq ov) (bind_start be tobind) = Some st'"
    "bound be M tobind lim ?rows (bind_start be tobind) st'"
    unfolding e using bind_pred_key_ok [OF r below_ends go] by blast
  note b = bound_answer [OF st'(2) [unfolded lim_def]]
  have "fs_bind junk be tobind mv sv pv ov limit = Some (bind_answer tobind limit ?rows, bs_be st')"
    by (rule fs_bind_branches [OF flag]) (use ne st' nc in \<open>auto simp: kv_def lim_def split: if_splits\<close>)
  moreover have "count (mset ?rows) (m, s, p, obj)
      = (if in_slot mv m \<and> in_slot sv s \<and> p \<in> set pv \<and> in_slot ov obj \<and> wanted tobind (m, s, p, obj) then quads_in object M (m, s, p, obj) else 0)" for m s p obj
  proof -
    have "in_slot mv m \<and> in_slot sv s \<and> p \<in> set pv \<and> in_slot ov obj \<and> wanted tobind (m, s, p, obj)
      \<longleftrightarrow> p \<in> set pv \<and> (if object then obj else s) \<in> set kv \<and> in_slot mv m \<and> in_slot vv (if object then s else obj) \<and> wanted tobind (m, s, p, obj)"
      using ne(1) by (auto simp: kv_def vv_def in_slot_def split: if_splits)
    then show ?thesis using null by (subst count_pred_rows) auto
  qed
  ultimately show ?thesis using b(2,3) by (intro exI [of _ ?rows] exI [of _ "bs_be st'"]) blast
qed

text \<open>Requests by subject that give no subject and no object.\<close>

lemma bind_no_subject_ok:
  fixes pv :: "rid list" and be0 :: backend
  assumes r: "ready be0 M st"
  defines "ps \<equiv> if pv = [] then be_preds be0 else pv"
  shows "\<exists>st'. bind_no_subject tobind limit mv pv st = Some st'
    \<and> bound be0 M tobind limit (concat (map (\<lambda>p. concat (map (tree_rows be0 tobind (p, False)) (opts mv))) ps)) st st'"
proof (cases "pv = []")
  case True
  have l: "be_ptree_length (bs_be st) = be_ptree_length be0" "be_holds (bs_be st) M" "be_preds (bs_be st) = be_preds be0" using r by (auto simp: ready_def same_store_def)
  have len: "length (be_preds be0) = be_ptree_length be0" using be_opensD(6) [OF be_holds_opens [OF l(2)]] l by simp
  have "\<exists>st'. with_entry False (traverse_models (\<lambda>_. True) tobind limit mv) n st = Some st'
      \<and> bound be0 M tobind limit (concat (map (tree_rows be0 tobind (be_preds be0 ! n, False)) (opts mv))) st st'"
    if "n \<in> set [0..<be_ptree_length be0]" "ready be0 M st" for n st
    using that len by (intro with_entry_ok traverse_models_ok) auto
  from for_loop_bound [OF r this below_ends, of "[0..<be_ptree_length be0]"]
  have "\<exists>st'. for_loop (below limit) (with_entry False (traverse_models (\<lambda>_. True) tobind limit mv)) [0..<be_ptree_length be0] st = Some st'
      \<and> bound be0 M tobind limit (concat (map (\<lambda>n. concat (map (tree_rows be0 tobind (be_preds be0 ! n, False)) (opts mv))) [0..<be_ptree_length be0])) st st'" .
  moreover have "map (\<lambda>n. concat (map (tree_rows be0 tobind (be_preds be0 ! n, False)) (opts mv))) [0..<be_ptree_length be0]
    = map (\<lambda>p. concat (map (tree_rows be0 tobind (p, False)) (opts mv))) (map ((!) (be_preds be0)) [0..<length (be_preds be0)])"
    by (simp only: map_map comp_def len)
  ultimately show ?thesis unfolding map_nth by (simp only: bind_no_subject_def ps_def True l(1) if_True if_False simp_thms)
next
  case False
  have none: "concat (map (tree_rows be0 tobind (p, False)) (opts mv)) = []" if "p \<notin> set (be_preds be0)" for p
  proof -
    have "be_files (bs_be st) (p, False) = None" using be_holds_files [of "bs_be st" M p False] r that by (auto simp: ready_def same_store_def)
    then have "tree_at be0 (p, False) = None" using r by (auto simp: ready_def same_store_def tree_at_def)
    then show ?thesis by (simp add: tree_rows_def)
  qed
  have "\<exists>st'. with_pred False (traverse_models (below limit) tobind limit mv) p st = Some st'
      \<and> bound be0 M tobind limit (concat (map (tree_rows be0 tobind (p, False)) (opts mv))) st st'"
    if st: "ready be0 M st" for p st
    by (rule with_pred_ok [OF st]) (auto intro!: traverse_models_ok below_ends none simp del: concat_eq_Nil_conv)
  from for_loop_bound [OF r this below_ends, of pv] show ?thesis using False by (simp add: bind_no_subject_def ps_def)
qed

lemma bind_without_subject_ok:
  assumes h: "be_holds be M" and flag: "bind_by False tobind" and plain: "\<not> flag_set tobind FS_BIND_DISTINCT" "pv \<noteq> [] \<or> mv = []"
    and null: "FS_RID_NULL \<notin> set mv"
  shows "\<exists>rows be'. fs_bind junk be tobind mv [] pv [] limit = Some (bind_answer tobind limit rows, be') \<and> be_holds be' M \<and> same_store be' be
    \<and> (\<forall>m s p obj. count (mset rows) (m, s, p, obj)
        = (if in_slot mv m \<and> in_slot pv p \<and> wanted tobind (m, s, p, obj) then quads_in False M (m, s, p, obj) else 0))"
proof -
  define lim where "lim = bind_limit tobind limit"
  define ps where "ps = (if pv = [] then be_preds be else sort_uniq pv)"
  let ?rows = "concat (map (\<lambda>p. concat (map (tree_rows be tobind (p, False)) (opts (sort_uniq mv)))) ps)"
  note f = bind_by_flags [OF flag]
  have nc: "\<not> conjunctive tobind [] pv []" by (simp add: conjunctive_def)
  have r: "ready be M (bind_start be tobind)" using h by (simp add: ready_def bind_start_def)
  have e: "bind_branches False tobind lim (sort_uniq mv) [] (sort_uniq pv) [] st = bind_no_subject tobind lim (sort_uniq mv) (sort_uniq pv) st" for st
    using f(1) by (simp add: bind_branches_def)
  have psd: "(if sort_uniq pv = [] then be_preds be else sort_uniq pv) = ps" by (simp add: ps_def)
  obtain st' where st': "bind_branches False tobind lim (sort_uniq mv) [] (sort_uniq pv) [] (bind_start be tobind) = Some st'"
    "bound be M tobind lim ?rows (bind_start be tobind) st'"
    using bind_no_subject_ok [OF r, where pv = "sort_uniq pv"] unfolding e psd by blast
  note b = bound_answer [OF st'(2) [unfolded lim_def]]
  have nil: "sort_uniq [] = []" by simp
  have "fs_bind junk be tobind mv [] pv [] limit = Some (bind_answer tobind limit ?rows, bs_be st')"
    by (rule fs_bind_branches [OF flag]) (use plain st' nc in \<open>simp_all add: lim_def nil\<close>)
  moreover have "count (mset ?rows) (m, s, p, obj) = (if in_slot mv m \<and> in_slot pv p \<and> wanted tobind (m, s, p, obj) then quads_in False M (m, s, p, obj) else 0)" for m s p obj
  proof -
    define c where "c = (if wanted tobind (m, s, p, obj) then quads_in False M (m, s, p, obj) else 0)"
    have t: "count (mset (tree_rows be tobind (p', False) mrid)) (m, s, p, obj) = (if mrid = FS_RID_NULL \<or> mrid = m then if p' = p then c else 0 else 0)" for p' mrid
      unfolding count_tree_rows [OF h] c_def by simp
    have ok: "slot_ok (sort_uniq mv)" using null by simp
    have "count (mset ?rows) (m, s, p, obj) = (\<Sum>p' \<leftarrow> ps. if p' = p then if in_slot mv m then c else 0 else 0)"
      unfolding count_concat map_map comp_def t sum_opts [OF ok] in_slot_sort_uniq by (intro arg_cong [where f = sum_list] map_cong refl) simp
    also have "\<dots> = (if p \<in> set ps then if in_slot mv m then c else 0 else 0)"
      using be_opensD(2) [OF be_holds_opens [OF h]] by (intro sum_list_pick) (simp add: ps_def dir_ok_def)
    also have "\<dots> = (if in_slot mv m \<and> in_slot pv p then c else 0)"
      using no_pred_quads [OF h, of p False m s obj] by (auto simp: ps_def in_slot_def c_def)
    finally show ?thesis by (simp add: c_def)
  qed
  ultimately show ?thesis using b(2,3) by (intro exI [of _ ?rows] exI [of _ "bs_be st'"]) blast
qed

lemma first_leaf:
  "\<exists>n pt. get_or_create_leaf (fs_ptree_create tbl) 2 = Some (n, pt) \<and> pt_alloc pt = pt_alloc (fs_ptree_create tbl)"
proof -
  note defs = Let_def node_ref_def get_node_def slot_get_def slot_put_def load_at_def store_at_def PK_BRANCH_def null_branches_def
    FS_PTREE_SIZE_INC_def FS_PTREE_NULL_NODE_def FS_PTREE_ROOT_NODE_def IS_LEAF_def IS_NODE_def NODE_REF_def NODE_ID_def fs_ptree_new_node_def
    new_node_extend_def branch_put_def fs_ptree_new_leaf_def get_leaf_slot_def u32_def
  show ?thesis unfolding get_or_create_leaf_def fs_ptree_create_def fs_ptree_write_header_def
    apply (subst create_search.simps, simp add: defs)
    apply (subst create_search.simps, simp add: defs)
    apply (subst create_search.simps, simp add: defs)
    done
qed

lemma add_alloc:
  assumes "fs_ptree_add dedup (Some pt) pk (Some pr) = Some (r, Some pt')" "get_or_create_leaf pt pk = Some (n, pt1)"
  shows "pt_alloc pt' = pt_alloc pt1"
  using assms by (auto simp: fs_ptree_add_def Let_def slot_put_def split: Option.bind_split_asm if_split_asm prod.split_asm)

text \<open>A segment with two pairs under one key.\<close>

abbreviation sample_map :: "bool \<Rightarrow> tree_name \<Rightarrow> rid \<rightharpoonup> (rid \<times> rid) list" where
  "sample_map k \<equiv> (\<lambda>_. Map.empty)((3, k) := [2 \<mapsto> [(5, 8), (4, 7)]])"

lemma sample_segment: "\<exists>be. be_holds be (sample_map k) \<and> be_preds be = [3]"
proof -
  let ?be = "new_backend 2 True False [O_RDWR, O_CREAT]" and ?M = "\<lambda>_ :: tree_name. Map.empty :: rid \<rightharpoonup> (rid \<times> rid) list" and ?j = "\<lambda>_. null_ref"
  have f: "set [O_RDWR, O_CREAT] = {O_RDWR, O_CREAT}" "O_TRUNC \<notin> set [O_RDWR, O_CREAT]" by simp_all
  note h = new_backend_holds [OF f(1), of 2 True False]
  have pr: "be_pairs ?be = fs_ptable_create" by (rule new_backend_fields [OF f(2)])
  obtain be1 where b1: "be_holds be1 ?M" "be_preds be1 = [3]" "be_pairs be1 = fs_ptable_create"
    "be_files be1 (3, k) = Some (fs_ptree_create fs_ptable_create)"
    using open_ptree_holds [OF h(1), of 3 ?j] h(2) pr by auto
  have r1: "be_room be1 (3, k)" using b1(3,4) by (simp add: be_room_def create_room) (simp add: pt_room_def fs_ptable_create_def)
  obtain be2 pt where b2: "be_ptree_add False be1 (Some (3, k)) 2 (4, 7) = Some (0, be2)" "be2 = tree_back be1 (3, k) pt"
    "be_holds be2 (?M((3, k) := add_pair False Map.empty 2 (4, 7)))"
    using be_add_ok [OF b1(1) _ r1, of False 2 "(4, 7)"] b1(2) by auto
  have sz: "pt_size (be_pairs be2) \<le> 2048" using be_add_size [OF b1(1) r1 b2(1)] b1(3) by (simp add: fs_ptable_create_def pt_new_size_def)
  have "pt_alloc pt = pt_alloc (fs_ptree_create fs_ptable_create)"
  proof -
    obtain n pt1 where g: "get_or_create_leaf (fs_ptree_create fs_ptable_create) 2 = Some (n, pt1)" "pt_alloc pt1 = pt_alloc (fs_ptree_create fs_ptable_create)"
      using first_leaf by blast
    obtain pt' where a: "fs_ptree_add False (Some (fs_ptree_create fs_ptable_create\<lparr>pt_table := fs_ptable_create\<rparr>)) 2 (Some (4, 7)) = Some (0, pt')"
      "be2 = (case pt' of None \<Rightarrow> be1 | Some pt \<Rightarrow> tree_back be1 (3, k) pt)"
      using b2(1) b1(3,4) by (auto simp: be_ptree_add_def tree_at_def split: Option.bind_split_asm)
    have c: "fs_ptree_create fs_ptable_create\<lparr>pt_table := fs_ptable_create\<rparr> = fs_ptree_create fs_ptable_create"
      by (simp add: fs_ptree_create_def fs_ptree_write_header_def Let_def)
    have "be_files be2 (3, k) = Some pt" by (simp add: b2(2))
    then have "(case pt' of None \<Rightarrow> fs_ptree_create fs_ptable_create | Some q \<Rightarrow> q) = pt" using a(2) b1(4) by (auto split: option.splits)
    then show ?thesis using a(1) add_alloc [OF _ g(1)] g(2) unfolding c by (cases pt') auto
  qed
  then have "be_room be2 (3, k)" using sz create_room [of fs_ptable_create] by (simp add: b2(2) be_room_def ptree_room_def cap_def pt_room_def)
  from be_add_ok [OF b2(3) _ this, of False 2 "(5, 8)"] obtain be3 where
    "be_holds be3 ((?M((3, k) := add_pair False Map.empty 2 (4, 7)))((3, k) := add_pair False (add_pair False Map.empty 2 (4, 7)) 2 (5, 8)))"
    "be_preds be3 = [3]" using b1(2) by (auto simp: b2(2))
  then show ?thesis by (intro exI [of _ be3]) (simp add: add_pair_def)
qed



text \<open>
  C7: A request by subject that gives neither subjects nor objects and is not for distinct values returns exactly the
  stored quads of the given graphs and predicates, or of all predicates of the segment when none is given,
  each as often as it is stored, up to the limit.
\<close>

theorem bind_without_subject_complete:
  assumes "be_holds be M" "bind_by False tobind" "\<not> flag_set tobind FS_BIND_DISTINCT" "pv \<noteq> [] \<or> mv = []" "FS_RID_NULL \<notin> set mv"
  shows "\<exists>rows be'. fs_bind junk be tobind mv [] pv [] limit = Some (bind_answer tobind limit rows, be') \<and> be_holds be' M \<and> same_store be' be
    \<and> (\<forall>m s p obj. count (mset rows) (m, s, p, obj)
        = (if in_slot mv m \<and> in_slot pv p \<and> wanted tobind (m, s, p, obj) then quads_in False M (m, s, p, obj) else 0))"
  using bind_without_subject_ok [OF assms] .

theorem bind_without_subject_complete_witness:
  "\<exists>be rows be'. fs_bind (\<lambda>_. 0) be FS_BIND_BY_SUBJECT [] [] [] [] 10 = Some (bind_answer FS_BIND_BY_SUBJECT 10 rows, be') \<and> mset rows = {#(5, 2, 3, 8), (4, 2, 3, 7)#}"
proof -
  obtain be where b: "be_holds be (sample_map False)" "be_preds be = [3]" using sample_segment by blast
  have fl: "bind_by False FS_BIND_BY_SUBJECT" "\<not> flag_set FS_BIND_BY_SUBJECT FS_BIND_DISTINCT" "\<And>q. wanted FS_BIND_BY_SUBJECT q"
    by (simp_all add: bind_by_def bind_flag_defs wanted_def bind_same_def graph_ok_def FS_BIND_SAME_MASK_def FS_BIND_SAME_XXXX_def FS_QUERY_DEFAULT_GRAPH_def)
  obtain rows be' where r: "fs_bind (\<lambda>_. 0) be FS_BIND_BY_SUBJECT [] [] [] [] 10 = Some (bind_answer FS_BIND_BY_SUBJECT 10 rows, be')"
    "\<forall>m s p obj. count (mset rows) (m, s, p, obj)
        = (if in_slot [] m \<and> in_slot [] p \<and> wanted FS_BIND_BY_SUBJECT (m, s, p, obj) then quads_in False (sample_map False) (m, s, p, obj) else 0)"
    using bind_without_subject_complete [OF b(1) fl(1,2), of "[]" "[]" "\<lambda>_. 0" 10] by auto
  have "count (mset rows) q = count {#(5, 2, 3, 8), (4, 2, 3, 7)#} q" for q
    using r(2) fl(3) by (cases q) (auto simp: in_slot_def quads_in_def)
  then show ?thesis using r(1) multiset_eqI by blast
qed

text \<open>
  C20: A request by subject with two objects, no graph and no predicate misses quads: the search for the second object
  is restricted to the graph in which the first one was found, because the pair that is searched for is
  also the one that the iterator fills and is not cleared between the searches.
\<close>

theorem bind_misses_graph:
  assumes h: "be_holds be M" "be_preds be = [p]" "M (p, False) s = Some [(g2, o2), (g1, o1)]" and g: "g1 \<noteq> g2" "g1 \<noteq> FS_RID_NULL"
    and ob: "sint o1 < sint o2" "o1 \<noteq> FS_RID_NULL" "o2 \<noteq> FS_RID_NULL"
  shows "\<exists>be'. fs_bind junk be (FS_BIND_BY_SUBJECT OR FS_BIND_MODEL OR FS_BIND_OBJECT) [] [s] [] [o1, o2] (- 1) = Some (Some [[g1], [o1]], be')
    \<and> quads_in False M (g1, s, p, o1) = 1 \<and> quads_in False M (g2, s, p, o2) = 1"
proof -
  define tb where "tb = FS_BIND_BY_SUBJECT OR FS_BIND_MODEL OR FS_BIND_OBJECT"
  have tb: "tb = 0x1000009" by (simp add: tb_def bind_flag_defs)
  have fl: "bind_by False tb" "bind_cols tb = 2" "bind_limit tb (- 1) = 2147483647" "\<And>q. wanted tb q" "flag_set tb FS_BIND_BY_SUBJECT" "tb AND FS_BIND_BY_OBJECT = 0"
    unfolding tb by (simp_all add: bind_by_def bind_cols_def bind_limit_def slot_bits_def bind_flag_defs wanted_def bind_same_def graph_ok_def
      FS_BIND_SAME_MASK_def FS_BIND_SAME_XXXX_def FS_QUERY_DEFAULT_GRAPH_def FS_INT_MAX_def)
  have col: "columns tb qs = [map (\<lambda>(m, s, p, obj). m) qs, map (\<lambda>(m, s, p, obj). obj) qs]" for qs unfolding tb by (simp add: columns_def slots_def bind_flag_defs)
  have oo: "o1 \<noteq> o2" using ob(1) by auto
  have su: "sort_uniq [o1, o2] = [o1, o2]" "sort_uniq [s] = [s]" "sort_uniq [] = []"
    using ob(1) oo by (simp_all add: sort_uniq_ok uniq_spec_def qsort_def rid_compare_def)
  define st0 where "st0 = bind_start be tb"
  have len: "be_ptree_length be = 1" using be_opensD(6) [OF be_holds_opens [OF h(1)]] h(2) by simp
  obtain be1 where b1: "fs_backend_ptree_limited_open be 0 = Some be1" "be_holds be1 M" "same_store be1 be"
    "be_ptrees_priv be1 ! 0 = \<lparr>pr_pred = p, pr_ptree_s = True, pr_ptree_o = True\<rparr>" using limited_open_holds [OF h(1), of 0] len h(2) by auto
  have ld: "load_at (be_ptrees_priv be1) 0 = Some \<lparr>pr_pred = p, pr_ptree_s = True, pr_ptree_o = True\<rparr>"
    using be_opensD(7) [OF be_holds_opens [OF b1(2)]] b1(3,4) len by (auto simp: same_store_def load_at_def)
  define st1 where "st1 = \<lparr>bs_be = be1, bs_count = 0, bs_ret = columns tb [], bs_pair = (FS_RID_NULL, o1)\<rparr>"
  have r1: "ready be M st1" using b1(2,3) by (simp add: ready_def st1_def)
  have f1: "found tb M (p, False) s (FS_RID_NULL, o1) = [(g1, s, p, o1)]" using h(3) fl(4) ob oo by (simp add: found_def pair_matches_def)
  have s1: "bind_search tb 2147483647 (p, False) s (quad_of (p, False) s) st1
    = Some (st1\<lparr>bs_pair := (g1, o1), bs_count := 1, bs_ret := columns tb [(g1, s, p, o1)]\<rparr>)"
    using bind_search_all [OF r1, of "(p, False)" tb s 2147483647] h(2,3) f1 ob oo fold_columns [of tb "[(g1, s, p, o1)]" "[]"]
    by (simp add: st1_def pair_matches_def)
  define st2 where "st2 = st1\<lparr>bs_pair := (g1, o2), bs_count := 1, bs_ret := columns tb [(g1, s, p, o1)]\<rparr>"
  have r2: "ready be M st2" using r1 by (simp add: ready_def st2_def)
  have f2: "found tb M (p, False) s (g1, o2) = []" using h(3) g ob oo by (simp add: found_def pair_matches_def)
  have s2: "bind_search tb 2147483647 (p, False) s (quad_of (p, False) s) st2 = Some st2"
    using bind_search_all [OF r2, of "(p, False)" tb s 2147483647] h(2,3) f2 g ob oo by (simp add: st2_def pair_matches_def)
  have t: "turns [] = [0]" "turns [o1, o2] = [0, 1]" by (simp_all add: turns_def upt_rec)
  have br: "bind_branches False tb 2147483647 [] [s] [] [o1, o2] st0 = Some st2"
    using s1 s2 b1(1) ld fl(5,6) len
    by (simp add: bind_branches_def bind_all_preds_def st0_def bind_start_def with_entry_def ref_tree_def search_key_def t set_pair_def load_at_def below_def
      no_rows [symmetric] st1_def st2_def)
  have nc: "\<not> conjunctive tb [s] [] [o1, o2]" by (simp add: conjunctive_def)
  have bd: "bound be M tb (bind_limit tb (- 1)) [(g1, s, p, o1)] st0 st2"
    using r2 fl(3) fold_columns [of tb "[(g1, s, p, o1)]" "[]"] by (simp add: bound_def ready_def st0_def st2_def st1_def bind_start_def no_rows)
  have "fs_bind junk be tb [] [s] [] [o1, o2] (- 1) = Some (bind_answer tb (- 1) [(g1, s, p, o1)], bs_be st2)"
    by (rule fs_bind_branches [OF fl(1) _ _ bd [unfolded st0_def]]) (use br nc in \<open>simp_all add: su fl(3) st0_def\<close>)
  then show ?thesis unfolding tb_def [symmetric] using h(3) g oo by (simp add: bind_answer_def fl(2,3) col quads_in_def)
qed

theorem bind_misses_graph_witness:
  "\<exists>be be'. fs_bind (\<lambda>_. 0) be (FS_BIND_BY_SUBJECT OR FS_BIND_MODEL OR FS_BIND_OBJECT) [] [2] [] [7, 8] (- 1) = Some (Some [[4], [7]], be')"
proof -
  obtain be where b: "be_holds be (sample_map False)" "be_preds be = [3]" using sample_segment by blast
  show ?thesis using bind_misses_graph [OF b, of 2 5 8 4 7 "\<lambda>_. 0"] by (auto simp: FS_RID_NULL_def)
qed

end
