(* ===== verification/QueryGraph.thy ===== *)
theory QueryGraph
  imports QueryBind
begin

text \<open>
  Requests for whole graphs: \<open>fs_bind\<close> lists the triples of the chains of the model index, which the
  iterator checks against the trees when a deletion has marked them.
\<close>

section \<open>Reading a chain\<close>

abbreviation chain_next :: "(rid \<Rightarrow> ptree option) \<Rightarrow> tbchain \<times> tbchain_it option \<Rightarrow> (triple option \<times> tbchain \<times> tbchain_it option) option" where
  "chain_next lk \<equiv> (\<lambda>(bc, it). fs_tbchain_it_next (Some lk) bc it)"

lemma chain_loop:
  assumes "tb_it_all (Some lk) bc it = Some (ts, bc')" "n + int (length (filter (wanted tobind) (map quad ts))) < limit"
  shows "\<exists>it' y. bind_loop (chain_next lk) quad tobind limit (bc, Some it) x n ret
    = Some ((bc', it'), y, n + int (length (filter (wanted tobind) (map quad ts))), fold (\<lambda>q. bind_results q tobind) (filter (wanted tobind) (map quad ts)) ret)"
  using assms
proof (induction ts arbitrary: bc it x n ret)
  case Nil
  from Nil.prems(1) obtain it1 where "fs_tbchain_it_next (Some lk) bc (Some it) = Some (None, bc', it1)"
    by (subst (asm) tb_it_all.simps) (auto split: Option.bind_splits option.splits)
  then show ?case using bind_loop_None [of "chain_next lk" "(bc, Some it)" "(bc', it1)"] by (cases x) simp
next
  case (Cons t ts)
  from Cons.prems(1) obtain bc1 it1 where s: "fs_tbchain_it_next (Some lk) bc (Some it) = Some (Some t, bc1, it1)" "tb_it_all (Some lk) bc1 (the it1) = Some (ts, bc')"
    by (subst (asm) tb_it_all.simps) (auto split: Option.bind_splits option.splits)
  obtain i where i: "it1 = Some i" using s(1) by (auto simp: fs_tbchain_it_next_def)
  have st: "chain_next lk (bc, Some it) = Some (Some t, bc1, Some i)" using s(1) i by simp
  have al: "tb_it_all (Some lk) bc1 i = Some (ts, bc')" using s(2) i by simp
  show ?case
  proof (cases "wanted tobind (quad t)")
    case True
    then show ?thesis using Cons.IH [OF al, of "n + 1" t "bind_results (quad t) tobind ret"] Cons.prems(2)
      by (simp add: bind_loop_Some [of "chain_next lk", OF st] add.assoc)
  next
    case False
    then show ?thesis using Cons.IH [OF al, of n t ret] Cons.prems(2) by (simp add: bind_loop_Some [of "chain_next lk", OF st])
  qed
qed

lemma lookup_index:
  assumes h: "be_holds be M"
  shows "\<exists>(oh :: rid \<Rightarrow> tree_name \<times> rid \<Rightarrow> nat) oP. index_holds (be_lookup be) (\<lambda>p. M (p, False)) oh oP"
proof -
  have "\<exists>(oh :: tree_name \<times> rid \<Rightarrow> nat) oP. case be_lookup be p of None \<Rightarrow> M (p, False) = Map.empty | Some pt \<Rightarrow> ptree_holds pt (M (p, False)) oh oP" for p
  proof (cases "p \<in> set (be_preds be)")
    case True
    then obtain pt where pt: "be_files be (p, False) = Some pt" using be_holds_files [OF h, of p False] by blast
    then have "be_lookup be p = Some (pt\<lparr>pt_table := be_pairs be\<rparr>)" using True by (simp add: be_lookup_def tree_at_def)
    then show ?thesis using forest_view [OF be_opensD(5) [OF be_holds_opens [OF h]] pt] by auto
  next
    case False
    then show ?thesis using be_holds_none [OF h] by (simp add: be_lookup_def)
  qed
  then show ?thesis unfolding index_holds_def by metis
qed

text \<open>The triples of a chain, and that none has the null identifier as its object, which the check would take for a wildcard.\<close>

definition chain_of :: "(rid \<rightharpoonup> u8 \<times> triple list list) \<Rightarrow> rid \<Rightarrow> triple list" where
  "chain_of C m = (case C m of None \<Rightarrow> [] | Some (fl, xss) \<Rightarrow> concat xss)"

definition plain_objects :: "(rid \<rightharpoonup> u8 \<times> triple list list) \<Rightarrow> bool" where
  "plain_objects C \<longleftrightarrow> (\<forall>m. \<forall>t \<in> set (chain_of C m). snd (snd t) \<noteq> FS_RID_NULL)"

definition graph_triples :: "(tree_name \<Rightarrow> rid \<rightharpoonup> (rid \<times> rid) list) \<Rightarrow> rid \<Rightarrow> triple set" where
  "graph_triples M m = {(s, p, obj). s \<noteq> FS_RID_GONE \<and> quads_in False M (m, s, p, obj) \<noteq> 0}"

lemma in_index_quads:
  assumes "m \<noteq> FS_RID_NULL" "obj \<noteq> FS_RID_NULL"
  shows "in_index (\<lambda>p. M (p, False)) m (s, p, obj) \<longleftrightarrow> quads_in False M (m, s, p, obj) \<noteq> 0"
  using assms by (force simp: in_index_def quads_in_def pair_matches_def count_eq_zero_iff)

lemma iterate_graph:
  assumes sd: "be_sound be M nodes C" and ok: "plain_objects C" and m: "m \<noteq> FS_RID_NULL" "fs_mhash_get (be_models be) m > 1"
  shows "\<exists>it ts bc' C'. fs_tbchain_new_iterator (Some (be_model_list be)) m (fs_mhash_get (be_models be) m) = Some (Some it)
    \<and> tb_it_all (Some (be_lookup be)) (be_model_list be) it = Some (ts, bc') \<and> be_sound (be\<lparr>be_model_list := bc'\<rparr>) M nodes C'
    \<and> set ts = graph_triples M m \<and> length ts \<le> length (chain_of C m) \<and> plain_objects C' \<and> (\<forall>n. length (chain_of C' n) = length (chain_of C n))"
proof -
  have bh: "be_holds be M" "preds_ok be" "\<And>q. quads_in False M q = quads_in True M q" "models_rep be nodes C" "models_cover be M C"
    using sd unfolding be_sound_def by blast+
  obtain oh :: "rid \<Rightarrow> tree_name \<times> rid \<Rightarrow> nat" and oP where ix: "index_holds (be_lookup be) (\<lambda>p. M (p, False)) oh oP" using lookup_index [OF bh(1)] by blast
  obtain fl xss where c: "C m = Some (fl, xss)" "nodes m = fs_mhash_get (be_models be) m" "tb_holds (be_model_list be) nodes C"
    using bh(4) m(2) unfolding models_rep_def by fastforce
  define ss where "ss = (fl AND FS_TBCHAIN_SUPERSET \<noteq> 0)"
  define ok where "ok = in_index (\<lambda>p. M (p, False)) m"
  define fl' where "fl' = (let f = (if \<exists>t \<in> set (concat xss). dropped ss ok t then fl OR FS_TBCHAIN_SPARSE else fl) in if ss then f AND NOT FS_TBCHAIN_SUPERSET else f)"
  define C' where "C' = C(m \<mapsto> (fl', map (map (mark ss ok)) xss))"
  obtain it bc' where it: "fs_tbchain_new_iterator (Some (be_model_list be)) m (nodes m) = Some (Some it)"
    "tb_it_all (Some (be_lookup be)) (be_model_list be) it = Some (filter (keep ss ok) (concat xss), bc')" "tb_holds bc' nodes C'"
    using tbchain_iterate_ok [OF c(3,1) ix, of m] unfolding ss_def [symmetric] ok_def [symmetric] fl'_def [symmetric] C'_def [symmetric] by blast
  have nn: "obj \<noteq> FS_RID_NULL" if "(s, p, obj) \<in> set (concat xss)" for s p obj
    using assms(2) c(1) that unfolding plain_objects_def chain_of_def by (metis (no_types, lifting) case_prod_conv option.simps(5) snd_conv)
  have okq: "ok (s, p, obj) \<longleftrightarrow> quads_in False M (m, s, p, obj) \<noteq> 0" if "(s, p, obj) \<in> set (concat xss)" for s p obj
    unfolding ok_def by (rule in_index_quads [OF m(1) nn [OF that]])
  have cov: "quads_in False M (m, s, p, obj) \<noteq> 0 \<Longrightarrow> (s, p, obj) \<in> set (concat xss)"
    "\<not> ss \<Longrightarrow> (s, p, obj) \<in> set (concat xss) \<Longrightarrow> s = FS_RID_GONE \<or> quads_in False M (m, s, p, obj) \<noteq> 0" for s p obj
    using bh(5) m c(1) unfolding models_cover_def ss_def by blast+
  have "t \<in> set (filter (keep ss ok) (concat xss)) \<longleftrightarrow> t \<in> graph_triples M m" for t
  proof -
    obtain s p obj where t: "t = (s, p, obj)" by (cases t)
    show ?thesis using okq [of s p obj] cov [of s p obj] by (auto simp: t graph_triples_def keep_def dropped_def)
  qed
  then have ts: "set (filter (keep ss ok) (concat xss)) = graph_triples M m" by blast
  have mk: "(s, p, obj) \<in> set (concat (map (map (mark ss ok)) xss)) \<Longrightarrow> (\<exists>s'. (s', p, obj) \<in> set (concat xss) \<and> (s = s' \<or> s = FS_RID_GONE))" for s p obj
    by (fastforce simp: mark_def split: if_split_asm)
  have cov': "quads_in False M (m, s, p, obj) \<noteq> 0 \<Longrightarrow> (s, p, obj) \<in> set (concat (map (map (mark ss ok)) xss))" for s p obj
  proof -
    assume q: "quads_in False M (m, s, p, obj) \<noteq> 0"
    then have i: "(s, p, obj) \<in> set (concat xss)" by (rule cov(1))
    then have "mark ss ok (s, p, obj) = (s, p, obj)" using okq q by (simp add: mark_def dropped_def)
    then show ?thesis using i by (force simp: image_iff)
  qed
  have exact': "(s, p, obj) \<in> set (concat (map (map (mark ss ok)) xss)) \<Longrightarrow> s = FS_RID_GONE \<or> quads_in False M (m, s, p, obj) \<noteq> 0" for s p obj
    using okq cov(2) by (fastforce simp: mark_def dropped_def split: if_split_asm)
  have "models_cover (be\<lparr>be_model_list := bc'\<rparr>) M C'"
    unfolding models_cover_def
  proof (intro allI impI conjI)
    fix n s p obj assume "n \<noteq> FS_RID_NULL" "fs_mhash_get (be_models (be\<lparr>be_model_list := bc'\<rparr>)) n = 0"
    then show "quads_in False M (n, s, p, obj) = 0" using bh(5) unfolding models_cover_def by simp
  next
    fix n f ys s p obj assume "n \<noteq> FS_RID_NULL" "1 < fs_mhash_get (be_models (be\<lparr>be_model_list := bc'\<rparr>)) n" "C' n = Some (f, ys)" "quads_in False M (n, s, p, obj) \<noteq> 0"
    then show "(s, p, obj) \<in> set (concat ys)" using bh(5) cov' [of s p obj] unfolding models_cover_def C'_def by (cases "n = m") auto
  next
    fix n f ys s p obj assume "n \<noteq> FS_RID_NULL" "1 < fs_mhash_get (be_models (be\<lparr>be_model_list := bc'\<rparr>)) n" "C' n = Some (f, ys)"
      "f AND FS_TBCHAIN_SUPERSET = 0" "(s, p, obj) \<in> set (concat ys)"
    then show "s = FS_RID_GONE \<or> quads_in False M (n, s, p, obj) \<noteq> 0" using bh(5) exact' [of s p obj] unfolding models_cover_def C'_def by (cases "n = m") auto
  qed
  moreover have "models_rep (be\<lparr>be_model_list := bc'\<rparr>) nodes C'" using it(3) bh(4) by (auto simp: models_rep_def C'_def)
  moreover have "be_holds (be\<lparr>be_model_list := bc'\<rparr>) M" "preds_ok (be\<lparr>be_model_list := bc'\<rparr>)"
    using bh(1,2) by (simp_all add: be_holds_def be_opens_def keep_flags_def dir_ok_def be_preds_def ring_ok_def ring_queue_def preds_ok_def)
  ultimately have "be_sound (be\<lparr>be_model_list := bc'\<rparr>) M nodes C'" using bh(3) unfolding be_sound_def by blast
  moreover have "plain_objects C'"
    unfolding plain_objects_def
  proof (intro allI ballI)
    fix n t assume t: "t \<in> set (chain_of C' n)"
    obtain s p obj where e: "t = (s, p, obj)" by (cases t)
    show "snd (snd t) \<noteq> FS_RID_NULL"
    proof (cases "n = m")
      case True
      then have "(s, p, obj) \<in> set (concat (map (map (mark ss ok)) xss))" using t by (simp add: chain_of_def C'_def e)
      then show ?thesis using mk nn e by (metis snd_conv)
    next
      case False
      then have "chain_of C' n = chain_of C n" by (simp add: chain_of_def C'_def)
      then show ?thesis using t assms(2) unfolding plain_objects_def by metis
    qed
  qed
  moreover have "length (chain_of C' n) = length (chain_of C n)" for n
    by (simp add: chain_of_def C'_def c(1) map_concat [symmetric])
  moreover have "length (filter (keep ss ok) (concat xss)) \<le> length (chain_of C m)" by (simp add: chain_of_def c(1))
  ultimately show ?thesis using it(1,2) c(2) ts by metis
qed

section \<open>Requests for graphs\<close>

definition graph_rows :: "u32 \<Rightarrow> (tree_name \<Rightarrow> rid \<rightharpoonup> (rid \<times> rid) list) \<Rightarrow> rid set \<Rightarrow> quad set" where
  "graph_rows tobind M G = {(m, s, p, obj). m \<in> G \<and> (s, p, obj) \<in> graph_triples M m \<and> wanted tobind (m, s, p, obj)}"

lemma bind_models_ok:
  assumes "be_sound (bs_be st) M nodes C" "plain_objects C" "FS_RID_NULL \<notin> set mv" "\<forall>m \<in> set mv. fs_mhash_get (be_models (bs_be st)) m \<noteq> 1"
    "bs_count st + int (\<Sum>m \<leftarrow> mv. length (chain_of C m)) < limit"
  shows "\<exists>st' rows C'. bind_models tobind limit mv st = Some st' \<and> be_sound (bs_be st') M nodes C'
    \<and> bs_ret st' = fold (\<lambda>q. bind_results q tobind) rows (bs_ret st) \<and> set rows = graph_rows tobind M (set mv)"
  using assms
proof (induction mv arbitrary: st C)
  case Nil
  then show ?case by (auto simp: bind_models_def graph_rows_def intro: exI [of _ "[]"])
next
  case (Cons m mv)
  have m: "m \<noteq> FS_RID_NULL" "FS_RID_NULL \<notin> set mv" using Cons.prems(3) by auto
  let ?quad = "\<lambda>(s, p, obj). (m, s, p, obj)"
  consider "fs_mhash_get (be_models (bs_be st)) m = 0" | "fs_mhash_get (be_models (bs_be st)) m > 1" using Cons.prems(4) by fastforce
  then show ?case
  proof cases
    case 1
    have l: "bs_count st + int (\<Sum>m \<leftarrow> mv. length (chain_of C m)) < limit" using Cons.prems(5) by simp
    have "models_cover (bs_be st) M C" using Cons.prems(1) unfolding be_sound_def by blast
    then have "quads_in False M (m, s, p, obj) = 0" for s p obj using 1 m(1) unfolding models_cover_def by blast
    then have "graph_triples M m = {}" by (simp add: graph_triples_def)
    then have "graph_rows tobind M (set (m # mv)) = graph_rows tobind M (set mv)" by (auto simp: graph_rows_def)
    moreover have "bind_models tobind limit (m # mv) st = bind_models tobind limit mv st" using 1 by (simp add: bind_models_def)
    ultimately show ?thesis using Cons.IH [OF Cons.prems(1,2) m(2) _ l] Cons.prems(4) by simp
  next
    case 2
    obtain it ts bc C1 where g: "fs_tbchain_new_iterator (Some (be_model_list (bs_be st))) m (fs_mhash_get (be_models (bs_be st)) m) = Some (Some it)"
      "tb_it_all (Some (be_lookup (bs_be st))) (be_model_list (bs_be st)) it = Some (ts, bc)" "be_sound ((bs_be st)\<lparr>be_model_list := bc\<rparr>) M nodes C1"
      "set ts = graph_triples M m" "length ts \<le> length (chain_of C m)" "plain_objects C1" "\<forall>n. length (chain_of C1 n) = length (chain_of C n)"
      using iterate_graph [OF Cons.prems(1,2) m(1) 2] by blast
    define r where "r = filter (wanted tobind) (map ?quad ts)"
    have lr: "length r \<le> length (chain_of C m)" using g(5) length_filter_le [of "wanted tobind" "map ?quad ts"] unfolding r_def length_map by linarith
    then have "bs_count st + int (length r) < limit" using Cons.prems(5) by simp
    then obtain it' y where lp: "bind_loop (chain_next (be_lookup (bs_be st))) ?quad tobind limit (be_model_list (bs_be st), Some it) (0, 0, 0) (bs_count st) (bs_ret st)
      = Some ((bc, it'), y, bs_count st + int (length r), fold (\<lambda>q. bind_results q tobind) r (bs_ret st))"
      using chain_loop [OF g(2), of "bs_count st" tobind ?quad limit "(0, 0, 0)" "bs_ret st"] unfolding r_def by auto
    let ?st1 = "st\<lparr>bs_be := (bs_be st)\<lparr>be_model_list := bc\<rparr>, bs_count := bs_count st + int (length r), bs_ret := fold (\<lambda>q. bind_results q tobind) r (bs_ret st)\<rparr>"
    have e: "bind_models tobind limit (m # mv) st = bind_models tobind limit mv ?st1"
      using 2 g(1) lp by (simp add: bind_models_def Let_def)
    have s: "be_sound (bs_be ?st1) M nodes C1" "\<forall>m \<in> set mv. fs_mhash_get (be_models (bs_be ?st1)) m \<noteq> 1" using g(3) Cons.prems(4) by simp_all
    have l: "bs_count ?st1 + int (\<Sum>m \<leftarrow> mv. length (chain_of C1 m)) < limit" using Cons.prems(5) lr g(7) by simp
    obtain st' rows C' where t: "bind_models tobind limit mv ?st1 = Some st'" "be_sound (bs_be st') M nodes C'"
      "bs_ret st' = fold (\<lambda>q. bind_results q tobind) rows (bs_ret ?st1)" "set rows = graph_rows tobind M (set mv)"
      using Cons.IH [OF s(1) g(6) m(2) s(2) l] by blast
    have "set r = graph_rows tobind M {m}" unfolding r_def set_filter set_map g(4) by (auto simp: graph_rows_def)
    then have "set (r @ rows) = graph_rows tobind M (set (m # mv))" using t(4) by (auto simp: graph_rows_def)
    then show ?thesis using e t by (intro exI [of _ st'] exI [of _ "r @ rows"] exI [of _ C']) simp
  qed
qed

lemma distinct_sum_le:
  assumes "distinct ys" "set ys \<subseteq> set xs"
  shows "(\<Sum>y \<leftarrow> ys. f y) \<le> (\<Sum>x \<leftarrow> xs. f x :: nat)"
proof -
  have "(\<Sum>y \<leftarrow> ys. f y) = sum f (set ys)" using assms(1) by (simp add: sum_list_distinct_conv_sum_set)
  also have "\<dots> \<le> sum f (set xs)" using assms(2) by (intro sum_mono2) auto
  also have "\<dots> \<le> (\<Sum>x \<leftarrow> xs. f x)" by (induction xs) (auto simp: insert_absorb sum.insert_if)
  finally show ?thesis .
qed

lemma bind_graphs_ok:
  assumes sd: "be_sound be M nodes C" and ok: "plain_objects C" and flag: "bind_by object tobind" and cols: "bind_cols tobind \<noteq> 0"
    and mv: "mv \<noteq> []" "FS_RID_NULL \<notin> set mv" "\<forall>m \<in> set mv. fs_mhash_get (be_models be) m \<noteq> 1"
    and len: "int (\<Sum>m \<leftarrow> mv. length (chain_of C m)) < FS_INT_MAX"
  shows "\<exists>rows be' C'. fs_bind junk be tobind mv [] [] [] (- 1) = Some (Some (columns tobind rows), be') \<and> be_sound be' M nodes C'
    \<and> set rows = graph_rows tobind M (set mv)"
proof -
  note f = bind_by_flags [OF flag]
  have nc: "\<not> conjunctive tobind [] [] []" by (simp add: conjunctive_def)
  have nil: "sort_uniq [] = []" by simp
  have "(\<Sum>m \<leftarrow> sort_uniq mv. length (chain_of C m)) \<le> (\<Sum>m \<leftarrow> mv. length (chain_of C m))" by (rule distinct_sum_le) simp_all
  then have l: "bs_count (bind_start be tobind) + int (\<Sum>m \<leftarrow> sort_uniq mv. length (chain_of C m)) < FS_INT_MAX" using len by (simp add: bind_start_def)
  have n1: "FS_RID_NULL \<notin> set (sort_uniq mv)" and n2: "\<forall>m \<in> set (sort_uniq mv). fs_mhash_get (be_models (bs_be (bind_start be tobind))) m \<noteq> 1"
    using mv(2,3) by (simp_all add: bind_start_def)
  have sd': "be_sound (bs_be (bind_start be tobind)) M nodes C" using sd by (simp add: bind_start_def)
  obtain st' rows C' where r: "bind_models tobind FS_INT_MAX (sort_uniq mv) (bind_start be tobind) = Some st'" "be_sound (bs_be st') M nodes C'"
    "bs_ret st' = fold (\<lambda>q. bind_results q tobind) rows (bs_ret (bind_start be tobind))" "set rows = graph_rows tobind M (set (sort_uniq mv))"
    using bind_models_ok [OF sd' ok n1 n2 l] by blast
  have "bs_ret st' = columns tobind rows" using r(3) fold_columns [of tobind rows "[]"] by (simp add: bind_start_def no_rows)
  moreover have "fs_bind junk be tobind mv [] [] [] (- 1) = Some (Some (bs_ret st'), bs_be st')"
    using r(1) mv(1) f(3,4) nc cols by (simp add: fs_bind_def Let_def nil bind_start_def)
  ultimately show ?thesis using r(2,4) by auto
qed

section \<open>Properties\<close>



end
