(* ===== verification/QueryReverse.thy ===== *)
theory QueryReverse
  imports QueryBind
begin

text \<open>
  \<open>fs_reverse_bind\<close>: the subjects that satisfy several conditions \<open>?s p o\<close> at once.  The code reads the
  conditions in the order of their number of rows and intersects.
\<close>

section \<open>Ordering the iterators\<close>

abbreviation width :: "tree_it \<Rightarrow> int" where
  "width r \<equiv> int (fs_ptree_it_get_length (Some (snd r)))"

lemma narrowest_cases:
  "(fst (narrowest res js best) \<in> set js \<and> res ! fst (narrowest res js best) \<noteq> None)
   \<or> (narrowest res js best = best \<and> (\<forall>j \<in> set js. \<forall>r. res ! j = Some r \<longrightarrow> snd best \<le> width r))"
proof (induction js arbitrary: best)
  case (Cons j js)
  show ?case
  proof (cases "res ! j")
    case None
    then show ?thesis using Cons.IH [of best] by auto
  next
    case (Some r)
    obtain t it where r: "r = (t, it)" by (cases r)
    show ?thesis
    proof (cases "int (fs_ptree_it_get_length (Some it)) < snd best")
      case True
      then show ?thesis using Cons.IH [of "(j, int (fs_ptree_it_get_length (Some it)))"] Some r by auto
    next
      case False
      then show ?thesis using Cons.IH [of best] Some r by auto
    qed
  qed
qed simp

lemma somes_update:
  assumes "j < length xs" "xs ! j = Some y"
  shows "mset (filter (\<lambda>x. \<not> Option.is_none x) xs) = add_mset (Some y) (mset (filter (\<lambda>x. \<not> Option.is_none x) (xs[j := None])))"
proof -
  have e: "mset xs = add_mset (Some y) (mset xs - {#Some y#})" using assms nth_mem_mset [of j xs] by simp
  have "mset (xs[j := None]) = add_mset None (mset xs - {#Some y#})" using assms by (simp add: mset_update)
  then show ?thesis unfolding mset_filter by (subst e) (simp add: is_none_code)
qed

lemma by_width_perm:
  assumes "res \<noteq> []" "length (filter (\<lambda>x. \<not> Option.is_none x) res) \<le> n" "\<forall>r. Some r \<in> set res \<longrightarrow> width r < FS_INT_MAX"
  shows "length (by_width n res) = n \<and> mset (filter (\<lambda>x. \<not> Option.is_none x) (by_width n res)) = mset (filter (\<lambda>x. \<not> Option.is_none x) res)"
  using assms
proof (induction n arbitrary: res)
  case (Suc n)
  define j where "j = fst (narrowest res [0..<length res] (0, FS_INT_MAX))"
  have ne: "res[j := None] \<noteq> []" using Suc.prems(1) by simp
  have w: "\<forall>r. Some r \<in> set (res[j := None]) \<longrightarrow> width r < FS_INT_MAX"
    using Suc.prems(3) set_update_subset_insert [of res j None] by blast
  have b: "by_width (Suc n) res = res ! j # by_width n (res[j := None])" by (simp add: j_def Let_def)
  consider y where "j < length res" "res ! j = Some y" | "j = 0" "\<forall>r. Some r \<notin> set res"
  proof (cases "j \<in> set [0..<length res] \<and> res ! j \<noteq> None")
    case False
    then have "j = 0" and all: "\<forall>k \<in> set [0..<length res]. \<forall>r. res ! k = Some r \<longrightarrow> FS_INT_MAX \<le> width r"
      using narrowest_cases [of res "[0..<length res]" "(0, FS_INT_MAX)"] unfolding j_def by auto
    moreover have "Some r \<notin> set res" for r
    proof
      assume m: "Some r \<in> set res"
      then obtain k where "k < length res" "res ! k = Some r" unfolding in_set_conv_nth by blast
      moreover from this(1) have "k \<in> set [0..<length res]" by simp
      ultimately have "FS_INT_MAX \<le> width r" using all by blast
      moreover have "width r < FS_INT_MAX" using Suc.prems(3) m by blast
      ultimately show False by linarith
    qed
    ultimately show ?thesis using that(2) by blast
  qed (use that(1) in auto)
  then show ?case
  proof cases
    case 1
    have f: "mset (filter (\<lambda>x. \<not> Option.is_none x) res) = add_mset (Some y) (mset (filter (\<lambda>x. \<not> Option.is_none x) (res[j := None])))" by (rule somes_update [OF 1])
    have "length (filter (\<lambda>x. \<not> Option.is_none x) res) = Suc (length (filter (\<lambda>x. \<not> Option.is_none x) (res[j := None])))"
      using arg_cong [where f = size, OF f] unfolding size_mset size_add_mset .
    then have "length (filter (\<lambda>x. \<not> Option.is_none x) (res[j := None])) \<le> n" using Suc.prems(2) by linarith
    from Suc.IH [OF ne this w] show ?thesis unfolding b using 1(2) f by (simp add: is_none_code)
  next
    case 2
    have s: "filter (\<lambda>x. \<not> Option.is_none x) res = []" using 2(2) unfolding filter_empty_conv by (metis is_none_code(1) not_None_eq)
    have u: "res[j := None] = res" using 2 Suc.prems(1) by (metis (no_types) list_update_id nth_mem length_greater_0_conv not_None_eq)
    have "res ! j = None" using 2 Suc.prems(1) by (metis nth_mem length_greater_0_conv not_None_eq)
    then show ?thesis unfolding b u using Suc.IH [OF Suc.prems(1) _ Suc.prems(3)] s by (simp add: is_none_code)
  qed
qed simp

lemma none_filter: "None \<in> set xs \<longleftrightarrow> length (filter (\<lambda>x. \<not> Option.is_none x) xs) < length xs"
  by (induction xs) (auto simp: less_Suc_eq_le Option.is_none_def)

lemma set_by_width:
  assumes "res \<noteq> []" "\<forall>r. Some r \<in> set res \<longrightarrow> width r < FS_INT_MAX"
  shows "set (by_width (length res) res) = set res"
proof -
  let ?some = "\<lambda>x :: tree_it option. \<not> Option.is_none x"
  note p = by_width_perm [OF assms(1) length_filter_le assms(2)]
  have s: "set (filter ?some (by_width (length res) res)) = set (filter ?some res)" using p by (metis set_mset_mset)
  have l: "length (filter ?some (by_width (length res) res)) = length (filter ?some res)" using p by (metis size_mset)
  show ?thesis
  proof (rule set_eqI)
    fix x
    show "x \<in> set (by_width (length res) res) \<longleftrightarrow> x \<in> set res"
    proof (cases x)
      case None
      show ?thesis unfolding None none_filter l using p by simp
    next
      case (Some r)
      show ?thesis using arg_cong [where f = "\<lambda>S. Some r \<in> S", OF s] unfolding Some set_filter by (simp add: is_none_code)
    qed
  qed
qed

section \<open>Conditions\<close>

text \<open>The iterator of a condition \<open>?s p o\<close> reads the pairs that the object tree of the predicate holds under the object.\<close>

definition reads :: "backend \<Rightarrow> (tree_name \<Rightarrow> rid \<rightharpoonup> (rid \<times> rid) list) \<Rightarrow> rid \<times> rid \<Rightarrow> tree_it option \<Rightarrow> bool" where
  "reads be M c r \<longleftrightarrow> (case M (fst c, True) (snd c) of
     None \<Rightarrow> r = None
   | Some ps \<Rightarrow> \<exists>t it pt. r = Some (t, it) \<and> tree_at be t = Some pt \<and> fs_ptree_it_get_length (Some it) = length ps \<and> it_all pt it = Some ps)"

lemma reads_same: "same_store be' be \<Longrightarrow> reads be' M c r = reads be M c r"
  by (simp add: reads_def tree_at_same cong: option.case_cong)

lemma same_mask_by: "\<not> flag_set (tobind AND FS_BIND_SAME_MASK) FS_BIND_BY_SUBJECT"
  unfolding and.assoc by (simp add: FS_BIND_SAME_MASK_def FS_BIND_BY_SUBJECT_def)

lemma get_matches_reads:
  assumes h: "be_holds be M"
  shows "\<exists>r be'. fs_backend_get_matches be (FS_RID_NULL, FS_RID_NULL, p, obj) (tobind AND FS_BIND_SAME_MASK) = Some (r, be')
    \<and> be_holds be' M \<and> same_store be' be \<and> reads be M (p, obj) r"
proof -
  obtain be' where g: "fs_backend_get_ptree be p True = Some (if p \<in> set (be_preds be) then Some (p, True) else None, be')"
    "be_holds be' M" "same_store be' be" using get_ptree_holds [OF h] by blast
  show ?thesis
  proof (cases "p \<in> set (be_preds be)")
    case False
    then have "M (p, True) = Map.empty" by (rule be_holds_none [OF h])
    then show ?thesis using g False same_mask_by by (simp add: fs_backend_get_matches_def Let_def reads_def)
  next
    case True
    then have t: "be_files be' (p, True) \<noteq> None" using be_holds_files [OF g(2), of p True] g(3) by (simp add: same_store_def)
    then obtain pt where pt: "be_files be' (p, True) = Some pt" by blast
    let ?pt = "pt\<lparr>pt_table := be_pairs be'\<rparr>"
    have a: "tree_at be' (p, True) = Some ?pt" using pt by (simp add: tree_at_def)
    have al: "filter (pair_matches null_pair) ps = ps" for ps by (simp add: pair_matches_def)
    note s = forest_search [OF be_opensD(5) [OF be_holds_opens [OF g(2)]] pt, of obj null_pair]
    note u = fs_backend_get_matches_def [of be "(FS_RID_NULL, FS_RID_NULL, p, obj)" "tobind AND FS_BIND_SAME_MASK"]
    show ?thesis
    proof (cases "M (p, True) obj")
      case None
      then show ?thesis using s u g True same_mask_by a by (simp add: Let_def reads_def)
    next
      case (Some ps)
      then obtain it where it: "fs_ptree_search (Some ?pt) obj null_pair = Some (Some it)" "fs_ptree_it_get_length (Some it) = length ps"
        "it_all ?pt it = Some ps" using s unfolding al by auto
      have "fs_backend_get_matches be (FS_RID_NULL, FS_RID_NULL, p, obj) (tobind AND FS_BIND_SAME_MASK) = Some (Some ((p, True), it), be')"
        using u g(1) True same_mask_by a it(1) by (simp add: Let_def)
      moreover have "reads be M (p, obj) (Some ((p, True), it))"
        using it(2,3) a Some by (simp add: reads_def tree_at_same [OF g(3)])
      ultimately show ?thesis using g(2,3) by blast
    qed
  qed
qed

lemma reverse_matches_reads:
  assumes "be_holds be M" "pv \<noteq> []" "\<forall>i \<in> set is. i < length pv \<and> i < length ov"
  shows "\<exists>res be'. reverse_matches tobind pv ov is be = Some (res, be') \<and> be_holds be' M \<and> same_store be' be
    \<and> list_all2 (reads be M) (map (\<lambda>i. (pv ! i, ov ! i)) is) res"
  using assms
proof (induction "is" arbitrary: be)
  case (Cons i "is")
  obtain r be1 where g: "fs_backend_get_matches be (FS_RID_NULL, FS_RID_NULL, pv ! i, ov ! i) (tobind AND FS_BIND_SAME_MASK) = Some (r, be1)"
    "be_holds be1 M" "same_store be1 be" "reads be M (pv ! i, ov ! i) r" using get_matches_reads [OF Cons.prems(1)] by blast
  obtain res be2 where m: "reverse_matches tobind pv ov is be1 = Some (res, be2)" "be_holds be2 M" "same_store be2 be1"
    "list_all2 (reads be1 M) (map (\<lambda>i. (pv ! i, ov ! i)) is) res" using Cons.IH [OF g(2)] Cons.prems(2,3) by auto
  have "reads be1 M = reads be M" using reads_same [OF g(3)] by (intro ext)
  then show ?case using g m Cons.prems same_store_trans [OF m(3) g(3)] by (simp add: load_at_Some)
qed (simp add: same_store_def)

section \<open>Intersecting\<close>

definition given :: "rid list option \<Rightarrow> rid \<Rightarrow> bool" where
  "given v r \<longleftrightarrow> (case v of None \<Rightarrow> True | Some xs \<Rightarrow> r \<in> set xs)"

lemma reverse_loop_ok:
  assumes "it_all pt it = Some ps"
  shows "reverse_loop pt tobind mv sv it i0 i1
    = (let bs = map snd (filter (\<lambda>(a, b). given mv a \<and> given sv b) ps)
       in Some (if flag_set tobind FS_BIND_MODEL then i0 @ bs else i0, if flag_set tobind FS_BIND_SUBJECT then i1 @ bs else i1))"
  using assms
proof (induction ps arbitrary: it i0 i1)
  case Nil
  then obtain it' where "fs_ptree_it_next pt it = Some (None, it')" using search.yields_Nil by blast
  then show ?case by (subst reverse_loop.simps) simp
next
  case (Cons x ps)
  obtain it' where n: "fs_ptree_it_next pt it = Some (Some x, it')" "it_all pt it' = Some ps" using search.yields_Cons [OF Cons.prems] by blast
  obtain a b where x: "x = (a, b)" by (cases x)
  show ?case by (subst reverse_loop.simps) (simp add: n(1) x Cons.IH [OF n(2)] given_def Let_def cong: option.case_cong)
qed

text \<open>The rows an iterator yields.\<close>

definition rows_of :: "backend \<Rightarrow> tree_it option \<Rightarrow> (rid \<times> rid) list option" where
  "rows_of be r = (case r of None \<Rightarrow> Some [] | Some (t, it) \<Rightarrow> do { pt \<leftarrow> tree_at be t; it_all pt it })"

lemma reads_rows: "reads be M c r \<Longrightarrow> rows_of be r = Some (pairs_of (M (fst c, True)) (snd c))"
  by (auto simp: reads_def rows_of_def split: option.splits)

lemma reads_width:
  "reads be M c (Some r) \<Longrightarrow> width r = int (length (pairs_of (M (fst c, True)) (snd c)))"
  by (auto simp: reads_def split: option.splits)

text \<open>The subjects of a list of rows in the given graphs.\<close>

definition subjects :: "rid list option \<Rightarrow> (rid \<times> rid) list \<Rightarrow> rid set" where
  "subjects mv ps = snd ` {ab \<in> set ps. given mv (fst ab)}"

lemma reverse_inter_ok:
  assumes "\<not> flag_set tobind FS_BIND_MODEL" "flag_set tobind FS_BIND_SUBJECT" "\<forall>r \<in> set rs. rows_of be r \<noteq> None"
  shows "\<exists>sv'. reverse_inter tobind be rs mv sv = Some (mv, sv') \<and> (rs \<noteq> [] \<longrightarrow> sv' \<noteq> None)
    \<and> (\<forall>s. given sv' s \<longleftrightarrow> given sv s \<and> (\<forall>r \<in> set rs. s \<in> subjects mv (the (rows_of be r))))"
  using assms(3)
proof (induction rs arbitrary: sv)
  case (Cons r rs)
  obtain ps where ps: "rows_of be r = Some ps" using Cons.prems by auto
  obtain v where v: "(case r of None \<Rightarrow> Some ([], [])
       | Some (t, it) \<Rightarrow> do { pt \<leftarrow> tree_at be t; reverse_loop pt tobind mv sv it [] [] }) = Some ([], v)"
     "\<And>s. s \<in> set v \<longleftrightarrow> given sv s \<and> s \<in> subjects mv ps"
  proof (cases r)
    case None
    then show ?thesis using that [of "[]"] ps by (simp add: rows_of_def subjects_def)
  next
    case (Some ti)
    obtain t it where ti: "ti = (t, it)" by (cases ti)
    then obtain pt where "tree_at be t = Some pt" "it_all pt it = Some ps" using ps Some by (auto simp: rows_of_def split: Option.bind_splits)
    then show ?thesis using that [of "map snd (filter (\<lambda>(a, b). given mv a \<and> given sv b) ps)"] assms(1,2) Some ti
      by (auto simp: reverse_loop_ok subjects_def image_iff Bex_def)
  qed
  obtain sv' where "reverse_inter tobind be rs mv (Some v) = Some (mv, sv')"
    "rs \<noteq> [] \<longrightarrow> sv' \<noteq> None" "\<forall>s. given sv' s \<longleftrightarrow> given (Some v) s \<and> (\<forall>r \<in> set rs. s \<in> subjects mv (the (rows_of be r)))"
    using Cons.IH [of "Some v"] Cons.prems by auto
  moreover have "sv' \<noteq> None" if "rs = []" using that calculation(1) by auto
  ultimately show ?case using v ps assms(1,2) by (auto simp: given_def)
qed simp

lemma one_column: "bind_cols tobind = 1 \<Longrightarrow> flag_set tobind FS_BIND_SUBJECT \<Longrightarrow> \<not> flag_set tobind FS_BIND_MODEL"
  by (auto simp: bind_cols_def slot_bits_def split: if_splits)

section \<open>Properties\<close>

text \<open>C8: a reverse bind for subjects returns the subjects in the given list that satisfy every condition
  in one of the given graphs, cut at the limit: the order in which the conditions are read, fewest rows
  first, does not change the set, and a condition without rows leaves none.\<close>

theorem reverse_bind_subjects:
  assumes h: "be_holds be M" and by_s: "bind_by False tobind" and cols: "bind_cols tobind = 1" "flag_set tobind FS_BIND_SUBJECT"
    and len: "length pv = length ov" "ov \<noteq> []"
    and small: "\<forall>i < length ov. int (length (pairs_of (M (pv ! i, True)) (ov ! i))) < FS_INT_MAX"
  shows "\<exists>v be'. fs_reverse_bind be tobind mvi svi pv ov limit = Some (Some [truncated (if limit = - 1 then FS_INT_MAX else limit) (Some v)], be') \<and> be_holds be' M \<and> same_store be' be
    \<and> set v = {s. in_slot svi s \<and> (\<forall>i < length ov. \<exists>m. in_slot mvi m \<and> quads_in True M (m, s, pv ! i, ov ! i) \<noteq> 0)}"
proof -
  let ?cs = "map (\<lambda>i. (pv ! i, ov ! i)) [0..<length ov]" and ?mv = "if mvi \<noteq> [] then Some mvi else None" and ?sv = "if svi \<noteq> [] then Some svi else None"
  have pv: "pv \<noteq> []" using len by auto
  obtain res be' where m: "reverse_matches tobind pv ov [0..<length ov] be = Some (res, be')" "be_holds be' M" "same_store be' be"
    "list_all2 (reads be M) ?cs res" using reverse_matches_reads [OF h pv, of "[0..<length ov]" ov tobind] len by auto
  have rl: "length res = length ov" using list_all2_lengthD [OF m(4)] by simp
  then have ne: "res \<noteq> []" using len(2) by auto
  have rd: "reads be' M (pv ! i, ov ! i) (res ! i)" if "i < length ov" for i
    using list_all2_nthD2 [OF m(4), of i] that rl reads_same [OF m(3)] by simp
  have "\<forall>r. Some r \<in> set res \<longrightarrow> width r < FS_INT_MAX"
  proof (intro allI impI)
    fix r assume "Some r \<in> set res"
    then obtain i where i: "i < length ov" "res ! i = Some r" using rl by (metis in_set_conv_nth)
    with reads_width [of be' M "(pv ! i, ov ! i)" r] rd [OF i(1)] small show "width r < FS_INT_MAX" by simp
  qed
  note sets = set_by_width [OF ne this, unfolded rl]
  have "\<forall>r \<in> set (by_width (length ov) res). rows_of be' r \<noteq> None"
    unfolding sets using reads_rows [OF rd] rl by (metis in_set_conv_nth option.distinct(1))
  from reverse_inter_ok [OF one_column [OF cols] cols(2) this, of ?mv ?sv] obtain sv'
    where inter: "reverse_inter tobind be' (by_width (length ov) res) ?mv ?sv = Some (?mv, sv')" "by_width (length ov) res \<noteq> [] \<longrightarrow> sv' \<noteq> None"
    "\<forall>s. given sv' s \<longleftrightarrow> given ?sv s \<and> (\<forall>r \<in> set res. s \<in> subjects ?mv (the (rows_of be' r)))" unfolding sets by blast
  obtain v where v: "sv' = Some v" using inter(2) sets ne by auto
  have "set v = {s. in_slot svi s \<and> (\<forall>i < length ov. \<exists>m. in_slot mvi m \<and> quads_in True M (m, s, pv ! i, ov ! i) \<noteq> 0)}"
  proof (rule set_eqI)
    fix s
    have g: "given ?sv s = in_slot svi s" "given ?mv a = in_slot mvi a" for a by (simp_all add: given_def in_slot_def)
    have sub: "s \<in> subjects ?mv (the (rows_of be' (res ! i))) \<longleftrightarrow> (\<exists>m. in_slot mvi m \<and> quads_in True M (m, s, pv ! i, ov ! i) \<noteq> 0)" if "i < length ov" for i
      unfolding reads_rows [OF rd [OF that]] subjects_def g by (auto simp: quads_in_def image_iff)
    have "s \<in> set v \<longleftrightarrow> given ?sv s \<and> (\<forall>r \<in> set res. s \<in> subjects ?mv (the (rows_of be' r)))" using inter(3) v by (simp add: given_def)
    also have "\<dots> \<longleftrightarrow> in_slot svi s \<and> (\<forall>i < length ov. s \<in> subjects ?mv (the (rows_of be' (res ! i))))" unfolding g all_set_conv_all_nth rl ..
    finally show "s \<in> set v \<longleftrightarrow> s \<in> {s. in_slot svi s \<and> (\<forall>i < length ov. \<exists>m. in_slot mvi m \<and> quads_in True M (m, s, pv ! i, ov ! i) \<noteq> 0)}"
      using sub by simp
  qed
  moreover have "fs_reverse_bind be tobind mvi svi pv ov limit = Some (Some [truncated (if limit = - 1 then FS_INT_MAX else limit) (Some v)], be')"
    using bind_by_flags [OF by_s] cols len m(1) inter(1) v by (simp add: fs_reverse_bind_def Let_def)
  ultimately show ?thesis using m(2,3) by blast
qed

theorem reverse_bind_subjects_witness:
  "\<exists>be be' v. fs_reverse_bind be (FS_BIND_BY_SUBJECT OR FS_BIND_SUBJECT) [5] [7, 8] [3, 3] [2, 2] 10 = Some (Some [truncated 10 (Some v)], be') \<and> set v = {8}"
proof -
  obtain be where b: "be_holds be (sample_map True)" using sample_segment by blast
  let ?tb = "FS_BIND_BY_SUBJECT OR FS_BIND_SUBJECT"
  have fl: "bind_by False ?tb" "bind_cols ?tb = 1" "flag_set ?tb FS_BIND_SUBJECT"
    by (simp_all add: bind_by_def bind_cols_def slot_bits_def bind_flag_defs)
  have n: "i < length [2 :: rid, 2] \<longleftrightarrow> i = 0 \<or> i = 1" for i by auto
  have small: "\<forall>i < length [2 :: rid, 2]. int (length (pairs_of (sample_map True ([3, 3] ! i, True)) ([2, 2] ! i))) < FS_INT_MAX"
    unfolding n by (auto simp: FS_INT_MAX_def)
  have q: "(\<exists>m. in_slot [5] m \<and> quads_in True (sample_map True) (m, s, 3, 2) \<noteq> 0) \<longleftrightarrow> s = 8" for s
    by (auto simp: in_slot_def quads_in_def)
  have e: "{s. in_slot [7, 8] s \<and> (\<forall>i < length [2 :: rid, 2]. \<exists>m. in_slot [5] m \<and> quads_in True (sample_map True) (m, s, [3, 3] ! i, [2, 2] ! i) \<noteq> 0)} = {8}"
    unfolding n using q by (auto simp: in_slot_def)
  obtain v be' where "fs_reverse_bind be ?tb [5] [7, 8] [3, 3] [2, 2] 10 = Some (Some [truncated (if (10 :: int) = - 1 then FS_INT_MAX else 10) (Some v)], be')" "set v = {8}"
    using reverse_bind_subjects [OF b fl _ _ small, of "[5]" "[7, 8]" 10] unfolding e by fastforce
  then show ?thesis by auto
qed

end
