(* ===== verification/Bcd.thy ===== *)
theory Bcd
  imports Prelude
begin

text \<open>
  Packing of numbers and dates in the resource hash (\<open>src/src/backend/rhash.c\<close>): a literal of up to 30
  characters of a small alphabet is stored as 30 four-bit codes in the 15 bytes of an entry.  A C string
  is the list of its bytes without the final zero.
\<close>

section \<open>Definitions\<close>

type_synonym cstr = "u8 list"

definition INLINE_STR_LEN :: nat where "INLINE_STR_LEN = 15"

text \<open>The alphabets; the code of a character is its position.\<close>

definition bcd_map :: cstr where
  "bcd_map = 0 # map of_char ''1234567890.+-e?''"

definition bcdate_map :: cstr where
  "bcdate_map = 0 # map of_char ''1234567890:+-TZ''"

text \<open>The cases of the two \<open>switch\<close> statements: a character and the value of its enumeration constant.\<close>

definition bcd_code :: "u8 \<Rightarrow> u8 option" where
  "bcd_code = map_of (zip (map of_char ''1234567890.+-e'') [1, 2, 3, 4, 5, 6, 7, 8, 9, 10, 11, 12, 13, 14])"

definition bcdate_code :: "u8 \<Rightarrow> u8 option" where
  "bcdate_code = map_of (zip (map of_char ''1234567890:+-TZ'') [1, 2, 3, 4, 5, 6, 7, 8, 9, 10, 11, 12, 13, 14, 15])"

definition write_bcd :: "u8 list \<Rightarrow> nat \<Rightarrow> u8 \<Rightarrow> u8 list option" where
  "write_bcd out pos val = do {
     b \<leftarrow> load_at out (pos div 2);
     store_at out (pos div 2) (b OR push_bit (pos mod 2 * 4) val)
   }"

text \<open>The loop over the input; the output pointer may be null.\<close>

fun compress_loop :: "(u8 \<Rightarrow> u8 option) \<Rightarrow> cstr \<Rightarrow> u8 list option \<Rightarrow> nat \<Rightarrow> (nat \<times> u8 list option) option" where
  "compress_loop code [] out outpos = Some (0, out)"
| "compress_loop code (c # cs) out outpos =
     (case code c of
        None \<Rightarrow> Some (1, out)
      | Some v \<Rightarrow>
          (case out of
             None \<Rightarrow> compress_loop code cs None outpos
           | Some b \<Rightarrow> do { b1 \<leftarrow> write_bcd b outpos v; compress_loop code cs (Some b1) (outpos + 1) }))"

definition compress_with :: "(u8 \<Rightarrow> u8 option) \<Rightarrow> cstr \<Rightarrow> u8 list option \<Rightarrow> (nat \<times> u8 list option) option" where
  "compress_with code inp out =
     (if length inp > INLINE_STR_LEN * 2 then Some (1, out)
      else do {
        out1 \<leftarrow> (case out of
           None \<Rightarrow> Some None
         | Some b \<Rightarrow> do { z \<leftarrow> memcpy_at b 0 (replicate INLINE_STR_LEN 0) INLINE_STR_LEN; Some (Some z) });
        compress_loop code inp out1 0
      })"

definition compress_bcd :: "cstr \<Rightarrow> u8 list option \<Rightarrow> (nat \<times> u8 list option) option" where
  "compress_bcd = compress_with bcd_code"

definition compress_bcdate :: "cstr \<Rightarrow> u8 list option \<Rightarrow> (nat \<times> u8 list option) option" where
  "compress_bcdate = compress_with bcdate_code"

fun uncompress_loop :: "cstr \<Rightarrow> u8 list \<Rightarrow> nat list \<Rightarrow> cstr option" where
  "uncompress_loop m bcd [] = Some []"
| "uncompress_loop m bcd (inpos # ps) = do {
     b \<leftarrow> load_at bcd (inpos div 2);
     let code = (if inpos mod 2 = 0 then b AND 15 else drop_bit 4 b);
     if code = 0 then Some []
     else do { c \<leftarrow> load_at m (unat code); cs \<leftarrow> uncompress_loop m bcd ps; Some (c # cs) }
   }"

definition uncompress_bcd :: "u8 list \<Rightarrow> cstr option" where
  "uncompress_bcd bcd = uncompress_loop bcd_map bcd [0..<INLINE_STR_LEN * 2]"

definition uncompress_bcdate :: "u8 list \<Rightarrow> cstr option" where
  "uncompress_bcdate bcd = uncompress_loop bcdate_map bcd [0..<INLINE_STR_LEN * 2]"

section \<open>Codes in a buffer\<close>

definition nib :: "u8 list \<Rightarrow> nat \<Rightarrow> u8" where
  "nib b i = (if i mod 2 = 0 then b ! (i div 2) AND 15 else drop_bit 4 (b ! (i div 2)))"

text \<open>A buffer with room for \<open>INLINE_STR_LEN\<close> bytes that holds the codes \<open>cs\<close> and zeros after them.\<close>

definition holds_codes :: "u8 list \<Rightarrow> u8 list \<Rightarrow> bool" where
  "holds_codes b cs \<longleftrightarrow> length b = INLINE_STR_LEN \<and> length cs \<le> INLINE_STR_LEN * 2
     \<and> (\<forall>i < INLINE_STR_LEN * 2. nib b i = (if i < length cs then cs ! i else 0))"

lemma low_nibble:
  fixes x v :: u8
  assumes "v AND 15 = v"
  shows "(x OR v) AND 15 = (x AND 15) OR v" "drop_bit 4 (x OR v) = drop_bit 4 x" "(x OR push_bit 4 v) AND 15 = x AND 15"
    "drop_bit 4 (x OR push_bit 4 v) = drop_bit 4 x OR v"
proof -
  have m: "(15 :: u8) = mask 4" by (simp add: mask_eq_exp_minus_1)
  have b: "n < 4" if "bit v n" for n
  proof -
    have "bit (v AND mask 4) n" using that assms by (simp only: m)
    then show ?thesis by (simp add: bit_and_iff bit_mask_iff)
  qed
  show "(x OR v) AND 15 = (x AND 15) OR v" unfolding m by (rule bit_eqI) (auto simp: bit_simps dest: b)
  show "drop_bit 4 (x OR v) = drop_bit 4 x" by (rule bit_eqI) (auto simp: bit_simps dest: b)
  show "(x OR push_bit 4 v) AND 15 = x AND 15" unfolding m by (rule bit_eqI) (auto simp: bit_simps)
  show "drop_bit 4 (x OR push_bit 4 v) = drop_bit 4 x OR v" by (rule bit_eqI) (auto simp: bit_simps dest: b)
qed

lemma nib_write:
  assumes "length b = INLINE_STR_LEN" "k < INLINE_STR_LEN * 2" "v AND 15 = v" "nib b k = 0"
  shows "\<exists>b'. write_bcd b k v = Some b' \<and> length b' = INLINE_STR_LEN \<and> (\<forall>i < INLINE_STR_LEN * 2. nib b' i = (if i = k then v else nib b i))"
proof -
  let ?x = "b ! (k div 2) OR push_bit (k mod 2 * 4) v"
  have k: "k div 2 < length b" using assms(1,2) by (simp add: INLINE_STR_LEN_def)
  have n: "nib (b[k div 2 := ?x]) i = (if i = k then v else nib b i)" if "i < INLINE_STR_LEN * 2" for i
  proof (cases "i div 2 = k div 2")
    case True
    consider "k mod 2 = 0" "i mod 2 = 0" | "k mod 2 = 1" "i mod 2 = 0" | "k mod 2 = 0" "i mod 2 = 1" | "k mod 2 = 1" "i mod 2 = 1" by linarith
    then show ?thesis
    proof cases
      case 1
      then have "i = k" using True by (metis div_mult_mod_eq)
      then show ?thesis using 1 k assms(4) low_nibble(1) [OF assms(3)] by (simp add: nib_def)
    next
      case 2
      then have "i \<noteq> k" by auto
      then show ?thesis using 2 k True low_nibble(3) [OF assms(3)] by (simp add: nib_def)
    next
      case 3
      then have "i \<noteq> k" by auto
      then show ?thesis using 3 k True low_nibble(2) [OF assms(3)] by (simp add: nib_def)
    next
      case 4
      then have "i = k" using True by (metis div_mult_mod_eq)
      then show ?thesis using 4 k assms(4) low_nibble(4) [OF assms(3), of "b ! (k div 2)"] by (simp add: nib_def)
    qed
  next
    case False
    then show ?thesis by (auto simp: nib_def)
  qed
  have "write_bcd b k v = Some (b[k div 2 := ?x])" using k by (simp add: write_bcd_def)
  moreover have "length (b[k div 2 := ?x]) = INLINE_STR_LEN" using assms(1) by simp
  ultimately show ?thesis using n by blast
qed

lemma write_codes:
  assumes "holds_codes b cs" "length cs < INLINE_STR_LEN * 2" "v AND 15 = v"
  shows "\<exists>b'. write_bcd b (length cs) v = Some b' \<and> holds_codes b' (cs @ [v])"
proof -
  have "nib b (length cs) = 0" "length b = INLINE_STR_LEN" using assms(1,2) by (simp_all add: holds_codes_def)
  from nib_write [OF this(2) assms(2,3) this(1)] obtain b' where b': "write_bcd b (length cs) v = Some b'" "length b' = INLINE_STR_LEN"
    "\<forall>i < INLINE_STR_LEN * 2. nib b' i = (if i = length cs then v else nib b i)" by blast
  have "holds_codes b' (cs @ [v])"
    using assms(1,2) b'(2,3) by (auto simp: holds_codes_def nth_append)
  then show ?thesis using b'(1) by blast
qed

section \<open>Round trip\<close>

text \<open>An alphabet: every code fits in four bits, is not zero, and is the position of its character.\<close>

locale alphabet =
  fixes code :: "u8 \<Rightarrow> u8 option" and chars :: cstr
  assumes code_ok: "code c = Some v \<Longrightarrow> v AND 15 = v \<and> v \<noteq> 0 \<and> unat v < length chars \<and> chars ! unat v = c"
begin

lemma loop_writes:
  assumes "list_all2 (\<lambda>c v. code c = Some v) inp vs" "holds_codes b cs" "length cs + length inp \<le> INLINE_STR_LEN * 2"
  shows "\<exists>b'. compress_loop code inp (Some b) (length cs) = Some (0, Some b') \<and> holds_codes b' (cs @ vs)"
  using assms
proof (induction inp vs arbitrary: b cs rule: list_all2_induct)
  case (Cons c inp v vs)
  have "length cs < INLINE_STR_LEN * 2" "v AND 15 = v" using Cons.prems Cons(1) code_ok by auto
  from write_codes [OF Cons.prems(1) this] obtain b1 where b1: "write_bcd b (length cs) v = Some b1" "holds_codes b1 (cs @ [v])" by blast
  obtain b' where "compress_loop code inp (Some b1) (length (cs @ [v])) = Some (0, Some b')" "holds_codes b' ((cs @ [v]) @ vs)"
    using Cons.IH [OF b1(2)] Cons.prems(2) by auto
  then show ?case using Cons(1) b1(1) by simp
qed simp

lemma check_codes: "compress_loop code inp None n = Some (0, out) \<Longrightarrow> \<exists>vs. list_all2 (\<lambda>c v. code c = Some v) inp vs"
proof (induction inp)
  case (Cons c inp)
  then obtain v vs where "code c = Some v" "list_all2 (\<lambda>c v. code c = Some v) inp vs" by (auto split: option.splits)
  then show ?case by (intro exI [of _ "v # vs"]) simp
qed (use list_all2_Nil in blast)

lemma loop_reads:
  assumes "holds_codes b cs" "list_all2 (\<lambda>c v. code c = Some v) inp cs" "k \<le> length cs"
  shows "uncompress_loop chars b [k..<INLINE_STR_LEN * 2] = Some (drop k inp)"
  using assms(3)
proof (induction "length cs - k" arbitrary: k)
  case 0
  have l: "length inp = length cs" using assms(2) by (rule list_all2_lengthD)
  show ?case
  proof (cases "k < INLINE_STR_LEN * 2")
    case True
    then have "nib b k = 0" "k div 2 < length b" using assms(1) 0 by (auto simp: holds_codes_def)
    then show ?thesis using 0 True l by (simp add: upt_conv_Cons nib_def Let_def)
  qed (use 0 l in simp)
next
  case (Suc n)
  have k: "k < length cs" "k < INLINE_STR_LEN * 2" "k div 2 < length b" using Suc assms(1) by (auto simp: holds_codes_def)
  have l: "length inp = length cs" using assms(2) by (rule list_all2_lengthD)
  have "code (inp ! k) = Some (cs ! k)" using list_all2_nthD2 [OF assms(2) k(1)] .
  note c = code_ok [OF this]
  have "nib b k = cs ! k" using assms(1) k by (simp add: holds_codes_def)
  moreover have "uncompress_loop chars b [Suc k..<INLINE_STR_LEN * 2] = Some (drop (Suc k) inp)" using Suc k(1) by simp
  ultimately show ?case using k c l by (simp add: upt_conv_Cons [OF k(2)] nib_def Let_def Cons_nth_drop_Suc)
qed

lemma roundtrip:
  assumes "compress_with code inp None = Some (0, out)" "length b = INLINE_STR_LEN"
  shows "\<exists>b'. compress_with code inp (Some b) = Some (0, Some b') \<and> length b' = INLINE_STR_LEN \<and> uncompress_loop chars b' [0..<INLINE_STR_LEN * 2] = Some inp"
proof -
  have n: "length inp \<le> INLINE_STR_LEN * 2" and "compress_loop code inp None 0 = Some (0, out)"
    using assms(1) by (auto simp: compress_with_def split: if_splits)
  then obtain vs where vs: "list_all2 (\<lambda>c v. code c = Some v) inp vs" using check_codes by blast
  have z: "holds_codes (replicate INLINE_STR_LEN 0) []" by (auto simp: holds_codes_def nib_def)
  from loop_writes [OF vs z] n obtain b' where b': "compress_loop code inp (Some (replicate INLINE_STR_LEN 0)) 0 = Some (0, Some b')" "holds_codes b' vs" by auto
  have "uncompress_loop chars b' [0..<INLINE_STR_LEN * 2] = Some inp" using loop_reads [OF b'(2) vs, of 0] by simp
  then show ?thesis using b' n assms(2) by (simp add: compress_with_def memcpy_at_def holds_codes_def)
qed

end

interpretation number: alphabet bcd_code bcd_map
proof
  fix c v
  assume "bcd_code c = Some v"
  then have "(c, v) \<in> set (zip (map of_char ''1234567890.+-e'') [1, 2, 3, 4, 5, 6, 7, 8, 9, 10, 11, 12, 13, 14])"
    unfolding bcd_code_def by (rule map_of_SomeD)
  then show "v AND 15 = v \<and> v \<noteq> 0 \<and> unat v < length bcd_map \<and> bcd_map ! unat v = c" by (auto simp: bcd_map_def)
qed

interpretation date: alphabet bcdate_code bcdate_map
proof
  fix c v
  assume "bcdate_code c = Some v"
  then have "(c, v) \<in> set (zip (map of_char ''1234567890:+-TZ'') [1, 2, 3, 4, 5, 6, 7, 8, 9, 10, 11, 12, 13, 14, 15])"
    unfolding bcdate_code_def by (rule map_of_SomeD)
  then show "v AND 15 = v \<and> v \<noteq> 0 \<and> unat v < length bcdate_map \<and> bcdate_map ! unat v = c" by (auto simp: bcdate_map_def)
qed

text \<open>C25: a literal that the check accepts as a number or as a date is packed without writing outside the 15 bytes of the
  entry, and unpacking gives it back.\<close>

theorem bcd_roundtrip:
  assumes "length b = INLINE_STR_LEN"
  shows "(compress_bcd str None = Some (0, None) \<longrightarrow>
      (\<exists>b'. compress_bcd str (Some b) = Some (0, Some b') \<and> length b' = INLINE_STR_LEN \<and> uncompress_bcd b' = Some str))
    \<and> (compress_bcdate str None = Some (0, None) \<longrightarrow>
      (\<exists>b'. compress_bcdate str (Some b) = Some (0, Some b') \<and> length b' = INLINE_STR_LEN \<and> uncompress_bcdate b' = Some str))"
  using number.roundtrip [OF _ assms, of str None] date.roundtrip [OF _ assms, of str None]
  by (simp add: compress_bcd_def compress_bcdate_def uncompress_bcd_def uncompress_bcdate_def)

theorem bcd_roundtrip_witness:
  "\<exists>b'. compress_bcd (map of_char ''-12345678901234567.5e+3'') (Some (replicate 15 7)) = Some (0, Some b')
    \<and> uncompress_bcd b' = Some (map of_char ''-12345678901234567.5e+3'')"
proof -
  have "compress_bcd (map of_char ''-12345678901234567.5e+3'') None = Some (0, None)"
    by (simp add: compress_bcd_def compress_with_def INLINE_STR_LEN_def bcd_code_def)
  then show ?thesis using bcd_roundtrip [of "replicate 15 7" "map of_char ''-12345678901234567.5e+3''"] by (auto simp: INLINE_STR_LEN_def)
qed

end
