(* ===== verification/PrefixTrie.thy ===== *)
theory PrefixTrie
  imports Bcd CQsort
begin

text \<open>
  The prefix tries of the resource hash (\<open>src/src/backend/prefix-trie.c\<close>).  One trie counts the URIs that
  were stored, to find prefixes worth a code; another maps the chosen prefixes to their codes.  Both
  live in an array of 4096 nodes with a free list; node 0 is the null reference.  C strings are lists of
  bytes without zeros, counters are integers.
\<close>

section \<open>Nodes\<close>

definition PREFIX_EDGES :: nat where "PREFIX_EDGES = 16"
definition TRIE_SIZE :: nat where "TRIE_SIZE = 4096"
definition FS_MAX_PREFIX_LENGTH :: nat where "FS_MAX_PREFIX_LENGTH = 255"

record trie_node =
  tn_count :: int
  tn_code :: int
  tn_label :: "u8 list"
  tn_edge :: "nat list"

record prefix_trie =
  tr_strings :: int
  tr_nodes :: "nat \<Rightarrow> trie_node"
  tr_root :: nat
  tr_free :: nat

definition blank_node :: trie_node where
  "blank_node = \<lparr>tn_count = 0, tn_code = 0, tn_label = replicate PREFIX_EDGES 0, tn_edge = replicate PREFIX_EDGES 0\<rparr>"

definition node_at :: "prefix_trie \<Rightarrow> nat \<Rightarrow> trie_node option" where
  "node_at t n = (if n < TRIE_SIZE then Some (tr_nodes t n) else None)"

definition put_node :: "prefix_trie \<Rightarrow> nat \<Rightarrow> trie_node \<Rightarrow> prefix_trie option" where
  "put_node t n x = (if n < TRIE_SIZE then Some (t\<lparr>tr_nodes := (tr_nodes t)(n := x)\<rparr>) else None)"

definition set_label :: "prefix_trie \<Rightarrow> nat \<Rightarrow> nat \<Rightarrow> u8 \<Rightarrow> prefix_trie option" where
  "set_label t n e c = do { x \<leftarrow> node_at t n; l \<leftarrow> store_at (tn_label x) e c; put_node t n (x\<lparr>tn_label := l\<rparr>) }"

definition set_edge :: "prefix_trie \<Rightarrow> nat \<Rightarrow> nat \<Rightarrow> nat \<Rightarrow> prefix_trie option" where
  "set_edge t n e m = do { x \<leftarrow> node_at t n; l \<leftarrow> store_at (tn_edge x) e m; put_node t n (x\<lparr>tn_edge := l\<rparr>) }"

definition edge_at :: "prefix_trie \<Rightarrow> nat \<Rightarrow> nat \<Rightarrow> nat option" where
  "edge_at t n e = do { x \<leftarrow> node_at t n; load_at (tn_edge x) e }"

definition fs_prefix_trie_get_node :: "prefix_trie \<Rightarrow> (nat \<times> prefix_trie) option" where
  "fs_prefix_trie_get_node t =
     (if tr_free t = 0 then Some (0, t)
      else do {
        let lastfree = tr_free t;
        nxt \<leftarrow> edge_at t lastfree 0;
        t1 \<leftarrow> put_node (t\<lparr>tr_free := nxt\<rparr>) lastfree blank_node;
        Some (lastfree, t1)
      })"

definition fs_prefix_trie_free_node :: "prefix_trie \<Rightarrow> nat \<Rightarrow> prefix_trie option" where
  "fs_prefix_trie_free_node t n = do {
     t1 \<leftarrow> put_node t n (blank_node\<lparr>tn_edge := (tn_edge blank_node)[0 := tr_free t]\<rparr>);
     Some (t1\<lparr>tr_free := n\<rparr>)
   }"

text \<open>The recursion of \<open>fs_prefix_trie_free_subtree\<close>, from edge \<open>e\<close> of node \<open>n\<close> on.\<close>

partial_function (option) free_edges :: "prefix_trie \<Rightarrow> nat \<Rightarrow> nat \<Rightarrow> prefix_trie option" where
  "free_edges t n e =
     (if \<not> e < PREFIX_EDGES then fs_prefix_trie_free_node t n
      else do {
        m \<leftarrow> edge_at t n e;
        if m \<noteq> 0 then do { t1 \<leftarrow> free_edges t m 0; free_edges t1 n (e + 1) }
        else free_edges t n (e + 1)
      })"

definition fs_prefix_trie_free_subtree :: "prefix_trie \<Rightarrow> nat \<Rightarrow> prefix_trie option" where
  "fs_prefix_trie_free_subtree t n = free_edges t n 0"

definition fs_prefix_trie_new :: "prefix_trie option" where
  "fs_prefix_trie_new = do {
     (n, t) \<leftarrow> fs_prefix_trie_get_node
        \<lparr>tr_strings = 0, tr_nodes = (\<lambda>i. blank_node\<lparr>tn_edge := (tn_edge blank_node)[0 := if i < TRIE_SIZE - 1 then i + 1 else 0]\<rparr>),
         tr_root = 0, tr_free = 1\<rparr>;
     Some (t\<lparr>tr_root := n\<rparr>)
   }"

definition fs_prefix_trie_reset :: "prefix_trie \<Rightarrow> prefix_trie option" where
  "fs_prefix_trie_reset t = do {
     t1 \<leftarrow> fs_prefix_trie_free_subtree t (tr_root t);
     (n, t2) \<leftarrow> fs_prefix_trie_get_node t1;
     Some (t2\<lparr>tr_root := n\<rparr>)
   }"

section \<open>Strings\<close>

text \<open>What the search for an edge ends with: the edge, no node left for a new one, or no room in the node.\<close>

datatype edge_scan = Hit nat | No_node | Miss "nat option"

text \<open>A new edge labelled \<open>c\<close> at position \<open>e\<close>.\<close>

definition new_edge :: "prefix_trie \<Rightarrow> nat \<Rightarrow> nat \<Rightarrow> u8 \<Rightarrow> (edge_scan \<times> prefix_trie) option" where
  "new_edge t n e c = do {
     t1 \<leftarrow> set_label t n e c;
     (m, t2) \<leftarrow> fs_prefix_trie_get_node t1;
     t3 \<leftarrow> set_edge t2 n e m;
     Some (if m = 0 then No_node else Hit e, t3)
   }"

fun add_scan :: "prefix_trie \<Rightarrow> nat \<Rightarrow> u8 \<Rightarrow> nat list \<Rightarrow> int \<Rightarrow> nat option \<Rightarrow> (edge_scan \<times> prefix_trie) option" where
  "add_scan t n c [] lowest_count lowest_edge = Some (Miss lowest_edge, t)"
| "add_scan t n c (e # es) lowest_count lowest_edge = do {
     x \<leftarrow> node_at t n;
     l \<leftarrow> load_at (tn_label x) e;
     if l = c then Some (Hit e, t)
     else if l = 0 then new_edge t n e c
     else do {
       m \<leftarrow> load_at (tn_edge x) e;
       y \<leftarrow> node_at t m;
       if tn_count y < lowest_count then add_scan t n c es (tn_count y) (Some e)
       else add_scan t n c es lowest_count lowest_edge
     }
   }"

text \<open>If the character does not fit in anywhere, the subtree that was used least makes space.\<close>

definition make_space :: "prefix_trie \<Rightarrow> nat \<Rightarrow> u8 \<Rightarrow> edge_scan \<Rightarrow> (edge_scan \<times> prefix_trie) option" where
  "make_space t n c r =
     (case r of
        Miss (Some e) \<Rightarrow> do {
          m \<leftarrow> edge_at t n e;
          t1 \<leftarrow> fs_prefix_trie_free_subtree t m;
          new_edge t1 n e c
        }
      | _ \<Rightarrow> Some (r, t))"

fun add_loop :: "prefix_trie \<Rightarrow> nat \<Rightarrow> cstr \<Rightarrow> nat \<Rightarrow> (nat \<times> prefix_trie) option" where
  "add_loop t n [] d = Some (0, t)"
| "add_loop t n (c # cs) d =
     (if \<not> d < FS_MAX_PREFIX_LENGTH then Some (0, t)
      else do {
        (r, t1) \<leftarrow> add_scan t n c [0..<PREFIX_EDGES] (tr_strings t + 1) None;
        (r, t2) \<leftarrow> make_space t1 n c r;
        (case r of
           Hit e \<Rightarrow> do {
             m \<leftarrow> edge_at t2 n e;
             x \<leftarrow> node_at t2 m;
             t3 \<leftarrow> put_node t2 m (x\<lparr>tn_count := tn_count x + 1\<rparr>);
             add_loop t3 m cs (d + 1)
           }
         | _ \<Rightarrow> Some (1, t2))
      })"

definition fs_prefix_trie_add_string :: "prefix_trie \<Rightarrow> cstr \<Rightarrow> (nat \<times> prefix_trie) option" where
  "fs_prefix_trie_add_string t str = add_loop (t\<lparr>tr_strings := tr_strings t + 1\<rparr>) (tr_root t) str 0"

section \<open>Codes\<close>

fun get_scan :: "u8 list \<Rightarrow> u8 \<Rightarrow> nat list \<Rightarrow> edge_scan option" where
  "get_scan label c [] = Some (Miss None)"
| "get_scan label c (e # es) = do {
     l \<leftarrow> load_at label e;
     if l = c then Some (Hit e) else if l = 0 then Some No_node else get_scan label c es
   }"

text \<open>\<open>strlen\<close> of the labels of a node; it is only compared with 1, so reading on from a full array does not matter.\<close>

definition label_len :: "trie_node \<Rightarrow> nat" where
  "label_len x = length (takeWhile (\<lambda>l. l \<noteq> 0) (tn_label x))"

text \<open>The result is the code and what is written through \<open>prefix_len\<close>, if anything.\<close>

fun get_code_loop :: "prefix_trie \<Rightarrow> nat \<Rightarrow> cstr \<Rightarrow> nat \<Rightarrow> int \<Rightarrow> nat \<Rightarrow> (int \<times> nat option) option" where
  "get_code_loop t n [] d deepest_code plen = Some (deepest_code, Some plen)"
| "get_code_loop t n (c # cs) d deepest_code plen = do {
     x \<leftarrow> node_at t n;
     r \<leftarrow> get_scan (tn_label x) c [0..<PREFIX_EDGES];
     (case r of
        No_node \<Rightarrow> Some (deepest_code, Some plen)
      | Miss _ \<Rightarrow> Some (0, None)
      | Hit e \<Rightarrow> do {
          m \<leftarrow> load_at (tn_edge x) e;
          if tn_code x \<noteq> 0 \<and> label_len x = 1 then get_code_loop t m cs (d + 1) (tn_code x) (d + 1)
          else get_code_loop t m cs (d + 1) deepest_code plen
        })
   }"

definition fs_prefix_trie_get_code :: "prefix_trie \<Rightarrow> cstr \<Rightarrow> (int \<times> nat option) option" where
  "fs_prefix_trie_get_code t str = get_code_loop t (tr_root t) str 0 0 0"

fun code_scan :: "prefix_trie \<Rightarrow> nat \<Rightarrow> u8 \<Rightarrow> nat list \<Rightarrow> (edge_scan \<times> prefix_trie) option" where
  "code_scan t n c [] = Some (Miss None, t)"
| "code_scan t n c (e # es) = do {
     x \<leftarrow> node_at t n;
     l \<leftarrow> load_at (tn_label x) e;
     if l = c then Some (Hit e, t) else if l = 0 then new_edge t n e c else code_scan t n c es
   }"

fun add_code_loop :: "prefix_trie \<Rightarrow> nat \<Rightarrow> cstr \<Rightarrow> int \<Rightarrow> (nat \<times> prefix_trie) option" where
  "add_code_loop t n [] code = Some (0, t)"
| "add_code_loop t n (c # cs) code = do {
     (r, t1) \<leftarrow> code_scan t n c [0..<PREFIX_EDGES];
     (case r of
        Hit e \<Rightarrow> do {
          x \<leftarrow> node_at t1 n;
          t2 \<leftarrow> (if cs = [] then put_node t1 n (x\<lparr>tn_code := code\<rparr>) else Some t1);
          m \<leftarrow> edge_at t2 n e;
          add_code_loop t2 m cs code
        }
      | _ \<Rightarrow> Some (1, t1))
   }"

definition fs_prefix_trie_add_code :: "prefix_trie \<Rightarrow> cstr \<Rightarrow> int \<Rightarrow> (nat \<times> prefix_trie) option" where
  "fs_prefix_trie_add_code t str code = add_code_loop t (tr_root t) str code"

section \<open>Prefixes\<close>

record fs_prefix =
  pf_score :: int
  pf_prefix :: cstr

text \<open>The string in a character array.\<close>

definition c_string :: "u8 list \<Rightarrow> cstr" where
  "c_string b = takeWhile (\<lambda>c. c \<noteq> 0) b"

text \<open>The search for a row of the table: the row with the lowest score, or none when the prefix is there already or got a free row.\<close>

fun pr_scan :: "fs_prefix list \<Rightarrow> cstr \<Rightarrow> int \<Rightarrow> nat list \<Rightarrow> nat \<Rightarrow> int \<Rightarrow> fs_prefix list \<times> nat option \<times> int" where
  "pr_scan pr cur last_score [] lowest_row lowest_score = (pr, Some lowest_row, lowest_score)"
| "pr_scan pr cur last_score (row # rows) lowest_row lowest_score =
     (if pf_score (pr ! row) = last_score \<and> pf_prefix (pr ! row) = cur then (pr, None, lowest_score)
      else if pf_score (pr ! row) \<noteq> last_score \<and> pf_score (pr ! row) = 0
      then (pr[row := \<lparr>pf_score = last_score, pf_prefix = cur\<rparr>], None, lowest_score)
      else if pf_score (pr ! row) < lowest_score then pr_scan pr cur last_score rows row (pf_score (pr ! row))
      else pr_scan pr cur last_score rows lowest_row lowest_score)"

definition add_row :: "prefix_trie \<Rightarrow> nat \<Rightarrow> cstr \<Rightarrow> int \<Rightarrow> fs_prefix list \<Rightarrow> fs_prefix list" where
  "add_row t mx cur last_score pr =
     (let (pr1, row, lowest_score) = pr_scan pr cur last_score [0..<mx] 0 (int FS_MAX_PREFIX_LENGTH * tr_strings t) in
      case row of
        Some r \<Rightarrow> if lowest_score < last_score then pr1[r := \<lparr>pf_score = last_score, pf_prefix = cur\<rparr>] else pr1
      | None \<Rightarrow> pr1)"

text \<open>The parent of the current node is a candidate: its path is the current string without the last character.\<close>

definition candidate :: "prefix_trie \<Rightarrow> nat \<Rightarrow> u8 list \<Rightarrow> nat \<Rightarrow> int \<Rightarrow> fs_prefix list \<Rightarrow> (u8 list \<times> fs_prefix list) option" where
  "candidate t mx cur depth last_score pr =
     (if depth = 0 then None
      else do {
        last_char \<leftarrow> load_at cur (depth - 1);
        cur1 \<leftarrow> store_at cur (depth - 1) 0;
        let pr1 = add_row t mx (c_string cur1) last_score pr;
        cur2 \<leftarrow> store_at cur1 (depth - 1) last_char;
        Some (cur2, pr1)
      })"

function get_prefixes_intl ::
  "prefix_trie \<Rightarrow> nat \<Rightarrow> u8 list \<Rightarrow> fs_prefix list \<Rightarrow> int \<Rightarrow> nat \<Rightarrow> nat \<Rightarrow> nat \<Rightarrow> (u8 list \<times> fs_prefix list) option" where
  "get_prefixes_intl t mx cur pr last_score node depth e =
     (if \<not> e < PREFIX_EDGES then Some (cur, pr)
      else do {
        x \<leftarrow> node_at t node;
        m \<leftarrow> load_at (tn_edge x) e;
        l \<leftarrow> load_at (tn_label x) e;
        if m = 0 then Some (cur, pr)
        else do {
          let score = (tn_count x - 1) * int depth;
          (cur1, pr1) \<leftarrow> (if score < last_score then candidate t mx cur depth last_score pr else Some (cur, pr));
          cur2 \<leftarrow> store_at cur1 depth l;
          cur3 \<leftarrow> store_at cur2 (depth + 1) 0;
          if depth \<ge> FS_MAX_PREFIX_LENGTH - 1 then Some (cur3, pr1)
          else do {
            (cur4, pr2) \<leftarrow> get_prefixes_intl t mx cur3 pr1 score m (depth + 1) 0;
            get_prefixes_intl t mx cur4 pr2 last_score node depth (e + 1)
          }
        }
      })"
  by pat_completeness auto
termination by (relation "measures [\<lambda>(t, mx, cur, pr, last_score, node, depth, e). FS_MAX_PREFIX_LENGTH - depth, \<lambda>(t, mx, cur, pr, last_score, node, depth, e). PREFIX_EDGES - e]") auto

declare get_prefixes_intl.simps [simp del]

definition sort_prefixes :: "fs_prefix \<Rightarrow> fs_prefix \<Rightarrow> int" where
  "sort_prefixes a b = pf_score b - pf_score a"

text \<open>A prefix that is a slight superstring of another one is ditched.\<close>

definition ditched :: "cstr \<Rightarrow> cstr \<Rightarrow> bool" where
  "ditched pa pb \<longleftrightarrow> \<not> length pa < length pb \<and> \<not> length pa > length pb + 8 \<and> take (length pb) pa = pb"

fun prune_row :: "nat \<Rightarrow> nat list \<Rightarrow> fs_prefix list \<Rightarrow> fs_prefix list" where
  "prune_row i [] pr = pr"
| "prune_row i (j # js) pr =
     (if ditched (pf_prefix (pr ! i)) (pf_prefix (pr ! j)) then prune_row i js (pr[i := (pr ! i)\<lparr>pf_score := 0\<rparr>])
      else prune_row i js pr)"

fun prune :: "nat list \<Rightarrow> fs_prefix list \<Rightarrow> fs_prefix list" where
  "prune [] pr = pr"
| "prune (i # is) pr = (if pf_score (pr ! i) = 0 then pr else prune is (prune_row i [0..<i] pr))"

text \<open>\<open>cur\<close> is the uninitialised array of the path.\<close>

definition fs_prefix_trie_get_prefixes :: "u8 list \<Rightarrow> prefix_trie \<Rightarrow> nat \<Rightarrow> fs_prefix list option" where
  "fs_prefix_trie_get_prefixes cur t mx = do {
     (_, pr) \<leftarrow> get_prefixes_intl t mx cur (replicate mx \<lparr>pf_score = 0, pf_prefix = []\<rparr>) 0 (tr_root t) 0 0;
     Some (qsort sort_prefixes (prune [0..<mx] (qsort sort_prefixes pr)))
   }"

section \<open>The tree in the array\<close>

text \<open>A trie with the addresses of its nodes.\<close>

datatype atrie = Trie (at_addr: nat) (at_count: int) (at_code: int) (at_kids: "(u8 \<times> atrie) list")

lemma size_kid [termination_simp]: "x \<in> set kids \<Longrightarrow> size (snd x) < Suc (size_list (size_prod (\<lambda>_. 0) size) kids)"
  by (induction kids) auto

fun addrs :: "atrie \<Rightarrow> nat list" where
  "addrs (Trie a c k kids) = a # concat (map (\<lambda>x. addrs (snd x)) kids)"

text \<open>The labels and edges of a node.\<close>

definition padded :: "'a :: zero list \<Rightarrow> 'a list" where
  "padded xs = xs @ replicate (PREFIX_EDGES - length xs) 0"

fun rep :: "(nat \<Rightarrow> trie_node) \<Rightarrow> atrie \<Rightarrow> bool" where
  "rep N (Trie a c k kids) \<longleftrightarrow> N a = \<lparr>tn_count = c, tn_code = k, tn_label = padded (map fst kids), tn_edge = padded (map (\<lambda>x. at_addr (snd x)) kids)\<rparr>
     \<and> length kids \<le> PREFIX_EDGES \<and> distinct (map fst kids) \<and> 0 \<notin> fst ` set kids \<and> (\<forall>x \<in> set kids. rep N (snd x))"

text \<open>The nodes \<open>fs\<close> are the free list, and no node is in use twice.\<close>

definition free_ok :: "prefix_trie \<Rightarrow> nat list \<Rightarrow> bool" where
  "free_ok t fs \<longleftrightarrow> linked (\<lambda>n. tn_edge (tr_nodes t n) ! 0) (tr_free t) fs \<and> (\<forall>f \<in> set fs. length (tn_edge (tr_nodes t f)) = PREFIX_EDGES)"

definition trie_at :: "prefix_trie \<Rightarrow> atrie \<Rightarrow> nat list \<Rightarrow> bool" where
  "trie_at t T fs \<longleftrightarrow> rep (tr_nodes t) T \<and> free_ok t fs \<and> distinct (addrs T @ fs) \<and> set (addrs T @ fs) \<subseteq> {1..<TRIE_SIZE}"

lemma rep_cong: "rep N T \<Longrightarrow> (\<And>a. a \<in> set (addrs T) \<Longrightarrow> N' a = N a) \<Longrightarrow> rep N' T"
proof (induction T rule: addrs.induct)
  case (1 a c k kids)
  have "rep N' (snd x)" if x: "x \<in> set kids" for x
    using 1(1) [OF x] 1(2,3) x by auto
  then show ?case using 1(2) 1(3) [of a] by simp
qed

lemma free_ok_cong:
  assumes "free_ok t fs" "\<And>f. f \<in> set fs \<Longrightarrow> tr_nodes t' f = tr_nodes t f" "tr_free t' = tr_free t"
  shows "free_ok t' fs"
  using assms linked_cong [of _ "tr_free t" fs "\<lambda>n. tn_edge (tr_nodes t' n) ! 0"] by (auto simp: free_ok_def)

lemma addr_in: "at_addr T \<in> set (addrs T)"
  by (cases T) simp

section \<open>Allocation\<close>

lemma get_node_ok:
  assumes "free_ok t (f # fs)" "set (f # fs) \<subseteq> {1..<TRIE_SIZE}"
  shows "\<exists>t'. fs_prefix_trie_get_node t = Some (f, t') \<and> tr_nodes t' = (tr_nodes t)(f := blank_node) \<and> free_ok t' fs
    \<and> tr_root t' = tr_root t \<and> tr_strings t' = tr_strings t"
proof -
  have f: "tr_free t = f" "f \<noteq> 0" "length (tn_edge (tr_nodes t f)) = PREFIX_EDGES" "f < TRIE_SIZE"
    "linked (\<lambda>n. tn_edge (tr_nodes t n) ! 0) (tn_edge (tr_nodes t f) ! 0) fs" using assms by (auto simp: free_ok_def)
  let ?t = "t\<lparr>tr_free := tn_edge (tr_nodes t f) ! 0, tr_nodes := (tr_nodes t)(f := blank_node)\<rparr>"
  have d: "f \<notin> set fs" using linked_distinct [of _ _ "f # fs"] assms(1) by (fastforce simp: free_ok_def)
  have "fs_prefix_trie_get_node t = Some (f, ?t)"
    using f by (simp add: fs_prefix_trie_get_node_def edge_at_def node_at_def put_node_def PREFIX_EDGES_def)
  moreover have "free_ok ?t fs"
    by (rule free_ok_cong [of "t\<lparr>tr_free := tn_edge (tr_nodes t f) ! 0\<rparr>"]) (use f assms(1) d in \<open>auto simp: free_ok_def\<close>)
  ultimately show ?thesis by (intro exI [of _ ?t]) simp
qed

lemma no_node: "free_ok t [] \<Longrightarrow> fs_prefix_trie_get_node t = Some (0, t)"
  by (simp add: free_ok_def fs_prefix_trie_get_node_def)

lemma trie_free_node_ok:
  assumes "free_ok t fs" "a \<notin> set fs" "0 < a" "a < TRIE_SIZE"
  shows "\<exists>t'. fs_prefix_trie_free_node t a = Some t' \<and> free_ok t' (a # fs) \<and> (\<forall>n. n \<noteq> a \<longrightarrow> tr_nodes t' n = tr_nodes t n)
    \<and> tr_root t' = tr_root t \<and> tr_strings t' = tr_strings t"
proof -
  let ?x = "blank_node\<lparr>tn_edge := (tn_edge blank_node)[0 := tr_free t]\<rparr>"
  let ?t = "t\<lparr>tr_nodes := (tr_nodes t)(a := ?x), tr_free := a\<rparr>"
  have e: "tn_edge ?x ! 0 = tr_free t" "length (tn_edge ?x) = PREFIX_EDGES" by (simp_all add: blank_node_def PREFIX_EDGES_def)
  have "free_ok (?t\<lparr>tr_free := tr_free t\<rparr>) fs" by (rule free_ok_cong [OF assms(1)]) (use assms(2) in auto)
  then have "free_ok ?t (a # fs)" using e assms(3) by (simp add: free_ok_def)
  then show ?thesis using assms(4) by (intro exI [of _ ?t]) (simp add: fs_prefix_trie_free_node_def put_node_def)
qed

lemma nth_padded: "i < PREFIX_EDGES \<Longrightarrow> length xs \<le> PREFIX_EDGES \<Longrightarrow> padded xs ! i = (if i < length xs then xs ! i else 0)"
  by (simp add: padded_def nth_append)

lemma length_padded [simp]: "length xs \<le> PREFIX_EDGES \<Longrightarrow> length (padded xs) = PREFIX_EDGES"
  by (simp add: padded_def)

lemma edge_at_kid:
  assumes "N = tr_nodes t" "N a = \<lparr>tn_count = c, tn_code = k, tn_label = ls, tn_edge = padded (map (\<lambda>x. at_addr (snd x)) kids)\<rparr>"
    "length kids \<le> PREFIX_EDGES" "a < TRIE_SIZE" "e < PREFIX_EDGES"
  shows "edge_at t a e = Some (if e < length kids then at_addr (snd (kids ! e)) else 0)"
  using assms by (simp add: edge_at_def node_at_def nth_padded)

definition freed :: "prefix_trie \<Rightarrow> nat list \<Rightarrow> nat list \<Rightarrow> prefix_trie \<Rightarrow> nat list \<Rightarrow> bool" where
  "freed t as fs t' fs' \<longleftrightarrow> free_ok t' fs' \<and> mset fs' = mset (as @ fs) \<and> (\<forall>n. n \<notin> set as \<longrightarrow> tr_nodes t' n = tr_nodes t n)
     \<and> tr_root t' = tr_root t \<and> tr_strings t' = tr_strings t"

lemma freed_trans: "freed t as fs t1 fs1 \<Longrightarrow> freed t1 bs fs1 t2 fs2 \<Longrightarrow> freed t (as @ bs) fs t2 fs2"
  by (auto simp: freed_def)

lemma free_edges_kids:
  assumes kid: "\<And>x t fs. x \<in> set kids \<Longrightarrow> rep (tr_nodes t) (snd x) \<Longrightarrow> free_ok t fs \<Longrightarrow> distinct (addrs (snd x) @ fs) \<Longrightarrow> set (addrs (snd x) @ fs) \<subseteq> {1..<TRIE_SIZE}
       \<Longrightarrow> \<exists>t' fs'. free_edges t (at_addr (snd x)) 0 = Some t' \<and> freed t (addrs (snd x)) fs t' fs'"
    and a: "tr_nodes t a = \<lparr>tn_count = c, tn_code = k, tn_label = ls, tn_edge = padded (map (\<lambda>x. at_addr (snd x)) kids)\<rparr>"
      "length kids \<le> PREFIX_EDGES" "e \<le> PREFIX_EDGES"
    and rest: "\<forall>x \<in> set (drop e kids). rep (tr_nodes t) (snd x)" "free_ok t fs" "distinct (a # concat (map (\<lambda>x. addrs (snd x)) (drop e kids)) @ fs)"
      "set (a # concat (map (\<lambda>x. addrs (snd x)) (drop e kids)) @ fs) \<subseteq> {1..<TRIE_SIZE}"
  shows "\<exists>t' fs'. free_edges t a e = Some t' \<and> freed t (a # concat (map (\<lambda>x. addrs (snd x)) (drop e kids))) fs t' fs'"
  using a rest
proof (induction "PREFIX_EDGES - e" arbitrary: e t fs)
  case 0
  then have e: "drop e kids = []" "\<not> e < PREFIX_EDGES" by simp_all
  have "a \<notin> set fs" "0 < a" "a < TRIE_SIZE" using 0 by auto
  from trie_free_node_ok [OF 0(6) this] obtain t' where t': "fs_prefix_trie_free_node t a = Some t'" "free_ok t' (a # fs)"
    "\<forall>n. n \<noteq> a \<longrightarrow> tr_nodes t' n = tr_nodes t n" "tr_root t' = tr_root t" "tr_strings t' = tr_strings t" by blast
  show ?case unfolding free_edges.simps [of t a e] e(1) using e(2) t' by (intro exI [of _ t'] exI [of _ "a # fs"]) (simp add: freed_def)
next
  case (Suc n)
  have e: "e < PREFIX_EDGES" "n = PREFIX_EDGES - (e + 1)" "e + 1 \<le> PREFIX_EDGES" using Suc(2) by simp_all
  have at: "a < TRIE_SIZE" using Suc.prems(7) by auto
  note edge = edge_at_kid [OF refl Suc.prems(1,2) at e(1)]
  show ?case
  proof (cases "e < length kids")
    case False
    then have d: "drop (e + 1) kids = drop e kids" by simp
    have "free_edges t a e = free_edges t a (e + 1)" using e(1) edge False by (subst free_edges.simps) simp
    then show ?thesis using Suc(1) [OF e(2) Suc.prems(1,2) e(3)] Suc.prems unfolding d by simp
  next
    case True
    let ?x = "kids ! e" and ?rest = "concat (map (\<lambda>x. addrs (snd x)) (drop (e + 1) kids))"
    have d: "drop e kids = ?x # drop (e + 1) kids" using True by (simp add: Cons_nth_drop_Suc)
    have x: "?x \<in> set kids" "rep (tr_nodes t) (snd ?x)" using True Suc.prems(4) d by auto
    have dis: "distinct (a # addrs (snd ?x) @ ?rest @ fs)" "set (a # addrs (snd ?x) @ ?rest @ fs) \<subseteq> {1..<TRIE_SIZE}" using Suc.prems(6,7) unfolding d by auto
    have nz: "at_addr (snd ?x) \<noteq> 0" using dis(2) addr_in [of "snd ?x"] by auto
    obtain t1 fs1 where t1: "free_edges t (at_addr (snd ?x)) 0 = Some t1" "freed t (addrs (snd ?x)) fs t1 fs1"
    proof -
      have "distinct (addrs (snd ?x) @ fs)" "set (addrs (snd ?x) @ fs) \<subseteq> {1..<TRIE_SIZE}" using dis by auto
      from kid [OF x Suc.prems(5) this] that show ?thesis by blast
    qed
    have n1: "tr_nodes t1 m = tr_nodes t m" if "m \<notin> set (addrs (snd ?x))" for m using t1(2) that by (simp add: freed_def)
    have f1: "mset fs1 = mset (addrs (snd ?x) @ fs)" "free_ok t1 fs1" using t1(2) by (simp_all add: freed_def)
    have r1: "rep (tr_nodes t1) (snd y)" if y: "y \<in> set (drop (e + 1) kids)" for y
    proof (rule rep_cong)
      show "rep (tr_nodes t) (snd y)" using Suc.prems(4) d y by simp
      show "tr_nodes t1 m = tr_nodes t m" if "m \<in> set (addrs (snd y))" for m by (rule n1) (use that y dis(1) in auto)
    qed
    have "mset (a # ?rest @ fs1) = mset (a # addrs (snd ?x) @ ?rest @ fs)" using f1(1) by simp
    then have "distinct (a # ?rest @ fs1)" "set (a # ?rest @ fs1) \<subseteq> {1..<TRIE_SIZE}" using dis by (metis mset_eq_imp_distinct_iff, metis mset_eq_setD)
    then obtain t2 fs2 where t2: "free_edges t1 a (e + 1) = Some t2" "freed t1 (a # ?rest) fs1 t2 fs2"
      using Suc(1) [OF e(2) _ Suc.prems(2) e(3), of t1 fs1] r1 f1(2) n1 [of a] dis(1) Suc.prems(1) by auto
    have "free_edges t a e = Some t2" using e(1) edge True nz t1(1) t2(1) by (subst free_edges.simps) simp
    moreover have "freed t (a # concat (map (\<lambda>x. addrs (snd x)) (drop e kids))) fs t2 fs2" using freed_trans [OF t1(2) t2(2)] unfolding d by (auto simp: freed_def)
    ultimately show ?thesis by blast
  qed
qed

lemma free_subtree_ok:
  assumes "rep (tr_nodes t) T" "free_ok t fs" "distinct (addrs T @ fs)" "set (addrs T @ fs) \<subseteq> {1..<TRIE_SIZE}"
  shows "\<exists>t' fs'. fs_prefix_trie_free_subtree t (at_addr T) = Some t' \<and> freed t (addrs T) fs t' fs'"
  using assms unfolding fs_prefix_trie_free_subtree_def
proof (induction T arbitrary: t fs rule: addrs.induct)
  case (1 a c k kids)
  show ?case using free_edges_kids [of kids t a c k "padded (map fst kids)" 0 fs] 1 by simp
qed

section \<open>Finding and adding edges\<close>

text \<open>Two arrays that differ at most in labels of missing edges.\<close>

definition same_edges :: "prefix_trie \<Rightarrow> prefix_trie \<Rightarrow> bool" where
  "same_edges t t' \<longleftrightarrow> tr_root t' = tr_root t \<and> tr_strings t' = tr_strings t
     \<and> (\<forall>n. tn_count (tr_nodes t' n) = tn_count (tr_nodes t n) \<and> tn_edge (tr_nodes t' n) = tn_edge (tr_nodes t n)
         \<and> length (tn_label (tr_nodes t' n)) = length (tn_label (tr_nodes t n))
         \<and> (\<forall>e. tn_edge (tr_nodes t n) ! e \<noteq> 0 \<longrightarrow> tn_label (tr_nodes t' n) ! e = tn_label (tr_nodes t n) ! e))"

lemma new_edge_ok:
  assumes a: "tr_nodes t a = \<lparr>tn_count = c0, tn_code = k, tn_label = ls, tn_edge = es\<rparr>" "length ls = PREFIX_EDGES" "length es = PREFIX_EDGES"
    "e < PREFIX_EDGES" "a < TRIE_SIZE" "a \<notin> set fs" and f: "free_ok t fs" "set fs \<subseteq> {1..<TRIE_SIZE}"
  shows "fs = f # fs' \<Longrightarrow> \<exists>t'. new_edge t a e c = Some (Hit e, t') \<and> free_ok t' fs'
      \<and> tr_nodes t' = (tr_nodes t)(f := blank_node, a := \<lparr>tn_count = c0, tn_code = k, tn_label = ls[e := c], tn_edge = es[e := f]\<rparr>)
      \<and> tr_root t' = tr_root t \<and> tr_strings t' = tr_strings t"
    and "fs = [] \<Longrightarrow> es ! e = 0 \<Longrightarrow> \<exists>t'. new_edge t a e c = Some (No_node, t') \<and> tr_free t' = 0 \<and> same_edges t t'"
proof -
  let ?x = "\<lparr>tn_count = c0, tn_code = k, tn_label = ls[e := c], tn_edge = es\<rparr>"
  let ?t = "t\<lparr>tr_nodes := (tr_nodes t)(a := ?x)\<rparr>"
  have l: "set_label t a e c = Some ?t" using a by (simp add: set_label_def node_at_def put_node_def)
  have f1: "free_ok ?t fs" by (rule free_ok_cong [OF f(1)]) (use a(6) in auto)
  {
    assume fs: "fs = f # fs'"
    from get_node_ok [of ?t f fs'] obtain t1 where t1: "fs_prefix_trie_get_node ?t = Some (f, t1)" "tr_nodes t1 = (tr_nodes ?t)(f := blank_node)"
      "free_ok t1 fs'" "tr_root t1 = tr_root t" "tr_strings t1 = tr_strings t" using f1 f(2) fs by auto
    have na: "a \<noteq> f" "f \<noteq> 0" using a(6) f(2) fs by auto
    let ?t2 = "t1\<lparr>tr_nodes := (tr_nodes t1)(a := ?x\<lparr>tn_edge := es[e := f]\<rparr>)\<rparr>"
    have e: "set_edge t1 a e f = Some ?t2" using a t1(2) na(1) by (simp add: set_edge_def node_at_def put_node_def)
    have "free_ok ?t2 fs'" by (rule free_ok_cong [OF t1(3)]) (use a(6) fs in auto)
    then show "\<exists>t'. new_edge t a e c = Some (Hit e, t') \<and> free_ok t' fs'
      \<and> tr_nodes t' = (tr_nodes t)(f := blank_node, a := \<lparr>tn_count = c0, tn_code = k, tn_label = ls[e := c], tn_edge = es[e := f]\<rparr>)
      \<and> tr_root t' = tr_root t \<and> tr_strings t' = tr_strings t"
      using t1 na e by (intro exI [of _ ?t2]) (auto simp: new_edge_def l fun_upd_twist)
  }
  assume e0: "es ! e = 0" and "fs = []"
  then have n: "fs_prefix_trie_get_node ?t = Some (0, ?t)" "tr_free t = 0" using no_node [of ?t] f1 f(1) by (auto simp: free_ok_def)
  let ?t2 = "?t\<lparr>tr_nodes := (tr_nodes ?t)(a := ?x\<lparr>tn_edge := es[e := 0]\<rparr>)\<rparr>"
  have u: "es[e := 0] = es" using e0 by (metis list_update_id)
  have "same_edges t ?t2" using a e0 by (auto simp: same_edges_def u nth_list_update)
  moreover have "set_edge ?t a e 0 = Some ?t2" using a by (simp add: set_edge_def node_at_def put_node_def)
  ultimately show "\<exists>t'. new_edge t a e c = Some (No_node, t') \<and> tr_free t' = 0 \<and> same_edges t t'" using n by (intro exI [of _ ?t2]) (simp add: new_edge_def l)
qed

text \<open>A node of a tree, as the scans see it.\<close>

lemma trie_at_node:
  assumes "trie_at t (Trie a c k kids) fs"
  shows "tr_nodes t a = \<lparr>tn_count = c, tn_code = k, tn_label = padded (map fst kids), tn_edge = padded (map (\<lambda>x. at_addr (snd x)) kids)\<rparr>"
    "length kids \<le> PREFIX_EDGES" "0 < a" "a < TRIE_SIZE" "a \<notin> set fs" "distinct (map fst kids)" "0 \<notin> fst ` set kids" "free_ok t fs" "set fs \<subseteq> {1..<TRIE_SIZE}"
    "node_at t a = Some (tr_nodes t a)" "\<And>e. e < PREFIX_EDGES \<Longrightarrow> edge_at t a e = Some (if e < length kids then at_addr (snd (kids ! e)) else 0)"
proof -
  show "tr_nodes t a = \<lparr>tn_count = c, tn_code = k, tn_label = padded (map fst kids), tn_edge = padded (map (\<lambda>x. at_addr (snd x)) kids)\<rparr>"
    and l: "length kids \<le> PREFIX_EDGES" and "0 < a" and a: "a < TRIE_SIZE" and "a \<notin> set fs" "distinct (map fst kids)" "0 \<notin> fst ` set kids" "free_ok t fs" "set fs \<subseteq> {1..<TRIE_SIZE}"
    using assms by (auto simp: trie_at_def)
  show "node_at t a = Some (tr_nodes t a)" using a by (simp add: node_at_def)
  show "edge_at t a e = Some (if e < length kids then at_addr (snd (kids ! e)) else 0)" if "e < PREFIX_EDGES" for e
    using assms l a that by (intro edge_at_kid [OF refl]) (auto simp: trie_at_def)
qed

lemma kid_addr:
  assumes "trie_at t (Trie a c k kids) fs" "x \<in> set kids"
  shows "0 < at_addr (snd x)" "at_addr (snd x) < TRIE_SIZE" "tn_count (tr_nodes t (at_addr (snd x))) = at_count (snd x)"
proof -
  have "at_addr (snd x) \<in> set (addrs (Trie a c k kids))" using assms(2) addr_in by auto
  then show "0 < at_addr (snd x)" "at_addr (snd x) < TRIE_SIZE" using assms(1) by (auto simp: trie_at_def)
  have "rep (tr_nodes t) (snd x)" using assms by (auto simp: trie_at_def)
  then show "tn_count (tr_nodes t (at_addr (snd x))) = at_count (snd x)" by (cases "snd x") auto
qed

text \<open>The three outcomes of looking for a label.\<close>

lemma label_cases:
  assumes "trie_at t (Trie a c k kids) fs"
  obtains i where "i < length kids" "fst (kids ! i) = l" | "l \<notin> fst ` set kids" "length kids < PREFIX_EDGES" | "l \<notin> fst ` set kids" "length kids = PREFIX_EDGES"
  using trie_at_node(2) [OF assms] by (metis (mono_tags, lifting) image_iff in_set_conv_nth le_neq_implies_less)

lemma edge_scan_ok:
  assumes "length kids \<le> PREFIX_EDGES" "distinct (map fst kids)" "0 \<notin> fst ` set kids" "l \<noteq> 0" "e \<le> PREFIX_EDGES"
  shows "i < length kids \<Longrightarrow> fst (kids ! i) = l \<Longrightarrow> e \<le> i \<Longrightarrow> get_scan (padded (map fst kids)) l [e..<PREFIX_EDGES] = Some (Hit i)"
    and "l \<notin> fst ` set kids \<Longrightarrow> get_scan (padded (map fst kids)) l [e..<PREFIX_EDGES] = Some (if max e (length kids) < PREFIX_EDGES then No_node else Miss None)"
proof -
  show "get_scan (padded (map fst kids)) l [e..<PREFIX_EDGES] = Some (Hit i)" if i: "i < length kids" "fst (kids ! i) = l" "e \<le> i"
    using i(3)
  proof (induction "i - e" arbitrary: e)
    case 0
    then show ?case using i assms(1) by (simp add: upt_conv_Cons nth_padded)
  next
    case (Suc n)
    have "fst (kids ! e) \<noteq> l" using Suc i assms(2) by (auto simp: distinct_conv_nth)
    moreover have "fst (kids ! e) \<noteq> 0" using Suc i assms(3) by (metis (full_types) image_eqI le_less_trans nth_mem)
    moreover have "get_scan (padded (map fst kids)) l [Suc e..<PREFIX_EDGES] = Some (Hit i)" using Suc by simp
    moreover have "e < length kids" "[e..<PREFIX_EDGES] = e # [Suc e..<PREFIX_EDGES]" using Suc(2) i(1) assms(1) by (simp_all add: upt_conv_Cons)
    ultimately show ?case using assms(1) by (simp add: nth_padded)
  qed
  show "get_scan (padded (map fst kids)) l [e..<PREFIX_EDGES] = Some (if max e (length kids) < PREFIX_EDGES then No_node else Miss None)" if l: "l \<notin> fst ` set kids"
    using assms(5)
  proof (induction "PREFIX_EDGES - e" arbitrary: e)
    case (Suc n)
    have u: "[e..<PREFIX_EDGES] = e # [Suc e..<PREFIX_EDGES]" using Suc(2) by (simp add: upt_conv_Cons)
    show ?case
    proof (cases "e < length kids")
      case True
      then have "fst (kids ! e) \<noteq> l" "fst (kids ! e) \<noteq> 0" using l assms(3) by (metis image_eqI nth_mem)+
      moreover have "get_scan (padded (map fst kids)) l [Suc e..<PREFIX_EDGES] = Some (if max (Suc e) (length kids) < PREFIX_EDGES then No_node else Miss None)"
        using Suc by simp
      ultimately show ?thesis unfolding u using True assms(1) by (simp add: nth_padded max_def)
    next
      case False
      then show ?thesis unfolding u using Suc assms(1,4) by (simp add: nth_padded max_def)
    qed
  qed simp
qed

text \<open>The labels before the one that is looked for differ from it and from zero.\<close>

lemma other_label:
  assumes "trie_at t (Trie a c k kids) fs" "e < length kids" "e < i" "i < length kids \<and> fst (kids ! i) = l \<or> l \<notin> fst ` set kids"
  shows "fst (kids ! e) \<noteq> l" "fst (kids ! e) \<noteq> 0"
proof -
  note n = trie_at_node(6,7) [OF assms(1)]
  show "fst (kids ! e) \<noteq> 0" using n(2) assms(2) by (metis image_eqI nth_mem)
  show "fst (kids ! e) \<noteq> l"
  proof (cases "l \<notin> fst ` set kids")
    case True
    then show ?thesis using assms(2) by (metis image_eqI nth_mem)
  next
    case False
    then show ?thesis using n(1) assms(2,3,4) by (auto simp: distinct_conv_nth)
  qed
qed

lemma scan_first:
  assumes at: "trie_at t (Trie a c k kids) fs" and l: "l \<noteq> 0" and e: "e \<le> i" "i < PREFIX_EDGES" "i \<le> length kids"
    and i: "i < length kids \<and> fst (kids ! i) = l \<or> i = length kids \<and> l \<notin> fst ` set kids"
  shows "code_scan t a l [e..<PREFIX_EDGES] = (if i < length kids then Some (Hit i, t) else new_edge t a i l)"
    "add_scan t a l [e..<PREFIX_EDGES] lc le = (if i < length kids then Some (Hit i, t) else new_edge t a i l)"
proof -
  note n = trie_at_node [OF at]
  show "code_scan t a l [e..<PREFIX_EDGES] = (if i < length kids then Some (Hit i, t) else new_edge t a i l)"
    "add_scan t a l [e..<PREFIX_EDGES] lc le = (if i < length kids then Some (Hit i, t) else new_edge t a i l)"
    using e(1)
  proof (induction "i - e" arbitrary: e lc le)
    case 0
    have u: "e = i" "[i..<PREFIX_EDGES] = i # [Suc i..<PREFIX_EDGES]" if "e \<le> i" using 0 that e(2) by (simp_all add: upt_conv_Cons)
    case 1
    show ?case unfolding u(1) [OF 1] u(2) [OF 1] using i n(1,2,10) e l by (auto simp: nth_padded)
    case 2
    show ?case unfolding u(1) [OF 1] u(2) [OF 1] using i n(1,2,10) e l by (auto simp: nth_padded)
  next
    case (Suc m)
    have u: "[e..<PREFIX_EDGES] = e # [Suc e..<PREFIX_EDGES]" "e < length kids" "e < i" using Suc(3) e(2,3) by (simp_all add: upt_conv_Cons)
    have o: "fst (kids ! e) \<noteq> l" "fst (kids ! e) \<noteq> 0" using other_label [OF at u(2,3), of l] i by blast+
    have m: "m = i - Suc e" "Suc e \<le> i" using Suc(3) by simp_all
    have x: "load_at (padded (map (\<lambda>x. at_addr (snd x)) kids)) e = Some (at_addr (snd (kids ! e)))" "load_at (padded (map fst kids)) e = Some (fst (kids ! e))"
      "node_at t (at_addr (snd (kids ! e))) = Some (tr_nodes t (at_addr (snd (kids ! e))))"
      using u(2,3) e(2) n(2) kid_addr(2) [OF at nth_mem [OF u(2)]] by (simp_all add: nth_padded node_at_def)
    case 1
    show ?case unfolding u(1) using o i n(1,10) x Suc(1) [OF m] by simp
    case 2
    show ?case unfolding u(1) using o i n(1,10) x Suc(2) [OF m] by simp
  qed
qed

lemma scan_full:
  assumes at: "trie_at t (Trie a c k kids) fs" and l: "l \<notin> fst ` set kids" "length kids = PREFIX_EDGES" and e: "e \<le> PREFIX_EDGES"
  shows "code_scan t a l [e..<PREFIX_EDGES] = Some (Miss None, t)"
    "\<exists>r. add_scan t a l [e..<PREFIX_EDGES] lc le = Some (Miss r, t) \<and> (r = le \<or> (\<exists>j < PREFIX_EDGES. r = Some j))
       \<and> (e < PREFIX_EDGES \<and> at_count (snd (kids ! e)) < lc \<longrightarrow> r \<noteq> None) \<and> (le \<noteq> None \<longrightarrow> r \<noteq> None)"
proof -
  note n = trie_at_node [OF at]
  show "code_scan t a l [e..<PREFIX_EDGES] = Some (Miss None, t)"
    "\<exists>r. add_scan t a l [e..<PREFIX_EDGES] lc le = Some (Miss r, t) \<and> (r = le \<or> (\<exists>j < PREFIX_EDGES. r = Some j))
       \<and> (e < PREFIX_EDGES \<and> at_count (snd (kids ! e)) < lc \<longrightarrow> r \<noteq> None) \<and> (le \<noteq> None \<longrightarrow> r \<noteq> None)"
    using e
  proof (induction "PREFIX_EDGES - e" arbitrary: e lc le)
    case 0
    then have u: "[e..<PREFIX_EDGES] = []" by simp
    case 1
    show ?case by (simp add: u)
    case 2
    show ?case using 0 by (simp add: u)
  next
    case (Suc m)
    have u: "[e..<PREFIX_EDGES] = e # [Suc e..<PREFIX_EDGES]" "e < length kids" "e < PREFIX_EDGES" using Suc(3) l(2) by (simp_all add: upt_conv_Cons)
    have o: "fst (kids ! e) \<noteq> l" "fst (kids ! e) \<noteq> 0" using other_label [OF at u(2), of "Suc e" l] l(1) by simp_all
    have m: "m = PREFIX_EDGES - Suc e" "Suc e \<le> PREFIX_EDGES" using Suc(3) by simp_all
    have x: "load_at (padded (map (\<lambda>x. at_addr (snd x)) kids)) e = Some (at_addr (snd (kids ! e)))" "load_at (padded (map fst kids)) e = Some (fst (kids ! e))"
      "node_at t (at_addr (snd (kids ! e))) = Some (tr_nodes t (at_addr (snd (kids ! e))))"
      using u(2,3) n(2) kid_addr(2) [OF at nth_mem [OF u(2)]] by (simp_all add: nth_padded node_at_def)
    case 1
    show ?case unfolding u(1) using o n(1,10) x Suc(1) [OF m] by simp
    case 2
    note k = kid_addr(3) [OF at nth_mem [OF u(2)]]
    show ?case
    proof (cases "at_count (snd (kids ! e)) < lc")
      case True
      then have "add_scan t a l [e..<PREFIX_EDGES] lc le = add_scan t a l [Suc e..<PREFIX_EDGES] (at_count (snd (kids ! e))) (Some e)"
        unfolding u(1) using o n(1,10) x k by simp
      then show ?thesis using Suc(2) [OF m, of "at_count (snd (kids ! e))" "Some e"] u(3) by auto
    next
      case False
      then have "add_scan t a l [e..<PREFIX_EDGES] lc le = add_scan t a l [Suc e..<PREFIX_EDGES] lc le"
        unfolding u(1) using o n(1,10) x k by simp
      then show ?thesis using Suc(2) [OF m, of lc le] False by auto
    qed
  qed
qed

section \<open>Changes below a node\<close>

definition regrown :: "prefix_trie \<Rightarrow> atrie \<Rightarrow> nat list \<Rightarrow> prefix_trie \<Rightarrow> atrie \<Rightarrow> nat list \<Rightarrow> bool" where
  "regrown t T fs t' T' fs' \<longleftrightarrow> trie_at t' T' fs' \<and> at_addr T' = at_addr T \<and> mset (addrs T' @ fs') = mset (addrs T @ fs)
     \<and> (\<forall>n. n \<notin> set (addrs T @ fs) \<longrightarrow> tr_nodes t' n = tr_nodes t n) \<and> tr_root t' = tr_root t \<and> tr_strings t' = tr_strings t"

lemma regrown_refl: "trie_at t T fs \<Longrightarrow> regrown t T fs t T fs"
  by (simp add: regrown_def)

lemma regrown_trans:
  assumes "regrown t T fs t1 T1 fs1" "regrown t1 T1 fs1 t2 T2 fs2"
  shows "regrown t T fs t2 T2 fs2"
proof -
  have "set (addrs T1 @ fs1) = set (addrs T @ fs)" using assms(1) by (metis regrown_def mset_eq_setD)
  then show ?thesis using assms by (auto simp: regrown_def)
qed

lemma trie_atI:
  assumes "trie_at t T fs" "rep (tr_nodes t') T'" "free_ok t' fs'" "mset (addrs T' @ fs') = mset (addrs T @ fs)"
  shows "trie_at t' T' fs'"
  using assms mset_eq_imp_distinct_iff [OF assms(4)] mset_eq_setD [OF assms(4)] by (simp add: trie_at_def)

lemma sub_trie:
  assumes "trie_at t (Trie a c k kids) fs" "x \<in> set kids"
  shows "trie_at t (snd x) fs"
proof -
  obtain us vs where kids: "kids = us @ x # vs" using assms(2) by (auto simp: in_set_conv_decomp)
  show ?thesis using assms(1) unfolding kids by (auto simp: trie_at_def)
qed

lemma embed:
  assumes at: "trie_at t (Trie a c k (us @ x # vs)) fs" and r: "regrown t (snd x) fs t' S' fs'"
  shows "regrown t (Trie a c k (us @ x # vs)) fs t' (Trie a c k (us @ (fst x, S') # vs)) fs'"
proof -
  have n: "tr_nodes t' n = tr_nodes t n" if "n \<notin> set (addrs (snd x))" "n \<notin> set fs" for n using r that by (simp add: regrown_def)
  have s: "at_addr S' = at_addr (snd x)" "rep (tr_nodes t') S'" "free_ok t' fs'" "mset (addrs S' @ fs') = mset (addrs (snd x) @ fs)"
    using r by (auto simp: regrown_def trie_at_def)
  have d: "distinct (addrs (Trie a c k (us @ x # vs)) @ fs)" and rp: "rep (tr_nodes t) (Trie a c k (us @ x # vs))" using at by (auto simp: trie_at_def)
  have o: "rep (tr_nodes t') (snd y)" if y: "y \<in> set us \<union> set vs" for y
  proof (rule rep_cong)
    show "rep (tr_nodes t) (snd y)" using rp y by auto
    show "tr_nodes t' n = tr_nodes t n" if "n \<in> set (addrs (snd y))" for n by (rule n) (use that y d in auto)
  qed
  have "rep (tr_nodes t') (Trie a c k (us @ (fst x, S') # vs))" using rp o s(1,2) n [of a] d by auto
  moreover have m: "mset (addrs (Trie a c k (us @ (fst x, S') # vs)) @ fs') = mset (addrs (Trie a c k (us @ x # vs)) @ fs)" using s(4) by (simp add: ac_simps)
  ultimately have "trie_at t' (Trie a c k (us @ (fst x, S') # vs)) fs'" by (intro trie_atI [OF at] s(3))
  then show ?thesis using m n r by (auto simp: regrown_def)
qed

lemma trie_put_head:
  assumes at: "trie_at t (Trie a c k kids) fs"
  shows "\<exists>t'. put_node t a ((tr_nodes t a)\<lparr>tn_count := c', tn_code := k'\<rparr>) = Some t' \<and> regrown t (Trie a c k kids) fs t' (Trie a c' k' kids) fs"
proof -
  note n = trie_at_node [OF at]
  let ?t = "t\<lparr>tr_nodes := (tr_nodes t)(a := (tr_nodes t a)\<lparr>tn_count := c', tn_code := k'\<rparr>)\<rparr>"
  have d: "distinct (addrs (Trie a c k kids))" "rep (tr_nodes t) (Trie a c k kids)" using at by (auto simp: trie_at_def)
  have "rep (tr_nodes ?t) (snd x)" if "x \<in> set kids" for x
    by (rule rep_cong [of "tr_nodes t"]) (use that d in auto)
  then have "rep (tr_nodes ?t) (Trie a c' k' kids)" using d(2) n(1) by auto
  moreover have "free_ok ?t fs" by (rule free_ok_cong [OF n(8)]) (use n(5) in auto)
  ultimately have "trie_at ?t (Trie a c' k' kids) fs" by (rule trie_atI [OF at]) simp
  then show ?thesis using n(4) by (intro exI [of _ ?t]) (auto simp: regrown_def put_node_def)
qed

lemma padded_snoc: "length xs < PREFIX_EDGES \<Longrightarrow> (padded xs)[length xs := y] = padded (xs @ [y])"
proof -
  assume "length xs < PREFIX_EDGES"
  then obtain n where "PREFIX_EDGES - length xs = Suc n" by (metis Suc_diff_Suc)
  moreover from this have "PREFIX_EDGES - length (xs @ [y]) = n" by simp
  ultimately show ?thesis by (simp add: padded_def list_update_append)
qed

lemma padded_update: "e < length xs \<Longrightarrow> (padded xs)[e := y] = padded (xs[e := y])"
  by (simp add: padded_def list_update_append)

lemma rep_new: "N f = blank_node \<Longrightarrow> rep N (Trie f 0 0 [])"
  by (simp add: blank_node_def padded_def)

lemma grow_new:
  assumes at: "trie_at t (Trie a c k kids) fs" and l: "length kids < PREFIX_EDGES" "l \<notin> fst ` set kids" "l \<noteq> 0"
  shows "fs = f # fs' \<Longrightarrow> \<exists>t'. new_edge t a (length kids) l = Some (Hit (length kids), t') \<and> regrown t (Trie a c k kids) fs t' (Trie a c k (kids @ [(l, Trie f 0 0 [])])) fs'"
    and "fs = [] \<Longrightarrow> \<exists>t'. new_edge t a (length kids) l = Some (No_node, t') \<and> tr_free t' = 0 \<and> same_edges t t'"
proof -
  note n = trie_at_node [OF at]
  have len: "length (padded (map fst kids)) = PREFIX_EDGES" "length (padded (map (\<lambda>x. at_addr (snd x)) kids)) = PREFIX_EDGES" using n(2) by simp_all
  note e = new_edge_ok [OF n(1) len l(1) n(4,5,8,9)]
  have z: "padded (map (\<lambda>x. at_addr (snd x)) kids) ! length kids = 0" using l(1) by (simp add: nth_padded)
  show "fs = [] \<Longrightarrow> \<exists>t'. new_edge t a (length kids) l = Some (No_node, t') \<and> tr_free t' = 0 \<and> same_edges t t'" using e(2) z by blast
  assume fs: "fs = f # fs'"
  let ?T = "Trie a c k (kids @ [(l, Trie f 0 0 [])])"
  from e(1) [OF fs] obtain t' where t': "new_edge t a (length kids) l = Some (Hit (length kids), t')" "free_ok t' fs'"
    "tr_nodes t' = (tr_nodes t)(f := blank_node, a := \<lparr>tn_count = c, tn_code = k, tn_label = (padded (map fst kids))[length kids := l],
       tn_edge = (padded (map (\<lambda>x. at_addr (snd x)) kids))[length kids := f]\<rparr>)"
    "tr_root t' = tr_root t" "tr_strings t' = tr_strings t" by blast
  have d: "distinct (addrs (Trie a c k kids) @ f # fs')" "rep (tr_nodes t) (Trie a c k kids)" using at fs by (auto simp: trie_at_def)
  have o: "rep (tr_nodes t') (snd x)" if "x \<in> set kids" for x
    by (rule rep_cong [of "tr_nodes t"]) (use that d t'(3) in auto)
  have p: "(padded (map fst kids))[length kids := l] = padded (map fst kids @ [l])" "(padded (map (\<lambda>x. at_addr (snd x)) kids))[length kids := f] = padded (map (\<lambda>x. at_addr (snd x)) kids @ [f])"
    using padded_snoc [of "map fst kids" l] padded_snoc [of "map (\<lambda>x. at_addr (snd x)) kids" f] l(1) by simp_all
  have "a \<noteq> f" using d by auto
  moreover have "rep (tr_nodes t') (Trie f 0 0 [])" by (rule rep_new) (use t'(3) \<open>a \<noteq> f\<close> in simp)
  ultimately have "rep (tr_nodes t') ?T" using o l n(6,7) t'(3) p by auto
  moreover have m: "mset (addrs ?T @ fs') = mset (addrs (Trie a c k kids) @ fs)" by (simp add: fs)
  ultimately have "trie_at t' ?T fs'" by (intro trie_atI [OF at] t'(2))
  then show "\<exists>t'. new_edge t a (length kids) l = Some (Hit (length kids), t') \<and> regrown t (Trie a c k kids) fs t' ?T fs'"
    using t' m fs by (intro exI [of _ t']) (auto simp: regrown_def)
qed

end
