(* ===== verification/PrefixOps.thy ===== *)
theory PrefixOps
  imports PrefixTrie
begin

text \<open>
  What the operations on prefix tries do: adding a string keeps the array a tree and a free list that
  share no node and lose none, and counts no prefix more often than it was added; the code that a
  lookup returns belongs to a prefix of the string.
\<close>

section \<open>Making space\<close>

lemma grow_evict:
  assumes at: "trie_at t (Trie a c k (us @ x # vs)) fs" and l: "l \<notin> fst ` set (us @ x # vs)" "l \<noteq> 0"
  shows "\<exists>t' f fs'. make_space t a l (Miss (Some (length us))) = Some (Hit (length us), t')
    \<and> regrown t (Trie a c k (us @ x # vs)) fs t' (Trie a c k (us @ (l, Trie f 0 0 []) # vs)) fs'"
proof -
  let ?kids = "us @ x # vs"
  note n = trie_at_node [OF at]
  have d: "distinct (addrs (Trie a c k ?kids) @ fs)" "rep (tr_nodes t) (Trie a c k ?kids)" using at by (auto simp: trie_at_def)
  have sub: "trie_at t (snd x) fs" by (rule sub_trie [OF at]) simp
  obtain t1 fs1 where t1: "fs_prefix_trie_free_subtree t (at_addr (snd x)) = Some t1" "freed t (addrs (snd x)) fs t1 fs1"
    using free_subtree_ok [of t "snd x" fs] sub by (auto simp: trie_at_def)
  have f1: "free_ok t1 fs1" "mset fs1 = mset (addrs (snd x) @ fs)" "tr_root t1 = tr_root t" "tr_strings t1 = tr_strings t"
    and n1: "\<And>m. m \<notin> set (addrs (snd x)) \<Longrightarrow> tr_nodes t1 m = tr_nodes t m" using t1(2) by (auto simp: freed_def)
  have s1: "set fs1 = set (addrs (snd x) @ fs)" "distinct fs1" using mset_eq_setD [OF f1(2)] mset_eq_imp_distinct_iff [OF f1(2)] d(1) by auto
  then obtain f fs' where fs1: "fs1 = f # fs'" using addr_in [of "snd x"] by (cases fs1) auto
  have a1: "tr_nodes t1 a = \<lparr>tn_count = c, tn_code = k, tn_label = padded (map fst ?kids), tn_edge = padded (map (\<lambda>x. at_addr (snd x)) ?kids)\<rparr>" "a \<notin> set fs1"
    "set fs1 \<subseteq> {1..<TRIE_SIZE}" using n(1,5) n1 [of a] s1(1) d(1) at by (auto simp: trie_at_def)
  have len: "length (padded (map fst ?kids)) = PREFIX_EDGES" "length (padded (map (\<lambda>x. at_addr (snd x)) ?kids)) = PREFIX_EDGES" "length us < PREFIX_EDGES" using n(2) by simp_all
  from new_edge_ok(1) [OF a1(1) len n(4) a1(2) f1(1) a1(3) fs1, of l] obtain t2 where t2: "new_edge t1 a (length us) l = Some (Hit (length us), t2)" "free_ok t2 fs'"
    "tr_nodes t2 = (tr_nodes t1)(f := blank_node, a := \<lparr>tn_count = c, tn_code = k, tn_label = (padded (map fst ?kids))[length us := l],
       tn_edge = (padded (map (\<lambda>x. at_addr (snd x)) ?kids))[length us := f]\<rparr>)" "tr_root t2 = tr_root t" "tr_strings t2 = tr_strings t" using f1(3,4) by auto
  let ?T = "Trie a c k (us @ (l, Trie f 0 0 []) # vs)"
  have fx: "f \<in> set (addrs (snd x) @ fs)" "a \<noteq> f" using s1(1) fs1 a1(2) by auto
  have o: "rep (tr_nodes t2) (snd y)" if y: "y \<in> set us \<union> set vs" for y
  proof (rule rep_cong [of "tr_nodes t"])
    show "rep (tr_nodes t) (snd y)" using d(2) y by auto
    show "tr_nodes t2 m = tr_nodes t m" if m: "m \<in> set (addrs (snd y))" for m
    proof -
      have "m \<notin> set (addrs (snd x) @ fs)" "m \<noteq> a" using m y d(1) by auto
      then show ?thesis using t2(3) n1 [of m] fx(1) by auto
    qed
  qed
  have p: "(padded (map fst ?kids))[length us := l] = padded (map fst us @ l # map fst vs)"
    "(padded (map (\<lambda>x. at_addr (snd x)) ?kids))[length us := f] = padded (map (\<lambda>x. at_addr (snd x)) us @ f # map (\<lambda>x. at_addr (snd x)) vs)"
    using padded_update [of "length us" "map fst ?kids" l] padded_update [of "length us" "map (\<lambda>x. at_addr (snd x)) ?kids" f] by (simp_all add: list_update_append)
  have "rep (tr_nodes t2) (Trie f 0 0 [])" by (rule rep_new) (use t2(3) fx(2) in simp)
  then have "rep (tr_nodes t2) ?T" using o l n(2,6,7) t2(3) p by auto
  moreover have m: "mset (addrs ?T @ fs') = mset (addrs (Trie a c k ?kids) @ fs)" using f1(2) by (simp add: fs1 ac_simps)
  ultimately have "trie_at t2 ?T fs'" by (intro trie_atI [OF at] t2(2))
  moreover have "tr_nodes t2 m = tr_nodes t m" if "m \<notin> set (addrs (Trie a c k ?kids) @ fs)" for m
    using that t2(3) n1 [of m] fx(1) by auto
  moreover have "make_space t a l (Miss (Some (length us))) = Some (Hit (length us), t2)"
    using n(11) [OF len(3)] t1(1) t2(1) by (simp add: make_space_def)
  ultimately show ?thesis using m t2(4,5) by (intro exI [of _ t2] exI [of _ f] exI [of _ fs']) (simp add: regrown_def)
qed

section \<open>Adding strings\<close>

text \<open>The rests of the strings that begin with a character, and the bound on the counts below a node.\<close>

definition after :: "u8 \<Rightarrow> cstr list \<Rightarrow> cstr list" where
  "after l S = map tl (filter (\<lambda>s. s \<noteq> [] \<and> hd s = l) S)"

fun cnt_ok :: "atrie \<Rightarrow> cstr list \<Rightarrow> bool" where
  "cnt_ok (Trie a c k kids) S \<longleftrightarrow> (\<forall>x \<in> set kids. at_count (snd x) \<le> int (length (after (fst x) S)) \<and> cnt_ok (snd x) (after (fst x) S))"

lemma cnt_ok_more: "cnt_ok T S \<Longrightarrow> cnt_ok T (s # S)"
proof (induction T arbitrary: s S rule: addrs.induct)
  case (1 a c k kids)
  then show ?case by (auto simp: after_def)
qed

lemma cnt_ok_kid: "cnt_ok (Trie a c k (us @ x # vs)) S \<Longrightarrow> at_count S' \<le> int (length (after (fst x) (s # S))) \<Longrightarrow> cnt_ok S' (after (fst x) (s # S)) \<Longrightarrow> y = fst x
    \<Longrightarrow> cnt_ok (Trie a c k (us @ (y, S') # vs)) (s # S)"
  using cnt_ok_more [of "Trie a c k (us @ x # vs)" S s] by auto

lemma at_count_le: "cnt_ok (Trie a c k kids) S \<Longrightarrow> x \<in> set kids \<Longrightarrow> at_count (snd x) \<le> int (length S)"
proof -
  assume "cnt_ok (Trie a c k kids) S" "x \<in> set kids"
  then have "at_count (snd x) \<le> int (length (filter (\<lambda>s. s \<noteq> [] \<and> hd s = fst x) S))" by (auto simp: after_def)
  then show ?thesis using length_filter_le [of "\<lambda>s. s \<noteq> [] \<and> hd s = fst x" S] by linarith
qed

text \<open>After looking for a label and making space, the node has a child with the label, or the array is full.\<close>

lemma find_or_make:
  assumes at: "trie_at t (Trie a c k kids) fs" and l: "l \<noteq> 0" and cnt: "cnt_ok (Trie a c k kids) S" "int (length S) \<le> tr_strings t"
  shows "\<exists>r t1 r2 t2. add_scan t a l [0..<PREFIX_EDGES] (tr_strings t + 1) None = Some (r, t1) \<and> make_space t1 a l r = Some (r2, t2)
    \<and> (r2 = No_node \<and> tr_free t2 = 0 \<and> same_edges t t2
       \<or> (\<exists>us x vs fs2. r2 = Hit (length us) \<and> fst x = l \<and> regrown t (Trie a c k kids) fs t2 (Trie a c k (us @ x # vs)) fs2 \<and> cnt_ok (Trie a c k (us @ x # vs)) S))"
    (is "\<exists>r t1 r2 t2. ?scan r t1 \<and> _ \<and> (_ \<or> ?hit r2 t2)")
proof (cases rule: label_cases [OF at, of l])
  case (1 i)
  have "i < PREFIX_EDGES" using 1(1) trie_at_node(2) [OF at] by simp
  then have "?scan (Hit i) t" using scan_first(2) [OF at l, of 0 i] 1 by simp
  moreover have "?hit (Hit i) t"
    using regrown_refl [OF at] cnt(1) 1 id_take_nth_drop [OF 1(1)]
    by (intro exI [of _ "take i kids"] exI [of _ "kids ! i"] exI [of _ "drop (Suc i) kids"] exI [of _ fs]) simp
  ultimately show ?thesis by (intro exI [of _ "Hit i"] exI [of _ t]) (simp add: make_space_def)
next
  case 2
  have s: "add_scan t a l [0..<PREFIX_EDGES] (tr_strings t + 1) None = new_edge t a (length kids) l" using scan_first(2) [OF at l, of 0 "length kids"] 2 by simp
  show ?thesis
  proof (cases fs)
    case Nil
    from grow_new(2) [OF at 2(2,1) l Nil] obtain t' where "new_edge t a (length kids) l = Some (No_node, t')" "tr_free t' = 0" "same_edges t t'" by blast
    then show ?thesis unfolding s by (intro exI [of _ No_node] exI [of _ t']) (simp add: make_space_def)
  next
    case (Cons f fs')
    from grow_new(1) [OF at 2(2,1) l Cons] obtain t' where t': "new_edge t a (length kids) l = Some (Hit (length kids), t')"
      "regrown t (Trie a c k kids) fs t' (Trie a c k (kids @ [(l, Trie f 0 0 [])])) fs'" by blast
    have "?hit (Hit (length kids)) t'"
      using t'(2) cnt(1) by (intro exI [of _ kids] exI [of _ "(l, Trie f 0 0 [])"] exI [of _ "[]"] exI [of _ fs']) auto
    then show ?thesis unfolding s using t'(1) by (intro exI [of _ "Hit (length kids)"] exI [of _ t']) (simp add: make_space_def)
  qed
next
  case 3
  have "at_count (snd (kids ! 0)) < tr_strings t + 1" using at_count_le [OF cnt(1) nth_mem, of 0] cnt(2) 3(2) by (simp add: PREFIX_EDGES_def)
  then obtain j where j: "?scan (Miss (Some j)) t" "j < PREFIX_EDGES"
    using scan_full(2) [OF at 3, of 0 "tr_strings t + 1" None] by (auto simp: PREFIX_EDGES_def)
  let ?us = "take j kids" and ?vs = "drop (Suc j) kids"
  have kids: "kids = ?us @ kids ! j # ?vs" and lj: "length ?us = j" using id_take_nth_drop [of j kids] j(2) 3(2) by simp_all
  from grow_evict [of t a c k ?us "kids ! j" ?vs fs l] obtain t' f fs' where t': "make_space t a l (Miss (Some j)) = Some (Hit j, t')"
    "regrown t (Trie a c k kids) fs t' (Trie a c k (?us @ (l, Trie f 0 0 []) # ?vs)) fs'" using at 3(1) l lj kids by metis
  have "cnt_ok (Trie a c k (?us @ kids ! j # ?vs)) S" using cnt(1) kids by simp
  then have "cnt_ok (Trie a c k (?us @ (l, Trie f 0 0 []) # ?vs)) S" by auto
  then have "?hit (Hit j) t'"
    using t'(2) lj by (intro exI [of _ ?us] exI [of _ "(l, Trie f 0 0 [])"] exI [of _ ?vs] exI [of _ fs']) simp
  then show ?thesis using j(1) t'(1) by blast
qed

lemma after_hit: "after l ((l # cs) # S) = cs # after l S"
  by (simp add: after_def)

lemma length_after: "length (after l S) \<le> length S"
  by (simp add: after_def)

definition grew :: "prefix_trie \<Rightarrow> atrie \<Rightarrow> nat list \<Rightarrow> prefix_trie \<Rightarrow> cstr \<Rightarrow> cstr list \<Rightarrow> bool" where
  "grew t T fs t' str S \<longleftrightarrow> (\<exists>T' fs'. regrown t T fs t' T' fs' \<and> at_count T' = at_count T \<and> cnt_ok T' (str # S))"

lemma grew_refl: "trie_at t T fs \<Longrightarrow> cnt_ok T S \<Longrightarrow> grew t T fs t str S"
  unfolding grew_def using regrown_refl [of t T fs] cnt_ok_more [of T S str] by blast

lemma trie_add_loop_ok:
  assumes "trie_at t T fs" "0 \<notin> set str" "cnt_ok T S" "int (length S) \<le> tr_strings t"
  shows "\<exists>r t'. add_loop t (at_addr T) str d = Some (r, t')
    \<and> (r = 0 \<and> grew t T fs t' str S \<or> r = 1 \<and> tr_free t' = 0 \<and> (\<exists>t1. grew t T fs t1 str S \<and> same_edges t1 t'))"
  using assms
proof (induction str arbitrary: t T fs S d)
  case Nil
  then show ?case using grew_refl by simp
next
  case (Cons l cs)
  obtain a c k kids where T: "T = Trie a c k kids" by (cases T)
  show ?case
  proof (cases "d < FS_MAX_PREFIX_LENGTH")
    case False
    then show ?thesis using grew_refl [OF Cons.prems(1,3)] by simp
  next
    case True
    have l: "l \<noteq> 0" "0 \<notin> set cs" using Cons.prems(2) by auto
    from find_or_make [OF Cons.prems(1) [unfolded T] l(1) Cons.prems(3) [unfolded T] Cons.prems(4)] obtain r t1 r2 t2
      where s: "add_scan t a l [0..<PREFIX_EDGES] (tr_strings t + 1) None = Some (r, t1)" "make_space t1 a l r = Some (r2, t2)"
      and o: "r2 = No_node \<and> tr_free t2 = 0 \<and> same_edges t t2 \<or> (\<exists>us x vs fs2. r2 = Hit (length us) \<and> fst x = l \<and> regrown t T fs t2 (Trie a c k (us @ x # vs)) fs2 \<and> cnt_ok (Trie a c k (us @ x # vs)) S)"
      unfolding T by blast
    from o show ?thesis
    proof (elim disjE)
      assume "r2 = No_node \<and> tr_free t2 = 0 \<and> same_edges t t2"
      then show ?thesis using True s grew_refl [OF Cons.prems(1,3), of "l # cs"] by (auto simp: T)
    next
      assume "\<exists>us x vs fs2. r2 = Hit (length us) \<and> fst x = l \<and> regrown t T fs t2 (Trie a c k (us @ x # vs)) fs2 \<and> cnt_ok (Trie a c k (us @ x # vs)) S"
      then obtain us x vs fs2 where h: "r2 = Hit (length us)" "fst x = l" "regrown t T fs t2 (Trie a c k (us @ x # vs)) fs2" "cnt_ok (Trie a c k (us @ x # vs)) S" by blast
      have at2: "trie_at t2 (Trie a c k (us @ x # vs)) fs2" and st: "tr_strings t2 = tr_strings t" using h(3) unfolding regrown_def by blast+
      have sub: "trie_at t2 (snd x) fs2" by (rule sub_trie [OF at2]) simp
      obtain b c1 k1 kids1 where x: "snd x = Trie b c1 k1 kids1" by (cases "snd x")
      from trie_put_head [OF sub [unfolded x], where c' = "c1 + 1" and k' = k1] obtain t3 where p: "put_node t2 b ((tr_nodes t2 b)\<lparr>tn_count := c1 + 1, tn_code := k1\<rparr>) = Some t3"
        "regrown t2 (snd x) fs2 t3 (Trie b (c1 + 1) k1 kids1) fs2" unfolding x by blast
      have at3: "trie_at t3 (Trie b (c1 + 1) k1 kids1) fs2" "tr_strings t3 = tr_strings t" using p(2) st unfolding regrown_def by auto
      have cx: "cnt_ok (snd x) (after l S)" "c1 \<le> int (length (after l S))" using h(2,4) x by auto
      have len: "int (length (after l S)) \<le> tr_strings t3" using Cons.prems(4) at3(2) length_after [of l S] by linarith
      have "cnt_ok (Trie b (c1 + 1) k1 kids1) (after l S)" using cx(1) x by simp
      from Cons.IH [OF at3(1) l(2) this len, of "d + 1"] obtain r4 t4 where IH: "add_loop t3 b cs (d + 1) = Some (r4, t4)"
        "r4 = 0 \<and> grew t3 (Trie b (c1 + 1) k1 kids1) fs2 t4 cs (after l S)
         \<or> r4 = 1 \<and> tr_free t4 = 0 \<and> (\<exists>t1. grew t3 (Trie b (c1 + 1) k1 kids1) fs2 t1 cs (after l S) \<and> same_edges t1 t4)" by auto
      have nb: "tr_nodes t2 b = \<lparr>tn_count = c1, tn_code = k1, tn_label = padded (map fst kids1), tn_edge = padded (map (\<lambda>x. at_addr (snd x)) kids1)\<rparr>" "node_at t2 b = Some (tr_nodes t2 b)"
        using trie_at_node(1,10) [OF sub [unfolded x]] by simp_all
      have "length us < PREFIX_EDGES" using trie_at_node(2) [OF at2] by simp
      then have "edge_at t2 a (length us) = Some b" using trie_at_node(11) [OF at2] x by simp
      then have run: "add_loop t (at_addr T) (l # cs) d = Some (r4, t4)" using True s h(1) nb p(1) IH(1) by (simp add: T)
      have up: "grew t T fs t' (l # cs) S" if g: "grew t3 (Trie b (c1 + 1) k1 kids1) fs2 t' cs (after l S)" for t'
      proof -
        obtain S' fs' where S': "regrown t3 (Trie b (c1 + 1) k1 kids1) fs2 t' S' fs'" "at_count S' = c1 + 1" "cnt_ok S' (cs # after l S)"
          using g unfolding grew_def by auto
        have "regrown t T fs t' (Trie a c k (us @ (l, S') # vs)) fs'"
          using regrown_trans [OF h(3) embed [OF at2 regrown_trans [OF p(2) S'(1)]]] h(2) by simp
        moreover have "cnt_ok (Trie a c k (us @ (l, S') # vs)) ((l # cs) # S)"
          by (rule cnt_ok_kid [OF h(4)]) (use S'(2,3) cx(2) h(2) in \<open>simp_all add: after_hit\<close>)
        ultimately show ?thesis unfolding grew_def T by (intro exI [of _ "Trie a c k (us @ (l, S') # vs)"] exI [of _ fs']) simp
      qed
      show ?thesis using run IH(2) up by blast
    qed
  qed
qed

text \<open>
  The state of a trie to which the strings \<open>S\<close> were added: the array is a tree and a free list that use every node but
  node 0 exactly once, and the count of every node is at most the number of strings in \<open>S\<close> that begin with its path.
\<close>

definition trie_ok :: "prefix_trie \<Rightarrow> cstr list \<Rightarrow> bool" where
  "trie_ok t S \<longleftrightarrow> (\<exists>T fs. trie_at t T fs \<and> at_addr T = tr_root t \<and> set (addrs T @ fs) = {1..<TRIE_SIZE} \<and> cnt_ok T S) \<and> tr_strings t = int (length S)"

lemma trie_ok_add:
  assumes "trie_ok t S" "0 \<notin> set str"
  shows "\<exists>r t'. fs_prefix_trie_add_string t str = Some (r, t')
    \<and> (r = 0 \<and> trie_ok t' (str # S) \<or> r = 1 \<and> tr_free t' = 0 \<and> (\<exists>t1. trie_ok t1 (str # S) \<and> same_edges t1 t'))"
proof -
  let ?t = "t\<lparr>tr_strings := tr_strings t + 1\<rparr>"
  obtain T fs where T: "trie_at t T fs" "at_addr T = tr_root t" "set (addrs T @ fs) = {1..<TRIE_SIZE}" "cnt_ok T S" "tr_strings t = int (length S)"
    using assms(1) by (auto simp: trie_ok_def)
  have at: "trie_at ?t T fs" using T(1) by (simp add: trie_at_def free_ok_def)
  have ok: "trie_ok t' (str # S)" if g: "grew ?t T fs t' str S" for t'
  proof -
    obtain T' fs' where T': "regrown ?t T fs t' T' fs'" "cnt_ok T' (str # S)" using g unfolding grew_def by blast
    have m: "mset (addrs T' @ fs') = mset (addrs T @ fs)" using T'(1) by (simp add: regrown_def)
    show ?thesis using T' T(2,3,5) mset_eq_setD [OF m] unfolding trie_ok_def regrown_def
      by (intro conjI exI [of _ T'] exI [of _ fs']) simp_all
  qed
  have "int (length S) \<le> tr_strings ?t" using T(5) by simp
  from trie_add_loop_ok [OF at assms(2) T(4) this, of 0] show ?thesis
    unfolding T(2) fs_prefix_trie_add_string_def using ok by blast
qed

lemma new_linked: "0 < n \<Longrightarrow> n \<le> m \<Longrightarrow> linked (\<lambda>i. if i < m then i + 1 else 0) n [n..<m + 1]"
proof (induction "m - n" arbitrary: n)
  case (Suc k)
  have "[n..<m + 1] = n # [n + 1..<m + 1]" using Suc by (simp add: upt_conv_Cons)
  then show ?case using Suc by simp
qed simp

lemma new_trie:
  "\<exists>t. fs_prefix_trie_new = Some t \<and> trie_at t (Trie 1 0 0 []) [2..<TRIE_SIZE] \<and> tr_root t = 1 \<and> tr_strings t = 0"
proof -
  let ?N = "\<lambda>i. blank_node\<lparr>tn_edge := (tn_edge blank_node)[0 := if i < TRIE_SIZE - 1 then i + 1 else 0]\<rparr>"
  let ?t = "\<lparr>tr_strings = 0, tr_nodes = ?N, tr_root = 0, tr_free = 1\<rparr>"
  have e: "tn_edge (?N i) ! 0 = (if i < TRIE_SIZE - 1 then i + 1 else 0)" "length (tn_edge (?N i)) = PREFIX_EDGES" for i
    by (simp_all add: blank_node_def PREFIX_EDGES_def)
  have T: "1 < TRIE_SIZE" "1 \<le> TRIE_SIZE - 1" "TRIE_SIZE - 1 + 1 = TRIE_SIZE" by (simp_all add: TRIE_SIZE_def)
  have u: "[1..<TRIE_SIZE] = 1 # [2..<TRIE_SIZE]" using upt_conv_Cons [OF T(1)] by (simp add: numeral_2_eq_2)
  have "linked (\<lambda>i. if i < TRIE_SIZE - 1 then i + 1 else 0) 1 [1..<TRIE_SIZE]" using new_linked [of 1 "TRIE_SIZE - 1"] T by simp
  then have "free_ok ?t (1 # [2..<TRIE_SIZE])" unfolding u [symmetric] by (simp only: free_ok_def prefix_trie.simps e simp_thms) simp
  moreover have "set (1 # [2..<TRIE_SIZE]) \<subseteq> {1..<TRIE_SIZE}" using T by auto
  ultimately obtain t where t: "fs_prefix_trie_get_node ?t = Some (1, t)" "tr_nodes t = ?N(1 := blank_node)" "free_ok t [2..<TRIE_SIZE]" "tr_strings t = 0"
    using get_node_ok [of ?t 1 "[2..<TRIE_SIZE]"] by auto
  have "trie_at (t\<lparr>tr_root := 1\<rparr>) (Trie 1 0 0 []) [2..<TRIE_SIZE]"
    using t(2,3) T by (auto simp: trie_at_def free_ok_def blank_node_def padded_def)
  then show ?thesis using t(1,4) by (simp add: fs_prefix_trie_new_def)
qed

lemma trie_ok_new: "fs_prefix_trie_new = Some t \<Longrightarrow> trie_ok t []"
proof -
  assume "fs_prefix_trie_new = Some t"
  then have "trie_at t (Trie 1 0 0 []) [2..<TRIE_SIZE] \<and> tr_root t = 1 \<and> tr_strings t = 0" using new_trie by (metis option.inject)
  moreover have "set (addrs (Trie 1 0 0 []) @ [2..<TRIE_SIZE]) = {1..<TRIE_SIZE}"
  proof -
    have "1 < TRIE_SIZE" by (simp add: TRIE_SIZE_def)
    then show ?thesis by auto
  qed
  ultimately show ?thesis unfolding trie_ok_def by (intro conjI exI [of _ "Trie 1 0 0 []"] exI [of _ "[2..<TRIE_SIZE]"]) simp_all
qed

lemma trie_ok_reset:
  assumes "trie_ok t S"
  shows "\<exists>t'. fs_prefix_trie_reset t = Some t' \<and> trie_ok t' S"
proof -
  obtain T fs where T: "trie_at t T fs" "at_addr T = tr_root t" "set (addrs T @ fs) = {1..<TRIE_SIZE}" "tr_strings t = int (length S)"
    using assms by (auto simp: trie_ok_def)
  obtain t1 fs1 where t1: "fs_prefix_trie_free_subtree t (tr_root t) = Some t1" "freed t (addrs T) fs t1 fs1"
    using free_subtree_ok [of t T fs] T(1,2) by (auto simp: trie_at_def)
  have f: "free_ok t1 fs1" "mset fs1 = mset (addrs T @ fs)" "tr_strings t1 = tr_strings t" using t1(2) by (auto simp: freed_def)
  have s: "set fs1 = {1..<TRIE_SIZE}" "distinct fs1" using mset_eq_setD [OF f(2)] mset_eq_imp_distinct_iff [OF f(2)] T(1,3) by (auto simp: trie_at_def)
  obtain f0 fs' where fs1: "fs1 = f0 # fs'" using s(1) by (cases fs1) (auto simp: TRIE_SIZE_def)
  obtain t2 where t2: "fs_prefix_trie_get_node t1 = Some (f0, t2)" "tr_nodes t2 = (tr_nodes t1)(f0 := blank_node)" "free_ok t2 fs'" "tr_strings t2 = tr_strings t1"
    using get_node_ok [of t1 f0 fs'] f(1) equalityD1 [OF s(1)] unfolding fs1 by blast
  have "trie_at (t2\<lparr>tr_root := f0\<rparr>) (Trie f0 0 0 []) fs'"
    using t2(2,3) s fs1 by (auto simp: trie_at_def free_ok_def blank_node_def padded_def)
  then have "trie_ok (t2\<lparr>tr_root := f0\<rparr>) S" using s(1) fs1 t2(4) f(3) T(4) unfolding trie_ok_def
    by (intro conjI exI [of _ "Trie f0 0 0 []"] exI [of _ fs']) auto
  then show ?thesis using t1(1) t2(1) by (simp add: fs_prefix_trie_reset_def)
qed

lemma get_prefixes_same:
  assumes "same_edges t t'"
  shows "fs_prefix_trie_get_prefixes cur t' mx = fs_prefix_trie_get_prefixes cur t mx"
proof -
  note s = assms [unfolded same_edges_def]
  have r: "add_row t' = add_row t" using s by (intro ext) (simp add: add_row_def)
  have c: "candidate t' = candidate t" by (intro ext) (simp add: candidate_def r)
  have "get_prefixes_intl t' mx cur pr last_score node depth e = get_prefixes_intl t mx cur pr last_score node depth e" for cur pr last_score node depth e
  proof (induction "(FS_MAX_PREFIX_LENGTH - depth) * (PREFIX_EDGES + 1) + (PREFIX_EDGES - e)" arbitrary: cur pr last_score node depth e rule: less_induct)
    case less
    have A: "get_prefixes_intl t' mx cur pr ls m (Suc depth) 0 = get_prefixes_intl t mx cur pr ls m (Suc depth) 0" if "\<not> FS_MAX_PREFIX_LENGTH - Suc 0 \<le> depth" for cur pr ls m
      by (rule less) (use that in \<open>simp add: FS_MAX_PREFIX_LENGTH_def PREFIX_EDGES_def\<close>)
    have B: "get_prefixes_intl t' mx cur pr ls m depth (Suc e) = get_prefixes_intl t mx cur pr ls m depth (Suc e)" if "e < PREFIX_EDGES" for cur pr ls m
      by (rule less) (use that in simp)
    show ?case
    proof (cases "e < PREFIX_EDGES \<and> tn_edge (tr_nodes t node) ! e \<noteq> 0")
      case True
      then show ?thesis using s
        by (subst (1 2) get_prefixes_intl.simps) (simp add: node_at_def load_at_def c Let_def A B cong: if_cong)
    next
      case False
      then show ?thesis using s
        by (subst (1 2) get_prefixes_intl.simps) (auto simp add: node_at_def load_at_def)
    qed
  qed
  then show ?thesis using s by (simp add: fs_prefix_trie_get_prefixes_def)
qed



section \<open>Codes\<close>

text \<open>The code of a node that has one child is that of the prefix that ends there; \<open>tab\<close> is the table of prefixes.\<close>

fun code_ok :: "(int \<rightharpoonup> cstr) \<Rightarrow> cstr \<Rightarrow> atrie \<Rightarrow> bool" where
  "code_ok tab p (Trie a c k kids) \<longleftrightarrow> (k \<noteq> 0 \<longrightarrow> kids \<noteq> [] \<and> (length kids = 1 \<longrightarrow> tab k = Some (p @ [fst (hd kids)])))
     \<and> (\<forall>x \<in> set kids. code_ok tab (p @ [fst x]) (snd x))"

lemma code_ok_mono: "code_ok tab p T \<Longrightarrow> tab \<subseteq>\<^sub>m tab' \<Longrightarrow> code_ok tab' p T"
proof (induction T arbitrary: p rule: addrs.induct)
  case (1 a c k kids)
  have "tab' k = Some q" if "tab k = Some q" for q using that 1(3) by (metis domI map_le_def)
  then show ?case using 1 by auto
qed

text \<open>An array without free nodes, or a node without a free edge.\<close>

definition no_room :: "prefix_trie \<Rightarrow> bool" where
  "no_room t \<longleftrightarrow> tr_free t = 0 \<or> (\<exists>n. 0 \<notin> set (tn_label (tr_nodes t n)))"

lemma full_node: "trie_at t (Trie a c k kids) fs \<Longrightarrow> length kids = PREFIX_EDGES \<Longrightarrow> no_room t"
  using trie_at_node(1,7) [of t a c k kids fs] unfolding no_room_def by (intro disjI2 exI [of _ a]) (simp add: padded_def)

lemma find_code_edge:
  assumes at: "trie_at t (Trie a c k kids) fs" and l: "l \<noteq> 0" and ok: "code_ok tab p (Trie a c k kids)"
  shows "\<exists>r t1. code_scan t a l [0..<PREFIX_EDGES] = Some (r, t1)
    \<and> ((r = No_node \<or> r = Miss None) \<and> no_room t1
       \<or> (\<exists>us x vs fs1. r = Hit (length us) \<and> fst x = l \<and> regrown t (Trie a c k kids) fs t1 (Trie a c k (us @ x # vs)) fs1 \<and> code_ok tab p (Trie a c k (us @ x # vs))))"
    (is "\<exists>r t1. _ \<and> (_ \<and> _ \<or> ?hit r t1)")
proof (cases rule: label_cases [OF at, of l])
  case (1 i)
  have "i < PREFIX_EDGES" using 1(1) trie_at_node(2) [OF at] by simp
  then have "code_scan t a l [0..<PREFIX_EDGES] = Some (Hit i, t)" using scan_first(1) [OF at l, of 0 i] 1 by simp
  moreover have "?hit (Hit i) t"
    using regrown_refl [OF at] ok 1 id_take_nth_drop [OF 1(1)]
    by (intro exI [of _ "take i kids"] exI [of _ "kids ! i"] exI [of _ "drop (Suc i) kids"] exI [of _ fs]) simp
  ultimately show ?thesis by blast
next
  case 2
  have s: "code_scan t a l [0..<PREFIX_EDGES] = new_edge t a (length kids) l" using scan_first(1) [OF at l, of 0 "length kids"] 2 by simp
  show ?thesis
  proof (cases fs)
    case Nil
    then show ?thesis unfolding s no_room_def using grow_new(2) [OF at 2(2,1) l] by blast
  next
    case (Cons f fs')
    from grow_new(1) [OF at 2(2,1) l Cons] obtain t' where t': "new_edge t a (length kids) l = Some (Hit (length kids), t')"
      "regrown t (Trie a c k kids) fs t' (Trie a c k (kids @ [(l, Trie f 0 0 [])])) fs'" by blast
    have "code_ok tab p (Trie a c k (kids @ [(l, Trie f 0 0 [])]))" using ok by auto
    then have "?hit (Hit (length kids)) t'"
      using t'(2) by (intro exI [of _ kids] exI [of _ "(l, Trie f 0 0 [])"] exI [of _ "[]"] exI [of _ fs']) auto
    then show ?thesis unfolding s using t'(1) by blast
  qed
next
  case 3
  then show ?thesis using scan_full(1) [OF at 3, of 0] full_node [OF at] by simp
qed

lemma add_code_loop_ok:
  assumes "trie_at t T fs" "0 \<notin> set str" "code_ok tab p T" "tab code = Some (p @ str)"
  shows "\<exists>r t'. add_code_loop t (at_addr T) str code = Some (r, t') \<and> (r = 0 \<and> (\<exists>T' fs'. regrown t T fs t' T' fs' \<and> code_ok tab p T') \<or> r = 1 \<and> no_room t')"
  using assms
proof (induction str arbitrary: t T fs p)
  case Nil
  then show ?case using regrown_refl [OF Nil(1)] by auto
next
  case (Cons l cs)
  obtain a c k kids where T: "T = Trie a c k kids" by (cases T)
  have l: "l \<noteq> 0" "0 \<notin> set cs" using Cons.prems(2) by auto
  from find_code_edge [OF Cons.prems(1) [unfolded T] l(1) Cons.prems(3) [unfolded T]] obtain r t1
    where s: "code_scan t a l [0..<PREFIX_EDGES] = Some (r, t1)"
    and o: "(r = No_node \<or> r = Miss None) \<and> no_room t1 \<or> (\<exists>us x vs fs1. r = Hit (length us) \<and> fst x = l \<and> regrown t T fs t1 (Trie a c k (us @ x # vs)) fs1 \<and> code_ok tab p (Trie a c k (us @ x # vs)))"
    unfolding T by blast
  show ?case
  proof (cases "(r = No_node \<or> r = Miss None) \<and> no_room t1")
    case True
    then show ?thesis using s by (auto simp: T)
  next
    case False
    with o obtain us x vs fs1 where h: "r = Hit (length us)" "fst x = l" "regrown t T fs t1 (Trie a c k (us @ x # vs)) fs1" "code_ok tab p (Trie a c k (us @ x # vs))" by blast
    define k' where "k' = (if cs = [] then code else k)"
    have at1: "trie_at t1 (Trie a c k (us @ x # vs)) fs1" using h(3) unfolding regrown_def by blast
    have n1: "node_at t1 a = Some (tr_nodes t1 a)" "(tr_nodes t1 a)\<lparr>tn_count := c, tn_code := code\<rparr> = (tr_nodes t1 a)\<lparr>tn_code := code\<rparr>" using trie_at_node(1,10) [OF at1] by simp_all
    obtain t2 where t2: "(if cs = [] then put_node t1 a ((tr_nodes t1 a)\<lparr>tn_code := code\<rparr>) else Some t1) = Some t2"
      "regrown t1 (Trie a c k (us @ x # vs)) fs1 t2 (Trie a c k' (us @ x # vs)) fs1"
      using trie_put_head [OF at1, where c' = c and k' = code] regrown_refl [OF at1] n1(2) by (cases "cs = []") (auto simp: k'_def)
    have at2: "trie_at t2 (Trie a c k' (us @ x # vs)) fs1" using t2(2) unfolding regrown_def by blast
    have ok2: "code_ok tab p (Trie a c k' (us @ x # vs))" using h(2,4) Cons.prems(4) by (cases us; cases vs) (auto simp: k'_def)
    have sub: "trie_at t2 (snd x) fs1" by (rule sub_trie [OF at2]) simp
    have "code_ok tab (p @ [l]) (snd x)" "tab code = Some ((p @ [l]) @ cs)" using ok2 h(2) Cons.prems(4) by auto
    from Cons.IH [OF sub l(2) this] obtain r3 t3 where IH: "add_code_loop t2 (at_addr (snd x)) cs code = Some (r3, t3)"
      "r3 = 0 \<and> (\<exists>T' fs'. regrown t2 (snd x) fs1 t3 T' fs' \<and> code_ok tab (p @ [l]) T') \<or> r3 = 1 \<and> no_room t3" by blast
    have "length us < PREFIX_EDGES" using trie_at_node(2) [OF at2] by simp
    then have "edge_at t2 a (length us) = Some (at_addr (snd x))" using trie_at_node(11) [OF at2] by simp
    then have run: "add_code_loop t (at_addr T) (l # cs) code = Some (r3, t3)" using s h(1) n1(1) t2(1) IH(1) by (simp add: T)
    show ?thesis
    proof (cases "r3 = 1")
      case False
      then obtain S' fs' where S': "r3 = 0" "regrown t2 (snd x) fs1 t3 S' fs'" "code_ok tab (p @ [l]) S'" using IH(2) by blast
      have "regrown t T fs t3 (Trie a c k' (us @ (l, S') # vs)) fs'"
        using regrown_trans [OF h(3) regrown_trans [OF t2(2) embed [OF at2 S'(2)]]] h(2) by simp
      moreover have "code_ok tab p (Trie a c k' (us @ (l, S') # vs))" using ok2 S'(3) h(2) by (cases us; cases vs) auto
      ultimately show ?thesis using run S'(1) by blast
    qed (use run IH(2) in auto)
  qed
qed

lemma label_len_kids: "length kids \<le> PREFIX_EDGES \<Longrightarrow> 0 \<notin> fst ` set kids \<Longrightarrow> tn_label x = padded (map fst kids) \<Longrightarrow> label_len x = length kids"
proof -
  assume a: "length kids \<le> PREFIX_EDGES" "0 \<notin> fst ` set kids" "tn_label x = padded (map fst kids)"
  have "takeWhile (\<lambda>l. l \<noteq> 0) (map fst kids @ replicate n 0) = map fst kids" for n
    using a(2) by (induction kids; cases n) auto
  then show ?thesis using a(3) by (simp add: label_len_def padded_def)
qed

lemma get_code_loop_ok:
  assumes "trie_at t T fs" "0 \<notin> set str" "code_ok tab p T" "deepest \<noteq> 0 \<longrightarrow> tab deepest = Some (take plen (p @ str))" "plen \<le> length p"
  shows "\<exists>k pl. get_code_loop t (at_addr T) str (length p) deepest plen = Some (k, pl)
    \<and> (k \<noteq> 0 \<longrightarrow> (\<exists>n. pl = Some n \<and> n \<le> length (p @ str) \<and> tab k = Some (take n (p @ str))))"
  using assms
proof (induction str arbitrary: T p deepest plen)
  case (Cons l cs)
  obtain a c k kids where T: "T = Trie a c k kids" by (cases T)
  note at = Cons.prems(1) [unfolded T]
  note n = trie_at_node [OF at]
  have l: "l \<noteq> 0" "0 \<notin> set cs" using Cons.prems(2) by auto
  note sc = edge_scan_ok [OF n(2,6,7) l(1), of 0]
  show ?case
  proof (cases "l \<in> fst ` set kids")
    case False
    then show ?thesis using sc(2) n(1,10) Cons.prems(4,5) by (auto simp: T)
  next
    case True
    then obtain i where i: "i < length kids" "fst (kids ! i) = l" by (metis (no_types, lifting) image_iff in_set_conv_nth)
    have s: "get_scan (padded (map fst kids)) l [0..<PREFIX_EDGES] = Some (Hit i)" by (rule sc(1)) (use i in auto)
    have e: "load_at (padded (map (\<lambda>x. at_addr (snd x)) kids)) i = Some (at_addr (snd (kids ! i)))" using i n(2) by (simp add: nth_padded)
    have ll: "label_len (tr_nodes t a) = length kids" by (rule label_len_kids) (use n in auto)
    have sub: "trie_at t (snd (kids ! i)) fs" "code_ok tab (p @ [l]) (snd (kids ! i))"
      using sub_trie [OF at nth_mem [OF i(1)]] Cons.prems(3) i nth_mem [OF i(1)] by (auto simp: T)
    define deepest' plen' where d: "deepest' = (if k \<noteq> 0 \<and> length kids = 1 then k else deepest)" "plen' = (if k \<noteq> 0 \<and> length kids = 1 then length p + 1 else plen)"
    have "deepest' \<noteq> 0 \<longrightarrow> tab deepest' = Some (take plen' ((p @ [l]) @ cs))"
    proof (cases "k \<noteq> 0 \<and> length kids = 1")
      case True
      then have "hd kids = kids ! i" using i(1) by (cases kids) auto
      then show ?thesis using True Cons.prems(3) i(2) by (simp add: d T)
    qed (use Cons.prems(4) in \<open>auto simp: d\<close>)
    moreover have "plen' \<le> length (p @ [l])" using Cons.prems(5) by (simp add: d)
    moreover have "get_code_loop t (at_addr T) (l # cs) (length p) deepest plen = get_code_loop t (at_addr (snd (kids ! i))) cs (length (p @ [l])) deepest' plen'"
      using s e n(1,10) ll by (simp add: T d)
    ultimately show ?thesis using Cons.IH [OF sub(1) l(2) sub(2), of deepest' plen'] by simp
  qed
qed auto

text \<open>The state of a trie of codes for the table \<open>tab\<close>.\<close>

definition codes_ok :: "prefix_trie \<Rightarrow> (int \<rightharpoonup> cstr) \<Rightarrow> bool" where
  "codes_ok t tab \<longleftrightarrow> (\<exists>T fs. trie_at t T fs \<and> at_addr T = tr_root t \<and> code_ok tab [] T)"

lemma codes_ok_new: "fs_prefix_trie_new = Some t \<Longrightarrow> codes_ok t tab"
proof -
  assume "fs_prefix_trie_new = Some t"
  then have "trie_at t (Trie 1 0 0 []) [2..<TRIE_SIZE] \<and> tr_root t = 1" using new_trie by (metis option.inject)
  then show ?thesis unfolding codes_ok_def by (intro exI [of _ "Trie 1 0 0 []"] exI [of _ "[2..<TRIE_SIZE]"]) simp
qed

lemma codes_ok_add:
  assumes "codes_ok t tab" "0 \<notin> set str" "tab \<subseteq>\<^sub>m tab'" "tab' code = Some str"
  shows "\<exists>r t'. fs_prefix_trie_add_code t str code = Some (r, t') \<and> (r = 0 \<and> codes_ok t' tab' \<or> r = 1 \<and> no_room t')"
proof -
  obtain T fs where T: "trie_at t T fs" "at_addr T = tr_root t" "code_ok tab' [] T" using assms(1,3) code_ok_mono by (auto simp: codes_ok_def)
  from add_code_loop_ok [OF T(1) assms(2) T(3), of code] assms(4) obtain r t' where r: "fs_prefix_trie_add_code t str code = Some (r, t')"
    "r = 0 \<and> (\<exists>T' fs'. regrown t T fs t' T' fs' \<and> code_ok tab' [] T') \<or> r = 1 \<and> no_room t'" unfolding fs_prefix_trie_add_code_def T(2) by auto
  have "codes_ok t' tab'" if "regrown t T fs t' T' fs'" "code_ok tab' [] T'" for T' fs'
    using that T(2) unfolding codes_ok_def regrown_def by (intro exI [of _ T'] exI [of _ fs']) simp
  then show ?thesis using r by blast
qed

lemma get_code_ok:
  assumes "codes_ok t tab" "0 \<notin> set str"
  shows "\<exists>k pl. fs_prefix_trie_get_code t str = Some (k, pl) \<and> (k \<noteq> 0 \<longrightarrow> (\<exists>n. pl = Some n \<and> n \<le> length str \<and> tab k = Some (take n str)))"
proof -
  obtain T fs where T: "trie_at t T fs" "at_addr T = tr_root t" "code_ok tab [] T" using assms(1) by (auto simp: codes_ok_def)
  from get_code_loop_ok [OF T(1) assms(2) T(3), of 0 0] show ?thesis unfolding fs_prefix_trie_get_code_def T(2) by simp
qed

text \<open>C23: the code that a lookup returns is the code of a prefix of the string, and the length it writes is the length of that
  prefix, after a prefix was added to the trie of codes; adding fails only
  when there is no room.\<close>

theorem prefix_codes_sound:
  assumes "codes_ok t tab" "0 \<notin> set pre" "0 \<notin> set str" "code \<notin> dom tab"
  shows "\<exists>r t'. fs_prefix_trie_add_code t pre code = Some (r, t') \<and> (r = 1 \<and> no_room t' \<or> r = 0 \<and> codes_ok t' (tab(code \<mapsto> pre))
    \<and> (\<exists>k pl. fs_prefix_trie_get_code t' str = Some (k, pl) \<and> (k \<noteq> 0 \<longrightarrow> (\<exists>n. pl = Some n \<and> n \<le> length str \<and> (tab(code \<mapsto> pre)) k = Some (take n str)))))"
proof -
  have m: "tab \<subseteq>\<^sub>m tab(code \<mapsto> pre)" using assms(4) by (auto simp: map_le_def)
  have "(tab(code \<mapsto> pre)) code = Some pre" by simp
  from codes_ok_add [OF assms(1,2) m this] obtain r t' where "fs_prefix_trie_add_code t pre code = Some (r, t')" "r = 0 \<and> codes_ok t' (tab(code \<mapsto> pre)) \<or> r = 1 \<and> no_room t'" by blast
  then show ?thesis using get_code_ok [OF _ assms(3), of t' "tab(code \<mapsto> pre)"] by blast
qed

theorem prefix_codes_sound_witness:
  "\<exists>t r t'. codes_ok t Map.empty \<and> fs_prefix_trie_add_code t [104, 58] 1 = Some (r, t') \<and> (r = 1 \<or> codes_ok t' [1 \<mapsto> [104, 58]])"
proof -
  obtain t where t: "fs_prefix_trie_new = Some t" using new_trie by blast
  have "0 \<notin> set [104 :: u8, 58]" by simp
  from prefix_codes_sound [OF codes_ok_new [OF t, of Map.empty] this this, of 1] codes_ok_new [OF t, of Map.empty] show ?thesis by auto
qed

section \<open>Prefixes\<close>

text \<open>The number of strings that begin with a prefix.\<close>

definition starting :: "cstr \<Rightarrow> cstr list \<Rightarrow> nat" where
  "starting p S = length (filter (\<lambda>s. take (length p) s = p) S)"

fun afters :: "cstr \<Rightarrow> cstr list \<Rightarrow> cstr list" where
  "afters [] S = S"
| "afters (l # p) S = afters p (after l S)"

lemma afters_snoc: "afters (p @ [l]) S = after l (afters p S)"
  by (induction p arbitrary: S) simp_all

lemma length_afters: "length (afters p S) = starting p S"
proof (induction p arbitrary: S)
  case (Cons l p)
  have "filter (\<lambda>s. take (length (l # p)) s = l # p) S = filter (\<lambda>s. take (length p) (tl s) = p) (filter (\<lambda>s. s \<noteq> [] \<and> hd s = l) S)"
    unfolding filter_filter by (rule filter_cong [OF refl]) (case_tac x; auto)
  then show ?case by (simp add: Cons starting_def after_def filter_map comp_def)
qed (simp add: starting_def)

text \<open>A row of the table is free or its score is at most what replacing the prefix by a code saves.\<close>

definition row_ok :: "cstr list \<Rightarrow> fs_prefix \<Rightarrow> bool" where
  "row_ok S r \<longleftrightarrow> (pf_score r = 0 \<or> pf_score r \<le> (int (starting (pf_prefix r) S) - 1) * int (length (pf_prefix r)))
     \<and> 0 \<notin> set (pf_prefix r) \<and> length (pf_prefix r) < FS_MAX_PREFIX_LENGTH"

lemma pr_scan_rows:
  assumes "pr_scan pr cur last_score rows lr ls = (pr', r, ls')"
  shows "length pr' = length pr" "set pr' \<subseteq> insert \<lparr>pf_score = last_score, pf_prefix = cur\<rparr> (set pr)"
  using assms by (induction pr cur last_score rows lr ls rule: pr_scan.induct) (auto split: if_splits dest: subsetD [OF set_update_subset_insert])

lemma add_row_rows:
  "length (add_row t mx cur last_score pr) = length pr" "set (add_row t mx cur last_score pr) \<subseteq> insert \<lparr>pf_score = last_score, pf_prefix = cur\<rparr> (set pr)"
proof -
  obtain pr' r ls' where s: "pr_scan pr cur last_score [0..<mx] 0 (int FS_MAX_PREFIX_LENGTH * tr_strings t) = (pr', r, ls')" by (rule prod_cases3)
  note p = pr_scan_rows [OF s]
  show "length (add_row t mx cur last_score pr) = length pr" using p by (simp add: add_row_def s split: option.split)
  show "set (add_row t mx cur last_score pr) \<subseteq> insert \<lparr>pf_score = last_score, pf_prefix = cur\<rparr> (set pr)"
    using p(2) by (auto simp: add_row_def s split: option.split dest: subsetD [OF set_update_subset_insert])
qed

text \<open>The state of the search at a node with path \<open>p\<close>.\<close>

definition path_ok :: "cstr list \<Rightarrow> nat \<Rightarrow> cstr \<Rightarrow> u8 list \<Rightarrow> fs_prefix list \<Rightarrow> bool" where
  "path_ok S mx p cur pr \<longleftrightarrow> length cur = FS_MAX_PREFIX_LENGTH + 1 \<and> take (length p) cur = p \<and> length pr = mx \<and> (\<forall>r \<in> set pr. row_ok S r)"

lemma candidate_ok:
  assumes "path_ok S mx p cur pr" "p \<noteq> []" "0 \<notin> set p" "length p \<le> FS_MAX_PREFIX_LENGTH"
    "last_score \<le> (int (starting (butlast p) S) - 1) * int (length p - 1)"
  shows "\<exists>pr'. candidate t mx cur (length p) last_score pr = Some (cur, pr') \<and> path_ok S mx p cur pr'"
proof -
  have c: "length p - 1 < length cur" using assms by (simp add: path_ok_def)
  have p: "p = take (length p) cur" using assms(1) by (simp add: path_ok_def)
  obtain b where b: "cur = butlast p @ last p # b"
    by (metis append_butlast_last_id append_take_drop_id append.assoc append_Cons append_Nil assms(2) p)
  have l: "length p - 1 = length (butlast p)" by simp
  have "cur[length p - 1 := 0] = butlast p @ 0 # b" unfolding b l by (simp add: list_update_append)
  moreover have "\<forall>x \<in> set (butlast p). x \<noteq> 0" using assms(3) by (metis in_set_butlastD)
  ultimately have s: "c_string (cur[length p - 1 := 0]) = butlast p" unfolding c_string_def by (simp add: takeWhile_append2)
  have u: "cur[length p - 1 := 0, length p - 1 := cur ! (length p - 1)] = cur" by simp
  have "candidate t mx cur (length p) last_score pr = Some (cur, add_row t mx (butlast p) last_score pr)"
    using assms(2) c s by (simp add: candidate_def Let_def)
  moreover have "row_ok S \<lparr>pf_score = last_score, pf_prefix = butlast p\<rparr>"
    using assms(2,3,4,5) in_set_butlastD [of 0 p] by (cases p) (auto simp: row_ok_def)
  then have "path_ok S mx p cur (add_row t mx (butlast p) last_score pr)"
    using assms(1) add_row_rows [of t mx "butlast p" last_score pr] by (auto simp: path_ok_def)
  ultimately show ?thesis by blast
qed

text \<open>The bound on the score of the parent.\<close>

definition parent_ok :: "cstr list \<Rightarrow> cstr \<Rightarrow> int \<Rightarrow> bool" where
  "parent_ok S p last_score \<longleftrightarrow> (if p = [] then last_score = 0 else last_score \<le> (int (starting (butlast p) S) - 1) * int (length p - 1))"

lemma store_path:
  assumes "path_ok S mx p cur pr" "length p < FS_MAX_PREFIX_LENGTH"
  shows "\<exists>cur'. do { c1 \<leftarrow> store_at cur (length p) l; store_at c1 (length p + 1) 0 } = Some cur' \<and> path_ok S mx (p @ [l]) cur' pr"
proof -
  have c: "length cur = FS_MAX_PREFIX_LENGTH + 1" "take (length p) cur = p" using assms(1) by (simp_all add: path_ok_def)
  have "take (Suc (length p)) (cur[length p := l, length p + 1 := 0]) = p @ [l]"
    using c assms(2) by (simp add: take_Suc_conv_app_nth take_update_cancel)
  then show ?thesis using assms c by (simp add: path_ok_def)
qed

lemma path_up: "path_ok S mx (p @ [l]) cur pr \<Longrightarrow> path_ok S mx p cur pr"
proof -
  assume a: "path_ok S mx (p @ [l]) cur pr"
  have "take (length p) (take (length (p @ [l])) cur) = take (length p) (p @ [l])" using a by (simp only: path_ok_def)
  then have "take (length p) cur = p" by (simp add: min_def)
  then show ?thesis using a by (simp add: path_ok_def)
qed

lemma intl_edges:
  assumes kid: "\<And>x p cur pr last_score. x \<in> set kids \<Longrightarrow> trie_at t (snd x) fs \<Longrightarrow> cnt_ok (snd x) (afters p S) \<Longrightarrow> 0 < length p \<Longrightarrow> at_count (snd x) \<le> int (starting p S) \<Longrightarrow> path_ok S mx p cur pr \<Longrightarrow> 0 \<notin> set p
       \<Longrightarrow> length p < FS_MAX_PREFIX_LENGTH \<Longrightarrow> parent_ok S p last_score
       \<Longrightarrow> \<exists>cur' pr'. get_prefixes_intl t mx cur pr last_score (at_addr (snd x)) (length p) 0 = Some (cur', pr') \<and> path_ok S mx p cur' pr'"
    and at: "trie_at t (Trie a c k kids) fs" and cnt: "cnt_ok (Trie a c k kids) (afters p S)" "p = [] \<or> c \<le> int (starting p S)"
    and p: "0 \<notin> set p" "length p < FS_MAX_PREFIX_LENGTH" "parent_ok S p last_score" and st: "path_ok S mx p cur pr"
  shows "\<exists>cur' pr'. get_prefixes_intl t mx cur pr last_score a (length p) e = Some (cur', pr') \<and> path_ok S mx p cur' pr'"
  using st
proof (induction "PREFIX_EDGES - e" arbitrary: e cur pr)
  case 0
  then show ?case by (subst get_prefixes_intl.simps) simp
next
  case (Suc m)
  note n = trie_at_node [OF at]
  have e: "e < PREFIX_EDGES" "m = PREFIX_EDGES - (e + 1)" using Suc(2) by simp_all
  let ?score = "(c - 1) * int (length p)"
  show ?case
  proof (cases "e < length kids")
    case False
    then show ?thesis using e n(1,2,10) Suc.prems by (subst get_prefixes_intl.simps) (simp add: nth_padded)
  next
    case True
    let ?x = "kids ! e"
    have x: "?x \<in> set kids" "fst ?x \<noteq> 0" using True n(7) by (auto simp: image_iff)
    have ld: "load_at (padded (map (\<lambda>x. at_addr (snd x)) kids)) e = Some (at_addr (snd ?x))" "load_at (padded (map fst kids)) e = Some (fst ?x)" "at_addr (snd ?x) \<noteq> 0"
      using True e(1) n(2) kid_addr(1) [OF at x(1)] by (simp_all add: nth_padded)
    obtain pr1 where c1: "(if ?score < last_score then candidate t mx cur (length p) last_score pr else Some (cur, pr)) = Some (cur, pr1)" "path_ok S mx p cur pr1"
    proof (cases "?score < last_score")
      case True
      then have "p \<noteq> []" using p(3) by (auto simp: parent_ok_def)
      then show ?thesis using that candidate_ok [OF Suc.prems _ p(1), of last_score t] p(2,3) True by (auto simp: parent_ok_def)
    qed (use that Suc.prems in simp)
    obtain cur2 cur3 where c3: "store_at cur (length p) (fst ?x) = Some cur2" "store_at cur2 (length p + 1) 0 = Some cur3" "path_ok S mx (p @ [fst ?x]) cur3 pr1"
      using store_path [OF c1(2) p(2), of "fst ?x"] by (auto split: Option.bind_splits)
    have step: "get_prefixes_intl t mx cur pr last_score a (length p) e
      = (if length p \<ge> FS_MAX_PREFIX_LENGTH - 1 then Some (cur3, pr1)
         else do { (cur4, pr2) \<leftarrow> get_prefixes_intl t mx cur3 pr1 ?score (at_addr (snd ?x)) (length p + 1) 0; get_prefixes_intl t mx cur4 pr2 last_score a (length p) (e + 1) })"
      using e(1) n(1,10) ld c1(1) c3 by (subst get_prefixes_intl.simps) (simp add: Let_def)
    show ?thesis
    proof (cases "length p \<ge> FS_MAX_PREFIX_LENGTH - 1")
      case True
      then show ?thesis using step path_up [OF c3(3)] by simp
    next
      case False
      have a: "cnt_ok (snd ?x) (afters (p @ [fst ?x]) S)" "at_count (snd ?x) \<le> int (starting (p @ [fst ?x]) S)"
        using cnt(1) x(1) by (auto simp: afters_snoc length_afters [symmetric])
      have "c \<le> int (starting p S) \<Longrightarrow> ?score \<le> (int (starting p S) - 1) * int (length p)" by (intro mult_right_mono) simp_all
      then have "parent_ok S (p @ [fst ?x]) ?score" using cnt(2) by (auto simp: parent_ok_def)
      moreover have "0 < length (p @ [fst ?x])" "0 \<notin> set (p @ [fst ?x])" "length (p @ [fst ?x]) < FS_MAX_PREFIX_LENGTH" using p(1) x(2) False by auto
      ultimately obtain cur4 pr2 where
        c4: "get_prefixes_intl t mx cur3 pr1 ?score (at_addr (snd ?x)) (length p + 1) 0 = Some (cur4, pr2)" "path_ok S mx (p @ [fst ?x]) cur4 pr2"
        using kid [OF x(1) sub_trie [OF at x(1)] a(1) _ a(2) c3(3)] by fastforce
      show ?thesis using step False c4(1) Suc(1) [OF e(2) path_up [OF c4(2)]] by simp
    qed
  qed
qed

lemma intl_ok:
  assumes "trie_at t T fs" "cnt_ok T (afters p S)" "p = [] \<or> at_count T \<le> int (starting p S)" "path_ok S mx p cur pr" "0 \<notin> set p"
    "length p < FS_MAX_PREFIX_LENGTH" "parent_ok S p last_score"
  shows "\<exists>cur' pr'. get_prefixes_intl t mx cur pr last_score (at_addr T) (length p) 0 = Some (cur', pr') \<and> path_ok S mx p cur' pr'"
  using assms
proof (induction T arbitrary: p cur pr last_score rule: addrs.induct)
  case (1 a c k kids)
  show ?case using intl_edges [of kids t fs S mx a c k p last_score cur pr 0] 1 by simp
qed

lemma prune_rows: "(\<forall>r \<in> set pr. row_ok S r) \<Longrightarrow> \<forall>r \<in> set (prune is pr). row_ok S r" "length (prune is pr) = length pr"
proof -
  have z: "row_ok S r \<Longrightarrow> row_ok S (r\<lparr>pf_score := 0\<rparr>)" for r by (simp add: row_ok_def)
  have u: "(\<forall>r \<in> set pr. row_ok S r) \<Longrightarrow> \<forall>r \<in> set (pr[i := (pr ! i)\<lparr>pf_score := 0\<rparr>]). row_ok S r" for i pr
    using z by (cases "i < length pr") (auto simp: list_update_beyond dest!: subsetD [OF set_update_subset_insert])
  have r: "(\<forall>r \<in> set pr. row_ok S r) \<Longrightarrow> \<forall>r \<in> set (prune_row i js pr). row_ok S r" for i js pr
    using u by (induction i js pr rule: prune_row.induct) auto
  have l: "length (prune_row i js pr) = length pr" for i js pr by (induction i js pr rule: prune_row.induct) auto
  show "(\<forall>r \<in> set pr. row_ok S r) \<Longrightarrow> \<forall>r \<in> set (prune is pr). row_ok S r" using r by (induction "is" pr rule: prune.induct) auto
  show "length (prune is pr) = length pr" using l by (induction "is" pr rule: prune.induct) auto
qed

interpretation prefix_order: comparator sort_prefixes
  by unfold_locales (auto simp: sort_prefixes_def)

lemma get_prefixes_ok:
  assumes "trie_ok t S" "length cur = FS_MAX_PREFIX_LENGTH + 1"
  shows "\<exists>pr. fs_prefix_trie_get_prefixes cur t mx = Some pr \<and> length pr = mx \<and> sorted_wrt (\<lambda>a b. pf_score a \<ge> pf_score b) pr
    \<and> (\<forall>r \<in> set pr. row_ok S r)"
proof -
  obtain T fs where T: "trie_at t T fs" "at_addr T = tr_root t" "cnt_ok T S" using assms(1) by (auto simp: trie_ok_def)
  have "path_ok S mx [] cur (replicate mx \<lparr>pf_score = 0, pf_prefix = []\<rparr>)" using assms(2) by (simp add: path_ok_def row_ok_def FS_MAX_PREFIX_LENGTH_def)
  from intl_ok [OF T(1), of "[]" S mx cur "replicate mx \<lparr>pf_score = 0, pf_prefix = []\<rparr>" 0] this obtain cur' pr' where
    i: "get_prefixes_intl t mx cur (replicate mx \<lparr>pf_score = 0, pf_prefix = []\<rparr>) 0 (tr_root t) 0 0 = Some (cur', pr')" "path_ok S mx [] cur' pr'"
    using T(2,3) by (auto simp: parent_ok_def FS_MAX_PREFIX_LENGTH_def)
  let ?pr = "qsort sort_prefixes (prune [0..<mx] (qsort sort_prefixes pr'))"
  have "\<forall>r \<in> set (prune [0..<mx] (qsort sort_prefixes pr')). row_ok S r" using i(2) by (intro prune_rows(1)) (simp add: path_ok_def)
  then have rows: "\<forall>r \<in> set ?pr. row_ok S r" by simp
  have len: "length ?pr = mx" using i(2) by (simp add: prune_rows(2) path_ok_def)
  have "sorted_wrt (\<lambda>a b. sort_prefixes a b \<le> 0) ?pr" by (rule prefix_order.qsorted_qsort)
  then have srt: "sorted_wrt (\<lambda>a b. pf_score a \<ge> pf_score b) ?pr" by (simp add: sort_prefixes_def)
  have "fs_prefix_trie_get_prefixes cur t mx = Some ?pr" using i(1) by (simp add: fs_prefix_trie_get_prefixes_def)
  then show ?thesis using rows len srt by blast
qed



end
