(* ===== verification/Rhash.thy ===== *)
theory Rhash
  imports PrefixOps Rid
begin

text \<open>
  The resource hash (\<open>src/src/backend/rhash.c\<close>): from identifiers to the attribute and lexical form of a
  resource.  The table is a mapped file of buckets; a lexical form is kept inside its entry when it is
  short, a number, a date or a short suffix of a known prefix, and in a second, append-only file
  otherwise, long ones compressed.  The entries are a total function that is blank past the end: the map
  ends at a page boundary, so the search, which does not stop at the last entry, reads zeros there.
  Multi-byte fields are in the little-endian order of the machine.  The zlib functions are arguments:
  \<open>zc n x\<close> is \<open>compress\<close> of \<open>x\<close> into a buffer of \<open>n\<close> bytes, \<open>zu n y\<close> is \<open>uncompress\<close>, \<open>None\<close> any error of
  theirs.  Reading and writing files does not fail otherwise.
\<close>

section \<open>Data\<close>

definition FS_RHASH_DEFAULT_LENGTH :: nat where "FS_RHASH_DEFAULT_LENGTH = 65536"
definition FS_RHASH_DEFAULT_SEARCH_DIST :: nat where "FS_RHASH_DEFAULT_SEARCH_DIST = 32"
definition FS_RHASH_DEFAULT_BUCKET_SIZE :: nat where "FS_RHASH_DEFAULT_BUCKET_SIZE = 16"
definition FS_MAX_PREFIXES :: nat where "FS_MAX_PREFIXES = 256"

text \<open>The disposition of a lexical form.\<close>

datatype disp = DISP_BLANK | DISP_I_UTF8 | DISP_I_NUMBER | DISP_I_DATE | DISP_I_PREFIX | DISP_F_UTF8 | DISP_F_PREFIX | DISP_F_ZCOMP

text \<open>The two views of the value of an entry; which one is in use follows from the disposition.\<close>

datatype entry_val = Str "u8 list" | Offset nat

text \<open>The attribute shares its eight bytes with a prefix code and the beginning of a suffix.\<close>

record rhash_entry =
  en_rid :: rid
  en_aval :: "u8 list"
  en_val :: entry_val
  en_disp :: disp

record fs_resource =
  re_rid :: rid
  re_attr :: rid
  re_lex :: cstr

record fs_rhash =
  rh_size :: nat
  rh_count :: nat
  rh_search_dist :: nat
  rh_bucket_size :: nat
  rh_entries :: "nat \<Rightarrow> rhash_entry"
  rh_lex :: "u8 list"
  rh_ptrie :: prefix_trie
  rh_prefixes :: prefix_trie
  rh_prefix_strings :: "cstr list"
  rh_prefix_file :: "(nat \<times> cstr) list"
  rh_z_buffer_size :: nat

text \<open>The prefix strings are the used part of the array; their number is \<open>prefix_count\<close>.\<close>

abbreviation rh_prefix_count :: "fs_rhash \<Rightarrow> nat" where
  "rh_prefix_count rh \<equiv> length (rh_prefix_strings rh)"

definition blank_entry :: rhash_entry where
  "blank_entry = \<lparr>en_rid = 0, en_aval = replicate 8 0, en_val = Str (replicate INLINE_STR_LEN 0), en_disp = DISP_BLANK\<rparr>"

definition FS_RHASH_ENTRY :: "fs_rhash \<Rightarrow> rid \<Rightarrow> nat" where
  "FS_RHASH_ENTRY rh rid = unat (drop_bit 10 rid AND word_of_nat (rh_size rh - 1)) * rh_bucket_size rh"

section \<open>Bytes\<close>

text \<open>A 32-bit and a 64-bit integer in memory order.\<close>

definition le32 :: "nat \<Rightarrow> u8 list" where
  "le32 n = [word_of_nat n, word_of_nat (n div 256), word_of_nat (n div 65536), word_of_nat (n div 16777216)]"

definition rd32 :: "u8 list \<Rightarrow> nat" where
  "rd32 bs = unat (bs ! 0) + 256 * unat (bs ! 1) + 65536 * unat (bs ! 2) + 16777216 * unat (bs ! 3)"

definition le64 :: "u64 \<Rightarrow> u8 list" where
  "le64 w = map (\<lambda>i. ucast (drop_bit (8 * i) w)) [0..<8]"

definition rd64 :: "u8 list \<Rightarrow> u64" where
  "rd64 bs = foldr (\<lambda>b acc. ucast b OR push_bit 8 acc) bs 0"

text \<open>\<open>strncpy\<close> into an array of \<open>n\<close> bytes.\<close>

definition strncpy :: "cstr \<Rightarrow> nat \<Rightarrow> u8 list" where
  "strncpy s n = take n s @ replicate (n - length s) 0"

text \<open>\<open>fread\<close> at a position: the bytes, or nothing when the file is too short.\<close>

definition read_at :: "u8 list \<Rightarrow> nat \<Rightarrow> nat \<Rightarrow> u8 list option" where
  "read_at f pos n = (if pos + n \<le> length f then Some (take n (drop pos f)) else None)"

section \<open>Packing a resource\<close>

text \<open>The prefixes found by the counting trie get codes; the result of \<open>fs_prefix_trie_add_code\<close> is ignored.\<close>

definition add_prefix :: "fs_rhash \<Rightarrow> cstr \<Rightarrow> prefix_trie \<Rightarrow> fs_rhash" where
  "add_prefix rh p t = rh\<lparr>rh_prefixes := t, rh_prefix_strings := rh_prefix_strings rh @ [p], rh_prefix_file := rh_prefix_file rh @ [(rh_prefix_count rh, p)]\<rparr>"

fun add_prefixes :: "fs_prefix list \<Rightarrow> fs_rhash \<Rightarrow> fs_rhash option" where
  "add_prefixes [] rh = Some rh"
| "add_prefixes (p # ps) rh =
     (if pf_score p = 0 \<or> rh_prefix_count rh = FS_MAX_PREFIXES then Some rh
      else do {
        (_, t) \<leftarrow> fs_prefix_trie_add_code (rh_prefixes rh) (pf_prefix p) (int (rh_prefix_count rh));
        add_prefixes ps (add_prefix rh (pf_prefix p) t)
      })"

definition learn_prefixes :: "u8 list \<Rightarrow> cstr \<Rightarrow> fs_rhash \<Rightarrow> fs_rhash option" where
  "learn_prefixes cur str rh = do {
     (r, t) \<leftarrow> fs_prefix_trie_add_string (rh_ptrie rh) str;
     if r = 0 then Some (rh\<lparr>rh_ptrie := t\<rparr>)
     else do {
       pre \<leftarrow> fs_prefix_trie_get_prefixes cur t 32;
       rh1 \<leftarrow> add_prefixes pre rh;
       t1 \<leftarrow> fs_prefix_trie_new;
       Some (rh1\<lparr>rh_ptrie := t1\<rparr>)
     }
   }"

text \<open>The compression buffer is doubled until it has \<open>1.01 n + 12\<close> bytes.\<close>

function grow_z :: "nat \<Rightarrow> nat \<Rightarrow> nat" where
  "grow_z sz n = (if 0 < sz \<and> 100 * sz < 101 * n + 1200 then grow_z (sz * 2) n else sz)"
  by pat_completeness auto
termination by (relation "measure (\<lambda>(sz, n). 101 * n + 1200 - 100 * sz)") auto

declare grow_z.simps [simp del]

text \<open>Writing to the external file.\<close>

definition pack_external :: "(nat \<Rightarrow> cstr \<Rightarrow> cstr option) \<Rightarrow> cstr \<Rightarrow> rhash_entry \<Rightarrow> fs_rhash \<Rightarrow> rhash_entry \<times> fs_rhash" where
  "pack_external zc str e rh =
     (let len = length str; zs = grow_z (rh_z_buffer_size rh) len;
          z = (if len > 100 then case zc zs str of Some y \<Rightarrow> if length y > 0 \<and> length y < len - 4 then Some y else None | None \<Rightarrow> None else None);
          rh1 = rh\<lparr>rh_z_buffer_size := zs\<rparr>; pos = length (rh_lex rh) in
      case z of
        Some y \<Rightarrow> (e\<lparr>en_disp := DISP_F_ZCOMP, en_val := Offset pos\<rparr>, rh1\<lparr>rh_lex := rh_lex rh @ le32 (length y) @ le32 len @ y @ [0]\<rparr>)
      | None \<Rightarrow> (e\<lparr>en_disp := DISP_F_UTF8, en_val := Offset pos\<rparr>, rh1\<lparr>rh_lex := rh_lex rh @ le32 len @ str @ [0]\<rparr>))"

text \<open>A URI with a known prefix.\<close>

definition pack_prefix :: "int \<Rightarrow> cstr \<Rightarrow> rhash_entry \<Rightarrow> fs_rhash \<Rightarrow> rhash_entry \<times> fs_rhash" where
  "pack_prefix code suffix e rh =
     (let e1 = e\<lparr>en_aval := (en_aval e)[0 := word_of_int code]\<rparr> in
      if length suffix > 22
      then (e1\<lparr>en_val := Offset (length (rh_lex rh)), en_disp := DISP_F_PREFIX\<rparr>, rh\<lparr>rh_lex := rh_lex rh @ le32 (length suffix) @ suffix @ [0]\<rparr>)
      else (e1\<lparr>en_aval := take 1 (en_aval e1) @ strncpy suffix 7,
               en_val := (if length suffix > 7 then Str (strncpy (drop 7 suffix) INLINE_STR_LEN) else en_val e1), en_disp := DISP_I_PREFIX\<rparr>, rh))"

definition pack_entry :: "(nat \<Rightarrow> cstr \<Rightarrow> cstr option) \<Rightarrow> u8 list \<Rightarrow> fs_resource \<Rightarrow> fs_rhash \<Rightarrow> (rhash_entry \<times> fs_rhash) option" where
  "pack_entry zc cur res rh =
     (let str = re_lex res; zeros = replicate INLINE_STR_LEN 0;
          e = \<lparr>en_rid = re_rid res, en_aval = le64 (re_attr res), en_val = Str zeros, en_disp = DISP_BLANK\<rparr> in
      if length str \<le> INLINE_STR_LEN then Some (e\<lparr>en_val := Str (strncpy str INLINE_STR_LEN), en_disp := DISP_I_UTF8\<rparr>, rh)
      else do {
        (n, _) \<leftarrow> compress_bcd str None;
        if n = 0 then do {
          (_, b) \<leftarrow> compress_bcd str (Some zeros);
          b \<leftarrow> b;
          Some (e\<lparr>en_val := Str b, en_disp := DISP_I_NUMBER\<rparr>, rh)
        } else do {
          (d, _) \<leftarrow> compress_bcdate str None;
          if d = 0 then do {
            (_, b) \<leftarrow> compress_bcdate str (Some zeros);
            b \<leftarrow> b;
            Some (e\<lparr>en_val := Str b, en_disp := DISP_I_DATE\<rparr>, rh)
          } else do {
            (code, len) \<leftarrow> (if FS_IS_URI (re_rid res) then fs_prefix_trie_get_code (rh_prefixes rh) str else Some (0, None));
            if code \<noteq> 0 then Some (pack_prefix code (drop (case len of Some n \<Rightarrow> n | None \<Rightarrow> 0) str) e rh)
            else do {
              rh1 \<leftarrow> (if FS_IS_URI (re_rid res) then learn_prefixes cur str rh else Some rh);
              Some (pack_external zc str e rh1)
            }
          }
        }
      })"

section \<open>The table\<close>

text \<open>The search for a place: the resource is there already, or the first free entry if there is one.\<close>

datatype place = Stored | Free "nat option"

fun put_scan :: "fs_rhash \<Rightarrow> rid \<Rightarrow> nat list \<Rightarrow> nat option \<Rightarrow> place" where
  "put_scan rh rid [] new = Free new"
| "put_scan rh rid (i # is) new =
     (if \<not> i < rh_size rh * rh_bucket_size rh then Free new
      else if en_rid (rh_entries rh i) = rid then Stored
      else if en_rid (rh_entries rh i) = 0 \<and> new = None then put_scan rh rid is (Some i)
      else put_scan rh rid is new)"

text \<open>One bucket of the old half: the entries that belong to the upper half move there.\<close>

fun split_bucket :: "fs_rhash \<Rightarrow> nat \<Rightarrow> nat \<Rightarrow> nat list \<Rightarrow> (nat \<Rightarrow> rhash_entry) \<times> (nat \<Rightarrow> rhash_entry) \<Rightarrow> (nat \<Rightarrow> rhash_entry) \<times> (nat \<Rightarrow> rhash_entry)" where
  "split_bucket rh old i [] = (\<lambda>(E, hi). (E, hi))"
| "split_bucket rh old i (j # js) = (\<lambda>(E, hi).
     if en_rid (E (i + j)) = 0 then split_bucket rh old i js (E, hi)
     else if FS_RHASH_ENTRY rh (en_rid (E (i + j))) \<ge> old then split_bucket rh old i js (E(i + j := blank_entry), hi(j := E (i + j)))
     else split_bucket rh old i js (E, hi))"

definition double_bucket :: "fs_rhash \<Rightarrow> nat \<Rightarrow> nat \<Rightarrow> (nat \<Rightarrow> rhash_entry) \<Rightarrow> nat \<Rightarrow> rhash_entry" where
  "double_bucket rh old b E =
     (let i = b * rh_bucket_size rh; (E1, hi) = split_bucket rh old i [0..<rh_bucket_size rh] (E, \<lambda>_. blank_entry)
      in (\<lambda>n. if i + old \<le> n \<and> n < i + old + rh_bucket_size rh then hi (n - (i + old)) else E1 n))"

text \<open>The size is a 32-bit counter.\<close>

definition double_size :: "fs_rhash \<Rightarrow> fs_rhash" where
  "double_size rh =
     (let rh1 = rh\<lparr>rh_size := u32 (rh_size rh * 2)\<rparr>; old = rh_size rh * rh_bucket_size rh
      in rh1\<lparr>rh_entries := fold (double_bucket rh1 old) [0..<rh_size rh] (rh_entries rh)\<rparr>)"

partial_function (option) fs_rhash_put :: "(nat \<Rightarrow> cstr \<Rightarrow> cstr option) \<Rightarrow> u8 list \<Rightarrow> fs_rhash \<Rightarrow> fs_resource \<Rightarrow> (nat \<times> fs_rhash) option" where
  "fs_rhash_put zc cur rh res =
     (let entry = FS_RHASH_ENTRY rh (re_rid res) in
      if entry \<ge> rh_size rh * rh_bucket_size rh then Some (1, rh)
      else case put_scan rh (re_rid res) [entry..<entry + rh_search_dist rh] None of
        Stored \<Rightarrow> Some (0, rh)
      | Free None \<Rightarrow> fs_rhash_put zc cur (double_size rh) res
      | Free (Some new) \<Rightarrow> do {
          (e, rh1) \<leftarrow> pack_entry zc cur res rh;
          Some (0, rh1\<lparr>rh_entries := (rh_entries rh1)(new := e), rh_count := rh_count rh1 + 1\<rparr>)
        })"

section \<open>Reading\<close>

text \<open>A lexical form, or the message that is returned in its place.\<close>

datatype lex_out = Lex cstr | Bad_prefix | Unknown_disp | Not_found | Read_error | Bnode rid

definition get_prefix_string :: "fs_rhash \<Rightarrow> rhash_entry \<Rightarrow> cstr option" where
  "get_prefix_string rh e =
     (let code = unat (hd (en_aval e)) in if code \<ge> rh_prefix_count rh then None else Some (rh_prefix_strings rh ! code))"

definition get_external :: "fs_rhash \<Rightarrow> entry_val \<Rightarrow> cstr option" where
  "get_external rh v =
     (case v of
        Offset pos \<Rightarrow> do { n \<leftarrow> read_at (rh_lex rh) pos 4; read_at (rh_lex rh) (pos + 4) (rd32 n) }
      | Str _ \<Rightarrow> None)"

definition get_compressed :: "(nat \<Rightarrow> cstr \<Rightarrow> cstr option) \<Rightarrow> fs_rhash \<Rightarrow> entry_val \<Rightarrow> cstr option" where
  "get_compressed zu rh v =
     (case v of
        Offset pos \<Rightarrow> do {
          n \<leftarrow> read_at (rh_lex rh) pos 4;
          m \<leftarrow> read_at (rh_lex rh) (pos + 4) 4;
          y \<leftarrow> read_at (rh_lex rh) (pos + 8) (rd32 n);
          zu (rd32 m) y
        }
      | Str _ \<Rightarrow> None)"

abbreviation inline_bytes :: "entry_val \<Rightarrow> u8 list" where
  "inline_bytes v \<equiv> (case v of Str b \<Rightarrow> b | Offset _ \<Rightarrow> [])"

text \<open>The return value, the attribute and the lexical form of an entry.\<close>

definition get_entry :: "(nat \<Rightarrow> cstr \<Rightarrow> cstr option) \<Rightarrow> fs_rhash \<Rightarrow> rhash_entry \<Rightarrow> nat \<times> rid \<times> lex_out" where
  "get_entry zu rh e =
     (let attr = rd64 (en_aval e); b = inline_bytes (en_val e);
          ok = (\<lambda>s. case s of Some s \<Rightarrow> (0, attr, Lex s) | None \<Rightarrow> (1, attr, Read_error)) in
      case en_disp e of
        DISP_I_UTF8 \<Rightarrow> (0, attr, Lex (c_string b))
      | DISP_I_NUMBER \<Rightarrow> ok (uncompress_bcd b)
      | DISP_I_DATE \<Rightarrow> ok (uncompress_bcdate b)
      | DISP_I_PREFIX \<Rightarrow>
          (case get_prefix_string rh e of
             None \<Rightarrow> (0, attr, Bad_prefix)
           | Some p \<Rightarrow> (0, FS_RID_NULL, Lex (p @ c_string (take 7 (drop 1 (en_aval e))) @ c_string b)))
      | DISP_F_UTF8 \<Rightarrow> ok (map_option c_string (get_external rh (en_val e)))
      | DISP_F_PREFIX \<Rightarrow>
          (case get_prefix_string rh e of
             None \<Rightarrow> (1, attr, Read_error)
           | Some p \<Rightarrow> ok (map_option (\<lambda>s. p @ c_string s) (get_external rh (en_val e))))
      | DISP_F_ZCOMP \<Rightarrow> ok (map_option c_string (get_compressed zu rh (en_val e)))
      | DISP_BLANK \<Rightarrow> (1, attr, Unknown_disp))"

fun get_scan_entries :: "fs_rhash \<Rightarrow> rid \<Rightarrow> nat list \<Rightarrow> rhash_entry option" where
  "get_scan_entries rh rid [] = None"
| "get_scan_entries rh rid (i # is) = (if en_rid (rh_entries rh i) = rid then Some (rh_entries rh i) else get_scan_entries rh rid is)"

definition fs_rhash_get :: "(nat \<Rightarrow> cstr \<Rightarrow> cstr option) \<Rightarrow> fs_rhash \<Rightarrow> rid \<Rightarrow> nat \<times> rid \<times> lex_out" where
  "fs_rhash_get zu rh rid =
     (let entry = FS_RHASH_ENTRY rh rid in
      case get_scan_entries rh rid [entry..<entry + rh_search_dist rh] of
        Some e \<Rightarrow> get_entry zu rh e
      | None \<Rightarrow> (1, 0, Not_found))"

section \<open>Several resources\<close>

definition sort_by_hash :: "fs_rhash \<Rightarrow> rid \<Rightarrow> rid \<Rightarrow> int" where
  "sort_by_hash rh a b =
     (let ea = int (FS_RHASH_ENTRY rh a); eb = int (FS_RHASH_ENTRY rh b) in
      if ea \<noteq> eb then ea - eb else if a < b then - 1 else if a > b then 1 else 0)"

fun put_all :: "(nat \<Rightarrow> cstr \<Rightarrow> cstr option) \<Rightarrow> u8 list \<Rightarrow> fs_resource list \<Rightarrow> rid \<Rightarrow> fs_rhash \<Rightarrow> (nat \<times> fs_rhash) option" where
  "put_all zc cur [] last_rid rh = Some (0, rh)"
| "put_all zc cur (r # rs) last_rid rh =
     (if re_rid r = FS_RID_NULL then put_all zc cur rs last_rid rh
      else if re_rid r = last_rid then put_all zc cur rs last_rid rh
      else do {
        (n, rh1) \<leftarrow> fs_rhash_put zc cur rh r;
        (m, rh2) \<leftarrow> put_all zc cur rs (re_rid r) rh1;
        Some (n + m, rh2)
      })"

definition fs_rhash_put_multi :: "(nat \<Rightarrow> cstr \<Rightarrow> cstr option) \<Rightarrow> u8 list \<Rightarrow> fs_rhash \<Rightarrow> fs_resource list \<Rightarrow> (nat \<times> fs_rhash) option" where
  "fs_rhash_put_multi zc cur rh res = put_all zc cur (qsort (\<lambda>a b. sort_by_hash rh (re_rid a) (re_rid b)) res) FS_RID_NULL rh"

definition get_one :: "(nat \<Rightarrow> cstr \<Rightarrow> cstr option) \<Rightarrow> fs_rhash \<Rightarrow> rid \<Rightarrow> nat \<times> rid \<times> lex_out" where
  "get_one zu rh rid = (if FS_IS_BNODE rid then (0, FS_RID_NULL, Bnode rid) else fs_rhash_get zu rh rid)"

text \<open>The results come in the order of the table.\<close>

definition fs_rhash_get_multi :: "(nat \<Rightarrow> cstr \<Rightarrow> cstr option) \<Rightarrow> fs_rhash \<Rightarrow> rid list \<Rightarrow> nat \<times> (rid \<times> rid \<times> lex_out) list" where
  "fs_rhash_get_multi zu rh rids =
     (let rs = qsort (sort_by_hash rh) rids
      in (sum_list (map (\<lambda>r. fst (get_one zu rh r)) rs), map (\<lambda>r. (r, snd (get_one zu rh r))) rs))"

definition fs_rhash_count :: "fs_rhash \<Rightarrow> nat" where
  "fs_rhash_count rh = rh_count rh"

section \<open>Opening and closing\<close>

text \<open>What is on disk: the header of the table if it has one, the table, the lexical file and the list of prefixes.\<close>

record rhash_header =
  hd_size :: nat
  hd_count :: nat
  hd_search_dist :: nat
  hd_bucket_size :: nat

record rhash_files =
  rf_header :: "rhash_header option"
  rf_entries :: "nat \<Rightarrow> rhash_entry"
  rf_lex :: "u8 list"
  rf_prefixes :: "(nat \<times> cstr) list"

definition fs_rhash_write_header :: "fs_rhash \<Rightarrow> rhash_header" where
  "fs_rhash_write_header rh =
     \<lparr>hd_size = rh_size rh, hd_count = rh_count rh, hd_search_dist = rh_search_dist rh, hd_bucket_size = rh_bucket_size rh\<rparr>"

definition fs_rhash_close :: "fs_rhash \<Rightarrow> rhash_files" where
  "fs_rhash_close rh =
     \<lparr>rf_header = Some (fs_rhash_write_header rh), rf_entries = rh_entries rh, rf_lex = rh_lex rh, rf_prefixes = rh_prefix_file rh\<rparr>"

text \<open>The loop that reads the prefix file; the codes are the positions in the array.\<close>

fun load_prefixes :: "(nat \<times> cstr) list \<Rightarrow> prefix_trie \<Rightarrow> cstr list \<Rightarrow> (prefix_trie \<times> cstr list) option" where
  "load_prefixes [] t strs = Some (t, strs)"
| "load_prefixes ((code, pre) # ls) t strs = do {
     (_, t1) \<leftarrow> fs_prefix_trie_add_code t pre (int code);
     if code = length strs then load_prefixes ls t1 (strs @ [pre]) else None
   }"

text \<open>Truncation empties the table and the list of prefixes; the lexical file is opened for appending and stays.\<close>

definition fs_rhash_open_filename :: "bool \<Rightarrow> rhash_files \<Rightarrow> fs_rhash option" where
  "fs_rhash_open_filename trunc f = do {
     t0 \<leftarrow> fs_prefix_trie_new;
     let f = (if trunc then f\<lparr>rf_header := None, rf_entries := \<lambda>_. blank_entry, rf_prefixes := []\<rparr> else f);
     (t1, strs) \<leftarrow> load_prefixes (rf_prefixes f) t0 [];
     let rh = \<lparr>rh_size = FS_RHASH_DEFAULT_LENGTH, rh_count = 0, rh_search_dist = FS_RHASH_DEFAULT_SEARCH_DIST,
               rh_bucket_size = FS_RHASH_DEFAULT_BUCKET_SIZE, rh_entries = rf_entries f, rh_lex = rf_lex f,
               rh_ptrie = t0, rh_prefixes = t1, rh_prefix_strings = strs, rh_prefix_file = rf_prefixes f, rh_z_buffer_size = 1024\<rparr>;
     Some (case rf_header f of
        None \<Rightarrow> rh
      | Some h \<Rightarrow> rh\<lparr>rh_size := hd_size h, rh_count := hd_count h, rh_search_dist := hd_search_dist h,
                     rh_bucket_size := (if hd_bucket_size h = 0 then 1 else hd_bucket_size h)\<rparr>)
   }"

section \<open>Encoding\<close>

lemma rd32_le32: "n < 4294967296 \<Longrightarrow> rd32 (le32 n) = n"
proof -
  assume n: "n < 4294967296"
  have d: "n div 65536 = n div 256 div 256" "n div 16777216 = n div 256 div 256 div 256" by (simp_all add: div_mult2_eq [symmetric])
  have "n = n mod 256 + 256 * (n div 256 mod 256) + 65536 * (n div 65536 mod 256) + 16777216 * (n div 16777216)"
    unfolding d using mult_div_mod_eq [of 256 n] mult_div_mod_eq [of 256 "n div 256"] mult_div_mod_eq [of 256 "n div 256 div 256"] by linarith
  moreover have "n div 16777216 < 256" using n by simp
  ultimately show ?thesis by (simp add: rd32_def le32_def unat_of_nat)
qed

lemma length_le32 [simp]: "length (le32 n) = 4"
  by (simp add: le32_def)

lemma length_le64 [simp]: "length (le64 w) = 8"
  by (simp add: le64_def)

lemma rd64_le64: "rd64 (le64 w) = w"
proof -
  have "foldr (\<lambda>b acc. ucast b OR push_bit 8 acc) (map (\<lambda>i. ucast (drop_bit (8 * i) w) :: u8) [0..<k]) 0 = take_bit (8 * k) w" for k and w :: u64
  proof (induction k arbitrary: w)
    case (Suc k)
    have m: "map (\<lambda>i. ucast (drop_bit (8 * i) w) :: u8) [0..<Suc k] = ucast w # map (\<lambda>i. ucast (drop_bit (8 * i) (drop_bit 8 w)) :: u8) [0..<k]"
      unfolding upt_conv_Cons [OF zero_less_Suc] map_Suc_upt [symmetric] by (simp add: comp_def algebra_simps)
    have "ucast (ucast w :: u8) OR push_bit 8 (take_bit (8 * k) (drop_bit 8 w)) = take_bit (8 * Suc k) w"
      by (rule bit_eqI) (auto simp: bit_simps)
    then show ?case by (simp only: m foldr_Cons comp_apply Suc)
  qed simp
  moreover have "take_bit 64 w = w" by (rule bit_eqI) (auto simp: bit_simps)
  ultimately show ?thesis by (simp add: rd64_def le64_def)
qed

lemma c_string_pad: "0 \<notin> set s \<Longrightarrow> c_string (s @ replicate n 0) = s"
  by (induction s) (auto simp: c_string_def takeWhile_replicate)

lemma c_string_id: "0 \<notin> set s \<Longrightarrow> c_string s = s"
  using c_string_pad [of s 0] by simp

lemma c_string_strncpy: "0 \<notin> set s \<Longrightarrow> c_string (strncpy s n) = take n s"
  using c_string_pad [of "take n s" "n - length s"] by (auto simp: strncpy_def dest: in_set_takeD)

lemma read_append: "read_at f pos n = Some b \<Longrightarrow> read_at (f @ g) pos n = Some b"
  by (auto simp: read_at_def split: if_splits)

lemma read_here: "length x = n \<Longrightarrow> read_at (f @ x @ g) (length f) n = Some x"
  by (simp add: read_at_def)

end
