(* ===== verification/RhashOps.thy ===== *)
theory RhashOps
  imports Rhash
begin

text \<open>
  The resource hash gives back what was put into it: every way of packing a lexical form is undone by
  reading, appending to the files does not change what is read from them, and doubling the table keeps
  every entry at its distance from the bucket it belongs to.
\<close>

section \<open>Growing files\<close>

definition extends :: "fs_rhash \<Rightarrow> fs_rhash \<Rightarrow> bool" where
  "extends rh rh' \<longleftrightarrow> (\<exists>g. rh_lex rh' = rh_lex rh @ g) \<and> (\<exists>ps. rh_prefix_strings rh' = rh_prefix_strings rh @ ps)"

lemma extends_refl [simp]: "extends rh rh"
  by (simp add: extends_def)

lemma extends_trans: "extends a b \<Longrightarrow> extends b c \<Longrightarrow> extends a c"
  by (auto simp: extends_def)

lemma prefix_string_stable: "get_prefix_string rh e = Some p \<Longrightarrow> extends rh rh' \<Longrightarrow> get_prefix_string rh' e = Some p"
  by (auto simp: get_prefix_string_def extends_def Let_def nth_append split: if_splits)

lemma external_stable: "get_external rh v = Some s \<Longrightarrow> extends rh rh' \<Longrightarrow> get_external rh' v = Some s"
  by (auto simp: get_external_def extends_def read_append split: entry_val.splits Option.bind_split_asm)

lemma compressed_stable: "get_compressed zu rh v = Some s \<Longrightarrow> extends rh rh' \<Longrightarrow> get_compressed zu rh' v = Some s"
  by (auto simp: get_compressed_def extends_def read_append split: entry_val.splits Option.bind_split_asm)

lemma get_entry_stable:
  assumes "get_entry zu rh e = (0, a, Lex s)" "extends rh rh'"
  shows "get_entry zu rh' e = (0, a, Lex s)"
  using assms prefix_string_stable [OF _ assms(2), of e] external_stable [OF _ assms(2), of "en_val e"] compressed_stable [OF _ assms(2), of zu "en_val e"]
  by (cases "en_disp e") (auto simp: get_entry_def Let_def split: option.splits option.split_asm)

section \<open>Packing\<close>

lemma length_strncpy: "length (strncpy s n) = n"
  by (simp add: strncpy_def min_def)

text \<open>What zlib promises.\<close>

definition zlib_ok :: "(nat \<Rightarrow> cstr \<Rightarrow> cstr option) \<Rightarrow> (nat \<Rightarrow> cstr \<Rightarrow> cstr option) \<Rightarrow> bool" where
  "zlib_ok zc zu \<longleftrightarrow> (\<forall>n x y. zc n x = Some y \<longrightarrow> zu (length x) y = Some x)"

text \<open>The table of the prefixes that have a code, and the state of the two tries.\<close>

definition ptab :: "fs_rhash \<Rightarrow> int \<rightharpoonup> cstr" where
  "ptab rh k = (if 0 \<le> k \<and> k < int (rh_prefix_count rh) then Some (rh_prefix_strings rh ! nat k) else None)"

definition tries_ok :: "fs_rhash \<Rightarrow> bool" where
  "tries_ok rh \<longleftrightarrow> codes_ok (rh_prefixes rh) (ptab rh) \<and> (\<exists>S. trie_ok (rh_ptrie rh) S) \<and> rh_prefix_count rh \<le> FS_MAX_PREFIXES"

lemma tries_ok_cong:
  assumes "rh_prefixes rh' = rh_prefixes rh" "rh_ptrie rh' = rh_ptrie rh" "rh_prefix_strings rh' = rh_prefix_strings rh"
  shows "tries_ok rh' = tries_ok rh"
proof -
  have "ptab rh' = ptab rh" using assms(3) by (simp add: ptab_def fun_eq_iff)
  then show ?thesis using assms by (simp add: tries_ok_def)
qed

text \<open>The table itself is the same.\<close>

definition same_table :: "fs_rhash \<Rightarrow> fs_rhash \<Rightarrow> bool" where
  "same_table rh rh' \<longleftrightarrow> rh_size rh' = rh_size rh \<and> rh_count rh' = rh_count rh \<and> rh_search_dist rh' = rh_search_dist rh
     \<and> rh_bucket_size rh' = rh_bucket_size rh \<and> rh_entries rh' = rh_entries rh"

lemma same_table_refl [simp]: "same_table rh rh"
  by (simp add: same_table_def)

lemma pack_external_ok:
  assumes "pack_external zc str e rh = (e', rh')" "zlib_ok zc zu" "0 \<notin> set str" "length str < 4294967296"
  shows "en_rid e' = en_rid e" "extends rh rh'" "same_table rh rh'" "tries_ok rh' = tries_ok rh" "get_entry zu rh' e' = (0, rd64 (en_aval e), Lex str)" "en_disp e' \<noteq> DISP_F_PREFIX"
proof -
  define zs where "zs = grow_z (rh_z_buffer_size rh) (length str)"
  define z where "z = (if length str > 100 then case zc zs str of Some y \<Rightarrow> if length y > 0 \<and> length y < length str - 4 then Some y else None | None \<Rightarrow> None else None)"
  have p: "(e', rh') = (case z of
        Some y \<Rightarrow> (e\<lparr>en_disp := DISP_F_ZCOMP, en_val := Offset (length (rh_lex rh))\<rparr>, rh\<lparr>rh_z_buffer_size := zs, rh_lex := rh_lex rh @ le32 (length y) @ le32 (length str) @ y @ [0]\<rparr>)
      | None \<Rightarrow> (e\<lparr>en_disp := DISP_F_UTF8, en_val := Offset (length (rh_lex rh))\<rparr>, rh\<lparr>rh_z_buffer_size := zs, rh_lex := rh_lex rh @ le32 (length str) @ str @ [0]\<rparr>))"
    using assms(1) by (simp only: pack_external_def Let_def zs_def z_def)
  show "en_rid e' = en_rid e" "extends rh rh'" "same_table rh rh'" "en_disp e' \<noteq> DISP_F_PREFIX"
    using p by (auto simp: extends_def same_table_def split: option.splits)
  show "tries_ok rh' = tries_ok rh" by (rule tries_ok_cong) (use p in \<open>auto split: option.splits\<close>)
  show "get_entry zu rh' e' = (0, rd64 (en_aval e), Lex str)"
  proof (cases z)
    case None
    have "read_at (rh_lex rh @ le32 (length str) @ str @ [0]) (length (rh_lex rh)) 4 = Some (le32 (length str))" by (rule read_here) simp
    moreover have "read_at (rh_lex rh @ le32 (length str) @ str @ [0]) (length (rh_lex rh) + 4) (length str) = Some str"
      using read_here [of str "length str" "rh_lex rh @ le32 (length str)" "[0]"] by simp
    ultimately show ?thesis using p None assms(3,4) by (simp add: get_entry_def get_external_def rd32_le32 c_string_id Let_def)
  next
    case (Some y)
    then have y: "zu (length str) y = Some str" "length y < 4294967296" using assms(2,4) by (auto simp: z_def zlib_ok_def split: if_splits option.splits)
    let ?f = "rh_lex rh @ le32 (length y) @ le32 (length str) @ y @ [0]"
    have "read_at ?f (length (rh_lex rh)) 4 = Some (le32 (length y))" by (rule read_here) simp
    moreover have "read_at ?f (length (rh_lex rh) + 4) 4 = Some (le32 (length str))"
      using read_here [of "le32 (length str)" 4 "rh_lex rh @ le32 (length y)" "y @ [0]"] by simp
    moreover have "read_at ?f (length (rh_lex rh) + 8) (length y) = Some y"
      using read_here [of y "length y" "rh_lex rh @ le32 (length y) @ le32 (length str)" "[0]"] by simp
    ultimately show ?thesis using p Some assms(3,4) y by (simp add: get_entry_def get_compressed_def rd32_le32 c_string_id Let_def)
  qed
qed

lemma pack_prefix_ok:
  assumes "pack_prefix code suffix e rh = (e', rh')" "0 < code" "code < int (rh_prefix_count rh)" "rh_prefix_count rh \<le> FS_MAX_PREFIXES"
    "length (en_aval e) = 8" "en_val e = Str (replicate INLINE_STR_LEN 0)" "0 \<notin> set suffix" "length suffix < 4294967296"
  shows "en_rid e' = en_rid e" "extends rh rh'" "same_table rh rh'" "tries_ok rh' = tries_ok rh"
    "\<exists>a. get_entry zu rh' e' = (0, a, Lex (rh_prefix_strings rh ! nat code @ suffix)) \<and> (en_disp e' \<noteq> DISP_F_PREFIX \<longrightarrow> a = FS_RID_NULL)"
proof -
  note p = assms(1) [unfolded pack_prefix_def Let_def]
  show "en_rid e' = en_rid e" "extends rh rh'" "same_table rh rh'" using p by (auto simp: extends_def same_table_def split: if_splits)
  show "tries_ok rh' = tries_ok rh" by (rule tries_ok_cong) (use p in \<open>auto split: if_splits\<close>)
  obtain x xs where av: "en_aval e = x # xs" using assms(5) by (cases "en_aval e") auto
  have "unat (word_of_int code :: u8) = nat code" using assms(2,3,4) by (simp add: unsigned_of_int FS_MAX_PREFIXES_def take_bit_int_eq_self)
  then have c: "unat (word_of_int code :: u8) < rh_prefix_count rh" "rh_prefix_strings rh ! unat (word_of_int code :: u8) = rh_prefix_strings rh ! nat code" using assms(2,3) by simp_all
  show "\<exists>a. get_entry zu rh' e' = (0, a, Lex (rh_prefix_strings rh ! nat code @ suffix)) \<and> (en_disp e' \<noteq> DISP_F_PREFIX \<longrightarrow> a = FS_RID_NULL)"
  proof (cases "length suffix > 22")
    case True
    let ?f = "rh_lex rh @ le32 (length suffix) @ suffix @ [0]"
    have "read_at ?f (length (rh_lex rh)) 4 = Some (le32 (length suffix))" by (rule read_here) simp
    moreover have "read_at ?f (length (rh_lex rh) + 4) (length suffix) = Some suffix"
      using read_here [of suffix "length suffix" "rh_lex rh @ le32 (length suffix)" "[0]"] by simp
    moreover have "e' = e\<lparr>en_aval := word_of_int code # xs, en_val := Offset (length (rh_lex rh)), en_disp := DISP_F_PREFIX\<rparr>" "rh' = rh\<lparr>rh_lex := ?f\<rparr>"
      using p True av by auto
    ultimately show ?thesis using assms(7,8) c by (simp add: get_entry_def get_external_def get_prefix_string_def rd32_le32 c_string_id Let_def)
  next
    case False
    have s: "c_string (take 7 (strncpy suffix 7)) = take 7 suffix"
      using c_string_strncpy [OF assms(7), of 7] length_strncpy [of suffix 7] by simp
    have "c_string (strncpy (drop 7 suffix) INLINE_STR_LEN) = drop 7 suffix"
      using c_string_strncpy [of "drop 7 suffix" INLINE_STR_LEN] assms(7) False by (auto simp: INLINE_STR_LEN_def dest: in_set_dropD)
    moreover have "c_string (replicate INLINE_STR_LEN 0) = []" using c_string_pad [of "[]" INLINE_STR_LEN] by simp
    ultimately have b: "c_string (inline_bytes (if length suffix > 7 then Str (strncpy (drop 7 suffix) INLINE_STR_LEN) else en_val e)) = drop 7 suffix"
      using assms(6) by simp
    have "e' = e\<lparr>en_aval := word_of_int code # strncpy suffix 7,
      en_val := (if length suffix > 7 then Str (strncpy (drop 7 suffix) INLINE_STR_LEN) else en_val e), en_disp := DISP_I_PREFIX\<rparr>" "rh' = rh"
      using p False av by auto
    then show ?thesis using c s b by (simp add: get_entry_def get_prefix_string_def Let_def)
  qed
qed

text \<open>The trie of codes has room for the prefixes that a URI makes the table learn, if any.\<close>

fun room_for :: "fs_prefix list \<Rightarrow> fs_rhash \<Rightarrow> bool" where
  "room_for [] rh = True"
| "room_for (p # ps) rh \<longleftrightarrow> pf_score p = 0 \<or> rh_prefix_count rh = FS_MAX_PREFIXES
     \<or> (case fs_prefix_trie_add_code (rh_prefixes rh) (pf_prefix p) (int (rh_prefix_count rh)) of
          Some (r, t) \<Rightarrow> r = 0 \<and> room_for ps (add_prefix rh (pf_prefix p) t) | None \<Rightarrow> True)"

definition prefix_room :: "u8 list \<Rightarrow> fs_rhash \<Rightarrow> cstr \<Rightarrow> bool" where
  "prefix_room cur rh str \<longleftrightarrow>
     (case fs_prefix_trie_add_string (rh_ptrie rh) str of
        Some (r, t) \<Rightarrow> r \<noteq> 0 \<longrightarrow> (case fs_prefix_trie_get_prefixes cur t 32 of Some pre \<Rightarrow> room_for pre rh | None \<Rightarrow> True)
      | None \<Rightarrow> True)"

text \<open>Both tries after a change of the prefixes only.\<close>

definition learnt :: "fs_rhash \<Rightarrow> fs_rhash \<Rightarrow> bool" where
  "learnt rh rh' \<longleftrightarrow> extends rh rh' \<and> same_table rh rh' \<and> rh_lex rh' = rh_lex rh \<and> rh_prefix_count rh' \<le> FS_MAX_PREFIXES \<and> codes_ok (rh_prefixes rh') (ptab rh')"

lemma add_prefixes_ok:
  assumes "\<forall>p \<in> set ps. 0 \<notin> set (pf_prefix p)" "room_for ps rh" "codes_ok (rh_prefixes rh) (ptab rh)" "rh_prefix_count rh \<le> FS_MAX_PREFIXES"
  shows "\<exists>rh'. add_prefixes ps rh = Some rh' \<and> learnt rh rh'"
  using assms
proof (induction ps arbitrary: rh)
  case Nil
  then show ?case by (simp add: learnt_def)
next
  case (Cons p ps)
  show ?case
  proof (cases "pf_score p = 0 \<or> rh_prefix_count rh = FS_MAX_PREFIXES")
    case True
    then show ?thesis using Cons.prems by (simp add: learnt_def)
  next
    case False
    let ?tab = "(ptab rh)(int (rh_prefix_count rh) \<mapsto> pf_prefix p)"
    have m: "ptab rh \<subseteq>\<^sub>m ?tab" by (auto simp: map_le_def ptab_def)
    have "0 \<notin> set (pf_prefix p)" using Cons.prems(1) by simp
    from codes_ok_add [OF Cons.prems(3) this m, of "int (rh_prefix_count rh)"] obtain r t where
      a: "fs_prefix_trie_add_code (rh_prefixes rh) (pf_prefix p) (int (rh_prefix_count rh)) = Some (r, t)" "r = 0 \<and> codes_ok t ?tab \<or> r = 1" by auto
    have r: "r = 0" "room_for ps (add_prefix rh (pf_prefix p) t)" using Cons.prems(2) False a(1) by auto
    have tab: "ptab (add_prefix rh (pf_prefix p) t) = ?tab" by (auto simp: ptab_def add_prefix_def fun_eq_iff nth_append)
    have f: "rh_prefixes (add_prefix rh (pf_prefix p) t) = t" "rh_prefix_count (add_prefix rh (pf_prefix p) t) \<le> FS_MAX_PREFIXES"
      "extends rh (add_prefix rh (pf_prefix p) t)" "same_table rh (add_prefix rh (pf_prefix p) t)" "rh_lex (add_prefix rh (pf_prefix p) t) = rh_lex rh"
      using False Cons.prems(4) by (auto simp: add_prefix_def extends_def same_table_def)
    have "codes_ok (rh_prefixes (add_prefix rh (pf_prefix p) t)) (ptab (add_prefix rh (pf_prefix p) t))" unfolding tab f(1) using a(2) r(1) by simp
    from Cons.IH [OF _ r(2) this f(2)] Cons.prems(1) obtain rh' where "add_prefixes ps (add_prefix rh (pf_prefix p) t) = Some rh'" "learnt (add_prefix rh (pf_prefix p) t) rh'" by auto
    then show ?thesis using False a(1) f extends_trans [OF f(3)] by (auto simp: learnt_def same_table_def)
  qed
qed

lemma learn_prefixes_ok:
  assumes "tries_ok rh" "0 \<notin> set str" "prefix_room cur rh str" "length cur = FS_MAX_PREFIX_LENGTH + 1"
  shows "\<exists>rh'. learn_prefixes cur str rh = Some rh' \<and> extends rh rh' \<and> same_table rh rh' \<and> rh_lex rh' = rh_lex rh \<and> tries_ok rh'"
proof -
  obtain S where S: "trie_ok (rh_ptrie rh) S" "codes_ok (rh_prefixes rh) (ptab rh)" "rh_prefix_count rh \<le> FS_MAX_PREFIXES" using assms(1) by (auto simp: tries_ok_def)
  from trie_ok_add [OF S(1) assms(2)] obtain r t where a: "fs_prefix_trie_add_string (rh_ptrie rh) str = Some (r, t)"
    "r = 0 \<and> trie_ok t (str # S) \<or> r = 1 \<and> (\<exists>t1. trie_ok t1 (str # S) \<and> same_edges t1 t)" by blast
  have pt: "ptab (rh'\<lparr>rh_ptrie := t\<rparr>) = ptab rh'" for rh' t by (simp add: ptab_def fun_eq_iff)
  show ?thesis
  proof (cases "r = 0")
    case True
    then show ?thesis using a S by (auto simp: learn_prefixes_def extends_def same_table_def tries_ok_def pt)
  next
    case False
    then obtain t1 where t1: "trie_ok t1 (str # S)" "same_edges t1 t" using a(2) by auto
    from get_prefixes_ok [OF t1(1) assms(4), of 32] get_prefixes_same [OF t1(2), of cur 32] obtain pre where
      pre: "fs_prefix_trie_get_prefixes cur t 32 = Some pre" "\<forall>p \<in> set pre. 0 \<notin> set (pf_prefix p)" unfolding row_ok_def by auto
    have "room_for pre rh" using assms(3) a(1) False pre(1) by (simp add: prefix_room_def)
    from add_prefixes_ok [OF pre(2) this S(2,3)] obtain rh1 where rh1: "add_prefixes pre rh = Some rh1" "learnt rh rh1" by blast
    obtain t2 where t2: "fs_prefix_trie_new = Some t2" using new_trie by blast
    have "learn_prefixes cur str rh = Some (rh1\<lparr>rh_ptrie := t2\<rparr>)" using a(1) False pre(1) rh1(1) by (simp add: learn_prefixes_def t2)
    moreover have "tries_ok (rh1\<lparr>rh_ptrie := t2\<rparr>)" using rh1(2) trie_ok_new [OF t2] by (auto simp: tries_ok_def learnt_def pt)
    ultimately show ?thesis using rh1(2) by (auto simp: learnt_def extends_def same_table_def)
  qed
qed

lemma check_total: "\<exists>n. compress_with code str None = Some (n, None) \<and> (n = 0 \<or> n = 1)"
proof -
  have "\<exists>n. compress_loop code str None k = Some (n, None) \<and> (n = 0 \<or> n = 1)" for k
    by (induction str) (auto split: option.splits)
  then show ?thesis by (simp add: compress_with_def)
qed

text \<open>The entry that a resource is packed into, with what it needs in the files.\<close>

definition packs :: "(nat \<Rightarrow> cstr \<Rightarrow> cstr option) \<Rightarrow> fs_rhash \<Rightarrow> fs_resource \<Rightarrow> rhash_entry \<Rightarrow> fs_rhash \<Rightarrow> bool" where
  "packs zu rh res e rh' \<longleftrightarrow> en_rid e = re_rid res \<and> extends rh rh' \<and> same_table rh rh' \<and> tries_ok rh'
     \<and> (\<exists>a. get_entry zu rh' e = (0, a, Lex (re_lex res)) \<and> (FS_IS_URI (re_rid res) \<or> a = re_attr res)
           \<and> (re_attr res = FS_RID_NULL \<and> en_disp e \<noteq> DISP_F_PREFIX \<longrightarrow> a = FS_RID_NULL))"

lemma pack_external_packs:
  assumes "pack_external zc (re_lex res) e rh1 = (e', rh')" "zlib_ok zc zu" "0 \<notin> set (re_lex res)" "length (re_lex res) < 4294967296"
    "en_rid e = re_rid res" "en_aval e = le64 (re_attr res)" "extends rh rh1" "same_table rh rh1" "tries_ok rh1"
  shows "packs zu rh res e' rh'"
proof -
  note p = pack_external_ok [OF assms(1-4)]
  have "same_table rh rh'" using p(3) assms(8) by (simp add: same_table_def)
  then show ?thesis using p assms(5,6,9) extends_trans [OF assms(7) p(2)] by (simp add: packs_def rd64_le64)
qed

lemma pack_prefix_packs:
  assumes "fs_prefix_trie_get_code (rh_prefixes rh) (re_lex res) = Some (code, len)" "code \<noteq> 0" "FS_IS_URI (re_rid res)" "tries_ok rh"
    "0 \<notin> set (re_lex res)" "length (re_lex res) < 4294967296"
    "pack_prefix code (drop (case len of Some n \<Rightarrow> n | None \<Rightarrow> 0) (re_lex res)) e rh = (e', rh')"
    "en_rid e = re_rid res" "length (en_aval e) = 8" "en_val e = Str (replicate INLINE_STR_LEN 0)"
  shows "packs zu rh res e' rh'"
proof -
  have t: "codes_ok (rh_prefixes rh) (ptab rh)" "rh_prefix_count rh \<le> FS_MAX_PREFIXES" using assms(4) by (simp_all add: tries_ok_def)
  from get_code_ok [OF t(1) assms(5)] assms(1,2) obtain n where n: "len = Some n" "n \<le> length (re_lex res)" "ptab rh code = Some (take n (re_lex res))" by auto
  have c: "0 < code" "code < int (rh_prefix_count rh)" "rh_prefix_strings rh ! nat code = take n (re_lex res)" using n(3) assms(2) by (auto simp: ptab_def split: if_splits)
  have d: "0 \<notin> set (drop n (re_lex res))" "length (drop n (re_lex res)) < 4294967296" using assms(5,6) by (auto dest: in_set_dropD)
  have "pack_prefix code (drop n (re_lex res)) e rh = (e', rh')" using assms(7) n(1) by simp
  note p = pack_prefix_ok [OF this c(1,2) t(2) assms(9,10) d]
  from p(5) [of zu] obtain a where "get_entry zu rh' e' = (0, a, Lex (re_lex res))" "en_disp e' \<noteq> DISP_F_PREFIX \<longrightarrow> a = FS_RID_NULL" unfolding c(3) append_take_drop_id by blast
  then show ?thesis using p(1-4) assms(3,4,8) by (auto simp: packs_def)
qed

lemma pack_entry_ok:
  assumes t: "tries_ok rh" and s: "0 \<notin> set (re_lex res)" "length (re_lex res) < 4294967296" and z: "zlib_ok zc zu"
    and c: "length cur = FS_MAX_PREFIX_LENGTH + 1" "FS_IS_URI (re_rid res) \<longrightarrow> prefix_room cur rh (re_lex res)"
  shows "\<exists>e rh'. pack_entry zc cur res rh = Some (e, rh') \<and> packs zu rh res e rh'"
proof -
  let ?str = "re_lex res" and ?zeros = "replicate INLINE_STR_LEN 0 :: u8 list"
  define e where "e = \<lparr>en_rid = re_rid res, en_aval = le64 (re_attr res), en_val = Str ?zeros, en_disp = DISP_BLANK\<rparr>"
  note def = pack_entry_def [of zc cur res rh, unfolded Let_def e_def [symmetric]]
  obtain n m where nm: "compress_bcd ?str None = Some (n, None)" "compress_bcdate ?str None = Some (m, None)"
    using check_total [of bcd_code ?str] check_total [of bcdate_code ?str] unfolding compress_bcd_def compress_bcdate_def by blast
  consider (short) "length ?str \<le> INLINE_STR_LEN" | (number) "\<not> length ?str \<le> INLINE_STR_LEN" "n = 0" | (date) "\<not> length ?str \<le> INLINE_STR_LEN" "n \<noteq> 0" "m = 0"
    | (other) "\<not> length ?str \<le> INLINE_STR_LEN" "n \<noteq> 0" "m \<noteq> 0" by blast
  then show ?thesis
  proof cases
    case short
    then have "pack_entry zc cur res rh = Some (e\<lparr>en_val := Str (strncpy ?str INLINE_STR_LEN), en_disp := DISP_I_UTF8\<rparr>, rh)" by (simp add: def)
    moreover have "c_string (strncpy ?str INLINE_STR_LEN) = ?str" using c_string_strncpy [OF s(1)] short by simp
    ultimately show ?thesis using t by (simp add: packs_def e_def get_entry_def Let_def rd64_le64)
  next
    case number
    obtain b where "compress_bcd ?str (Some ?zeros) = Some (0, Some b)" "uncompress_bcd b = Some ?str"
      using number.roundtrip [of ?str None ?zeros] nm(1) number(2) by (auto simp: compress_bcd_def uncompress_bcd_def)
    moreover from this have "pack_entry zc cur res rh = Some (e\<lparr>en_val := Str b, en_disp := DISP_I_NUMBER\<rparr>, rh)" using number nm by (simp add: def)
    ultimately show ?thesis using t by (simp add: packs_def e_def get_entry_def Let_def rd64_le64)
  next
    case date
    obtain b where "compress_bcdate ?str (Some ?zeros) = Some (0, Some b)" "uncompress_bcdate b = Some ?str"
      using date.roundtrip [of ?str None ?zeros] nm(2) date(3) by (auto simp: compress_bcdate_def uncompress_bcdate_def)
    moreover from this have "pack_entry zc cur res rh = Some (e\<lparr>en_val := Str b, en_disp := DISP_I_DATE\<rparr>, rh)" using date nm by (simp add: def)
    ultimately show ?thesis using t by (simp add: packs_def e_def get_entry_def Let_def rd64_le64)
  next
    case other
    have e: "en_rid e = re_rid res" "en_aval e = le64 (re_attr res)" "length (en_aval e) = 8" "en_val e = Str ?zeros" by (simp_all add: e_def)
    note d = def [unfolded nm(1) nm(2)]
    show ?thesis
    proof (cases "FS_IS_URI (re_rid res)")
      case False
      obtain e' rh' where p: "pack_external zc ?str e rh = (e', rh')" by (cases "pack_external zc ?str e rh")
      have "pack_entry zc cur res rh = Some (e', rh')" using d other False p by simp
      then show ?thesis using pack_external_packs [OF p z s e(1,2) extends_refl same_table_refl t] by blast
    next
      case True
      have codes: "codes_ok (rh_prefixes rh) (ptab rh)" using t by (simp add: tries_ok_def)
      obtain code len where g: "fs_prefix_trie_get_code (rh_prefixes rh) ?str = Some (code, len)" using get_code_ok [OF codes s(1)] by blast
      show ?thesis
      proof (cases "code = 0")
        case zero: True
        obtain rh1 where l: "learn_prefixes cur ?str rh = Some rh1" "extends rh rh1" "same_table rh rh1" "tries_ok rh1"
          using learn_prefixes_ok [OF t s(1) _ c(1)] c(2) True by blast
        obtain e' rh' where p: "pack_external zc ?str e rh1 = (e', rh')" by (cases "pack_external zc ?str e rh1")
        have "pack_entry zc cur res rh = Some (e', rh')" using d other True g zero l(1) p by simp
        then show ?thesis using pack_external_packs [OF p z s e(1,2) l(2-4)] by blast
      next
        case False
        let ?suffix = "drop (case len of Some n \<Rightarrow> n | None \<Rightarrow> 0) ?str"
        obtain e' rh' where p: "pack_prefix code ?suffix e rh = (e', rh')" by (cases "pack_prefix code ?suffix e rh")
        have "pack_entry zc cur res rh = Some (e', rh')" using d other True g False p by simp
        then show ?thesis using pack_prefix_packs [OF g False True t s p e(1,3,4)] by blast
      qed
    qed
  qed
qed

end
