(* ===== verification/RhashTable.thy ===== *)
theory RhashTable
  imports RhashOps
begin

text \<open>
  The table of the resource hash: where an identifier is searched, what doubling does, and that a
  resource that was put is found with its lexical form.
\<close>

section \<open>Positions\<close>

text \<open>The first entry of the bucket of an identifier in a table of \<open>s\<close> buckets of \<open>b\<close> entries.\<close>

definition home :: "nat \<Rightarrow> nat \<Rightarrow> rid \<Rightarrow> nat" where
  "home s b r = unat (drop_bit 10 r) mod s * b"

lemma entry_home: "rh_size rh = 2 ^ k \<Longrightarrow> FS_RHASH_ENTRY rh r = home (rh_size rh) (rh_bucket_size rh) r"
proof -
  assume s: "rh_size rh = 2 ^ k"
  have m: "word_of_nat (2 ^ k - 1) = (mask k :: rid)" by (simp add: mask_eq_exp_minus_1 of_nat_diff)
  have "unat (drop_bit 10 r AND word_of_nat (rh_size rh - 1)) = unat (drop_bit 10 r) mod 2 ^ k"
    unfolding s m take_bit_eq_mask [symmetric] by (simp add: unsigned_take_bit_eq take_bit_nat_def)
  then show ?thesis by (simp add: FS_RHASH_ENTRY_def home_def s)
qed

lemma home_bucket: "0 < s \<Longrightarrow> home s b r + b \<le> s * b"
proof -
  assume "0 < s"
  then have "unat (drop_bit 10 r) mod s + 1 \<le> s" by (simp add: Suc_leI)
  then have "(unat (drop_bit 10 r) mod s + 1) * b \<le> s * b" by (rule mult_le_mono1)
  then show ?thesis by (simp add: home_def)
qed

lemma home_double:
  assumes "0 < s" "0 < b"
  shows "home (2 * s) b r = (if home (2 * s) b r \<ge> s * b then home s b r + s * b else home s b r)"
proof -
  let ?x = "unat (drop_bit 10 r)"
  have e: "?x mod (2 * s) = s * (?x div s mod 2) + ?x mod s" using mod_mult2_eq [of ?x s 2] by (simp only: mult.commute)
  have l: "?x mod s < s" using assms(1) by simp
  show ?thesis
  proof (cases "?x div s mod 2 = 0")
    case True
    then have h: "home (2 * s) b r = home s b r" using e by (simp add: home_def)
    have "home s b r < s * b" using l assms(2) by (simp add: home_def)
    then show ?thesis using h by simp
  next
    case False
    then have "?x div s mod 2 = 1" by simp
    then have "?x mod (2 * s) = s + ?x mod s" using e by simp
    then have "home (2 * s) b r = home s b r + s * b" by (simp add: home_def add_mult_distrib)
    then show ?thesis by simp
  qed
qed

text \<open>
  The invariant of the table: sizes, every entry within the search distance of its bucket and inside the
  table, no identifier twice, and the number of entries.
\<close>

definition stored :: "fs_rhash \<Rightarrow> rid set" where
  "stored rh = {r. r \<noteq> 0 \<and> (\<exists>n. en_rid (rh_entries rh n) = r)}"

definition slots_ok :: "nat \<Rightarrow> nat \<Rightarrow> nat \<Rightarrow> (nat \<Rightarrow> rhash_entry) \<Rightarrow> bool" where
  "slots_ok s b d E \<longleftrightarrow>
     (\<forall>n. en_rid (E n) \<noteq> 0 \<longrightarrow> home s b (en_rid (E n)) \<le> n \<and> n < home s b (en_rid (E n)) + d \<and> n < s * b)
     \<and> (\<forall>n m. en_rid (E n) \<noteq> 0 \<longrightarrow> en_rid (E n) = en_rid (E m) \<longrightarrow> n = m)"

definition table_ok :: "fs_rhash \<Rightarrow> bool" where
  "table_ok rh \<longleftrightarrow> (\<exists>k. rh_size rh = 2 ^ k) \<and> 0 < rh_bucket_size rh \<and> 0 < rh_search_dist rh
     \<and> slots_ok (rh_size rh) (rh_bucket_size rh) (rh_search_dist rh) (rh_entries rh) \<and> rh_count rh = card (stored rh)"

lemma table_okD:
  assumes "table_ok rh"
  shows "0 < rh_size rh" "0 < rh_bucket_size rh" "0 < rh_search_dist rh" "\<And>r. FS_RHASH_ENTRY rh r = home (rh_size rh) (rh_bucket_size rh) r"
    "en_rid (rh_entries rh n) \<noteq> 0 \<Longrightarrow> home (rh_size rh) (rh_bucket_size rh) (en_rid (rh_entries rh n)) \<le> n
       \<and> n < home (rh_size rh) (rh_bucket_size rh) (en_rid (rh_entries rh n)) + rh_search_dist rh \<and> n < rh_size rh * rh_bucket_size rh"
    "en_rid (rh_entries rh n) \<noteq> 0 \<Longrightarrow> en_rid (rh_entries rh n) = en_rid (rh_entries rh m) \<Longrightarrow> n = m"
proof -
  note t = assms [unfolded table_ok_def slots_ok_def]
  show "0 < rh_size rh" "0 < rh_bucket_size rh" "0 < rh_search_dist rh" using t by auto
  show "FS_RHASH_ENTRY rh r = home (rh_size rh) (rh_bucket_size rh) r" for r using t entry_home by blast
  show "en_rid (rh_entries rh n) \<noteq> 0 \<Longrightarrow> home (rh_size rh) (rh_bucket_size rh) (en_rid (rh_entries rh n)) \<le> n
       \<and> n < home (rh_size rh) (rh_bucket_size rh) (en_rid (rh_entries rh n)) + rh_search_dist rh \<and> n < rh_size rh * rh_bucket_size rh" using t by blast
  show "en_rid (rh_entries rh n) \<noteq> 0 \<Longrightarrow> en_rid (rh_entries rh n) = en_rid (rh_entries rh m) \<Longrightarrow> n = m" using t by blast
qed

section \<open>Finding entries\<close>

lemma get_scan_hit:
  assumes "n \<in> set is" "en_rid (rh_entries rh n) = r" "\<And>m. m \<in> set is \<Longrightarrow> en_rid (rh_entries rh m) = r \<Longrightarrow> m = n"
  shows "get_scan_entries rh r is = Some (rh_entries rh n)"
  using assms
proof (induction "is")
  case (Cons i "is")
  show ?case
  proof (cases "en_rid (rh_entries rh i) = r")
    case True
    then have "i = n" using Cons.prems(3) [of i] by simp
    then show ?thesis using True by simp
  next
    case False
    then have "n \<in> set is" using Cons.prems(1,2) by auto
    then have "get_scan_entries rh r is = Some (rh_entries rh n)"
      by (rule Cons.IH [OF _ Cons.prems(2)]) (rule Cons.prems(3), simp)
    then show ?thesis using False by simp
  qed
qed simp

lemma get_scan_none: "(\<And>m. m \<in> set is \<Longrightarrow> en_rid (rh_entries rh m) \<noteq> r) \<Longrightarrow> get_scan_entries rh r is = None"
  by (induction "is") auto

lemma get_found:
  assumes "table_ok rh" "en_rid (rh_entries rh n) = r" "r \<noteq> 0"
  shows "fs_rhash_get zu rh r = get_entry zu rh (rh_entries rh n)"
proof -
  note t = table_okD [OF assms(1)]
  have "get_scan_entries rh r [FS_RHASH_ENTRY rh r..<FS_RHASH_ENTRY rh r + rh_search_dist rh] = Some (rh_entries rh n)"
  proof (rule get_scan_hit)
    show "n \<in> set [FS_RHASH_ENTRY rh r..<FS_RHASH_ENTRY rh r + rh_search_dist rh]" using t(5) [of n] t(4) assms(2,3) by simp
    show "m = n" if "en_rid (rh_entries rh m) = r" for m using t(6) [of n m] that assms(2,3) by simp
  qed (rule assms(2))
  then show ?thesis by (simp add: fs_rhash_get_def)
qed

lemma get_missing: "r \<notin> stored rh \<Longrightarrow> r \<noteq> 0 \<Longrightarrow> fs_rhash_get zu rh r = (1, 0, Not_found)"
  by (simp add: fs_rhash_get_def stored_def get_scan_none)

lemma put_scan_cases:
  "(case put_scan rh r js new of
      Stored \<Rightarrow> \<exists>i \<in> set js. en_rid (rh_entries rh i) = r
    | Free None \<Rightarrow> new = None \<and> (sorted js \<longrightarrow> (\<forall>i \<in> set js. i < rh_size rh * rh_bucket_size rh \<longrightarrow> en_rid (rh_entries rh i) \<noteq> 0 \<and> en_rid (rh_entries rh i) \<noteq> r))
    | Free (Some n) \<Rightarrow> (new = Some n \<or> n \<in> set js \<and> n < rh_size rh * rh_bucket_size rh \<and> en_rid (rh_entries rh n) = 0)
        \<and> (sorted js \<longrightarrow> (\<forall>i \<in> set js. i < rh_size rh * rh_bucket_size rh \<longrightarrow> en_rid (rh_entries rh i) \<noteq> r)))"
  by (induction rh r js new rule: put_scan.induct) (auto split: place.splits option.splits)

section \<open>Doubling\<close>

text \<open>An entry that belongs to the upper half of a table with twice as many buckets.\<close>

definition moves :: "nat \<Rightarrow> nat \<Rightarrow> rhash_entry \<Rightarrow> bool" where
  "moves s b e \<longleftrightarrow> en_rid e \<noteq> 0 \<and> home (2 * s) b (en_rid e) \<ge> s * b"

lemma split_bucket_ok:
  assumes "\<And>r. FS_RHASH_ENTRY rh r = home (2 * s) b r" "distinct js"
  shows "split_bucket rh (s * b) i js (E, hi)
    = (\<lambda>n. if (\<exists>j \<in> set js. n = i + j) \<and> moves s b (E n) then blank_entry else E n,
       \<lambda>j. if j \<in> set js \<and> moves s b (E (i + j)) then E (i + j) else hi j)"
  using assms(2)
proof (induction js arbitrary: E hi)
  case (Cons j js)
  have j: "j \<notin> set js" "distinct js" using Cons.prems by simp_all
  show ?case
  proof (cases "moves s b (E (i + j))")
    case True
    then have "split_bucket rh (s * b) i (j # js) (E, hi) = split_bucket rh (s * b) i js (E(i + j := blank_entry), hi(j := E (i + j)))"
      using assms(1) by (simp add: moves_def)
    moreover have "\<not> moves s b blank_entry" by (simp add: moves_def blank_entry_def)
    ultimately show ?thesis using Cons.IH [OF j(2)] True j(1) by (auto simp: fun_eq_iff)
  next
    case False
    then have "split_bucket rh (s * b) i (j # js) (E, hi) = split_bucket rh (s * b) i js (E, hi)"
      using assms(1) by (auto simp: moves_def)
    then show ?thesis using Cons.IH [OF j(2)] False by (auto simp: fun_eq_iff)
  qed
qed (simp add: fun_eq_iff)

text \<open>The table after the first \<open>m\<close> buckets.\<close>

definition half :: "nat \<Rightarrow> nat \<Rightarrow> nat \<Rightarrow> (nat \<Rightarrow> rhash_entry) \<Rightarrow> nat \<Rightarrow> rhash_entry" where
  "half s b m E n =
     (if n < m * b then if moves s b (E n) then blank_entry else E n
      else if s * b \<le> n \<and> n < s * b + m * b then if moves s b (E (n - s * b)) then E (n - s * b) else blank_entry
      else E n)"

lemma double_bucket_half:
  assumes h: "\<And>r. FS_RHASH_ENTRY rh r = home (2 * s) b r" "rh_bucket_size rh = b" and m: "m < s"
  shows "double_bucket rh (s * b) m (half s b m E) = half s b (Suc m) E"
proof
  fix n
  have mb: "m * b + b \<le> s * b" using m by (metis Suc_leI add.commute mult_Suc mult_le_mono1)
  have in_b: "(\<exists>j \<in> set [0..<b]. n = m * b + j) \<longleftrightarrow> m * b \<le> n \<and> n < m * b + b" for n
    by (auto simp: Bex_def) (metis add_diff_inverse_nat less_diff_conv2 not_less add.commute)
  have low: "half s b m E k = E k" if "m * b \<le> k" "k < s * b" for k using that by (simp add: half_def)
  have d: "double_bucket rh (s * b) m (half s b m E) n
    = (if m * b + s * b \<le> n \<and> n < m * b + s * b + b
       then if moves s b (half s b m E (n - s * b)) then half s b m E (n - s * b) else blank_entry
       else if m * b \<le> n \<and> n < m * b + b \<and> moves s b (half s b m E n) then blank_entry else half s b m E n)"
    using split_bucket_ok [OF h(1), of "[0..<b]" "m * b" "half s b m E" "\<lambda>_. blank_entry"] in_b
    by (auto simp: double_bucket_def h(2) Let_def)
  show "double_bucket rh (s * b) m (half s b m E) n = half s b (Suc m) E n"
  proof (cases "m * b + s * b \<le> n \<and> n < m * b + s * b + b")
    case True
    then have "half s b m E (n - s * b) = E (n - s * b)" using mb by (intro low) auto
    then show ?thesis unfolding d using True mb by (auto simp: half_def)
  next
    case False
    then show ?thesis unfolding d using mb low [of n] by (auto simp: half_def)
  qed
qed

lemma fold_half:
  assumes "\<And>r. FS_RHASH_ENTRY rh r = home (2 * s) b r" "rh_bucket_size rh = b" "m \<le> s"
  shows "fold (double_bucket rh (s * b)) [0..<m] E = half s b m E"
  using assms(3)
proof (induction m)
  case 0
  show ?case by (auto simp: half_def fun_eq_iff)
next
  case (Suc m)
  then show ?case using double_bucket_half [OF assms(1,2), of m E] by simp
qed

lemma double_size_entries:
  assumes "rh_size rh = 2 ^ k" "2 * rh_size rh < 4294967296"
  shows "double_size rh = rh\<lparr>rh_size := 2 * rh_size rh, rh_entries := half (rh_size rh) (rh_bucket_size rh) (rh_size rh) (rh_entries rh)\<rparr>"
proof -
  let ?rh = "rh\<lparr>rh_size := 2 * rh_size rh\<rparr>"
  have "rh_size ?rh = 2 ^ (k + 1)" using assms(1) by simp
  then have h: "FS_RHASH_ENTRY ?rh r = home (2 * rh_size rh) (rh_bucket_size rh) r" for r using entry_home [of ?rh "k + 1" r] by simp
  have "rh_bucket_size ?rh = rh_bucket_size rh" by simp
  from fold_half [OF h this le_refl] show ?thesis using assms(2) by (simp add: double_size_def Let_def mult.commute)
qed

text \<open>Every entry keeps its distance from its bucket.\<close>

lemma half_entry:
  fixes s b :: nat and E :: "nat \<Rightarrow> rhash_entry"
  assumes ok: "slots_ok s b d E" and sb: "0 < s" "0 < b"
  shows "en_rid (half s b s E n) \<noteq> 0 \<Longrightarrow> \<exists>m. half s b s E n = E m \<and> m < s * b \<and> n = (if moves s b (E m) then m + s * b else m)"
    and "en_rid (E m) \<noteq> 0 \<Longrightarrow> half s b s E (if moves s b (E m) then m + s * b else m) = E m"
proof -
  have lt: "m < s * b" if "en_rid (E m) \<noteq> 0" for m using ok that by (simp add: slots_ok_def)
  have bl: "en_rid blank_entry = 0" by (simp add: blank_entry_def)
  show "\<exists>m. half s b s E n = E m \<and> m < s * b \<and> n = (if moves s b (E m) then m + s * b else m)" if n: "en_rid (half s b s E n) \<noteq> 0"
  proof -
    consider "n < s * b" | "s * b \<le> n" "n < s * b + s * b" | "s * b + s * b \<le> n" by linarith
    then show ?thesis
    proof cases
      case 1
      then have "\<not> moves s b (E n)" "half s b s E n = E n" using n bl by (auto simp: half_def split: if_splits)
      then show ?thesis using 1 by auto
    next
      case 2
      then have "moves s b (E (n - s * b))" "half s b s E n = E (n - s * b)" using n bl by (auto simp: half_def split: if_splits)
      then show ?thesis using 2 by (intro exI [of _ "n - s * b"]) auto
    next
      case 3
      then show ?thesis using n lt [of n] by (simp add: half_def)
    qed
  qed
  show "half s b s E (if moves s b (E m) then m + s * b else m) = E m" if "en_rid (E m) \<noteq> 0"
    using lt [OF that] by (auto simp: half_def)
qed

lemma half_slots:
  assumes "slots_ok s b d E" "0 < s" "0 < b"
  shows "slots_ok (2 * s) b d (half s b s E)"
  unfolding slots_ok_def
proof (intro conjI allI impI)
  note old = assms(1) [unfolded slots_ok_def]
  fix n
  assume n: "en_rid (half s b s E n) \<noteq> 0"
  then obtain m where m: "half s b s E n = E m" "m < s * b" "n = (if moves s b (E m) then m + s * b else m)" using half_entry(1) [OF assms] by blast
  have r: "en_rid (E m) \<noteq> 0" using n m(1) by simp
  have o: "home s b (en_rid (E m)) \<le> m" "m < home s b (en_rid (E m)) + d" using old r by blast+
  have h: "home (2 * s) b (en_rid (E m)) = (if moves s b (E m) then home s b (en_rid (E m)) + s * b else home s b (en_rid (E m)))"
    using home_double [OF assms(2,3), of "en_rid (E m)"] r by (auto simp: moves_def)
  show "home (2 * s) b (en_rid (half s b s E n)) \<le> n" "n < home (2 * s) b (en_rid (half s b s E n)) + d"
    unfolding m(1) h using o m(3) by auto
  have "2 * s * b = s * b + s * b" by simp
  moreover have "n < s * b + s * b" using m(2,3) by (cases "moves s b (E m)") simp_all
  ultimately show "n < 2 * s * b" by simp
  fix n'
  assume e: "en_rid (half s b s E n) = en_rid (half s b s E n')"
  then obtain m' where m': "half s b s E n' = E m'" "n' = (if moves s b (E m') then m' + s * b else m')" using half_entry(1) [OF assms, of n'] n by auto
  have "m = m'" using old r e m(1) m'(1) by metis
  then show "n = n'" using m(3) m'(2) by simp
qed

lemma half_stored:
  assumes "slots_ok s b d E" "0 < s" "0 < b"
  shows "{r. r \<noteq> 0 \<and> (\<exists>n. en_rid (half s b s E n) = r)} = {r. r \<noteq> 0 \<and> (\<exists>n. en_rid (E n) = r)}"
proof (intro set_eqI iffI)
  fix r assume "r \<in> {r. r \<noteq> 0 \<and> (\<exists>n. en_rid (half s b s E n) = r)}"
  then obtain n where "r \<noteq> 0" "en_rid (half s b s E n) = r" by blast
  then show "r \<in> {r. r \<noteq> 0 \<and> (\<exists>n. en_rid (E n) = r)}" using half_entry(1) [OF assms, of n] by auto
next
  fix r assume "r \<in> {r. r \<noteq> 0 \<and> (\<exists>n. en_rid (E n) = r)}"
  then obtain n where n: "r \<noteq> 0" "en_rid (E n) = r" by blast
  then have "en_rid (half s b s E (if moves s b (E n) then n + s * b else n)) = r" using half_entry(2) [OF assms, of n] by simp
  then show "r \<in> {r. r \<noteq> 0 \<and> (\<exists>n. en_rid (half s b s E n) = r)}" using n(1) by blast
qed

lemma get_entry_cong:
  assumes "rh_lex rh' = rh_lex rh" "rh_prefix_strings rh' = rh_prefix_strings rh"
  shows "get_entry zu rh' = get_entry zu rh"
proof -
  have "get_prefix_string rh' = get_prefix_string rh" "get_external rh' = get_external rh" "get_compressed zu rh' = get_compressed zu rh"
    using assms by (simp_all add: fun_eq_iff get_prefix_string_def get_external_def get_compressed_def Let_def split: entry_val.split)
  then show ?thesis by (intro ext) (simp only: get_entry_def)
qed

lemma double_ok:
  assumes t: "table_ok rh" and s: "2 * rh_size rh < 4294967296"
  shows "table_ok (double_size rh)" "stored (double_size rh) = stored rh" "r \<noteq> 0 \<Longrightarrow> fs_rhash_get zu (double_size rh) r = fs_rhash_get zu rh r"
    "rh_size (double_size rh) = 2 * rh_size rh" "rh_bucket_size (double_size rh) = rh_bucket_size rh" "rh_search_dist (double_size rh) = rh_search_dist rh"
    "extends rh (double_size rh)" "tries_ok (double_size rh) = tries_ok rh"
proof -
  obtain k where k: "rh_size rh = 2 ^ k" using t by (auto simp: table_ok_def)
  note d = double_size_entries [OF k s]
  have p: "0 < rh_size rh" "0 < rh_bucket_size rh" "slots_ok (rh_size rh) (rh_bucket_size rh) (rh_search_dist rh) (rh_entries rh)"
    using t k by (simp_all add: table_ok_def)
  show st: "stored (double_size rh) = stored rh" using half_stored [OF p(3,1,2)] by (simp add: d stored_def)
  have "rh_size (double_size rh) = 2 ^ (k + 1)" using k by (simp add: d)
  then show t': "table_ok (double_size rh)" using t half_slots [OF p(3,1,2)] st unfolding table_ok_def d
    by (intro conjI exI [of _ "k + 1"]) simp_all
  show "rh_size (double_size rh) = 2 * rh_size rh" "rh_bucket_size (double_size rh) = rh_bucket_size rh" "rh_search_dist (double_size rh) = rh_search_dist rh"
    "extends rh (double_size rh)" by (simp_all add: d extends_def)
  show "tries_ok (double_size rh) = tries_ok rh" by (rule tries_ok_cong) (simp_all add: d)
  have g: "get_entry zu (double_size rh) = get_entry zu rh" by (rule get_entry_cong) (simp_all add: d)
  show "fs_rhash_get zu (double_size rh) r = fs_rhash_get zu rh r" if r: "r \<noteq> 0"
  proof (cases "r \<in> stored rh")
    case True
    then obtain n where n: "en_rid (rh_entries rh n) = r" by (auto simp: stored_def)
    let ?n = "if moves (rh_size rh) (rh_bucket_size rh) (rh_entries rh n) then n + rh_size rh * rh_bucket_size rh else n"
    have e: "rh_entries (double_size rh) ?n = rh_entries rh n" using half_entry(2) [OF p(3,1,2), of n] n r by (simp add: d)
    then have "en_rid (rh_entries (double_size rh) ?n) = r" using n by simp
    from get_found [OF t' this r, of zu] show ?thesis unfolding e g using get_found [OF t n r, of zu] by simp
  next
    case False
    then show ?thesis using get_missing [of r rh] get_missing [of r "double_size rh"] r st by simp
  qed
qed

section \<open>Putting\<close>

text \<open>All entries can be read.\<close>

definition rh_ok :: "(nat \<Rightarrow> cstr \<Rightarrow> cstr option) \<Rightarrow> fs_rhash \<Rightarrow> bool" where
  "rh_ok zu rh \<longleftrightarrow> table_ok rh \<and> tries_ok rh \<and> (\<forall>n. en_rid (rh_entries rh n) \<noteq> 0 \<longrightarrow> (\<exists>a s. get_entry zu rh (rh_entries rh n) = (0, a, Lex s)))"

lemma double_rh_ok:
  assumes ok: "rh_ok zu rh" and sz: "2 * rh_size rh < 4294967296"
  shows "rh_ok zu (double_size rh)"
proof -
  have t: "table_ok rh" "tries_ok rh" using ok by (simp_all add: rh_ok_def)
  obtain k where k: "rh_size rh = 2 ^ k" using t(1) by (auto simp: table_ok_def)
  note e = double_size_entries [OF k sz]
  note d = double_ok [OF t(1) sz]
  have g: "get_entry zu (double_size rh) = get_entry zu rh" by (rule get_entry_cong) (simp_all add: e)
  have p: "slots_ok (rh_size rh) (rh_bucket_size rh) (rh_search_dist rh) (rh_entries rh)" using t(1) by (simp add: table_ok_def)
  have "\<exists>a s. get_entry zu (double_size rh) (rh_entries (double_size rh) n) = (0, a, Lex s)" if n: "en_rid (rh_entries (double_size rh) n) \<noteq> 0" for n
  proof -
    obtain m where "rh_entries (double_size rh) n = rh_entries rh m" using half_entry(1) [OF p table_okD(1,2) [OF t(1)], of n] n by (auto simp: e)
    then show ?thesis using ok n unfolding g rh_ok_def by simp
  qed
  then show ?thesis using d(1,8) t(2) by (simp add: rh_ok_def)
qed

text \<open>
  After \<open>d\<close> doublings the table is below the range of its counters, and fewer identifiers than a bucket or the search
  distance holds are stored within the search distance of the new one.
\<close>

definition rh_room :: "fs_rhash \<Rightarrow> rid \<Rightarrow> nat \<Rightarrow> bool" where
  "rh_room rh r d \<longleftrightarrow> (let s = rh_size rh * 2 ^ d; b = rh_bucket_size rh in
     s * b < 2147483648
     \<and> card {r' \<in> stored rh. home s b r' < home s b r + rh_search_dist rh \<and> home s b r < home s b r' + rh_search_dist rh} < min (rh_search_dist rh) b)"

lemma finite_stored: "table_ok rh \<Longrightarrow> finite (stored rh)"
proof -
  assume t: "table_ok rh"
  have "stored rh \<subseteq> (\<lambda>n. en_rid (rh_entries rh n)) ` {..<rh_size rh * rh_bucket_size rh}"
    using table_okD(5) [OF t] by (auto simp: stored_def)
  then show ?thesis by (rule finite_subset) simp
qed

text \<open>A full window holds enough identifiers near the new one.\<close>

lemma rh_full_window:
  assumes t: "table_ok rh" and room: "rh_room rh r 0"
  shows "put_scan rh r [FS_RHASH_ENTRY rh r..<FS_RHASH_ENTRY rh r + rh_search_dist rh] None \<noteq> Free None"
proof
  let ?s = "rh_size rh" and ?b = "rh_bucket_size rh" and ?d = "rh_search_dist rh"
  let ?h = "home ?s ?b r"
  note t' = table_okD [OF t]
  assume "put_scan rh r [FS_RHASH_ENTRY rh r..<FS_RHASH_ENTRY rh r + ?d] None = Free None"
  then have "put_scan rh r [?h..<?h + ?d] None = Free None" unfolding t'(4) .
  then have full: "en_rid (rh_entries rh i) \<noteq> 0" if "i \<in> {?h..<?h + ?d}" "i < ?s * ?b" for i
    using put_scan_cases [where rh = rh and r = r and new = None and js = "[?h..<?h + ?d]"] that by simp
  let ?W = "{?h..<?h + min ?d ?b}" and ?N = "{r' \<in> stored rh. home ?s ?b r' < ?h + ?d \<and> ?h < home ?s ?b r' + ?d}"
  have w: "i < ?s * ?b" "en_rid (rh_entries rh i) \<noteq> 0" if "i \<in> ?W" for i
  proof -
    have i: "?h \<le> i" "i < ?h + ?d" "i < ?h + ?b" using that by (auto simp: min_def split: if_splits)
    then show "i < ?s * ?b" using home_bucket [OF t'(1), of ?b r] by linarith
    then show "en_rid (rh_entries rh i) \<noteq> 0" using full [of i] i by simp
  qed
  have "(\<lambda>i. en_rid (rh_entries rh i)) ` ?W \<subseteq> ?N"
  proof
    fix x assume "x \<in> (\<lambda>i. en_rid (rh_entries rh i)) ` ?W"
    then obtain i where i: "i \<in> ?W" "x = en_rid (rh_entries rh i)" by blast
    then show "x \<in> ?N" using w(2) [OF i(1)] t'(5) [of i] by (auto simp: stored_def)
  qed
  moreover have "finite ?N" using finite_stored [OF t] by simp
  ultimately have "card ((\<lambda>i. en_rid (rh_entries rh i)) ` ?W) \<le> card ?N" by (intro card_mono)
  moreover have "inj_on (\<lambda>i. en_rid (rh_entries rh i)) ?W" using w(2) t'(6) by (auto simp: inj_on_def)
  ultimately have "min ?d ?b \<le> card ?N" by (simp add: card_image)
  then show False using room by (simp add: rh_room_def Let_def min_def split: if_splits)
qed

lemma room_for_cong: "rh_prefixes rh' = rh_prefixes rh \<Longrightarrow> rh_prefix_strings rh' = rh_prefix_strings rh \<Longrightarrow> room_for ps rh' = room_for ps rh"
proof (induction ps arbitrary: rh rh')
  case (Cons p ps)
  have "room_for ps (add_prefix rh' (pf_prefix p) t) = room_for ps (add_prefix rh (pf_prefix p) t)" for t
    by (rule Cons.IH) (simp_all add: add_prefix_def Cons.prems)
  then show ?case using Cons.prems by (auto split: option.split)
qed simp

lemma prefix_room_cong:
  "rh_ptrie rh' = rh_ptrie rh \<Longrightarrow> rh_prefixes rh' = rh_prefixes rh \<Longrightarrow> rh_prefix_strings rh' = rh_prefix_strings rh \<Longrightarrow> prefix_room cur rh' str = prefix_room cur rh str"
  using room_for_cong [of rh' rh] by (auto simp: prefix_room_def split: option.split)

text \<open>What putting a resource does.\<close>

definition was_put :: "(nat \<Rightarrow> cstr \<Rightarrow> cstr option) \<Rightarrow> fs_rhash \<Rightarrow> fs_resource \<Rightarrow> fs_rhash \<Rightarrow> bool" where
  "was_put zu rh res rh' \<longleftrightarrow> rh_ok zu rh' \<and> stored rh' = insert (re_rid res) (stored rh)
     \<and> (\<forall>r. r \<noteq> 0 \<and> r \<noteq> re_rid res \<longrightarrow> fs_rhash_get zu rh' r = fs_rhash_get zu rh r)
     \<and> (if re_rid res \<in> stored rh then fs_rhash_get zu rh' (re_rid res) = fs_rhash_get zu rh (re_rid res)
        else \<exists>a. fs_rhash_get zu rh' (re_rid res) = (0, a, Lex (re_lex res)) \<and> (FS_IS_URI (re_rid res) \<or> a = re_attr res))"

lemma place_entry:
  assumes ok: "rh_ok zu rh" and p: "packs zu rh res e rh1" and r: "re_rid res \<noteq> 0" "re_rid res \<notin> stored rh"
    and new: "FS_RHASH_ENTRY rh (re_rid res) \<le> new" "new < FS_RHASH_ENTRY rh (re_rid res) + rh_search_dist rh" "new < rh_size rh * rh_bucket_size rh" "en_rid (rh_entries rh new) = 0"
  shows "was_put zu rh res (rh1\<lparr>rh_entries := (rh_entries rh1)(new := e), rh_count := rh_count rh1 + 1\<rparr>)" (is "was_put zu rh res ?rh")
proof -
  have t: "table_ok rh" using ok by (simp add: rh_ok_def)
  note t' = table_okD [OF t]
  obtain a where a: "en_rid e = re_rid res" "extends rh rh1" "same_table rh rh1" "tries_ok rh1" "get_entry zu rh1 e = (0, a, Lex (re_lex res))" "FS_IS_URI (re_rid res) \<or> a = re_attr res"
    using p unfolding packs_def by blast
  note same = a(3) [unfolded same_table_def]
  have E: "rh_entries ?rh = (rh_entries rh)(new := e)" and f: "rh_size ?rh = rh_size rh" "rh_bucket_size ?rh = rh_bucket_size rh" "rh_search_dist ?rh = rh_search_dist rh" "rh_count ?rh = rh_count rh + 1"
    using same by simp_all
  have st: "stored ?rh = insert (re_rid res) (stored rh)"
    unfolding stored_def E using a(1) r(1) new(4) by (auto split: if_splits)
  have other: "en_rid (rh_entries rh n) \<noteq> re_rid res" for n using r by (auto simp: stored_def)
  have "slots_ok (rh_size rh) (rh_bucket_size rh) (rh_search_dist rh) ((rh_entries rh)(new := e))"
    unfolding slots_ok_def
  proof (intro conjI allI impI)
    fix n m
    assume n: "en_rid (((rh_entries rh)(new := e)) n) \<noteq> 0"
    show "home (rh_size rh) (rh_bucket_size rh) (en_rid (((rh_entries rh)(new := e)) n)) \<le> n"
      "n < home (rh_size rh) (rh_bucket_size rh) (en_rid (((rh_entries rh)(new := e)) n)) + rh_search_dist rh" "n < rh_size rh * rh_bucket_size rh"
      using n t'(5) [of n] new(1-3) a(1) t'(4) by (cases "n = new"; simp)+
    assume "en_rid (((rh_entries rh)(new := e)) n) = en_rid (((rh_entries rh)(new := e)) m)"
    then show "n = m" using n other [of n] other [of m] a(1) t'(6) [of n m] by (cases "n = new"; cases "m = new") auto
  qed
  moreover have "card (stored ?rh) = card (stored rh) + 1" unfolding st using r(2) finite_stored [OF t] by simp
  ultimately have tab: "table_ok ?rh" using t unfolding table_ok_def E f by auto
  have ext: "extends rh ?rh" using a(2) by (simp add: extends_def)
  have ge: "get_entry zu ?rh = get_entry zu rh1" by (rule get_entry_cong) simp_all
  have get_new: "get_entry zu ?rh (rh_entries ?rh new) = (0, a, Lex (re_lex res))" unfolding ge E using a(5) by simp
  have keep: "get_entry zu ?rh (rh_entries ?rh n) = get_entry zu rh (rh_entries rh n)" "\<exists>a s. get_entry zu ?rh (rh_entries ?rh n) = (0, a, Lex s)" if nz: "en_rid (rh_entries rh n) \<noteq> 0" for n
  proof -
    obtain a s where g: "get_entry zu rh (rh_entries rh n) = (0, a, Lex s)" using ok nz unfolding rh_ok_def by blast
    have n: "rh_entries ?rh n = rh_entries rh n" using nz new(4) E by auto
    show "get_entry zu ?rh (rh_entries ?rh n) = get_entry zu rh (rh_entries rh n)" "\<exists>a s. get_entry zu ?rh (rh_entries ?rh n) = (0, a, Lex s)"
      unfolding n using get_entry_stable [OF g ext] g by auto
  qed
  have "tries_ok ?rh = tries_ok rh1" by (rule tries_ok_cong) simp_all
  moreover have "\<exists>a s. get_entry zu ?rh (rh_entries ?rh n) = (0, a, Lex s)" if "en_rid (rh_entries ?rh n) \<noteq> 0" for n
  proof (cases "n = new")
    case True
    then show ?thesis using get_new by blast
  next
    case False
    then have "rh_entries ?rh n = rh_entries rh n" using same by simp
    then have "en_rid (rh_entries rh n) \<noteq> 0" using that by simp
    then show ?thesis by (rule keep(2))
  qed
  ultimately have ok': "rh_ok zu ?rh" unfolding rh_ok_def using tab a(4) by blast
  have "fs_rhash_get zu ?rh r = fs_rhash_get zu rh r" if "r \<noteq> 0" "r \<noteq> re_rid res" for r
  proof (cases "r \<in> stored rh")
    case True
    then obtain n where n: "en_rid (rh_entries rh n) = r" by (auto simp: stored_def)
    then have "en_rid (rh_entries ?rh n) = r" using E new(4) that(1) by auto
    then show ?thesis using get_found [OF tab _ that(1), of n zu] get_found [OF t n that(1), of zu] keep(1) [of n] n that(1) by simp
  next
    case False
    then show ?thesis using get_missing [of r rh] get_missing [of r ?rh] st that by simp
  qed
  moreover have "fs_rhash_get zu ?rh (re_rid res) = (0, a, Lex (re_lex res))"
    using get_found [OF tab _ r(1), of new zu] get_new E a(1) by simp
  ultimately show ?thesis unfolding was_put_def using ok' st r(2) a(6) by simp
qed


lemma rh_room_double:
  assumes "table_ok rh" "2 * rh_size rh < 4294967296" "rh_room rh r (Suc d)"
  shows "rh_room (double_size rh) r d"
proof -
  note d = double_ok [OF assms(1,2)]
  have "rh_size (double_size rh) * 2 ^ d = rh_size rh * 2 ^ Suc d" using d(4) by simp
  then show ?thesis using assms(3) unfolding rh_room_def d(2,5,6) by (simp only: Let_def)
qed

lemma put_here:
  assumes ok: "rh_ok zu rh" and r: "re_rid res \<noteq> 0" and s: "0 \<notin> set (re_lex res)" "length (re_lex res) < 4294967296" and z: "zlib_ok zc zu"
    and c: "length cur = FS_MAX_PREFIX_LENGTH + 1" "FS_IS_URI (re_rid res) \<longrightarrow> prefix_room cur rh (re_lex res)"
  shows "(\<exists>rh'. fs_rhash_put zc cur rh res = Some (0, rh') \<and> was_put zu rh res rh')
    \<or> fs_rhash_put zc cur rh res = fs_rhash_put zc cur (double_size rh) res
      \<and> put_scan rh (re_rid res) [FS_RHASH_ENTRY rh (re_rid res)..<FS_RHASH_ENTRY rh (re_rid res) + rh_search_dist rh] None = Free None"
proof -
  let ?h = "FS_RHASH_ENTRY rh (re_rid res)"
  let ?w = "[?h..<?h + rh_search_dist rh]"
  have t: "table_ok rh" and tries: "tries_ok rh" using ok by (simp_all add: rh_ok_def)
  note t' = table_okD [OF t]
  have in_t: "\<not> ?h \<ge> rh_size rh * rh_bucket_size rh" using home_bucket [OF t'(1), of "rh_bucket_size rh" "re_rid res"] t'(2,4) by simp
  note put = fs_rhash_put.simps [of zc cur rh res, unfolded Let_def, simplified in_t if_False]
  note scan = put_scan_cases [where rh = rh and r = "re_rid res" and js = ?w and new = None]
  consider (old) "put_scan rh (re_rid res) ?w None = Stored" | (full) "put_scan rh (re_rid res) ?w None = Free None"
    | (new) n where "put_scan rh (re_rid res) ?w None = Free (Some n)" by (metis place.exhaust option.exhaust)
  then show ?thesis
  proof cases
    case old
    then obtain i where "en_rid (rh_entries rh i) = re_rid res" using scan by auto
    then have "re_rid res \<in> stored rh" using r by (auto simp: stored_def)
    then have "was_put zu rh res rh" using ok by (simp add: was_put_def insert_absorb)
    then show ?thesis using put old by simp
  next
    case full
    then show ?thesis using put by simp
  next
    case new
    then have n: "n \<in> set ?w" "n < rh_size rh * rh_bucket_size rh" "en_rid (rh_entries rh n) = 0"
      and no: "i \<in> set ?w \<Longrightarrow> i < rh_size rh * rh_bucket_size rh \<Longrightarrow> en_rid (rh_entries rh i) \<noteq> re_rid res" for i using scan by auto
    have "re_rid res \<notin> stored rh"
    proof
      assume "re_rid res \<in> stored rh"
      then obtain i where i: "en_rid (rh_entries rh i) = re_rid res" by (auto simp: stored_def)
      then show False using no [of i] t'(5) [of i] t'(4) r by simp
    qed
    moreover obtain e rh1 where p: "pack_entry zc cur res rh = Some (e, rh1)" "packs zu rh res e rh1" using pack_entry_ok [OF tries s z c] by blast
    ultimately have "was_put zu rh res (rh1\<lparr>rh_entries := (rh_entries rh1)(n := e), rh_count := rh_count rh1 + 1\<rparr>)"
      using place_entry [OF ok p(2) r, of n] n by simp
    then show ?thesis using put new p(1) by simp
  qed
qed

text \<open>A full window is doubled at most \<open>d\<close> times.\<close>

lemma put_ok:
  assumes "rh_ok zu rh" and r: "re_rid res \<noteq> 0" and s: "0 \<notin> set (re_lex res)" "length (re_lex res) < 4294967296" and z: "zlib_ok zc zu"
    and c: "length cur = FS_MAX_PREFIX_LENGTH + 1" and "FS_IS_URI (re_rid res) \<longrightarrow> prefix_room cur rh (re_lex res)" "rh_room rh (re_rid res) d"
  shows "\<exists>rh'. fs_rhash_put zc cur rh res = Some (0, rh') \<and> was_put zu rh res rh'"
  using assms(1,7,8)
proof (induction d arbitrary: rh)
  case (0 rh)
  then show ?case using put_here [OF 0(1) r s z c 0(2)] rh_full_window [OF _ 0(3)] by (auto simp: rh_ok_def)
next
  case (Suc d rh)
  note ok = Suc.prems(1) [unfolded rh_ok_def]
  have t: "table_ok rh" "0 < rh_bucket_size rh" using ok table_okD(2) by blast+
  have "rh_size rh * 2 ^ Suc d * rh_bucket_size rh < 2147483648" using Suc.prems(3) by (simp add: rh_room_def Let_def)
  moreover have "rh_size rh * 2 \<le> rh_size rh * 2 ^ Suc d * rh_bucket_size rh" using t(2) by simp
  ultimately have sz: "2 * rh_size rh < 4294967296" by linarith
  note d = double_ok [OF t(1) sz]
  obtain k where k: "rh_size rh = 2 ^ k" using t(1) by (auto simp: table_ok_def)
  note e = double_size_entries [OF k sz]
  have "FS_IS_URI (re_rid res) \<longrightarrow> prefix_room cur (double_size rh) (re_lex res)" using Suc.prems(2) prefix_room_cong [of "double_size rh" rh] by (simp add: e)
  moreover have "rh_ok zu (double_size rh)" using double_rh_ok [OF Suc.prems(1) sz] .
  ultimately obtain rh' where rh': "fs_rhash_put zc cur (double_size rh) res = Some (0, rh')" "was_put zu (double_size rh) res rh'"
    using Suc.IH [of "double_size rh"] rh_room_double [OF t(1) sz Suc.prems(3)] by blast
  have "was_put zu rh res rh'" using rh'(2) r d(3) unfolding was_put_def d(2) by metis
  then show ?case using put_here [OF Suc.prems(1) r s z c Suc.prems(2)] rh'(1) by auto
qed

end
