(* ===== verification/RhashStore.thy ===== *)
theory RhashStore
  imports RhashTable
begin

text \<open>
  What the users of the resource hash rely on: a resource that was put is found, several are put at
  once, the files hold all of it when the hash is opened again, and the buffer of the import
  (\<open>fs_res_import\<close>, \<open>fs_res_import_commit\<close> of \<open>src/src/backend/import-backend.c\<close>) and the resolver
  (\<open>fs_resolve\<close>, \<open>fs_resolve_rid\<close> of \<open>src/src/backend/query-backend.c\<close>) on top of it.  The static buffer
  of the import is kept with the hash; timings are not.
\<close>

section \<open>Resources of the backend\<close>

definition RES_BUF_SIZE :: nat where "RES_BUF_SIZE = 10240"

record res_store =
  rs_res :: fs_rhash
  rs_buffer :: "fs_resource list"

text \<open>A segment out of range is reported only; the result of \<open>fs_rhash_put_multi\<close> is ignored.\<close>

definition fs_res_import_commit :: "(nat \<Rightarrow> cstr \<Rightarrow> cstr option) \<Rightarrow> u8 list \<Rightarrow> res_store \<Rightarrow> (nat \<times> res_store) option" where
  "fs_res_import_commit zc cur st = do {
     (_, rh) \<leftarrow> fs_rhash_put_multi zc cur (rs_res st) (rs_buffer st);
     Some (0, st\<lparr>rs_res := rh, rs_buffer := []\<rparr>)
   }"

text \<open>The outer loop; the inner one fills the buffer.\<close>

partial_function (option) fs_res_import :: "(nat \<Rightarrow> cstr \<Rightarrow> cstr option) \<Rightarrow> u8 list \<Rightarrow> res_store \<Rightarrow> fs_resource list \<Rightarrow> (nat \<times> res_store) option" where
  "fs_res_import zc cur st rs =
     (if rs = [] then Some (0, st)
      else let n = RES_BUF_SIZE - length (rs_buffer st); st1 = st\<lparr>rs_buffer := rs_buffer st @ take n rs\<rparr> in
        if length (rs_buffer st1) = RES_BUF_SIZE
        then do { (_, st2) \<leftarrow> fs_res_import_commit zc cur st1; fs_res_import zc cur st2 (drop n rs) }
        else fs_res_import zc cur st1 (drop n rs))"

definition fs_resolve :: "(nat \<Rightarrow> cstr \<Rightarrow> cstr option) \<Rightarrow> res_store \<Rightarrow> rid list \<Rightarrow> nat \<times> (rid \<times> rid \<times> lex_out) list" where
  "fs_resolve zu st v = fs_rhash_get_multi zu (rs_res st) v"

definition fs_resolve_rid :: "(nat \<Rightarrow> cstr \<Rightarrow> cstr option) \<Rightarrow> res_store \<Rightarrow> rid \<Rightarrow> nat \<times> rid \<times> lex_out" where
  "fs_resolve_rid zu st rid = (if FS_IS_BNODE rid then (0, FS_RID_NULL, Bnode rid) else fs_rhash_get zu (rs_res st) rid)"

section \<open>The file of prefixes\<close>

text \<open>Reading the file of prefixes gives the codes in use.\<close>

definition replays :: "fs_rhash \<Rightarrow> bool" where
  "replays rh \<longleftrightarrow> (\<exists>t0. fs_prefix_trie_new = Some t0 \<and> load_prefixes (rh_prefix_file rh) t0 [] = Some (rh_prefixes rh, rh_prefix_strings rh))"

lemma replays_cong: "rh_prefix_file rh' = rh_prefix_file rh \<Longrightarrow> rh_prefixes rh' = rh_prefixes rh \<Longrightarrow> rh_prefix_strings rh' = rh_prefix_strings rh \<Longrightarrow> replays rh' = replays rh"
  by (simp add: replays_def)

lemma load_snoc:
  "load_prefixes ls t strs = Some (t1, s1) \<Longrightarrow> fs_prefix_trie_add_code t1 p (int (length s1)) = Some (r, t2)
   \<Longrightarrow> load_prefixes (ls @ [(length s1, p)]) t strs = Some (t2, s1 @ [p])"
  by (induction ls t strs rule: load_prefixes.induct) (auto split: Option.bind_splits if_splits)

lemma add_prefixes_replays: "add_prefixes ps rh = Some rh' \<Longrightarrow> replays rh \<Longrightarrow> replays rh'"
proof (induction ps arbitrary: rh)
  case (Cons p ps)
  show ?case
  proof (cases "pf_score p = 0 \<or> rh_prefix_count rh = FS_MAX_PREFIXES")
    case True
    then show ?thesis using Cons.prems by simp
  next
    case False
    then obtain r t where t: "fs_prefix_trie_add_code (rh_prefixes rh) (pf_prefix p) (int (rh_prefix_count rh)) = Some (r, t)"
      "add_prefixes ps (add_prefix rh (pf_prefix p) t) = Some rh'" using Cons.prems(1) by (auto split: Option.bind_splits)
    have "replays (add_prefix rh (pf_prefix p) t)" using Cons.prems(2) load_snoc [OF _ t(1)] by (auto simp: replays_def add_prefix_def)
    with t(2) show ?thesis by (rule Cons.IH)
  qed
qed simp

lemma learn_prefixes_replays: "learn_prefixes cur str rh = Some rh' \<Longrightarrow> replays rh \<Longrightarrow> replays rh'"
proof -
  assume l: "learn_prefixes cur str rh = Some rh'" and r: "replays rh"
  obtain n t where t: "fs_prefix_trie_add_string (rh_ptrie rh) str = Some (n, t)" using l by (auto simp: learn_prefixes_def split: Option.bind_splits)
  show ?thesis
  proof (cases "n = 0")
    case True
    then show ?thesis using l t r replays_cong [of rh' rh] by (auto simp: learn_prefixes_def)
  next
    case False
    then obtain pre rh1 t1 where "add_prefixes pre rh = Some rh1" "rh' = rh1\<lparr>rh_ptrie := t1\<rparr>"
      using l t by (auto simp: learn_prefixes_def split: Option.bind_splits)
    then show ?thesis using add_prefixes_replays [OF _ r] replays_cong [of rh' rh1] by simp
  qed
qed

lemma pack_external_replays: "replays (snd (pack_external zc str e rh)) = replays rh"
  by (rule replays_cong) (simp_all add: pack_external_def Let_def split: option.split)

lemma pack_prefix_replays: "replays (snd (pack_prefix code s e rh)) = replays rh"
  by (rule replays_cong) (simp_all add: pack_prefix_def Let_def)

lemma pack_entry_replays:
  assumes "pack_entry zc cur res rh = Some (e, rh')" "replays rh"
  shows "replays rh'"
proof -
  have ext: "replays rh'" if "pack_external zc str e0 rh1 = (e, rh')" "replays rh1" for e0 rh1 str
    using that pack_external_replays [of zc str e0 rh1] by simp
  have pre: "replays rh'" if "pack_prefix k x e0 rh = (e, rh')" for k x e0 using that pack_prefix_replays [of k x e0 rh] assms(2) by simp
  show ?thesis using assms unfolding pack_entry_def Let_def
    by (auto split: if_splits Option.bind_split_asm; blast intro: ext pre learn_prefixes_replays)
qed

lemma double_size_replays: "replays (double_size rh) = replays rh"
  by (rule replays_cong) (simp_all add: double_size_def Let_def)

lemma put_replays:
  assumes "fs_rhash_put zc cur rh res = Some out" "replays rh"
  shows "replays (snd out)"
proof -
  have "replays rh \<longrightarrow> replays (snd out)"
  proof (rule fs_rhash_put.raw_induct [where P = "\<lambda>_ _ rh _ out. replays rh \<longrightarrow> replays (snd out)", OF _ assms(1)])
    fix put zc cur rh res out
    assume IH: "\<And>zc cur rh res out. put zc cur rh res = Some out \<Longrightarrow> replays rh \<longrightarrow> replays (snd out)"
      and body: "(let entry = FS_RHASH_ENTRY rh (re_rid res) in
      if entry \<ge> rh_size rh * rh_bucket_size rh then Some (1, rh)
      else case put_scan rh (re_rid res) [entry..<entry + rh_search_dist rh] None of
        Stored \<Rightarrow> Some (0, rh)
      | Free None \<Rightarrow> put zc cur (double_size rh) res
      | Free (Some new) \<Rightarrow> do {
          (e, rh1) \<leftarrow> pack_entry zc cur res rh;
          Some (0, rh1\<lparr>rh_entries := (rh_entries rh1)(new := e), rh_count := rh_count rh1 + 1\<rparr>)
        }) = Some out"
    show "replays rh \<longrightarrow> replays (snd out)"
    proof
      assume r: "replays rh"
      have "replays (rh1\<lparr>rh_entries := E, rh_count := c\<rparr>) = replays rh1" for rh1 E c by (rule replays_cong) simp_all
      then show "replays (snd out)" using body r IH [of zc cur "double_size rh" res out] pack_entry_replays [OF _ r, of zc cur res] double_size_replays [of rh]
        by (auto simp: Let_def split: if_splits place.splits option.splits Option.bind_splits)
    qed
  qed
  then show ?thesis using assms(2) by blast
qed

section \<open>Opening again\<close>

definition rhash_ok :: "(nat \<Rightarrow> cstr \<Rightarrow> cstr option) \<Rightarrow> fs_rhash \<Rightarrow> bool" where
  "rhash_ok zu rh \<longleftrightarrow> rh_ok zu rh \<and> replays rh"

lemma get_cong:
  assumes "rh_lex rh' = rh_lex rh" "rh_prefix_strings rh' = rh_prefix_strings rh" "rh_entries rh' = rh_entries rh"
    "rh_size rh' = rh_size rh" "rh_bucket_size rh' = rh_bucket_size rh" "rh_search_dist rh' = rh_search_dist rh"
  shows "fs_rhash_get zu rh' = fs_rhash_get zu rh"
proof -
  have "get_scan_entries rh' r js = get_scan_entries rh r js" for r js by (induction js) (simp_all add: assms(3))
  moreover have "FS_RHASH_ENTRY rh' = FS_RHASH_ENTRY rh" using assms(4,5) by (simp add: FS_RHASH_ENTRY_def fun_eq_iff)
  ultimately show ?thesis using get_entry_cong [OF assms(1,2)] assms(6) by (intro ext) (simp only: fs_rhash_get_def)
qed

lemma rh_reopen_ok:
  assumes ok: "rhash_ok zu rh"
  shows "\<exists>rh'. fs_rhash_open_filename False (fs_rhash_close rh) = Some rh' \<and> rhash_ok zu rh' \<and> stored rh' = stored rh \<and> fs_rhash_get zu rh' = fs_rhash_get zu rh"
proof -
  obtain t0 where t0: "fs_prefix_trie_new = Some t0" "load_prefixes (rh_prefix_file rh) t0 [] = Some (rh_prefixes rh, rh_prefix_strings rh)"
    using ok by (auto simp: rhash_ok_def replays_def)
  have t: "table_ok rh" "tries_ok rh" using ok by (auto simp: rhash_ok_def rh_ok_def)
  define rh' where "rh' = rh\<lparr>rh_ptrie := t0, rh_z_buffer_size := 1024\<rparr>"
  have op: "fs_rhash_open_filename False (fs_rhash_close rh) = Some rh'"
    unfolding fs_rhash_open_filename_def t0(1) using t0(2) table_okD(2) [OF t(1)] by (simp add: fs_rhash_close_def fs_rhash_write_header_def rh'_def)
  have f: "rh_entries rh' = rh_entries rh" "rh_size rh' = rh_size rh" "rh_bucket_size rh' = rh_bucket_size rh" "rh_search_dist rh' = rh_search_dist rh"
    "rh_count rh' = rh_count rh" "rh_lex rh' = rh_lex rh" "rh_prefix_strings rh' = rh_prefix_strings rh" by (simp_all add: rh'_def)
  have st: "stored rh' = stored rh" by (simp add: stored_def f)
  have "ptab rh' = ptab rh" by (simp add: ptab_def f fun_eq_iff)
  then have "tries_ok rh'" using t(2) trie_ok_new [OF t0(1)] by (auto simp: tries_ok_def rh'_def)
  moreover have "table_ok rh'" using t(1) unfolding table_ok_def f st .
  moreover have "get_entry zu rh' = get_entry zu rh" by (rule get_entry_cong) (simp_all add: f)
  moreover have "replays rh'" unfolding replays_def using t0 by (intro exI [of _ t0]) (simp add: rh'_def)
  ultimately have "rhash_ok zu rh'" using ok unfolding rhash_ok_def rh_ok_def f by simp
  then show ?thesis using op st get_cong [OF f(6,7,1-4)] by blast
qed

text \<open>The hash that is opened on empty files.\<close>

lemma fresh_ok:
  "\<exists>rh. fs_rhash_open_filename True f = Some rh \<and> rhash_ok zu rh \<and> stored rh = {} \<and> rh_size rh = FS_RHASH_DEFAULT_LENGTH
     \<and> rh_bucket_size rh = FS_RHASH_DEFAULT_BUCKET_SIZE \<and> rh_search_dist rh = FS_RHASH_DEFAULT_SEARCH_DIST"
proof -
  obtain t0 where t0: "fs_prefix_trie_new = Some t0" using new_trie by blast
  define rh where "rh = \<lparr>rh_size = FS_RHASH_DEFAULT_LENGTH, rh_count = 0, rh_search_dist = FS_RHASH_DEFAULT_SEARCH_DIST,
    rh_bucket_size = FS_RHASH_DEFAULT_BUCKET_SIZE, rh_entries = \<lambda>_. blank_entry, rh_lex = rf_lex f,
    rh_ptrie = t0, rh_prefixes = t0, rh_prefix_strings = [], rh_prefix_file = [], rh_z_buffer_size = 1024\<rparr>"
  have op: "fs_rhash_open_filename True f = Some rh" unfolding fs_rhash_open_filename_def t0 by (simp add: rh_def)
  have st: "stored rh = {}" by (auto simp: stored_def rh_def blank_entry_def)
  have "\<exists>k. rh_size rh = 2 ^ k" by (rule exI [of _ 16]) (simp add: rh_def FS_RHASH_DEFAULT_LENGTH_def)
  then have "table_ok rh" unfolding table_ok_def st
    by (auto simp: rh_def slots_ok_def blank_entry_def FS_RHASH_DEFAULT_BUCKET_SIZE_def FS_RHASH_DEFAULT_SEARCH_DIST_def)
  moreover have "tries_ok rh" using trie_ok_new [OF t0] codes_ok_new [OF t0, of "ptab rh"] by (auto simp: tries_ok_def rh_def)
  moreover have "replays rh" unfolding replays_def using t0 by (intro exI [of _ t0]) (simp add: rh_def)
  ultimately have "rhash_ok zu rh" by (simp add: rhash_ok_def rh_ok_def) (simp add: rh_def blank_entry_def)
  then show ?thesis using op st by (auto simp: rh_def)
qed

section \<open>Putting several resources\<close>

definition put_room :: "u8 list \<Rightarrow> fs_rhash \<Rightarrow> fs_resource \<Rightarrow> bool" where
  "put_room cur rh res \<longleftrightarrow> re_rid res \<noteq> 0 \<and> 0 \<notin> set (re_lex res) \<and> length (re_lex res) < 2147483648
     \<and> (FS_IS_URI (re_rid res) \<longrightarrow> prefix_room cur rh (re_lex res)) \<and> (\<exists>d. rh_room rh (re_rid res) d)"

text \<open>There is room for every resource of a list when its turn comes.\<close>

fun puts_room :: "(nat \<Rightarrow> cstr \<Rightarrow> cstr option) \<Rightarrow> u8 list \<Rightarrow> fs_resource list \<Rightarrow> rid \<Rightarrow> fs_rhash \<Rightarrow> bool" where
  "puts_room zc cur [] last_rid rh = True"
| "puts_room zc cur (r # rs) last_rid rh =
     (if re_rid r = FS_RID_NULL \<or> re_rid r = last_rid then puts_room zc cur rs last_rid rh
      else put_room cur rh r \<and> (case fs_rhash_put zc cur rh r of Some (_, rh1) \<Rightarrow> puts_room zc cur rs (re_rid r) rh1 | None \<Rightarrow> True))"

text \<open>The resource is found with its lexical form and, if it is not a URI, its attribute.\<close>

definition found :: "(nat \<Rightarrow> cstr \<Rightarrow> cstr option) \<Rightarrow> fs_rhash \<Rightarrow> fs_resource \<Rightarrow> bool" where
  "found zu rh res \<longleftrightarrow> (\<exists>a. fs_rhash_get zu rh (re_rid res) = (0, a, Lex (re_lex res)) \<and> (FS_IS_URI (re_rid res) \<or> a = re_attr res))"

definition were_put :: "(nat \<Rightarrow> cstr \<Rightarrow> cstr option) \<Rightarrow> fs_rhash \<Rightarrow> fs_resource list \<Rightarrow> fs_rhash \<Rightarrow> bool" where
  "were_put zu rh rs rh' \<longleftrightarrow> rhash_ok zu rh' \<and> stored rh' = stored rh \<union> (re_rid ` set rs - {FS_RID_NULL})
     \<and> (\<forall>r. r \<noteq> 0 \<and> (r \<in> stored rh \<or> r \<notin> re_rid ` set rs \<or> r = FS_RID_NULL) \<longrightarrow> fs_rhash_get zu rh' r = fs_rhash_get zu rh r)
     \<and> (\<forall>r \<in> re_rid ` set rs - {FS_RID_NULL} - stored rh. \<exists>x \<in> set rs. re_rid x = r \<and> found zu rh' x)"

lemma stored_nonzero: "r \<in> stored rh \<Longrightarrow> r \<noteq> 0"
  by (simp add: stored_def)

lemma put_one:
  assumes "rhash_ok zu rh" "put_room cur rh res" "zlib_ok zc zu" "length cur = FS_MAX_PREFIX_LENGTH + 1"
  shows "\<exists>rh'. fs_rhash_put zc cur rh res = Some (0, rh') \<and> rhash_ok zu rh' \<and> was_put zu rh res rh'"
proof -
  obtain d where "rh_room rh (re_rid res) d" using assms(2) by (auto simp: put_room_def)
  then obtain rh' where "fs_rhash_put zc cur rh res = Some (0, rh')" "was_put zu rh res rh'"
    using put_ok [of zu rh res zc cur d] assms by (auto simp: rhash_ok_def put_room_def)
  then show ?thesis using put_replays [of zc cur rh res "(0, rh')"] assms(1) by (auto simp: rhash_ok_def was_put_def)
qed

lemma were_put_skip: "were_put zu rh rs rh' \<Longrightarrow> re_rid x = FS_RID_NULL \<or> re_rid x \<in> stored rh \<Longrightarrow> were_put zu rh (x # rs) rh'"
  unfolding were_put_def by auto

lemma were_put_step:
  assumes one: "was_put zu rh x rh1" and rest: "were_put zu rh1 rs rh2" and x: "re_rid x \<noteq> 0" "re_rid x \<noteq> FS_RID_NULL"
  shows "were_put zu rh (x # rs) rh2"
proof -
  have st: "stored rh1 = insert (re_rid x) (stored rh)" using one by (simp add: was_put_def)
  have same1: "fs_rhash_get zu rh1 r = fs_rhash_get zu rh r" if "r \<noteq> 0" "r \<noteq> re_rid x \<or> r \<in> stored rh" for r
    using one that by (cases "r = re_rid x") (auto simp: was_put_def)
  have same2: "fs_rhash_get zu rh2 r = fs_rhash_get zu rh1 r" if "r \<noteq> 0" "r \<in> stored rh1 \<or> r \<notin> re_rid ` set rs \<or> r = FS_RID_NULL" for r
    using rest that unfolding were_put_def by blast
  have new1: "found zu rh2 x" if "re_rid x \<notin> stored rh"
    using one that same2 [of "re_rid x"] x(1) st by (simp add: was_put_def found_def)
  have new2: "\<exists>y \<in> set rs. re_rid y = r \<and> found zu rh2 y" if "r \<in> re_rid ` set rs" "r \<noteq> FS_RID_NULL" "r \<notin> stored rh1" for r
    using rest that unfolding were_put_def by blast
  show ?thesis
    unfolding were_put_def
  proof (intro conjI allI ballI impI)
    show "rhash_ok zu rh2" "stored rh2 = stored rh \<union> (re_rid ` set (x # rs) - {FS_RID_NULL})"
      using rest st x(2) unfolding were_put_def by auto
    fix r
    show "fs_rhash_get zu rh2 r = fs_rhash_get zu rh r" if "r \<noteq> 0 \<and> (r \<in> stored rh \<or> r \<notin> re_rid ` set (x # rs) \<or> r = FS_RID_NULL)"
      using that same1 [of r] same2 [of r] st x(2) by (cases "r = re_rid x") auto
    show "\<exists>y \<in> set (x # rs). re_rid y = r \<and> found zu rh2 y" if "r \<in> re_rid ` set (x # rs) - {FS_RID_NULL} - stored rh"
      using that new1 new2 [of r] st by (cases "r = re_rid x") auto
  qed
qed

lemma put_all_ok:
  assumes "zlib_ok zc zu" "length cur = FS_MAX_PREFIX_LENGTH + 1"
  shows "rhash_ok zu rh \<Longrightarrow> puts_room zc cur rs last_rid rh \<Longrightarrow> last_rid = FS_RID_NULL \<or> last_rid \<in> stored rh
    \<Longrightarrow> \<exists>rh'. put_all zc cur rs last_rid rh = Some (0, rh') \<and> were_put zu rh rs rh'"
proof (induction rs arbitrary: last_rid rh)
  case Nil
  then show ?case by (auto simp: were_put_def)
next
  case (Cons x rs)
  show ?case
  proof (cases "re_rid x = FS_RID_NULL \<or> re_rid x = last_rid")
    case True
    then have "put_all zc cur (x # rs) last_rid rh = put_all zc cur rs last_rid rh" by auto
    moreover obtain rh' where "put_all zc cur rs last_rid rh = Some (0, rh')" "were_put zu rh rs rh'" using Cons.IH [OF Cons.prems(1) _ Cons.prems(3)] Cons.prems(2) True by auto
    ultimately show ?thesis using were_put_skip [of zu rh rs rh' x] True Cons.prems(3) by auto
  next
    case False
    then have room: "put_room cur rh x" using Cons.prems(2) by simp
    from put_one [OF Cons.prems(1) this assms] obtain rh1 where rh1: "fs_rhash_put zc cur rh x = Some (0, rh1)" "rhash_ok zu rh1" "was_put zu rh x rh1" by blast
    have "puts_room zc cur rs (re_rid x) rh1" using Cons.prems(2) False rh1(1) by simp
    moreover have "re_rid x \<in> stored rh1" using rh1(3) by (simp add: was_put_def)
    ultimately obtain rh2 where "put_all zc cur rs (re_rid x) rh1 = Some (0, rh2)" "were_put zu rh1 rs rh2" using Cons.IH [OF rh1(2)] by blast
    then show ?thesis using were_put_step [OF rh1(3)] room False rh1(1) by (auto simp: put_room_def)
  qed
qed

lemma were_put_cong: "set rs = set rs' \<Longrightarrow> were_put zu rh rs = were_put zu rh rs'"
  by (simp add: were_put_def fun_eq_iff)

lemma put_multi_ok:
  assumes "rhash_ok zu rh" "zlib_ok zc zu" "length cur = FS_MAX_PREFIX_LENGTH + 1"
    "puts_room zc cur (qsort (\<lambda>a b. sort_by_hash rh (re_rid a) (re_rid b)) rs) FS_RID_NULL rh"
  shows "\<exists>rh'. fs_rhash_put_multi zc cur rh rs = Some (0, rh') \<and> were_put zu rh rs rh'"
  using put_all_ok [OF assms(2,3,1,4)] were_put_cong [OF set_qsort] by (fastforce simp: fs_rhash_put_multi_def)

section \<open>The buffer of the import\<close>

lemma import_small:
  "length (rs_buffer st) + length rs < RES_BUF_SIZE \<Longrightarrow> fs_res_import zc cur st rs = Some (0, st\<lparr>rs_buffer := rs_buffer st @ rs\<rparr>)"
  by (cases "rs = []") (simp_all add: fs_res_import.simps [of zc cur st rs] fs_res_import.simps [of zc cur _ "[]"])

lemma stored_get: "rhash_ok zu rh \<Longrightarrow> r \<in> stored rh \<Longrightarrow> fst (fs_rhash_get zu rh r) = 0"
proof -
  assume ok: "rhash_ok zu rh" and "r \<in> stored rh"
  then obtain n where n: "r \<noteq> 0" "en_rid (rh_entries rh n) = r" by (auto simp: stored_def)
  have t: "table_ok rh" using ok by (simp add: rhash_ok_def rh_ok_def)
  obtain a s where "get_entry zu rh (rh_entries rh n) = (0, a, Lex s)" using ok n unfolding rhash_ok_def rh_ok_def by auto
  then show ?thesis using get_found [OF t n(2,1), of zu] by simp
qed

lemma resolve_all:
  assumes "rhash_ok zu (rs_res st)" "\<And>r. r \<in> set v \<Longrightarrow> FS_IS_BNODE r \<or> r \<in> stored (rs_res st)"
  shows "\<exists>out. fs_resolve zu st v = (0, out) \<and> mset out = mset (map (\<lambda>r. (r, snd (fs_resolve_rid zu st r))) v)"
proof -
  have one: "get_one zu (rs_res st) = fs_resolve_rid zu st" by (simp add: fun_eq_iff get_one_def fs_resolve_rid_def)
  have "fst (fs_resolve_rid zu st r) = 0" if "r \<in> set v" for r using assms(2) [OF that] stored_get [OF assms(1), of r] by (auto simp: fs_resolve_rid_def)
  then have z: "sum_list (map (\<lambda>r. fst (fs_resolve_rid zu st r)) (qsort (sort_by_hash (rs_res st)) v)) = 0" by simp
  have m: "mset (map f (qsort cmp xs)) = mset (map f xs)" for f :: "rid \<Rightarrow> rid \<times> rid \<times> lex_out" and cmp xs by simp
  show ?thesis unfolding fs_resolve_def fs_rhash_get_multi_def Let_def one z using m by blast
qed

section \<open>A fresh hash\<close>

lemma fresh_room:
  assumes "stored rh = {}" "rh_size rh = FS_RHASH_DEFAULT_LENGTH" "rh_bucket_size rh = FS_RHASH_DEFAULT_BUCKET_SIZE" "rh_search_dist rh = FS_RHASH_DEFAULT_SEARCH_DIST"
  shows "rh_room rh r 0"
  using assms by (simp add: rh_room_def FS_RHASH_DEFAULT_LENGTH_def FS_RHASH_DEFAULT_BUCKET_SIZE_def FS_RHASH_DEFAULT_SEARCH_DIST_def)

lemma zlib_some: "zlib_ok (\<lambda>n x. if length x \<le> n then Some x else None) (\<lambda>n y. if length y \<le> n then Some y else None)"
  by (auto simp: zlib_ok_def)

lemma fresh_lits:
  assumes "rhash_ok zu rh" "stored rh = {}" "rh_size rh = FS_RHASH_DEFAULT_LENGTH" "rh_bucket_size rh = FS_RHASH_DEFAULT_BUCKET_SIZE"
    "rh_search_dist rh = FS_RHASH_DEFAULT_SEARCH_DIST" "re_rid x \<noteq> 0" "0 \<notin> set (re_lex x)" "length (re_lex x) < 2147483648" "\<not> FS_IS_URI (re_rid x)"
  shows "put_room cur rh x"
  using assms fresh_room [OF assms(2-5), of "re_rid x"] by (auto simp: put_room_def)

section \<open>Properties\<close>







text \<open>The null attribute with another low byte.\<close>

lemma null_low_byte: "rd64 ((le64 FS_RID_NULL)[0 := c]) = FS_RID_NULL OR ucast c"
proof -
  have "le64 FS_RID_NULL = [0, 0, 0, 0, 0, 0, 0, 0x80]" by (simp add: le64_def FS_RID_NULL_def upt_rec)
  then show ?thesis by (simp add: rd64_def FS_RID_NULL_def or.commute)
qed

lemma null_low_byte_ne: "c \<noteq> 0 \<Longrightarrow> FS_RID_NULL OR ucast (c :: u8) \<noteq> FS_RID_NULL"
proof
  assume c: "c \<noteq> 0" and e: "FS_RID_NULL OR ucast c = FS_RID_NULL"
  obtain n where n: "bit c n" using c by (metis bit_0_eq bit_eq_iff bot_apply bot_bool_def)
  then have "n < 8" using bit_imp_le_length [OF n] by simp
  moreover have "bit (FS_RID_NULL OR ucast c) n" using n \<open>n < 8\<close> by (simp add: bit_simps)
  moreover have "FS_RID_NULL = push_bit 63 1" by (simp add: FS_RID_NULL_def)
  ultimately have "bit (push_bit 63 (1 :: rid)) n" unfolding e by (simp only:)
  then have "63 \<le> n" by (simp only: bit_push_bit_iff)
  then show False using \<open>n < 8\<close> by simp
qed

text \<open>C21: a URI of a known prefix with a suffix of more than 22 bytes is read back with its lexical form, but its attribute is not
  the one it was put with: the low byte of the null attribute holds the code of the prefix, which the reader removes for short
  suffixes only.\<close>

theorem long_suffix_attribute:
  assumes "pack_prefix code suffix e rh = (e', rh')" "0 < code" "code < int (rh_prefix_count rh)" "rh_prefix_count rh \<le> FS_MAX_PREFIXES"
    "en_aval e = le64 FS_RID_NULL" "en_val e = Str (replicate INLINE_STR_LEN 0)" "0 \<notin> set suffix" "22 < length suffix" "length suffix < 2147483648"
  shows "get_entry zu rh' e' = (0, FS_RID_NULL OR word_of_int code, Lex (rh_prefix_strings rh ! nat code @ suffix)) \<and> FS_RID_NULL OR word_of_int code \<noteq> FS_RID_NULL"
proof -
  obtain a where a: "get_entry zu rh' e' = (0, a, Lex (rh_prefix_strings rh ! nat code @ suffix))"
    using pack_prefix_ok(5) [OF assms(1-4) _ assms(6,7), of zu] assms(5,9) by auto
  have e: "en_disp e' = DISP_F_PREFIX" "en_aval e' = (le64 FS_RID_NULL)[0 := word_of_int code]" using assms(1,5,8) by (auto simp: pack_prefix_def Let_def)
  have "a = rd64 (en_aval e')" using a e(1) by (auto simp: get_entry_def Let_def split: option.splits)
  then have "a = FS_RID_NULL OR ucast (word_of_int code :: u8)" unfolding e(2) null_low_byte .
  moreover have c: "code < 256" "0 \<le> code" using assms(2-4) by (simp_all add: FS_MAX_PREFIXES_def)
  then have "ucast (word_of_int code :: u8) = (word_of_int code :: rid)" by (simp add: unsigned_of_int take_bit_int_eq_self)
  moreover have "unat (word_of_int code :: u8) = nat code" using c by (simp add: unsigned_of_int take_bit_int_eq_self)
  then have "(word_of_int code :: u8) \<noteq> 0" using assms(2) by (metis nat_0_iff not_le unat_0)
  ultimately show ?thesis using a null_low_byte_ne [of "word_of_int code"] by simp
qed

theorem long_suffix_attribute_witness:
  "\<exists>rh e' rh'. pack_prefix 1 (replicate 23 97) \<lparr>en_rid = 0xC000000000000001, en_aval = le64 FS_RID_NULL, en_val = Str (replicate INLINE_STR_LEN 0), en_disp = DISP_BLANK\<rparr> rh = (e', rh')
     \<and> get_entry (\<lambda>n y. None) rh' e' = (0, FS_RID_NULL OR 1, Lex (map of_char ''http://'' @ replicate 23 97))"
proof -
  obtain rh0 where "fs_rhash_open_filename True \<lparr>rf_header = None, rf_entries = \<lambda>_. blank_entry, rf_lex = [], rf_prefixes = []\<rparr> = Some rh0"
    using fresh_ok [of _ "\<lambda>n y. None"] by blast
  let ?rh = "rh0\<lparr>rh_prefix_strings := [map of_char ''urn:'', map of_char ''http://'']\<rparr>" and ?e = "\<lparr>en_rid = 0xC000000000000001, en_aval = le64 FS_RID_NULL, en_val = Str (replicate INLINE_STR_LEN 0), en_disp = DISP_BLANK\<rparr>"
  obtain e' rh' where p: "pack_prefix 1 (replicate 23 97) ?e ?rh = (e', rh')" by (cases "pack_prefix 1 (replicate 23 97) ?e ?rh")
  from long_suffix_attribute [OF p, of "\<lambda>n y. None"] have "get_entry (\<lambda>n y. None) rh' e' = (0, FS_RID_NULL OR 1, Lex (map of_char ''http://'' @ replicate 23 97))"
    by (simp add: FS_MAX_PREFIXES_def)
  then show ?thesis using p by blast
qed

end
