(* ===== verification/Spec2Isabelle.thy ===== *)
theory Spec2Isabelle
  imports RidSet BitArr DecimalMul DecimalLex AdminCommon QueryGraph QueryReverse RhashStore
begin

text \<open>
  \<^bold>\<open>4store: a verification development.\<close>

  4store is a clustered RDF store written in C.  A cluster has storage nodes that each keep some
  segments of the data (\<open>src/src/backend\<close>), query front ends (\<open>src/src/frontend\<close>, \<open>src/src/http\<close>), a
  protocol between them (\<open>src/src/common\<close>) and daemons that start and stop the stores
  (\<open>src/src/admin\<close>).  Every RDF resource is a 64-bit identifier.  A segment stores its quads in radix
  trees keyed by subject or object, one pair of trees per predicate; the leaves of a tree are chains
  of rows in a shared pair table.  The triples of a named graph are also kept in a chain of triple
  blocks, which deletions leave stale and which an iterator checks against the trees.

  \<^bold>\<open>Conventions.\<close>  A C structure is a record, a mapped file is a record with a total function from
  indices to slots and its size, and every access outside the mapped part, every read of an
  uninitialised branch and every loop that does not end is \<open>None\<close>; so a theorem that an operation
  equals \<open>Some r\<close> says that it returns and stays in bounds.  Identifiers are 64-bit words; counters are
  natural numbers or words with their wrap-around written out.  Loops that follow links in a file are
  \<open>partial_function (option)\<close>, the others structural recursions.  Each component has an abstraction
  (a finite map, a list, a set, an integer) and its theorems are refinements of operations on it.

  \<^bold>\<open>Theories and sources.\<close>

  \<^item> \<open>Prelude\<close>: types of machine words, checked list access, lemmas on lists and finite maps.
  \<^item> \<open>Rid\<close>: identifier layout (\<open>common/4s-datatypes.h\<close>, \<open>common/4s-hash.h\<close>); each kind is a test of the
    two top bits, the kinds are exclusive, and a segment number is a remainder.
  \<^item> \<open>Hash\<close>: identifiers of strings (\<open>common/hash.c\<close>, \<open>common/rdf-constants.h\<close>): \<open>fs_hash_uri\<close>,
    \<open>fs_hash_literal\<close>, the predefined resources, blank node names in results.  The hash function UMAC is
    an argument \<open>umac\<close> and no theorem assumes anything of it.
  \<^item> \<open>CQsort\<close>, \<open>RidVector\<close>, \<open>RidSet\<close>: vectors and hash sets of identifiers (\<open>common/datatypes.c\<close>): appending,
    sorting and removing duplicates, membership, iteration.  The C library's \<open>qsort\<close> is modelled by
    what it promises.
  \<^item> \<open>BitArr\<close>: the bit arrays that mark discarded rows (\<open>common/bit_arr.c\<close>).
  \<^item> \<open>Arena\<close>: ownership of slots by a free list and by the chains of a family of keys; locale for the
    tables below.
  \<^item> \<open>Ptable\<close>: the pair table (\<open>backend/ptable.c\<close>): rows, free list, growth, chains; adding and removing
    pairs are list operations on one chain that leave all others alone.
  \<^item> \<open>Ptree\<close>, \<open>PtreeHeap\<close>, \<open>PtreeFind\<close>, \<open>PtreeOps\<close>, \<open>PtreeBulk\<close>: the radix tree (\<open>backend/ptree.c\<close>): its
    definitions; the heap of nodes and leaves and the tree it represents; search; insertion, removal
    and lookup with iterator; removal from every key and traversal.  The abstraction is a finite map
    from keys to lists of pairs.
  \<^item> \<open>Tbchain\<close>, \<open>TbchainIter\<close>: chains of triple blocks (\<open>backend/tbchain.c\<close>); the iterator's theorem rests on
    the refinement theorems of the radix tree that it consults.
  \<^item> \<open>Mhash\<close>: the hash file from graphs to their entries in the model index (\<open>backend/mhash.c\<close>): insertion refines
    the update of a finite map, doubling the file where needed; lookup agrees with it except at the one
    position that insertion uses and lookup does not.
  \<^item> \<open>FsList\<close>: list files and row orders (\<open>backend/list.c\<close>, \<open>backend/sort.c\<close>): buffered appending, sorting by
    chunks and the merge that reads the chunks in order and without duplicates.
  \<^item> \<open>Tlist\<close>: triple list files of graphs (\<open>backend/tlist.c\<close>).
  \<^item> \<open>Forest\<close>: several radix trees on one pair table, with the refinement lemmas of \<open>PtreeOps\<close> and \<open>PtreeBulk\<close>
    restated for a family of trees, so that an operation on one tree leaves the maps of all others alone.
  \<^item> \<open>Backend\<close>: the state of a segment (\<open>backend/backend.c\<close>, \<open>backend/backend-intl.h\<close>): the directory of predicate
    trees, the ring of at most 300 open ones, opening and closing all files, usage of graphs.  A tree
    that is closed keeps its file; a step relation shows the invariant along every run.
  \<^item> \<open>ImportBackend\<close>, \<open>DeleteBackend\<close>: importing quads through the sorted buffer, and deleting quads by
    pattern and whole graphs (\<open>backend/import-backend.c\<close>).  The invariant \<open>be_sound\<close> says that the trees keyed
    by subject and by object hold the same quads and that the chains of the model index list at least
    the triples of their graph, and no others when they are not marked as supersets.
  \<^item> \<open>QueryBackend\<close>, \<open>QueryBind\<close>, \<open>QueryGraph\<close>, \<open>QueryReverse\<close>: bind requests (\<open>backend/query-backend.c\<close>): the
    definitions; the branches that search and traverse trees, as lists of quads appended up to the limit,
    with a locale for the iterators; requests for whole graphs, answered from the model index; reverse
    binding as an intersection.
  \<^item> \<open>PrefixTrie\<close>, \<open>PrefixOps\<close>: the tries of URI prefixes (\<open>backend/prefix-trie.c\<close>): the arena of nodes and the tree it
    represents; counts of strings, also when a subtree is freed to make space; codes, which are only returned
    for prefixes that have them; the choice of prefixes.
  \<^item> \<open>Bcd\<close>, \<open>Rhash\<close>, \<open>RhashOps\<close>, \<open>RhashTable\<close>, \<open>RhashStore\<close>: the resource hash (\<open>backend/rhash.c\<close>): numbers and dates in
    half bytes, with a locale for the two alphabets; the definitions; every way of packing a lexical form is undone by
    reading; places in the table and its doubling; putting one and several resources, opening the files again,
    and the buffer of the import and the resolver of the backend on top (\<open>fs_res_import\<close>, \<open>fs_resolve\<close>).
  \<^item> \<open>Decimal\<close>, \<open>DecimalMul\<close>, \<open>DecimalLex\<close>: fixed-point decimals of the query engine
    (\<open>frontend/decimal.c\<close>): 42 digits in ten's complement, with their value as an integer multiple of
    \<open>10 ^ -20\<close>; addition, comparison, multiplication with its error bound, division's error results,
    lexical forms and 64-bit integers.
  \<^item> \<open>AdminProtocol\<close>, \<open>AdminCommon\<close>: the packets of the administration protocol
    (\<open>admin/admin_protocol.c\<close>) with every write and read checked against the packet, and the checks
    and the list merge sort of \<open>admin/admin_common.c\<close>.

  \<^bold>\<open>Bounds.\<close>  Tables are below \<open>2 ^ 31\<close> rows and trees below the number of nodes that a 32-bit reference
  can name (hypotheses \<open>pt_room\<close>, \<open>tb_room\<close> and the like), so that growth does not wrap; without them the C
  code overflows.  The room hypotheses of an import (\<open>pass_room\<close>, \<open>import_room\<close>) are stated along its run;
  \<open>mh_room\<close> says that the model hash can double until the new entry fits; sorted lists are below \<open>2 ^ 31\<close>
  bytes, and a theorem shows what happens above.  A put into the resource hash has room (\<open>rh_room\<close>) when after some number
  of doublings the table is below \<open>2 ^ 31\<close> entries and fewer identifiers than a window holds are near the new one, and, for a URI, when
  the trie of codes has nodes for the prefixes that it may learn (\<open>prefix_room\<close>); lexical forms are below \<open>2 ^ 31\<close> bytes.  zlib is a pair
  of arguments with the hypothesis \<open>zlib_ok\<close> that uncompressing undoes compressing.  There is no fuel in the development: every loop is shown to end where a theorem
  says that the operation returns.

  \<^bold>\<open>Not modelled.\<close>  The files themselves (\<open>open\<close>, \<open>mmap\<close>, \<open>msync\<close>, locks) and failures of reading and writing them, printing and
  statistics, and the checks of existing files; the metadata of a store; floating point conversions of decimals; the chain, tree and
  bucket formats of earlier versions, which the segment no longer uses; the third-party code in the tree (UMAC, Rijndael, MD5, the
  stemmers, double metaphone, the random number generator); the code whose behaviour is that of GLib, raptor, rasqal, PCRE or
  sockets: the cluster protocol's client and server, the HTTP server, the query engine with its filters and results, import and
  update, the daemons and the command line tools.
\<close>

end
